(* ===== verification/Prelude.thy ===== *)
theory Prelude
  imports Main "HOL-Library.Word"
begin

text \<open>
  Shared vocabulary of the GF-NetStack development: bytes, C \<open>size_t\<close> arithmetic, the flat byte
  memory the record buffers live in, the collections of facts the component proofs use, and the
  generic lemmas on them.

  \<^item> \<open>byte\<close> is \<open>unsigned char\<close>, \<open>u16\<close>, \<open>u32\<close> and \<open>u64\<close> are the fixed-width C types.
  \<^item> A \<open>size_t\<close> value is a \<open>nat\<close> below \<open>2 ^ 64\<close>; \<open>sz_add\<close> and \<open>sz_sub\<close> are C's addition and
    subtraction on it, with the wrap-around written out.
  \<^item> Memory is a function from addresses to bytes; \<open>load\<close> and \<open>store\<close> are \<open>memcpy\<close> out of it and
    into it. A pointer is an address, a pointer that may be \<open>NULL\<close> an \<open>addr option\<close>.
\<close>

unbundle bit_operations_syntax

section \<open>Types and fact collections\<close>

type_synonym byte = "8 word"
type_synonym u16 = "16 word"
type_synonym u32 = "32 word"
type_synonym u64 = "64 word"
type_synonym addr = nat
type_synonym mem = "addr \<Rightarrow> byte"

named_theorems mem_simps "load and store over the byte memory"
named_theorems sz_simps "size_t arithmetic without wrap-around"

section \<open>C size_t arithmetic\<close>

definition sz_add :: "nat \<Rightarrow> nat \<Rightarrow> nat" where
  "sz_add a b = (a + b) mod 2 ^ 64"

definition sz_sub :: "nat \<Rightarrow> nat \<Rightarrow> nat" where
  "sz_sub a b = (if b \<le> a then a - b else a + 2 ^ 64 - b) mod 2 ^ 64"

lemma sz_add_exact [sz_simps]: "a + b < 2 ^ 64 \<Longrightarrow> sz_add a b = a + b"
  by (simp add: sz_add_def)

lemma sz_sub_exact [sz_simps]: "b \<le> a \<Longrightarrow> a < 2 ^ 64 \<Longrightarrow> sz_sub a b = a - b"
  by (simp add: sz_sub_def)

lemma sz_sub_self [simp]: "sz_sub a a = 0"
  by (simp add: sz_sub_def)

text \<open>A C \<open>int\<close> obtained by converting a wider value: reduction into two's complement.\<close>

definition to_int :: "int \<Rightarrow> int" where
  "to_int x = signed_take_bit 31 x"

lemma to_int_exact [sz_simps]: "- (2 ^ 31) \<le> x \<Longrightarrow> x < 2 ^ 31 \<Longrightarrow> to_int x = x"
  by (simp add: to_int_def signed_take_bit_int_eq_self)

section \<open>Byte memory\<close>

definition load :: "mem \<Rightarrow> addr \<Rightarrow> nat \<Rightarrow> byte list" where
  "load m p n = map m [p..<p + n]"

definition store :: "mem \<Rightarrow> addr \<Rightarrow> byte list \<Rightarrow> mem" where
  "store m p xs = (\<lambda>a. if p \<le> a \<and> a < p + length xs then xs ! (a - p) else m a)"

lemma length_load [simp]: "length (load m p n) = n"
  by (simp add: load_def)

lemma load_0 [simp]: "load m p 0 = []"
  by (simp add: load_def)

lemma nth_load [simp]: "i < n \<Longrightarrow> load m p n ! i = m (p + i)"
  by (simp add: load_def)

lemma load_eqI: "length xs = n \<Longrightarrow> (\<And>i. i < n \<Longrightarrow> m (p + i) = xs ! i) \<Longrightarrow> load m p n = xs"
  by (rule nth_equalityI) auto

lemma load_cong: "(\<And>a. p \<le> a \<Longrightarrow> a < p + n \<Longrightarrow> m a = m' a) \<Longrightarrow> load m p n = load m' p n"
  by (simp add: load_def)

lemma load_add: "load m p (n + k) = load m p n @ load m (p + n) k"
  by (rule load_eqI) (auto simp: nth_append)

lemma load_split:
  "load m p (n + k) = load m' p' (n + k) \<Longrightarrow>
    load m p n = load m' p' n \<and> load m (p + n) k = load m' (p' + n) k"
  by (simp add: load_add)

lemma load_Suc: "load m p (Suc n) = m p # load m (Suc p) n"
  by (simp add: load_def upt_conv_Cons del: upt_Suc)

lemma take_load [simp]: "take k (load m p n) = load m p (min k n)"
  by (simp add: load_def take_map min_def)

lemma drop_load [simp]: "drop k (load m p n) = load m (p + k) (n - k)"
  by (rule nth_equalityI) (auto simp: add.assoc)

lemma store_Nil [simp]: "store m p [] = m"
  by (rule ext) (auto simp: store_def)

lemma store_outside [mem_simps]: "a < p \<or> p + length xs \<le> a \<Longrightarrow> store m p xs a = m a"
  by (auto simp: store_def)

lemma store_inside [mem_simps]: "p \<le> a \<Longrightarrow> a < p + length xs \<Longrightarrow> store m p xs a = xs ! (a - p)"
  by (simp add: store_def)

lemma load_store [simp]: "length xs = n \<Longrightarrow> load (store m p xs) p n = xs"
  by (rule load_eqI) (auto simp: store_def)

lemma load_store_disjoint [mem_simps]:
  "q + n \<le> p \<or> p + length xs \<le> q \<Longrightarrow> load (store m p xs) q n = load m q n"
  by (rule load_cong) (auto simp: store_def)

lemma store_append: "store m p (xs @ ys) = store (store m p xs) (p + length xs) ys"
  by (rule ext) (auto simp: store_def nth_append)

lemma store_store_same [simp]: "length xs = length ys \<Longrightarrow> store (store m p xs) p ys = store m p ys"
  by (rule ext) (auto simp: store_def)

lemma store_load_self [simp]: "store m p (load m p n) = m"
  by (rule ext) (auto simp: store_def)

text \<open>Whether two blocks of memory share an address.\<close>

definition blocks_overlap :: "addr \<Rightarrow> nat \<Rightarrow> addr \<Rightarrow> nat \<Rightarrow> bool" where
  "blocks_overlap p n q k \<longleftrightarrow> p < q + k \<and> q < p + n \<and> 0 < n \<and> 0 < k"

lemma blocks_overlap_iff:
  "blocks_overlap p n q k \<longleftrightarrow> (\<exists>a. p \<le> a \<and> a < p + n \<and> q \<le> a \<and> a < q + k)"
proof
  assume "blocks_overlap p n q k"
  then have "p \<le> max p q \<and> max p q < p + n \<and> q \<le> max p q \<and> max p q < q + k"
    by (auto simp: blocks_overlap_def)
  then show "\<exists>a. p \<le> a \<and> a < p + n \<and> q \<le> a \<and> a < q + k" by blast
qed (auto simp: blocks_overlap_def)

section \<open>Lists of bytes\<close>

text \<open>XOR of two byte strings, position by position.\<close>

definition xor_bytes :: "byte list \<Rightarrow> byte list \<Rightarrow> byte list" where
  "xor_bytes xs ys = map2 (XOR) xs ys"

lemma length_xor_bytes [simp]: "length (xor_bytes xs ys) = min (length xs) (length ys)"
  by (simp add: xor_bytes_def)

lemma xor_bytes_cancel [simp]:
  "length xs = length ys \<Longrightarrow> xor_bytes (xor_bytes xs ys) ys = xs"
  by (induction xs ys rule: list_induct2) (simp_all add: xor_bytes_def xor.assoc)

end
