(* ===== verification/Codec.thy ===== *)
theory Codec
  imports Prelude
begin

text \<open>
  The integer codecs of BearSSL: the inline \<open>br_enc*\<close> and \<open>br_dec*\<close> functions of
  \<^verbatim>\<open>bearssl/src/inner.h\<close> and the range functions of \<^verbatim>\<open>bearssl/src/codec/\<close>, with the
  constant-time multiplexer \<open>MUX\<close> and the conditional copy \<open>br_ccopy\<close> built on it.

  An encoder is the list of bytes it writes at its destination, in address order; a decoder reads
  the memory at its source address. The portable branch of each function is modelled (the other
  branch is the same value read through a union on machines of that endianness).
\<close>

unbundle bit_operations_syntax

section \<open>Single values\<close>

definition br_enc16le :: "u32 \<Rightarrow> byte list" where
  "br_enc16le x = [ucast x, ucast (drop_bit 8 x)]"

definition br_enc16be :: "u32 \<Rightarrow> byte list" where
  "br_enc16be x = [ucast (drop_bit 8 x), ucast x]"

definition br_dec16le :: "mem \<Rightarrow> addr \<Rightarrow> u32" where
  "br_dec16le m p = ucast (m p) OR push_bit 8 (ucast (m (p + 1)))"

definition br_dec16be :: "mem \<Rightarrow> addr \<Rightarrow> u32" where
  "br_dec16be m p = push_bit 8 (ucast (m p)) OR ucast (m (p + 1))"

definition br_enc32le :: "u32 \<Rightarrow> byte list" where
  "br_enc32le x = [ucast x, ucast (drop_bit 8 x), ucast (drop_bit 16 x), ucast (drop_bit 24 x)]"

definition br_enc32be :: "u32 \<Rightarrow> byte list" where
  "br_enc32be x = [ucast (drop_bit 24 x), ucast (drop_bit 16 x), ucast (drop_bit 8 x), ucast x]"

definition br_dec32le :: "mem \<Rightarrow> addr \<Rightarrow> u32" where
  "br_dec32le m p = ucast (m p) OR push_bit 8 (ucast (m (p + 1)))
     OR push_bit 16 (ucast (m (p + 2))) OR push_bit 24 (ucast (m (p + 3)))"

definition br_dec32be :: "mem \<Rightarrow> addr \<Rightarrow> u32" where
  "br_dec32be m p = push_bit 24 (ucast (m p)) OR push_bit 16 (ucast (m (p + 1)))
     OR push_bit 8 (ucast (m (p + 2))) OR ucast (m (p + 3))"

definition br_enc64le :: "u64 \<Rightarrow> byte list" where
  "br_enc64le x = br_enc32le (ucast x) @ br_enc32le (ucast (drop_bit 32 x))"

definition br_enc64be :: "u64 \<Rightarrow> byte list" where
  "br_enc64be x = br_enc32be (ucast (drop_bit 32 x)) @ br_enc32be (ucast x)"

definition br_dec64le :: "mem \<Rightarrow> addr \<Rightarrow> u64" where
  "br_dec64le m p = ucast (br_dec32le m p) OR push_bit 32 (ucast (br_dec32le m (p + 4)))"

definition br_dec64be :: "mem \<Rightarrow> addr \<Rightarrow> u64" where
  "br_dec64be m p = push_bit 32 (ucast (br_dec32be m p)) OR ucast (br_dec32be m (p + 4))"

lemma length_enc [simp]:
  "length (br_enc16le x) = 2" "length (br_enc16be x) = 2"
  "length (br_enc32le x) = 4" "length (br_enc32be x) = 4"
  "length (br_enc64le y) = 8" "length (br_enc64be y) = 8"
  by (simp_all add: br_enc16le_def br_enc16be_def br_enc32le_def br_enc32be_def
      br_enc64le_def br_enc64be_def)

section \<open>Ranges of values\<close>

fun br_range_dec16le :: "nat \<Rightarrow> mem \<Rightarrow> addr \<Rightarrow> u16 list" where
  "br_range_dec16le 0 m buf = []"
| "br_range_dec16le (Suc num) m buf = ucast (br_dec16le m buf) # br_range_dec16le num m (buf + 2)"

fun br_range_dec16be :: "nat \<Rightarrow> mem \<Rightarrow> addr \<Rightarrow> u16 list" where
  "br_range_dec16be 0 m buf = []"
| "br_range_dec16be (Suc num) m buf = ucast (br_dec16be m buf) # br_range_dec16be num m (buf + 2)"

fun br_range_dec32le :: "nat \<Rightarrow> mem \<Rightarrow> addr \<Rightarrow> u32 list" where
  "br_range_dec32le 0 m buf = []"
| "br_range_dec32le (Suc num) m buf = br_dec32le m buf # br_range_dec32le num m (buf + 4)"

fun br_range_dec32be :: "nat \<Rightarrow> mem \<Rightarrow> addr \<Rightarrow> u32 list" where
  "br_range_dec32be 0 m buf = []"
| "br_range_dec32be (Suc num) m buf = br_dec32be m buf # br_range_dec32be num m (buf + 4)"

fun br_range_dec64le :: "nat \<Rightarrow> mem \<Rightarrow> addr \<Rightarrow> u64 list" where
  "br_range_dec64le 0 m buf = []"
| "br_range_dec64le (Suc num) m buf = br_dec64le m buf # br_range_dec64le num m (buf + 8)"

fun br_range_dec64be :: "nat \<Rightarrow> mem \<Rightarrow> addr \<Rightarrow> u64 list" where
  "br_range_dec64be 0 m buf = []"
| "br_range_dec64be (Suc num) m buf = br_dec64be m buf # br_range_dec64be num m (buf + 8)"

fun br_range_enc16le :: "mem \<Rightarrow> addr \<Rightarrow> u16 list \<Rightarrow> mem" where
  "br_range_enc16le m buf [] = m"
| "br_range_enc16le m buf (v # vs) = br_range_enc16le (store m buf (br_enc16le (ucast v))) (buf + 2) vs"

fun br_range_enc16be :: "mem \<Rightarrow> addr \<Rightarrow> u16 list \<Rightarrow> mem" where
  "br_range_enc16be m buf [] = m"
| "br_range_enc16be m buf (v # vs) = br_range_enc16be (store m buf (br_enc16be (ucast v))) (buf + 2) vs"

fun br_range_enc32le :: "mem \<Rightarrow> addr \<Rightarrow> u32 list \<Rightarrow> mem" where
  "br_range_enc32le m buf [] = m"
| "br_range_enc32le m buf (v # vs) = br_range_enc32le (store m buf (br_enc32le v)) (buf + 4) vs"

fun br_range_enc32be :: "mem \<Rightarrow> addr \<Rightarrow> u32 list \<Rightarrow> mem" where
  "br_range_enc32be m buf [] = m"
| "br_range_enc32be m buf (v # vs) = br_range_enc32be (store m buf (br_enc32be v)) (buf + 4) vs"

fun br_range_enc64le :: "mem \<Rightarrow> addr \<Rightarrow> u64 list \<Rightarrow> mem" where
  "br_range_enc64le m buf [] = m"
| "br_range_enc64le m buf (v # vs) = br_range_enc64le (store m buf (br_enc64le v)) (buf + 8) vs"

fun br_range_enc64be :: "mem \<Rightarrow> addr \<Rightarrow> u64 list \<Rightarrow> mem" where
  "br_range_enc64be m buf [] = m"
| "br_range_enc64be m buf (v # vs) = br_range_enc64be (store m buf (br_enc64be v)) (buf + 8) vs"

section \<open>Constant-time selection\<close>

definition MUX :: "u32 \<Rightarrow> u32 \<Rightarrow> u32 \<Rightarrow> u32" where
  "MUX ctl x y = y XOR (- ctl AND (x XOR y))"

text \<open>\<open>br_ccopy ctl dst src len\<close> walks both arrays one byte at a time, from the first on.\<close>

fun br_ccopy :: "u32 \<Rightarrow> mem \<Rightarrow> addr \<Rightarrow> addr \<Rightarrow> nat \<Rightarrow> mem" where
  "br_ccopy ctl m d s 0 = m"
| "br_ccopy ctl m d s (Suc len) =
     br_ccopy ctl (m(d := ucast (MUX ctl (ucast (m s)) (ucast (m d))))) (d + 1) (s + 1) len"

section \<open>Bytes of a word and the word of its bytes\<close>

lemma byte_high_0 [simp]: "8 \<le> n \<Longrightarrow> \<not> bit (b :: byte) n"
  using bit_imp_le_length [of b n] by auto

lemma join16: "push_bit 8 (ucast (ucast (drop_bit 8 x) :: byte)) OR ucast (ucast x :: byte)
    = take_bit 16 (x :: u32)"
    (is "?l = ?r")
proof (rule bit_word_eqI)
  fix n show "bit ?l n = bit ?r n" if "n < LENGTH(32)"
    using that by (cases "n < 8"; cases "n < 16") (auto simp: bit_simps)
qed

lemma join32: "push_bit 24 (ucast (ucast (drop_bit 24 x) :: byte))
      OR push_bit 16 (ucast (ucast (drop_bit 16 x) :: byte))
      OR push_bit 8 (ucast (ucast (drop_bit 8 x) :: byte)) OR ucast (ucast x :: byte) = (x :: u32)"
    (is "?l = x")
proof (rule bit_word_eqI)
  fix n show "bit ?l n = bit x n" if "n < LENGTH(32)"
    using that by (cases "n < 8"; cases "n < 16"; cases "n < 24") (simp_all add: bit_simps, arith+)
qed

lemma join64: "push_bit 32 (ucast (ucast (drop_bit 32 x) :: u32)) OR ucast (ucast x :: u32) = (x :: u64)"
    (is "?l = x")
proof (rule bit_word_eqI)
  fix n show "bit ?l n = bit x n" if "n < LENGTH(64)"
    using that by (cases "n < 32") (simp_all add: bit_simps, arith)
qed

lemma load_2: "load m p 2 = [m p, m (p + 1)]"
  by (simp add: load_def numeral_2_eq_2)

lemma load_4: "load m p 4 = [m p, m (p + 1), m (p + 2), m (p + 3)]"
  by (rule load_eqI) (auto simp: less_Suc_eq numeral_eq_Suc)

lemma load_8: "load m p 8 = load m p 4 @ load m (p + 4) 4"
  using load_add [of m p 4 4] by simp

text \<open>Each decoder undoes its encoder, wherever the encoder's bytes stand in memory.\<close>

lemma dec16be_enc [mem_simps]: "load m p 2 = br_enc16be x \<Longrightarrow> br_dec16be m p = take_bit 16 x"
  by (simp add: load_2 br_enc16be_def br_dec16be_def join16)

lemma dec16le_enc [mem_simps]: "load m p 2 = br_enc16le x \<Longrightarrow> br_dec16le m p = take_bit 16 x"
  using join16 [of x] by (simp add: load_2 br_enc16le_def br_dec16le_def ac_simps)

lemma dec32be_enc [mem_simps]: "load m p 4 = br_enc32be x \<Longrightarrow> br_dec32be m p = x"
  by (simp add: load_4 br_enc32be_def br_dec32be_def join32)

lemma dec32le_enc [mem_simps]: "load m p 4 = br_enc32le x \<Longrightarrow> br_dec32le m p = x"
  using join32 [of x] by (simp add: load_4 br_enc32le_def br_dec32le_def ac_simps)

lemma dec64be_enc [mem_simps]: "load m p 8 = br_enc64be x \<Longrightarrow> br_dec64be m p = x"
  using dec32be_enc [of m p "ucast (drop_bit 32 x)"] dec32be_enc [of m "p + 4" "ucast x"]
  by (simp add: load_8 br_enc64be_def br_dec64be_def join64)

lemma dec64le_enc [mem_simps]: "load m p 8 = br_enc64le x \<Longrightarrow> br_dec64le m p = x"
  using dec32le_enc [of m p "ucast x"] dec32le_enc [of m "p + 4" "ucast (drop_bit 32 x)"]
    join64 [of x]
  by (simp add: load_8 br_enc64le_def br_dec64le_def ac_simps)

section \<open>Range codecs: one contract, six instances\<close>

text \<open>
  A range codec is a pair of loops over an element codec of fixed width. The laws are the loop
  equations and the element's round trip; the client lemmas are the round trip and the frame of
  the whole range.
\<close>

locale range_codec =
  fixes enc :: "'v \<Rightarrow> byte list"
    and dec :: "mem \<Rightarrow> addr \<Rightarrow> 'v"
    and w :: nat
    and renc :: "mem \<Rightarrow> addr \<Rightarrow> 'v list \<Rightarrow> mem"
    and rdec :: "nat \<Rightarrow> mem \<Rightarrow> addr \<Rightarrow> 'v list"
  assumes width: "length (enc v) = w"
    and dec_enc: "load m p w = enc v \<Longrightarrow> dec m p = v"
    and renc_Nil: "renc m p [] = m"
    and renc_Cons: "renc m p (v # vs) = renc (store m p (enc v)) (p + w) vs"
    and rdec_0: "rdec 0 m p = []"
    and rdec_Suc: "rdec (Suc n) m p = dec m p # rdec n m (p + w)"
begin

lemma renc_frame: "a < p \<or> p + w * length vs \<le> a \<Longrightarrow> renc m p vs a = m a"
proof (induction vs arbitrary: m p)
  case (Cons v vs)
  then have "renc (store m p (enc v)) (p + w) vs a = store m p (enc v) a"
    by (intro Cons.IH) (auto simp: algebra_simps)
  with Cons.prems show ?case by (auto simp: renc_Cons mem_simps width)
qed (simp add: renc_Nil)

lemma renc_head: "load (renc m p (v # vs)) p w = enc v"
proof -
  have "load (renc (store m p (enc v)) (p + w) vs) p w = load (store m p (enc v)) p w"
    by (rule load_cong) (auto simp: renc_frame)
  then show ?thesis by (simp add: renc_Cons width)
qed

lemma range_round_trip: "rdec (length vs) (renc m p vs) p = vs"
proof (induction vs arbitrary: m p)
  case (Cons v vs)
  then show ?case
    using dec_enc [OF renc_head] by (simp add: rdec_Suc renc_Cons)
qed (simp add: rdec_0)

end

lemma take_bit_u16 [simp]: "ucast (take_bit 16 (ucast (v :: u16) :: u32)) = v"
  by (rule bit_word_eqI) (simp add: bit_simps)

interpretation r16le: range_codec "\<lambda>v. br_enc16le (ucast v)" "\<lambda>m p. ucast (br_dec16le m p)" 2
    br_range_enc16le br_range_dec16le
  by unfold_locales (simp_all add: mem_simps)

interpretation r16be: range_codec "\<lambda>v. br_enc16be (ucast v)" "\<lambda>m p. ucast (br_dec16be m p)" 2
    br_range_enc16be br_range_dec16be
  by unfold_locales (simp_all add: mem_simps)

interpretation r32le: range_codec br_enc32le br_dec32le 4 br_range_enc32le br_range_dec32le
  by unfold_locales (simp_all add: mem_simps)

interpretation r32be: range_codec br_enc32be br_dec32be 4 br_range_enc32be br_range_dec32be
  by unfold_locales (simp_all add: mem_simps)

interpretation r64le: range_codec br_enc64le br_dec64le 8 br_range_enc64le br_range_dec64le
  by unfold_locales (simp_all add: mem_simps)

interpretation r64be: range_codec br_enc64be br_dec64be 8 br_range_enc64be br_range_dec64be
  by unfold_locales (simp_all add: mem_simps)

text \<open>
  C32. Round trip of the range codecs: for every width and both byte orders, decoding as many
  values as were encoded, from where they were encoded, gives the same values back.
\<close>

theorem br_range_round_trip:
  "br_range_dec16le (length v16) (br_range_enc16le m p v16) p = v16
   \<and> br_range_dec16be (length v16) (br_range_enc16be m p v16) p = v16
   \<and> br_range_dec32le (length v32) (br_range_enc32le m p v32) p = v32
   \<and> br_range_dec32be (length v32) (br_range_enc32be m p v32) p = v32
   \<and> br_range_dec64le (length v64) (br_range_enc64le m p v64) p = v64
   \<and> br_range_dec64be (length v64) (br_range_enc64be m p v64) p = v64"
  by (intro conjI r16le.range_round_trip r16be.range_round_trip r32le.range_round_trip
      r32be.range_round_trip r64le.range_round_trip r64be.range_round_trip)

section \<open>The conditional copy\<close>

lemma MUX_0 [simp]: "MUX 0 x y = y"
  by (simp add: MUX_def)

lemma MUX_1 [simp]: "MUX 1 x y = x"
  by (simp add: MUX_def xor.left_commute)

lemma ucast_byte_u32 [simp]: "ucast (ucast (b :: byte) :: u32) = b"
  by (rule bit_word_eqI) (simp add: bit_simps)

lemma br_ccopy_0: "br_ccopy 0 m d s len = m"
  by (induction len arbitrary: m d s) (simp_all add: fun_upd_idem)

lemma br_ccopy_1:
  "\<not> blocks_overlap d len s len \<Longrightarrow> br_ccopy 1 m d s len = store m d (load m s len)"
proof (induction len arbitrary: m d s)
  case (Suc len)
  let ?m = "m(d := m s)"
  from Suc.prems have "\<not> blocks_overlap (d + 1) len (s + 1) len"
    by (auto simp: blocks_overlap_def)
  then have "br_ccopy 1 m d s (Suc len) = store ?m (d + 1) (load ?m (s + 1) len)"
    by (simp add: Suc.IH fun_upd_def)
  also have "load ?m (s + 1) len = load m (s + 1) len"
    using Suc.prems by (intro load_cong) (auto simp: blocks_overlap_def)
  also have "store ?m (d + 1) (load m (s + 1) len) = store m d (load m s (Suc len))"
    by (rule ext) (auto simp: store_def load_Suc nth_Cons' Suc_le_eq)
  finally show ?case .
qed simp

text \<open>
  The constant-time conditional copy: with control bit 1 it is \<open>memcpy\<close> of \<open>len\<close> bytes
  between disjoint arrays, with control bit 0 it leaves the whole memory as it was.
\<close>

theorem br_ccopy_selects:
  assumes "\<not> blocks_overlap d len s len" "ctl = 0 \<or> ctl = 1"
  shows "br_ccopy ctl m d s len = (if ctl = 1 then store m d (load m s len) else m)"
  using assms by (auto simp: br_ccopy_0 br_ccopy_1)

theorem br_ccopy_selects_witness:
  "br_ccopy 1 (\<lambda>a. of_nat a) 8 2 3 9 = 3 \<and> br_ccopy 0 (\<lambda>a. of_nat a) 8 2 3 9 = (9 :: byte)"
  using br_ccopy_selects [of 8 3 2 1 "\<lambda>a. of_nat a"] br_ccopy_selects [of 8 3 2 0 "\<lambda>a. of_nat a"]
  by (simp add: blocks_overlap_def store_def)

end
