(* ===== verification/Record_Layer.thy ===== *)
theory Record_Layer
  imports Codec
begin

text \<open>
  The record protection layers: the clear layer of \<^verbatim>\<open>ssl_engine.c\<close> (before the first
  handshake ends), ChaCha20+Poly1305 of \<^verbatim>\<open>ssl_rec_chapol.c\<close> and AES/GCM of
  \<^verbatim>\<open>ssl_rec_gcm.c\<close>. Each works in place on the engine's buffers, so each operation takes the
  byte memory and returns the new one. The ciphers are function pointers in the C contexts; here
  they are function-valued fields of the contexts (\<open>cp_ichacha\<close>, \<open>cp_ipoly\<close>, \<open>gc_run\<close>,
  \<open>gc_gh\<close>).

  Two interfaces are stated as locales: \<open>sslrec_out\<close> (what the engine's output side relies on)
  and \<open>sslrec_in\<close> (what its input side relies on). Every layer interprets them, and the dispatch
  over the \<open>in\<close> and \<open>out\<close> unions of the engine context interprets them too.
\<close>

unbundle bit_operations_syntax

section \<open>Clear records\<close>

definition clear_max_plaintext :: "nat \<Rightarrow> nat \<Rightarrow> nat \<times> nat" where
  "clear_max_plaintext start end' =
     (let len = sz_sub end' start in
      if len > 16384 then (start, sz_add start 16384) else (start, end'))"

definition clear_encrypt :: "byte \<Rightarrow> u32 \<Rightarrow> mem \<Rightarrow> addr \<Rightarrow> nat \<Rightarrow> mem \<times> addr \<times> nat" where
  "clear_encrypt record_type version m data data_len =
     (let buf = data - 5;
          m = store m buf [record_type];
          m = store m (buf + 1) (br_enc16be version);
          m = store m (buf + 3) (br_enc16be (of_nat data_len))
      in (m, buf, sz_add data_len 5))"

section \<open>ChaCha20+Poly1305 records\<close>

type_synonym chacha20_run = "byte list \<Rightarrow> byte list \<Rightarrow> u32 \<Rightarrow> byte list \<Rightarrow> byte list \<times> u32"
type_synonym poly1305_run =
  "byte list \<Rightarrow> byte list \<Rightarrow> byte list \<Rightarrow> byte list \<Rightarrow> chacha20_run \<Rightarrow> bool \<Rightarrow> byte list \<times> byte list"

record chapol_ctx =
  cp_seq :: u64
  cp_ichacha :: chacha20_run
  cp_ipoly :: poly1305_run
  cp_key :: "byte list"
  cp_iv :: "byte list"

definition gen_chapol_init :: "chacha20_run \<Rightarrow> poly1305_run \<Rightarrow> byte list \<Rightarrow> byte list \<Rightarrow> chapol_ctx" where
  "gen_chapol_init ichacha ipoly key iv =
     \<lparr>cp_seq = 0, cp_ichacha = ichacha, cp_ipoly = ipoly, cp_key = take 32 key, cp_iv = take 12 iv\<rparr>"

text \<open>\<open>for (u = 0; u < 8; u ++) { nonce[11 - u] ^= (unsigned char)seq; seq >>= 8; }\<close>, with \<open>k\<close>
  iterations left, so that \<open>u = 8 - k\<close>.\<close>

fun chapol_nonce_loop :: "nat \<Rightarrow> byte list \<Rightarrow> u64 \<Rightarrow> byte list" where
  "chapol_nonce_loop 0 nonce seq = nonce"
| "chapol_nonce_loop (Suc k) nonce seq =
     (let i = 11 - (8 - Suc k) in
      chapol_nonce_loop k (nonce[i := nonce ! i XOR ucast seq]) (drop_bit 8 seq))"

text \<open>The data is processed in place; the tag is returned, to be stored by the caller.\<close>

definition gen_chapol_process ::
    "chapol_ctx \<Rightarrow> byte \<Rightarrow> u32 \<Rightarrow> mem \<Rightarrow> addr \<Rightarrow> nat \<Rightarrow> bool \<Rightarrow> chapol_ctx \<times> mem \<times> byte list" where
  "gen_chapol_process cc record_type version m data len encrypt =
     (let seq = cp_seq cc;
          header = br_enc64be seq @ [record_type] @ br_enc16be version @ br_enc16be (of_nat len);
          nonce = chapol_nonce_loop 8 (cp_iv cc) seq;
          (out, tag) = cp_ipoly cc (cp_key cc) nonce (load m data len) header (cp_ichacha cc) encrypt
      in (cc\<lparr>cp_seq := seq + 1\<rparr>, store m data out, tag))"

definition chapol_check_length :: "nat \<Rightarrow> bool" where
  "chapol_check_length rlen \<longleftrightarrow> rlen \<ge> 16 \<and> rlen \<le> 16384 + 16"

definition chapol_decrypt ::
    "chapol_ctx \<Rightarrow> byte \<Rightarrow> u32 \<Rightarrow> mem \<Rightarrow> addr \<Rightarrow> nat \<Rightarrow> chapol_ctx \<times> mem \<times> (addr \<times> nat) option" where
  "chapol_decrypt cc record_type version m data data_len =
     (let len = sz_sub data_len 16;
          (cc, m, tag) = gen_chapol_process cc record_type version m data len False;
          bad = foldl (OR) 0 (xor_bytes tag (load m (data + len) 16))
      in if bad \<noteq> 0 then (cc, m, None) else (cc, m, Some (data, len)))"

definition chapol_max_plaintext :: "nat \<Rightarrow> nat \<Rightarrow> nat \<times> nat" where
  "chapol_max_plaintext start end' =
     (let len = sz_sub (sz_sub end' start) 16;
          len = (if len > 16384 then 16384 else len)
      in (start, sz_add start len))"

definition chapol_encrypt ::
    "chapol_ctx \<Rightarrow> byte \<Rightarrow> u32 \<Rightarrow> mem \<Rightarrow> addr \<Rightarrow> nat \<Rightarrow> chapol_ctx \<times> mem \<times> addr \<times> nat" where
  "chapol_encrypt cc record_type version m data data_len =
     (let len = data_len;
          (cc, m, tag) = gen_chapol_process cc record_type version m data len True;
          m = store m (data + len) tag;
          buf = data - 5;
          m = store m buf [record_type];
          m = store m (buf + 1) (br_enc16be version);
          m = store m (buf + 3) (br_enc16be (of_nat (sz_add len 16)))
      in (cc, m, buf, sz_add len 21))"

section \<open>AES/GCM records\<close>

type_synonym ctr_run = "byte list \<Rightarrow> u32 \<Rightarrow> byte list \<Rightarrow> byte list"
type_synonym block_ctr_class = "byte list \<Rightarrow> ctr_run"
type_synonym ghash = "byte list \<Rightarrow> byte list \<Rightarrow> byte list \<Rightarrow> byte list"

record gcm_ctx =
  gc_seq :: u64
  gc_run :: ctr_run
  gc_gh :: ghash
  gc_iv :: "byte list"
  gc_h :: "byte list"

definition gen_gcm_init :: "block_ctr_class \<Rightarrow> byte list \<Rightarrow> ghash \<Rightarrow> byte list \<Rightarrow> gcm_ctx" where
  "gen_gcm_init bc_impl key gh_impl iv =
     \<lparr>gc_seq = 0, gc_run = bc_impl key, gc_gh = gh_impl, gc_iv = take 4 iv,
      gc_h = bc_impl key (replicate 12 0) 0 (replicate 16 0)\<rparr>"

definition gcm_check_length :: "nat \<Rightarrow> bool" where
  "gcm_check_length rlen \<longleftrightarrow> rlen \<ge> 24 \<and> rlen \<le> 16384 + 24"

definition do_tag :: "gcm_ctx \<Rightarrow> byte \<Rightarrow> u32 \<Rightarrow> byte list \<Rightarrow> gcm_ctx \<times> byte list" where
  "do_tag cc record_type version data =
     (let len = length data;
          header = br_enc64be (gc_seq cc) @ [record_type] @ br_enc16be version @ br_enc16be (of_nat len);
          footer = br_enc64be (push_bit 3 13) @ br_enc64be (push_bit 3 (of_nat len));
          tag = replicate 16 0;
          tag = gc_gh cc tag (gc_h cc) header;
          tag = gc_gh cc tag (gc_h cc) data;
          tag = gc_gh cc tag (gc_h cc) footer
      in (cc\<lparr>gc_seq := gc_seq cc + 1\<rparr>, tag))"

definition do_ctr :: "gcm_ctx \<Rightarrow> byte list \<Rightarrow> byte list \<Rightarrow> byte list \<Rightarrow> byte list \<times> byte list" where
  "do_ctr cc nonce data xortag =
     (let iv = gc_iv cc @ nonce in (gc_run cc iv 2 data, gc_run cc iv 1 xortag))"

definition gcm_decrypt ::
    "gcm_ctx \<Rightarrow> byte \<Rightarrow> u32 \<Rightarrow> mem \<Rightarrow> addr \<Rightarrow> nat \<Rightarrow> gcm_ctx \<times> mem \<times> (addr \<times> nat) option" where
  "gcm_decrypt cc record_type version m data data_len =
     (let buf = data + 8;
          len = sz_sub data_len 24;
          (cc, tag) = do_tag cc record_type version (load m buf len);
          (out, tag) = do_ctr cc (load m data 8) (load m buf len) tag;
          m = store m buf out;
          bad = foldl (OR) 0 (xor_bytes tag (load m (buf + len) 16))
      in if bad \<noteq> 0 then (cc, m, None) else (cc, m, Some (buf, len)))"

definition gcm_max_plaintext :: "nat \<Rightarrow> nat \<Rightarrow> nat \<times> nat" where
  "gcm_max_plaintext start end' =
     (let start = sz_add start 8;
          len = sz_sub (sz_sub end' start) 16;
          len = (if len > 16384 then 16384 else len)
      in (start, sz_add start len))"

definition gcm_encrypt ::
    "gcm_ctx \<Rightarrow> byte \<Rightarrow> u32 \<Rightarrow> mem \<Rightarrow> addr \<Rightarrow> nat \<Rightarrow> gcm_ctx \<times> mem \<times> addr \<times> nat" where
  "gcm_encrypt cc record_type version m data data_len =
     (let buf = data;
          len = data_len;
          m = store m (buf - 8) (br_enc64be (gc_seq cc));
          (out, tmp) = do_ctr cc (load m (buf - 8) 8) (load m buf len) (replicate 16 0);
          m = store m buf out;
          (cc, tag) = do_tag cc record_type version (load m buf len);
          m = store m (buf + len) tag;
          m = store m (buf + len) (xor_bytes (load m (buf + len) 16) tmp);
          len = sz_add len 24;
          buf = buf - 13;
          m = store m buf [record_type];
          m = store m (buf + 1) (br_enc16be version);
          m = store m (buf + 3) (br_enc16be (of_nat len))
      in (cc, m, buf, sz_add len 5))"

section \<open>The contexts the engine holds\<close>

datatype rec_in = In_none | In_gcm gcm_ctx | In_chapol chapol_ctx
datatype rec_out = Out_clear | Out_gcm gcm_ctx | Out_chapol chapol_ctx

fun in_check_length :: "rec_in \<Rightarrow> nat \<Rightarrow> bool" where
  "in_check_length In_none rlen = False"
| "in_check_length (In_gcm cc) rlen = gcm_check_length rlen"
| "in_check_length (In_chapol cc) rlen = chapol_check_length rlen"

fun in_decrypt :: "rec_in \<Rightarrow> byte \<Rightarrow> u32 \<Rightarrow> mem \<Rightarrow> addr \<Rightarrow> nat \<Rightarrow> rec_in \<times> mem \<times> (addr \<times> nat) option" where
  "in_decrypt In_none rt ver m data len = (In_none, m, None)"
| "in_decrypt (In_gcm cc) rt ver m data len =
     (let (cc, m, r) = gcm_decrypt cc rt ver m data len in (In_gcm cc, m, r))"
| "in_decrypt (In_chapol cc) rt ver m data len =
     (let (cc, m, r) = chapol_decrypt cc rt ver m data len in (In_chapol cc, m, r))"

fun out_max_plaintext :: "rec_out \<Rightarrow> nat \<Rightarrow> nat \<Rightarrow> nat \<times> nat" where
  "out_max_plaintext Out_clear a b = clear_max_plaintext a b"
| "out_max_plaintext (Out_gcm cc) a b = gcm_max_plaintext a b"
| "out_max_plaintext (Out_chapol cc) a b = chapol_max_plaintext a b"

fun out_encrypt :: "rec_out \<Rightarrow> byte \<Rightarrow> u32 \<Rightarrow> mem \<Rightarrow> addr \<Rightarrow> nat \<Rightarrow> rec_out \<times> mem \<times> addr \<times> nat" where
  "out_encrypt Out_clear rt ver m data len =
     (let (m, buf, n) = clear_encrypt rt ver m data len in (Out_clear, m, buf, n))"
| "out_encrypt (Out_gcm cc) rt ver m data len =
     (let (cc, m, buf, n) = gcm_encrypt cc rt ver m data len in (Out_gcm cc, m, buf, n))"
| "out_encrypt (Out_chapol cc) rt ver m data len =
     (let (cc, m, buf, n) = chapol_encrypt cc rt ver m data len in (Out_chapol cc, m, buf, n))"

section \<open>What the ciphers promise\<close>

text \<open>
  The documented behaviour of the function pointers: CTR mode XORs the data with a key stream that
  depends on key, IV and counter only; GHASH returns 16 bytes; the ChaCha20+Poly1305 function
  returns data of the same length and a 16-byte tag, and run on the ciphertext in decryption mode
  it gives the plaintext and the same tag.
\<close>

definition ctr_ok :: "ctr_run \<Rightarrow> bool" where
  "ctr_ok run \<longleftrightarrow> (\<exists>ks. \<forall>iv cc d. length (ks iv cc (length d)) = length d
     \<and> run iv cc d = xor_bytes d (ks iv cc (length d)))"

definition ghash_ok :: "ghash \<Rightarrow> bool" where
  "ghash_ok gh \<longleftrightarrow> (\<forall>y h d. length y = 16 \<longrightarrow> length (gh y h d) = 16)"

definition poly_ok :: "poly1305_run \<Rightarrow> chacha20_run \<Rightarrow> bool" where
  "poly_ok ipoly ichacha \<longleftrightarrow> (\<forall>k iv d aad e. case ipoly k iv d aad ichacha e of (out, tag) \<Rightarrow>
     length out = length d \<and> length tag = 16 \<and>
     (e \<longrightarrow> ipoly k iv out aad ichacha False = (d, tag)))"

lemma poly_ok_enc:
  "poly_ok ipoly ichacha \<Longrightarrow> ipoly k iv d aad ichacha True = (out, tag) \<Longrightarrow>
    length out = length d \<and> length tag = 16 \<and> ipoly k iv out aad ichacha False = (d, tag)"
  by (force simp: poly_ok_def split: prod.splits)

lemma poly_ok_length:
  "poly_ok ipoly ichacha \<Longrightarrow> ipoly k iv d aad ichacha e = (out, tag) \<Longrightarrow>
    length out = length d \<and> length tag = 16"
  by (force simp: poly_ok_def split: prod.splits)

lemma ctr_ok_length: "ctr_ok run \<Longrightarrow> length (run iv cc d) = length d"
  unfolding ctr_ok_def by force

lemma ctr_ok_twice: "ctr_ok run \<Longrightarrow> run iv cc (run iv cc d) = d"
  unfolding ctr_ok_def by force

lemma xor_bytes_comm: "xor_bytes xs ys = xor_bytes ys xs"
  by (auto simp: xor_bytes_def xor.commute intro!: nth_equalityI)

lemma xor_bytes_zero [simp]: "length xs = n \<Longrightarrow> xor_bytes (replicate n 0) xs = xs"
  by (auto simp: xor_bytes_def intro!: nth_equalityI)

lemma ctr_ok_mask: "ctr_ok run \<Longrightarrow> length d = n \<Longrightarrow> run iv cc d = xor_bytes d (run iv cc (replicate n 0))"
  unfolding ctr_ok_def by (metis length_replicate xor_bytes_zero)

lemma do_tag_length: "ghash_ok (gc_gh cc) \<Longrightarrow> do_tag cc rt ver d = (cc', t) \<Longrightarrow> length t = 16"
  by (auto simp: do_tag_def ghash_ok_def Let_def)

lemma foldl_or_0: "foldl (OR) a xs = 0 \<longleftrightarrow> a = 0 \<and> (\<forall>x \<in> set xs. x = (0 :: byte))"
  by (induction xs arbitrary: a) (auto simp: or_eq_0_iff)

lemma xor_byte_0: "x XOR y = 0 \<longleftrightarrow> x = (y :: byte)"
proof
  assume "x XOR y = 0"
  then have "(x XOR y) XOR y = y" by simp
  then show "x = y" by (simp add: xor.assoc)
qed simp

lemma xor_bytes_eq_0: "length xs = length ys \<Longrightarrow> (\<forall>x \<in> set (xor_bytes xs ys). x = 0) \<longleftrightarrow> xs = ys"
  by (induction xs ys rule: list_induct2) (auto simp: xor_bytes_def xor_byte_0)

text \<open>The constant-time comparison of the tag is list equality.\<close>

lemma tag_check: "length xs = length ys \<Longrightarrow> foldl (OR) 0 (xor_bytes xs ys) = 0 \<longleftrightarrow> xs = ys"
  by (simp add: foldl_or_0 xor_bytes_eq_0)

section \<open>The output contract\<close>

text \<open>
  \<open>pre\<close> and \<open>post\<close> are the bytes a layer adds between the header and the payload and after the
  payload. \<open>max_law\<close> is the payload room of a buffer slice; \<open>enc_law\<close> says where the assembled
  record lies, that nothing outside it is written, and that it starts with the 5-byte header.
\<close>

locale sslrec_out =
  fixes max_plaintext :: "'c \<Rightarrow> nat \<Rightarrow> nat \<Rightarrow> nat \<times> nat"
    and encrypt :: "'c \<Rightarrow> byte \<Rightarrow> u32 \<Rightarrow> mem \<Rightarrow> addr \<Rightarrow> nat \<Rightarrow> 'c \<times> mem \<times> addr \<times> nat"
    and ok :: "'c \<Rightarrow> bool"
    and pre :: "'c \<Rightarrow> nat"
    and post :: "'c \<Rightarrow> nat"
  assumes overhead: "pre c + post c \<le> 80"
    and max_law: "ok c \<Longrightarrow> a + pre c + post c \<le> b \<Longrightarrow> b < 2 ^ 64 \<Longrightarrow>
      max_plaintext c a b = (a + pre c, a + pre c + min 16384 (b - a - pre c - post c))"
    and enc_law: "ok c \<Longrightarrow> 5 + pre c \<le> p \<Longrightarrow> n < 2 ^ 63 \<Longrightarrow> encrypt c rt ver m p n = (c', m', q, n') \<Longrightarrow>
      ok c' \<and> pre c' = pre c \<and> post c' = post c \<and> q = p - 5 - pre c \<and> n' = n + 5 + pre c + post c
      \<and> (\<forall>a. a < q \<or> q + n' \<le> a \<longrightarrow> m' a = m a)
      \<and> load m' q 5 = rt # br_enc16be ver @ br_enc16be (of_nat (n + pre c + post c))"
begin

lemma encrypt_bounds:
  assumes "ok c" "5 + pre c \<le> p" "p + n + post c \<le> L" "n < 2 ^ 63"
    and "encrypt c rt ver m p n = (c', m', q, n')"
  shows "q + n' \<le> L" "q < q + n'" "q + n' = p + n + post c"
  using assms(2-) enc_law [OF assms(1,2,4,5)] by auto

lemma encrypt_outside:
  assumes "ok c" "5 + pre c \<le> p" "n < 2 ^ 63" "encrypt c rt ver m p n = (c', m', q, n')"
    and "k + l \<le> q \<or> q + n' \<le> k"
  shows "load m' k l = load m k l"
  using enc_law [OF assms(1-4)] assms(5) by (intro load_cong) auto

lemma max_plaintext_room:
  assumes "ok c" "597 \<le> L" "L < 2 ^ 64" "max_plaintext c 5 (L - 5) = (a, b)"
  shows "5 + pre c \<le> a" "a + 500 \<le> b" "b + post c \<le> L - 5" "b \<le> a + 16384"
  using assms overhead [of c] max_law [of c 5 "L - 5"] by auto

end

definition out_ok_chapol :: "chapol_ctx \<Rightarrow> bool" where
  "out_ok_chapol cc \<longleftrightarrow> poly_ok (cp_ipoly cc) (cp_ichacha cc)"

definition out_ok_gcm :: "gcm_ctx \<Rightarrow> bool" where
  "out_ok_gcm cc \<longleftrightarrow> ctr_ok (gc_run cc) \<and> ghash_ok (gc_gh cc)"

text \<open>The header bytes of a record, written one field at a time.\<close>

lemma header_stores:
  "store (store (store m q [rt]) (q + 1) (br_enc16be v)) (q + 3) (br_enc16be l)
     = store m q (rt # br_enc16be v @ br_enc16be l)"
  using store_append [of m q "[rt]" "br_enc16be v @ br_enc16be l"]
    store_append [of "store m q [rt]" "q + 1" "br_enc16be v" "br_enc16be l"]
  by (simp add: numeral_3_eq_3)

interpretation clear: sslrec_out "\<lambda>_ :: unit. clear_max_plaintext"
    "\<lambda>u rt ver m p n. (u, clear_encrypt rt ver m p n)" "\<lambda>_. True" "\<lambda>_. 0" "\<lambda>_. 0"
proof unfold_locales
  fix c :: unit and c' p n rt ver m m' q n'
  assume a: "5 + (0 :: nat) \<le> p" "n < 2 ^ 63" "(c, clear_encrypt rt ver m p n) = (c', m', q, n')"
  then have q: "q = p - 5" "n' = n + 5"
      "m' = store m q (rt # br_enc16be ver @ br_enc16be (of_nat n))"
    by (auto simp: clear_encrypt_def Let_def sz_simps header_stores simp del: One_nat_def)
  then have "load m' q 5 = rt # br_enc16be ver @ br_enc16be (of_nat n)"
    by simp
  with q show "True \<and> (0 :: nat) = 0 \<and> (0 :: nat) = 0 \<and> q = p - 5 - 0 \<and> n' = n + 5 + 0 + 0
      \<and> (\<forall>a. a < q \<or> q + n' \<le> a \<longrightarrow> m' a = m a)
      \<and> load m' q 5 = rt # br_enc16be ver @ br_enc16be (of_nat (n + 0 + 0))"
    by (auto simp: store_def)
qed (auto simp: clear_max_plaintext_def Let_def sz_simps)

interpretation chapol: sslrec_out "\<lambda>_. chapol_max_plaintext" chapol_encrypt out_ok_chapol "\<lambda>_. 0" "\<lambda>_. 16"
proof unfold_locales
  fix c c' p n rt ver m m' q n'
  assume ok: "out_ok_chapol c" and p: "5 + (0 :: nat) \<le> p" and n: "n < 2 ^ 63"
    and e: "chapol_encrypt c rt ver m p n = (c', m', q, n')"
  obtain out tag where pr: "gen_chapol_process c rt ver m p n True = (c', store m p out, tag)"
      and l: "length out = n" "length tag = 16" and c': "c' = c\<lparr>cp_seq := cp_seq c + 1\<rparr>"
    using ok poly_ok_length e
    by (fastforce simp: chapol_encrypt_def gen_chapol_process_def out_ok_chapol_def Let_def split: prod.splits)
  let ?m1 = "store (store m p out) (p + n) tag"
  from e pr n have q: "q = p - 5" "n' = n + 21"
      "m' = store ?m1 q (rt # br_enc16be ver @ br_enc16be (of_nat (n + 16)))"
    by (auto simp: chapol_encrypt_def Let_def sz_simps header_stores simp del: One_nat_def)
  then have "load m' q 5 = rt # br_enc16be ver @ br_enc16be (of_nat (n + 16))"
    by simp
  with q p l ok c' show "out_ok_chapol c' \<and> (0 :: nat) = 0 \<and> (16 :: nat) = 16 \<and> q = p - 5 - 0 \<and> n' = n + 5 + 0 + 16
      \<and> (\<forall>a. a < q \<or> q + n' \<le> a \<longrightarrow> m' a = m a)
      \<and> load m' q 5 = rt # br_enc16be ver @ br_enc16be (of_nat (n + 0 + 16))"
    by (auto simp: store_def out_ok_chapol_def)
qed (auto simp: chapol_max_plaintext_def Let_def sz_simps)

text \<open>The record that each layer assembles, as one write after the in-place steps.\<close>

lemma chapol_encrypt_eq:
  assumes "n < 2 ^ 63"
    and "cp_ipoly c (cp_key c) (chapol_nonce_loop 8 (cp_iv c) (cp_seq c)) (load m p n)
      (br_enc64be (cp_seq c) @ [rt] @ br_enc16be ver @ br_enc16be (of_nat n)) (cp_ichacha c) True = (out, tag)"
  shows "chapol_encrypt c rt ver m p n = (c\<lparr>cp_seq := cp_seq c + 1\<rparr>,
    store (store (store m p out) (p + n) tag) (p - 5) (rt # br_enc16be ver @ br_enc16be (of_nat (n + 16))),
    p - 5, n + 21)"
  using assms
  by (simp add: chapol_encrypt_def gen_chapol_process_def Let_def sz_simps header_stores del: One_nat_def)

definition gcm_mask :: "gcm_ctx \<Rightarrow> byte list \<Rightarrow> byte list" where
  "gcm_mask c nonce = gc_run c (gc_iv c @ nonce) 1 (replicate 16 0)"

lemma gcm_encrypt_eq:
  assumes "n < 2 ^ 63" "13 \<le> p" "out_ok_gcm c"
    and "nonce = br_enc64be (gc_seq c)"
    and "out = gc_run c (gc_iv c @ nonce) 2 (load m p n)"
    and "do_tag c rt ver out = (c', tag)"
  shows "gcm_encrypt c rt ver m p n = (c',
    store (store (store (store m (p - 8) nonce) p out) (p + n) (xor_bytes tag (gcm_mask c nonce)))
      (p - 13) (rt # br_enc16be ver @ br_enc16be (of_nat (n + 24))), p - 13, n + 29)"
proof -
  have len: "length out = n" "length tag = 16" "length (gcm_mask c nonce) = 16"
    using assms(3-) do_tag_length [of c] by (auto simp: out_ok_gcm_def ctr_ok_length gcm_mask_def)
  have "load (store m (p - 8) nonce) p n = load m p n"
    using assms(2,4) by (simp add: mem_simps)
  then have "do_ctr c (load (store m (p - 8) nonce) (p - 8) 8) (load (store m (p - 8) nonce) p n)
      (replicate 16 0) = (out, gcm_mask c nonce)"
    using assms(4,5) by (simp add: do_ctr_def gcm_mask_def Let_def)
  then show ?thesis
    using assms(1,2,4,6) len
    by (simp add: gcm_encrypt_def Let_def sz_simps header_stores del: One_nat_def)
qed

interpretation gcm: sslrec_out "\<lambda>_. gcm_max_plaintext" gcm_encrypt out_ok_gcm "\<lambda>_. 8" "\<lambda>_. 16"
proof unfold_locales
  fix c c' p n rt ver m m' q n'
  assume ok: "out_ok_gcm c" and p: "5 + (8 :: nat) \<le> p" and n: "n < 2 ^ 63"
    and e: "gcm_encrypt c rt ver m p n = (c', m', q, n')"
  define nonce where "nonce = br_enc64be (gc_seq c)"
  define out where "out = gc_run c (gc_iv c @ nonce) 2 (load m p n)"
  obtain c1 tag where t: "do_tag c rt ver out = (c1, tag)" by fastforce
  have len: "length out = n" "length tag = 16" "length (gcm_mask c nonce) = 16" "length nonce = 8"
    using ok do_tag_length [OF _ t]
    by (auto simp: out_ok_gcm_def ctr_ok_length gcm_mask_def out_def nonce_def)
  have "out_ok_gcm c1" using ok t by (auto simp: do_tag_def out_ok_gcm_def Let_def)
  with gcm_encrypt_eq [OF n _ ok nonce_def out_def t] e p
  have q: "q = p - 13" "n' = n + 29" "out_ok_gcm c'" "m' = store (store (store (store m (p - 8) nonce) p out)
      (p + n) (xor_bytes tag (gcm_mask c nonce))) q (rt # br_enc16be ver @ br_enc16be (of_nat (n + 24)))"
    by auto
  then have "load m' q 5 = rt # br_enc16be ver @ br_enc16be (of_nat (n + 24))" by simp
  with q p len show "out_ok_gcm c' \<and> (8 :: nat) = 8 \<and> (16 :: nat) = 16 \<and> q = p - 5 - 8 \<and> n' = n + 5 + 8 + 16
      \<and> (\<forall>a. a < q \<or> q + n' \<le> a \<longrightarrow> m' a = m a)
      \<and> load m' q 5 = rt # br_enc16be ver @ br_enc16be (of_nat (n + 8 + 16))"
    by (auto simp: store_def add.commute)
qed (auto simp: gcm_max_plaintext_def Let_def sz_simps)

fun out_ok :: "rec_out \<Rightarrow> bool" where
  "out_ok Out_clear = True"
| "out_ok (Out_gcm cc) = out_ok_gcm cc"
| "out_ok (Out_chapol cc) = out_ok_chapol cc"

fun out_pre :: "rec_out \<Rightarrow> nat" where
  "out_pre Out_clear = 0"
| "out_pre (Out_gcm cc) = 8"
| "out_pre (Out_chapol cc) = 0"

fun out_post :: "rec_out \<Rightarrow> nat" where
  "out_post Out_clear = 0"
| "out_post (Out_gcm cc) = 16"
| "out_post (Out_chapol cc) = 16"

text \<open>The dispatch over the \<open>out\<close> union keeps the contract, because every layer does.\<close>

interpretation rout: sslrec_out out_max_plaintext out_encrypt out_ok out_pre out_post
proof unfold_locales
  show "out_pre c + out_post c \<le> 80" for c by (cases c) simp_all
next
  fix c a b
  assume "out_ok c" "a + out_pre c + out_post c \<le> b" "b < 2 ^ 64"
  then show "out_max_plaintext c a b
      = (a + out_pre c, a + out_pre c + min 16384 (b - a - out_pre c - out_post c))"
    using clear.max_law gcm.max_law chapol.max_law by (cases c) simp_all
next
  fix c c' p n rt ver m m' q n'
  assume a: "out_ok c" "5 + out_pre c \<le> p" "n < 2 ^ 63" "out_encrypt c rt ver m p n = (c', m', q, n')"
  show "out_ok c' \<and> out_pre c' = out_pre c \<and> out_post c' = out_post c
      \<and> q = p - 5 - out_pre c \<and> n' = n + 5 + out_pre c + out_post c
      \<and> (\<forall>a. a < q \<or> q + n' \<le> a \<longrightarrow> m' a = m a)
      \<and> load m' q 5 = rt # br_enc16be ver @ br_enc16be (of_nat (n + out_pre c + out_post c))"
  proof (cases c)
    case Out_clear
    with a clear.enc_law [of p n "()" rt ver m "()" m' q n'] show ?thesis
      by (auto split: prod.splits)
  next
    case (Out_gcm cc)
    with a gcm.enc_law [of cc p n rt ver m _ m' q n'] show ?thesis
      by (auto split: prod.splits)
  next
    case (Out_chapol cc)
    with a chapol.enc_law [of cc p n rt ver m _ m' q n'] show ?thesis
      by (auto split: prod.splits)
  qed
qed

section \<open>The input contract\<close>

locale sslrec_in =
  fixes check_length :: "'d \<Rightarrow> nat \<Rightarrow> bool"
    and decrypt :: "'d \<Rightarrow> byte \<Rightarrow> u32 \<Rightarrow> mem \<Rightarrow> addr \<Rightarrow> nat \<Rightarrow> 'd \<times> mem \<times> (addr \<times> nat) option"
    and okd :: "'d \<Rightarrow> bool"
    and hd_len :: "'d \<Rightarrow> nat"
    and tl_len :: "'d \<Rightarrow> nat"
  assumes check_law: "check_length c rlen \<Longrightarrow> hd_len c + tl_len c \<le> rlen \<and> rlen \<le> 16384 + hd_len c + tl_len c"
    and dec_law: "okd c \<Longrightarrow> hd_len c + tl_len c \<le> n \<Longrightarrow> n < 2 ^ 64 \<Longrightarrow> decrypt c rt ver m p n = (c', m', r) \<Longrightarrow>
      okd c' \<and> hd_len c' = hd_len c \<and> tl_len c' = tl_len c
      \<and> (\<forall>a. a < p + hd_len c \<or> p + n - tl_len c \<le> a \<longrightarrow> m' a = m a)
      \<and> (\<forall>q k. r = Some (q, k) \<longrightarrow> q = p + hd_len c \<and> k = n - hd_len c - tl_len c)"
begin

lemma decrypt_bounds:
  assumes "okd c" "check_length c n" "n < 2 ^ 64" "decrypt c rt ver m p n = (c', m', Some (q, k))"
  shows "p \<le> q" "q + k \<le> p + n" "k \<le> 16384"
  using check_law [OF assms(2)] dec_law [OF assms(1) _ assms(3,4)] by auto

lemma decrypt_outside:
  assumes "okd c" "check_length c n" "n < 2 ^ 64" "decrypt c rt ver m p n = (c', m', r)"
    and "k + l \<le> p \<or> p + n \<le> k"
  shows "load m' k l = load m k l"
  using check_law [OF assms(2)] dec_law [OF assms(1) _ assms(3,4)] assms(5)
  by (intro load_cong) auto

end

interpretation chapol_in: sslrec_in "\<lambda>_. chapol_check_length" chapol_decrypt out_ok_chapol "\<lambda>_. 0" "\<lambda>_. 16"
proof unfold_locales
  fix c c' n rt ver m p m' r
  assume ok: "out_ok_chapol c" and n: "(0 :: nat) + 16 \<le> n" "n < 2 ^ 64"
    and d: "chapol_decrypt c rt ver m p n = (c', m', r)"
  obtain out tag where pr: "gen_chapol_process c rt ver m p (n - 16) False
      = (c\<lparr>cp_seq := cp_seq c + 1\<rparr>, store m p out, tag)" and l: "length out = n - 16"
    using ok poly_ok_length
    by (fastforce simp: gen_chapol_process_def out_ok_chapol_def Let_def split: prod.splits)
  with d n ok show "out_ok_chapol c' \<and> (0 :: nat) = 0 \<and> (16 :: nat) = 16
      \<and> (\<forall>a. a < p + 0 \<or> p + n - 16 \<le> a \<longrightarrow> m' a = m a)
      \<and> (\<forall>q k. r = Some (q, k) \<longrightarrow> q = p + 0 \<and> k = n - 0 - 16)"
    by (auto simp: chapol_decrypt_def Let_def sz_simps store_outside out_ok_chapol_def split: if_splits)
qed (auto simp: chapol_check_length_def)

interpretation gcm_in: sslrec_in "\<lambda>_. gcm_check_length" gcm_decrypt out_ok_gcm "\<lambda>_. 8" "\<lambda>_. 16"
proof unfold_locales
  fix c c' n rt ver m p m' r
  assume ok: "out_ok_gcm c" and n: "(8 :: nat) + 16 \<le> n" "n < 2 ^ 64"
    and d: "gcm_decrypt c rt ver m p n = (c', m', r)"
  obtain c1 tag where t: "do_tag c rt ver (load m (p + 8) (n - 24)) = (c1, tag)" by fastforce
  have "out_ok_gcm c1" using ok t by (auto simp: do_tag_def out_ok_gcm_def Let_def)
  moreover have "gc_run c1 = gc_run c" using t by (auto simp: do_tag_def Let_def)
  ultimately show "out_ok_gcm c' \<and> (8 :: nat) = 8 \<and> (16 :: nat) = 16
      \<and> (\<forall>a. a < p + 8 \<or> p + n - 16 \<le> a \<longrightarrow> m' a = m a)
      \<and> (\<forall>q k. r = Some (q, k) \<longrightarrow> q = p + 8 \<and> k = n - 8 - 16)"
    using d n ok t
    by (auto simp: gcm_decrypt_def do_ctr_def Let_def sz_simps store_outside out_ok_gcm_def ctr_ok_length
        split: if_splits)
qed (auto simp: gcm_check_length_def)

fun in_ok :: "rec_in \<Rightarrow> bool" where
  "in_ok In_none = True"
| "in_ok (In_gcm cc) = out_ok_gcm cc"
| "in_ok (In_chapol cc) = out_ok_chapol cc"

fun in_pre :: "rec_in \<Rightarrow> nat" where
  "in_pre In_none = 0"
| "in_pre (In_gcm cc) = 8"
| "in_pre (In_chapol cc) = 0"

fun in_post :: "rec_in \<Rightarrow> nat" where
  "in_post In_none = 0"
| "in_post (In_gcm cc) = 16"
| "in_post (In_chapol cc) = 16"

interpretation rin: sslrec_in in_check_length in_decrypt in_ok in_pre in_post
proof unfold_locales
  fix c r assume "in_check_length c r"
  then show "in_pre c + in_post c \<le> r \<and> r \<le> 16384 + in_pre c + in_post c"
    using gcm_in.check_law chapol_in.check_law by (cases c) auto
next
  fix c c' n rt ver m p m' r
  assume a: "in_ok c" "in_pre c + in_post c \<le> n" "n < 2 ^ 64" "in_decrypt c rt ver m p n = (c', m', r)"
  show "in_ok c' \<and> in_pre c' = in_pre c \<and> in_post c' = in_post c
      \<and> (\<forall>a. a < p + in_pre c \<or> p + n - in_post c \<le> a \<longrightarrow> m' a = m a)
      \<and> (\<forall>q k. r = Some (q, k) \<longrightarrow> q = p + in_pre c \<and> k = n - in_pre c - in_post c)"
  proof (cases c)
    case In_none with a show ?thesis by auto
  next
    case (In_gcm cc)
    with a gcm_in.dec_law [of cc n rt ver m p _ m' r] show ?thesis by (auto split: prod.splits)
  next
    case (In_chapol cc)
    with a chapol_in.dec_law [of cc n rt ver m p _ m' r] show ?thesis by (auto split: prod.splits)
  qed
qed

section \<open>Round trip of protected records\<close>

text \<open>A sender and a receiver context that hold the same key material and sequence number.\<close>

fun rec_synced :: "rec_out \<Rightarrow> rec_in \<Rightarrow> bool" where
  "rec_synced (Out_gcm co) (In_gcm ci) = (co = ci \<and> out_ok_gcm co)"
| "rec_synced (Out_chapol co) (In_chapol ci) = (co = ci \<and> out_ok_chapol co)"
| "rec_synced _ _ = False"

lemma chapol_round_trip:
  assumes "out_ok_chapol c" "5 \<le> p" "n \<le> 16384"
    and e: "chapol_encrypt c rt ver m p n = (c', m', q, n')"
    and l: "load mr d (n' - 5) = load m' (q + 5) (n' - 5)"
  shows "\<exists>mr'. chapol_decrypt c rt ver mr d (n' - 5) = (c', mr', Some (d, n)) \<and> load mr' d n = load m p n"
proof -
  let ?iv = "chapol_nonce_loop 8 (cp_iv c) (cp_seq c)"
  let ?h = "br_enc64be (cp_seq c) @ [rt] @ br_enc16be ver @ br_enc16be (of_nat n)"
  obtain out tag where o: "cp_ipoly c (cp_key c) ?iv (load m p n) ?h (cp_ichacha c) True = (out, tag)"
    by fastforce
  from poly_ok_enc [of "cp_ipoly c" "cp_ichacha c", OF _ o] assms(1)
  have len: "length out = n" "length tag = 16"
    and undo: "cp_ipoly c (cp_key c) ?iv out ?h (cp_ichacha c) False = (load m p n, tag)"
    by (auto simp: out_ok_chapol_def)
  from chapol_encrypt_eq [OF _ o] assms(2,3) e
  have q: "q + 5 = p" "n' = n + 21" "c' = c\<lparr>cp_seq := cp_seq c + 1\<rparr>"
    and m': "m' = store (store (store m p out) (p + n) tag) q (rt # br_enc16be ver @ br_enc16be (of_nat (n + 16)))"
    by auto
  have "load m' p n = out" "load m' (p + n) 16 = tag"
    using q(1) len by (auto simp: m' mem_simps)
  with l q have "load mr d n = out" "load mr (d + n) 16 = tag"
    using load_split [of mr d n 16 m' p] by (simp_all add: ac_simps)
  then show ?thesis
    using q undo len assms(3)
    by (simp add: chapol_decrypt_def gen_chapol_process_def Let_def sz_simps tag_check mem_simps)
qed

lemma do_tag_frame:
  "do_tag c rt ver d = (c', t) \<Longrightarrow> gc_run c' = gc_run c \<and> gc_iv c' = gc_iv c \<and> gc_gh c' = gc_gh c
    \<and> gc_seq c' = gc_seq c + 1"
  by (auto simp: do_tag_def Let_def)

lemma gcm_round_trip:
  assumes ok: "out_ok_gcm c" and p: "13 \<le> p" and n: "n \<le> 16384"
    and e: "gcm_encrypt c rt ver m p n = (c', m', q, n')"
    and l: "load mr d (n' - 5) = load m' (q + 5) (n' - 5)"
  shows "\<exists>mr'. gcm_decrypt c rt ver mr d (n' - 5) = (c', mr', Some (d + 8, n)) \<and> load mr' (d + 8) n = load m p n"
proof -
  define nonce where "nonce = br_enc64be (gc_seq c)"
  define out where "out = gc_run c (gc_iv c @ nonce) 2 (load m p n)"
  obtain c1 tag where t: "do_tag c rt ver out = (c1, tag)" by fastforce
  let ?tag = "xor_bytes tag (gcm_mask c nonce)"
  have len: "length out = n" "length tag = 16" "length (gcm_mask c nonce) = 16" "length nonce = 8"
    using ok do_tag_length [OF _ t]
    by (auto simp: out_ok_gcm_def ctr_ok_length gcm_mask_def out_def nonce_def)
  from gcm_encrypt_eq [OF _ p ok nonce_def out_def t] e n p
  have q: "q + 5 = p - 8" "n' = n + 29" "c' = c1"
    and m': "m' = store (store (store (store m (p - 8) nonce) p out) (p + n) ?tag) q
      (rt # br_enc16be ver @ br_enc16be (of_nat (n + 24)))"
    by auto
  have "load m' (p - 8) 8 = nonce" "load m' p n = out" "load m' (p + n) 16 = ?tag"
    using q(1) len p by (auto simp: m' mem_simps diff_le_self trans_le_add1)
  with l q p have r: "load mr d 8 = nonce" "load mr (d + 8) n = out" "load mr (d + 8 + n) 16 = ?tag"
    using load_split [of mr d 8 "n + 16" m' "p - 8"] load_split [of mr "d + 8" n 16 m' p]
    by (simp_all add: ac_simps)
  have undo: "gc_run c (gc_iv c @ nonce) 2 out = load m p n"
    and mask: "gc_run c (gc_iv c @ nonce) 1 tag = ?tag"
    using ok len ctr_ok_mask by (auto simp: out_def out_ok_gcm_def ctr_ok_twice gcm_mask_def)
  have "do_ctr c1 nonce out tag = (load m p n, ?tag)"
    using undo mask do_tag_frame [OF t] by (simp add: do_ctr_def)
  then show ?thesis
    using q r t len n
    by (simp add: gcm_decrypt_def Let_def sz_simps tag_check mem_simps)
qed

text \<open>
  The two directions of a protected connection: a synchronised receiver accepts the record a sender
  assembled, recovers the payload where the engine will look for it, and stays synchronised.
\<close>

locale sslrec_pair =
  out: sslrec_out max_plaintext encrypt ok pre post +
  inp: sslrec_in check_length decrypt okd hd_len tl_len
  for max_plaintext :: "'c \<Rightarrow> nat \<Rightarrow> nat \<Rightarrow> nat \<times> nat"
    and encrypt and ok :: "'c \<Rightarrow> bool" and pre post
    and check_length :: "'d \<Rightarrow> nat \<Rightarrow> bool"
    and decrypt and okd :: "'d \<Rightarrow> bool" and hd_len tl_len +
  fixes synced :: "'c \<Rightarrow> 'd \<Rightarrow> bool"
  assumes synced_ok: "synced co ci \<Longrightarrow> ok co \<and> okd ci \<and> pre co = hd_len ci \<and> post co = tl_len ci"
    and accepts: "synced co ci \<Longrightarrow> 0 \<le> n \<Longrightarrow> n \<le> 16384 \<Longrightarrow> check_length ci (n + pre co + post co)"
    and round_trip: "synced co ci \<Longrightarrow> 5 + pre co \<le> p \<Longrightarrow> n \<le> 16384 \<Longrightarrow>
      encrypt co rt ver m p n = (co', m', q, n') \<Longrightarrow> load mr d (n' - 5) = load m' (q + 5) (n' - 5) \<Longrightarrow>
      \<exists>ci' mr'. decrypt ci rt ver mr d (n' - 5) = (ci', mr', Some (d + hd_len ci, n))
        \<and> load mr' (d + hd_len ci) n = load m p n \<and> synced co' ci'"
begin

text \<open>The receiver also finds the length in the header it is given acceptable.\<close>

lemma header_accepted:
  assumes "synced co ci" "5 + pre co \<le> p" "n \<le> 16384" "encrypt co rt ver m p n = (co', m', q, n')"
  shows "check_length ci (n' - 5)"
proof -
  have "n' = n + 5 + pre co + post co"
    using out.enc_law [of co p n rt ver m co' m' q n'] synced_ok [OF assms(1)] assms by simp
  then show ?thesis using accepts [OF assms(1) _ assms(3)] by (simp add: ac_simps)
qed

end

interpretation recs: sslrec_pair out_max_plaintext out_encrypt out_ok out_pre out_post
    in_check_length in_decrypt in_ok in_pre in_post rec_synced
proof unfold_locales
  show "out_ok co \<and> in_ok ci \<and> out_pre co = in_pre ci \<and> out_post co = in_post ci"
    if "rec_synced co ci" for co ci
    using that by (cases co; cases ci) auto
  show "in_check_length ci (n + out_pre co + out_post co)"
    if "rec_synced co ci" "0 \<le> n" "n \<le> 16384" for co ci n
    using that by (cases co; cases ci) (auto simp: gcm_check_length_def chapol_check_length_def)
next
  fix co ci p n rt ver m co' m' q n' mr d
  assume a: "rec_synced co ci" "5 + out_pre co \<le> p" "n \<le> 16384"
    "out_encrypt co rt ver m p n = (co', m', q, n')" "load mr d (n' - 5) = load m' (q + 5) (n' - 5)"
  show "\<exists>ci' mr'. in_decrypt ci rt ver mr d (n' - 5) = (ci', mr', Some (d + in_pre ci, n))
      \<and> load mr' (d + in_pre ci) n = load m p n \<and> rec_synced co' ci'"
  proof (cases co)
    case Out_clear with a show ?thesis by simp
  next
    case (Out_gcm c)
    with a obtain c' where c: "ci = In_gcm c" "out_ok_gcm c" "co' = Out_gcm c'"
        "gcm_encrypt c rt ver m p n = (c', m', q, n')"
      by (cases ci) (auto split: prod.splits)
    with gcm_round_trip [of c p n rt ver m c' m' q n' mr d] a Out_gcm
      gcm.enc_law [of c p n rt ver m c' m' q n'] show ?thesis by auto
  next
    case (Out_chapol c)
    with a obtain c' where c: "ci = In_chapol c" "out_ok_chapol c" "co' = Out_chapol c'"
        "chapol_encrypt c rt ver m p n = (c', m', q, n')"
      by (cases ci) (auto split: prod.splits)
    with chapol_round_trip [of c p n rt ver m c' m' q n' mr d] a Out_chapol
      chapol.enc_law [of c p n rt ver m c' m' q n'] show ?thesis by auto
  qed
qed

end
