(* ===== verification/Ssl_Engine.thy ===== *)
theory Ssl_Engine
  imports Record_Layer "HOL-Library.Monad_Syntax"
begin

text \<open>
  The BearSSL engine, \<^verbatim>\<open>ssl_engine.c\<close>: the record input and output registers over the
  caller's buffers, the coroutine interface to the handshake processor, the application-facing
  buffer API and the key-block split of the cipher switches.

  The context is the record \<open>engine\<close>. \<open>ibuf\<close> and \<open>obuf\<close> are addresses in the byte memory \<open>mem\<close>
  (equal when the buffer is shared). The type parameter \<open>'c\<close> is the handshake processor's own
  state (its T0 stacks and whatever else it keeps), \<open>'r\<close> the state of the random generator. The C
  field \<open>hsrun\<close> is a function pointer; here it is the argument \<open>hs\<close> of the operations that call
  it. Register arithmetic is \<open>size_t\<close> arithmetic.
\<close>

unbundle bit_operations_syntax

section \<open>Constants and context\<close>

datatype io_mode = BR_IO_FAILED | BR_IO_IN | BR_IO_OUT | BR_IO_INOUT

definition BR_ERR_OK :: int where "BR_ERR_OK = 0"
definition BR_ERR_BAD_PARAM :: int where "BR_ERR_BAD_PARAM = 1"
definition BR_ERR_BAD_STATE :: int where "BR_ERR_BAD_STATE = 2"
definition BR_ERR_UNSUPPORTED_VERSION :: int where "BR_ERR_UNSUPPORTED_VERSION = 3"
definition BR_ERR_BAD_VERSION :: int where "BR_ERR_BAD_VERSION = 4"
definition BR_ERR_BAD_LENGTH :: int where "BR_ERR_BAD_LENGTH = 5"
definition BR_ERR_TOO_LARGE :: int where "BR_ERR_TOO_LARGE = 6"
definition BR_ERR_BAD_MAC :: int where "BR_ERR_BAD_MAC = 7"
definition BR_ERR_NO_RANDOM :: int where "BR_ERR_NO_RANDOM = 8"
definition BR_ERR_UNEXPECTED :: int where "BR_ERR_UNEXPECTED = 10"
definition BR_ERR_IO :: int where "BR_ERR_IO = 31"

lemmas br_err_defs = BR_ERR_OK_def BR_ERR_BAD_PARAM_def BR_ERR_BAD_STATE_def
  BR_ERR_UNSUPPORTED_VERSION_def BR_ERR_BAD_VERSION_def BR_ERR_BAD_LENGTH_def BR_ERR_TOO_LARGE_def
  BR_ERR_BAD_MAC_def BR_ERR_NO_RANDOM_def BR_ERR_UNEXPECTED_def BR_ERR_IO_def

definition BR_SSL_CHANGE_CIPHER_SPEC :: byte where "BR_SSL_CHANGE_CIPHER_SPEC = 20"
definition BR_SSL_ALERT :: byte where "BR_SSL_ALERT = 21"
definition BR_SSL_HANDSHAKE :: byte where "BR_SSL_HANDSHAKE = 22"
definition BR_SSL_APPLICATION_DATA :: byte where "BR_SSL_APPLICATION_DATA = 23"

lemmas br_type_defs = BR_SSL_CHANGE_CIPHER_SPEC_def BR_SSL_ALERT_def BR_SSL_HANDSHAKE_def
  BR_SSL_APPLICATION_DATA_def

definition BR_SSL_CLOSED :: u32 where "BR_SSL_CLOSED = 0x01"
definition BR_SSL_SENDREC :: u32 where "BR_SSL_SENDREC = 0x02"
definition BR_SSL_RECVREC :: u32 where "BR_SSL_RECVREC = 0x04"
definition BR_SSL_SENDAPP :: u32 where "BR_SSL_SENDAPP = 0x08"
definition BR_SSL_RECVAPP :: u32 where "BR_SSL_RECVAPP = 0x10"

lemmas br_state_defs = BR_SSL_CLOSED_def BR_SSL_SENDREC_def BR_SSL_RECVREC_def BR_SSL_SENDAPP_def
  BR_SSL_RECVAPP_def

definition BR_OPT_NO_RENEGOTIATION :: u32 where "BR_OPT_NO_RENEGOTIATION = 2"
definition BR_TLS10 :: u16 where "BR_TLS10 = 0x0301"
definition BR_TLS11 :: u16 where "BR_TLS11 = 0x0302"
definition BR_TLS12 :: u16 where "BR_TLS12 = 0x0303"

definition MAX_OUT_OVERHEAD :: nat where "MAX_OUT_OVERHEAD = 85"
definition MAX_IN_OVERHEAD :: nat where "MAX_IN_OVERHEAD = 325"

text \<open>A PRF implementation: output length, secret, label and seed chunks to the output.\<close>

type_synonym tls_prf = "nat \<Rightarrow> byte list \<Rightarrow> string \<Rightarrow> byte list list \<Rightarrow> byte list"

record ('c, 'r) engine =
  err :: int
  ibuf :: "addr option"
  obuf :: "addr option"
  ibuf_len :: nat
  obuf_len :: nat
  max_frag_len :: nat
  log_max_frag_len :: nat
  peer_log_max_frag_len :: nat
  ixa :: nat
  ixb :: nat
  ixc :: nat
  oxa :: nat
  oxb :: nat
  oxc :: nat
  iomode :: io_mode
  incrypt :: bool
  shutdown_recv :: bool
  record_type_in :: byte
  record_type_out :: byte
  version_in :: u16
  version_out :: u16
  rin :: rec_in
  rout :: rec_out
  application_data :: byte
  rng :: 'r
  rng_init_done :: nat
  rng_os_rand_done :: bool
  suites_buf :: "u16 list"
  suites_num :: nat
  client_random :: "byte list"
  server_random :: "byte list"
  session_version :: u16
  master_secret :: "byte list"
  reneg :: byte
  flags :: u32
  cpu :: 'c
  hbuf_in :: "addr option"
  hbuf_out :: "addr option"
  saved_hbuf_out :: "addr option"
  hlen_in :: nat
  hlen_out :: nat
  action :: byte
  alert :: byte
  prf10 :: tls_prf
  prf_sha256 :: tls_prf
  prf_sha384 :: tls_prf
  ighash :: ghash
  ichacha :: chacha20_run
  ipoly :: poly1305_run
  mem :: mem

text \<open>The numeric value of a pointer; \<open>NULL\<close> is 0.\<close>

definition ptr :: "addr option \<Rightarrow> addr" where
  "ptr p = (case p of None \<Rightarrow> 0 | Some a \<Rightarrow> a)"

lemma ptr_simps [simp]: "ptr None = 0" "ptr (Some a) = a"
  by (simp_all add: ptr_def)

section \<open>Low-level record management\<close>

definition br_ssl_engine_closed :: "('c, 'r) engine \<Rightarrow> bool" where
  "br_ssl_engine_closed cc \<longleftrightarrow> iomode cc = BR_IO_FAILED"

definition br_ssl_engine_has_pld_to_send :: "('c, 'r) engine \<Rightarrow> bool" where
  "br_ssl_engine_has_pld_to_send rc \<longleftrightarrow> oxa rc \<noteq> oxb rc \<and> oxa rc \<noteq> oxc rc"

definition br_ssl_engine_fail :: "('c, 'r) engine \<Rightarrow> int \<Rightarrow> ('c, 'r) engine" where
  "br_ssl_engine_fail rc e =
     (if iomode rc \<noteq> BR_IO_FAILED then rc\<lparr>iomode := BR_IO_FAILED, err := e\<rparr> else rc)"

definition make_ready_in :: "('c, 'r) engine \<Rightarrow> ('c, 'r) engine" where
  "make_ready_in rc =
     (let rc = rc\<lparr>ixa := 0, ixb := 0, ixc := 5\<rparr> in
      if iomode rc = BR_IO_IN then rc\<lparr>iomode := BR_IO_INOUT\<rparr> else rc)"

definition make_ready_out :: "('c, 'r) engine \<Rightarrow> ('c, 'r) engine" where
  "make_ready_out rc =
     (let (a, b) = out_max_plaintext (rout rc) 5 (sz_sub (obuf_len rc) 5);
          b = (if sz_sub b a > max_frag_len rc then sz_add a (max_frag_len rc) else b);
          rc = rc\<lparr>oxa := a, oxb := b, oxc := a\<rparr>
      in if iomode rc = BR_IO_OUT then rc\<lparr>iomode := BR_IO_INOUT\<rparr> else rc)"

definition br_ssl_engine_new_max_frag_len :: "('c, 'r) engine \<Rightarrow> nat \<Rightarrow> ('c, 'r) engine" where
  "br_ssl_engine_new_max_frag_len rc n =
     (let rc = rc\<lparr>max_frag_len := n mod 2 ^ 16\<rparr>;
          nxb = sz_add (oxc rc) n
      in if oxa rc < oxb rc \<and> oxb rc > nxb \<and> oxa rc < nxb then rc\<lparr>oxb := nxb\<rparr> else rc)"

text \<open>\<open>for (u = 14; u >= 9; u --)\<close>: the first exponent that fits, or 8.\<close>

function max_frag_loop :: "nat \<Rightarrow> nat \<Rightarrow> nat \<Rightarrow> nat" where
  "max_frag_loop ilen olen u =
     (if u \<ge> 9 then
        (let flen = 2 ^ u in
         if olen \<ge> flen + MAX_OUT_OVERHEAD \<and> ilen \<ge> flen + MAX_IN_OVERHEAD then u
         else max_frag_loop ilen olen (u - 1))
      else u)"
  by pat_completeness auto
termination
  by (relation "measure (\<lambda>(ilen, olen, u). u)") auto

declare max_frag_loop.simps [simp del]

definition br_ssl_engine_set_buffers_bidi ::
    "('c, 'r) engine \<Rightarrow> addr option \<Rightarrow> nat \<Rightarrow> addr option \<Rightarrow> nat \<Rightarrow> ('c, 'r) engine" where
  "br_ssl_engine_set_buffers_bidi rc ib iblen ob oblen =
     (let rc = rc\<lparr>iomode := BR_IO_INOUT, incrypt := False, err := BR_ERR_OK, version_in := 0,
                 record_type_in := 0, version_out := 0, record_type_out := 0\<rparr>;
          finish = (\<lambda>rc. make_ready_out (make_ready_in (rc\<lparr>rout := Out_clear\<rparr>)))
      in case ib of
        None \<Rightarrow> finish (if ibuf rc = None then br_ssl_engine_fail rc BR_ERR_BAD_PARAM else rc)
      | Some _ \<Rightarrow>
          (let rc = rc\<lparr>ibuf := ib, ibuf_len := iblen\<rparr>;
               (ob, oblen) = (if ob = None then (ib, iblen) else (ob, oblen));
               rc = rc\<lparr>obuf := ob, obuf_len := oblen\<rparr>;
               u = max_frag_loop iblen oblen 14
           in if u = 8 then br_ssl_engine_fail rc BR_ERR_BAD_PARAM
              else let u = (if u = 13 then 12 else u)
                   in finish (rc\<lparr>max_frag_len := 2 ^ u, log_max_frag_len := u,
                                 peer_log_max_frag_len := 0\<rparr>)))"

definition br_ssl_engine_set_buffer ::
    "('c, 'r) engine \<Rightarrow> addr option \<Rightarrow> nat \<Rightarrow> bool \<Rightarrow> ('c, 'r) engine" where
  "br_ssl_engine_set_buffer rc buf buf_len bidi =
     (case buf of
        None \<Rightarrow> br_ssl_engine_set_buffers_bidi rc None 0 None 0
      | Some p \<Rightarrow>
          if bidi then
            if buf_len < 512 + MAX_IN_OVERHEAD + 512 + MAX_OUT_OVERHEAD
            then rc\<lparr>iomode := BR_IO_FAILED, err := BR_ERR_BAD_PARAM\<rparr>
            else let w = (if buf_len < 16384 + MAX_IN_OVERHEAD + 512 + MAX_OUT_OVERHEAD
                          then 512 + MAX_OUT_OVERHEAD
                          else sz_sub buf_len (16384 + MAX_IN_OVERHEAD))
                 in br_ssl_engine_set_buffers_bidi rc (Some p) (sz_sub buf_len w) (Some (p + w)) w
          else br_ssl_engine_set_buffers_bidi rc (Some p) buf_len None 0)"

definition engine_clearbuf :: "('c, 'r) engine \<Rightarrow> ('c, 'r) engine" where
  "engine_clearbuf rc = make_ready_out (make_ready_in rc)"

section \<open>The internal I/O functions\<close>

text \<open>A \<open>*_buf\<close> function returns the pointer and stores the length; here, both in a pair.\<close>

definition recvrec_buf :: "('c, 'r) engine \<Rightarrow> addr option \<times> nat" where
  "recvrec_buf rc =
     (if shutdown_recv rc then (None, 0)
      else if (iomode rc = BR_IO_IN \<or> iomode rc = BR_IO_INOUT) \<and> ixa rc = ixb rc then
        (let z = ixc rc;
             room = sz_sub (ibuf_len rc) (ixa rc);
             z = (if z > room then room else z)
         in (Some (ptr (ibuf rc) + ixa rc), z))
      else (None, 0))"

text \<open>The header branch of \<open>recvrec_ack\<close>, entered when exactly five bytes are in.\<close>

definition recvrec_header :: "('c, 'r) engine \<Rightarrow> ('c, 'r) engine" where
  "recvrec_header rc =
     (let ib = ptr (ibuf rc);
          rc = rc\<lparr>record_type_in := mem rc ib\<rparr>;
          version = br_dec16be (mem rc) (ib + 1)
      in if drop_bit 8 version \<noteq> 3 then br_ssl_engine_fail rc BR_ERR_UNSUPPORTED_VERSION
         else if version_in rc \<noteq> 0 \<and> ucast (version_in rc) \<noteq> version
         then br_ssl_engine_fail rc BR_ERR_BAD_VERSION
         else
           (let rc = rc\<lparr>version_in := ucast version\<rparr>;
                rlen = unat (br_dec16be (mem rc) (ib + 3))
            in if incrypt rc \<and> \<not> in_check_length (rin rc) rlen
               then br_ssl_engine_fail rc BR_ERR_BAD_LENGTH
               else if incrypt rc \<and> rlen > sz_sub (ibuf_len rc) 5
               then br_ssl_engine_fail rc BR_ERR_TOO_LARGE
               else if \<not> incrypt rc \<and> rlen > 16384
               then br_ssl_engine_fail rc BR_ERR_BAD_LENGTH
               else if rlen = 0 then make_ready_in rc
               else rc\<lparr>ixa := 5, ixb := 5, ixc := rlen\<rparr>))"

text \<open>The last part of \<open>recvrec_ack\<close>: a full encrypted record is in.\<close>

definition recvrec_decrypt :: "('c, 'r) engine \<Rightarrow> ('c, 'r) engine" where
  "recvrec_decrypt rc =
     (let ib = ptr (ibuf rc);
          (ctx, m, r) = in_decrypt (rin rc) (record_type_in rc) (ucast (version_in rc)) (mem rc)
                          (ib + 5) (sz_sub (ixa rc) 5);
          rc = rc\<lparr>rin := ctx, mem := m\<rparr>
      in case r of
           None \<Rightarrow> br_ssl_engine_fail rc BR_ERR_BAD_MAC
         | Some (pbuf, pbuf_len) \<Rightarrow>
             (let rc = rc\<lparr>ixa := pbuf - ib\<rparr>;
                  rc = rc\<lparr>ixb := sz_add (ixa rc) pbuf_len\<rparr>
              in if ixa rc = ixb rc then make_ready_in rc else rc))"

definition recvrec_ack :: "('c, 'r) engine \<Rightarrow> nat \<Rightarrow> ('c, 'r) engine" where
  "recvrec_ack rc len =
     (let rc = (if iomode rc = BR_IO_INOUT \<and> ibuf rc = obuf rc then rc\<lparr>iomode := BR_IO_IN\<rparr> else rc);
          rc = rc\<lparr>ixa := sz_add (ixa rc) len\<rparr>;
          rc = rc\<lparr>ixb := ixa rc, ixc := sz_sub (ixc rc) len\<rparr>
      in if ixa rc < 5 then rc
         else if ixa rc = 5 then recvrec_header rc
         else if \<not> incrypt rc then rc\<lparr>ixa := 5\<rparr>
         else if ixc rc \<noteq> 0 then rc
         else recvrec_decrypt rc)"

definition br_ssl_engine_recvrec_finished :: "('c, 'r) engine \<Rightarrow> bool" where
  "br_ssl_engine_recvrec_finished rc \<longleftrightarrow>
     (if iomode rc = BR_IO_IN \<or> iomode rc = BR_IO_INOUT then ixc rc = 0 \<or> ixa rc < 5 else True)"

definition recvpld_buf :: "('c, 'r) engine \<Rightarrow> addr option \<times> nat" where
  "recvpld_buf rc =
     (if iomode rc = BR_IO_IN \<or> iomode rc = BR_IO_INOUT then
        (let len = sz_sub (ixb rc) (ixa rc)
         in (if len = 0 then None else Some (ptr (ibuf rc) + ixa rc), len))
      else (None, 0))"

definition recvpld_ack :: "('c, 'r) engine \<Rightarrow> nat \<Rightarrow> ('c, 'r) engine" where
  "recvpld_ack rc len =
     (let rc = rc\<lparr>ixa := sz_add (ixa rc) len\<rparr>
      in if ixa rc = ixb rc
         then (if ixc rc = 0 then make_ready_in rc else rc\<lparr>ixa := 5, ixb := 5\<rparr>)
         else rc)"

definition sendpld_buf :: "('c, 'r) engine \<Rightarrow> addr option \<times> nat" where
  "sendpld_buf rc =
     (if iomode rc = BR_IO_OUT \<or> iomode rc = BR_IO_INOUT then
        (let len = sz_sub (oxb rc) (oxa rc)
         in (if len = 0 then None else Some (ptr (obuf rc) + oxa rc), len))
      else (None, 0))"

definition sendpld_flush :: "('c, 'r) engine \<Rightarrow> bool \<Rightarrow> ('c, 'r) engine" where
  "sendpld_flush rc force =
     (if oxa rc = oxb rc then rc
      else let xlen = sz_sub (oxa rc) (oxc rc)
           in if xlen = 0 \<and> \<not> force then rc
              else let ob = ptr (obuf rc);
                       (ctx, m, buf, xlen) = out_encrypt (rout rc) (record_type_out rc)
                         (ucast (version_out rc)) (mem rc) (ob + oxc rc) xlen;
                       rc = rc\<lparr>rout := ctx, mem := m, oxa := buf - ob, oxb := buf - ob\<rparr>
                   in rc\<lparr>oxc := sz_add (oxa rc) xlen\<rparr>)"

definition sendpld_ack :: "('c, 'r) engine \<Rightarrow> nat \<Rightarrow> ('c, 'r) engine" where
  "sendpld_ack rc len =
     (let rc = (if iomode rc = BR_IO_INOUT \<and> ibuf rc = obuf rc then rc\<lparr>iomode := BR_IO_OUT\<rparr> else rc);
          rc = rc\<lparr>oxa := sz_add (oxa rc) len\<rparr>
      in if oxa rc \<ge> oxb rc
         then sendpld_flush (rc\<lparr>oxb := sz_add (oxa rc) 1\<rparr>) False
         else rc)"

definition sendrec_buf :: "('c, 'r) engine \<Rightarrow> addr option \<times> nat" where
  "sendrec_buf rc =
     (if (iomode rc = BR_IO_OUT \<or> iomode rc = BR_IO_INOUT) \<and> oxc rc > oxa rc
      then (Some (ptr (obuf rc) + oxa rc), sz_sub (oxc rc) (oxa rc))
      else (None, 0))"

definition sendrec_ack :: "('c, 'r) engine \<Rightarrow> nat \<Rightarrow> ('c, 'r) engine" where
  "sendrec_ack rc len =
     (let rc = rc\<lparr>oxa := sz_add (oxa rc) len\<rparr>;
          rc = rc\<lparr>oxb := oxa rc\<rparr>
      in if oxa rc = oxc rc then make_ready_out rc else rc)"

definition has_rec_tosend :: "('c, 'r) engine \<Rightarrow> bool" where
  "has_rec_tosend rc \<longleftrightarrow> oxa rc = oxb rc \<and> oxa rc \<noteq> oxc rc"

section \<open>Record types and the handshake processor\<close>

definition br_ssl_engine_set_suites :: "('c, 'r) engine \<Rightarrow> u16 list \<Rightarrow> ('c, 'r) engine" where
  "br_ssl_engine_set_suites cc suites =
     (if length suites * 2 > 96 then br_ssl_engine_fail cc BR_ERR_BAD_PARAM
      else cc\<lparr>suites_buf := suites @ drop (length suites) (suites_buf cc), suites_num := length suites\<rparr>)"

text \<open>
  One turn of the loop of \<open>jump_handshake\<close> up to the call of the handshake processor: the input
  and output windows the processor may use.
\<close>

definition hs_enter :: "('c, 'r) engine \<Rightarrow> byte \<Rightarrow> ('c, 'r) engine" where
  "hs_enter cc act =
     (let (hin, hl_in) = recvpld_buf cc;
          hl_in = (if hin \<noteq> None \<and> record_type_in cc = BR_SSL_APPLICATION_DATA then 0 else hl_in);
          (hout, hl_out) = sendpld_buf cc;
          hl_out = (if hout \<noteq> None \<and> br_ssl_engine_has_pld_to_send cc then 0 else hl_out)
      in cc\<lparr>hbuf_in := hin, hbuf_out := hout, saved_hbuf_out := hout, hlen_in := hl_in,
            hlen_out := hl_out, action := act\<rparr>)"

text \<open>After the call: what the processor wrote is acknowledged as payload to send.\<close>

definition hs_take_output :: "('c, 'r) engine \<Rightarrow> ('c, 'r) engine" where
  "hs_take_output cc =
     (if hbuf_out cc \<noteq> saved_hbuf_out cc
      then sendpld_ack cc (sz_sub (ptr (hbuf_out cc)) (ptr (saved_hbuf_out cc)))
      else cc)"

partial_function (option) jump_handshake ::
    "(('c, 'r) engine \<Rightarrow> ('c, 'r) engine) \<Rightarrow> ('c, 'r) engine \<Rightarrow> byte \<Rightarrow> ('c, 'r) engine option" where
  "jump_handshake hs cc act =
     (let cc = hs_enter cc act;
          hl_in = hlen_in cc;
          cc = hs cc
      in if br_ssl_engine_closed cc then Some cc
         else let cc = hs_take_output cc
              in if hl_in \<noteq> hlen_in cc
                 then (let cc = recvpld_ack cc (sz_sub hl_in (hlen_in cc))
                       in if hlen_in cc = 0 then jump_handshake hs cc 0 else Some cc)
                 else Some cc)"

declare jump_handshake.simps [code]

definition br_ssl_engine_flush_record :: "('c, 'r) engine \<Rightarrow> ('c, 'r) engine" where
  "br_ssl_engine_flush_record cc =
     (let cc = hs_take_output cc;
          cc = (if br_ssl_engine_has_pld_to_send cc then sendpld_flush cc False else cc);
          (hout, hl_out) = sendpld_buf cc
      in cc\<lparr>saved_hbuf_out := hout, hbuf_out := hout, hlen_out := hl_out\<rparr>)"

section \<open>The application-facing API\<close>

definition br_ssl_engine_sendapp_buf :: "('c, 'r) engine \<Rightarrow> addr option \<times> nat" where
  "br_ssl_engine_sendapp_buf cc = (if application_data cc AND 1 = 0 then (None, 0) else sendpld_buf cc)"

definition br_ssl_engine_sendapp_ack :: "('c, 'r) engine \<Rightarrow> nat \<Rightarrow> ('c, 'r) engine" where
  "br_ssl_engine_sendapp_ack cc len = sendpld_ack cc len"

definition br_ssl_engine_recvapp_buf :: "('c, 'r) engine \<Rightarrow> addr option \<times> nat" where
  "br_ssl_engine_recvapp_buf cc =
     (if application_data cc AND 1 = 0 \<or> record_type_in cc \<noteq> BR_SSL_APPLICATION_DATA then (None, 0)
      else recvpld_buf cc)"

definition br_ssl_engine_recvapp_ack :: "('c, 'r) engine \<Rightarrow> nat \<Rightarrow> ('c, 'r) engine" where
  "br_ssl_engine_recvapp_ack cc len = recvpld_ack cc len"

definition br_ssl_engine_sendrec_buf :: "('c, 'r) engine \<Rightarrow> addr option \<times> nat" where
  "br_ssl_engine_sendrec_buf cc = sendrec_buf cc"

definition br_ssl_engine_sendrec_ack ::
    "(('c, 'r) engine \<Rightarrow> ('c, 'r) engine) \<Rightarrow> ('c, 'r) engine \<Rightarrow> nat \<Rightarrow> ('c, 'r) engine option" where
  "br_ssl_engine_sendrec_ack hs cc len =
     (let cc = sendrec_ack cc len
      in if len \<noteq> 0 \<and> \<not> has_rec_tosend cc \<and>
            (record_type_out cc \<noteq> BR_SSL_APPLICATION_DATA \<or> application_data cc AND 1 = 0)
         then jump_handshake hs cc 0 else Some cc)"

definition br_ssl_engine_recvrec_buf :: "('c, 'r) engine \<Rightarrow> addr option \<times> nat" where
  "br_ssl_engine_recvrec_buf cc = recvrec_buf cc"

definition br_ssl_engine_recvrec_ack ::
    "(('c, 'r) engine \<Rightarrow> ('c, 'r) engine) \<Rightarrow> ('c, 'r) engine \<Rightarrow> nat \<Rightarrow> ('c, 'r) engine option" where
  "br_ssl_engine_recvrec_ack hs cc len =
     (let cc = recvrec_ack cc len
      in if br_ssl_engine_closed cc then Some cc
         else let (buf, len) = recvpld_buf cc
              in if buf \<noteq> None
                 then (if record_type_in cc = BR_SSL_CHANGE_CIPHER_SPEC
                          \<or> record_type_in cc = BR_SSL_ALERT \<or> record_type_in cc = BR_SSL_HANDSHAKE
                       then jump_handshake hs cc 0
                       else if record_type_in cc = BR_SSL_APPLICATION_DATA \<and> application_data cc = 1
                       then Some cc
                       else if record_type_in cc = BR_SSL_APPLICATION_DATA \<and> application_data cc = 2
                       then Some (recvpld_ack cc len)
                       else Some (br_ssl_engine_fail cc BR_ERR_UNEXPECTED))
                 else Some cc)"

definition br_ssl_engine_close ::
    "(('c, 'r) engine \<Rightarrow> ('c, 'r) engine) \<Rightarrow> ('c, 'r) engine \<Rightarrow> ('c, 'r) engine option" where
  "br_ssl_engine_close hs cc = (if br_ssl_engine_closed cc then Some cc else jump_handshake hs cc 1)"

definition br_ssl_engine_renegotiate ::
    "(('c, 'r) engine \<Rightarrow> ('c, 'r) engine) \<Rightarrow> ('c, 'r) engine \<Rightarrow> (('c, 'r) engine \<times> int) option" where
  "br_ssl_engine_renegotiate hs cc =
     (if br_ssl_engine_closed cc \<or> reneg cc = 1 \<or> flags cc AND BR_OPT_NO_RENEGOTIATION \<noteq> 0
         \<or> fst (br_ssl_engine_recvapp_buf cc) \<noteq> None
      then Some (cc, 0)
      else map_option (\<lambda>cc. (cc, 1)) (jump_handshake hs cc 2))"

definition br_ssl_engine_current_state :: "('c, 'r) engine \<Rightarrow> u32" where
  "br_ssl_engine_current_state cc =
     (if br_ssl_engine_closed cc then BR_SSL_CLOSED
      else let s = 0;
               s = (if fst (br_ssl_engine_sendrec_buf cc) \<noteq> None then s OR BR_SSL_SENDREC else s);
               s = (if fst (br_ssl_engine_recvrec_buf cc) \<noteq> None then s OR BR_SSL_RECVREC else s);
               s = (if fst (br_ssl_engine_sendapp_buf cc) \<noteq> None then s OR BR_SSL_SENDAPP else s);
               s = (if fst (br_ssl_engine_recvapp_buf cc) \<noteq> None then s OR BR_SSL_RECVAPP else s)
           in s)"

definition br_ssl_engine_flush :: "('c, 'r) engine \<Rightarrow> bool \<Rightarrow> ('c, 'r) engine" where
  "br_ssl_engine_flush cc force =
     (if \<not> br_ssl_engine_closed cc \<and> application_data cc AND 1 \<noteq> 0 then sendpld_flush cc force else cc)"

text \<open>\<open>hsinit\<close> resets the T0 stacks and sets the entry point; \<open>hs\<close> is the new \<open>hsrun\<close>.\<close>

definition br_ssl_engine_hs_reset ::
    "('c \<Rightarrow> 'c) \<Rightarrow> (('c, 'r) engine \<Rightarrow> ('c, 'r) engine) \<Rightarrow> ('c, 'r) engine \<Rightarrow> ('c, 'r) engine option" where
  "br_ssl_engine_hs_reset hsinit hs cc =
     (let cc = engine_clearbuf cc;
          cc = cc\<lparr>cpu := hsinit (cpu cc), shutdown_recv := False, application_data := 0, alert := 0\<rparr>
      in jump_handshake hs cc 0)"

section \<open>Random generator set-up\<close>

text \<open>
  The operations of the HMAC_DRBG the engine calls: initialisation for a hash identifier, update
  with injected entropy, and the system seeder (\<open>None\<close> when there is none). \<open>hash_id\<close> tells
  which of SHA-256 (4), SHA-384 (5) and SHA-1 (2) the engine's multihash context implements.
\<close>

record 'r rng_ops =
  hash_id :: "nat \<Rightarrow> bool"
  drbg_init :: "nat \<Rightarrow> 'r"
  drbg_update :: "'r \<Rightarrow> byte list \<Rightarrow> 'r"
  seeder_system :: "('r \<Rightarrow> 'r \<times> bool) option"

definition rng_init :: "'r rng_ops \<Rightarrow> ('c, 'r) engine \<Rightarrow> ('c, 'r) engine \<times> bool" where
  "rng_init ops cc =
     (if rng_init_done cc \<noteq> 0 then (cc, True)
      else if hash_id ops 4 then (cc\<lparr>rng := drbg_init ops 4, rng_init_done := 1\<rparr>, True)
      else if hash_id ops 5 then (cc\<lparr>rng := drbg_init ops 5, rng_init_done := 1\<rparr>, True)
      else if hash_id ops 2 then (cc\<lparr>rng := drbg_init ops 2, rng_init_done := 1\<rparr>, True)
      else (br_ssl_engine_fail cc BR_ERR_BAD_STATE, False))"

definition br_ssl_engine_init_rand :: "'r rng_ops \<Rightarrow> ('c, 'r) engine \<Rightarrow> ('c, 'r) engine \<times> bool" where
  "br_ssl_engine_init_rand ops cc =
     (let (cc, ok) = rng_init ops cc
      in if \<not> ok then (cc, False)
         else let cc = (if rng_os_rand_done cc then cc
                        else (case seeder_system ops of
                                None \<Rightarrow> cc
                              | Some sd \<Rightarrow> (let (r, good) = sd (rng cc)
                                           in if good then cc\<lparr>rng := r, rng_init_done := 2\<rparr>
                                              else cc\<lparr>rng := r\<rparr>))\<lparr>rng_os_rand_done := True\<rparr>)
              in if rng_init_done cc < 2 then (br_ssl_engine_fail cc BR_ERR_NO_RANDOM, False)
                 else (cc, True))"

definition br_ssl_engine_inject_entropy :: "'r rng_ops \<Rightarrow> ('c, 'r) engine \<Rightarrow> byte list \<Rightarrow> ('c, 'r) engine" where
  "br_ssl_engine_inject_entropy ops cc data =
     (let (cc, ok) = rng_init ops cc
      in if \<not> ok then cc else cc\<lparr>rng := drbg_update ops (rng cc) data, rng_init_done := 2\<rparr>)"

section \<open>Keys\<close>

definition br_ssl_engine_get_PRF :: "('c, 'r) engine \<Rightarrow> nat \<Rightarrow> tls_prf" where
  "br_ssl_engine_get_PRF cc prf_id =
     (if session_version cc \<ge> BR_TLS12 then (if prf_id = 5 then prf_sha384 cc else prf_sha256 cc)
      else prf10 cc)"

definition br_ssl_engine_compute_master :: "('c, 'r) engine \<Rightarrow> nat \<Rightarrow> byte list \<Rightarrow> ('c, 'r) engine" where
  "br_ssl_engine_compute_master cc prf_id pms =
     cc\<lparr>master_secret := br_ssl_engine_get_PRF cc prf_id 48 pms ''master secret''
        [client_random cc, server_random cc]\<rparr>"

definition compute_key_block :: "('c, 'r) engine \<Rightarrow> nat \<Rightarrow> nat \<Rightarrow> byte list" where
  "compute_key_block cc prf_id half_len =
     br_ssl_engine_get_PRF cc prf_id (half_len * 2) (master_secret cc) ''key expansion''
       [server_random cc, client_random cc]"

definition br_ssl_engine_switch_gcm_in ::
    "('c, 'r) engine \<Rightarrow> bool \<Rightarrow> nat \<Rightarrow> block_ctr_class \<Rightarrow> nat \<Rightarrow> ('c, 'r) engine" where
  "br_ssl_engine_switch_gcm_in cc is_client prf_id bc_impl cipher_key_len =
     (let kb = compute_key_block cc prf_id (cipher_key_len + 4);
          (cipher_key, iv) = (if is_client
             then (drop cipher_key_len kb, drop (cipher_key_len * 2 + 4) kb)
             else (kb, drop (cipher_key_len * 2) kb))
      in cc\<lparr>rin := In_gcm (gen_gcm_init bc_impl (take cipher_key_len cipher_key) (ighash cc) iv),
            incrypt := True\<rparr>)"

definition br_ssl_engine_switch_gcm_out ::
    "('c, 'r) engine \<Rightarrow> bool \<Rightarrow> nat \<Rightarrow> block_ctr_class \<Rightarrow> nat \<Rightarrow> ('c, 'r) engine" where
  "br_ssl_engine_switch_gcm_out cc is_client prf_id bc_impl cipher_key_len =
     (let kb = compute_key_block cc prf_id (cipher_key_len + 4);
          (cipher_key, iv) = (if is_client
             then (kb, drop (cipher_key_len * 2) kb)
             else (drop cipher_key_len kb, drop (cipher_key_len * 2 + 4) kb))
      in cc\<lparr>rout := Out_gcm (gen_gcm_init bc_impl (take cipher_key_len cipher_key) (ighash cc) iv)\<rparr>)"

definition br_ssl_engine_switch_chapol_in :: "('c, 'r) engine \<Rightarrow> bool \<Rightarrow> nat \<Rightarrow> ('c, 'r) engine" where
  "br_ssl_engine_switch_chapol_in cc is_client prf_id =
     (let kb = compute_key_block cc prf_id 44;
          (cipher_key, iv) = (if is_client then (drop 32 kb, drop 76 kb) else (kb, drop 64 kb))
      in cc\<lparr>rin := In_chapol (gen_chapol_init (ichacha cc) (ipoly cc) cipher_key iv), incrypt := True\<rparr>)"

definition br_ssl_engine_switch_chapol_out :: "('c, 'r) engine \<Rightarrow> bool \<Rightarrow> nat \<Rightarrow> ('c, 'r) engine" where
  "br_ssl_engine_switch_chapol_out cc is_client prf_id =
     (let kb = compute_key_block cc prf_id 44;
          (cipher_key, iv) = (if is_client then (kb, drop 64 kb) else (drop 32 kb, drop 76 kb))
      in cc\<lparr>rout := Out_chapol (gen_chapol_init (ichacha cc) (ipoly cc) cipher_key iv)\<rparr>)"

end
