(* ===== verification/Ssl_Engine_Inv.thy ===== *)
theory Ssl_Engine_Inv
  imports Ssl_Engine
begin

text \<open>
  The register invariant of the engine and what rests on it: every operation of the buffer API keeps
  it when its caller acknowledges no more than it was offered, the offered windows lie inside the
  buffers, nothing outside the buffers is written, and the first failure is final.
\<close>

unbundle bit_operations_syntax

section \<open>The invariant\<close>

definition buf_ok :: "('c, 'r) engine \<Rightarrow> bool" where
  "buf_ok rc \<longleftrightarrow> ibuf rc \<noteq> None \<and> obuf rc \<noteq> None
     \<and> 512 + MAX_IN_OVERHEAD \<le> ibuf_len rc \<and> ibuf_len rc < 2 ^ 63
     \<and> 512 + MAX_OUT_OVERHEAD \<le> obuf_len rc \<and> obuf_len rc < 2 ^ 63
     \<and> 0 < max_frag_len rc \<and> max_frag_len rc < 2 ^ 16"

text \<open>Input registers: collecting a header, collecting a body, or holding payload to read.\<close>

definition in_header :: "('c, 'r) engine \<Rightarrow> bool" where
  "in_header rc \<longleftrightarrow> ixb rc = ixa rc \<and> ixa rc < 5 \<and> ixc rc = 5 - ixa rc"

definition in_body :: "('c, 'r) engine \<Rightarrow> bool" where
  "in_body rc \<longleftrightarrow> ixb rc = ixa rc \<and> 5 \<le> ixa rc \<and> 0 < ixc rc
     \<and> (if incrypt rc
        then ixa rc + ixc rc \<le> ibuf_len rc \<and> in_check_length (rin rc) (ixa rc - 5 + ixc rc)
        else ixa rc = 5 \<and> ixc rc \<le> 16384)"

definition in_payload :: "('c, 'r) engine \<Rightarrow> bool" where
  "in_payload rc \<longleftrightarrow> 5 \<le> ixa rc \<and> ixa rc < ixb rc \<and> ixb rc \<le> ibuf_len rc
     \<and> ixc rc \<le> 16384 \<and> (incrypt rc \<longrightarrow> ixc rc = 0)"

definition in_regs :: "('c, 'r) engine \<Rightarrow> bool" where
  "in_regs rc \<longleftrightarrow> (in_header rc \<or> in_body rc \<or> in_payload rc) \<and> in_ok (rin rc)"

text \<open>Output registers: accumulating payload, or sending an assembled record.\<close>

definition out_gather :: "('c, 'r) engine \<Rightarrow> bool" where
  "out_gather rc \<longleftrightarrow> 5 + out_pre (rout rc) \<le> oxc rc \<and> oxc rc \<le> oxa rc \<and> oxa rc < oxb rc
     \<and> oxb rc + out_post (rout rc) \<le> obuf_len rc"

definition out_sending :: "('c, 'r) engine \<Rightarrow> bool" where
  "out_sending rc \<longleftrightarrow> oxb rc = oxa rc \<and> oxa rc < oxc rc \<and> oxc rc \<le> obuf_len rc"

definition out_regs :: "('c, 'r) engine \<Rightarrow> bool" where
  "out_regs rc \<longleftrightarrow> (out_gather rc \<or> out_sending rc) \<and> out_ok (rout rc)"

definition engine_ok :: "('c, 'r) engine \<Rightarrow> bool" where
  "engine_ok rc \<longleftrightarrow> buf_ok rc \<and> (br_ssl_engine_closed rc \<or> in_regs rc \<and> out_regs rc)"

lemmas in_defs = in_regs_def in_header_def in_body_def in_payload_def
lemmas out_defs = out_regs_def out_gather_def out_sending_def
lemmas overhead_defs = MAX_IN_OVERHEAD_def MAX_OUT_OVERHEAD_def

text \<open>The frame of an operation: it writes inside one block of the memory only.\<close>

definition writes_within :: "mem \<Rightarrow> mem \<Rightarrow> addr \<Rightarrow> nat \<Rightarrow> bool" where
  "writes_within m m' p n \<longleftrightarrow> (\<forall>a. a < p \<or> p + n \<le> a \<longrightarrow> m' a = m a)"

lemma writes_within_refl [simp]: "writes_within m m p n"
  by (simp add: writes_within_def)

lemma writes_within_load:
  "writes_within m m' p n \<Longrightarrow> k + l \<le> p \<or> p + n \<le> k \<Longrightarrow> load m' k l = load m k l"
  by (intro load_cong) (auto simp: writes_within_def)

section \<open>Failure\<close>

lemma fail_closed [simp]: "br_ssl_engine_closed (br_ssl_engine_fail rc e)"
  by (simp add: br_ssl_engine_fail_def br_ssl_engine_closed_def)

lemma fail_sel [simp]:
  "buf_ok (br_ssl_engine_fail rc e) = buf_ok rc" "mem (br_ssl_engine_fail rc e) = mem rc"
  "ibuf (br_ssl_engine_fail rc e) = ibuf rc" "obuf (br_ssl_engine_fail rc e) = obuf rc"
  by (simp_all add: br_ssl_engine_fail_def buf_ok_def)

lemma engine_ok_fail: "buf_ok rc \<Longrightarrow> engine_ok (br_ssl_engine_fail rc e)"
  by (simp add: engine_ok_def)

section \<open>Output\<close>

lemma make_ready_out_gather:
  assumes "buf_ok rc" "out_ok (rout rc)"
  shows "out_gather (make_ready_out rc) \<and> rout (make_ready_out rc) = rout rc
    \<and> oxa (make_ready_out rc) = 5 + out_pre (rout rc) \<and> oxc (make_ready_out rc) = 5 + out_pre (rout rc)"
proof -
  obtain a b where ab: "out_max_plaintext (rout rc) 5 (obuf_len rc - 5) = (a, b)" by fastforce
  have L: "597 \<le> obuf_len rc" "obuf_len rc < 2 ^ 64" "0 < max_frag_len rc" "max_frag_len rc < 2 ^ 16"
    using assms(1) by (auto simp: buf_ok_def overhead_defs)
  note room = rout.max_plaintext_room [OF assms(2) L(1,2) ab]
  have "a = 5 + out_pre (rout rc)"
    using rout.max_law [of "rout rc" 5 "obuf_len rc - 5"] rout.overhead [of "rout rc"] assms(2) L ab by simp
  with room L ab show ?thesis
    by (auto simp: make_ready_out_def out_gather_def Let_def sz_simps split: prod.splits)
qed

lemma make_ready_out_sel [simp]:
  "ibuf (make_ready_out rc) = ibuf rc" "obuf (make_ready_out rc) = obuf rc"
  "mem (make_ready_out rc) = mem rc" "rin (make_ready_out rc) = rin rc"
  "rout (make_ready_out rc) = rout rc" "incrypt (make_ready_out rc) = incrypt rc"
  "ibuf_len (make_ready_out rc) = ibuf_len rc" "err (make_ready_out rc) = err rc"
  "record_type_in (make_ready_out rc) = record_type_in rc"
  "record_type_out (make_ready_out rc) = record_type_out rc"
  "application_data (make_ready_out rc) = application_data rc"
  "buf_ok (make_ready_out rc) = buf_ok rc" "in_regs (make_ready_out rc) = in_regs rc"
  "in_header (make_ready_out rc) = in_header rc"
  "br_ssl_engine_closed (make_ready_out rc) = br_ssl_engine_closed rc"
  by (auto simp: make_ready_out_def Let_def buf_ok_def in_defs br_ssl_engine_closed_def
      split: prod.splits)

lemma make_ready_out_regs: "buf_ok rc \<Longrightarrow> out_ok (rout rc) \<Longrightarrow> out_regs (make_ready_out rc)"
  using make_ready_out_gather [of rc] by (simp add: out_regs_def)

text \<open>Fields that no output operation touches, under one name.\<close>

definition same_input :: "('c, 'r) engine \<Rightarrow> ('c, 'r) engine \<Rightarrow> bool" where
  "same_input rc rc' \<longleftrightarrow> ixa rc' = ixa rc \<and> ixb rc' = ixb rc \<and> ixc rc' = ixc rc \<and> rin rc' = rin rc
     \<and> incrypt rc' = incrypt rc \<and> ibuf rc' = ibuf rc \<and> obuf rc' = obuf rc \<and> ibuf_len rc' = ibuf_len rc
     \<and> obuf_len rc' = obuf_len rc \<and> max_frag_len rc' = max_frag_len rc
     \<and> br_ssl_engine_closed rc' = br_ssl_engine_closed rc \<and> err rc' = err rc
     \<and> record_type_in rc' = record_type_in rc \<and> record_type_out rc' = record_type_out rc
     \<and> application_data rc' = application_data rc \<and> shutdown_recv rc' = shutdown_recv rc"

lemma same_input_refl [simp]: "same_input rc rc"
  by (simp add: same_input_def)

lemma same_input_trans: "same_input a b \<Longrightarrow> same_input b c \<Longrightarrow> same_input a c"
  by (simp add: same_input_def)

lemma same_input_buf_ok: "same_input rc rc' \<Longrightarrow> buf_ok rc' = buf_ok rc"
  by (simp add: same_input_def buf_ok_def)

lemma same_input_in_regs: "same_input rc rc' \<Longrightarrow> in_regs rc' = in_regs rc"
  by (simp add: same_input_def in_defs)

lemma same_input_engine_ok:
  "same_input rc rc' \<Longrightarrow> engine_ok rc \<Longrightarrow> br_ssl_engine_closed rc' \<or> out_regs rc' \<Longrightarrow> engine_ok rc'"
  using same_input_buf_ok [of rc rc'] same_input_in_regs [of rc rc']
  by (auto simp: engine_ok_def same_input_def)

text \<open>Assembling a record turns the gathered payload into a record to send.\<close>

lemma sendpld_flush_assembles:
  assumes "buf_ok rc" "out_ok (rout rc)" "5 + out_pre (rout rc) \<le> oxc rc" "oxc rc \<le> oxa rc"
    and "oxa rc + out_post (rout rc) \<le> obuf_len rc" "oxa rc \<noteq> oxb rc" "oxc rc < oxa rc \<or> force"
  defines "rc' \<equiv> sendpld_flush rc force" and "ob \<equiv> ptr (obuf rc)" and "n \<equiv> oxa rc - oxc rc"
  shows "\<exists>ctx m. out_encrypt (rout rc) (record_type_out rc) (ucast (version_out rc)) (mem rc) (ob + oxc rc) n
      = (ctx, m, ob + oxa rc', oxc rc' - oxa rc')
      \<and> rc' = rc\<lparr>rout := ctx, mem := m, oxa := oxc rc - 5 - out_pre (rout rc),
          oxb := oxc rc - 5 - out_pre (rout rc), oxc := oxa rc + out_post (rout rc)\<rparr>"
    and "out_sending rc'" "out_ok (rout rc')" "writes_within (mem rc) (mem rc') ob (obuf_len rc)"
      "same_input rc rc'"
proof -
  obtain ctx m q k where e: "out_encrypt (rout rc) (record_type_out rc) (ucast (version_out rc)) (mem rc)
      (ob + oxc rc) n = (ctx, m, q, k)" by (metis prod_cases4)
  have n: "n < 2 ^ 63" "5 + out_pre (rout rc) \<le> ob + oxc rc"
    using assms(1,3-5) by (auto simp: buf_ok_def n_def)
  note law = rout.enc_law [OF assms(2) n(2,1) e]
  have q: "q = ob + (oxc rc - 5 - out_pre (rout rc))"
    and k: "k = oxa rc + out_post (rout rc) - (oxc rc - 5 - out_pre (rout rc))"
    and le: "oxa rc + out_post (rout rc) < 2 ^ 64" "oxc rc - 5 - out_pre (rout rc) \<le> oxa rc"
    using law assms(1,3-5) by (auto simp: n_def buf_ok_def)
  have x: "sz_sub (oxa rc) (oxc rc) = n" "sz_add (oxc rc - 5 - out_pre (rout rc)) k = oxa rc + out_post (rout rc)"
    using assms(3,4) le k by (auto simp: sz_simps n_def)
  have rc': "rc' = rc\<lparr>rout := ctx, mem := m, oxa := oxc rc - 5 - out_pre (rout rc),
      oxb := oxc rc - 5 - out_pre (rout rc), oxc := oxa rc + out_post (rout rc)\<rparr>"
  proof -
    have c: "(n = 0 \<and> \<not> force) = False" using assms(7) by (auto simp: n_def)
    show ?thesis
      using assms(6) q x(2) by (simp add: c rc'_def sendpld_flush_def Let_def x(1) ob_def [symmetric] e)
  qed
  show "\<exists>ctx m. out_encrypt (rout rc) (record_type_out rc) (ucast (version_out rc)) (mem rc) (ob + oxc rc) n
      = (ctx, m, ob + oxa rc', oxc rc' - oxa rc')
      \<and> rc' = rc\<lparr>rout := ctx, mem := m, oxa := oxc rc - 5 - out_pre (rout rc),
          oxb := oxc rc - 5 - out_pre (rout rc), oxc := oxa rc + out_post (rout rc)\<rparr>"
    using e q k rc' by auto
  show "out_sending rc'" "out_ok (rout rc')" "writes_within (mem rc) (mem rc') ob (obuf_len rc)"
    using assms(3-5) law by (auto simp: rc' out_sending_def writes_within_def n_def)
  show "same_input rc rc'"
    by (simp add: rc' same_input_def br_ssl_engine_closed_def)
qed

lemma sendpld_flush_idle:
  "oxa rc = oxb rc \<or> oxa rc = oxc rc \<and> \<not> force \<Longrightarrow> sendpld_flush rc force = rc"
  by (auto simp: sendpld_flush_def Let_def)

lemma sendpld_flush_inv:
  assumes "buf_ok rc" "out_regs rc"
  shows "out_regs (sendpld_flush rc force)" "same_input rc (sendpld_flush rc force)"
    "writes_within (mem rc) (mem (sendpld_flush rc force)) (ptr (obuf rc)) (obuf_len rc)"
proof -
  have "out_regs (sendpld_flush rc force) \<and> same_input rc (sendpld_flush rc force)
      \<and> writes_within (mem rc) (mem (sendpld_flush rc force)) (ptr (obuf rc)) (obuf_len rc)"
  proof (cases "oxa rc = oxb rc \<or> oxa rc = oxc rc \<and> \<not> force")
    case True
    then show ?thesis using assms(2) by (simp add: sendpld_flush_idle)
  next
    case False
    with assms have g: "5 + out_pre (rout rc) \<le> oxc rc" "oxc rc \<le> oxa rc"
        "oxa rc + out_post (rout rc) \<le> obuf_len rc" "oxa rc \<noteq> oxb rc" "oxc rc < oxa rc \<or> force"
      and ok: "out_ok (rout rc)"
      by (auto simp: out_defs)
    from sendpld_flush_assembles(2-) [OF assms(1) ok g] show ?thesis
      by (simp add: out_regs_def)
  qed
  then show "out_regs (sendpld_flush rc force)" "same_input rc (sendpld_flush rc force)"
    "writes_within (mem rc) (mem (sendpld_flush rc force)) (ptr (obuf rc)) (obuf_len rc)"
    by auto
qed

lemma sendpld_buf_Some:
  assumes "buf_ok rc" "out_regs rc" "sendpld_buf rc = (Some p, z)"
  shows "out_gather rc" "p = ptr (obuf rc) + oxa rc" "z = oxb rc - oxa rc" "0 < z"
    "p + z \<le> ptr (obuf rc) + obuf_len rc" "iomode rc = BR_IO_OUT \<or> iomode rc = BR_IO_INOUT"
  using assms by (auto simp: sendpld_buf_def out_defs buf_ok_def Let_def sz_simps split: if_splits)

lemma sendpld_ack_inv:
  assumes "engine_ok rc" "sendpld_buf rc = (Some p, z)" "len \<le> z"
  shows "engine_ok (sendpld_ack rc len)" "same_input rc (sendpld_ack rc len)" "out_regs (sendpld_ack rc len)"
    "writes_within (mem rc) (mem (sendpld_ack rc len)) (ptr (obuf rc)) (obuf_len rc)"
proof -
  let ?io = "if iomode rc = BR_IO_INOUT \<and> ibuf rc = obuf rc then BR_IO_OUT else iomode rc"
  have b: "buf_ok rc" "out_regs rc" "in_regs rc"
    using assms(1,2) by (auto simp: engine_ok_def br_ssl_engine_closed_def sendpld_buf_def)
  note w = sendpld_buf_Some [OF b(1,2) assms(2)]
  have g: "5 + out_pre (rout rc) \<le> oxc rc" "oxc rc \<le> oxa rc" "oxb rc + out_post (rout rc) \<le> obuf_len rc"
      "out_ok (rout rc)" "oxa rc + len \<le> oxb rc" "oxa rc < oxb rc"
    using w b(2) assms(3) by (auto simp: out_gather_def out_regs_def)
  have sz: "sz_add (oxa rc) len = oxa rc + len" "sz_add (oxa rc + len) (Suc 0) = oxa rc + len + 1"
    using g(3,5) b(1) by (auto simp: sz_simps buf_ok_def)
  define r where "r = rc\<lparr>iomode := ?io, oxa := oxa rc + len\<rparr>"
  have r: "same_input rc r" "rout r = rout rc" "oxa r = oxa rc + len" "oxb r = oxb rc" "oxc r = oxc rc"
      "mem r = mem rc" "obuf r = obuf rc" "obuf_len r = obuf_len rc"
    using w(6) by (auto simp: r_def same_input_def br_ssl_engine_closed_def)
  have eq: "sendpld_ack rc len =
      (if oxa rc + len = oxb rc then sendpld_flush (r\<lparr>oxb := oxa rc + len + 1\<rparr>) False else r)"
    using g(5) by (auto simp: sendpld_ack_def Let_def sz r_def)
  have "same_input rc (sendpld_ack rc len) \<and> out_regs (sendpld_ack rc len)
      \<and> writes_within (mem rc) (mem (sendpld_ack rc len)) (ptr (obuf rc)) (obuf_len rc)"
  proof (cases "oxa rc + len = oxb rc")
    case True
    define t where "t = r\<lparr>oxb := oxa rc + len + 1\<rparr>"
    have t: "same_input rc t" "rout t = rout rc" "oxa t = oxa rc + len" "oxb t = oxa rc + len + 1"
        "oxc t = oxc rc" "mem t = mem rc" "obuf t = obuf rc" "obuf_len t = obuf_len rc"
      using r by (auto simp: t_def same_input_def br_ssl_engine_closed_def)
    have p: "buf_ok t" "out_ok (rout t)" "5 + out_pre (rout t) \<le> oxc t" "oxc t \<le> oxa t"
        "oxa t + out_post (rout t) \<le> obuf_len t" "oxa t \<noteq> oxb t" "oxc t < oxa t \<or> False"
      using g b(1) True t same_input_buf_ok [OF t(1)] by auto
    have "sendpld_ack rc len = sendpld_flush t False" unfolding eq t_def using True by simp
    with sendpld_flush_assembles(2-) [OF p] t same_input_trans [OF t(1)] show ?thesis
      by (simp add: out_regs_def)
  next
    case False
    then show ?thesis unfolding eq
      using g r by (auto simp: out_defs)
  qed
  then show "engine_ok (sendpld_ack rc len)" "same_input rc (sendpld_ack rc len)" "out_regs (sendpld_ack rc len)"
    "writes_within (mem rc) (mem (sendpld_ack rc len)) (ptr (obuf rc)) (obuf_len rc)"
    using same_input_engine_ok assms(1) by auto
qed

lemma sendrec_buf_Some:
  assumes "buf_ok rc" "out_regs rc" "sendrec_buf rc = (Some p, z)"
  shows "out_sending rc" "p = ptr (obuf rc) + oxa rc" "z = oxc rc - oxa rc" "0 < z"
    "p + z \<le> ptr (obuf rc) + obuf_len rc" "iomode rc = BR_IO_OUT \<or> iomode rc = BR_IO_INOUT"
  using assms by (auto simp: sendrec_buf_def out_defs buf_ok_def sz_simps split: if_splits)

lemma sendrec_ack_inv:
  assumes "engine_ok rc" "sendrec_buf rc = (Some p, z)" "len \<le> z"
  shows "engine_ok (sendrec_ack rc len)" "same_input rc (sendrec_ack rc len)" "out_regs (sendrec_ack rc len)"
    "mem (sendrec_ack rc len) = mem rc"
proof -
  have b: "buf_ok rc" "out_regs rc"
    using assms(1,2) by (auto simp: engine_ok_def br_ssl_engine_closed_def sendrec_buf_def)
  note w = sendrec_buf_Some [OF b assms(2)]
  have sz: "sz_add (oxa rc) len = oxa rc + len" "oxa rc + len \<le> oxc rc" "oxc rc \<le> obuf_len rc"
    using w b(1) assms(3) by (auto simp: sz_simps out_sending_def buf_ok_def)
  let ?r = "rc\<lparr>oxa := oxa rc + len, oxb := oxa rc + len\<rparr>"
  have eq: "sendrec_ack rc len = (if oxa rc + len = oxc rc then make_ready_out ?r else ?r)"
    by (simp add: sendrec_ack_def Let_def sz(1))
  have k: "buf_ok ?r" "out_ok (rout ?r)" using b by (auto simp: buf_ok_def out_regs_def)
  have "same_input ?r (make_ready_out ?r)"
    by (auto simp: same_input_def make_ready_out_def br_ssl_engine_closed_def Let_def split: prod.splits)
  with make_ready_out_regs [OF k] sz(2,3) b(2) w(6)
  have "same_input rc (sendrec_ack rc len) \<and> out_regs (sendrec_ack rc len) \<and> mem (sendrec_ack rc len) = mem rc"
    unfolding eq by (auto simp: same_input_def br_ssl_engine_closed_def out_regs_def out_sending_def)
  then show "engine_ok (sendrec_ack rc len)" "same_input rc (sendrec_ack rc len)"
    "out_regs (sendrec_ack rc len)" "mem (sendrec_ack rc len) = mem rc"
    using same_input_engine_ok assms(1) by auto
qed

section \<open>Input\<close>

text \<open>The same view of an engine for input operations: the output side is untouched.\<close>

definition same_output :: "('c, 'r) engine \<Rightarrow> ('c, 'r) engine \<Rightarrow> bool" where
  "same_output rc rc' \<longleftrightarrow> oxa rc' = oxa rc \<and> oxb rc' = oxb rc \<and> oxc rc' = oxc rc \<and> rout rc' = rout rc
     \<and> ibuf rc' = ibuf rc \<and> obuf rc' = obuf rc \<and> ibuf_len rc' = ibuf_len rc
     \<and> obuf_len rc' = obuf_len rc \<and> max_frag_len rc' = max_frag_len rc
     \<and> record_type_out rc' = record_type_out rc \<and> version_out rc' = version_out rc
     \<and> application_data rc' = application_data rc"

lemma same_output_refl [simp]: "same_output rc rc"
  by (simp add: same_output_def)

lemma same_output_trans: "same_output a b \<Longrightarrow> same_output b c \<Longrightarrow> same_output a c"
  by (simp add: same_output_def)

lemma same_output_buf_ok: "same_output rc rc' \<Longrightarrow> buf_ok rc' = buf_ok rc"
  by (simp add: same_output_def buf_ok_def)

lemma same_output_out_regs: "same_output rc rc' \<Longrightarrow> out_regs rc' = out_regs rc"
  by (simp add: same_output_def out_defs)

lemma same_output_engine_ok:
  "same_output rc rc' \<Longrightarrow> buf_ok rc \<Longrightarrow> out_regs rc \<Longrightarrow> br_ssl_engine_closed rc' \<or> in_regs rc' \<Longrightarrow> engine_ok rc'"
  using same_output_buf_ok [of rc rc'] same_output_out_regs [of rc rc'] by (auto simp: engine_ok_def)

lemma same_output_fail [simp]: "same_output rc (br_ssl_engine_fail rc e)"
  by (simp add: same_output_def br_ssl_engine_fail_def)

lemma make_ready_in_props [simp]:
  "same_output rc (make_ready_in rc)" "in_header (make_ready_in rc)"
  "rin (make_ready_in rc) = rin rc" "mem (make_ready_in rc) = mem rc"
  "br_ssl_engine_closed (make_ready_in rc) = br_ssl_engine_closed rc" "err (make_ready_in rc) = err rc"
  "ixa (make_ready_in rc) = 0" "ixb (make_ready_in rc) = 0" "ixc (make_ready_in rc) = 5"
  "incrypt (make_ready_in rc) = incrypt rc" "hlen_in (make_ready_in rc) = hlen_in rc"
  "version_in (make_ready_in rc) = version_in rc"
  by (auto simp: make_ready_in_def same_output_def in_header_def br_ssl_engine_closed_def Let_def)

lemma make_ready_in_regs: "in_ok (rin rc) \<Longrightarrow> in_regs (make_ready_in rc)"
  by (simp add: in_regs_def)

lemma recvrec_buf_Some:
  assumes "buf_ok rc" "in_regs rc" "recvrec_buf rc = (Some p, z)"
  shows "in_header rc \<or> in_body rc" "p = ptr (ibuf rc) + ixa rc" "z \<le> ixc rc" "0 < z"
    "ixa rc + z \<le> ibuf_len rc" "iomode rc = BR_IO_IN \<or> iomode rc = BR_IO_INOUT"
    "incrypt rc \<Longrightarrow> z = ixc rc" "in_header rc \<Longrightarrow> z = ixc rc"
proof -
  have L: "837 \<le> ibuf_len rc" "ibuf_len rc < 2 ^ 64" "ixa rc \<le> ibuf_len rc" "ixb rc = ixa rc"
    using assms by (auto simp: buf_ok_def overhead_defs recvrec_buf_def in_defs split: if_splits)
  then have sz: "sz_sub (ibuf_len rc) (ixa rc) = ibuf_len rc - ixa rc" by (simp add: sz_simps)
  show "in_header rc \<or> in_body rc" using assms(2) L(4) by (auto simp: in_regs_def in_payload_def)
  then show "z \<le> ixc rc" "0 < z" "ixa rc + z \<le> ibuf_len rc" "p = ptr (ibuf rc) + ixa rc"
    "iomode rc = BR_IO_IN \<or> iomode rc = BR_IO_INOUT"
    "incrypt rc \<Longrightarrow> z = ixc rc" "in_header rc \<Longrightarrow> z = ixc rc"
    using assms(3) L
    by (auto simp: recvrec_buf_def Let_def sz in_header_def in_body_def split: if_splits)
qed

lemma in_body_start:
  "ixa rc = 5 \<Longrightarrow> ixb rc = 5 \<Longrightarrow> 0 < ixc rc \<Longrightarrow> 5 \<le> ibuf_len rc \<Longrightarrow> in_ok (rin rc) \<Longrightarrow>
    (incrypt rc \<Longrightarrow> ixc rc \<le> ibuf_len rc - 5 \<and> in_check_length (rin rc) (ixc rc)) \<Longrightarrow>
    (\<not> incrypt rc \<Longrightarrow> ixc rc \<le> 16384) \<Longrightarrow> in_regs rc"
  by (auto simp: in_regs_def in_body_def)

lemma recvrec_header_inv:
  assumes "buf_ok rc" "in_ok (rin rc)"
  shows "same_output rc (recvrec_header rc)" "mem (recvrec_header rc) = mem rc"
    "br_ssl_engine_closed (recvrec_header rc) \<or> in_regs (recvrec_header rc)"
proof -
  have L: "sz_sub (ibuf_len rc) 5 = ibuf_len rc - 5" "5 \<le> ibuf_len rc"
    using assms(1) by (auto simp: buf_ok_def overhead_defs sz_simps)
  show "same_output rc (recvrec_header rc)" "mem (recvrec_header rc) = mem rc"
    by (auto simp: recvrec_header_def same_output_def br_ssl_engine_fail_def make_ready_in_def Let_def)
  show "br_ssl_engine_closed (recvrec_header rc) \<or> in_regs (recvrec_header rc)"
    using assms(2) L
    by (auto simp: recvrec_header_def Let_def L(1) make_ready_in_regs intro!: in_body_start)
qed

lemma recvrec_decrypt_inv:
  assumes "buf_ok rc" "in_ok (rin rc)" "incrypt rc" "5 \<le> ixa rc" "ixa rc \<le> ibuf_len rc" "ixc rc = 0"
    and "in_check_length (rin rc) (ixa rc - 5)"
  shows "same_output rc (recvrec_decrypt rc)"
    "writes_within (mem rc) (mem (recvrec_decrypt rc)) (ptr (ibuf rc)) (ibuf_len rc)"
    "br_ssl_engine_closed (recvrec_decrypt rc) \<or> in_regs (recvrec_decrypt rc)"
proof -
  obtain ctx m r where d: "in_decrypt (rin rc) (record_type_in rc) (ucast (version_in rc)) (mem rc)
      (ptr (ibuf rc) + 5) (ixa rc - 5) = (ctx, m, r)" by (metis prod_cases3)
  have L: "sz_sub (ixa rc) 5 = ixa rc - 5" "ibuf_len rc < 2 ^ 63"
    using assms(1,4,5) by (auto simp: sz_simps buf_ok_def)
  have l: "in_pre (rin rc) + in_post (rin rc) \<le> ixa rc - 5" "ixa rc - 5 < 2 ^ 64"
    using rin.check_law [OF assms(7)] L assms(5) by auto
  note law = rin.dec_law [OF assms(2) l d]
  show "writes_within (mem rc) (mem (recvrec_decrypt rc)) (ptr (ibuf rc)) (ibuf_len rc)"
    using law assms(4,5)
    by (auto simp: recvrec_decrypt_def L d Let_def writes_within_def br_ssl_engine_fail_def
        split: option.splits)
  show "same_output rc (recvrec_decrypt rc)"
    by (auto simp: recvrec_decrypt_def L d Let_def same_output_def br_ssl_engine_fail_def make_ready_in_def
        split: option.splits)
  show "br_ssl_engine_closed (recvrec_decrypt rc) \<or> in_regs (recvrec_decrypt rc)"
  proof (cases r)
    case None then show ?thesis by (simp add: recvrec_decrypt_def L d Let_def)
  next
    case (Some qk)
    obtain q k where qk: "qk = (q, k)" by (cases qk)
    with Some law have q: "q = ptr (ibuf rc) + 5 + in_pre (rin rc)"
      and k: "k = ixa rc - 5 - in_pre (rin rc) - in_post (rin rc)" and ok: "in_ok ctx" by auto
    have "sz_add (5 + in_pre (rin rc)) k = 5 + in_pre (rin rc) + k"
      using k l(1) L assms(4,5) by (simp add: sz_simps)
    with Some qk q k l(1) ok assms(3-6) show ?thesis
      by (auto simp: recvrec_decrypt_def L d Let_def make_ready_in_regs)
        (auto simp: in_regs_def in_payload_def)
  qed
qed

lemma recvrec_ack_eq:
  assumes "ixa rc + len < 2 ^ 63" "len \<le> ixc rc" "ixc rc < 2 ^ 63"
  defines "r \<equiv> rc\<lparr>iomode := (if iomode rc = BR_IO_INOUT \<and> ibuf rc = obuf rc then BR_IO_IN else iomode rc),
    ixa := ixa rc + len, ixb := ixa rc + len, ixc := ixc rc - len\<rparr>"
  shows "recvrec_ack rc len = (if ixa r < 5 then r else if ixa r = 5 then recvrec_header r
    else if \<not> incrypt r then r\<lparr>ixa := 5\<rparr> else if ixc r \<noteq> 0 then r else recvrec_decrypt r)"
proof -
  have "sz_add (ixa rc) len = ixa rc + len" "sz_sub (ixc rc) len = ixc rc - len"
    using assms(1-3) by (simp_all add: sz_simps)
  then show ?thesis
    unfolding r_def recvrec_ack_def
    by (cases "iomode rc = BR_IO_INOUT \<and> ibuf rc = obuf rc") (simp_all only: Let_def if_True if_False, simp_all)
qed

lemma recvrec_ack_inv:
  assumes "engine_ok rc" "recvrec_buf rc = (Some p, z)" "0 < len" "len \<le> z"
  shows "engine_ok (recvrec_ack rc len)" "same_output rc (recvrec_ack rc len)"
    "writes_within (mem rc) (mem (recvrec_ack rc len)) (ptr (ibuf rc)) (ibuf_len rc)"
proof -
  let ?io = "if iomode rc = BR_IO_INOUT \<and> ibuf rc = obuf rc then BR_IO_IN else iomode rc"
  have b: "buf_ok rc" "in_regs rc" "out_regs rc"
    using assms(1,2) by (auto simp: engine_ok_def br_ssl_engine_closed_def recvrec_buf_def split: if_splits)
  note w = recvrec_buf_Some [OF b(1,2) assms(2)]
  have L: "ixa rc + len \<le> ibuf_len rc" "ibuf_len rc < 2 ^ 63" "len \<le> ixc rc" "ixc rc < 2 ^ 63"
    using w b assms(4) by (auto simp: buf_ok_def in_header_def in_body_def split: if_splits)
  define r where "r = rc\<lparr>iomode := ?io, ixa := ixa rc + len, ixb := ixa rc + len, ixc := ixc rc - len\<rparr>"
  have r: "same_output rc r" "rin r = rin rc" "mem r = mem rc" "incrypt r = incrypt rc" "ixa r = ixa rc + len"
      "ixb r = ixa rc + len" "ixc r = ixc rc - len" "ibuf r = ibuf rc" "ibuf_len r = ibuf_len rc" "buf_ok r"
    using b(1) by (auto simp: r_def same_output_def buf_ok_def)
  have eq: "recvrec_ack rc len = (if ixa r < 5 then r else if ixa r = 5 then recvrec_header r
      else if \<not> incrypt r then r\<lparr>ixa := 5\<rparr> else if ixc r \<noteq> 0 then r else recvrec_decrypt r)"
    unfolding r_def by (rule recvrec_ack_eq) (use L in auto)
  have ok: "in_ok (rin r)" using b(2) r by (simp add: in_regs_def)
  have "same_output rc (recvrec_ack rc len)
      \<and> writes_within (mem rc) (mem (recvrec_ack rc len)) (ptr (ibuf rc)) (ibuf_len rc)
      \<and> (br_ssl_engine_closed (recvrec_ack rc len) \<or> in_regs (recvrec_ack rc len))"
  proof -
    consider (hdr) "ixa r < 5" | (full) "ixa r = 5" | (clear) "5 < ixa r" "\<not> incrypt r"
      | (part) "5 < ixa r" "incrypt r" "ixc r \<noteq> 0" | (rec) "5 < ixa r" "incrypt r" "ixc r = 0" by linarith
    then show ?thesis
    proof cases
      case hdr
      then have "in_header r" using w(1) r by (auto simp: in_header_def in_body_def)
      with hdr r ok show ?thesis by (simp add: eq in_regs_def)
    next
      case full
      with recvrec_header_inv [OF r(10) ok] r same_output_trans [OF r(1)] show ?thesis by (simp add: eq)
    next
      case clear
      then have "in_body rc" using w(1,3) r assms(4) by (auto simp: in_header_def in_body_def)
      then have "in_payload (r\<lparr>ixa := 5\<rparr>)"
        using clear r L by (auto simp: in_payload_def in_body_def)
      moreover have "same_output rc (r\<lparr>ixa := 5\<rparr>)" using r(1) by (simp add: same_output_def)
      ultimately show ?thesis using clear r ok by (simp add: eq in_regs_def)
    next
      case part
      then have "in_body rc" using w(1,3) r assms(4) by (auto simp: in_header_def in_body_def)
      then have "in_body r" using part r L by (auto simp: in_body_def)
      with part r ok show ?thesis by (simp add: eq in_regs_def)
    next
      case rec
      then have "in_body rc" using w(1,3) r assms(4) by (auto simp: in_header_def in_body_def)
      then have "in_check_length (rin r) (ixa r - 5)" "ixa r \<le> ibuf_len r"
        using rec r L by (auto simp: in_body_def)
      with recvrec_decrypt_inv [of r] rec r ok same_output_trans [OF r(1)] show ?thesis by (simp add: eq)
    qed
  qed
  then show "engine_ok (recvrec_ack rc len)" "same_output rc (recvrec_ack rc len)"
    "writes_within (mem rc) (mem (recvrec_ack rc len)) (ptr (ibuf rc)) (ibuf_len rc)"
    using same_output_engine_ok b by blast+
qed

lemma recvpld_buf_Some:
  assumes "buf_ok rc" "in_regs rc" "recvpld_buf rc = (Some p, z)"
  shows "in_payload rc" "p = ptr (ibuf rc) + ixa rc" "z = ixb rc - ixa rc" "0 < z"
    "p + z \<le> ptr (ibuf rc) + ibuf_len rc" "iomode rc = BR_IO_IN \<or> iomode rc = BR_IO_INOUT"
  using assms by (auto simp: recvpld_buf_def in_defs buf_ok_def Let_def sz_simps split: if_splits)

lemma recvpld_ack_inv:
  assumes "engine_ok rc" "recvpld_buf rc = (Some p, z)" "len \<le> z"
  shows "engine_ok (recvpld_ack rc len)" "same_output rc (recvpld_ack rc len)"
    "mem (recvpld_ack rc len) = mem rc" "hlen_in (recvpld_ack rc len) = hlen_in rc"
    "len = z \<Longrightarrow> ixa (recvpld_ack rc len) = ixb (recvpld_ack rc len)"
    "br_ssl_engine_closed (recvpld_ack rc len) = br_ssl_engine_closed rc"
proof -
  have b: "buf_ok rc" "in_regs rc" "out_regs rc"
    using assms(1,2) by (auto simp: engine_ok_def br_ssl_engine_closed_def recvpld_buf_def)
  note w = recvpld_buf_Some [OF b(1,2) assms(2)]
  have L: "sz_add (ixa rc) len = ixa rc + len" "ixa rc + len \<le> ixb rc"
    using w(1,3) assms(3) b(1) by (auto simp: in_payload_def buf_ok_def sz_simps)
  define r where "r = rc\<lparr>ixa := ixa rc + len\<rparr>"
  have r: "same_output rc r" "rin r = rin rc" "mem r = mem rc" "incrypt r = incrypt rc" "ixa r = ixa rc + len"
      "ixb r = ixb rc" "ixc r = ixc rc" "ibuf_len r = ibuf_len rc" "hlen_in r = hlen_in rc"
      "br_ssl_engine_closed r = br_ssl_engine_closed rc" "in_ok (rin r)"
    using b(2) by (auto simp: r_def same_output_def br_ssl_engine_closed_def in_regs_def)
  have eq: "recvpld_ack rc len = (if ixa r = ixb r then if ixc r = 0 then make_ready_in r
      else r\<lparr>ixa := 5, ixb := 5\<rparr> else r)"
    by (simp add: recvpld_ack_def Let_def r_def L)
  have "same_output r (r\<lparr>ixa := 5, ixb := 5\<rparr>)" by (simp add: same_output_def)
  note so = same_output_trans [OF r(1) this] same_output_trans [OF r(1) make_ready_in_props(1)]
  have ln: "len = z \<Longrightarrow> ixa r = ixb r" using w(1,3) r by (auto simp: in_payload_def)
  have "in_regs (r\<lparr>ixa := 5, ixb := 5\<rparr>)" if "ixc r \<noteq> 0"
    using w(1) b(1) r that by (intro in_body_start) (auto simp: in_payload_def buf_ok_def overhead_defs)
  moreover have "in_regs r" if "ixa r \<noteq> ixb r"
    using w(1) r L that by (auto simp: in_regs_def in_payload_def)
  ultimately have "in_regs (recvpld_ack rc len)"
    using r(11) by (simp add: eq make_ready_in_regs)
  moreover have "same_output rc (recvpld_ack rc len)" using so r(1) by (simp add: eq)
  ultimately show "engine_ok (recvpld_ack rc len)" "same_output rc (recvpld_ack rc len)"
    using same_output_engine_ok b by blast+
  show "mem (recvpld_ack rc len) = mem rc" "hlen_in (recvpld_ack rc len) = hlen_in rc"
    "br_ssl_engine_closed (recvpld_ack rc len) = br_ssl_engine_closed rc"
    using r(3,9,10) by (simp_all add: eq) (simp add: br_ssl_engine_closed_def)
  show "ixa (recvpld_ack rc len) = ixb (recvpld_ack rc len)" if "len = z"
    unfolding eq using ln [OF that] by simp
qed

section \<open>The handshake processor\<close>

text \<open>
  What the engine relies on from the handshake processor it calls (\<open>hsrun\<close>): entered in a good
  state it leaves a good state, it consumes input only by lowering \<open>hlen_in\<close> and does not move
  the input registers itself, it writes output only inside the window it was given and reports it
  through \<open>hbuf_out\<close>, and it writes no memory outside the output buffer. It may fail the engine
  and it may switch the record protection. The contract is for separate input and output buffers,
  which is how every user of the engine in this repository sets it up; there the I/O mode stays
  as it is until the engine fails.
\<close>

definition hs_out_ok :: "('c, 'r) engine \<Rightarrow> bool" where
  "hs_out_ok cc \<longleftrightarrow> hbuf_out cc = saved_hbuf_out cc \<or>
     (\<exists>p z k. sendpld_buf cc = (Some p, z) \<and> saved_hbuf_out cc = Some p \<and> hbuf_out cc = Some (p + k) \<and> k \<le> z)"

definition hs_contract :: "(('c, 'r) engine \<Rightarrow> ('c, 'r) engine) \<Rightarrow> bool" where
  "hs_contract hs \<longleftrightarrow> (\<forall>cc. engine_ok cc \<and> \<not> br_ssl_engine_closed cc \<and> ibuf cc \<noteq> obuf cc \<longrightarrow>
     engine_ok (hs cc) \<and> hlen_in (hs cc) \<le> hlen_in cc \<and> ixa (hs cc) = ixa cc \<and> ixb (hs cc) = ixb cc
     \<and> ibuf (hs cc) = ibuf cc \<and> ibuf_len (hs cc) = ibuf_len cc
     \<and> obuf (hs cc) = obuf cc \<and> obuf_len (hs cc) = obuf_len cc
     \<and> writes_within (mem cc) (mem (hs cc)) (ptr (obuf cc)) (obuf_len cc)
     \<and> (br_ssl_engine_closed (hs cc) \<or> iomode (hs cc) = iomode cc \<and> hs_out_ok (hs cc)))"

text \<open>Entering the processor sets its windows only.\<close>

lemma hs_enter_ok:
  "engine_ok (hs_enter cc act) = engine_ok cc" "br_ssl_engine_closed (hs_enter cc act) = br_ssl_engine_closed cc"
  "mem (hs_enter cc act) = mem cc" "ibuf (hs_enter cc act) = ibuf cc" "obuf (hs_enter cc act) = obuf cc"
  "ibuf_len (hs_enter cc act) = ibuf_len cc" "obuf_len (hs_enter cc act) = obuf_len cc"
  "ixa (hs_enter cc act) = ixa cc" "ixb (hs_enter cc act) = ixb cc" "iomode (hs_enter cc act) = iomode cc"
  by (auto simp: hs_enter_def engine_ok_def br_ssl_engine_closed_def buf_ok_def in_defs out_defs Let_def
      split: prod.splits)

lemma hs_enter_hlen:
  "hlen_in (hs_enter cc act) = (if fst (recvpld_buf cc) \<noteq> None \<and> record_type_in cc = BR_SSL_APPLICATION_DATA
     then 0 else snd (recvpld_buf cc))"
  by (simp add: hs_enter_def Let_def split: prod.splits)

lemma hs_enter_no_input: "ixa cc = ixb cc \<Longrightarrow> hlen_in (hs_enter cc act) = 0"
  by (simp add: hs_enter_hlen recvpld_buf_def Let_def)

lemma hs_take_output_inv:
  assumes "engine_ok cc" "hs_out_ok cc"
  shows "engine_ok (hs_take_output cc)" "same_input cc (hs_take_output cc)"
    "writes_within (mem cc) (mem (hs_take_output cc)) (ptr (obuf cc)) (obuf_len cc)"
    "hlen_in (hs_take_output cc) = hlen_in cc"
proof -
  have hl: "hlen_in (sendpld_ack cc k) = hlen_in cc" for k
    by (auto simp: sendpld_ack_def sendpld_flush_def Let_def split: prod.splits)
  have "engine_ok (hs_take_output cc) \<and> same_input cc (hs_take_output cc)
      \<and> writes_within (mem cc) (mem (hs_take_output cc)) (ptr (obuf cc)) (obuf_len cc)"
  proof (cases "hbuf_out cc = saved_hbuf_out cc")
    case True
    with assms(1) show ?thesis by (simp add: hs_take_output_def)
  next
    case False
    with assms(2) obtain p z k where w: "sendpld_buf cc = (Some p, z)" "saved_hbuf_out cc = Some p"
        "hbuf_out cc = Some (p + k)" "k \<le> z" by (auto simp: hs_out_ok_def)
    have "z < 2 ^ 64" using w(1) by (auto simp: sendpld_buf_def Let_def sz_sub_def split: if_splits)
    then have "sz_sub (p + k) p = k" using w(4) by (simp add: sz_sub_def)
    with w False sendpld_ack_inv [OF assms(1) w(1,4)] show ?thesis
      by (simp add: hs_take_output_def)
  qed
  then show "engine_ok (hs_take_output cc)" "same_input cc (hs_take_output cc)"
    "writes_within (mem cc) (mem (hs_take_output cc)) (ptr (obuf cc)) (obuf_len cc)"
    by auto
  show "hlen_in (hs_take_output cc) = hlen_in cc" by (simp add: hs_take_output_def hl)
qed

lemma sendpld_ack_iomode: "ibuf cc \<noteq> obuf cc \<Longrightarrow> iomode (sendpld_ack cc k) = iomode cc"
  by (auto simp: sendpld_ack_def sendpld_flush_def Let_def split: prod.splits)

lemma hs_take_output_iomode: "ibuf cc \<noteq> obuf cc \<Longrightarrow> iomode (hs_take_output cc) = iomode cc"
  by (simp add: hs_take_output_def sendpld_ack_iomode)

lemma writes_within_trans:
  "writes_within m m' p n \<Longrightarrow> writes_within m' m'' p n \<Longrightarrow> writes_within m m'' p n"
  by (simp add: writes_within_def)

text \<open>
  One turn of the loop: the processor has run and its output is taken. Either the engine failed, or
  the state is good, or it is good and all the input offered was consumed, so that the next turn
  offers none.
\<close>

definition hs_turn :: "(('c, 'r) engine \<Rightarrow> ('c, 'r) engine) \<Rightarrow> ('c, 'r) engine \<Rightarrow> byte \<Rightarrow> ('c, 'r) engine" where
  "hs_turn hs cc act =
     (let e = hs_enter cc act; c1 = hs e
      in if br_ssl_engine_closed c1 then c1
         else let c2 = hs_take_output c1
              in if hlen_in e \<noteq> hlen_in c1 then recvpld_ack c2 (hlen_in e - hlen_in c1) else c2)"

lemma hs_turn_inv:
  fixes hs :: "('c, 'r) engine \<Rightarrow> ('c, 'r) engine" and act :: byte
  assumes "hs_contract hs" "engine_ok cc" "\<not> br_ssl_engine_closed cc" "ibuf cc \<noteq> obuf cc"
  defines "e \<equiv> hs_enter cc act"
  defines "c1 \<equiv> hs e"
  shows "engine_ok (hs_turn hs cc act)" "ibuf (hs_turn hs cc act) = ibuf cc" "obuf (hs_turn hs cc act) = obuf cc"
    "obuf_len (hs_turn hs cc act) = obuf_len cc"
    "writes_within (mem cc) (mem (hs_turn hs cc act)) (ptr (obuf cc)) (obuf_len cc)"
    "\<not> br_ssl_engine_closed c1 \<Longrightarrow> \<not> br_ssl_engine_closed (hs_turn hs cc act)"
    "\<not> br_ssl_engine_closed c1 \<Longrightarrow> hlen_in c1 < hlen_in e \<Longrightarrow> hlen_in c1 = 0 \<Longrightarrow>
       ixa (hs_turn hs cc act) = ixb (hs_turn hs cc act)"
proof -
  have e: "engine_ok e" "\<not> br_ssl_engine_closed e" "ibuf e \<noteq> obuf e"
    using assms by (simp_all add: e_def hs_enter_ok)
  then have h: "engine_ok c1" "hlen_in c1 \<le> hlen_in e" "ixa c1 = ixa e" "ixb c1 = ixb e" "ibuf c1 = ibuf e"
      "obuf c1 = obuf e" "obuf_len c1 = obuf_len e" "writes_within (mem e) (mem c1) (ptr (obuf e)) (obuf_len e)"
      "br_ssl_engine_closed c1 \<or> iomode c1 = iomode e \<and> hs_out_ok c1"
    using assms(1) by (auto simp: hs_contract_def c1_def)
  have turn: "hs_turn hs cc act = (if br_ssl_engine_closed c1 then c1 else
      if hlen_in e \<noteq> hlen_in c1 then recvpld_ack (hs_take_output c1) (hlen_in e - hlen_in c1)
      else hs_take_output c1)"
    by (simp add: hs_turn_def Let_def e_def c1_def)
  note q = hs_enter_ok [of cc act, folded e_def]
  have "engine_ok (hs_turn hs cc act) \<and> ibuf (hs_turn hs cc act) = ibuf cc \<and> obuf (hs_turn hs cc act) = obuf cc
      \<and> obuf_len (hs_turn hs cc act) = obuf_len cc
      \<and> writes_within (mem cc) (mem (hs_turn hs cc act)) (ptr (obuf cc)) (obuf_len cc)
      \<and> (\<not> br_ssl_engine_closed c1 \<longrightarrow> \<not> br_ssl_engine_closed (hs_turn hs cc act))
      \<and> (\<not> br_ssl_engine_closed c1 \<longrightarrow> hlen_in c1 < hlen_in e \<longrightarrow> hlen_in c1 = 0 \<longrightarrow>
         ixa (hs_turn hs cc act) = ixb (hs_turn hs cc act))"
  proof (cases "br_ssl_engine_closed c1")
    case True
    with h q show ?thesis by (simp add: turn)
  next
    case False
    with h(9) have ho: "hs_out_ok c1" "iomode c1 = iomode e" by auto
    define c2 where "c2 = hs_take_output c1"
    note c2 = hs_take_output_inv [OF h(1) ho(1), folded c2_def]
    have io: "iomode c2 = iomode cc" using hs_take_output_iomode [of c1] e(3) h ho q by (simp add: c2_def)
    have s: "ixa c2 = ixa cc" "ixb c2 = ixb cc" "ibuf c2 = ibuf cc" "obuf c2 = obuf cc" "\<not> br_ssl_engine_closed c2"
        "obuf_len c2 = obuf_len cc"
      using c2(2) h q False by (auto simp: same_input_def)
    have ww: "writes_within (mem cc) (mem c2) (ptr (obuf cc)) (obuf_len cc)"
      using writes_within_trans c2(3) h(6,7,8) q by metis
    show ?thesis
    proof (cases "hlen_in e = hlen_in c1")
      case True
      with c2(1) s ww False show ?thesis by (simp add: turn c2_def [symmetric])
    next
      case ne: False
      then have lt: "0 < hlen_in e" using h(2) by linarith
      have rp: "recvpld_buf c2 = recvpld_buf cc" by (simp add: recvpld_buf_def io s Let_def)
      from lt obtain p z where w: "recvpld_buf cc = (Some p, z)" "hlen_in e = z"
        by (auto simp: e_def hs_enter_hlen recvpld_buf_def Let_def split: if_splits)
      have "hlen_in e - hlen_in c1 \<le> z" using w by simp
      note r = recvpld_ack_inv [OF c2(1) rp [unfolded w(1)] this]
      from r(2) s have "ibuf (recvpld_ack c2 (hlen_in e - hlen_in c1)) = ibuf cc"
        "obuf (recvpld_ack c2 (hlen_in e - hlen_in c1)) = obuf cc"
        "obuf_len (recvpld_ack c2 (hlen_in e - hlen_in c1)) = obuf_len cc"
        by (auto simp: same_output_def)
      with r(1,3,5,6) s(5) ww False ne w(2) show ?thesis
        by (simp add: turn c2_def [symmetric])
    qed
  qed
  then show "engine_ok (hs_turn hs cc act)" "ibuf (hs_turn hs cc act) = ibuf cc" "obuf (hs_turn hs cc act) = obuf cc"
    "obuf_len (hs_turn hs cc act) = obuf_len cc"
    "writes_within (mem cc) (mem (hs_turn hs cc act)) (ptr (obuf cc)) (obuf_len cc)"
    "\<not> br_ssl_engine_closed c1 \<Longrightarrow> \<not> br_ssl_engine_closed (hs_turn hs cc act)"
    "\<not> br_ssl_engine_closed c1 \<Longrightarrow> hlen_in c1 < hlen_in e \<Longrightarrow> hlen_in c1 = 0 \<Longrightarrow>
       ixa (hs_turn hs cc act) = ixb (hs_turn hs cc act)"
    by auto
qed

lemma hlen_in_take_output [simp]: "hlen_in (hs_take_output cc) = hlen_in cc"
  by (auto simp: hs_take_output_def sendpld_ack_def sendpld_flush_def Let_def split: prod.splits)

lemma hlen_in_recvpld_ack [simp]: "hlen_in (recvpld_ack cc k) = hlen_in cc"
  by (simp add: recvpld_ack_def Let_def)

lemma hs_enter_hlen_bound: "hlen_in (hs_enter cc act) < 2 ^ 64"
  by (simp add: hs_enter_hlen recvpld_buf_def Let_def sz_sub_def)

lemma hs_contract_hlen:
  "hs_contract hs \<Longrightarrow> engine_ok cc \<Longrightarrow> \<not> br_ssl_engine_closed cc \<Longrightarrow> ibuf cc \<noteq> obuf cc \<Longrightarrow>
    hlen_in (hs cc) \<le> hlen_in cc"
  by (simp add: hs_contract_def)

lemma jump_handshake_turn:
  assumes "hs_contract hs" "engine_ok cc" "\<not> br_ssl_engine_closed cc" "ibuf cc \<noteq> obuf cc"
  shows "jump_handshake hs cc act =
    (let e = hs_enter cc act; c1 = hs e; t = hs_turn hs cc act
     in if br_ssl_engine_closed c1 then Some t
        else if hlen_in e \<noteq> hlen_in c1 \<and> hlen_in c1 = 0 then jump_handshake hs t 0 else Some t)"
proof -
  let ?e = "hs_enter cc act"
  have "hlen_in (hs ?e) \<le> hlen_in ?e"
    using assms by (auto simp: hs_contract_def hs_enter_ok)
  then have "sz_sub (hlen_in ?e) (hlen_in (hs ?e)) = hlen_in ?e - hlen_in (hs ?e)"
    "sz_sub (hlen_in ?e) 0 = hlen_in ?e"
    using hs_enter_hlen_bound [of cc act] by (simp_all add: sz_simps)
  then show ?thesis
    by (subst jump_handshake.simps) (simp add: hs_turn_def Let_def)
qed

lemma jump_handshake_inv:
  assumes "hs_contract hs" "engine_ok cc" "\<not> br_ssl_engine_closed cc" "ibuf cc \<noteq> obuf cc"
  shows "\<exists>cc'. jump_handshake hs cc act = Some cc' \<and> engine_ok cc' \<and> ibuf cc' = ibuf cc \<and> obuf cc' = obuf cc
    \<and> obuf_len cc' = obuf_len cc \<and> writes_within (mem cc) (mem cc') (ptr (obuf cc)) (obuf_len cc)"
proof -
  let ?e = "hs_enter cc act"
  define t where "t = hs_turn hs cc act"
  note t = hs_turn_inv [OF assms, of act, folded t_def]
  note j = jump_handshake_turn [OF assms, of act, folded t_def]
  show ?thesis
  proof (cases "br_ssl_engine_closed (hs ?e) \<or> hlen_in ?e = hlen_in (hs ?e) \<or> hlen_in (hs ?e) \<noteq> 0")
    case True
    with j t(1-5) show ?thesis by (auto simp: Let_def)
  next
    case False
    then have cont: "jump_handshake hs cc act = jump_handshake hs t 0" and ix: "ixa t = ixb t"
      and nc: "\<not> br_ssl_engine_closed t"
      using j t(6,7) by (auto simp: Let_def)
    have tb: "ibuf t \<noteq> obuf t" using t(2,3) assms(4) by simp
    have "hlen_in (hs_enter t 0) = 0" using ix by (simp add: hs_enter_no_input)
    moreover from this have "hlen_in (hs (hs_enter t 0)) = 0"
      using hs_contract_hlen [OF assms(1), of "hs_enter t 0"] t(1) nc tb by (simp add: hs_enter_ok)
    ultimately have "jump_handshake hs t 0 = Some (hs_turn hs t 0)"
      using jump_handshake_turn [OF assms(1) t(1) nc tb, of 0] by (simp add: Let_def)
    with cont hs_turn_inv(1-5) [OF assms(1) t(1) nc tb, of 0] t(2-5) writes_within_trans
    show ?thesis by (metis (no_types, lifting))
  qed
qed

end
