(* ===== verification/Ssl_Engine_Props.thy ===== *)
theory Ssl_Engine_Props
  imports Ssl_Engine_Inv
begin

text \<open>
  The properties of the engine: buffer set-up and fragment length, the overlap of the split that
  \<open>br_ssl_engine_set_buffer\<close> makes, memory safety and totality of the buffer API, the finality of
  a failure, the transfer of a protected record from one engine to another, and the agreement of the
  two sides' keys.
\<close>

unbundle bit_operations_syntax

section \<open>A zeroed context\<close>

text \<open>
  \<open>br_ssl_server_zero\<close> and \<open>br_ssl_client_zero\<close> clear the whole context; the opaque parts
  (handshake stacks, generator state) are arguments, and a \<open>NULL\<close> function pointer is a function
  that returns nothing.
\<close>

definition br_ssl_zero :: "'c \<Rightarrow> 'r \<Rightarrow> mem \<Rightarrow> ('c, 'r) engine" where
  "br_ssl_zero c r m =
     \<lparr>err = 0, ibuf = None, obuf = None, ibuf_len = 0, obuf_len = 0, max_frag_len = 0,
      log_max_frag_len = 0, peer_log_max_frag_len = 0, ixa = 0, ixb = 0, ixc = 0, oxa = 0, oxb = 0, oxc = 0,
      iomode = BR_IO_FAILED, incrypt = False, shutdown_recv = False, record_type_in = 0, record_type_out = 0,
      version_in = 0, version_out = 0, rin = In_none, rout = Out_clear, application_data = 0, rng = r,
      rng_init_done = 0, rng_os_rand_done = False, suites_buf = replicate 48 0, suites_num = 0,
      client_random = replicate 32 0, server_random = replicate 32 0, session_version = 0,
      master_secret = replicate 48 0, reneg = 0, flags = 0, cpu = c, hbuf_in = None, hbuf_out = None,
      saved_hbuf_out = None, hlen_in = 0, hlen_out = 0, action = 0, alert = 0,
      prf10 = (\<lambda>_ _ _ _. []), prf_sha256 = (\<lambda>_ _ _ _. []), prf_sha384 = (\<lambda>_ _ _ _. []),
      ighash = (\<lambda>_ _ _. []), ichacha = (\<lambda>_ _ _ _. ([], 0)), ipoly = (\<lambda>_ _ _ _ _ _. ([], [])), mem = m\<rparr>"

section \<open>Buffer set-up\<close>

lemma max_frag_loop_fits:
  "max_frag_loop ilen olen u = v \<Longrightarrow> 8 \<le> u \<Longrightarrow> v = 8 \<or> 9 \<le> v \<and> v \<le> u
    \<and> 2 ^ v + MAX_OUT_OVERHEAD \<le> olen \<and> 2 ^ v + MAX_IN_OVERHEAD \<le> ilen"
proof (induction ilen olen u rule: max_frag_loop.induct)
  case (1 ilen olen u)
  show ?case
  proof (cases "9 \<le> u \<and> \<not> (2 ^ u + MAX_OUT_OVERHEAD \<le> olen \<and> 2 ^ u + MAX_IN_OVERHEAD \<le> ilen)")
    case True
    then have "v = 8 \<or> 9 \<le> v \<and> v \<le> u - 1 \<and> 2 ^ v + MAX_OUT_OVERHEAD \<le> olen \<and> 2 ^ v + MAX_IN_OVERHEAD \<le> ilen"
      using 1 by (auto simp: max_frag_loop.simps [of ilen olen u])
    then show ?thesis by auto
  next
    case False
    with 1 show ?thesis by (auto simp: max_frag_loop.simps [of ilen olen u] Let_def split: if_splits)
  qed
qed

lemma max_frag_loop_max:
  "9 \<le> k \<Longrightarrow> k \<le> u \<Longrightarrow> 2 ^ k + MAX_OUT_OVERHEAD \<le> olen \<Longrightarrow> 2 ^ k + MAX_IN_OVERHEAD \<le> ilen \<Longrightarrow>
    k \<le> max_frag_loop ilen olen u"
proof (induction ilen olen u rule: max_frag_loop.induct)
  case (1 ilen olen u)
  then show ?case
    by (cases "k = u") (auto simp: max_frag_loop.simps [of ilen olen u] Let_def)
qed

lemma set_buffers_regs:
  assumes "buf_ok rc" "in_ok (rin rc)" "iomode rc = BR_IO_INOUT"
  defines "rc' \<equiv> make_ready_out (make_ready_in (rc\<lparr>rout := Out_clear\<rparr>))"
  shows "engine_ok rc'" "\<not> br_ssl_engine_closed rc'" "err rc' = err rc" "ibuf rc' = ibuf rc"
    "obuf rc' = obuf rc" "max_frag_len rc' = max_frag_len rc"
proof -
  let ?a = "make_ready_in (rc\<lparr>rout := Out_clear\<rparr>)"
  have a: "buf_ok ?a" "out_ok (rout ?a)" "in_ok (rin ?a)"
    using assms(1,2) by (auto simp: make_ready_in_def buf_ok_def Let_def)
  have "in_regs ?a" using assms(2) by (simp add: make_ready_in_regs)
  then show "engine_ok rc'" using a make_ready_out_regs [OF a(1,2)]
    by (simp add: engine_ok_def rc'_def)
  show "\<not> br_ssl_engine_closed rc'" "err rc' = err rc" "ibuf rc' = ibuf rc" "obuf rc' = obuf rc"
    "max_frag_len rc' = max_frag_len rc"
    using assms(3) by (auto simp: rc'_def br_ssl_engine_closed_def make_ready_in_def make_ready_out_def Let_def
        split: prod.splits)
qed

text \<open>The lengths the code may settle on, largest first.\<close>

definition frag_lens :: "nat list" where
  "frag_lens = [16384, 4096, 2048, 1024, 512]"

lemma frag_len_chosen:
  assumes "max_frag_loop ilen olen 14 = u" "u \<noteq> 8"
  defines "v \<equiv> (if u = 13 then 12 else u)"
  shows "2 ^ v \<in> set frag_lens" "2 ^ v + MAX_OUT_OVERHEAD \<le> olen" "2 ^ v + MAX_IN_OVERHEAD \<le> ilen"
    "\<And>L. L \<in> set frag_lens \<Longrightarrow> L + MAX_OUT_OVERHEAD \<le> olen \<Longrightarrow> L + MAX_IN_OVERHEAD \<le> ilen \<Longrightarrow> L \<le> 2 ^ v"
proof -
  have u: "9 \<le> u" "u \<le> 14" "2 ^ u + MAX_OUT_OVERHEAD \<le> olen" "2 ^ u + MAX_IN_OVERHEAD \<le> ilen"
    using max_frag_loop_fits [OF assms(1)] assms(2) by auto
  then have "u \<in> {9, 10, 11, 12, 13, 14}" by auto
  then have vv: "v \<in> {9, 10, 11, 12, 14}" "v \<le> u" by (auto simp: v_def)
  then show "2 ^ v \<in> set frag_lens" by (auto simp: frag_lens_def)
  have "(2 :: nat) ^ v \<le> 2 ^ u" using vv(2) by (simp add: power_increasing)
  then show "2 ^ v + MAX_OUT_OVERHEAD \<le> olen" "2 ^ v + MAX_IN_OVERHEAD \<le> ilen" using u by linarith+
  fix L :: nat assume L: "L \<in> set frag_lens" "L + MAX_OUT_OVERHEAD \<le> olen" "L + MAX_IN_OVERHEAD \<le> ilen"
  then obtain k where k: "L = 2 ^ k" "k \<in> {9, 10, 11, 12, 14}"
  proof -
    have "L = 2 ^ 14 \<or> L = 2 ^ 12 \<or> L = 2 ^ 11 \<or> L = 2 ^ 10 \<or> L = 2 ^ 9"
      using L(1) by (auto simp: frag_lens_def)
    then show ?thesis using that by blast
  qed
  have "k \<le> u" using max_frag_loop_max [of k 14 olen ilen] k L(2,3) assms(1) by auto
  then have "k \<le> v" using k(2) by (auto simp: v_def)
  then show "L \<le> 2 ^ v" unfolding k(1) by (intro power_increasing) auto
qed

text \<open>
  Buffer set-up: given two buffers, the engine comes up ready when a 512-byte fragment fits both
  of them, and the fragment length it settles on is then the largest of the lengths of the Maximum
  Fragment Length extension that fits both; otherwise it comes up failed with \<open>BR_ERR_BAD_PARAM\<close>.
\<close>

theorem set_buffers_bidi_spec:
  fixes rc :: "('c, 'r) engine" and ib ob :: addr
  assumes "ilen < 2 ^ 63" "olen < 2 ^ 63" "in_ok (rin rc)"
  defines "rc' \<equiv> br_ssl_engine_set_buffers_bidi rc (Some ib) ilen (Some ob) olen"
  shows "if 512 + MAX_OUT_OVERHEAD \<le> olen \<and> 512 + MAX_IN_OVERHEAD \<le> ilen
    then engine_ok rc' \<and> \<not> br_ssl_engine_closed rc' \<and> err rc' = BR_ERR_OK
      \<and> max_frag_len rc' = Max {L \<in> set frag_lens. L + MAX_OUT_OVERHEAD \<le> olen \<and> L + MAX_IN_OVERHEAD \<le> ilen}
    else br_ssl_engine_closed rc' \<and> err rc' = BR_ERR_BAD_PARAM"
proof -
  define u where "u = max_frag_loop ilen olen 14"
  let ?v = "if u = 13 then 12 else u"
  show ?thesis
  proof (cases "512 + MAX_OUT_OVERHEAD \<le> olen \<and> 512 + MAX_IN_OVERHEAD \<le> ilen")
    case False
    then have "u = 8"
      using max_frag_loop_fits [of ilen olen 14 u] power_increasing [of 9 u "2 :: nat"] by (auto simp: u_def)
    with False show ?thesis
      by (auto simp: rc'_def br_ssl_engine_set_buffers_bidi_def Let_def u_def br_ssl_engine_fail_def
          br_ssl_engine_closed_def)
  next
    case True
    then have "u \<noteq> 8" using max_frag_loop_max [of 9 14 olen ilen] by (auto simp: u_def)
    note f = frag_len_chosen [OF u_def [symmetric] this]
    define r where "r = rc\<lparr>iomode := BR_IO_INOUT, incrypt := False, err := BR_ERR_OK, version_in := 0,
      record_type_in := 0, version_out := 0, record_type_out := 0, ibuf := Some ib, ibuf_len := ilen,
      obuf := Some ob, obuf_len := olen, max_frag_len := 2 ^ ?v, log_max_frag_len := ?v,
      peer_log_max_frag_len := 0\<rparr>"
    have "(2 :: nat) ^ ?v < 2 ^ 16" using f(1) by (auto simp: frag_lens_def)
    then have r: "buf_ok r" "in_ok (rin r)" "iomode r = BR_IO_INOUT" "err r = BR_ERR_OK" "max_frag_len r = 2 ^ ?v"
      using True assms(1-3) by (auto simp: r_def buf_ok_def)
    have "rc' = make_ready_out (make_ready_in (r\<lparr>rout := Out_clear\<rparr>))"
      using \<open>u \<noteq> 8\<close> by (simp add: rc'_def br_ssl_engine_set_buffers_bidi_def Let_def u_def [symmetric] r_def)
    moreover have "2 ^ ?v = Max {L \<in> set frag_lens. L + MAX_OUT_OVERHEAD \<le> olen \<and> L + MAX_IN_OVERHEAD \<le> ilen}"
      using f by (intro Max_eqI [symmetric]) auto
    ultimately show ?thesis
      using set_buffers_regs [OF r(1-3)] r(4,5) True by simp
  qed
qed

theorem set_buffers_bidi_spec_witness:
  "max_frag_len (br_ssl_engine_set_buffers_bidi (br_ssl_zero () () (\<lambda>_. 0)) (Some 0) 16384 (Some 16384) 71680) = 4096
   \<and> err (br_ssl_engine_set_buffers_bidi (br_ssl_zero () () (\<lambda>_. 0)) (Some 0) 800 (Some 16384) 71680) = BR_ERR_BAD_PARAM"
proof -
  let ?z = "br_ssl_zero () () (\<lambda>_. 0)"
  have i: "in_ok (rin ?z)" by (simp add: br_ssl_zero_def)
  have s: "{L \<in> set frag_lens. L \<le> 71595 \<and> L \<le> 16059} = {4096, 2048, 1024, 512}"
    by (auto simp: frag_lens_def)
  show ?thesis
    using set_buffers_bidi_spec [of 16384 71680 ?z 0 16384] set_buffers_bidi_spec [of 800 71680 ?z 0 16384] i
    by (simp add: s overhead_defs)
qed

section \<open>The split of a single buffer\<close>

lemma set_buffers_bidi_ptrs:
  fixes rc :: "('c, 'r) engine" and ib ob :: addr
  assumes "max_frag_loop ilen olen 14 \<noteq> 8"
  defines "rc' \<equiv> br_ssl_engine_set_buffers_bidi rc (Some ib) ilen (Some ob) olen"
  shows "ibuf rc' = Some ib" "ibuf_len rc' = ilen" "obuf rc' = Some ob" "obuf_len rc' = olen"
  using assms(1)
  by (simp_all add: rc'_def br_ssl_engine_set_buffers_bidi_def Let_def make_ready_in_def make_ready_out_def
      split: prod.splits)

text \<open>
  C31. \<open>br_ssl_engine_set_buffer\<close> in bidirectional mode places the output part at offset \<open>w\<close>, the
  size of the output part, instead of after the input part. Whatever the size of the caller's buffer
  (accepted sizes start at 1434), the two parts overlap or the output part runs past the end of the
  caller's buffer, except at the one size 33418 where both parts have the same length.
\<close>

theorem set_buffer_bidi_split_wrong:
  fixes rc :: "('c, 'r) engine" and p :: addr
  assumes "1434 \<le> n" "n < 2 ^ 63" "n \<noteq> 33418"
  defines "rc' \<equiv> br_ssl_engine_set_buffer rc (Some p) n True"
  shows "\<not> br_ssl_engine_closed rc' \<and> ibuf rc' = Some p \<and>
    (blocks_overlap p (ibuf_len rc') (ptr (obuf rc')) (obuf_len rc') \<or> p + n < ptr (obuf rc') + obuf_len rc')"
proof -
  define w where "w = (if n < 17306 then 597 else n - 16709)"
  have w: "597 \<le> w" "837 \<le> n - w" "w \<le> n" using assms(1) by (auto simp: w_def)
  have eq: "rc' = br_ssl_engine_set_buffers_bidi rc (Some p) (n - w) (Some (p + w)) w"
    using assms(1,2) by (simp add: rc'_def br_ssl_engine_set_buffer_def Let_def overhead_defs w_def sz_simps)
  have u: "max_frag_loop (n - w) w 14 \<noteq> 8"
    using max_frag_loop_max [of 9 14 w "n - w"] w by (auto simp: overhead_defs)
  note ptrs = set_buffers_bidi_ptrs [OF u, of rc p "p + w", folded eq]
  have "\<not> br_ssl_engine_closed rc'"
    using u by (simp add: eq br_ssl_engine_set_buffers_bidi_def Let_def br_ssl_engine_closed_def
        make_ready_in_def make_ready_out_def split: prod.splits)
  moreover have "w < n - w \<or> n < w + w" using assms(1,3) by (auto simp: w_def)
  ultimately show ?thesis
    using w by (auto simp: ptrs blocks_overlap_def)
qed

theorem set_buffer_bidi_split_wrong_witness:
  "blocks_overlap 0 16709 16469 16469
   \<and> obuf (br_ssl_engine_set_buffer (br_ssl_zero () () (\<lambda>_. 0)) (Some 0) 33178 True) = Some 16469"
proof -
  let ?r = "br_ssl_engine_set_buffer (br_ssl_zero () () (\<lambda>_. 0)) (Some 0) 33178 True"
  have u: "max_frag_loop 16709 16469 14 \<noteq> 8"
    using max_frag_loop_max [of 9 14 16469 16709] by (auto simp: overhead_defs)
  have "?r = br_ssl_engine_set_buffers_bidi (br_ssl_zero () () (\<lambda>_. 0)) (Some 0) 16709 (Some 16469) 16469"
    by (simp add: br_ssl_engine_set_buffer_def Let_def overhead_defs sz_simps)
  then have "ibuf_len ?r = 16709" "obuf ?r = Some 16469" "obuf_len ?r = 16469"
    using set_buffers_bidi_ptrs [OF u] by simp_all
  then show ?thesis
    using set_buffer_bidi_split_wrong [of 33178 "br_ssl_zero () () (\<lambda>_. 0)" 0] by simp
qed

section \<open>Memory safety and totality of the buffer API\<close>

lemma recvrec_api_inv:
  assumes "hs_contract hs" "engine_ok cc" "ibuf cc \<noteq> obuf cc"
    and "br_ssl_engine_recvrec_buf cc = (Some p, z)" "0 < len" "len \<le> z"
  shows "\<exists>cc'. br_ssl_engine_recvrec_ack hs cc len = Some cc' \<and> engine_ok cc'
    \<and> ibuf cc' = ibuf cc \<and> obuf cc' = obuf cc
    \<and> ptr (ibuf cc) \<le> p \<and> p + z \<le> ptr (ibuf cc) + ibuf_len cc
    \<and> (\<forall>a. (a < ptr (ibuf cc) \<or> ptr (ibuf cc) + ibuf_len cc \<le> a) \<and>
           (a < ptr (obuf cc) \<or> ptr (obuf cc) + obuf_len cc \<le> a) \<longrightarrow> mem cc' a = mem cc a)"
proof -
  have w: "recvrec_buf cc = (Some p, z)" using assms(4) by (simp add: br_ssl_engine_recvrec_buf_def)
  have b: "buf_ok cc" "in_regs cc"
    using assms(2) w by (auto simp: engine_ok_def br_ssl_engine_closed_def recvrec_buf_def split: if_splits)
  note win = recvrec_buf_Some [OF b w]
  define c where "c = recvrec_ack cc len"
  note c = recvrec_ack_inv [OF assms(2) w assms(5,6), folded c_def]
  have so: "ibuf c = ibuf cc" "obuf c = obuf cc" "obuf_len c = obuf_len cc"
    using c(2) by (auto simp: same_output_def)
  have "\<exists>cc'. br_ssl_engine_recvrec_ack hs cc len = Some cc' \<and> engine_ok cc' \<and> ibuf cc' = ibuf cc
      \<and> obuf cc' = obuf cc \<and> writes_within (mem c) (mem cc') (ptr (obuf cc)) (obuf_len cc)"
  proof (cases "br_ssl_engine_closed c \<or> fst (recvpld_buf c) = None")
    case True
    then have "br_ssl_engine_recvrec_ack hs cc len = Some c"
      by (auto simp: br_ssl_engine_recvrec_ack_def Let_def c_def [symmetric] split: prod.splits)
    with c(1) so show ?thesis by simp
  next
    case False
    then obtain q k where pld: "recvpld_buf c = (Some q, k)" by (cases "recvpld_buf c") auto
    have nb: "ibuf c \<noteq> obuf c" using so assms(3) by simp
    have "\<exists>cc'. jump_handshake hs c 0 = Some cc' \<and> engine_ok cc' \<and> ibuf cc' = ibuf c \<and> obuf cc' = obuf c
        \<and> writes_within (mem c) (mem cc') (ptr (obuf c)) (obuf_len c)"
      using jump_handshake_inv [OF assms(1) c(1) _ nb, of 0] False by auto
    moreover note recvpld_ack_inv(1-3) [OF c(1) pld order_refl]
    moreover have "engine_ok (br_ssl_engine_fail c BR_ERR_UNEXPECTED)"
      using c(1) by (simp add: engine_ok_def)
    ultimately show ?thesis
      using False pld so c(1)
      by (auto simp: br_ssl_engine_recvrec_ack_def Let_def c_def [symmetric] same_output_def)
  qed
  with c(3) win(2,5) show ?thesis by (fastforce simp: writes_within_def)
qed

text \<open>
  An engine as the wrapper sets it up (a 16384-byte input buffer followed by a 71680-byte output
  buffer), and a handshake processor that discards what it is given: the concrete values of the
  witnesses below.
\<close>

definition fresh_engine :: "(unit, unit) engine" where
  "fresh_engine = br_ssl_engine_set_buffers_bidi (br_ssl_zero () () (\<lambda>_. 0)) (Some 0) 16384 (Some 16384) 71680"

definition hs_discard :: "('c, 'r) engine \<Rightarrow> ('c, 'r) engine" where
  "hs_discard cc = cc\<lparr>hbuf_out := saved_hbuf_out cc, hlen_in := 0\<rparr>"

lemma hs_discard_contract: "hs_contract hs_discard"
  by (auto simp: hs_contract_def hs_discard_def engine_ok_def br_ssl_engine_closed_def buf_ok_def in_defs out_defs
      hs_out_ok_def)

lemma frag_14: "max_frag_loop 16384 71680 14 = 13"
proof -
  have "max_frag_loop 16384 71680 14 = max_frag_loop 16384 71680 13"
    by (simp add: max_frag_loop.simps [of 16384 71680 14] overhead_defs)
  also have "\<dots> = 13" by (simp add: max_frag_loop.simps [of 16384 71680 13] overhead_defs)
  finally show ?thesis .
qed

lemma fresh_engine_eq:
  "fresh_engine = (br_ssl_zero () () (\<lambda>_. 0))\<lparr>iomode := BR_IO_INOUT, ibuf := Some 0, ibuf_len := 16384,
     obuf := Some 16384, obuf_len := 71680, max_frag_len := 4096, log_max_frag_len := 12,
     ixc := 5, oxa := 5, oxb := 4101, oxc := 5\<rparr>"
  by (simp add: fresh_engine_def br_ssl_engine_set_buffers_bidi_def frag_14 Let_def br_ssl_zero_def
      make_ready_in_def make_ready_out_def clear_max_plaintext_def sz_simps br_err_defs)

lemma fresh_engine_ok:
  "engine_ok fresh_engine" "ibuf fresh_engine \<noteq> obuf fresh_engine" "\<not> br_ssl_engine_closed fresh_engine"
  by (simp_all add: fresh_engine_eq br_ssl_zero_def engine_ok_def buf_ok_def in_defs out_defs overhead_defs
      br_ssl_engine_closed_def)

text \<open>
  C18. Input: when the caller has put \<open>len\<close> bytes in the window that \<open>br_ssl_engine_recvrec_buf\<close>
  offered, acknowledging them ends, keeps the register invariant, and writes no memory outside the
  engine's two buffers; the window itself lies in the input buffer.
\<close>

theorem engine_recvrec_safe:
  assumes "hs_contract hs" "engine_ok cc" "ibuf cc \<noteq> obuf cc"
    and "br_ssl_engine_recvrec_buf cc = (Some p, z)" "0 < len" "len \<le> z"
  shows "\<exists>cc'. br_ssl_engine_recvrec_ack hs cc len = Some cc' \<and> engine_ok cc'
    \<and> ibuf cc' = ibuf cc \<and> obuf cc' = obuf cc
    \<and> ptr (ibuf cc) \<le> p \<and> p + z \<le> ptr (ibuf cc) + ibuf_len cc
    \<and> (\<forall>a. (a < ptr (ibuf cc) \<or> ptr (ibuf cc) + ibuf_len cc \<le> a) \<and>
           (a < ptr (obuf cc) \<or> ptr (obuf cc) + obuf_len cc \<le> a) \<longrightarrow> mem cc' a = mem cc a)"
  using assms by (rule recvrec_api_inv)

theorem engine_recvrec_safe_witness:
  "\<exists>cc'. br_ssl_engine_recvrec_ack hs_discard fresh_engine 5 = Some cc' \<and> engine_ok cc'"
proof -
  have "br_ssl_engine_recvrec_buf fresh_engine = (Some 0, 5)"
    by (simp add: br_ssl_engine_recvrec_buf_def recvrec_buf_def fresh_engine_eq br_ssl_zero_def sz_simps)
  then show ?thesis
    using engine_recvrec_safe [OF hs_discard_contract fresh_engine_ok(1,2), of 0 5 5] by auto
qed

lemma sendrec_api_inv:
  assumes "hs_contract hs" "engine_ok cc" "ibuf cc \<noteq> obuf cc"
    and "br_ssl_engine_sendrec_buf cc = (Some p, z)" "len \<le> z"
  shows "\<exists>cc'. br_ssl_engine_sendrec_ack hs cc len = Some cc' \<and> engine_ok cc'
    \<and> ibuf cc' = ibuf cc \<and> obuf cc' = obuf cc
    \<and> ptr (obuf cc) \<le> p \<and> p + z \<le> ptr (obuf cc) + obuf_len cc
    \<and> writes_within (mem cc) (mem cc') (ptr (obuf cc)) (obuf_len cc)"
proof -
  have w: "sendrec_buf cc = (Some p, z)" using assms(4) by (simp add: br_ssl_engine_sendrec_buf_def)
  have b: "buf_ok cc" "out_regs cc"
    using assms(2) w by (auto simp: engine_ok_def br_ssl_engine_closed_def sendrec_buf_def)
  note win = sendrec_buf_Some [OF b w]
  define c where "c = sendrec_ack cc len"
  note c = sendrec_ack_inv [OF assms(2) w assms(5), folded c_def]
  have so: "ibuf c = ibuf cc" "obuf c = obuf cc" "obuf_len c = obuf_len cc" "\<not> br_ssl_engine_closed c"
    using c(2) win(6) by (auto simp: same_input_def br_ssl_engine_closed_def)
  have nb: "ibuf c \<noteq> obuf c" using so assms(3) by simp
  have "\<exists>cc'. br_ssl_engine_sendrec_ack hs cc len = Some cc' \<and> engine_ok cc' \<and> ibuf cc' = ibuf cc
      \<and> obuf cc' = obuf cc \<and> writes_within (mem cc) (mem cc') (ptr (obuf cc)) (obuf_len cc)"
    using jump_handshake_inv [OF assms(1) c(1) so(4) nb, of 0] c(1,4) so
    by (auto simp: br_ssl_engine_sendrec_ack_def Let_def c_def [symmetric])
  with win(2,5) show ?thesis by auto
qed

text \<open>
  C19. Output: when the transport has taken \<open>len\<close> bytes of the window that
  \<open>br_ssl_engine_sendrec_buf\<close> offered, acknowledging them ends, keeps the register invariant and
  writes no memory outside the output buffer, in which the window lies.
\<close>

theorem engine_sendrec_safe:
  assumes "hs_contract hs" "engine_ok cc" "ibuf cc \<noteq> obuf cc"
    and "br_ssl_engine_sendrec_buf cc = (Some p, z)" "len \<le> z"
  shows "\<exists>cc'. br_ssl_engine_sendrec_ack hs cc len = Some cc' \<and> engine_ok cc'
    \<and> ibuf cc' = ibuf cc \<and> obuf cc' = obuf cc
    \<and> ptr (obuf cc) \<le> p \<and> p + z \<le> ptr (obuf cc) + obuf_len cc
    \<and> writes_within (mem cc) (mem cc') (ptr (obuf cc)) (obuf_len cc)"
  using assms by (rule sendrec_api_inv)

theorem engine_sendrec_safe_witness:
  "\<exists>cc'. br_ssl_engine_sendrec_ack hs_discard (fresh_engine\<lparr>oxa := 0, oxb := 0, oxc := 20\<rparr>) 20 = Some cc'
     \<and> engine_ok cc'"
proof -
  let ?e = "fresh_engine\<lparr>oxa := 0, oxb := 0, oxc := 20\<rparr>"
  have "engine_ok ?e" "ibuf ?e \<noteq> obuf ?e" "br_ssl_engine_sendrec_buf ?e = (Some 16384, 20)"
    by (simp_all add: fresh_engine_eq br_ssl_zero_def engine_ok_def buf_ok_def in_defs out_defs overhead_defs
        br_ssl_engine_sendrec_buf_def sendrec_buf_def sz_simps)
  then show ?thesis using engine_sendrec_safe [OF hs_discard_contract, of ?e 16384 20 20] by auto
qed

lemma sendapp_api_inv:
  assumes "engine_ok cc" "br_ssl_engine_sendapp_buf cc = (Some p, z)" "len \<le> z"
  shows "engine_ok (br_ssl_engine_sendapp_ack cc len) \<and> engine_ok (br_ssl_engine_flush cc force)
    \<and> ptr (obuf cc) + 5 \<le> p \<and> p + z \<le> ptr (obuf cc) + obuf_len cc
    \<and> writes_within (mem cc) (mem (br_ssl_engine_sendapp_ack cc len)) (ptr (obuf cc)) (obuf_len cc)
    \<and> writes_within (mem cc) (mem (br_ssl_engine_flush cc force)) (ptr (obuf cc)) (obuf_len cc)"
proof -
  have w: "sendpld_buf cc = (Some p, z)"
    using assms(2) by (simp add: br_ssl_engine_sendapp_buf_def split: if_splits)
  have b: "buf_ok cc" "out_regs cc"
    using assms(1) w by (auto simp: engine_ok_def br_ssl_engine_closed_def sendpld_buf_def)
  have "engine_ok (br_ssl_engine_sendapp_ack cc len)"
    "writes_within (mem cc) (mem (br_ssl_engine_sendapp_ack cc len)) (ptr (obuf cc)) (obuf_len cc)"
    using sendpld_ack_inv [OF assms(1) w assms(3)] by (simp_all add: br_ssl_engine_sendapp_ack_def)
  moreover have "ptr (obuf cc) + 5 \<le> p \<and> p + z \<le> ptr (obuf cc) + obuf_len cc"
    using sendpld_buf_Some [OF b w] by (auto simp: out_gather_def)
  moreover have "engine_ok (br_ssl_engine_flush cc force)"
    "writes_within (mem cc) (mem (br_ssl_engine_flush cc force)) (ptr (obuf cc)) (obuf_len cc)"
    using sendpld_flush_inv [OF b, of force] same_input_engine_ok [of cc "sendpld_flush cc force"] assms(1)
    by (auto simp: br_ssl_engine_flush_def)
  ultimately show ?thesis by blast
qed

text \<open>
  Application output: \<open>br_ssl_engine_sendapp_ack\<close> of no more than was offered, and
  \<open>br_ssl_engine_flush\<close> at any time, keep the register invariant and write inside the output buffer
  only; the window offered to the application lies in the output buffer, past the record header.
\<close>

theorem engine_sendapp_safe:
  assumes "engine_ok cc" "br_ssl_engine_sendapp_buf cc = (Some p, z)" "len \<le> z"
  shows "engine_ok (br_ssl_engine_sendapp_ack cc len) \<and> engine_ok (br_ssl_engine_flush cc force)
    \<and> ptr (obuf cc) + 5 \<le> p \<and> p + z \<le> ptr (obuf cc) + obuf_len cc
    \<and> writes_within (mem cc) (mem (br_ssl_engine_sendapp_ack cc len)) (ptr (obuf cc)) (obuf_len cc)
    \<and> writes_within (mem cc) (mem (br_ssl_engine_flush cc force)) (ptr (obuf cc)) (obuf_len cc)"
  using assms by (rule sendapp_api_inv)

theorem engine_sendapp_safe_witness:
  "engine_ok (br_ssl_engine_sendapp_ack (fresh_engine\<lparr>application_data := 1\<rparr>) 4096)"
proof -
  let ?e = "fresh_engine\<lparr>application_data := 1\<rparr>"
  have "engine_ok ?e"
    by (simp add: fresh_engine_eq br_ssl_zero_def engine_ok_def buf_ok_def in_defs out_defs overhead_defs)
  moreover have "br_ssl_engine_sendapp_buf ?e = (Some 16389, 4096)"
    by (simp add: br_ssl_engine_sendapp_buf_def sendpld_buf_def fresh_engine_eq br_ssl_zero_def sz_simps)
  ultimately show ?thesis using engine_sendapp_safe [of ?e 16389 4096 4096 False] by simp
qed

section \<open>A failed engine stays failed\<close>

lemma state_bits:
  "br_ssl_engine_current_state cc AND BR_SSL_CLOSED \<noteq> 0 \<longleftrightarrow> br_ssl_engine_closed cc"
  "br_ssl_engine_current_state cc AND BR_SSL_SENDREC \<noteq> 0 \<longleftrightarrow>
     \<not> br_ssl_engine_closed cc \<and> fst (br_ssl_engine_sendrec_buf cc) \<noteq> None"
  "br_ssl_engine_current_state cc AND BR_SSL_RECVREC \<noteq> 0 \<longleftrightarrow>
     \<not> br_ssl_engine_closed cc \<and> fst (br_ssl_engine_recvrec_buf cc) \<noteq> None"
  "br_ssl_engine_current_state cc AND BR_SSL_SENDAPP \<noteq> 0 \<longleftrightarrow>
     \<not> br_ssl_engine_closed cc \<and> fst (br_ssl_engine_sendapp_buf cc) \<noteq> None"
  "br_ssl_engine_current_state cc AND BR_SSL_RECVAPP \<noteq> 0 \<longleftrightarrow>
     \<not> br_ssl_engine_closed cc \<and> fst (br_ssl_engine_recvapp_buf cc) \<noteq> None"
  by (simp_all add: br_ssl_engine_current_state_def br_state_defs Let_def)

lemma closed_windows:
  assumes "br_ssl_engine_closed cc"
  shows "br_ssl_engine_sendrec_buf cc = (None, 0)" "br_ssl_engine_recvrec_buf cc = (None, 0)"
    "br_ssl_engine_sendapp_buf cc = (None, 0)" "br_ssl_engine_recvapp_buf cc = (None, 0)"
  using assms
  by (simp_all add: br_ssl_engine_closed_def br_ssl_engine_sendrec_buf_def sendrec_buf_def
      br_ssl_engine_recvrec_buf_def recvrec_buf_def br_ssl_engine_sendapp_buf_def sendpld_buf_def
      br_ssl_engine_recvapp_buf_def recvpld_buf_def)

lemma recvrec_ack_closed:
  assumes "br_ssl_engine_closed cc"
  shows "br_ssl_engine_closed (recvrec_ack cc len)" "err (recvrec_ack cc len) = err cc"
proof -
  have h: "br_ssl_engine_closed (recvrec_header rc) \<and> err (recvrec_header rc) = err rc"
    if "iomode rc = BR_IO_FAILED" for rc :: "('a, 'b) engine"
    using that by (auto simp: recvrec_header_def br_ssl_engine_fail_def br_ssl_engine_closed_def
        make_ready_in_def Let_def)
  have d: "br_ssl_engine_closed (recvrec_decrypt rc) \<and> err (recvrec_decrypt rc) = err rc"
    if "iomode rc = BR_IO_FAILED" for rc :: "('a, 'b) engine"
    using that by (auto simp: recvrec_decrypt_def br_ssl_engine_fail_def br_ssl_engine_closed_def
        make_ready_in_def Let_def split: prod.splits option.splits)
  have "br_ssl_engine_closed (recvrec_ack cc len) \<and> err (recvrec_ack cc len) = err cc"
    using assms h d by (simp add: recvrec_ack_def br_ssl_engine_closed_def Let_def)
  then show "br_ssl_engine_closed (recvrec_ack cc len)" "err (recvrec_ack cc len) = err cc" by auto
qed

text \<open>
  C20. The first failure is final: a failed engine reports \<open>BR_SSL_CLOSED\<close> and nothing else, offers no
  window in any direction, and neither a later failure, nor received bytes acknowledged anyway
  (\<open>br_ssl_engine_recvrec_ack\<close>), nor a flush, a close or a renegotiation request changes that or the error code
  recorded first.
\<close>

theorem engine_failure_final:
  assumes "br_ssl_engine_closed cc"
  shows "br_ssl_engine_current_state cc = BR_SSL_CLOSED
    \<and> br_ssl_engine_recvrec_buf cc = (None, 0) \<and> br_ssl_engine_sendrec_buf cc = (None, 0)
    \<and> br_ssl_engine_recvapp_buf cc = (None, 0) \<and> br_ssl_engine_sendapp_buf cc = (None, 0)
    \<and> br_ssl_engine_fail cc e = cc
    \<and> (\<exists>cc'. br_ssl_engine_recvrec_ack hs cc len = Some cc' \<and> br_ssl_engine_closed cc' \<and> err cc' = err cc)
    \<and> br_ssl_engine_flush cc force = cc \<and> br_ssl_engine_close hs cc = Some cc
    \<and> br_ssl_engine_renegotiate hs cc = Some (cc, 0)"
  using assms recvrec_ack_closed [OF assms, of len]
  by (simp add: closed_windows br_ssl_engine_current_state_def br_ssl_engine_recvrec_ack_def Let_def
      br_ssl_engine_flush_def br_ssl_engine_close_def br_ssl_engine_renegotiate_def)
    (simp add: br_ssl_engine_fail_def br_ssl_engine_closed_def)

theorem engine_failure_final_witness:
  "err (br_ssl_engine_fail (br_ssl_engine_fail fresh_engine BR_ERR_BAD_MAC) BR_ERR_IO) = BR_ERR_BAD_MAC"
  using engine_failure_final [of "br_ssl_engine_fail fresh_engine BR_ERR_BAD_MAC" BR_ERR_IO hs_discard 0 False]
  by (simp add: br_ssl_engine_fail_def fresh_engine_eq)

section \<open>A record from one engine to another\<close>

text \<open>The transport hands \<open>bs\<close> to a receiving engine: into the window it offers, then acknowledged.\<close>

definition deliver :: "('c, 'r) engine \<Rightarrow> byte list \<Rightarrow> ('c, 'r) engine" where
  "deliver rc bs = recvrec_ack (rc\<lparr>mem := store (mem rc) (ptr (ibuf rc) + ixa rc) bs\<rparr>) (length bs)"

text \<open>The I/O mode once input has been taken: a shared buffer is then reserved for input.\<close>

definition io_reading :: "('c, 'r) engine \<Rightarrow> io_mode" where
  "io_reading r = (if iomode r = BR_IO_INOUT \<and> ibuf r = obuf r then BR_IO_IN else iomode r)"

lemma deliver_eq:
  assumes "ixa r + length bs < 2 ^ 63" "length bs \<le> ixc r" "ixc r < 2 ^ 63"
  defines "r1 \<equiv> r\<lparr>mem := store (mem r) (ptr (ibuf r) + ixa r) bs, iomode := io_reading r,
    ixa := ixa r + length bs, ixb := ixa r + length bs, ixc := ixc r - length bs\<rparr>"
  shows "deliver r bs = (if ixa r1 < 5 then r1 else if ixa r1 = 5 then recvrec_header r1
    else if \<not> incrypt r1 then r1\<lparr>ixa := 5\<rparr> else if ixc r1 \<noteq> 0 then r1 else recvrec_decrypt r1)"
proof -
  define q where "q = r\<lparr>mem := store (mem r) (ptr (ibuf r) + ixa r) bs\<rparr>"
  have sel: "ixa q = ixa r" "ixc q = ixc r" "iomode q = iomode r" "ibuf q = ibuf r" "obuf q = obuf r"
    by (simp_all add: q_def)
  have r1: "r1 = q\<lparr>iomode := io_reading r, ixa := ixa r + length bs, ixb := ixa r + length bs, ixc := ixc r - length bs\<rparr>"
    by (simp add: r1_def q_def)
  show ?thesis
    unfolding deliver_def q_def [symmetric] r1 io_reading_def
    by (rule recvrec_ack_eq [of q "length bs", unfolded sel]) (use assms(1-3) in auto)
qed

lemma header_field_values:
  assumes "load m p 5 = rt # br_enc16be (ucast (v :: u16)) @ br_enc16be (of_nat L)" "L < 2 ^ 16"
  shows "m p = rt" "br_dec16be m (p + 1) = ucast v" "unat (br_dec16be m (p + 3)) = L"
proof -
  have h: "load m p 5 = load m p 1 @ load m (p + 1) 2 @ load m (p + 3) 2"
  proof -
    have "load m p (1 + (2 + 2)) = load m p 1 @ load m (p + 1) 2 @ load m (p + 1 + 2) 2"
      by (simp only: load_add)
    moreover have "1 + (2 + 2) = (5 :: nat)" "p + 1 + 2 = p + 3" by simp_all
    ultimately show ?thesis by (simp only:)
  qed
  have "load m p 1 = [m p]" by (simp add: load_def)
  with h assms(1) have f: "m p = rt" "load m (p + 1) 2 = br_enc16be (ucast v)" "load m (p + 3) 2 = br_enc16be (of_nat L)"
    by (auto simp: append_eq_append_conv)
  then show "m p = rt" by simp
  have "take_bit 16 (ucast v :: u32) = ucast v"
    by (rule bit_word_eqI) (auto simp: bit_simps dest: bit_imp_le_length)
  with f(2) show "br_dec16be m (p + 1) = ucast v" by (simp add: dec16be_enc)
  have "unat (take_bit 16 (of_nat L :: u32)) = L"
    using assms(2) by (simp add: unsigned_take_bit_eq unat_of_nat take_bit_nat_eq_self)
  with f(3) show "unat (br_dec16be m (p + 3)) = L" by (simp add: dec16be_enc)
qed

lemma deliver_header:
  assumes "ixa r = 0" "ixc r = 5" "incrypt r" "5 \<le> ibuf_len r" "ibuf_len r < 2 ^ 63"
    and "version_in r = 0 \<or> version_in r = v" "drop_bit 8 (ucast v :: u32) = 3" "L < 2 ^ 16" "0 < L"
    and "in_check_length (rin r) L" "L \<le> ibuf_len r - 5"
    and hdr: "hdr = rt # br_enc16be (ucast v) @ br_enc16be (of_nat L)"
  shows "deliver r hdr = r\<lparr>mem := store (mem r) (ptr (ibuf r)) hdr, iomode := io_reading r, record_type_in := rt,
      version_in := v, ixa := 5, ixb := 5, ixc := L\<rparr>"
proof -
  have len: "length hdr = 5" by (simp add: hdr)
  define r1 where "r1 = r\<lparr>mem := store (mem r) (ptr (ibuf r)) hdr, iomode := io_reading r, ixa := 5, ixb := 5, ixc := 0\<rparr>"
  have "deliver r hdr = recvrec_header r1"
    using assms(1,2) len deliver_eq [of r hdr] by (simp add: r1_def cong: if_cong)
  moreover have l5: "load (store (mem r) (ptr (ibuf r)) hdr) (ptr (ibuf r)) 5 = hdr"
    using len by simp
  have vv: "(version_in r \<noteq> 0 \<and> ucast (version_in r) \<noteq> (ucast v :: u32)) = False" using assms(6) by auto
  note f = header_field_values [OF l5 [unfolded hdr], folded hdr, OF assms(8)]
  have v: "ucast (ucast v :: u32) = v" by (rule bit_word_eqI) (simp add: bit_simps)
  have sz: "sz_sub (ibuf_len r) 5 = ibuf_len r - 5" using assms(4,5) by (simp add: sz_simps)
  have "recvrec_header r1 = r1\<lparr>record_type_in := rt, version_in := v, ixa := 5, ixb := 5, ixc := L\<rparr>"
    using assms(3,7,9-11) f v sz
    by (simp add: recvrec_header_def Let_def r1_def vv)
  ultimately show ?thesis by (simp add: r1_def)
qed

lemma deliver_body:
  assumes "ixa r = 5" "ixc r = L" "incrypt r" "length body = L" "0 < L" "L \<le> ibuf_len r - 5"
    and "ibuf_len r < 2 ^ 63" "n \<noteq> 0" "pre + n < 2 ^ 63"
    and d: "in_decrypt (rin r) (record_type_in r) (ucast (version_in r))
      (store (mem r) (ptr (ibuf r) + 5) body) (ptr (ibuf r) + 5) L = (ctx, m, Some (ptr (ibuf r) + 5 + pre, n))"
  shows "deliver r body = r\<lparr>mem := m, rin := ctx, iomode := io_reading r, ixa := 5 + pre, ixb := 5 + pre + n, ixc := 0\<rparr>"
proof -
  define r1 where "r1 = r\<lparr>mem := store (mem r) (ptr (ibuf r) + 5) body, iomode := io_reading r, ixa := 5 + L, ixb := 5 + L, ixc := 0\<rparr>"
  have a: "sz_add 5 L = 5 + L" "sz_sub L L = 0" "sz_sub (5 + L) 5 = L"
    using assms(6,7) by (auto simp: sz_simps)
  have "5 + L < 2 ^ 63" using assms(5-7) by simp
  then have "deliver r body = recvrec_decrypt r1"
    using assms(1-5) deliver_eq [of r body] by (simp add: r1_def cong: if_cong)
  also have "recvrec_decrypt r1 = r1\<lparr>rin := ctx, mem := m, ixa := 5 + pre, ixb := 5 + pre + n\<rparr>"
    using d assms(8,9) by (simp add: recvrec_decrypt_def Let_def r1_def a sz_simps)
  finally show ?thesis by (simp add: r1_def)
qed

text \<open>The receiver after the header and after the whole of a record that a sender in step assembled.\<close>

definition after_header :: "('c, 'r) engine \<Rightarrow> ('d, 'q) engine \<Rightarrow> byte list \<Rightarrow> ('c, 'r) engine" where
  "after_header r s wire = r\<lparr>mem := store (mem r) (ptr (ibuf r)) (take 5 wire), iomode := io_reading r,
     record_type_in := record_type_out s, version_in := version_out s, ixa := 5, ixb := 5, ixc := length wire - 5\<rparr>"

text \<open>A sender that \<open>sendpld_flush\<close> can make a record of: payload, and room for what protection adds.\<close>

definition sealable :: "('c, 'r) engine \<Rightarrow> bool" where
  "sealable s \<longleftrightarrow> buf_ok s \<and> out_ok (rout s) \<and> 5 + out_pre (rout s) \<le> oxc s \<and> oxc s < oxa s \<and> oxa s \<noteq> oxb s
     \<and> oxa s + out_post (rout s) \<le> obuf_len s"

lemma gather_sealable: "buf_ok s \<Longrightarrow> out_ok (rout s) \<Longrightarrow> out_gather s \<Longrightarrow> oxc s < oxa s \<Longrightarrow> sealable s"
  by (auto simp: sealable_def out_gather_def)

lemma record_arrives:
  fixes s :: "('c, 'r) engine" and r :: "('d, 'q) engine"
  assumes s: "sealable s" "oxa s - oxc s \<le> 16384"
    and sync: "rec_synced (rout s) (rin r)"
    and r: "buf_ok r" "ixa r = 0" "ixb r = 0" "ixc r = 5" "incrypt r" "iomode r = BR_IO_IN \<or> iomode r = BR_IO_INOUT"
    and v: "version_in r = 0 \<or> version_in r = version_out s" "drop_bit 8 (ucast (version_out s) :: u32) = 3"
    and fit: "oxa s - oxc s + 29 \<le> ibuf_len r"
  defines "s' \<equiv> sendpld_flush s False"
  defines "wire \<equiv> load (mem s') (ptr (obuf s') + oxa s') (oxc s' - oxa s')"
  defines "r' \<equiv> deliver (deliver r (take 5 wire)) (drop 5 wire)"
  shows "5 < length wire \<and> length wire \<le> ibuf_len r \<and> deliver r (take 5 wire) = after_header r s wire
      \<and> (\<exists>a m ctx. r' = r\<lparr>mem := m, rin := ctx, iomode := io_reading r, record_type_in := record_type_out s,
             version_in := version_out s, ixa := a, ixb := a + (oxa s - oxc s), ixc := 0\<rparr>
          \<and> 5 \<le> a \<and> a + (oxa s - oxc s) \<le> ibuf_len r
          \<and> load m (ptr (ibuf r) + a) (oxa s - oxc s) = load (mem s) (ptr (obuf s) + oxc s) (oxa s - oxc s)
          \<and> rec_synced (rout s') ctx)"
proof -
  let ?n = "oxa s - oxc s" and ?ob = "ptr (obuf s)" and ?rt = "record_type_out s" and ?v = "version_out s"
  have ok: "out_ok (rout s)" "in_ok (rin r)" "out_pre (rout s) = in_pre (rin r)" "out_post (rout s) = in_post (rin r)"
    using recs.synced_ok [OF sync] by auto
  have g: "5 + out_pre (rout s) \<le> oxc s" "oxc s \<le> oxa s" "oxa s + out_post (rout s) \<le> obuf_len s"
      "oxa s \<noteq> oxb s" "oxc s < oxa s \<or> False"
    using s(1) by (auto simp: sealable_def)
  have b: "buf_ok s" "oxc s < oxa s" using s(1) by (simp_all add: sealable_def)
  obtain ctx m where e: "out_encrypt (rout s) ?rt (ucast ?v) (mem s) (?ob + oxc s) ?n
        = (ctx, m, ?ob + oxa s', oxc s' - oxa s')" and s': "rout s' = ctx" "mem s' = m" "obuf s' = obuf s"
    using sendpld_flush_assembles(1) [OF b(1) ok(1) g, folded s'_def] by auto
  let ?q = "?ob + oxa s'" and ?N = "oxc s' - oxa s'"
  have pp: "5 + out_pre (rout s) \<le> ?ob + oxc s" "?n < 2 ^ 63" using g(1) s(2) by auto
  note law = rout.enc_law [OF ok(1) pp e]
  define L where "L = ?n + out_pre (rout s) + out_post (rout s)"
  have pq: "out_pre (rout s) + out_post (rout s) \<le> 24" by (cases "rout s") auto
  have N: "?N = 5 + L" "0 < L" "L < 2 ^ 16" "L \<le> ibuf_len r - 5"
    using law b(2) s(2) pq fit by (auto simp: L_def)
  have w: "take 5 wire = ?rt # br_enc16be (ucast ?v) @ br_enc16be (of_nat L)"
      "drop 5 wire = load m (?q + 5) L"
  proof -
    have "load m ?q 5 = ?rt # br_enc16be (ucast ?v) @ br_enc16be (of_nat L)" unfolding L_def using law by blast
    then show "take 5 wire = ?rt # br_enc16be (ucast ?v) @ br_enc16be (of_nat L)" "drop 5 wire = load m (?q + 5) L"
      using N(1) by (simp_all add: wire_def s')
  qed
  have chk: "in_check_length (rin r) L"
    using recs.accepts [OF sync _ s(2)] by (simp add: L_def)
  have rl: "5 \<le> ibuf_len r" "ibuf_len r < 2 ^ 63" using r(1) by (auto simp: buf_ok_def overhead_defs)
  have wl: "length wire = 5 + L" using N(1) by (simp add: wire_def)
  define r1 where "r1 = after_header r s wire"
  have d1: "deliver r (take 5 wire) = r1"
    using deliver_header [OF r(2,4,5) rl v(1,2) N(3,2) chk N(4) w(1)] wl by (simp add: r1_def after_header_def)
  let ?d = "ptr (ibuf r) + 5" and ?mr = "store (mem r1) (ptr (ibuf r) + 5) (drop 5 wire)"
  have bl: "length (drop 5 wire) = L" by (simp add: w(2))
  have "load ?mr ?d (?N - 5) = load m (?q + 5) (?N - 5)" using w(2) N bl by simp
  from recs.round_trip [OF sync pp(1) s(2) e this] obtain ci mr where
    d: "in_decrypt (rin r) ?rt (ucast ?v) ?mr ?d L = (ci, mr, Some (?d + in_pre (rin r), ?n))"
      and pl: "load mr (?d + in_pre (rin r)) ?n = load (mem s) (?ob + oxc s) ?n" and sy: "rec_synced ctx ci"
    using N(1) by auto
  have r1: "ixa r1 = 5" "ixc r1 = L" "incrypt r1" "ibuf_len r1 = ibuf_len r" "rin r1 = rin r"
      "record_type_in r1 = ?rt" "version_in r1 = ?v" "ibuf r1 = ibuf r" "io_reading r1 = io_reading r"
    using r(5) wl by (auto simp: r1_def after_header_def io_reading_def)
  have pn: "in_pre (rin r) + ?n < 2 ^ 63" "?n \<noteq> 0" using pq ok b(2) s(2) by auto
  have "r' = r1\<lparr>mem := mr, rin := ci, iomode := io_reading r, ixa := 5 + in_pre (rin r), ixb := 5 + in_pre (rin r) + ?n, ixc := 0\<rparr>"
    using deliver_body [of r1 L "drop 5 wire" ?n "in_pre (rin r)" ci mr] r1 bl N rl(2) d pn by (simp add: r'_def d1)
  moreover have "5 + in_pre (rin r) + ?n \<le> ibuf_len r" using N(4) rl(1) ok by (simp add: L_def)
  ultimately show ?thesis
    using d1 wl N pl sy s' by (intro conjI exI [of _ "5 + in_pre (rin r)"] exI [of _ mr] exI [of _ ci])
      (auto simp: r1_def after_header_def add.assoc)
qed

text \<open>
  C2. Record transfer: what a sending engine gathered as payload and assembled into one protected
  record is, once the bytes of that record are handed to a receiving engine with the same key
  material and sequence number, exactly the payload the receiver offers for reading; both sides stay
  in step for the next record. Holds for AES/GCM and for ChaCha20+Poly1305 records.
\<close>

theorem record_transfer:
  fixes s :: "('c, 'r) engine" and r :: "('d, 'q) engine"
  assumes s: "buf_ok s" "out_gather s" "oxc s < oxa s" "oxa s - oxc s \<le> 16384"
    and sync: "rec_synced (rout s) (rin r)"
    and r: "buf_ok r" "ixa r = 0" "ixb r = 0" "ixc r = 5" "incrypt r" "iomode r = BR_IO_IN \<or> iomode r = BR_IO_INOUT"
    and v: "version_in r = 0 \<or> version_in r = version_out s" "drop_bit 8 (ucast (version_out s) :: u32) = 3"
    and fit: "oxa s - oxc s + 29 \<le> ibuf_len r"
  defines "s' \<equiv> sendpld_flush s False"
  defines "wire \<equiv> load (mem s') (ptr (obuf s') + oxa s') (oxc s' - oxa s')"
  defines "r' \<equiv> deliver (deliver r (take 5 wire)) (drop 5 wire)"
  shows "\<exists>p. recvpld_buf r' = (Some p, oxa s - oxc s)
      \<and> load (mem r') p (oxa s - oxc s) = load (mem s) (ptr (obuf s) + oxc s) (oxa s - oxc s)
      \<and> record_type_in r' = record_type_out s \<and> rec_synced (rout s') (rin r')"
proof -
  have "sealable s" using gather_sealable [OF s(1) _ s(2,3)] recs.synced_ok [OF sync] by simp
  from record_arrives [OF this s(4) sync r v fit, folded s'_def, folded wire_def, folded r'_def] obtain a m ctx where
    "r' = r\<lparr>mem := m, rin := ctx, iomode := io_reading r, record_type_in := record_type_out s,
       version_in := version_out s, ixa := a, ixb := a + (oxa s - oxc s), ixc := 0\<rparr>" "a + (oxa s - oxc s) \<le> ibuf_len r"
    "load m (ptr (ibuf r) + a) (oxa s - oxc s) = load (mem s) (ptr (obuf s) + oxc s) (oxa s - oxc s)" "rec_synced (rout s') ctx"
    by blast
  with r(1,6) s(3) show ?thesis
    by (auto simp: recvpld_buf_def Let_def io_reading_def buf_ok_def sz_simps)
qed

text \<open>Concrete ciphers for the examples: a key stream of zeros, tags of zeros.\<close>

definition zero_ctr :: ctr_run where
  "zero_ctr iv cc d = d"

definition zero_ghash :: ghash where
  "zero_ghash y h d = replicate 16 0"

definition zero_poly :: poly1305_run where
  "zero_poly k iv d aad run e = (d, replicate 16 0)"

lemma zero_ctr_ok: "ctr_ok zero_ctr"
  unfolding ctr_ok_def zero_ctr_def
  by (rule exI [of _ "\<lambda>_ _ n. replicate n 0"]) (metis length_replicate xor_bytes_comm xor_bytes_zero)

lemma zero_ghash_ok: "ghash_ok zero_ghash"
  by (simp add: ghash_ok_def zero_ghash_def)

lemma zero_poly_ok: "poly_ok zero_poly run"
  by (simp add: poly_ok_def zero_poly_def)

definition zero_gcm :: gcm_ctx where
  "zero_gcm = gen_gcm_init (\<lambda>_. zero_ctr) (replicate 16 0) zero_ghash (replicate 4 0)"

lemma zero_gcm_synced: "rec_synced (Out_gcm zero_gcm) (In_gcm zero_gcm)"
  by (simp add: zero_gcm_def gen_gcm_init_def out_ok_gcm_def zero_ctr_ok zero_ghash_ok)

theorem record_transfer_witness:
  "\<exists>p. recvpld_buf (deliver (deliver (fresh_engine\<lparr>rin := In_gcm zero_gcm, incrypt := True\<rparr>)
        (take 5 (load (mem (sendpld_flush (fresh_engine\<lparr>rout := Out_gcm zero_gcm, version_out := 0x303,
           oxc := 100, oxa := 200, oxb := 300\<rparr>) False)) 16471 129)))
        (drop 5 (load (mem (sendpld_flush (fresh_engine\<lparr>rout := Out_gcm zero_gcm, version_out := 0x303,
           oxc := 100, oxa := 200, oxb := 300\<rparr>) False)) 16471 129))) = (Some p, 100)"
proof -
  let ?s = "fresh_engine\<lparr>rout := Out_gcm zero_gcm, version_out := 0x303, oxc := 100, oxa := 200, oxb := 300\<rparr>"
  let ?r = "fresh_engine\<lparr>rin := In_gcm zero_gcm, incrypt := True\<rparr>"
  have r: "buf_ok ?r" "ixa ?r = 0" "ixb ?r = 0" "ixc ?r = 5" "incrypt ?r" "iomode ?r = BR_IO_IN \<or> iomode ?r = BR_IO_INOUT"
    by (simp_all add: fresh_engine_eq br_ssl_zero_def buf_ok_def overhead_defs)
  have s: "buf_ok ?s" "out_gather ?s" "oxc ?s < oxa ?s" "oxa ?s - oxc ?s \<le> 16384"
    by (simp_all add: fresh_engine_eq br_ssl_zero_def buf_ok_def overhead_defs out_gather_def)
  have sy: "rec_synced (rout ?s) (rin ?r)" using zero_gcm_synced by simp
  have v: "version_in ?r = 0 \<or> version_in ?r = version_out ?s" "drop_bit 8 (ucast (version_out ?s) :: u32) = 3"
    by (simp_all add: fresh_engine_eq br_ssl_zero_def drop_bit_eq_div)
  have f: "oxa ?s - oxc ?s + 29 \<le> ibuf_len ?r" by (simp add: fresh_engine_eq br_ssl_zero_def)
  have o: "ptr (obuf (sendpld_flush ?s False)) + oxa (sendpld_flush ?s False) = 16471"
      "oxc (sendpld_flush ?s False) - oxa (sendpld_flush ?s False) = 129"
    by (simp_all add: fresh_engine_eq br_ssl_zero_def sendpld_flush_def Let_def gcm_encrypt_def do_tag_def do_ctr_def sz_simps
        split: prod.splits)
  from record_transfer [OF s sy r v f] show ?thesis by (simp only: o) auto
qed

section \<open>Agreement of the two sides' keys\<close>

text \<open>What the handshake leaves equal on both sides, with the implementations both are configured with.\<close>

definition same_session :: "('c, 'r) engine \<Rightarrow> ('d, 'q) engine \<Rightarrow> nat \<Rightarrow> bool" where
  "same_session c s prf_id \<longleftrightarrow> master_secret c = master_secret s \<and> client_random c = client_random s
     \<and> server_random c = server_random s \<and> br_ssl_engine_get_PRF c prf_id = br_ssl_engine_get_PRF s prf_id
     \<and> ighash c = ighash s \<and> ichacha c = ichacha s \<and> ipoly c = ipoly s"

lemma same_session_key_block:
  "same_session c s prf_id \<Longrightarrow> compute_key_block c prf_id n = compute_key_block s prf_id n"
  by (simp add: same_session_def compute_key_block_def)

text \<open>
  C21. Key agreement: when client and server hold the same master secret and randoms, switching on
  encryption leaves each side's output context in step with the other side's input context, in both
  directions, for AES/GCM with any key length and for ChaCha20+Poly1305.
\<close>

theorem key_agreement:
  assumes "same_session c s prf_id" "\<And>k. ctr_ok (bc_impl k)" "ghash_ok (ighash c)" "poly_ok (ipoly c) (ichacha c)"
  shows "rec_synced (rout (br_ssl_engine_switch_gcm_out c True prf_id bc_impl klen))
                    (rin (br_ssl_engine_switch_gcm_in s False prf_id bc_impl klen))
    \<and> rec_synced (rout (br_ssl_engine_switch_gcm_out s False prf_id bc_impl klen))
                 (rin (br_ssl_engine_switch_gcm_in c True prf_id bc_impl klen))
    \<and> rec_synced (rout (br_ssl_engine_switch_chapol_out c True prf_id))
                 (rin (br_ssl_engine_switch_chapol_in s False prf_id))
    \<and> rec_synced (rout (br_ssl_engine_switch_chapol_out s False prf_id))
                 (rin (br_ssl_engine_switch_chapol_in c True prf_id))"
  using assms(2-) same_session_key_block [OF assms(1)] assms(1) [unfolded same_session_def]
  by (simp add: br_ssl_engine_switch_gcm_out_def br_ssl_engine_switch_gcm_in_def gen_gcm_init_def
      br_ssl_engine_switch_chapol_out_def br_ssl_engine_switch_chapol_in_def gen_chapol_init_def
      out_ok_gcm_def out_ok_chapol_def Let_def)

theorem key_agreement_witness:
  "rec_synced (rout (br_ssl_engine_switch_chapol_out (fresh_engine\<lparr>ighash := zero_ghash, ipoly := zero_poly\<rparr>) True 4))
    (rin (br_ssl_engine_switch_chapol_in (fresh_engine\<lparr>ighash := zero_ghash, ipoly := zero_poly\<rparr>) False 4))"
  using key_agreement [of "fresh_engine\<lparr>ighash := zero_ghash, ipoly := zero_poly\<rparr>"
      "fresh_engine\<lparr>ighash := zero_ghash, ipoly := zero_poly\<rparr>" 4 "\<lambda>_. zero_ctr" 16]
  by (simp add: same_session_def zero_ctr_ok zero_ghash_ok zero_poly_ok)

end
