(* ===== verification/Ssl_Io.thy ===== *)
theory Ssl_Io
  imports Ssl_Engine_Props
begin

text \<open>
  The blocking I/O wrapper of the TLS engine (\<open>ssl_io.c\<close>), which the client side of the wrappers is
  built on: \<open>run_until\<close> and the read, write, flush and close calls over it. The two transport
  callbacks are arguments over a world \<open>'w\<close>: \<open>low_read\<close> gives the bytes read or fails,
  \<open>low_write\<close> says how many bytes it took or fails. All loops may run as long as the peer and the
  transport let them, so they are partial functions; \<open>None\<close> is a call that does not return.
\<close>

unbundle bit_operations_syntax

section \<open>The I/O context\<close>

record 'w sslio_context =
  low_read :: "nat \<Rightarrow> 'w \<Rightarrow> 'w \<times> byte list option"
  low_write :: "byte list \<Rightarrow> 'w \<Rightarrow> 'w \<times> nat option"

definition br_sslio_init ::
    "(nat \<Rightarrow> 'w \<Rightarrow> 'w \<times> byte list option) \<Rightarrow> (byte list \<Rightarrow> 'w \<Rightarrow> 'w \<times> nat option) \<Rightarrow> 'w sslio_context" where
  "br_sslio_init lread lwrite = \<lparr>low_read = lread, low_write = lwrite\<rparr>"

text \<open>What the callbacks promise: no more bytes than asked for.\<close>

definition lowio_ok :: "'w sslio_context \<Rightarrow> bool" where
  "lowio_ok ctx \<longleftrightarrow>
     (\<forall>len w w' bs. low_read ctx len w = (w', Some bs) \<longrightarrow> length bs \<le> len)
     \<and> (\<forall>bs w w' k. low_write ctx bs w = (w', Some k) \<longrightarrow> k \<le> length bs)"

section \<open>Operations\<close>

type_synonym ('c, 'r) hsrun = "('c, 'r) engine \<Rightarrow> ('c, 'r) engine"

partial_function (option) run_until ::
    "'w sslio_context \<Rightarrow> ('c, 'r) hsrun \<Rightarrow> u32 \<Rightarrow> ('c, 'r) engine \<Rightarrow> 'w \<Rightarrow> (('c, 'r) engine \<times> 'w \<times> int) option" where
  "run_until ctx hs target cc w =
     (let state = br_ssl_engine_current_state cc
      in if state AND BR_SSL_CLOSED \<noteq> 0 then Some (cc, w, -1)
         else if state AND BR_SSL_SENDREC \<noteq> 0 then
           (case br_ssl_engine_sendrec_buf cc of (buf, len) \<Rightarrow>
              case low_write ctx (load (mem cc) (ptr buf) len) w of (w, wlen) \<Rightarrow>
                (case wlen of
                   None \<Rightarrow> Some (if \<not> shutdown_recv cc then br_ssl_engine_fail cc BR_ERR_IO else cc, w, -1)
                 | Some wlen \<Rightarrow>
                     Option.bind (if wlen > 0 then br_ssl_engine_sendrec_ack hs cc wlen else Some cc)
                       (\<lambda>cc. run_until ctx hs target cc w)))
         else if state AND target \<noteq> 0 then Some (cc, w, 0)
         else if state AND BR_SSL_RECVAPP \<noteq> 0 then Some (cc, w, -1)
         else if state AND BR_SSL_RECVREC \<noteq> 0 then
           (case br_ssl_engine_recvrec_buf cc of (buf, len) \<Rightarrow>
              case low_read ctx len w of (w, rlen) \<Rightarrow>
                (case rlen of
                   None \<Rightarrow> Some (br_ssl_engine_fail cc BR_ERR_IO, w, -1)
                 | Some bs \<Rightarrow>
                     Option.bind
                       (if length bs > 0
                        then br_ssl_engine_recvrec_ack hs (cc\<lparr>mem := store (mem cc) (ptr buf) bs\<rparr>) (length bs)
                        else Some cc)
                       (\<lambda>cc. run_until ctx hs target cc w)))
         else run_until ctx hs target (br_ssl_engine_flush cc False) w)"

declare run_until.simps [code]

text \<open>The bytes copied to \<open>dst\<close> are returned; \<open>None\<close> is the return value -1.\<close>

definition br_sslio_read ::
    "'w sslio_context \<Rightarrow> ('c, 'r) hsrun \<Rightarrow> ('c, 'r) engine \<Rightarrow> 'w \<Rightarrow> nat
       \<Rightarrow> (('c, 'r) engine \<times> 'w \<times> byte list option) option" where
  "br_sslio_read ctx hs cc w len =
     (if len = 0 then Some (cc, w, Some [])
      else Option.bind (run_until ctx hs BR_SSL_RECVAPP cc w) (\<lambda>(cc, w, r).
        if r < 0 then Some (cc, w, None)
        else (case br_ssl_engine_recvapp_buf cc of (buf, alen) \<Rightarrow>
          let alen = (if alen > len then len else alen)
          in Some (br_ssl_engine_recvapp_ack cc alen, w, Some (load (mem cc) (ptr buf) alen)))))"

partial_function (option) br_sslio_read_all ::
    "'w sslio_context \<Rightarrow> ('c, 'r) hsrun \<Rightarrow> ('c, 'r) engine \<Rightarrow> 'w \<Rightarrow> nat \<Rightarrow> byte list
       \<Rightarrow> (('c, 'r) engine \<times> 'w \<times> byte list option) option" where
  "br_sslio_read_all ctx hs cc w len dst =
     (if len > 0
      then Option.bind (br_sslio_read ctx hs cc w len) (\<lambda>(cc, w, r).
        (case r of
           None \<Rightarrow> Some (cc, w, None)
         | Some bs \<Rightarrow> br_sslio_read_all ctx hs cc w (len - length bs) (dst @ bs)))
      else Some (cc, w, Some dst))"

definition br_sslio_write ::
    "'w sslio_context \<Rightarrow> ('c, 'r) hsrun \<Rightarrow> ('c, 'r) engine \<Rightarrow> 'w \<Rightarrow> byte list
       \<Rightarrow> (('c, 'r) engine \<times> 'w \<times> nat option) option" where
  "br_sslio_write ctx hs cc w src =
     (if src = [] then Some (cc, w, Some 0)
      else Option.bind (run_until ctx hs BR_SSL_SENDAPP cc w) (\<lambda>(cc, w, r).
        if r < 0 then Some (cc, w, None)
        else (case br_ssl_engine_sendapp_buf cc of (buf, alen) \<Rightarrow>
          let alen = (if alen > length src then length src else alen);
              cc = cc\<lparr>mem := store (mem cc) (ptr buf) (take alen src)\<rparr>
          in Some (br_ssl_engine_sendapp_ack cc alen, w, Some alen))))"

partial_function (option) br_sslio_write_all ::
    "'w sslio_context \<Rightarrow> ('c, 'r) hsrun \<Rightarrow> ('c, 'r) engine \<Rightarrow> 'w \<Rightarrow> byte list
       \<Rightarrow> (('c, 'r) engine \<times> 'w \<times> int) option" where
  "br_sslio_write_all ctx hs cc w src =
     (if src \<noteq> []
      then Option.bind (br_sslio_write ctx hs cc w src) (\<lambda>(cc, w, r).
        (case r of
           None \<Rightarrow> Some (cc, w, -1)
         | Some wlen \<Rightarrow> br_sslio_write_all ctx hs cc w (drop wlen src)))
      else Some (cc, w, 0))"

definition br_sslio_flush ::
    "'w sslio_context \<Rightarrow> ('c, 'r) hsrun \<Rightarrow> ('c, 'r) engine \<Rightarrow> 'w \<Rightarrow> (('c, 'r) engine \<times> 'w \<times> int) option" where
  "br_sslio_flush ctx hs cc w =
     run_until ctx hs (BR_SSL_SENDAPP OR BR_SSL_RECVAPP) (br_ssl_engine_flush cc False) w"

text \<open>The loop of \<open>br_sslio_close\<close>, after \<open>br_ssl_engine_close\<close>.\<close>

partial_function (option) sslio_close_loop ::
    "'w sslio_context \<Rightarrow> ('c, 'r) hsrun \<Rightarrow> ('c, 'r) engine \<Rightarrow> 'w \<Rightarrow> (('c, 'r) engine \<times> 'w) option" where
  "sslio_close_loop ctx hs cc w =
     (if br_ssl_engine_current_state cc \<noteq> BR_SSL_CLOSED
      then Option.bind (run_until ctx hs BR_SSL_RECVAPP cc w) (\<lambda>(cc, w, r).
        (case br_ssl_engine_recvapp_buf cc of (buf, len) \<Rightarrow>
           sslio_close_loop ctx hs (if buf \<noteq> None then br_ssl_engine_recvapp_ack cc len else cc) w))
      else Some (cc, w))"

definition br_sslio_close ::
    "'w sslio_context \<Rightarrow> ('c, 'r) hsrun \<Rightarrow> ('c, 'r) engine \<Rightarrow> 'w \<Rightarrow> (('c, 'r) engine \<times> 'w \<times> bool) option" where
  "br_sslio_close ctx hs cc w =
     Option.bind (br_ssl_engine_close hs cc) (\<lambda>cc.
       Option.bind (sslio_close_loop ctx hs cc w) (\<lambda>(cc, w). Some (cc, w, err cc = BR_ERR_OK)))"

section \<open>Invariant\<close>

definition io_inv :: "('c, 'r) engine \<Rightarrow> bool" where
  "io_inv cc \<longleftrightarrow> engine_ok cc \<and> ibuf cc \<noteq> obuf cc"

lemma engine_ok_mem [simp]: "engine_ok (cc\<lparr>mem := m\<rparr>) = engine_ok cc"
  by (simp add: engine_ok_def buf_ok_def in_defs out_defs br_ssl_engine_closed_def)

lemma recvrec_buf_mem [simp]: "br_ssl_engine_recvrec_buf (cc\<lparr>mem := m\<rparr>) = br_ssl_engine_recvrec_buf cc"
  by (simp add: br_ssl_engine_recvrec_buf_def recvrec_buf_def)

lemma io_inv_fail [simp]: "io_inv cc \<Longrightarrow> io_inv (br_ssl_engine_fail cc e)"
  by (auto simp: io_inv_def br_ssl_engine_fail_def engine_ok_def buf_ok_def br_ssl_engine_closed_def)

lemma fail_bufs [simp]: "ibuf (br_ssl_engine_fail cc e) = ibuf cc" "obuf (br_ssl_engine_fail cc e) = obuf cc"
    "br_ssl_engine_closed (br_ssl_engine_fail cc e)"
  by (auto simp: br_ssl_engine_fail_def br_ssl_engine_closed_def)

lemma io_inv_sendrec:
  assumes "hs_contract hs" "io_inv cc" "br_ssl_engine_sendrec_buf cc = (Some p, z)" "k \<le> z"
    and "br_ssl_engine_sendrec_ack hs cc k = Some cc'"
  shows "io_inv cc'" "ibuf cc' = ibuf cc" "obuf cc' = obuf cc"
  using sendrec_api_inv [of hs cc p z k] assms by (auto simp: io_inv_def)

lemma io_inv_recvrec:
  assumes "hs_contract hs" "io_inv cc" "br_ssl_engine_recvrec_buf cc = (Some p, z)" "0 < length bs" "length bs \<le> z"
    and "br_ssl_engine_recvrec_ack hs (cc\<lparr>mem := store (mem cc) q bs\<rparr>) (length bs) = Some cc'"
  shows "io_inv cc'" "ibuf cc' = ibuf cc" "obuf cc' = obuf cc"
  using recvrec_api_inv [of hs "cc\<lparr>mem := store (mem cc) q bs\<rparr>" p z "length bs"] assms
  by (auto simp: io_inv_def)

lemma io_inv_flush:
  assumes "io_inv cc"
  shows "io_inv (br_ssl_engine_flush cc f)" "ibuf (br_ssl_engine_flush cc f) = ibuf cc"
    "obuf (br_ssl_engine_flush cc f) = obuf cc"
proof -
  have "io_inv (br_ssl_engine_flush cc f) \<and> ibuf (br_ssl_engine_flush cc f) = ibuf cc
      \<and> obuf (br_ssl_engine_flush cc f) = obuf cc"
  proof (cases "\<not> br_ssl_engine_closed cc \<and> application_data cc AND 1 \<noteq> 0")
    case True
    then have b: "buf_ok cc" "out_regs cc" "br_ssl_engine_flush cc f = sendpld_flush cc f"
      using assms by (auto simp: io_inv_def engine_ok_def br_ssl_engine_flush_def)
    with sendpld_flush_inv [OF b(1,2), of f] same_input_engine_ok [of cc "sendpld_flush cc f"] assms
    show ?thesis by (auto simp: io_inv_def same_input_def)
  qed (use assms in \<open>auto simp: br_ssl_engine_flush_def\<close>)
  then show "io_inv (br_ssl_engine_flush cc f)" "ibuf (br_ssl_engine_flush cc f) = ibuf cc"
    "obuf (br_ssl_engine_flush cc f) = obuf cc" by auto
qed

text \<open>The outcome of \<open>run_until\<close>: a target state with nothing left to send, or a reason to give up.\<close>

definition run_outcome :: "u32 \<Rightarrow> ('c, 'r) engine \<Rightarrow> int \<Rightarrow> bool" where
  "run_outcome target cc r \<longleftrightarrow>
     r = 0 \<and> \<not> br_ssl_engine_closed cc \<and> br_ssl_engine_current_state cc AND target \<noteq> 0
       \<and> br_ssl_engine_current_state cc AND BR_SSL_SENDREC = 0
     \<or> r = -1 \<and> (br_ssl_engine_closed cc
       \<or> shutdown_recv cc \<and> br_ssl_engine_current_state cc AND BR_SSL_SENDREC \<noteq> 0
       \<or> br_ssl_engine_current_state cc AND target = 0 \<and> br_ssl_engine_current_state cc AND BR_SSL_RECVAPP \<noteq> 0)"

lemma run_until_inv:
  assumes "lowio_ok ctx" "hs_contract hs" "io_inv cc" "run_until ctx hs target cc w = Some res"
  shows "case res of (cc', w', r) \<Rightarrow>
    io_inv cc' \<and> ibuf cc' = ibuf cc \<and> obuf cc' = obuf cc \<and> run_outcome target cc' r"
  using assms(4,1-3)
proof (induction ctx hs target cc w res rule: run_until.raw_induct [rotated, consumes 1, case_names step])
  case (step f ctx hs target cc w res)
  note IH = step(1) and eq = step(2) and ok = step(3-5)
  let ?s = "br_ssl_engine_current_state cc"
  consider (closed) "?s AND BR_SSL_CLOSED \<noteq> 0"
    | (send) "?s AND BR_SSL_CLOSED = 0" "?s AND BR_SSL_SENDREC \<noteq> 0"
    | (hit) "?s AND BR_SSL_CLOSED = 0" "?s AND BR_SSL_SENDREC = 0" "?s AND target \<noteq> 0"
    | (app) "?s AND BR_SSL_CLOSED = 0" "?s AND BR_SSL_SENDREC = 0" "?s AND target = 0" "?s AND BR_SSL_RECVAPP \<noteq> 0"
    | (recv) "?s AND BR_SSL_CLOSED = 0" "?s AND BR_SSL_SENDREC = 0" "?s AND target = 0" "?s AND BR_SSL_RECVAPP = 0"
        "?s AND BR_SSL_RECVREC \<noteq> 0"
    | (flush) "?s AND BR_SSL_CLOSED = 0" "?s AND BR_SSL_SENDREC = 0" "?s AND target = 0" "?s AND BR_SSL_RECVAPP = 0"
        "?s AND BR_SSL_RECVREC = 0" by blast
  then show ?case
  proof cases
    case closed
    with eq ok(3) show ?thesis by (auto simp: run_outcome_def state_bits(1))
  next
    case send
    then obtain p z where b: "br_ssl_engine_sendrec_buf cc = (Some p, z)"
      using state_bits(2) [of cc] by (cases "br_ssl_engine_sendrec_buf cc") auto
    obtain w1 r where w: "low_write ctx (load (mem cc) p z) w = (w1, r)" by fastforce
    show ?thesis
    proof (cases r)
      case None
      with eq send b w ok(3) show ?thesis
        by (cases "shutdown_recv cc") (auto simp: run_outcome_def)
    next
      case (Some k)
      then have k: "k \<le> z" using ok(1) w unfolding lowio_ok_def by (metis length_load)
      from eq send b w Some obtain c where
        c: "(if k > 0 then br_ssl_engine_sendrec_ack hs cc k else Some cc) = Some c" "f ctx hs target c w1 = Some res"
        by (auto simp: Let_def bind_eq_Some_conv)
      then have "io_inv c \<and> ibuf c = ibuf cc \<and> obuf c = obuf cc"
        using io_inv_sendrec [OF ok(2,3) b k] ok(3) by (auto split: if_splits)
      with IH [OF c(2) ok(1,2)] show ?thesis by auto
    qed
  next
    case hit
    then have "\<not> br_ssl_engine_closed cc" by (simp add: state_bits(1) [symmetric])
    with hit eq ok(3) show ?thesis by (auto simp: run_outcome_def)
  next
    case app
    with eq ok(3) show ?thesis by (auto simp: run_outcome_def)
  next
    case recv
    then obtain p z where b: "br_ssl_engine_recvrec_buf cc = (Some p, z)"
      using state_bits(3) [of cc] by (cases "br_ssl_engine_recvrec_buf cc") auto
    obtain w1 r where w: "low_read ctx z w = (w1, r)" by fastforce
    show ?thesis
    proof (cases r)
      case None
      with eq recv b w ok(3) show ?thesis by (auto simp: run_outcome_def)
    next
      case (Some bs)
      then have k: "length bs \<le> z" using ok(1) w unfolding lowio_ok_def by metis
      from eq recv b w Some obtain c where
        c: "(if length bs > 0 then br_ssl_engine_recvrec_ack hs (cc\<lparr>mem := store (mem cc) p bs\<rparr>) (length bs)
            else Some cc) = Some c" "f ctx hs target c w1 = Some res"
        by (auto simp: Let_def bind_eq_Some_conv cong: if_cong)
      then have "io_inv c \<and> ibuf c = ibuf cc \<and> obuf c = obuf cc"
        using io_inv_recvrec [OF ok(2,3) b _ k] ok(3) by (auto split: if_splits)
      with IH [OF c(2) ok(1,2)] show ?thesis by auto
    qed
  next
    case flush
    with eq have "f ctx hs target (br_ssl_engine_flush cc False) w = Some res" by simp
    with IH [OF this ok(1,2)] io_inv_flush [OF ok(3)] show ?thesis by auto
  qed
qed

text \<open>
  C22. \<open>run_until\<close> is safe and its return value means what it says: run over any transport that
  respects the lengths it is given, the engine keeps its invariant and its buffers; a return of 0
  leaves the engine open, in a target state and with no record bytes left to send, and a return of -1
  comes only from a closed engine, a failed answer to a received \<open>close_notify\<close>, or application data
  the caller did not ask for.
\<close>

theorem run_until_safe:
  assumes "lowio_ok ctx" "hs_contract hs" "engine_ok cc" "ibuf cc \<noteq> obuf cc"
    and "run_until ctx hs target cc w = Some (cc', w', r)"
  shows "engine_ok cc' \<and> ibuf cc' = ibuf cc \<and> obuf cc' = obuf cc \<and> run_outcome target cc' r"
  using run_until_inv [OF assms(1,2) _ assms(5)] assms(3,4) by (simp add: io_inv_def)

text \<open>A transport for the examples: the world is the list of bytes written; reads fail.\<close>

definition log_io :: "byte list sslio_context" where
  "log_io = br_sslio_init (\<lambda>len w. (w, None)) (\<lambda>bs w. (w @ bs, Some (length bs)))"

lemma log_io_ok: "lowio_ok log_io"
  by (simp add: lowio_ok_def log_io_def br_sslio_init_def)

theorem run_until_safe_witness:
  "\<exists>cc'. run_until log_io hs_discard BR_SSL_RECVAPP fresh_engine [] = Some (cc', [], -1)
     \<and> engine_ok cc' \<and> run_outcome BR_SSL_RECVAPP cc' (-1)"
proof -
  have "br_ssl_engine_current_state fresh_engine = BR_SSL_RECVREC"
    by (simp add: br_ssl_engine_current_state_def fresh_engine_eq br_ssl_zero_def br_ssl_engine_closed_def
        br_ssl_engine_sendrec_buf_def sendrec_buf_def br_ssl_engine_recvrec_buf_def recvrec_buf_def
        br_ssl_engine_sendapp_buf_def br_ssl_engine_recvapp_buf_def Let_def)
  then have "run_until log_io hs_discard BR_SSL_RECVAPP fresh_engine []
      = Some (br_ssl_engine_fail fresh_engine BR_ERR_IO, [], -1)"
    by (subst run_until.simps) (simp add: br_state_defs log_io_def br_sslio_init_def split: prod.splits)
  with run_until_safe [OF log_io_ok hs_discard_contract fresh_engine_ok(1,2) this] show ?thesis by auto
qed

section \<open>The established connection\<close>

text \<open>An engine in which the handshake is over and application data flows out.\<close>

definition steady :: "('c, 'r) engine \<Rightarrow> bool" where
  "steady cc \<longleftrightarrow> io_inv cc \<and> application_data cc AND 1 \<noteq> 0 \<and> record_type_out cc = BR_SSL_APPLICATION_DATA
     \<and> (iomode cc = BR_IO_OUT \<or> iomode cc = BR_IO_INOUT)"

text \<open>A transport that takes at least one byte of what it is offered, in order.\<close>

definition lw_sends :: "'w sslio_context \<Rightarrow> ('w \<Rightarrow> byte list) \<Rightarrow> bool" where
  "lw_sends ctx sent \<longleftrightarrow> (\<forall>bs w. bs \<noteq> [] \<longrightarrow> (\<exists>k w'. low_write ctx bs w = (w', Some k)
     \<and> 0 < k \<and> k \<le> length bs \<and> sent w' = sent w @ take k bs))"

lemma steady_regs:
  "steady cc \<Longrightarrow> buf_ok cc \<and> in_regs cc \<and> out_regs cc \<and> engine_ok cc \<and> \<not> br_ssl_engine_closed cc"
  by (auto simp: steady_def io_inv_def engine_ok_def br_ssl_engine_closed_def)

lemma steady_gather_state:
  assumes "steady cc" "out_gather cc"
  shows "fst (br_ssl_engine_sendrec_buf cc) = None"
    "br_ssl_engine_sendapp_buf cc = (Some (ptr (obuf cc) + oxa cc), oxb cc - oxa cc)"
proof -
  have l: "oxb cc \<le> obuf_len cc" "obuf_len cc < 2 ^ 63" "oxa cc < oxb cc" "oxc cc \<le> oxa cc"
    using assms steady_regs [OF assms(1)] by (auto simp: buf_ok_def out_gather_def)
  then show "fst (br_ssl_engine_sendrec_buf cc) = None"
    by (simp add: br_ssl_engine_sendrec_buf_def sendrec_buf_def)
  show "br_ssl_engine_sendapp_buf cc = (Some (ptr (obuf cc) + oxa cc), oxb cc - oxa cc)"
    using l assms(1) by (auto simp: steady_def br_ssl_engine_sendapp_buf_def sendpld_buf_def Let_def sz_simps)
qed

definition wants_send :: "u32 \<Rightarrow> bool" where
  "wants_send target \<longleftrightarrow> target AND BR_SSL_SENDAPP \<noteq> 0"

lemma state_and_target:
  assumes "wants_send target" "br_ssl_engine_current_state cc AND BR_SSL_SENDAPP \<noteq> 0"
  shows "br_ssl_engine_current_state cc AND target \<noteq> 0"
proof -
  have b: "BR_SSL_SENDAPP = 2 ^ 3" by (simp add: br_state_defs)
  have "bit target 3" "bit (br_ssl_engine_current_state cc) 3"
    using assms unfolding wants_send_def b by (simp_all only: and_exp_eq_0_iff_not_bit not_not)
  then have "bit (br_ssl_engine_current_state cc AND target) 3" by (simp add: bit_and_iff)
  then show ?thesis by auto
qed

lemma run_until_ready:
  assumes "steady cc" "out_gather cc" "wants_send target"
  shows "run_until ctx hs target cc w = Some (cc, w, 0)"
proof -
  have "\<not> br_ssl_engine_closed cc" using steady_regs [OF assms(1)] by simp
  with steady_gather_state [OF assms(1,2)] state_bits(1,2,4) [of cc] state_and_target [OF assms(3), of cc]
  show ?thesis by (subst run_until.simps) simp
qed

text \<open>The start and end of the payload area of the next record, as \<open>make_ready_out\<close> sets them.\<close>

definition fresh_window :: "('c, 'r) engine \<Rightarrow> nat \<times> nat" where
  "fresh_window e = (oxa (make_ready_out e), oxb (make_ready_out e))"

lemma fresh_window_cong:
  "out_max_plaintext (rout e) = out_max_plaintext (rout e') \<Longrightarrow> obuf_len e = obuf_len e' \<Longrightarrow> max_frag_len e = max_frag_len e'
   \<Longrightarrow> fresh_window e = fresh_window e'"
  by (simp add: fresh_window_def make_ready_out_def Let_def split: prod.splits)

lemma encrypt_max_plaintext: "out_encrypt c rt v m p n = (c', x) \<Longrightarrow> out_max_plaintext c' = out_max_plaintext c"
  by (intro ext, cases c) (auto split: prod.splits)

lemma sendrec_ack_steady:
  assumes "steady cc" "out_sending cc" "0 < k" "k \<le> oxc cc - oxa cc"
  defines "cc' \<equiv> sendrec_ack cc k"
  shows "br_ssl_engine_sendrec_ack hs cc k = Some cc'" "steady cc'" "mem cc' = mem cc" "rout cc' = rout cc"
    "obuf cc' = obuf cc" "record_type_out cc' = record_type_out cc" "version_out cc' = version_out cc"
    "k < oxc cc - oxa cc \<Longrightarrow> out_sending cc' \<and> oxa cc' = oxa cc + k \<and> oxc cc' = oxc cc"
    "k = oxc cc - oxa cc \<Longrightarrow> out_gather cc' \<and> oxc cc' = oxa cc' \<and> (oxa cc', oxb cc') = fresh_window cc"
    "fresh_window cc' = fresh_window cc"
proof -
  have b: "buf_ok cc" "out_regs cc" "engine_ok cc" using steady_regs [OF assms(1)] by auto
  have l: "oxa cc < oxc cc" "oxc cc \<le> obuf_len cc" "obuf_len cc < 2 ^ 63" "oxb cc = oxa cc"
    using assms(2) b(1) by (auto simp: out_sending_def buf_ok_def)
  have w: "sendrec_buf cc = (Some (ptr (obuf cc) + oxa cc), oxc cc - oxa cc)"
    using assms(1) l by (auto simp: steady_def sendrec_buf_def sz_simps)
  note inv = sendrec_ack_inv [OF b(3) w assms(4), folded cc'_def]
  have sz: "sz_add (oxa cc) k = oxa cc + k" using l assms(4) by (simp add: sz_simps)
  have eq: "cc' = (if oxa cc + k = oxc cc then make_ready_out (cc\<lparr>oxa := oxa cc + k, oxb := oxa cc + k\<rparr>)
      else cc\<lparr>oxa := oxa cc + k, oxb := oxa cc + k\<rparr>)"
    by (simp add: cc'_def sendrec_ack_def Let_def sz)
  have f: "application_data cc' = application_data cc" "record_type_out cc' = record_type_out cc" "rout cc' = rout cc"
      "version_out cc' = version_out cc" "iomode cc' = BR_IO_OUT \<or> iomode cc' = BR_IO_INOUT"
    using assms(1) by (auto simp: eq make_ready_out_def Let_def steady_def split: prod.splits)
  show "steady cc'" "mem cc' = mem cc" "rout cc' = rout cc" "obuf cc' = obuf cc"
    "record_type_out cc' = record_type_out cc" "version_out cc' = version_out cc"
    using inv f assms(1) by (auto simp: steady_def io_inv_def same_input_def)
  show "br_ssl_engine_sendrec_ack hs cc k = Some cc'"
    using f assms(1) by (simp add: br_ssl_engine_sendrec_ack_def cc'_def [symmetric] steady_def)
  show "out_sending cc' \<and> oxa cc' = oxa cc + k \<and> oxc cc' = oxc cc" if "k < oxc cc - oxa cc"
    using that l by (auto simp: eq out_sending_def)
  show "fresh_window cc' = fresh_window cc"
    by (rule fresh_window_cong) (auto simp: eq make_ready_out_def Let_def split: prod.splits)
  show "out_gather cc' \<and> oxc cc' = oxa cc' \<and> (oxa cc', oxb cc') = fresh_window cc" if "k = oxc cc - oxa cc"
  proof -
    let ?r = "cc\<lparr>oxa := oxa cc + k, oxb := oxa cc + k\<rparr>"
    have "buf_ok ?r" "out_ok (rout ?r)" using b by (auto simp: buf_ok_def out_regs_def)
    note make_ready_out_gather [OF this]
    moreover have r: "cc' = make_ready_out ?r" using that l by (simp add: eq)
    moreover have "fresh_window ?r = fresh_window cc" by (rule fresh_window_cong) simp_all
    ultimately show ?thesis by (simp add: fresh_window_def)
  qed
qed

lemma run_until_drains:
  assumes "lw_sends ctx sent" "wants_send target" "steady cc" "out_sending cc"
  shows "\<exists>cc' w'. run_until ctx hs target cc w = Some (cc', w', 0) \<and> steady cc' \<and> out_gather cc' \<and> oxa cc' = oxc cc'
    \<and> sent w' = sent w @ load (mem cc) (ptr (obuf cc) + oxa cc) (oxc cc - oxa cc)
    \<and> mem cc' = mem cc \<and> rout cc' = rout cc \<and> version_out cc' = version_out cc
    \<and> (oxa cc', oxb cc') = fresh_window cc \<and> fresh_window cc' = fresh_window cc"
  using assms(3,4)
proof (induction "oxc cc - oxa cc" arbitrary: cc w rule: less_induct)
  case less
  let ?p = "ptr (obuf cc) + oxa cc" and ?z = "oxc cc - oxa cc"
  have l: "oxa cc < oxc cc" "oxc cc < 2 ^ 64"
    using less.prems steady_regs [OF less.prems(1)] by (auto simp: out_sending_def buf_ok_def)
  have b: "br_ssl_engine_sendrec_buf cc = (Some ?p, ?z)"
    using l less.prems(1) by (auto simp: br_ssl_engine_sendrec_buf_def sendrec_buf_def steady_def sz_simps)
  have "load (mem cc) ?p ?z \<noteq> []" using l by (metis length_load list.size(3) zero_less_diff less_irrefl)
  then obtain k w1 where w: "low_write ctx (load (mem cc) ?p ?z) w = (w1, Some k)" "0 < k" "k \<le> ?z"
      "sent w1 = sent w @ load (mem cc) ?p k"
    using assms(1) [unfolded lw_sends_def, rule_format, of "load (mem cc) ?p ?z" w] by (auto simp: min_absorb1)
  define c where "c = sendrec_ack cc k"
  note s = sendrec_ack_steady [OF less.prems w(2,3), folded c_def]
  have r: "run_until ctx hs target cc w = run_until ctx hs target c w1"
    using state_bits(1,2) [of cc] steady_regs [OF less.prems(1)] b w s(1)
    by (subst run_until.simps) simp
  show ?case
  proof (cases "k = ?z")
    case True
    with s(9) have g: "out_gather c" "oxc c = oxa c" "(oxa c, oxb c) = fresh_window cc" by auto
    show ?thesis unfolding r run_until_ready [OF s(2) g(1) assms(2)]
      using g s True w(4) by auto
  next
    case False
    then have c: "out_sending c" "oxa c = oxa cc + k" "oxc c = oxc cc" using s(8) w(3) by auto
    have "oxc c - oxa c < ?z" using c w l by simp
    from less.hyps [OF this s(2) c(1), of w1] obtain cc' w' where
      h: "run_until ctx hs target c w1 = Some (cc', w', 0)" "steady cc'" "out_gather cc'" "oxa cc' = oxc cc'"
        "sent w' = sent w1 @ load (mem c) (ptr (obuf c) + oxa c) (oxc c - oxa c)"
        "mem cc' = mem c" "rout cc' = rout c" "version_out cc' = version_out c"
        "(oxa cc', oxb cc') = fresh_window c" "fresh_window cc' = fresh_window c" by auto
    have "load (mem cc) ?p k @ load (mem cc) (?p + k) (?z - k) = load (mem cc) ?p ?z"
    proof -
      have "k + (?z - k) = ?z" using w(3) by simp
      then show ?thesis using load_add [of "mem cc" ?p k "?z - k"] by (simp only:)
    qed
    with h r s w(4) c show ?thesis by (simp add: add.assoc)
  qed
qed

lemma flush_assembles_steady:
  assumes "steady cc" "out_gather cc" "oxc cc < oxa cc"
  defines "s \<equiv> sendpld_flush cc False"
  shows "br_ssl_engine_flush cc False = s" "steady s" "out_sending s"
proof -
  have r: "buf_ok cc" "out_regs cc" "engine_ok cc" "\<not> br_ssl_engine_closed cc" using steady_regs [OF assms(1)] by auto
  then show "br_ssl_engine_flush cc False = s"
    using assms(1) by (simp add: br_ssl_engine_flush_def s_def steady_def)
  have g: "5 + out_pre (rout cc) \<le> oxc cc" "oxc cc \<le> oxa cc" "oxa cc + out_post (rout cc) \<le> obuf_len cc"
      "oxa cc \<noteq> oxb cc" "oxc cc < oxa cc \<or> False" and ok: "out_ok (rout cc)"
    using assms(2,3) r(2) by (auto simp: out_gather_def out_regs_def)
  note a = sendpld_flush_assembles [OF r(1) ok g, folded s_def]
  show "out_sending s" by (rule a(2))
  have "engine_ok s" using same_input_engine_ok [OF a(5) r(3)] a(2,3) by (simp add: out_regs_def)
  moreover obtain ctx m where "s = cc\<lparr>rout := ctx, mem := m, oxa := oxc cc - 5 - out_pre (rout cc),
          oxb := oxc cc - 5 - out_pre (rout cc), oxc := oxa cc + out_post (rout cc)\<rparr>" using a(1) by auto
  ultimately show "steady s" using assms(1) by (auto simp: steady_def io_inv_def)
qed

text \<open>
  C23. Flushing delivers: on an established connection with payload gathered, over a transport that
  takes at least one byte at a time, \<open>br_sslio_flush\<close> returns 0; by then the transport has received
  exactly the bytes of the one record assembled from the payload, in order, and the engine is empty
  and ready for more.
\<close>

theorem sslio_flush_delivers:
  assumes "lw_sends ctx sent" "steady cc" "out_gather cc" "oxc cc < oxa cc"
  defines "s \<equiv> sendpld_flush cc False"
  shows "\<exists>cc' w'. br_sslio_flush ctx hs cc w = Some (cc', w', 0)
    \<and> sent w' = sent w @ load (mem s) (ptr (obuf s) + oxa s) (oxc s - oxa s)
    \<and> steady cc' \<and> out_gather cc' \<and> oxa cc' = oxc cc' \<and> rout cc' = rout s"
proof -
  have "wants_send (BR_SSL_SENDAPP OR BR_SSL_RECVAPP)" by (simp add: wants_send_def br_state_defs)
  from run_until_drains [OF assms(1) this flush_assembles_steady(2,3) [OF assms(2-4)], of hs w, folded s_def]
  show ?thesis unfolding br_sslio_flush_def flush_assembles_steady(1) [OF assms(2-4), folded s_def] by blast
qed

lemma log_io_sends: "lw_sends log_io (\<lambda>w. w)"
  by (simp add: lw_sends_def log_io_def br_sslio_init_def)

text \<open>An established connection with 100 bytes gathered.\<close>

definition open_engine :: "(unit, unit) engine" where
  "open_engine = fresh_engine\<lparr>application_data := 1, record_type_out := BR_SSL_APPLICATION_DATA,
     version_out := 0x303, rout := Out_gcm zero_gcm, oxc := 100, oxa := 200, oxb := 300\<rparr>"

lemma open_engine_steady: "steady open_engine" "out_gather open_engine" "oxc open_engine < oxa open_engine"
  using zero_gcm_synced
  by (simp_all add: open_engine_def fresh_engine_eq br_ssl_zero_def steady_def io_inv_def engine_ok_def buf_ok_def
      in_defs out_defs overhead_defs)

theorem sslio_flush_delivers_witness:
  "\<exists>cc' w'. br_sslio_flush log_io hs_discard open_engine [] = Some (cc', w', 0) \<and> steady cc' \<and> oxa cc' = oxc cc'"
  using sslio_flush_delivers [OF log_io_sends open_engine_steady, of hs_discard "[]"] by auto

section \<open>Writing on an established connection\<close>

lemma sendpld_ack_partial:
  assumes "ibuf cc \<noteq> obuf cc" "oxa cc + k < oxb cc" "oxb cc < 2 ^ 64"
  shows "sendpld_ack cc k = cc\<lparr>oxa := oxa cc + k\<rparr>"
  using assms by (simp add: sendpld_ack_def Let_def sz_simps)

lemma steady_append:
  assumes "steady cc" "out_gather cc" "oxa cc + k < oxb cc"
  shows "steady (cc\<lparr>mem := m, oxa := oxa cc + k\<rparr>)" "out_gather (cc\<lparr>mem := m, oxa := oxa cc + k\<rparr>)"
  using assms by (auto simp: steady_def io_inv_def engine_ok_def buf_ok_def br_ssl_engine_closed_def in_defs out_defs)

lemma sslio_write_all_gathers:
  assumes "steady cc" "out_gather cc" "oxa cc + length src < oxb cc"
  shows "br_sslio_write_all ctx hs cc w src =
    Some (cc\<lparr>mem := store (mem cc) (ptr (obuf cc) + oxa cc) src, oxa := oxa cc + length src\<rparr>, w, 0)"
proof (cases "src = []")
  case True
  then show ?thesis by (subst br_sslio_write_all.simps) simp
next
  case False
  have sa: "wants_send BR_SSL_SENDAPP" by (simp add: wants_send_def br_state_defs)
  have l: "ibuf cc \<noteq> obuf cc" "oxb cc < 2 ^ 64"
    using assms steady_regs [OF assms(1)] by (auto simp: steady_def io_inv_def buf_ok_def out_gather_def)
  have n: "\<not> oxb cc - oxa cc < length src" using assms(3) by simp
  have "br_sslio_write ctx hs cc w src = Some (cc\<lparr>mem := store (mem cc) (ptr (obuf cc) + oxa cc) src,
      oxa := oxa cc + length src\<rparr>, w, Some (length src))"
    using False assms(3) l n steady_gather_state(2) [OF assms(1,2)]
    by (simp add: br_sslio_write_def run_until_ready [OF assms(1,2) sa] Let_def br_ssl_engine_sendapp_ack_def
        sendpld_ack_partial)
  with False show ?thesis
    by (subst br_sslio_write_all.simps, simp) (subst br_sslio_write_all.simps, simp)
qed

text \<open>The engine after more payload has been gathered.\<close>

definition gathered :: "('c, 'r) engine \<Rightarrow> byte list \<Rightarrow> ('c, 'r) engine" where
  "gathered e bs = e\<lparr>mem := store (mem e) (ptr (obuf e) + oxa e) bs, oxa := oxa e + length bs\<rparr>"

lemma gathered_append: "gathered (gathered e xs) ys = gathered e (xs @ ys)"
  by (simp add: gathered_def store_append add.assoc)

lemma gathered_steady:
  assumes "steady e" "out_gather e" "oxa e + length bs < oxb e"
  shows "steady (gathered e bs)" "out_gather (gathered e bs)"
  using steady_append [OF assms] by (simp_all add: gathered_def)

section \<open>Writing any amount\<close>

text \<open>The bytes of the record that an engine assembles from its payload.\<close>

definition record_of :: "('c, 'r) engine \<Rightarrow> byte list" where
  "record_of s = (let s = sendpld_flush s False in load (mem s) (ptr (obuf s) + oxa s) (oxc s - oxa s))"

definition payload_of :: "('c, 'r) engine \<Rightarrow> byte list" where
  "payload_of s = load (mem s) (ptr (obuf s) + oxc s) (oxa s - oxc s)"

lemma record_of_nonempty:
  assumes "sealable s"
  shows "record_of s \<noteq> []"
proof -
  have "out_sending (sendpld_flush s False)"
    using sendpld_flush_assembles(2) [of s False] assms by (auto simp: sealable_def)
  then have "length (record_of s) \<noteq> 0" by (simp add: record_of_def Let_def out_sending_def)
  then show ?thesis by auto
qed

lemma payload_of_nonempty: "sealable s \<Longrightarrow> payload_of s \<noteq> []"
  by (auto simp: sealable_def payload_of_def simp flip: length_greater_0_conv)

text \<open>The bytes of a record under way that the transport has not taken yet, and the payload gathered for the next one.\<close>

definition owed :: "('c, 'r) engine \<Rightarrow> byte list" where
  "owed e = (if out_sending e then load (mem e) (ptr (obuf e) + oxa e) (oxc e - oxa e) else [])"

definition held :: "('c, 'r) engine \<Rightarrow> byte list" where
  "held e = (if out_gather e then payload_of e else [])"

text \<open>The encryption contexts of a sequence of records follow each other.\<close>

fun record_chain :: "rec_out \<Rightarrow> ('c, 'r) engine list \<Rightarrow> rec_out \<Rightarrow> bool" where
  "record_chain c [] c' = (c' = c)"
| "record_chain c (b # bs) c' = (rout b = c \<and> record_chain (rout (sendpld_flush b False)) bs c')"

text \<open>The payload of a record never exceeds \<open>W\<close>.\<close>

definition window_le :: "('c, 'r) engine \<Rightarrow> nat \<Rightarrow> bool" where
  "window_le e W \<longleftrightarrow> (out_gather e \<longrightarrow> oxb e - oxc e \<le> W) \<and> snd (fresh_window e) - fst (fresh_window e) \<le> W"

text \<open>
  From \<open>e\<close> and the world \<open>w\<close> to \<open>e'\<close> and \<open>w'\<close>, with \<open>xs\<close> written meanwhile: the records made are those of the
  engine states \<open>es\<close>, in this order; their payloads and what is held make up the data written.
\<close>

definition seals ::
    "nat \<Rightarrow> ('w \<Rightarrow> byte list) \<Rightarrow> ('c, 'r) engine \<Rightarrow> 'w \<Rightarrow> byte list \<Rightarrow> ('c, 'r) engine list \<Rightarrow> ('c, 'r) engine \<Rightarrow> 'w \<Rightarrow> bool" where
  "seals W sent e w xs es e' w' \<longleftrightarrow>
     sent w' @ owed e' = sent w @ owed e @ concat (map record_of es)
     \<and> held e @ xs = concat (map payload_of es) @ held e'
     \<and> record_chain (rout e) es (rout e')
     \<and> (\<forall>b \<in> set es. sealable b \<and> record_type_out b = BR_SSL_APPLICATION_DATA \<and> version_out b = version_out e \<and> oxa b - oxc b \<le> W)
     \<and> version_out e' = version_out e \<and> fresh_window e' = fresh_window e \<and> window_le e' W"

lemma record_chain_append: "record_chain c es d \<Longrightarrow> record_chain d fs c' \<Longrightarrow> record_chain c (es @ fs) c'"
  by (induction es arbitrary: c) auto

lemma seals_trans:
  assumes "seals W sent e w xs es e1 w1" "seals W sent e1 w1 ys fs e2 w2"
  shows "seals W sent e w (xs @ ys) (es @ fs) e2 w2"
proof -
  have "sent w2 @ owed e2 = sent w @ owed e @ concat (map record_of (es @ fs))"
    using assms by (simp add: seals_def)
  moreover have "held e @ xs @ ys = concat (map payload_of (es @ fs)) @ held e2"
    using assms by (simp add: seals_def) (metis append.assoc)
  ultimately show ?thesis using assms record_chain_append unfolding seals_def by auto
qed

lemma gather_or_sending: "steady e \<Longrightarrow> out_gather e \<and> \<not> out_sending e \<or> out_sending e \<and> \<not> out_gather e"
  using steady_regs [of e] by (auto simp: out_defs)

lemma seals_refl: "window_le e W \<Longrightarrow> seals W sent e w [] [] e w"
  by (simp add: seals_def)

text \<open>A record under way is sent before anything else happens.\<close>

lemma drain_seals:
  assumes "lw_sends ctx sent" "wants_send target" "steady e" "out_sending e" "window_le e W"
  shows "\<exists>e' w'. run_until ctx hs target e w = Some (e', w', 0) \<and> steady e' \<and> out_gather e' \<and> oxc e' = oxa e'
    \<and> (oxa e', oxb e') = fresh_window e \<and> seals W sent e w [] [] e' w'"
proof -
  from run_until_drains [OF assms(1-4), of hs w] obtain e' w' where
    d: "run_until ctx hs target e w = Some (e', w', 0)" "steady e'" "out_gather e'" "oxa e' = oxc e'"
      "sent w' = sent w @ load (mem e) (ptr (obuf e) + oxa e) (oxc e - oxa e)" "rout e' = rout e" "version_out e' = version_out e"
      "(oxa e', oxb e') = fresh_window e" "fresh_window e' = fresh_window e" by blast
  have "window_le e' W" using assms(5) d(4,9) d(8) [symmetric] by (simp add: window_le_def)
  then have "seals W sent e w [] [] e' w'"
    using d gather_or_sending [OF assms(3)] gather_or_sending [OF d(2)] assms(4) by (auto simp: seals_def owed_def held_def payload_of_def)
  with d show ?thesis by auto
qed

text \<open>Payload that fills the window is made a record at once.\<close>

lemma payload_more:
  assumes "oxc e \<le> oxa e"
  shows "load (store (mem e) (ptr (obuf e) + oxa e) xs) (ptr (obuf e) + oxc e) (oxa e + length xs - oxc e) = payload_of e @ xs"
proof -
  have n: "oxa e + length xs - oxc e = (oxa e - oxc e) + length xs" "ptr (obuf e) + oxc e + (oxa e - oxc e) = ptr (obuf e) + oxa e"
    using assms by simp_all
  have "load (store (mem e) (ptr (obuf e) + oxa e) xs) (ptr (obuf e) + oxc e) (oxa e - oxc e)
      = load (mem e) (ptr (obuf e) + oxc e) (oxa e - oxc e)"
    using assms by (intro load_eqI) (auto simp: store_def)
  then show ?thesis unfolding n(1) load_add n(2) payload_of_def by simp
qed

lemma fill_window:
  assumes "steady e" "out_gather e" "length xs = oxb e - oxa e"
  defines "b \<equiv> (gathered e xs)\<lparr>oxb := oxb e + 1\<rparr>"
  shows "br_ssl_engine_sendapp_ack (e\<lparr>mem := store (mem e) (ptr (obuf e) + oxa e) xs\<rparr>) (length xs) = sendpld_flush b False"
    "sealable b" "payload_of b = payload_of e @ xs" "steady (sendpld_flush b False)" "out_sending (sendpld_flush b False)"
    "oxa b - oxc b = oxb e - oxc e" "record_type_out b = BR_SSL_APPLICATION_DATA" "version_out b = version_out e" "rout b = rout e"
    "fresh_window (sendpld_flush b False) = fresh_window e" "version_out (sendpld_flush b False) = version_out e"
proof -
  have l: "ibuf e \<noteq> obuf e" "oxb e \<le> obuf_len e" "obuf_len e < 2 ^ 63" "oxa e < oxb e" "oxc e \<le> oxa e" "5 + out_pre (rout e) \<le> oxc e"
      "oxb e + out_post (rout e) \<le> obuf_len e" "out_ok (rout e)" "buf_ok e"
    using assms(1,2) steady_regs [OF assms(1)] by (auto simp: steady_def io_inv_def buf_ok_def out_defs)
  have k: "oxa e + length xs = oxb e" using assms(3) l(4) by simp
  show "br_ssl_engine_sendapp_ack (e\<lparr>mem := store (mem e) (ptr (obuf e) + oxa e) xs\<rparr>) (length xs) = sendpld_flush b False"
    using l(1-4) k by (simp add: br_ssl_engine_sendapp_ack_def sendpld_ack_def Let_def sz_simps b_def gathered_def)
  have bs: "oxa b = oxb e" "oxb b = oxb e + 1" "oxc b = oxc e" "rout b = rout e" "obuf b = obuf e" "obuf_len b = obuf_len e" "buf_ok b"
      "version_out b = version_out e" "record_type_out b = record_type_out e"
      "mem b = store (mem e) (ptr (obuf e) + oxa e) xs"
    using k l(9) by (simp_all add: b_def gathered_def buf_ok_def)
  show s: "sealable b" using l bs by (simp add: sealable_def)
  show "oxa b - oxc b = oxb e - oxc e" "version_out b = version_out e" "rout b = rout e" using bs by simp_all
  show "record_type_out b = BR_SSL_APPLICATION_DATA" using bs assms(1) by (simp add: steady_def)
  show "payload_of b = payload_of e @ xs"
    using payload_more [OF l(5), of xs] l(4,5) k by (simp add: payload_of_def [of b] bs)
  have g: "5 + out_pre (rout b) \<le> oxc b" "oxc b \<le> oxa b" "oxa b + out_post (rout b) \<le> obuf_len b" "oxa b \<noteq> oxb b" "oxc b < oxa b \<or> False"
    using s by (auto simp: sealable_def)
  have ok: "out_ok (rout b)" using s by (simp add: sealable_def)
  note a = sendpld_flush_assembles [OF bs(7) ok g]
  show "out_sending (sendpld_flush b False)" by (rule a(2))
  obtain ctx m where e: "sendpld_flush b False = b\<lparr>rout := ctx, mem := m, oxa := oxc b - 5 - out_pre (rout b),
          oxb := oxc b - 5 - out_pre (rout b), oxc := oxa b + out_post (rout b)\<rparr>" using a(1) by auto
  have "same_input e (sendpld_flush b False)" using a(5) by (simp add: same_input_def b_def gathered_def br_ssl_engine_closed_def)
  then have "engine_ok (sendpld_flush b False)"
    using same_input_engine_ok [of e "sendpld_flush b False"] steady_regs [OF assms(1)] a(2,3) by (simp add: out_regs_def)
  moreover have "iomode b = iomode e" "application_data b = application_data e" "ibuf b = ibuf e" by (simp_all add: b_def gathered_def)
  ultimately show "steady (sendpld_flush b False)" using assms(1) bs(5,9) by (simp add: e steady_def io_inv_def)
  show "version_out (sendpld_flush b False) = version_out e" using bs by (simp add: e)
  have "out_max_plaintext (rout (sendpld_flush b False)) = out_max_plaintext (rout b)"
    using a(1) by (auto dest: encrypt_max_plaintext)
  moreover have "max_frag_len b = max_frag_len e" by (simp add: b_def gathered_def)
  ultimately show "fresh_window (sendpld_flush b False) = fresh_window e"
    using bs(4,6) by (intro fresh_window_cong) (simp_all add: e)
qed

text \<open>One call of \<open>br_sslio_write\<close> with the engine gathering: it takes what the window holds.\<close>

lemma write_gathering:
  assumes "steady e" "out_gather e" "src \<noteq> []" "window_le e W"
  defines "k \<equiv> min (length src) (oxb e - oxa e)"
  shows "\<exists>e' es. br_sslio_write ctx hs e w src = Some (e', w, Some k) \<and> 0 < k \<and> steady e' \<and> seals W sent e w (take k src) es e' w
    \<and> (out_sending e' \<or> held e' \<noteq> [])"
proof -
  have sa: "wants_send BR_SSL_SENDAPP" by (simp add: wants_send_def br_state_defs)
  have l: "ibuf e \<noteq> obuf e" "oxb e < 2 ^ 64" "oxa e < oxb e"
    using assms(1,2) steady_regs [OF assms(1)] by (auto simp: steady_def io_inv_def buf_ok_def out_gather_def)
  have k0: "0 < k" using assms(3) l(3) by (simp add: k_def)
  let ?c = "e\<lparr>mem := store (mem e) (ptr (obuf e) + oxa e) (take k src)\<rparr>"
  have w: "br_sslio_write ctx hs e w src = Some (br_ssl_engine_sendapp_ack ?c k, w, Some k)"
    using assms(3) steady_gather_state(2) [OF assms(1,2)]
    by (simp add: br_sslio_write_def run_until_ready [OF assms(1,2) sa] Let_def k_def min_def)
  show ?thesis
  proof (cases "k < oxb e - oxa e")
    case True
    then have k: "k = length src" by (auto simp: k_def min_def split: if_splits)
    have r: "oxa e + length src < oxb e" using True k by simp
    have e: "br_ssl_engine_sendapp_ack ?c k = gathered e src"
      using r l k by (simp add: br_ssl_engine_sendapp_ack_def sendpld_ack_partial gathered_def)
    note g = gathered_steady [OF assms(1,2) r]
    have "payload_of (gathered e src) = payload_of e @ src"
      using payload_more [of e src] assms(2) unfolding payload_of_def [of "gathered e src"] by (simp add: gathered_def out_gather_def)
    moreover have "fresh_window (gathered e src) = fresh_window e" by (rule fresh_window_cong) (simp_all add: gathered_def)
    moreover from calculation(1) have "held (gathered e src) \<noteq> []" using g(2) assms(3) by (simp add: held_def)
    ultimately have "seals W sent e w src [] (gathered e src) w \<and> held (gathered e src) \<noteq> []"
      using assms(2,4) g gather_or_sending [OF assms(1)] gather_or_sending [OF g(1)]
      by (auto simp: seals_def owed_def held_def window_le_def) (auto simp: gathered_def)
    with w e k k0 g(1) show ?thesis by auto
  next
    case False
    then have k: "length (take k src) = oxb e - oxa e" "k = oxb e - oxa e" by (auto simp: k_def min_def split: if_splits)
    define b where "b = (gathered e (take k src))\<lparr>oxb := oxb e + 1\<rparr>"
    note f = fill_window [OF assms(1,2) k(1), folded b_def]
    let ?a = "sendpld_flush b False"
    have "owed ?a = record_of b" using f(5) by (simp add: owed_def record_of_def Let_def)
    moreover have "held ?a = []" "owed e = []" "held e = payload_of e" "\<not> out_gather ?a"
      using gather_or_sending [OF assms(1)] gather_or_sending [OF f(4)] f(5) assms(2) by (auto simp: held_def owed_def)
    ultimately have "seals W sent e w (take k src) [b] ?a w"
      using f assms(2,4) by (simp add: seals_def window_le_def)
    with w f(1,4,5) k k0 show ?thesis by (metis length_take)
  qed
qed

lemma write_seals:
  assumes "lw_sends ctx sent" "steady e" "src \<noteq> []" "window_le e W"
  shows "\<exists>e' w' k es. br_sslio_write ctx hs e w src = Some (e', w', Some k) \<and> 0 < k \<and> k \<le> length src \<and> steady e'
    \<and> seals W sent e w (take k src) es e' w' \<and> (out_sending e' \<or> held e' \<noteq> [])"
proof (cases "out_gather e")
  case True
  from write_gathering [OF assms(2) True assms(3,4), where ctx = ctx and hs = hs and w = w and sent = sent] show ?thesis
    by (metis min.cobounded1)
next
  case False
  then have s: "out_sending e" using gather_or_sending [OF assms(2)] by blast
  have sa: "wants_send BR_SSL_SENDAPP" by (simp add: wants_send_def br_state_defs)
  from drain_seals [OF assms(1) sa assms(2) s assms(4), of hs w] obtain e1 w1 where
    d: "run_until ctx hs BR_SSL_SENDAPP e w = Some (e1, w1, 0)" "steady e1" "out_gather e1" "seals W sent e w [] [] e1 w1" by blast
  have "br_sslio_write ctx hs e w src = br_sslio_write ctx hs e1 w1 src"
    using assms(3) d(1) by (simp add: br_sslio_write_def run_until_ready [OF d(2,3) sa])
  moreover have "window_le e1 W" using d(4) by (simp add: seals_def)
  from write_gathering [OF d(2,3) assms(3) this, where ctx = ctx and hs = hs and w = w1 and sent = sent] obtain e2 es k where
    "br_sslio_write ctx hs e1 w1 src = Some (e2, w1, Some k)" "0 < k" "k \<le> length src" "steady e2" "seals W sent e1 w1 (take k src) es e2 w1"
    "out_sending e2 \<or> held e2 \<noteq> []"
    by (metis min.cobounded1)
  ultimately show ?thesis using seals_trans [OF d(4)] by fastforce
qed

lemma write_all_seals:
  assumes "lw_sends ctx sent" "steady e" "window_le e W"
  shows "\<exists>e' w' es. br_sslio_write_all ctx hs e w src = Some (e', w', 0) \<and> steady e' \<and> seals W sent e w src es e' w'
    \<and> (src \<noteq> [] \<longrightarrow> out_sending e' \<or> held e' \<noteq> [])"
  using assms(2,3)
proof (induction "length src" arbitrary: e w src rule: less_induct)
  case less
  show ?case
  proof (cases "src = []")
    case True
    then have "br_sslio_write_all ctx hs e w src = Some (e, w, 0)" by (subst br_sslio_write_all.simps) simp
    then show ?thesis using less.prems(1) seals_refl [OF less.prems(2), of sent w] True by blast
  next
    case False
    from write_seals [OF assms(1) less.prems(1) False less.prems(2), of hs w] obtain e1 w1 k es where
      r: "br_sslio_write ctx hs e w src = Some (e1, w1, Some k)" "0 < k" "k \<le> length src" "steady e1" "seals W sent e w (take k src) es e1 w1"
        "out_sending e1 \<or> held e1 \<noteq> []"
      by blast
    have "length (drop k src) < length src" "window_le e1 W" using r(2,3,5) by (auto simp: seals_def)
    from less.hyps [OF this(1) r(4) this(2), of w1] obtain e2 w2 fs where
      h: "br_sslio_write_all ctx hs e1 w1 (drop k src) = Some (e2, w2, 0)" "steady e2" "seals W sent e1 w1 (drop k src) fs e2 w2"
        "drop k src \<noteq> [] \<longrightarrow> out_sending e2 \<or> held e2 \<noteq> []" by blast
    have "out_sending e2 \<or> held e2 \<noteq> []"
    proof (cases "drop k src = []")
      case True
      then have "e2 = e1" using h(1) by (subst (asm) br_sslio_write_all.simps) simp
      then show ?thesis using r(6) by simp
    qed (use h(4) in blast)
    moreover have "br_sslio_write_all ctx hs e w src = Some (e2, w2, 0)"
      using h(1) r(1) False by (subst br_sslio_write_all.simps) simp
    ultimately show ?thesis using h(2) seals_trans [OF r(5) h(3)] by fastforce
  qed
qed

text \<open>Flushing makes a record of what is held and sends everything.\<close>

lemma flush_seals:
  assumes "lw_sends ctx sent" "steady e" "window_le e W"
  shows "\<exists>e' w' es. br_sslio_flush ctx hs e w = Some (e', w', 0) \<and> steady e' \<and> out_gather e' \<and> oxc e' = oxa e'
    \<and> (out_sending e \<or> held e \<noteq> [] \<longrightarrow> (oxa e', oxb e') = fresh_window e) \<and> seals W sent e w [] es e' w'"
proof -
  let ?t = "BR_SSL_SENDAPP OR BR_SSL_RECVAPP"
  have t: "wants_send ?t" by (simp add: wants_send_def br_state_defs)
  have nf: "br_ssl_engine_flush e False = e" if "oxa e = oxb e \<or> oxa e = oxc e"
    using that by (auto simp: br_ssl_engine_flush_def sendpld_flush_def sz_sub_def Let_def)
  consider (s) "out_sending e" "\<not> out_gather e" | (h) "out_gather e" "\<not> out_sending e" "oxc e < oxa e" | (n) "out_gather e" "\<not> out_sending e" "oxc e = oxa e"
    using gather_or_sending [OF assms(2)] unfolding out_gather_def by (metis le_neq_implies_less)
  then show ?thesis
  proof cases
    case s
    then have "oxa e = oxb e" by (simp add: out_sending_def)
    with drain_seals [OF assms(1) t assms(2) s(1) assms(3), of hs w] nf show ?thesis by (auto simp: br_sslio_flush_def)
  next
    case h
    note a = flush_assembles_steady [OF assms(2) h(1,3)]
    let ?a = "sendpld_flush e False"
    have l: "out_ok (rout e)" "buf_ok e" using steady_regs [OF assms(2)] by (auto simp: out_regs_def)
    have w: "fresh_window ?a = fresh_window e" "version_out ?a = version_out e"
      by (auto simp: sendpld_flush_def Let_def dest: encrypt_max_plaintext intro!: fresh_window_cong split: prod.splits)
    have o: "owed ?a = record_of e" "held ?a = []" "owed e = []" "held e = payload_of e" "\<not> out_gather ?a"
      using h a gather_or_sending [OF a(2)] by (auto simp: owed_def held_def record_of_def Let_def)
    have "oxa e - oxc e \<le> W" using assms(3) h by (auto simp: window_le_def out_gather_def)
    then have "seals W sent e w [] [e] ?a w"
      using w o gather_sealable [OF l(2,1) h(1,3)] assms(2,3) by (simp add: seals_def window_le_def steady_def)
    moreover have "window_le ?a W" using calculation by (simp add: seals_def)
    from drain_seals [OF assms(1) t a(2,3) this, of hs w] obtain e' w' where
      "run_until ctx hs ?t ?a w = Some (e', w', 0)" "steady e'" "out_gather e'" "oxc e' = oxa e'" "(oxa e', oxb e') = fresh_window e"
      "seals W sent ?a w [] [] e' w'" unfolding w(1) by blast
    ultimately show ?thesis using seals_trans [of W sent e w "[]" "[e]" ?a w "[]" "[]" e' w'] a(1)
      by (auto simp: br_sslio_flush_def)
  next
    case n
    then have "held e = []" by (simp add: held_def payload_of_def)
    moreover have "br_sslio_flush ctx hs e w = Some (e, w, 0)"
      using n nf by (simp add: br_sslio_flush_def run_until_ready [OF assms(2) n(1) t])
    ultimately show ?thesis using n seals_refl [OF assms(3), of sent w] assms(2) by blast
  qed
qed

section \<open>Closing\<close>

text \<open>An engine that still has record bytes to send after the peer's \<open>close_notify\<close>.\<close>

definition answering :: "('c, 'r) engine \<Rightarrow> bool" where
  "answering cc \<longleftrightarrow> shutdown_recv cc \<and> (iomode cc = BR_IO_OUT \<or> iomode cc = BR_IO_INOUT) \<and> oxa cc < oxc cc"

lemma answering_run_until:
  assumes "answering cc" "\<And>bs w. snd (low_write ctx bs w) = None" "run_until ctx hs target cc w = Some (cc', w', r)"
  shows "cc' = cc"
proof -
  have "\<not> br_ssl_engine_closed cc" "fst (br_ssl_engine_sendrec_buf cc) \<noteq> None"
    using assms(1) by (auto simp: answering_def br_ssl_engine_closed_def br_ssl_engine_sendrec_buf_def sendrec_buf_def)
  then have s: "br_ssl_engine_current_state cc AND BR_SSL_CLOSED = 0" "br_ssl_engine_current_state cc AND BR_SSL_SENDREC \<noteq> 0"
    using state_bits(1,2) [of cc] by auto
  obtain b z where b: "br_ssl_engine_sendrec_buf cc = (b, z)" by fastforce
  obtain w1 where "low_write ctx (load (mem cc) (ptr b) z) w = (w1, None)"
    using assms(2) by (metis prod.collapse)
  with assms(1,3) s b show ?thesis by (subst (asm) run_until.simps) (simp add: answering_def)
qed

lemma answering_recvapp_ack: "answering cc \<Longrightarrow> answering (br_ssl_engine_recvapp_ack cc len)"
  by (auto simp: answering_def br_ssl_engine_recvapp_ack_def recvpld_ack_def make_ready_in_def Let_def)

lemma answering_close_loop:
  assumes "sslio_close_loop ctx hs cc w = Some res" "answering cc" "\<And>bs w. snd (low_write ctx bs w) = None"
  shows False
  using assms
proof (induction ctx hs cc w res rule: sslio_close_loop.raw_induct [rotated, consumes 1, case_names step])
  case (step f ctx hs cc w res)
  note IH = step(1) and eq = step(2) and ok = step(3-4)
  have "br_ssl_engine_current_state cc AND BR_SSL_CLOSED = 0"
    using state_bits(1) [of cc] ok(1) by (auto simp: answering_def br_ssl_engine_closed_def)
  then have "br_ssl_engine_current_state cc \<noteq> BR_SSL_CLOSED" by (auto simp: br_state_defs)
  with eq obtain c w1 r where c: "run_until ctx hs BR_SSL_RECVAPP cc w = Some (c, w1, r)"
    and f: "(case br_ssl_engine_recvapp_buf c of (buf, len) \<Rightarrow>
           f ctx hs (if buf \<noteq> None then br_ssl_engine_recvapp_ack c len else c) w1) = Some res"
    by (auto simp: bind_eq_Some_conv)
  have a: "answering c" using answering_run_until [OF ok c] ok(1) by simp
  obtain b z where b: "br_ssl_engine_recvapp_buf c = (b, z)" by fastforce
  define d where "d = (if b \<noteq> None then br_ssl_engine_recvapp_ack c z else c)"
  have "answering d" using a answering_recvapp_ack [OF a, of z] by (simp add: d_def)
  moreover have "f ctx hs d w1 = Some res" using f unfolding b prod.case d_def .
  ultimately show False using IH ok(2) by blast
qed

text \<open>
  C30. The close loop does not end when it should answer the peer's \<open>close_notify\<close> over a transport
  that has gone: \<open>run_until\<close> then returns -1 without failing the engine, so the state never becomes
  \<open>BR_SSL_CLOSED\<close>, and the loop of \<open>br_sslio_close\<close> retries the failing write for ever.
\<close>

theorem sslio_close_spins:
  assumes "br_ssl_engine_close hs cc = Some cc1" "answering cc1" "\<And>bs w. snd (low_write ctx bs w) = None"
  shows "br_sslio_close ctx hs cc w = None"
proof -
  have "sslio_close_loop ctx hs cc1 w = None"
    using answering_close_loop [OF _ assms(2,3)] by (cases "sslio_close_loop ctx hs cc1 w") auto
  with assms(1) show ?thesis by (simp add: br_sslio_close_def)
qed

theorem sslio_close_spins_witness:
  "br_sslio_close (br_sslio_init (\<lambda>len w. (w, None)) (\<lambda>bs w. (w, None))) hs_discard
     (fresh_engine\<lparr>shutdown_recv := True, oxa := 0, oxb := 0, oxc := 20\<rparr>) () = None"
proof -
  let ?e = "fresh_engine\<lparr>shutdown_recv := True, oxa := 0, oxb := 0, oxc := 20\<rparr>"
  obtain cc1 where "br_ssl_engine_close hs_discard ?e = Some cc1" "answering cc1"
    by (simp add: br_ssl_engine_close_def fresh_engine_eq br_ssl_zero_def br_ssl_engine_closed_def
        jump_handshake.simps hs_enter_def hs_discard_def hs_take_output_def recvpld_buf_def sendpld_buf_def Let_def
        sz_simps answering_def)
  then show ?thesis
    using sslio_close_spins [of hs_discard ?e cc1 "br_sslio_init (\<lambda>len w. (w, None)) (\<lambda>bs w. (w, None))" "()"]
    by (simp add: br_sslio_init_def)
qed

end
