(* ===== verification/Ssl_Context.thy ===== *)
theory Ssl_Context
  imports Ssl_Io
begin

text \<open>
  The server and client contexts around the engine: initialisation with the full profiles
  (\<open>ssl_server_full_rsa.c\<close>, \<open>ssl_client_full.c\<close>) and the resets that start a handshake
  (\<open>ssl_server.c\<close>, \<open>ssl_client.c\<close>). The default implementations of the cryptographic primitives
  are fields of \<open>impls\<close>; the private key and the X.509 engine are opaque. The lemmas show that a
  context set up the way the wrappers do it starts with the engine invariant.
\<close>

section \<open>Contexts\<close>

record impls =
  br_tls10_prf :: tls_prf
  br_tls12_sha256_prf :: tls_prf
  br_tls12_sha384_prf :: tls_prf
  default_ghash :: ghash
  default_chacha20 :: chacha20_run
  default_poly1305 :: poly1305_run

record ('c, 'r, 'k) ssl_context =
  eng :: "('c, 'r) engine"
  version_min :: u16
  version_max :: u16
  session_id_len :: nat
  server_name :: "byte list"
  hash_ids :: "nat list"
  chain :: "byte list list"
  sk :: "'k option"
  allowed_usages :: u32

definition BR_KEYTYPE_KEYX :: u32 where "BR_KEYTYPE_KEYX = 0x10"
definition BR_KEYTYPE_SIGN :: u32 where "BR_KEYTYPE_SIGN = 0x20"

definition br_ssl_context_zero :: "'c \<Rightarrow> 'r \<Rightarrow> mem \<Rightarrow> ('c, 'r, 'k) ssl_context" where
  "br_ssl_context_zero c r m =
     \<lparr>eng = br_ssl_zero c r m, version_min = 0, version_max = 0, session_id_len = 0, server_name = [],
      hash_ids = [], chain = [], sk = None, allowed_usages = 0\<rparr>"

definition br_ssl_engine_set_versions :: "('c, 'r, 'k) ssl_context \<Rightarrow> u16 \<Rightarrow> u16 \<Rightarrow> ('c, 'r, 'k) ssl_context" where
  "br_ssl_engine_set_versions cc vmin vmax = cc\<lparr>version_min := vmin, version_max := vmax\<rparr>"

definition br_ssl_server_set_single_rsa ::
    "('c, 'r, 'k) ssl_context \<Rightarrow> byte list list \<Rightarrow> 'k \<Rightarrow> u32 \<Rightarrow> ('c, 'r, 'k) ssl_context" where
  "br_ssl_server_set_single_rsa cc certs key usages = cc\<lparr>chain := certs, sk := Some key, allowed_usages := usages\<rparr>"

text \<open>The hash loop and the PRF and cipher setters at the end of both initialisations.\<close>

definition set_defaults :: "impls \<Rightarrow> ('c, 'r, 'k) ssl_context \<Rightarrow> ('c, 'r, 'k) ssl_context" where
  "set_defaults im cc =
     (let cc = foldl (\<lambda>cc id. cc\<lparr>hash_ids := hash_ids cc @ [id]\<rparr>) cc [1, 2, 3, 4, 5, 6]
      in cc\<lparr>eng := (eng cc)\<lparr>prf10 := br_tls10_prf im, prf_sha256 := br_tls12_sha256_prf im,
              prf_sha384 := br_tls12_sha384_prf im, ighash := default_ghash im,
              ichacha := default_chacha20 im, ipoly := default_poly1305 im\<rparr>\<rparr>)"

definition full_rsa_suites :: "u16 list" where
  "full_rsa_suites =
     [0xCCA8, 0xC02F, 0xC030, 0xC027, 0xC028, 0xC013, 0xC014, 0x009C, 0x009D, 0xC09C,
      0xC09D, 0xC0A0, 0xC0A1, 0x003C, 0x003D, 0x002F, 0x0035, 0xC012, 0x000A]"

definition br_ssl_server_init_full_rsa ::
    "impls \<Rightarrow> 'c \<Rightarrow> 'r \<Rightarrow> mem \<Rightarrow> byte list list \<Rightarrow> 'k \<Rightarrow> ('c, 'r, 'k) ssl_context" where
  "br_ssl_server_init_full_rsa im c r m certs key =
     (let cc = br_ssl_context_zero c r m;
          cc = br_ssl_engine_set_versions cc BR_TLS10 BR_TLS12;
          cc = cc\<lparr>eng := br_ssl_engine_set_suites (eng cc) full_rsa_suites\<rparr>;
          cc = br_ssl_server_set_single_rsa cc certs key (or BR_KEYTYPE_KEYX BR_KEYTYPE_SIGN)
      in set_defaults im cc)"

definition full_client_suites :: "u16 list" where
  "full_client_suites =
     [0xCCA9, 0xCCA8, 0xC02B, 0xC02F, 0xC02C, 0xC030, 0xC0AC, 0xC0AD, 0xC0AE, 0xC0AF, 0xC023, 0xC027,
      0xC024, 0xC028, 0xC009, 0xC013, 0xC00A, 0xC014, 0xC02D, 0xC031, 0xC02E, 0xC032, 0xC025, 0xC029,
      0xC026, 0xC02A, 0xC004, 0xC00E, 0xC005, 0xC00F, 0x009C, 0x009D, 0xC09C, 0xC09D, 0xC0A0, 0xC0A1,
      0x003C, 0x003D, 0x002F, 0x0035, 0xC008, 0xC012, 0xC003, 0xC00D, 0x000A]"

definition br_ssl_client_init_full :: "impls \<Rightarrow> 'c \<Rightarrow> 'r \<Rightarrow> mem \<Rightarrow> ('c, 'r, 'k) ssl_context" where
  "br_ssl_client_init_full im c r m =
     (let cc = br_ssl_context_zero c r m;
          cc = br_ssl_engine_set_versions cc BR_TLS10 BR_TLS12;
          cc = cc\<lparr>eng := br_ssl_engine_set_suites (eng cc) full_client_suites\<rparr>
      in set_defaults im cc)"

text \<open>The reset functions return whether the engine is free of errors.\<close>

definition br_ssl_server_reset ::
    "'r rng_ops \<Rightarrow> ('c \<Rightarrow> 'c) \<Rightarrow> ('c, 'r) hsrun \<Rightarrow> ('c, 'r, 'k) ssl_context
       \<Rightarrow> (('c, 'r, 'k) ssl_context \<times> bool) option" where
  "br_ssl_server_reset ops hsinit hs cc =
     (let cc = cc\<lparr>eng := br_ssl_engine_set_buffer (eng cc) None 0 False\<rparr>;
          (e, ok) = br_ssl_engine_init_rand ops (eng cc);
          cc = cc\<lparr>eng := e\<rparr>
      in if \<not> ok then Some (cc, False)
         else Option.bind (br_ssl_engine_hs_reset hsinit hs ((eng cc)\<lparr>reneg := 0\<rparr>))
                (\<lambda>e. Some (cc\<lparr>eng := e\<rparr>, err e = BR_ERR_OK)))"

definition br_ssl_client_forget_session :: "('c, 'r, 'k) ssl_context \<Rightarrow> ('c, 'r, 'k) ssl_context" where
  "br_ssl_client_forget_session cc = cc\<lparr>session_id_len := 0\<rparr>"

definition br_ssl_client_reset ::
    "'r rng_ops \<Rightarrow> ('c \<Rightarrow> 'c) \<Rightarrow> ('c, 'r) hsrun \<Rightarrow> ('c, 'r, 'k) ssl_context \<Rightarrow> byte list option \<Rightarrow> bool
       \<Rightarrow> (('c, 'r, 'k) ssl_context \<times> bool) option" where
  "br_ssl_client_reset ops hsinit hs cc name resume_session =
     (let cc = cc\<lparr>eng := br_ssl_engine_set_buffer (eng cc) None 0 False\<rparr>;
          cc = cc\<lparr>eng := (eng cc)\<lparr>version_out := version_min cc\<rparr>\<rparr>;
          cc = (if \<not> resume_session then br_ssl_client_forget_session cc else cc);
          (e, ok) = br_ssl_engine_init_rand ops (eng cc);
          cc = cc\<lparr>eng := e\<rparr>
      in if \<not> ok then Some (cc, False)
         else let cc = cc\<lparr>eng := (eng cc)\<lparr>reneg := 0\<rparr>\<rparr>
              in if (case name of None \<Rightarrow> False | Some s \<Rightarrow> length s + 1 > 256)
                 then Some (cc\<lparr>eng := br_ssl_engine_fail (eng cc) BR_ERR_BAD_PARAM\<rparr>, False)
                 else let cc = cc\<lparr>server_name := (case name of None \<Rightarrow> [] | Some s \<Rightarrow> s)\<rparr>
                      in Option.bind (br_ssl_engine_hs_reset hsinit hs (eng cc))
                           (\<lambda>e. Some (cc\<lparr>eng := e\<rparr>, err e = BR_ERR_OK)))"

section \<open>A reset starts with the engine invariant\<close>

text \<open>An engine whose buffers have been set, whatever its registers hold.\<close>

definition has_buffers :: "('c, 'r) engine \<Rightarrow> bool" where
  "has_buffers e \<longleftrightarrow> buf_ok e \<and> in_ok (rin e) \<and> ibuf e \<noteq> obuf e"

lemma set_buffer_none:
  assumes "has_buffers e"
  defines "e' \<equiv> br_ssl_engine_set_buffer e None 0 False"
  shows "io_inv e'" "\<not> br_ssl_engine_closed e'" "ibuf e' = ibuf e" "obuf e' = obuf e"
proof -
  define r where "r = e\<lparr>iomode := BR_IO_INOUT, incrypt := False, err := BR_ERR_OK, version_in := 0,
    record_type_in := 0, version_out := 0, record_type_out := 0\<rparr>"
  have r: "buf_ok r" "in_ok (rin r)" "iomode r = BR_IO_INOUT" "ibuf r = ibuf e" "obuf r = obuf e"
    using assms(1) by (auto simp: r_def has_buffers_def buf_ok_def)
  have "ibuf r \<noteq> None" using r(1) by (auto simp: buf_ok_def)
  then have "e' = make_ready_out (make_ready_in (r\<lparr>rout := Out_clear\<rparr>))"
    by (auto simp: e'_def br_ssl_engine_set_buffer_def br_ssl_engine_set_buffers_bidi_def Let_def r_def)
  with set_buffers_regs [OF r(1-3)] assms(1) r(4,5)
  show "io_inv e'" "\<not> br_ssl_engine_closed e'" "ibuf e' = ibuf e" "obuf e' = obuf e"
    by (simp_all add: io_inv_def has_buffers_def)
qed

lemma io_inv_rng [simp]:
  "io_inv (e\<lparr>rng := r\<rparr>) = io_inv e" "io_inv (e\<lparr>rng_init_done := d\<rparr>) = io_inv e"
  "io_inv (e\<lparr>rng_os_rand_done := f\<rparr>) = io_inv e"
  "br_ssl_engine_closed (e\<lparr>rng := r\<rparr>) = br_ssl_engine_closed e"
  "br_ssl_engine_closed (e\<lparr>rng_init_done := d\<rparr>) = br_ssl_engine_closed e"
  "br_ssl_engine_closed (e\<lparr>rng_os_rand_done := f\<rparr>) = br_ssl_engine_closed e"
  by (simp_all add: io_inv_def engine_ok_def buf_ok_def in_defs out_defs br_ssl_engine_closed_def)

lemma rng_init_inv:
  assumes "io_inv e" "\<not> br_ssl_engine_closed e" "rng_init ops e = (e', ok)"
  shows "io_inv e' \<and> ibuf e' = ibuf e \<and> obuf e' = obuf e \<and> (ok \<longrightarrow> \<not> br_ssl_engine_closed e')"
  using assms by (auto simp: rng_init_def split: if_splits)

lemma init_rand_inv:
  assumes "io_inv e" "\<not> br_ssl_engine_closed e" "br_ssl_engine_init_rand ops e = (e', ok)"
  shows "io_inv e' \<and> ibuf e' = ibuf e \<and> obuf e' = obuf e \<and> (ok \<longrightarrow> \<not> br_ssl_engine_closed e')"
proof -
  obtain e1 ok1 where r: "rng_init ops e = (e1, ok1)" by fastforce
  note i = rng_init_inv [OF assms(1,2) r]
  show ?thesis
  proof (cases ok1)
    case False
    with assms(3) r i show ?thesis by (simp add: br_ssl_engine_init_rand_def)
  next
    case True
    with assms(3) r i show ?thesis
      by (auto simp: br_ssl_engine_init_rand_def Let_def split: if_splits option.splits prod.splits)
  qed
qed

lemma hs_reset_inv:
  assumes "hs_contract hs" "io_inv e" "\<not> br_ssl_engine_closed e"
  shows "\<exists>e'. br_ssl_engine_hs_reset hsinit hs e = Some e' \<and> io_inv e' \<and> ibuf e' = ibuf e \<and> obuf e' = obuf e"
proof -
  define r where "r = make_ready_out (make_ready_in e)"
  have e: "has_buffers e" "out_ok (rout e)"
    using assms(2,3) by (auto simp: io_inv_def engine_ok_def has_buffers_def in_regs_def out_regs_def)
  have b: "buf_ok (make_ready_in e)" "out_ok (rout (make_ready_in e))" "in_regs (make_ready_in e)"
    using e make_ready_in_regs [of e] by (auto simp: has_buffers_def make_ready_in_def buf_ok_def Let_def)
  have c: "\<not> br_ssl_engine_closed r"
    using assms(3) by (auto simp: r_def br_ssl_engine_closed_def make_ready_in_def make_ready_out_def Let_def
        split: prod.splits)
  have rb: "ibuf r = ibuf e" "obuf r = obuf e" by (auto simp: r_def make_ready_in_def Let_def)
  have si: "same_input (make_ready_in e) r"
    by (auto simp: r_def same_input_def make_ready_out_def br_ssl_engine_closed_def Let_def split: prod.splits)
  have ok: "engine_ok r"
    using same_input_engine_ok [OF si] make_ready_out_regs [OF b(1,2)] b by (simp add: engine_ok_def r_def)
  let ?r = "r\<lparr>cpu := hsinit (cpu r), shutdown_recv := False, application_data := 0, alert := 0\<rparr>"
  have "engine_ok ?r = engine_ok r"
    by (simp add: engine_ok_def buf_ok_def in_defs out_defs br_ssl_engine_closed_def)
  then have "engine_ok ?r" "\<not> br_ssl_engine_closed ?r" "ibuf ?r \<noteq> obuf ?r"
    using ok c rb e(1) by (simp_all add: br_ssl_engine_closed_def has_buffers_def)
  from jump_handshake_inv [OF assms(1) this, of 0] rb e(1) show ?thesis
    by (auto simp: br_ssl_engine_hs_reset_def engine_clearbuf_def r_def [symmetric] Let_def io_inv_def has_buffers_def)
qed

lemma io_inv_fields [simp]:
  "io_inv (e\<lparr>reneg := x\<rparr>) = io_inv e" "io_inv (e\<lparr>version_out := v\<rparr>) = io_inv e"
  "br_ssl_engine_closed (e\<lparr>reneg := x\<rparr>) = br_ssl_engine_closed e"
  "br_ssl_engine_closed (e\<lparr>version_out := v\<rparr>) = br_ssl_engine_closed e"
  by (simp_all add: io_inv_def engine_ok_def buf_ok_def in_defs out_defs br_ssl_engine_closed_def)

lemma server_reset_inv:
  assumes "hs_contract hs" "has_buffers (eng cc)"
  shows "\<exists>cc' ok. br_ssl_server_reset ops hsinit hs cc = Some (cc', ok) \<and> io_inv (eng cc')
    \<and> ibuf (eng cc') = ibuf (eng cc) \<and> obuf (eng cc') = obuf (eng cc)"
proof -
  define e where "e = br_ssl_engine_set_buffer (eng cc) None 0 False"
  note s = set_buffer_none [OF assms(2), folded e_def]
  obtain e1 ok where r: "br_ssl_engine_init_rand ops e = (e1, ok)" by fastforce
  note i = init_rand_inv [OF s(1,2) r]
  show ?thesis
  proof (cases ok)
    case False
    then have "br_ssl_server_reset ops hsinit hs cc = Some (cc\<lparr>eng := e1\<rparr>, False)"
      using r by (simp add: br_ssl_server_reset_def e_def [symmetric])
    with i s show ?thesis by auto
  next
    case True
    with hs_reset_inv [OF assms(1), of "e1\<lparr>reneg := 0\<rparr>" hsinit] i s r show ?thesis
      by (auto simp: br_ssl_server_reset_def e_def [symmetric])
  qed
qed

lemma client_reset_inv:
  assumes "hs_contract hs" "has_buffers (eng cc)"
  shows "\<exists>cc' ok. br_ssl_client_reset ops hsinit hs cc name resume = Some (cc', ok) \<and> io_inv (eng cc')
    \<and> ibuf (eng cc') = ibuf (eng cc) \<and> obuf (eng cc') = obuf (eng cc)"
proof -
  define e where "e = (br_ssl_engine_set_buffer (eng cc) None 0 False)\<lparr>version_out := version_min cc\<rparr>"
  have s: "io_inv e" "\<not> br_ssl_engine_closed e" "ibuf e = ibuf (eng cc)" "obuf e = obuf (eng cc)"
    using set_buffer_none [OF assms(2)] by (simp_all add: e_def)
  obtain e1 ok where r: "br_ssl_engine_init_rand ops e = (e1, ok)" by fastforce
  note i = init_rand_inv [OF s(1,2) r]
  define c1 where "c1 = (if resume then cc else cc\<lparr>session_id_len := 0\<rparr>)"
  have eq: "br_ssl_client_reset ops hsinit hs cc name resume =
     (if \<not> ok then Some (c1\<lparr>eng := e1\<rparr>, False)
      else if (case name of None \<Rightarrow> False | Some s \<Rightarrow> length s + 1 > 256)
      then Some (c1\<lparr>eng := br_ssl_engine_fail (e1\<lparr>reneg := 0\<rparr>) BR_ERR_BAD_PARAM\<rparr>, False)
      else Option.bind (br_ssl_engine_hs_reset hsinit hs (e1\<lparr>reneg := 0\<rparr>))
        (\<lambda>e. Some (c1\<lparr>server_name := (case name of None \<Rightarrow> [] | Some s \<Rightarrow> s), eng := e\<rparr>, err e = BR_ERR_OK)))"
    by (cases resume; cases ok)
      (simp_all add: br_ssl_client_reset_def br_ssl_client_forget_session_def c1_def e_def [symmetric] r Let_def
        cong: option.case_cong)
  show ?thesis
  proof (cases "ok \<and> \<not> (case name of None \<Rightarrow> False | Some s \<Rightarrow> length s + 1 > 256)")
    case False
    with i s show ?thesis unfolding eq by auto
  next
    case True
    with hs_reset_inv [OF assms(1), of "e1\<lparr>reneg := 0\<rparr>" hsinit] i s show ?thesis unfolding eq by auto
  qed
qed

text \<open>The set-up sequence of the wrappers: initialise, give the engine its two buffers.\<close>

lemma wrapper_buffers:
  assumes "ib \<noteq> ob" "in_ok (rin e)"
  shows "has_buffers (br_ssl_engine_set_buffers_bidi e (Some ib) 16384 (Some ob) 71680)"
proof -
  have "max_frag_loop 16384 71680 14 = 13" by (simp add: max_frag_loop.simps overhead_defs)
  then show ?thesis
    using assms by (auto simp: br_ssl_engine_set_buffers_bidi_def Let_def has_buffers_def buf_ok_def overhead_defs
        make_ready_in_def make_ready_out_def split: prod.splits)
qed

lemma init_full_rin [simp]:
  "rin (eng (br_ssl_server_init_full_rsa im c r m certs key)) = In_none"
  "rin (eng (br_ssl_client_init_full im c r m)) = In_none"
  by (simp_all add: br_ssl_server_init_full_rsa_def br_ssl_client_init_full_def set_defaults_def Let_def
      br_ssl_engine_set_suites_def br_ssl_server_set_single_rsa_def br_ssl_engine_set_versions_def
      br_ssl_context_zero_def br_ssl_zero_def br_ssl_engine_fail_def)

end
