(* ===== verification/Json_Frame.thy ===== *)
theory Json_Frame
  imports Codec "HOL-Library.Sublist"
begin

text \<open>
  The JSON message framing that \<open>tls_wrapper_v2.c\<close> and \<open>tls_wrapper_v3.c\<close> share word for word: a
  message is a 4-byte big-endian length followed by that many bytes. \<open>inbuf\<close> and \<open>outbuf\<close> are the
  framing fields of \<open>tlsv2_client_t\<close>; \<open>json_next\<close> and \<open>json_take\<close> are one turn of the inner
  receive loop, \<open>json_put\<close> the part of \<open>tlsv2_send_json\<close> that queues a message. \<open>frames\<close> is the
  abstract parser of a byte stream; the locale \<open>json_receiver\<close> is what a receive loop over these
  steps promises, whatever state it runs in, and its lemmas show that a loop delivers exactly the
  messages of the stream, however the stream is cut into pieces.
\<close>

section \<open>Buffers\<close>

definition TLSV2_MAX_JSON_SIZE :: nat where "TLSV2_MAX_JSON_SIZE = 65536"

record inbuf =
  in_buf :: "byte list"
  in_used :: nat
  expected_len :: u32

record outbuf =
  out_buf :: "byte list"
  out_used :: nat
  out_sent :: nat

definition memcpy_at :: "byte list \<Rightarrow> nat \<Rightarrow> byte list \<Rightarrow> byte list" where
  "memcpy_at buf off xs = take off buf @ xs @ drop (off + length xs) buf"

definition htonl_bytes :: "u32 \<Rightarrow> byte list" where
  "htonl_bytes v = [ucast (drop_bit 24 v), ucast (drop_bit 16 v), ucast (drop_bit 8 v), ucast v]"

definition ntohl_bytes :: "byte list \<Rightarrow> u32" where
  "ntohl_bytes xs = or (push_bit 24 (ucast (xs ! 0))) (or (push_bit 16 (ucast (xs ! 1)))
     (or (push_bit 8 (ucast (xs ! 2))) (ucast (xs ! 3))))"

section \<open>Operations\<close>

text \<open>
  One turn of the inner loop: wait for more bytes (\<open>break\<close>), reject the length (\<open>return -1\<close>), or
  go on to take a complete message.
\<close>

datatype json_step = Wait inbuf | Reject inbuf | Ready inbuf

definition json_next :: "inbuf \<Rightarrow> json_step" where
  "json_next f =
     (if expected_len f = 0 \<and> \<not> in_used f \<ge> 4 then Wait f
      else let fresh = (expected_len f = 0);
               f = (if fresh then f\<lparr>expected_len := ntohl_bytes (in_buf f)\<rparr> else f)
           in if fresh \<and> unat (expected_len f) > TLSV2_MAX_JSON_SIZE then Reject f
              else if expected_len f > 0 \<and> in_used f \<ge> unat (4 + expected_len f) then Ready f
              else Wait f)"

definition json_take :: "inbuf \<Rightarrow> inbuf \<times> byte list" where
  "json_take f =
     (let json_len = unat (expected_len f);
          json = take json_len (drop 4 (in_buf f));
          rem = in_used f - (4 + json_len)
      in (f\<lparr>in_buf := memcpy_at (in_buf f) 0 (take rem (drop (4 + json_len) (in_buf f))),
            in_used := rem, expected_len := 0\<rparr>, json))"

text \<open>The frame of a message, and queueing it: -2 while an earlier message is pending.\<close>

definition json_frame :: "byte list \<Rightarrow> byte list" where
  "json_frame json = htonl_bytes (of_nat (length json)) @ json"

definition json_put :: "outbuf \<Rightarrow> byte list \<Rightarrow> outbuf \<times> int" where
  "json_put f json =
     (if out_used f \<noteq> out_sent f then (f, -2)
      else (f\<lparr>out_buf := memcpy_at (memcpy_at (out_buf f) 0 (htonl_bytes (of_nat (length json)))) 4 json,
              out_used := 4 + length json, out_sent := 0\<rparr>, 0))"

section \<open>The abstract stream\<close>

definition frame_len :: "byte list \<Rightarrow> nat" where
  "frame_len d = unat (ntohl_bytes d)"

text \<open>The complete messages at the front of a stream, and what is left.\<close>

function frames :: "byte list \<Rightarrow> byte list list \<times> byte list" where
  "frames d =
     (if length d < 4 \<or> frame_len d = 0 \<or> frame_len d > TLSV2_MAX_JSON_SIZE \<or> length d < 4 + frame_len d
      then ([], d)
      else let (ms, r) = frames (drop (4 + frame_len d) d) in (take (frame_len d) (drop 4 d) # ms, r))"
  by pat_completeness auto
termination
  by (relation "measure length") auto

declare frames.simps [simp del]

definition bad_header :: "byte list \<Rightarrow> bool" where
  "bad_header d \<longleftrightarrow> length d \<ge> 4 \<and> frame_len d > TLSV2_MAX_JSON_SIZE"

section \<open>Bytes and words\<close>

lemma ntohl_htonl [simp]: "ntohl_bytes (htonl_bytes v @ xs) = v"
proof (rule bit_word_eqI)
  fix n assume "n < LENGTH(32)"
  then have n: "n < 32" by simp
  then consider "n < 8" | "8 \<le> n" "n < 16" | "16 \<le> n" "n < 24" | "24 \<le> n" "n < 32" by linarith
  then show "bit (ntohl_bytes (htonl_bytes v @ xs)) n = bit v n"
    by cases (auto simp: ntohl_bytes_def htonl_bytes_def bit_simps numeral_2_eq_2 numeral_3_eq_3)
qed

lemma length_htonl [simp]: "length (htonl_bytes v) = 4"
  by (simp add: htonl_bytes_def)

lemma ntohl_prefix: "take 4 xs = take 4 ys \<Longrightarrow> 4 \<le> length xs \<Longrightarrow> 4 \<le> length ys \<Longrightarrow> ntohl_bytes xs = ntohl_bytes ys"
proof -
  assume a: "take 4 xs = take 4 ys" "4 \<le> length xs" "4 \<le> length ys"
  have "xs ! i = ys ! i" if "i < 4" for i using a that by (metis nth_take)
  then show ?thesis by (simp add: ntohl_bytes_def)
qed

lemma frame_len_take: "4 \<le> k \<Longrightarrow> 4 \<le> length d \<Longrightarrow> frame_len (take k d) = frame_len d"
  by (auto simp: frame_len_def intro!: arg_cong [where f = unat] ntohl_prefix)

lemma frame_len_append: "4 \<le> length d \<Longrightarrow> frame_len (d @ e) = frame_len d"
  by (auto simp: frame_len_def intro!: arg_cong [where f = unat] ntohl_prefix)

lemma frame_len_frame [simp]: "length json \<le> TLSV2_MAX_JSON_SIZE \<Longrightarrow> frame_len (json_frame json @ e) = length json"
  by (simp add: frame_len_def json_frame_def unat_of_nat TLSV2_MAX_JSON_SIZE_def)

lemma length_memcpy_at [simp]: "off + length xs \<le> length buf \<Longrightarrow> length (memcpy_at buf off xs) = length buf"
  by (simp add: memcpy_at_def)

lemma take_memcpy_at:
  "off \<le> length buf \<Longrightarrow> take (off + length xs) (memcpy_at buf off xs) = take off buf @ xs"
  by (simp add: memcpy_at_def)

section \<open>The abstract parser\<close>

definition stuck :: "byte list \<Rightarrow> bool" where
  "stuck d \<longleftrightarrow> length d < 4 \<or> frame_len d = 0 \<or> frame_len d > TLSV2_MAX_JSON_SIZE \<or> length d < 4 + frame_len d"

lemma frames_stuck [simp]: "stuck d \<Longrightarrow> frames d = ([], d)"
  by (subst frames.simps) (auto simp: stuck_def)

lemma frames_step:
  "\<not> stuck d \<Longrightarrow> frames d = (take (frame_len d) (drop 4 d) # fst (frames (drop (4 + frame_len d) d)),
     snd (frames (drop (4 + frame_len d) d)))"
  by (subst frames.simps) (auto simp: stuck_def split: prod.splits)

lemma frames_residue_stuck: "stuck (snd (frames d))"
proof (induction d rule: frames.induct)
  case (1 d)
  show ?case
  proof (cases "stuck d")
    case False
    with 1 show ?thesis by (simp add: stuck_def [symmetric] frames_step)
  qed simp
qed

text \<open>More bytes only add to the stream.\<close>

lemma frames_append:
  "frames (d @ e) = (fst (frames d) @ fst (frames (snd (frames d) @ e)), snd (frames (snd (frames d) @ e)))"
proof (induction d rule: frames.induct)
  case (1 d)
  show ?case
  proof (cases "stuck d")
    case False
    then have "\<not> stuck (d @ e)" by (auto simp: stuck_def frame_len_append)
    with False 1 show ?thesis
      by (simp add: stuck_def [symmetric] frames_step [of d] frames_step [of "d @ e"])
        (auto simp: stuck_def frame_len_append)
  qed simp
qed

text \<open>The messages a sender may put on the wire: not empty, and no longer than the limit.\<close>

definition json_ok :: "byte list \<Rightarrow> bool" where
  "json_ok json \<longleftrightarrow> json \<noteq> [] \<and> length json \<le> TLSV2_MAX_JSON_SIZE"

lemma length_json_frame [simp]: "length (json_frame json) = 4 + length json"
  by (simp add: json_frame_def)

lemma frames_cons: "json_ok m \<Longrightarrow> frames (json_frame m @ e) = (m # fst (frames e), snd (frames e))"
proof -
  assume m: "json_ok m"
  then have "frame_len (json_frame m @ e) = length m" by (simp add: json_ok_def)
  moreover from this m have "\<not> stuck (json_frame m @ e)" by (simp add: stuck_def json_ok_def)
  moreover have "take (length m) (drop 4 (json_frame m @ e)) = m" by (simp add: json_frame_def)
  ultimately show ?thesis by (simp add: frames_step)
qed

lemma frames_stream: "\<forall>m \<in> set ms. json_ok m \<Longrightarrow> frames (concat (map json_frame ms) @ e) = (ms @ fst (frames e), snd (frames e))"
  by (induction ms) (simp_all add: frames_cons)

text \<open>A piece of a frame is no message yet, and no bad header.\<close>

lemma partial_frame_stuck:
  assumes "json_ok m" "json_frame m = r @ e" "e \<noteq> []"
  shows "stuck r" "\<not> bad_header r" "length r \<le> length m + 3"
proof -
  have l: "length r < 4 + length m"
    using assms(2,3) by (metis length_append length_json_frame less_add_same_cancel1 length_greater_0_conv)
  then show "length r \<le> length m + 3" by simp
  have "frame_len r = length m" if "4 \<le> length r"
    using frame_len_append [OF that, of e] frame_len_frame [of m "[]"] assms(1,2) by (simp add: json_ok_def)
  then show "stuck r" "\<not> bad_header r"
    using l assms(1) by (auto simp: stuck_def bad_header_def json_ok_def)
qed

lemma frames_prefix:
  assumes "\<forall>m \<in> set ms. json_ok m" "concat (map json_frame ms) = p @ q"
  shows "\<exists>k r. frames p = (take k ms, r) \<and> k \<le> length ms \<and> \<not> bad_header r
     \<and> (r = [] \<or> k < length ms \<and> length r \<le> length (ms ! k) + 3)"
  using assms
proof (induction ms arbitrary: p)
  case Nil
  then show ?case by (simp add: stuck_def bad_header_def)
next
  case (Cons m ms)
  show ?case
  proof (cases "length (json_frame m) \<le> length p")
    case True
    obtain p' where p: "p = json_frame m @ p'" "concat (map json_frame ms) = p' @ q"
    proof
      have "take (length (json_frame m)) (p @ q) = json_frame m" "drop (length (json_frame m)) (p @ q) = concat (map json_frame ms)"
        unfolding Cons.prems(2) [symmetric] by simp_all
      with True show "p = json_frame m @ drop (length (json_frame m)) p"
          "concat (map json_frame ms) = drop (length (json_frame m)) p @ q"
        by (simp_all, metis append_take_drop_id)
    qed
    with Cons.IH [OF _ p(2)] Cons.prems(1) obtain k r where
      "frames p' = (take k ms, r)" "k \<le> length ms" "\<not> bad_header r"
      "r = [] \<or> k < length ms \<and> length r \<le> length (ms ! k) + 3" by auto
    then show ?thesis using Cons.prems(1) p(1)
      by (intro exI [of _ "Suc k"] exI [of _ r]) (auto simp: frames_cons)
  next
    case False
    obtain e where e: "json_frame m = p @ e" "e \<noteq> []"
    proof
      have "take (length p) (json_frame m @ concat (map json_frame ms)) = p" using Cons.prems(2) by simp
      with False show "json_frame m = p @ drop (length p) (json_frame m)"
        by (simp, metis append_take_drop_id)
      show "drop (length p) (json_frame m) \<noteq> []" using False by simp
    qed
    with partial_frame_stuck [OF _ e] Cons.prems(1) show ?thesis
      by (intro exI [of _ 0] exI [of _ p]) auto
  qed
qed

text \<open>The parser loses no byte: the frames it found and what is left make up the stream.\<close>

lemma htonl_ntohl: "4 \<le> length xs \<Longrightarrow> htonl_bytes (ntohl_bytes xs) = take 4 xs"
proof -
  assume "4 \<le> length xs"
  then have "take 4 xs = [xs ! 0, xs ! 1, xs ! 2, xs ! 3]"
    by (intro nth_equalityI) (auto simp: less_Suc_eq numeral_eq_Suc)
  moreover have "ucast (drop_bit 24 (ntohl_bytes xs)) = xs ! 0" "ucast (drop_bit 16 (ntohl_bytes xs)) = xs ! 1"
    "ucast (drop_bit 8 (ntohl_bytes xs)) = xs ! 2" "ucast (ntohl_bytes xs) = xs ! 3"
    unfolding ntohl_bytes_def by (intro bit_word_eqI; auto simp: bit_simps dest: bit_imp_le_length)+
  ultimately show ?thesis by (simp add: htonl_bytes_def)
qed

lemma frames_decompose: "concat (map json_frame (fst (frames d))) @ snd (frames d) = d"
proof (induction d rule: frames.induct)
  case (1 d)
  show ?case
  proof (cases "stuck d")
    case False
    define n where "n = frame_len d"
    have l: "4 + n \<le> length d" "n = unat (ntohl_bytes d)" using False by (auto simp: stuck_def n_def frame_len_def)
    then have "json_frame (take n (drop 4 d)) = take 4 d @ take n (drop 4 d)"
      using htonl_ntohl [of d] by (simp add: json_frame_def)
    also have "\<dots> = take (4 + n) d" by (simp add: take_add)
    finally have f: "json_frame (take n (drop 4 d)) = take (4 + n) d" .
    have "concat (map json_frame (fst (frames (drop (4 + n) d)))) @ snd (frames (drop (4 + n) d)) = drop (4 + n) d"
      using 1 False by (auto simp: stuck_def n_def)
    with False f show ?thesis by (simp add: frames_step n_def [symmetric])
  qed simp
qed

section \<open>The buffer holds the unread end of the stream\<close>

definition pending :: "inbuf \<Rightarrow> byte list" where
  "pending f = take (in_used f) (in_buf f)"

text \<open>\<open>expected_len\<close> is 0 or the length in the header that is in the buffer already.\<close>

definition inbuf_ok :: "inbuf \<Rightarrow> bool" where
  "inbuf_ok f \<longleftrightarrow> length (in_buf f) = TLSV2_MAX_JSON_SIZE + 4 \<and> in_used f \<le> TLSV2_MAX_JSON_SIZE + 4
     \<and> (expected_len f = 0 \<or> 4 \<le> in_used f \<and> expected_len f = ntohl_bytes (in_buf f)
          \<and> unat (expected_len f) \<le> TLSV2_MAX_JSON_SIZE)"

lemma length_pending [simp]: "inbuf_ok f \<Longrightarrow> length (pending f) = in_used f"
  by (simp add: pending_def inbuf_ok_def)

lemma frame_len_pending: "inbuf_ok f \<Longrightarrow> 4 \<le> in_used f \<Longrightarrow> frame_len (pending f) = unat (ntohl_bytes (in_buf f))"
  unfolding pending_def by (subst frame_len_take) (auto simp: inbuf_ok_def frame_len_def)

lemma unat_4_plus: "unat (e :: u32) \<le> TLSV2_MAX_JSON_SIZE \<Longrightarrow> unat (4 + e) = 4 + unat e"
  by (subst unat_add_lem [THEN iffD1]) (auto simp: TLSV2_MAX_JSON_SIZE_def)

lemma json_next_stuck:
  assumes "inbuf_ok f" "stuck (pending f)"
  shows "\<exists>g. json_next f = (if bad_header (pending f) then Reject g else Wait g) \<and> pending g = pending f
    \<and> (\<not> bad_header (pending f) \<longrightarrow> inbuf_ok g)"
proof (cases "in_used f < 4")
  case True
  with assms show ?thesis by (auto simp: json_next_def bad_header_def inbuf_ok_def Let_def)
next
  case False
  define n where "n = ntohl_bytes (in_buf f)"
  define g where "g = (if expected_len f = 0 then f\<lparr>expected_len := n\<rparr> else f)"
  have g: "expected_len g = n" "pending g = pending f" "in_used g = in_used f" "length (in_buf g) = length (in_buf f)"
      "in_buf g = in_buf f"
    using assms(1) by (auto simp: g_def n_def pending_def inbuf_ok_def)
  have l: "frame_len (pending f) = unat n" "length (pending f) = in_used f"
    using frame_len_pending [OF assms(1)] False assms(1) by (auto simp: n_def)
  have z: "expected_len f = 0" if "unat n > TLSV2_MAX_JSON_SIZE"
    using that assms(1) by (auto simp: inbuf_ok_def n_def)
  have eq: "json_next f = (if expected_len f = 0 \<and> unat n > TLSV2_MAX_JSON_SIZE then Reject g
      else if n > 0 \<and> in_used f \<ge> unat (4 + n) then Ready g else Wait g)"
    using False assms(1) by (auto simp: json_next_def Let_def g_def n_def inbuf_ok_def)
  show ?thesis
  proof (cases "unat n > TLSV2_MAX_JSON_SIZE")
    case True
    with z eq g l False show ?thesis by (auto simp: bad_header_def)
  next
    case 2: False
    then have nb: "\<not> bad_header (pending f)" using l by (simp add: bad_header_def)
    have "\<not> (n > 0 \<and> in_used f \<ge> unat (4 + n))"
      using assms(2) 2 False l unat_4_plus [of n] by (auto simp: stuck_def word_neq_0_conv [symmetric] unat_eq_0)
    moreover have "inbuf_ok g" using assms(1) g 2 False by (auto simp: inbuf_ok_def n_def)
    ultimately show ?thesis using eq 2 nb g by auto
  qed
qed

lemma json_next_frame:
  assumes "inbuf_ok f" "\<not> stuck (pending f)"
  defines "n \<equiv> frame_len (pending f)"
  shows "\<exists>g h. json_next f = Ready g \<and> json_take g = (h, take n (drop 4 (pending f)))
    \<and> pending h = drop (4 + n) (pending f) \<and> inbuf_ok h"
proof -
  let ?b = "in_buf f" and ?u = "in_used f"
  define g where "g = (if expected_len f = 0 then f\<lparr>expected_len := ntohl_bytes ?b\<rparr> else f)"
  have s: "4 \<le> ?u" "n \<noteq> 0" "n \<le> TLSV2_MAX_JSON_SIZE" "4 + n \<le> ?u" "?u \<le> length ?b"
    using assms(1,2) by (auto simp: stuck_def n_def inbuf_ok_def)
  have n: "n = unat (ntohl_bytes ?b)" using frame_len_pending [OF assms(1) s(1)] by (simp add: n_def)
  have g: "expected_len g = ntohl_bytes ?b" "in_used g = ?u" "in_buf g = ?b"
    using assms(1) s by (auto simp: g_def inbuf_ok_def)
  have "ntohl_bytes ?b > 0" using s(2) n by (simp add: word_gt_0 unat_eq_0)
  then have "json_next f = Ready g"
    using s n unat_4_plus [of "ntohl_bytes ?b"] assms(1) by (auto simp: json_next_def Let_def g_def inbuf_ok_def)
  moreover have "json_take g = (g\<lparr>in_buf := memcpy_at ?b 0 (take (?u - (4 + n)) (drop (4 + n) ?b)),
      in_used := ?u - (4 + n), expected_len := 0\<rparr>, take n (drop 4 (pending f)))"
    using s g n by (simp add: json_take_def Let_def pending_def drop_take)
  moreover have "take (?u - (4 + n)) (memcpy_at ?b 0 (take (?u - (4 + n)) (drop (4 + n) ?b))) = drop (4 + n) (pending f)"
    using s(4,5) by (simp add: memcpy_at_def pending_def drop_take)
  ultimately show ?thesis
    using s assms(1) by (auto simp: pending_def inbuf_ok_def)
qed

text \<open>A chunk appended to the buffer, when there is room for it.\<close>

definition json_append :: "inbuf \<Rightarrow> byte list \<Rightarrow> inbuf" where
  "json_append f chunk =
     f\<lparr>in_buf := memcpy_at (in_buf f) (in_used f) chunk, in_used := in_used f + length chunk\<rparr>"

lemma json_append_pending:
  assumes "inbuf_ok f" "in_used f + length chunk \<le> TLSV2_MAX_JSON_SIZE + 4"
  shows "pending (json_append f chunk) = pending f @ chunk" "inbuf_ok (json_append f chunk)"
proof -
  let ?b = "memcpy_at (in_buf f) (in_used f) chunk"
  have l: "in_used f \<le> length (in_buf f)" "length ?b = length (in_buf f)"
    using assms by (auto simp: inbuf_ok_def)
  show "pending (json_append f chunk) = pending f @ chunk"
    using l(1) by (simp add: pending_def json_append_def take_memcpy_at)
  have "ntohl_bytes ?b = ntohl_bytes (in_buf f)" if "4 \<le> in_used f"
    using that l by (intro ntohl_prefix) (auto simp: memcpy_at_def)
  with assms l(2) show "inbuf_ok (json_append f chunk)"
    by (auto simp: inbuf_ok_def json_append_def)
qed

text \<open>Every chunk of a sequence finds room in the buffer when its turn comes.\<close>

fun fits :: "byte list \<Rightarrow> byte list list \<Rightarrow> bool" where
  "fits d [] = True"
| "fits d (c # cs) = (length d + length c \<le> TLSV2_MAX_JSON_SIZE + 4 \<and> fits (snd (frames (d @ c))) cs)"

lemma fits_bound:
  assumes "\<forall>m \<in> set ms. json_ok m \<and> length m + 3 + K \<le> TLSV2_MAX_JSON_SIZE + 4" "K \<le> TLSV2_MAX_JSON_SIZE + 4"
    and "\<forall>c \<in> set cs. length c \<le> K" "concat (map json_frame ms) = p @ concat cs @ q"
  shows "fits (snd (frames p)) cs"
  using assms(3,4)
proof (induction cs arbitrary: p)
  case (Cons c cs)
  have "\<forall>m \<in> set ms. json_ok m" using assms(1) by simp
  from frames_prefix [OF this Cons.prems(2)] obtain k r where
    "frames p = (take k ms, r)" "r = [] \<or> k < length ms \<and> length r \<le> length (ms ! k) + 3" by auto
  then have "length (snd (frames p)) + K \<le> TLSV2_MAX_JSON_SIZE + 4"
  proof (cases "r = []")
    case False
    with \<open>r = [] \<or> _\<close> have "length r \<le> length (ms ! k) + 3" "ms ! k \<in> set ms" by auto
    moreover from this(2) assms(1) have "length (ms ! k) + 3 + K \<le> TLSV2_MAX_JSON_SIZE + 4" by blast
    ultimately show ?thesis using \<open>frames p = _\<close> by simp
  qed (use assms(2) in simp)
  moreover have "fits (snd (frames (p @ c))) cs" using Cons by simp
  ultimately show ?case using Cons.prems(1) by (simp add: frames_append [of p c])
qed simp

section \<open>The out buffer\<close>

definition outbuf_ok :: "outbuf \<Rightarrow> bool" where
  "outbuf_ok f \<longleftrightarrow> length (out_buf f) = TLSV2_MAX_JSON_SIZE + 4 \<and> out_sent f \<le> out_used f
     \<and> out_used f \<le> TLSV2_MAX_JSON_SIZE + 4"

text \<open>The bytes of the queued message that have not been handed on.\<close>

definition unsent :: "outbuf \<Rightarrow> byte list" where
  "unsent f = take (out_used f - out_sent f) (drop (out_sent f) (out_buf f))"

lemma length_unsent: "outbuf_ok f \<Longrightarrow> length (unsent f) = out_used f - out_sent f"
  by (auto simp: unsent_def outbuf_ok_def)

lemma json_put_idle:
  assumes "outbuf_ok f" "out_used f = out_sent f" "length json \<le> TLSV2_MAX_JSON_SIZE"
  shows "\<exists>g. json_put f json = (g, 0) \<and> unsent g = json_frame json \<and> outbuf_ok g"
  using assms
  by (auto simp: json_put_def unsent_def json_frame_def outbuf_ok_def memcpy_at_def)

lemma json_put_ok: "outbuf_ok f \<Longrightarrow> length json \<le> TLSV2_MAX_JSON_SIZE \<Longrightarrow> outbuf_ok (fst (json_put f json))"
  using json_put_idle [of f json] by (cases "out_used f = out_sent f") (auto simp: json_put_def)

section \<open>Receive loops\<close>

text \<open>
  A receive loop in a larger state: \<open>get\<close> and \<open>put\<close> access the framing fields of the connection,
  \<open>emit\<close> is the delivery of one message to the application, which may do anything to the state but
  touch these fields, and \<open>loop\<close> is the inner receive loop.
\<close>

locale json_receiver =
  fixes get :: "'s \<Rightarrow> inbuf"
    and put :: "inbuf \<Rightarrow> 's \<Rightarrow> 's"
    and emit :: "'s \<Rightarrow> byte list \<Rightarrow> 's"
    and loop :: "'s \<Rightarrow> ('s \<times> int) option"
    and valid :: "'s \<Rightarrow> bool"
  assumes get_put: "valid s \<Longrightarrow> get (put f s) = f"
    and put_get: "valid s \<Longrightarrow> put (get s) s = s"
    and put_put: "put f (put g s) = put f s"
    and get_emit: "valid s \<Longrightarrow> get (emit s m) = get s"
    and put_emit: "valid s \<Longrightarrow> put f (emit s m) = emit (put f s) m"
    and valid_put: "valid s \<Longrightarrow> valid (put f s)"
    and valid_emit: "valid s \<Longrightarrow> valid (emit s m)"
    and loop_eq: "valid s \<Longrightarrow> loop s = (case json_next (get s) of
        Wait f \<Rightarrow> Some (put f s, 0)
      | Reject f \<Rightarrow> Some (put f s, -1)
      | Ready f \<Rightarrow> (let (f', json) = json_take f in loop (emit (put f' s) json)))"
begin

text \<open>Appending a chunk and running the loop, for one chunk and for a sequence of chunks.\<close>

definition feed :: "'s \<Rightarrow> byte list \<Rightarrow> ('s \<times> int) option" where
  "feed s chunk =
     (let f = get s
      in if in_used f + length chunk > TLSV2_MAX_JSON_SIZE + 4 then Some (s, -1)
         else loop (put (json_append f chunk) s))"

fun feed_all :: "'s \<Rightarrow> byte list list \<Rightarrow> ('s \<times> int) option" where
  "feed_all s [] = Some (s, 0)"
| "feed_all s (c # cs) = (case feed s c of
     None \<Rightarrow> None | Some (s', r) \<Rightarrow> if r < 0 then Some (s', r) else feed_all s' cs)"

lemma valid_foldl [simp]: "valid s \<Longrightarrow> valid (foldl emit s ms)"
  by (induction ms arbitrary: s) (auto simp: valid_emit)

lemma get_foldl: "valid s \<Longrightarrow> get (foldl emit s ms) = get s"
  by (induction ms arbitrary: s) (auto simp: get_emit valid_emit)

lemma put_foldl: "valid s \<Longrightarrow> put f (foldl emit s ms) = foldl emit (put f s) ms"
  by (induction ms arbitrary: s) (auto simp: put_emit valid_emit)

theorem loop_frames:
  assumes "valid s" "inbuf_ok (get s)"
  shows "\<exists>f. loop s = Some (put f (foldl emit s (fst (frames (pending (get s))))),
      if bad_header (snd (frames (pending (get s)))) then -1 else 0)
    \<and> pending f = snd (frames (pending (get s))) \<and> (\<not> bad_header (pending f) \<longrightarrow> inbuf_ok f)"
  using assms
proof (induction "length (pending (get s))" arbitrary: s rule: less_induct)
  case less
  let ?d = "pending (get s)"
  show ?case
  proof (cases "stuck ?d")
    case True
    with json_next_stuck [OF less.prems(2)] loop_eq [OF less.prems(1)] show ?thesis by fastforce
  next
    case False
    define n where "n = frame_len ?d"
    from json_next_frame [OF less.prems(2) False] obtain g h where
      j: "json_next (get s) = Ready g" "json_take g = (h, take n (drop 4 ?d))" "pending h = drop (4 + n) ?d" "inbuf_ok h"
      by (auto simp: n_def)
    define t where "t = emit (put h s) (take n (drop 4 ?d))"
    have t: "loop s = loop t" "valid t" "get t = h"
      using loop_eq [OF less.prems(1)] j less.prems(1)
      by (simp_all add: t_def valid_emit valid_put get_emit get_put)
    have "length (pending (get t)) < length ?d" using False t(3) j(3) by (auto simp: stuck_def)
    from less.hyps [OF this t(2), unfolded t(3), OF j(4), unfolded j(3)] obtain f where
      f: "loop t = Some (put f (foldl emit t (fst (frames (drop (4 + n) ?d)))),
          if bad_header (snd (frames (drop (4 + n) ?d))) then -1 else 0)"
        "pending f = snd (frames (drop (4 + n) ?d))" "\<not> bad_header (pending f) \<longrightarrow> inbuf_ok f" by blast
    have "put f (foldl emit t ms) = put f (foldl emit s (take n (drop 4 ?d) # ms))" for ms
      using less.prems(1) t(2) by (simp add: t_def put_foldl put_emit valid_put valid_emit put_put)
    with f t(1) frames_step [OF False, folded n_def] show ?thesis by auto
  qed
qed

lemma feed_frames:
  assumes "valid s" "inbuf_ok (get s)" "in_used (get s) + length c \<le> TLSV2_MAX_JSON_SIZE + 4"
  defines "d \<equiv> pending (get s) @ c"
  shows "\<exists>f. feed s c = Some (put f (foldl emit s (fst (frames d))), if bad_header (snd (frames d)) then -1 else 0)
    \<and> pending f = snd (frames d) \<and> (\<not> bad_header (pending f) \<longrightarrow> inbuf_ok f)"
proof -
  define t where "t = put (json_append (get s) c) s"
  have t: "valid t" "get t = json_append (get s) c" using assms(1) by (auto simp: t_def valid_put get_put)
  note a = json_append_pending [OF assms(2,3)]
  from loop_frames [OF t(1), unfolded t(2), OF a(2), unfolded a(1), folded d_def] obtain f where
    f: "loop t = Some (put f (foldl emit t (fst (frames d))), if bad_header (snd (frames d)) then -1 else 0)"
      "pending f = snd (frames d)" "\<not> bad_header (pending f) \<longrightarrow> inbuf_ok f" by blast
  have "put f (foldl emit t ms) = put f (foldl emit s ms)" for ms
    using assms(1) t(1) by (simp add: put_foldl) (simp add: t_def put_put)
  with f assms(3) show ?thesis by (auto simp: feed_def Let_def t_def)
qed

theorem feed_all_frames:
  assumes "valid s" "inbuf_ok (get s)" "fits (pending (get s)) cs"
    and "\<And>xs ys. cs = xs @ ys \<Longrightarrow> \<not> bad_header (snd (frames (pending (get s) @ concat xs)))"
  shows "\<exists>f. feed_all s cs = Some (put f (foldl emit s (fst (frames (pending (get s) @ concat cs)))), 0)
    \<and> pending f = snd (frames (pending (get s) @ concat cs)) \<and> inbuf_ok f \<or> cs = []"
  using assms
proof (induction cs arbitrary: s)
  case (Cons c cs)
  define d where "d = pending (get s) @ c"
  from feed_frames [OF Cons.prems(1,2), of c] Cons.prems(2,3) obtain f where
    f: "feed s c = Some (put f (foldl emit s (fst (frames d))), if bad_header (snd (frames d)) then -1 else 0)"
      "pending f = snd (frames d)" "\<not> bad_header (pending f) \<longrightarrow> inbuf_ok f"
    unfolding d_def by fastforce
  have nb: "\<not> bad_header (snd (frames d))" using Cons.prems(4) [of "[c]" cs] by (simp add: d_def)
  define t where "t = put f (foldl emit s (fst (frames d)))"
  have t: "valid t" "get t = f" using Cons.prems(1) by (simp_all add: t_def valid_put get_put)
  have step: "feed_all s (c # cs) = feed_all t cs" using f(1) nb by (simp add: t_def)
  show ?case
  proof (cases "cs = []")
    case True
    with step f nb show ?thesis by (auto simp: t_def d_def)
  next
    case False
    have "fits (pending (get t)) cs" using Cons.prems(3) f(2) t(2) by (simp add: d_def)
    moreover have "\<not> bad_header (snd (frames (pending (get t) @ concat xs)))" if "cs = xs @ ys" for xs ys
      using Cons.prems(4) [of "c # xs" ys] that f(2) t(2) frames_append [of d "concat xs"] by (simp add: d_def)
    ultimately obtain g where
      g: "feed_all t cs = Some (put g (foldl emit t (fst (frames (snd (frames d) @ concat cs)))), 0)"
        "pending g = snd (frames (snd (frames d) @ concat cs))" "inbuf_ok g"
      using Cons.IH [OF t(1)] t(2) f(2,3) nb False by auto
    have "put g (foldl emit t ms) = put g (foldl emit s (fst (frames d) @ ms))" for ms
      using Cons.prems(1) t(1) by (simp add: t_def put_foldl valid_put put_put)
    with g step frames_append [of d "concat cs"] show ?thesis by (auto simp: d_def)
  qed
qed simp

text \<open>
  However a stream of messages is cut into chunks, as long as each chunk finds room, the messages
  are delivered exactly once each and in order, and nothing is left over.
\<close>

theorem segmentation:
  assumes "valid s" "inbuf_ok (get s)" "pending (get s) = []" "\<forall>m \<in> set ms. json_ok m"
    and "concat cs = concat (map json_frame ms)" "fits [] cs"
  shows "\<exists>f. feed_all s cs = Some (put f (foldl emit s ms), 0) \<and> pending f = [] \<and> inbuf_ok f"
proof (cases "cs = []")
  case True
  then have "ms = []" using assms(5) by (cases ms) (auto simp: json_frame_def htonl_bytes_def)
  with True assms put_get [OF assms(1)] show ?thesis by (metis feed_all.simps(1) foldl_Nil)
next
  case False
  have fr: "frames (concat cs) = (ms, [])" using frames_stream [OF assms(4), of "[]"] assms(5) by (simp add: stuck_def)
  have "\<not> bad_header (snd (frames (concat xs)))" if "cs = xs @ ys" for xs ys
    using frames_prefix [OF assms(4), of "concat xs" "concat ys"] assms(5) that by auto
  from feed_all_frames [OF assms(1,2), of cs, unfolded assms(3)] assms(6) this False fr
  show ?thesis by auto
qed

end

end
