(* ===== verification/Os.thy ===== *)
theory Os
  imports Prelude
begin

text \<open>
  The operating system as the wrappers use it. The system calls and the C library's file calls are
  fields of the record \<open>os\<close>, functions over an opaque world \<open>'w\<close> that return a value or an error
  number; \<open>sys\<close> pairs the world with the thread's \<open>errno\<close>, which a call sets when it fails and
  leaves alone when it succeeds. On top of it, the socket helpers of \<open>tls_wrapper_v3.c\<close> for POSIX
  systems, statement by statement, and the DER file loader.
\<close>

section \<open>System calls\<close>

datatype 'a sysres = Done 'a | Fail int

record 'w sys =
  world :: 'w
  errno :: int

record 'w os =
  sys_socket :: "'w \<Rightarrow> 'w \<times> int sysres"
  sys_setsockopt :: "int \<Rightarrow> 'w \<Rightarrow> 'w \<times> unit sysres"
  sys_bind :: "int \<Rightarrow> nat \<Rightarrow> 'w \<Rightarrow> 'w \<times> unit sysres"
  sys_listen :: "int \<Rightarrow> nat \<Rightarrow> 'w \<Rightarrow> 'w \<times> unit sysres"
  sys_accept :: "int \<Rightarrow> 'w \<Rightarrow> 'w \<times> int sysres"
  sys_connect :: "int \<Rightarrow> u32 \<Rightarrow> nat \<Rightarrow> 'w \<Rightarrow> 'w \<times> unit sysres"
  sys_getfl :: "int \<Rightarrow> 'w \<Rightarrow> 'w \<times> u32 sysres"
  sys_setfl :: "int \<Rightarrow> u32 \<Rightarrow> 'w \<Rightarrow> 'w \<times> unit sysres"
  sys_read :: "int \<Rightarrow> nat \<Rightarrow> 'w \<Rightarrow> 'w \<times> byte list sysres"
  sys_write :: "int \<Rightarrow> byte list \<Rightarrow> 'w \<Rightarrow> 'w \<times> nat sysres"
  sys_close :: "int \<Rightarrow> 'w \<Rightarrow> 'w"
  sys_select :: "int list \<Rightarrow> int list \<Rightarrow> 'w \<Rightarrow> 'w \<times> (int list \<times> int list) sysres"
  inet_pton :: "string \<Rightarrow> u32 option"
  c_malloc :: "nat \<Rightarrow> 'w \<Rightarrow> 'w \<times> bool"
  c_fopen :: "string \<Rightarrow> 'w \<Rightarrow> 'w \<times> nat option"
  c_fseek_end :: "nat \<Rightarrow> 'w \<Rightarrow> 'w \<times> bool"
  c_ftell :: "nat \<Rightarrow> 'w \<Rightarrow> 'w \<times> int"
  c_fseek_set :: "nat \<Rightarrow> 'w \<Rightarrow> 'w \<times> bool"
  c_fread :: "nat \<Rightarrow> nat \<Rightarrow> 'w \<Rightarrow> 'w \<times> byte list"
  c_fclose :: "nat \<Rightarrow> 'w \<Rightarrow> 'w"

definition EAGAIN :: int where "EAGAIN = 11"
definition EWOULDBLOCK :: int where "EWOULDBLOCK = 11"
definition EINPROGRESS :: int where "EINPROGRESS = 115"
definition EINTR :: int where "EINTR = 4"
definition O_NONBLOCK :: u32 where "O_NONBLOCK = 0x800"
definition GFNS_INVALID_SOCK :: int where "GFNS_INVALID_SOCK = -1"

text \<open>A call through the library: \<open>errno\<close> is set exactly when the call fails.\<close>

definition syscall :: "('w \<Rightarrow> 'w \<times> 'a sysres) \<Rightarrow> 'w sys \<Rightarrow> 'w sys \<times> 'a option" where
  "syscall f s =
     (case f (world s) of
        (w, Done a) \<Rightarrow> (s\<lparr>world := w\<rparr>, Some a)
      | (w, Fail e) \<Rightarrow> (s\<lparr>world := w, errno := e\<rparr>, None))"

definition gfns_close_socket :: "'w os \<Rightarrow> int \<Rightarrow> 'w sys \<Rightarrow> 'w sys" where
  "gfns_close_socket os fd s = s\<lparr>world := sys_close os fd (world s)\<rparr>"

section \<open>Socket helpers\<close>

definition gfns_set_nonblocking :: "'w os \<Rightarrow> int \<Rightarrow> 'w sys \<Rightarrow> 'w sys \<times> int" where
  "gfns_set_nonblocking os fd s =
     (let (s, flags) = syscall (sys_getfl os fd) s
      in case flags of
           None \<Rightarrow> (s, -1)
         | Some flags \<Rightarrow>
             (let (s, r) = syscall (sys_setfl os fd (or flags O_NONBLOCK)) s
              in if r = None then (s, -1) else (s, 0)))"

text \<open>Both callbacks turn a result of 0 into -1, without touching \<open>errno\<close>.\<close>

definition tls_low_read :: "'w os \<Rightarrow> int \<Rightarrow> nat \<Rightarrow> 'w sys \<Rightarrow> 'w sys \<times> byte list option" where
  "tls_low_read os fd len s =
     (let (s, r) = syscall (sys_read os fd len) s
      in case r of None \<Rightarrow> (s, None) | Some bs \<Rightarrow> (s, if bs = [] then None else Some bs))"

definition tls_low_write :: "'w os \<Rightarrow> int \<Rightarrow> byte list \<Rightarrow> 'w sys \<Rightarrow> 'w sys \<times> nat option" where
  "tls_low_write os fd bs s =
     (let (s, r) = syscall (sys_write os fd bs) s
      in case r of None \<Rightarrow> (s, None) | Some n \<Rightarrow> (s, if n = 0 then None else Some n))"

definition gfns_would_block :: "'w sys \<Rightarrow> bool" where
  "gfns_would_block s \<longleftrightarrow> errno s = EAGAIN \<or> errno s = EWOULDBLOCK"

text \<open>\<open>htons((uint16_t)port)\<close>: the port number is cut to 16 bits.\<close>

definition gfns_create_listen_socket :: "'w os \<Rightarrow> int \<Rightarrow> 'w sys \<Rightarrow> 'w sys \<times> int" where
  "gfns_create_listen_socket os port s =
     (let (s, r) = syscall (sys_socket os) s
      in case r of
           None \<Rightarrow> (s, GFNS_INVALID_SOCK)
         | Some fd \<Rightarrow>
             (let (s, _) = syscall (sys_setsockopt os fd) s;
                  (s, b) = syscall (sys_bind os fd (nat (port mod 2 ^ 16))) s
              in if b = None then (gfns_close_socket os fd s, GFNS_INVALID_SOCK)
                 else let (s, l) = syscall (sys_listen os fd 16) s
                      in if l = None then (gfns_close_socket os fd s, GFNS_INVALID_SOCK)
                         else let (s, n) = gfns_set_nonblocking os fd s
                              in if n < 0 then (gfns_close_socket os fd s, GFNS_INVALID_SOCK)
                                 else (s, fd)))"

definition gfns_connect_blocking :: "'w os \<Rightarrow> string \<Rightarrow> int \<Rightarrow> 'w sys \<Rightarrow> 'w sys \<times> int" where
  "gfns_connect_blocking os host port s =
     (let (s, r) = syscall (sys_socket os) s
      in case r of
           None \<Rightarrow> (s, GFNS_INVALID_SOCK)
         | Some fd \<Rightarrow>
             (case inet_pton os host of
                None \<Rightarrow> (gfns_close_socket os fd s, GFNS_INVALID_SOCK)
              | Some addr \<Rightarrow>
                  (let (s, c) = syscall (sys_connect os fd addr (nat (port mod 2 ^ 16))) s
                   in if c = None \<and> errno s \<noteq> EINPROGRESS
                      then (gfns_close_socket os fd s, GFNS_INVALID_SOCK)
                      else (s, fd))))"

section \<open>Loading DER files\<close>

definition load_der :: "'w os \<Rightarrow> string \<Rightarrow> 'w \<Rightarrow> 'w \<times> byte list option" where
  "load_der os path w =
     (let (w, f) = c_fopen os path w
      in case f of
           None \<Rightarrow> (w, None)
         | Some f \<Rightarrow>
             (let (w, ok) = c_fseek_end os f w
              in if \<not> ok then (c_fclose os f w, None)
                 else let (w, sz) = c_ftell os f w
                      in if sz \<le> 0 then (c_fclose os f w, None)
                         else let (w, ok) = c_fseek_set os f w
                              in if \<not> ok then (c_fclose os f w, None)
                                 else let (w, ok) = c_malloc os (nat sz) w
                                      in if \<not> ok then (c_fclose os f w, None)
                                         else let (w, buf) = c_fread os f (nat sz) w
                                              in if length buf \<noteq> nat sz then (c_fclose os f w, None)
                                                 else (c_fclose os f w, Some buf)))"

definition load_certificate_der :: "'w os \<Rightarrow> string \<Rightarrow> 'w \<Rightarrow> 'w \<times> byte list list option" where
  "load_certificate_der os path w =
     (let (w, der) = load_der os path w
      in case der of
           None \<Rightarrow> (w, None)
         | Some der \<Rightarrow>
             (let (w, ok) = c_malloc os 16 w
              in if \<not> ok then (w, None) else (w, Some [der])))"

text \<open>\<open>decode\<close> is BearSSL's private-key decoder: an RSA key, or nothing when the bytes are not one.\<close>

definition load_rsa_key_der :: "'w os \<Rightarrow> (byte list \<Rightarrow> 'k option) \<Rightarrow> string \<Rightarrow> 'w \<Rightarrow> 'w \<times> 'k option" where
  "load_rsa_key_der os decode path w =
     (let (w, der) = load_der os path w
      in case der of None \<Rightarrow> (w, None) | Some der \<Rightarrow> (w, decode der))"

section \<open>Lemmas\<close>

lemma low_read_nonempty: "tls_low_read os fd len s = (s', Some bs) \<Longrightarrow> bs \<noteq> []"
  by (auto simp: tls_low_read_def syscall_def split: sysres.splits prod.splits if_splits)

text \<open>At end of file the callback fails and \<open>errno\<close> keeps whatever an earlier call left there.\<close>

lemma low_read_eof:
  "sys_read os fd len (world s) = (w, Done []) \<Longrightarrow> tls_low_read os fd len s = (s\<lparr>world := w\<rparr>, None)"
  by (simp add: tls_low_read_def syscall_def)

end
