(* ===== verification/Server_App.thy ===== *)
theory Server_App
  imports Prelude
begin

text \<open>
  What the two JSON servers share: the states of a client slot, the configuration with the
  callbacks of the application, and the search of a table for a slot. A callback is an interactive
  computation: it ends with a new application state, or asks for a \<open>tlsv2_send_json\<close> and goes on
  with its return value.
\<close>

datatype client_state = TLSV2_STATE_UNUSED | TLSV2_STATE_HANDSHAKE | TLSV2_STATE_OPEN | TLSV2_STATE_CLOSING

datatype 'a act = Return 'a | Send int "byte list" "int \<Rightarrow> 'a act"

record 'a config =
  port :: int
  cert_file :: "string option"
  key_file :: "string option"
  on_client_connected :: "(int \<Rightarrow> 'a \<Rightarrow> 'a act) option"
  on_client_disconnected :: "(int \<Rightarrow> 'a \<Rightarrow> 'a act) option"
  on_json_received :: "(int \<Rightarrow> byte list \<Rightarrow> 'a \<Rightarrow> 'a act) option"

text \<open>A \<open>for\<close> loop over the table that returns at the first slot it looks for.\<close>

fun first_slot :: "('x \<Rightarrow> bool) \<Rightarrow> 'x list \<Rightarrow> nat \<Rightarrow> nat option" where
  "first_slot p [] i = None"
| "first_slot p (x # xs) i = (if p x then Some i else first_slot p xs (i + 1))"

lemma first_slot_Some:
  "first_slot p xs i = Some j \<Longrightarrow> i \<le> j \<and> j < i + length xs \<and> p (xs ! (j - i)) \<and> (\<forall>k < j - i. \<not> p (xs ! k))"
proof (induction xs arbitrary: i)
  case (Cons x xs)
  show ?case
  proof (cases "p x")
    case False
    with Cons.prems have j: "first_slot p xs (i + 1) = Some j" by simp
    note h = Cons.IH [OF this]
    then have "j - i = Suc (j - (i + 1))" by linarith
    with h False show ?thesis by (auto simp: less_Suc_eq_0_disj)
  qed (use Cons.prems in auto)
qed simp

lemma first_slot_None: "first_slot p xs i = None \<longleftrightarrow> (\<forall>x \<in> set xs. \<not> p x)"
  by (induction xs arbitrary: i) auto

lemma first_slot_cong: "map p xs = map q ys \<Longrightarrow> first_slot p xs i = first_slot q ys i"
proof (induction xs arbitrary: ys i)
  case (Cons x xs)
  then show ?case by (cases ys) auto
qed simp

section \<open>Running a callback\<close>

text \<open>
  A server in whose state \<open>'s\<close> callbacks run: they reach the state through the server's own
  \<open>send\<close> only, and leave their own new state with \<open>setapp\<close>. Whatever \<open>send\<close> keeps, a callback keeps.
\<close>

locale app_runner =
  fixes run :: "'a act \<Rightarrow> 's \<Rightarrow> 's"
    and setapp :: "'a \<Rightarrow> 's \<Rightarrow> 's"
    and send :: "'s \<Rightarrow> int \<Rightarrow> byte list \<Rightarrow> 's \<times> int"
  assumes run_Return: "run (Return a) s = setapp a s"
    and run_Send: "run (Send client_id json k) s = (let (s, r) = send s client_id json in run (k r) s)"
begin

lemma run_rel:
  assumes "\<And>s. R s s" "\<And>s t u. R s t \<Longrightarrow> R t u \<Longrightarrow> R s u"
    and "\<And>s client_id json t r. send s client_id json = (t, r) \<Longrightarrow> R s t" "\<And>s b. R s (setapp b s)"
  shows "R s (run a s)"
proof (induction a arbitrary: s)
  case (Send client_id json k)
  obtain t r where t: "send s client_id json = (t, r)" by fastforce
  have "R s (run (k r) t)" by (rule assms(2) [OF assms(3) [OF t] Send.IH [OF rangeI]])
  with t show ?case by (simp add: run_Send)
qed (simp add: run_Return assms(4))

lemma run_inv:
  assumes "\<And>s client_id json t r. P s \<Longrightarrow> send s client_id json = (t, r) \<Longrightarrow> P t" "\<And>s b. P s \<Longrightarrow> P (setapp b s)" "P s"
  shows "P (run a s)"
  using run_rel [of "\<lambda>s t. P s \<longrightarrow> P t" s a] assms by blast

text \<open>An update that \<open>send\<close> neither reads nor writes commutes with a callback.\<close>

lemma run_commute:
  assumes "\<And>s client_id json. send (U s) client_id json = (U (fst (send s client_id json)), snd (send s client_id json))"
    and "\<And>s b. setapp b (U s) = U (setapp b s)"
  shows "run a (U s) = U (run a s)"
proof (induction a arbitrary: s)
  case (Send client_id json k)
  from Send.IH [OF rangeI] show ?case by (simp add: run_Send assms(1) split: prod.splits)
qed (simp add: run_Return assms(2))

end

end
