(* ===== verification/Tls_V3_Server.thy ===== *)
theory Tls_V3_Server
  imports Ssl_Context Json_Frame Os Server_App
begin

text \<open>
  The server half of \<open>tls_wrapper_v3.c\<close> on POSIX systems: the client table, accepting and closing,
  pumping the BearSSL engine of each client, the JSON framing over it, and the select loop. The
  globals are the record \<open>server\<close>; a handler that the C code gives a pointer into \<open>g_clients\<close> gets
  the index of the slot. The configuration and the callbacks are those of \<open>Server_App\<close>.
\<close>

unbundle bit_operations_syntax

section \<open>Types and globals\<close>

definition TLSV2_MAX_CLIENTS :: nat where "TLSV2_MAX_CLIENTS = 64"
definition TLSV2_IOBUF_SIZE :: nat where "TLSV2_IOBUF_SIZE = 16 * 1024"
definition TLSV2_PLAINTEXT_SIZE :: nat where "TLSV2_PLAINTEXT_SIZE = 70 * 1024"

text \<open>
  \<open>iobuf\<close> and \<open>plainbuf\<close> are the first and second block of the engine's memory, one after the
  other as in the C structure.
\<close>

definition iobuf_addr :: addr where "iobuf_addr = 4096"
definition plainbuf_addr :: addr where "plainbuf_addr = iobuf_addr + TLSV2_IOBUF_SIZE"

record ('c, 'r, 'k) client =
  fd :: int
  sc :: "('c, 'r, 'k) ssl_context"
  certs :: "byte list list"
  skey :: 'k
  state :: client_state
  inb :: inbuf
  outb :: outbuf

record ('c, 'r, 'k, 'w, 'a) server =
  g_clients :: "('c, 'r, 'k) client list"
  g_cfg :: "'a config"
  g_listen_fd :: int
  g_certs :: "byte list list"
  g_skey :: 'k
  app :: 'a
  sys :: "'w sys"

text \<open>
  The code of the engine that the handlers call: handshake processor, random generator, default
  implementations, key decoder, and the state of a zeroed T0 processor and generator.
\<close>

record ('c, 'r, 'k) tls_env =
  hsrun_of :: "('c, 'r) hsrun"
  hsinit_of :: "'c \<Rightarrow> 'c"
  rngops_of :: "'r rng_ops"
  impls_of :: impls
  decode_of :: "byte list \<Rightarrow> 'k option"
  cpu0 :: 'c
  rng0 :: 'r

definition upd_client :: "nat \<Rightarrow> (('c, 'r, 'k) client \<Rightarrow> ('c, 'r, 'k) client)
    \<Rightarrow> ('c, 'r, 'k, 'w, 'a) server \<Rightarrow> ('c, 'r, 'k, 'w, 'a) server" where
  "upd_client i f s = s\<lparr>g_clients := (g_clients s)[i := f (g_clients s ! i)]\<rparr>"

section \<open>Sending a message\<close>

definition client_matches :: "int \<Rightarrow> ('c, 'r, 'k) client \<Rightarrow> bool" where
  "client_matches client_id c \<longleftrightarrow> state c \<noteq> TLSV2_STATE_UNUSED \<and> fd c = client_id"

definition tlsv2_send_json ::
    "('c, 'r, 'k, 'w, 'a) server \<Rightarrow> int \<Rightarrow> byte list \<Rightarrow> ('c, 'r, 'k, 'w, 'a) server \<times> int" where
  "tlsv2_send_json s client_id json =
     (if length json > TLSV2_MAX_JSON_SIZE then (s, -1)
      else case first_slot (client_matches client_id) (g_clients s) 0 of
             None \<Rightarrow> (s, -1)
           | Some i \<Rightarrow>
               (let (f, r) = json_put (outb (g_clients s ! i)) json
                in (upd_client i (outb_update (\<lambda>_. f)) s, r)))"

primrec run_act :: "'a act \<Rightarrow> ('c, 'r, 'k, 'w, 'a) server \<Rightarrow> ('c, 'r, 'k, 'w, 'a) server" where
  "run_act (Return a) = (\<lambda>s. s\<lparr>app := a\<rparr>)"
| "run_act (Send client_id json k) =
     (\<lambda>s. let (s, r) = tlsv2_send_json s client_id json in run_act (k r) s)"

section \<open>The client table\<close>

definition tlsv2_clients_init :: "('c, 'r, 'k, 'w, 'a) server \<Rightarrow> ('c, 'r, 'k, 'w, 'a) server" where
  "tlsv2_clients_init s = s\<lparr>g_clients := map (\<lambda>c. c\<lparr>fd := GFNS_INVALID_SOCK, state := TLSV2_STATE_UNUSED,
     inb := (inb c)\<lparr>in_used := 0, expected_len := 0\<rparr>, outb := (outb c)\<lparr>out_used := 0, out_sent := 0\<rparr>,
     certs := []\<rparr>) (g_clients s)\<rparr>"

text \<open>What \<open>tlsv2_client_alloc\<close> does with the slot it found.\<close>

definition client_setup ::
    "('c, 'r, 'k) tls_env \<Rightarrow> ('c, 'r, 'k) client \<Rightarrow> int \<Rightarrow> byte list list \<Rightarrow> 'k \<Rightarrow> ('c, 'r, 'k) client option" where
  "client_setup env c cfd certs' key =
     (let c = c\<lparr>fd := cfd, state := TLSV2_STATE_HANDSHAKE, certs := certs', skey := key,
              inb := (inb c)\<lparr>in_used := 0, expected_len := 0\<rparr>, outb := (outb c)\<lparr>out_used := 0, out_sent := 0\<rparr>\<rparr>;
          ctx = br_ssl_server_init_full_rsa (impls_of env) (cpu0 env) (rng0 env) (mem (eng (sc c))) certs' key;
          ctx = ctx\<lparr>eng := br_ssl_engine_set_buffers_bidi (eng ctx) (Some iobuf_addr) TLSV2_IOBUF_SIZE
                  (Some plainbuf_addr) TLSV2_PLAINTEXT_SIZE\<rparr>
      in map_option (\<lambda>(ctx, _). c\<lparr>sc := ctx\<rparr>)
           (br_ssl_server_reset (rngops_of env) (hsinit_of env) (hsrun_of env) ctx))"

definition tlsv2_client_alloc ::
    "('c, 'r, 'k) tls_env \<Rightarrow> ('c, 'r, 'k, 'w, 'a) server \<Rightarrow> int \<Rightarrow> byte list list \<Rightarrow> 'k
       \<Rightarrow> (('c, 'r, 'k, 'w, 'a) server \<times> nat option) option" where
  "tlsv2_client_alloc env s cfd certs' key =
     (case first_slot (\<lambda>c. state c = TLSV2_STATE_UNUSED) (g_clients s) 0 of
        None \<Rightarrow> Some (s, None)
      | Some i \<Rightarrow> map_option (\<lambda>c. (upd_client i (\<lambda>_. c) s, Some i))
                   (client_setup env (g_clients s ! i) cfd certs' key))"

definition tlsv2_client_close ::
    "'w os \<Rightarrow> ('c, 'r, 'k, 'w, 'a) server \<Rightarrow> nat \<Rightarrow> ('c, 'r, 'k, 'w, 'a) server" where
  "tlsv2_client_close os s i =
     (let c = g_clients s ! i
      in if state c = TLSV2_STATE_UNUSED then s
         else let cfd = fd c;
                  s = (if cfd \<noteq> GFNS_INVALID_SOCK then s\<lparr>sys := gfns_close_socket os cfd (sys s)\<rparr> else s);
                  s = upd_client i (\<lambda>c. c\<lparr>fd := GFNS_INVALID_SOCK, state := TLSV2_STATE_UNUSED\<rparr>) s
              in case on_client_disconnected (g_cfg s) of
                   None \<Rightarrow> s
                 | Some cb \<Rightarrow> if cfd \<noteq> GFNS_INVALID_SOCK then run_act (cb cfd (app s)) s else s)"

text \<open>The accept loop ends when \<open>accept\<close> fails; both branches of the C test are \<open>break\<close>.\<close>

partial_function (option) tlsv2_accept_new_client ::
    "'w os \<Rightarrow> ('c, 'r, 'k) tls_env \<Rightarrow> ('c, 'r, 'k, 'w, 'a) server \<Rightarrow> byte list list \<Rightarrow> 'k
       \<Rightarrow> ('c, 'r, 'k, 'w, 'a) server option" where
  "tlsv2_accept_new_client os env s certs' key =
     (case syscall (sys_accept os (g_listen_fd s)) (sys s) of (y, r) \<Rightarrow>
        let s = s\<lparr>sys := y\<rparr>
        in case r of
             None \<Rightarrow> Some s
           | Some cfd \<Rightarrow>
               (case gfns_set_nonblocking os cfd (sys s) of (y, n) \<Rightarrow>
                  let s = s\<lparr>sys := y\<rparr>
                  in if n < 0
                     then tlsv2_accept_new_client os env (s\<lparr>sys := gfns_close_socket os cfd (sys s)\<rparr>) certs' key
                     else Option.bind (tlsv2_client_alloc env s cfd certs' key) (\<lambda>(s, c).
                       if c = None
                       then tlsv2_accept_new_client os env (s\<lparr>sys := gfns_close_socket os cfd (sys s)\<rparr>) certs' key
                       else tlsv2_accept_new_client os env
                              (case on_client_connected (g_cfg s) of
                                 None \<Rightarrow> s | Some cb \<Rightarrow> run_act (cb cfd (app s)) s) certs' key)))"

section \<open>Pumping the engine\<close>

definition set_eng :: "('c, 'r, 'k) client \<Rightarrow> ('c, 'r) engine \<Rightarrow> ('c, 'r, 'k) client" where
  "set_eng c e = c\<lparr>sc := (sc c)\<lparr>eng := e\<rparr>\<rparr>"

text \<open>The engine of a client and the system, the only parts of the state the two pumps touch.\<close>

partial_function (option) tlsv2_engine_recv ::
    "'w os \<Rightarrow> ('c, 'r) hsrun \<Rightarrow> int \<Rightarrow> ('c, 'r) engine \<Rightarrow> 'w sys \<Rightarrow> (('c, 'r) engine \<times> 'w sys \<times> int) option" where
  "tlsv2_engine_recv os hs cfd e y =
     (let st = br_ssl_engine_current_state e
      in if st AND BR_SSL_RECVREC = 0 then Some (e, y, 0)
         else case br_ssl_engine_recvrec_buf e of (buf, len) \<Rightarrow>
           if len = 0 then Some (e, y, 0)
           else case tls_low_read os cfd len y of (y, r) \<Rightarrow>
             (case r of
                Some bs \<Rightarrow>
                  Option.bind (br_ssl_engine_recvrec_ack hs (e\<lparr>mem := store (mem e) (ptr buf) bs\<rparr>) (length bs))
                    (\<lambda>e. tlsv2_engine_recv os hs cfd e y)
              | None \<Rightarrow> if gfns_would_block y then Some (e, y, 0) else Some (e, y, -1)))"

partial_function (option) tlsv2_engine_send ::
    "'w os \<Rightarrow> ('c, 'r) hsrun \<Rightarrow> int \<Rightarrow> ('c, 'r) engine \<Rightarrow> 'w sys \<Rightarrow> (('c, 'r) engine \<times> 'w sys \<times> int) option" where
  "tlsv2_engine_send os hs cfd e y =
     (let st = br_ssl_engine_current_state e
      in if st AND BR_SSL_SENDREC = 0 then Some (e, y, 0)
         else case br_ssl_engine_sendrec_buf e of (buf, len) \<Rightarrow>
           if len = 0 then Some (e, y, 0)
           else case tls_low_write os cfd (load (mem e) (ptr buf) len) y of (y, r) \<Rightarrow>
             (case r of
                Some n \<Rightarrow> Option.bind (br_ssl_engine_sendrec_ack hs e n) (\<lambda>e. tlsv2_engine_send os hs cfd e y)
              | None \<Rightarrow> if gfns_would_block y then Some (e, y, 0) else Some (e, y, -1)))"

declare tlsv2_engine_recv.simps [code] tlsv2_engine_send.simps [code]

section \<open>JSON in and out\<close>

text \<open>A complete message goes to the application's callback.\<close>

definition deliver_json :: "nat \<Rightarrow> ('c, 'r, 'k, 'w, 'a) server \<Rightarrow> byte list \<Rightarrow> ('c, 'r, 'k, 'w, 'a) server" where
  "deliver_json i s json =
     (case on_json_received (g_cfg s) of
        None \<Rightarrow> s
      | Some cb \<Rightarrow> run_act (cb (fd (g_clients s ! i)) json (app s)) s)"

text \<open>The inner loop of \<open>tlsv2_engine_read_plain\<close>.\<close>

partial_function (option) json_loop ::
    "'w os \<Rightarrow> nat \<Rightarrow> ('c, 'r, 'k, 'w, 'a) server \<Rightarrow> (('c, 'r, 'k, 'w, 'a) server \<times> int) option" where
  "json_loop os i s =
     (case json_next (inb (g_clients s ! i)) of
        Wait f \<Rightarrow> Some (upd_client i (inb_update (\<lambda>_. f)) s, 0)
      | Reject f \<Rightarrow> Some (upd_client i (inb_update (\<lambda>_. f)) s, -1)
      | Ready f \<Rightarrow>
          (case c_malloc os (unat (expected_len f) + 1) (world (sys s)) of (w, ok) \<Rightarrow>
             let s = s\<lparr>sys := (sys s)\<lparr>world := w\<rparr>\<rparr>
             in if \<not> ok then Some (upd_client i (inb_update (\<lambda>_. f)) s, -1)
                else case json_take f of (f', json) \<Rightarrow>
                  json_loop os i (deliver_json i (upd_client i (inb_update (\<lambda>_. f')) s) json)))"

text \<open>One turn of the outer loop, after the window of decrypted bytes has been taken from the engine.\<close>

definition json_receive ::
    "'w os \<Rightarrow> nat \<Rightarrow> ('c, 'r, 'k, 'w, 'a) server \<Rightarrow> byte list \<Rightarrow> (('c, 'r, 'k, 'w, 'a) server \<times> int) option" where
  "json_receive os i s chunk =
     (let f = inb (g_clients s ! i)
      in if in_used f + length chunk > TLSV2_MAX_JSON_SIZE + 4 then Some (s, -1)
         else json_loop os i (upd_client i (inb_update (\<lambda>_. json_append f chunk)) s))"

partial_function (option) tlsv2_engine_read_plain ::
    "'w os \<Rightarrow> nat \<Rightarrow> ('c, 'r, 'k, 'w, 'a) server \<Rightarrow> (('c, 'r, 'k, 'w, 'a) server \<times> int) option" where
  "tlsv2_engine_read_plain os i s =
     (let c = g_clients s ! i;
          st = br_ssl_engine_current_state (eng (sc c))
      in if st AND BR_SSL_RECVAPP = 0 then Some (s, 0)
         else case br_ssl_engine_recvapp_buf (eng (sc c)) of (buf, len) \<Rightarrow>
           if len = 0 then Some (s, 0)
           else if in_used (inb c) + len > TLSV2_MAX_JSON_SIZE + 4 then Some (s, -1)
           else let chunk = load (mem (eng (sc c))) (ptr buf) len;
                    s = upd_client i (\<lambda>c. set_eng c (br_ssl_engine_recvapp_ack (eng (sc c)) len)) s
                in Option.bind (json_receive os i s chunk) (\<lambda>(s, r).
                     if r < 0 then Some (s, r) else tlsv2_engine_read_plain os i s))"

text \<open>A sequence of such turns.\<close>

fun json_receive_all ::
    "'w os \<Rightarrow> nat \<Rightarrow> ('c, 'r, 'k, 'w, 'a) server \<Rightarrow> byte list list \<Rightarrow> (('c, 'r, 'k, 'w, 'a) server \<times> int) option" where
  "json_receive_all os i s [] = Some (s, 0)"
| "json_receive_all os i s (c # cs) = (case json_receive os i s c of
     None \<Rightarrow> None | Some (s', r) \<Rightarrow> if r < 0 then Some (s', r) else json_receive_all os i s' cs)"

text \<open>The loop of \<open>tlsv2_engine_write_plain\<close>; every turn but the last fills the engine's window.\<close>

partial_function (option) write_plain_loop ::
    "('c, 'r) engine \<Rightarrow> outbuf \<Rightarrow> (('c, 'r) engine \<times> outbuf \<times> int) option" where
  "write_plain_loop e f =
     (let st = br_ssl_engine_current_state e
      in if st AND BR_SSL_SENDAPP = 0 then Some (e, f, 0)
         else case br_ssl_engine_sendapp_buf e of (buf, len) \<Rightarrow>
           if len = 0 then Some (e, f, 0)
           else let to_copy = out_used f - out_sent f;
                    to_copy = (if to_copy > len then len else to_copy);
                    e = e\<lparr>mem := store (mem e) (ptr buf) (take to_copy (drop (out_sent f) (out_buf f)))\<rparr>;
                    f = f\<lparr>out_sent := out_sent f + to_copy\<rparr>;
                    e = br_ssl_engine_sendapp_ack e to_copy
                in if out_sent f \<ge> out_used f then Some (e, f\<lparr>out_used := 0, out_sent := 0\<rparr>, 1)
                   else write_plain_loop e f)"

declare write_plain_loop.simps [code]

definition tlsv2_engine_write_plain ::
    "nat \<Rightarrow> ('c, 'r, 'k, 'w, 'a) server \<Rightarrow> (('c, 'r, 'k, 'w, 'a) server \<times> int) option" where
  "tlsv2_engine_write_plain i s =
     (let c = g_clients s ! i
      in if out_sent (outb c) \<ge> out_used (outb c) then Some (s, 0)
         else Option.bind (write_plain_loop (eng (sc c)) (outb c)) (\<lambda>(e, f, r).
                Some (upd_client i (\<lambda>c. set_eng (c\<lparr>outb := f\<rparr>) e) s, r)))"

section \<open>Serving a client\<close>

definition pump ::
    "(int \<Rightarrow> ('c, 'r) engine \<Rightarrow> 'w sys \<Rightarrow> (('c, 'r) engine \<times> 'w sys \<times> int) option) \<Rightarrow> nat
       \<Rightarrow> ('c, 'r, 'k, 'w, 'a) server \<Rightarrow> (('c, 'r, 'k, 'w, 'a) server \<times> int) option" where
  "pump f i s =
     (let c = g_clients s ! i
      in Option.bind (f (fd c) (eng (sc c)) (sys s)) (\<lambda>(e, y, r).
           Some (upd_client i (\<lambda>c. set_eng c e) (s\<lparr>sys := y\<rparr>), r)))"

definition tlsv2_handle_client ::
    "'w os \<Rightarrow> ('c, 'r, 'k) tls_env \<Rightarrow> ('c, 'r, 'k, 'w, 'a) server \<Rightarrow> nat \<Rightarrow> ('c, 'r, 'k, 'w, 'a) server option" where
  "tlsv2_handle_client os env s i =
     (if state (g_clients s ! i) = TLSV2_STATE_UNUSED then Some s
      else Option.bind (pump (tlsv2_engine_recv os (hsrun_of env)) i s) (\<lambda>(s, r).
        if r < 0 then Some (tlsv2_client_close os s i)
        else Option.bind (pump (tlsv2_engine_send os (hsrun_of env)) i s) (\<lambda>(s, r).
        if r < 0 then Some (tlsv2_client_close os s i)
        else let st = br_ssl_engine_current_state (eng (sc (g_clients s ! i)))
             in if state (g_clients s ! i) = TLSV2_STATE_HANDSHAKE \<and> st AND BR_SSL_CLOSED \<noteq> 0
                then Some (tlsv2_client_close os s i)
                else let s = (if state (g_clients s ! i) = TLSV2_STATE_HANDSHAKE \<and> st AND BR_SSL_SENDAPP \<noteq> 0
                              then upd_client i (\<lambda>c. c\<lparr>state := TLSV2_STATE_OPEN\<rparr>) s else s);
                         finish = (\<lambda>s. Option.bind (pump (tlsv2_engine_send os (hsrun_of env)) i s) (\<lambda>(s, r).
                            Some (if r < 0 then tlsv2_client_close os s i else s)))
                     in if state (g_clients s ! i) = TLSV2_STATE_OPEN
                        then Option.bind (tlsv2_engine_read_plain os i s) (\<lambda>(s, r).
                          if r < 0 then Some (tlsv2_client_close os s i)
                          else Option.bind (tlsv2_engine_write_plain i s) (\<lambda>(s, r).
                            if r < 0 then Some (tlsv2_client_close os s i) else finish s))
                        else finish s)))"

section \<open>The server loop\<close>

text \<open>The descriptors handed to \<open>select\<close> for reading and for writing.\<close>

definition watched :: "('c, 'r, 'k, 'w, 'a) server \<Rightarrow> int list" where
  "watched s = map fd (filter (\<lambda>c. state c \<noteq> TLSV2_STATE_UNUSED) (g_clients s))"

fun serve_slots ::
    "'w os \<Rightarrow> ('c, 'r, 'k) tls_env \<Rightarrow> int list \<Rightarrow> int list \<Rightarrow> nat list \<Rightarrow> ('c, 'r, 'k, 'w, 'a) server
       \<Rightarrow> ('c, 'r, 'k, 'w, 'a) server option" where
  "serve_slots os env rd wr [] s = Some s"
| "serve_slots os env rd wr (i # is) s =
     (let c = g_clients s ! i
      in if state c \<noteq> TLSV2_STATE_UNUSED \<and> (fd c \<in> set rd \<or> fd c \<in> set wr)
         then Option.bind (tlsv2_handle_client os env s i) (serve_slots os env rd wr is)
         else serve_slots os env rd wr is s)"

text \<open>One turn of the \<open>for (;;)\<close> loop of \<open>tlsv2_server_run\<close>.\<close>

definition server_turn ::
    "'w os \<Rightarrow> ('c, 'r, 'k) tls_env \<Rightarrow> ('c, 'r, 'k, 'w, 'a) server \<Rightarrow> ('c, 'r, 'k, 'w, 'a) server option" where
  "server_turn os env s =
     (case syscall (sys_select os (g_listen_fd s # watched s) (watched s)) (sys s) of (y, r) \<Rightarrow>
        let s = s\<lparr>sys := y\<rparr>
        in case r of
             None \<Rightarrow> Some s
           | Some (rd, wr) \<Rightarrow>
               Option.bind
                 (if g_listen_fd s \<in> set rd
                  then tlsv2_accept_new_client os env s (g_certs s) (g_skey s)
                  else Some s)
                 (serve_slots os env rd wr [0..<TLSV2_MAX_CLIENTS]))"

text \<open>
  \<open>tlsv2_server_run\<close> up to its loop: \<open>Inl\<close> is an early return, \<open>Inr\<close> the state in which the
  loop starts. The loop itself never returns; \<open>server_turns n\<close> is its state after \<open>n\<close> turns.
\<close>

definition tlsv2_server_start ::
    "'w os \<Rightarrow> ('c, 'r, 'k) tls_env \<Rightarrow> 'a config \<Rightarrow> ('c, 'r, 'k, 'w, 'a) server
       \<Rightarrow> ('c, 'r, 'k, 'w, 'a) server \<times> (int + unit)" where
  "tlsv2_server_start os env cfg s =
     (case (cert_file cfg, key_file cfg) of
        (Some cert, Some keyf) \<Rightarrow>
          (let s = s\<lparr>g_cfg := cfg\<rparr>;
               (w, crt) = load_certificate_der os cert (world (sys s));
               s = s\<lparr>sys := (sys s)\<lparr>world := w\<rparr>\<rparr>
           in case crt of
                None \<Rightarrow> (s, Inl (-1))
              | Some crt \<Rightarrow>
                  (let s = s\<lparr>g_certs := crt\<rparr>;
                       (w, key) = load_rsa_key_der os (decode_of env) keyf (world (sys s));
                       s = s\<lparr>sys := (sys s)\<lparr>world := w\<rparr>\<rparr>
                   in case key of
                        None \<Rightarrow> (s, Inl (-1))
                      | Some key \<Rightarrow>
                          (let s = tlsv2_clients_init (s\<lparr>g_skey := key\<rparr>);
                               (y, l) = gfns_create_listen_socket os (port cfg) (sys s);
                               s = s\<lparr>sys := y, g_listen_fd := l\<rparr>
                           in if l = GFNS_INVALID_SOCK then (s, Inl (-1)) else (s, Inr ()))))
      | _ \<Rightarrow> (s, Inl (-1)))"

fun server_turns ::
    "nat \<Rightarrow> 'w os \<Rightarrow> ('c, 'r, 'k) tls_env \<Rightarrow> ('c, 'r, 'k, 'w, 'a) server \<Rightarrow> ('c, 'r, 'k, 'w, 'a) server option" where
  "server_turns 0 os env s = Some s"
| "server_turns (Suc n) os env s = Option.bind (server_turn os env s) (server_turns n os env)"

end
