(* ===== verification/Json_Stream.thy ===== *)
theory Json_Stream
  imports Json_Frame
begin

text \<open>
  Streams of framed messages in full generality: messages may be empty (both clients accept them), and
  chunks may be larger than the room left in the buffer. The receivers never get past the header of
  an empty message, so that what can be delivered of a stream is the part before the first empty message.
\<close>

section \<open>Streams with empty messages\<close>

text \<open>The messages before the first empty one, and the bytes from there on.\<close>

definition live :: "byte list list \<Rightarrow> byte list list" where
  "live ms = takeWhile (\<lambda>m. m \<noteq> []) ms"

definition wedged :: "byte list list \<Rightarrow> byte list" where
  "wedged ms = concat (map json_frame (dropWhile (\<lambda>m. m \<noteq> []) ms))"

lemma live_Cons [simp]: "live (m # ms) = (if m = [] then [] else m # live ms)"
    "wedged (m # ms) = (if m = [] then concat (map json_frame (m # ms)) else wedged ms)"
  by (simp_all add: live_def wedged_def)

lemma live_Nil [simp]: "live [] = []" "wedged [] = []"
  by (simp_all add: live_def wedged_def)

lemma live_all: "\<forall>m \<in> set ms. m \<noteq> [] \<Longrightarrow> live ms = ms \<and> wedged ms = []"
  by (induction ms) simp_all

lemma live_stream: "concat (map json_frame (live ms)) @ wedged ms = concat (map json_frame ms)"
  unfolding live_def wedged_def by (metis concat_append map_append takeWhile_dropWhile_id)

lemma live_ok: "\<forall>m \<in> set ms. length m \<le> TLSV2_MAX_JSON_SIZE \<Longrightarrow> \<forall>m \<in> set (live ms). json_ok m"
  by (auto simp: live_def json_ok_def dest: set_takeWhileD)

lemma take_live: "take k (live ms) = take (min k (length (live ms))) ms"
  unfolding live_def by (metis append_take_drop_id takeWhile_eq_take take_take)

lemma live_drop: "k \<le> length (live ms) \<Longrightarrow> live (drop k ms) = drop k (live ms) \<and> wedged (drop k ms) = wedged ms"
proof (induction ms arbitrary: k)
  case (Cons m ms)
  then show ?case by (cases k) (auto split: if_splits)
qed simp

lemma empty_header: "p @ q = json_frame [] @ e \<Longrightarrow> stuck p \<and> \<not> bad_header p"
proof -
  assume a: "p @ q = json_frame [] @ e"
  have "frame_len p = 0" if "4 \<le> length p"
    using frame_len_append [OF that, of q] frame_len_frame [of "[]" e] a by simp
  then show ?thesis by (auto simp: stuck_def bad_header_def)
qed

lemma frames_prefix_any:
  assumes "\<forall>m \<in> set ms. length m \<le> TLSV2_MAX_JSON_SIZE" "concat (map json_frame ms) = p @ q"
  shows "\<exists>k r. frames p = (take k (live ms), r) \<and> k \<le> length (live ms) \<and> \<not> bad_header r
     \<and> (length r \<le> TLSV2_MAX_JSON_SIZE + 3 \<or> k = length (live ms) \<and> length r \<le> length (wedged ms))"
  using assms
proof (induction ms arbitrary: p)
  case Nil
  then show ?case by (simp add: stuck_def bad_header_def)
next
  case (Cons m ms)
  show ?case
  proof (cases "m = []")
    case True
    with Cons.prems(2) empty_header [of p q "concat (map json_frame ms)"] have "stuck p \<and> \<not> bad_header p" by simp
    moreover have "length p \<le> length (wedged (m # ms))" using arg_cong [OF Cons.prems(2), of length] True by simp
    ultimately show ?thesis using True by simp
  next
    case False
    then have m: "json_ok m" using Cons.prems(1) by (simp add: json_ok_def)
    show ?thesis
    proof (cases "length (json_frame m) \<le> length p")
      case True
      define p' where "p' = drop (length (json_frame m)) p"
      have "take (length (json_frame m)) (p @ q) = json_frame m" "drop (length (json_frame m)) (p @ q) = concat (map json_frame ms)"
        unfolding Cons.prems(2) [symmetric] by simp_all
      moreover have "take (length (json_frame m)) (p @ q) = take (length (json_frame m)) p" "drop (length (json_frame m)) (p @ q) = p' @ q"
        using True by (simp_all add: p'_def del: length_json_frame)
      ultimately have "json_frame m = take (length (json_frame m)) p" "concat (map json_frame ms) = p' @ q" by metis+
      then have p: "p = json_frame m @ p'" "concat (map json_frame ms) = p' @ q" by (metis append_take_drop_id p'_def)+
      from Cons.IH [OF _ p(2)] Cons.prems(1) obtain k r where
        "frames p' = (take k (live ms), r)" "k \<le> length (live ms)" "\<not> bad_header r"
        "length r \<le> TLSV2_MAX_JSON_SIZE + 3 \<or> k = length (live ms) \<and> length r \<le> length (wedged ms)" by auto
      then show ?thesis using m False p(1)
        by (intro exI [of _ "Suc k"] exI [of _ r]) (auto simp: frames_cons)
    next
      case short: False
      then obtain e where e: "json_frame m = p @ e" "e \<noteq> []"
        using Cons.prems(2) by (auto simp: append_eq_append_conv_if) (metis append_take_drop_id length_json_frame not_less drop_eq_Nil)
      with partial_frame_stuck [OF m e] m show ?thesis
        by (intro exI [of _ 0] exI [of _ p]) (auto simp: json_ok_def)
    qed
  qed
qed

lemma frames_any:
  assumes "\<forall>m \<in> set ms. length m \<le> TLSV2_MAX_JSON_SIZE"
  shows "frames (concat (map json_frame ms)) = (live ms, wedged ms)"
proof -
  have "stuck (wedged ms)"
  proof (cases "dropWhile (\<lambda>m. m \<noteq> []) ms")
    case (Cons m xs)
    then have "m = []" using hd_dropWhile [of "\<lambda>m. m \<noteq> []" ms] by simp
    with Cons empty_header [of "wedged ms" "[]" "concat (map json_frame xs)"] show ?thesis by (simp add: wedged_def)
  qed (simp add: wedged_def stuck_def del: dropWhile_eq_Nil_conv)
  with frames_stream [OF live_ok [OF assms], of "wedged ms"] show ?thesis by (simp add: live_stream)
qed

section \<open>Chunks of any size\<close>

context json_receiver
begin

text \<open>Chunks are taken as long as they find room; the first one that does not ends the reception with -1.\<close>

lemma feed_all_any:
  assumes "valid s" "inbuf_ok (get s)" "stuck (pending (get s))"
    and "\<And>xs ys. cs = xs @ ys \<Longrightarrow> \<not> bad_header (snd (frames (pending (get s) @ concat xs)))"
  shows "\<exists>f xs ys. cs = xs @ ys \<and> pending f = snd (frames (pending (get s) @ concat xs))
    \<and> feed_all s cs = Some (put f (foldl emit s (fst (frames (pending (get s) @ concat xs)))), if fits (pending (get s)) cs then 0 else -1)
    \<and> (fits (pending (get s)) cs \<longrightarrow> ys = [])"
  using assms
proof (induction cs arbitrary: s)
  case Nil
  then show ?case by (intro exI [of _ "get s"]) (simp add: put_get)
next
  case (Cons c cs)
  show ?case
  proof (cases "in_used (get s) + length c > TLSV2_MAX_JSON_SIZE + 4")
    case True
    then have "\<not> fits (pending (get s)) (c # cs)" "feed_all s (c # cs) = Some (s, -1)"
      using Cons.prems(2) by (simp_all add: feed_def Let_def)
    then show ?thesis using Cons.prems(1,3)
      by (intro exI [of _ "get s"] exI [of _ "[]"] exI [of _ "c # cs"]) (simp add: put_get)
  next
    case False
    define d where "d = pending (get s) @ c"
    from feed_frames [OF Cons.prems(1,2), of c] False obtain f where
      f: "feed s c = Some (put f (foldl emit s (fst (frames d))), if bad_header (snd (frames d)) then -1 else 0)"
        "pending f = snd (frames d)" "\<not> bad_header (pending f) \<longrightarrow> inbuf_ok f"
      unfolding d_def by fastforce
    have nb: "\<not> bad_header (snd (frames d))" using Cons.prems(4) [of "[c]" cs] by (simp add: d_def)
    define t where "t = put f (foldl emit s (fst (frames d)))"
    have t: "valid t" "get t = f" using Cons.prems(1) by (simp_all add: t_def valid_put get_put)
    have step: "feed_all s (c # cs) = feed_all t cs" using f(1) nb by (simp add: t_def)
    have fe: "fits (pending (get s)) (c # cs) = fits (pending (get t)) cs"
      using False Cons.prems(2) f(2) t(2) by (simp add: d_def)
    have "stuck (pending (get t))" using t(2) f(2) frames_residue_stuck [of d] by simp
    moreover have "\<not> bad_header (snd (frames (pending (get t) @ concat xs)))" if "cs = xs @ ys" for xs ys
      using Cons.prems(4) [of "c # xs" ys] that f(2) t(2) frames_append [of d "concat xs"] by (simp add: d_def)
    ultimately obtain g xs ys where g: "cs = xs @ ys" "pending g = snd (frames (snd (frames d) @ concat xs))"
        "feed_all t cs = Some (put g (foldl emit t (fst (frames (snd (frames d) @ concat xs)))), if fits (pending (get t)) cs then 0 else -1)"
        "fits (pending (get t)) cs \<longrightarrow> ys = []"
      using Cons.IH [OF t(1)] t(2) f(2,3) nb by auto
    have "put g (foldl emit t ms) = put g (foldl emit s (fst (frames d) @ ms))" for ms
      using Cons.prems(1) t(1) by (simp add: t_def put_foldl valid_put put_put)
    with g step fe frames_append [of d "concat xs"] show ?thesis
      by (intro exI [of _ g] exI [of _ "c # xs"] exI [of _ ys]) (simp add: d_def)
  qed
qed

lemma any_stream:
  assumes "valid s" "inbuf_ok (get s)" "pending (get s) = []" "\<forall>m \<in> set ms. length m \<le> TLSV2_MAX_JSON_SIZE"
    and "concat cs = concat (map json_frame ms)"
  shows "\<exists>f k. feed_all s cs = Some (put f (foldl emit s (take k (live ms))), if fits [] cs then 0 else -1)
    \<and> (fits [] cs \<longrightarrow> take k (live ms) = live ms \<and> pending f = wedged ms)"
proof -
  have p: "\<exists>k r. frames (concat xs) = (take k (live ms), r) \<and> \<not> bad_header r" if "cs = xs @ ys" for xs ys
    using frames_prefix_any [OF assms(4), of "concat xs" "concat ys"] assms(5) that by auto
  then have "\<not> bad_header (snd (frames (concat xs)))" if "cs = xs @ ys" for xs ys using that by fastforce
  from feed_all_any [OF assms(1,2), of cs, unfolded assms(3)] this obtain f xs ys where
    f: "cs = xs @ ys" "pending f = snd (frames (concat xs))"
      "feed_all s cs = Some (put f (foldl emit s (fst (frames (concat xs)))), if fits [] cs then 0 else -1)" "fits [] cs \<longrightarrow> ys = []"
    by (auto simp: stuck_def)
  obtain k r where k: "frames (concat xs) = (take k (live ms), r)" using p [OF f(1)] by blast
  have "frames (concat xs) = (live ms, wedged ms)" if "fits [] cs" using frames_any [OF assms(4)] f(1,4) assms(5) that by simp
  with f k show ?thesis by (intro exI [of _ f] exI [of _ k]) auto
qed

end

end
