(* ===== verification/Tls_V3_Server_Props.thy ===== *)
theory Tls_V3_Server_Props
  imports Tls_V3_Server Json_Stream
begin

text \<open>
  The server of \<open>tls_wrapper_v3.c\<close>: which parts of the state each operation leaves alone, the
  interpretation of the receive-loop contract on it, delivery of messages however the stream is cut,
  sending, the table and descriptor invariant over any number of turns of the server loop, and the
  behaviours in which the server falls short.
\<close>

unbundle bit_operations_syntax

section \<open>What the callbacks can reach\<close>

lemma upd_client_sel [simp]:
  "g_cfg (upd_client i f s) = g_cfg s" "app (upd_client i f s) = app s" "sys (upd_client i f s) = sys s"
  "g_listen_fd (upd_client i f s) = g_listen_fd s" "length (g_clients (upd_client i f s)) = length (g_clients s)"
  "g_certs (upd_client i f s) = g_certs s" "g_skey (upd_client i f s) = g_skey s"
  by (simp_all add: upd_client_def)

lemma upd_client_nth:
  "g_clients (upd_client i f s) ! j = (if j = i \<and> i < length (g_clients s) then f (g_clients s ! i) else g_clients s ! j)"
  by (cases "i < length (g_clients s)") (auto simp: upd_client_def nth_list_update list_update_beyond)

lemma upd_client_beyond: "\<not> i < length (g_clients s) \<Longrightarrow> upd_client i f s = s"
  by (simp add: upd_client_def list_update_beyond)

lemma upd_client_same [simp]:
  "i < length (g_clients s) \<Longrightarrow> g_clients (upd_client i f s) ! i = f (g_clients s ! i)"
  by (simp add: upd_client_nth)

lemma upd_client_upd [simp]: "upd_client i f (upd_client i g s) = upd_client i (\<lambda>c. f (g c)) s"
  by (cases "i < length (g_clients s)") (simp_all add: upd_client_beyond, simp add: upd_client_def)

lemma upd_client_app [simp]: "upd_client i f (s\<lparr>app := a\<rparr>) = (upd_client i f s)\<lparr>app := a\<rparr>"
  by (simp add: upd_client_def)

text \<open>
  The application reaches the state through \<open>tlsv2_send_json\<close> only, which writes the out buffer of
  one client: \<open>erase\<close> forgets what it may change.
\<close>

definition erase :: "('c, 'r, 'k) client \<Rightarrow> ('c, 'r, 'k) client" where
  "erase c = c\<lparr>outb := \<lparr>out_buf = [], out_used = 0, out_sent = 0\<rparr>\<rparr>"

definition same_but_out :: "('c, 'r, 'k, 'w, 'a) server \<Rightarrow> ('c, 'r, 'k, 'w, 'a) server \<Rightarrow> bool" where
  "same_but_out s t \<longleftrightarrow> map erase (g_clients t) = map erase (g_clients s) \<and> g_cfg t = g_cfg s \<and> sys t = sys s
     \<and> g_listen_fd t = g_listen_fd s \<and> g_certs t = g_certs s \<and> g_skey t = g_skey s"

lemma same_but_out_refl [simp]: "same_but_out s s"
  by (simp add: same_but_out_def)

lemma same_but_out_trans: "same_but_out s t \<Longrightarrow> same_but_out t u \<Longrightarrow> same_but_out s u"
  by (simp add: same_but_out_def)

lemma erase_eq:
  "erase c = erase d \<Longrightarrow> fd c = fd d \<and> state c = state d \<and> inb c = inb d \<and> sc c = sc d"
  by (simp add: erase_def) (metis client.ext_inject client.surjective client.update_convs(7))

lemma same_but_out_nth:
  assumes "same_but_out s t" "i < length (g_clients s)"
  shows "length (g_clients t) = length (g_clients s)" "fd (g_clients t ! i) = fd (g_clients s ! i)"
    "state (g_clients t ! i) = state (g_clients s ! i)" "inb (g_clients t ! i) = inb (g_clients s ! i)"
    "sc (g_clients t ! i) = sc (g_clients s ! i)"
proof -
  have m: "map erase (g_clients t) = map erase (g_clients s)" using assms(1) by (simp add: same_but_out_def)
  then show l: "length (g_clients t) = length (g_clients s)" by (rule map_eq_imp_length_eq)
  have "erase (g_clients t ! i) = erase (g_clients s ! i)" using m assms(2) l by (metis nth_map)
  from erase_eq [OF this] show "fd (g_clients t ! i) = fd (g_clients s ! i)"
    "state (g_clients t ! i) = state (g_clients s ! i)" "inb (g_clients t ! i) = inb (g_clients s ! i)"
    "sc (g_clients t ! i) = sc (g_clients s ! i)" by auto
qed

lemma send_json_same: "tlsv2_send_json s client_id json = (t, r) \<Longrightarrow> same_but_out s t \<and> app t = app s"
proof -
  assume "tlsv2_send_json s client_id json = (t, r)"
  moreover have "map erase ((g_clients s)[i := (g_clients s ! i)\<lparr>outb := f\<rparr>]) = map erase (g_clients s)" for i f
  proof (cases "i < length (g_clients s)")
    case True
    have "erase ((g_clients s ! i)\<lparr>outb := f\<rparr>) = erase (g_clients s ! i)" by (simp add: erase_def)
    with True show ?thesis by (simp add: map_update list_update_same_conv)
  qed (simp add: list_update_beyond)
  ultimately show ?thesis
    by (auto simp: tlsv2_send_json_def same_but_out_def upd_client_def split: if_splits option.splits prod.splits)
qed

interpretation v3app: app_runner run_act "\<lambda>a s. s\<lparr>app := a\<rparr>" tlsv2_send_json
  by unfold_locales simp_all

lemma run_act_same: "same_but_out s (run_act a s)"
  by (rule v3app.run_rel) (auto intro: same_but_out_trans dest: send_json_same simp: same_but_out_def)

lemma deliver_json_same: "same_but_out s (deliver_json i s json)"
  by (simp add: deliver_json_def run_act_same split: option.splits)

text \<open>And it neither reads nor writes the receive side.\<close>

lemma send_json_inb:
  "tlsv2_send_json (upd_client i (inb_update (\<lambda>_. f)) s) client_id json =
    (upd_client i (inb_update (\<lambda>_. f)) (fst (tlsv2_send_json s client_id json)), snd (tlsv2_send_json s client_id json))"
proof -
  let ?t = "upd_client i (inb_update (\<lambda>_. f)) s"
  have "map (client_matches client_id) (g_clients ?t) = map (client_matches client_id) (g_clients s)"
    by (rule nth_equalityI) (auto simp: upd_client_nth client_matches_def)
  then have fs: "first_slot (client_matches client_id) (g_clients ?t) 0 = first_slot (client_matches client_id) (g_clients s) 0"
    by (rule first_slot_cong)
  have o: "outb (g_clients ?t ! j) = outb (g_clients s ! j)" for j by (simp add: upd_client_nth)
  have sw: "x\<lparr>inb := f, outb := g\<rparr> = x\<lparr>outb := g, inb := f\<rparr>" for x :: "('a, 'b, 'c) client" and g by (cases x) simp
  have c: "upd_client j (outb_update (\<lambda>_. g)) (upd_client i (inb_update (\<lambda>_. f)) s)
      = upd_client i (inb_update (\<lambda>_. f)) (upd_client j (outb_update (\<lambda>_. g)) s)" for j g
    by (cases "i < length (g_clients s) \<and> j < length (g_clients s)")
      (auto simp: upd_client_beyond, cases "i = j", simp_all add: upd_client_def list_update_swap sw)
  show ?thesis
    by (auto simp: tlsv2_send_json_def fs o c split: option.splits prod.splits)
qed

lemma run_act_inb: "run_act a (upd_client i (inb_update (\<lambda>_. f)) s) = upd_client i (inb_update (\<lambda>_. f)) (run_act a s)"
  by (rule v3app.run_commute) (simp_all add: send_json_inb)

lemma deliver_json_inb:
  assumes "i < length (g_clients s)"
  shows "deliver_json i (upd_client i (inb_update (\<lambda>_. f)) s) json = upd_client i (inb_update (\<lambda>_. f)) (deliver_json i s json)"
  using assms by (simp add: deliver_json_def run_act_inb split: option.splits)

section \<open>Receiving messages\<close>

definition malloc_ok :: "'w os \<Rightarrow> bool" where
  "malloc_ok os \<longleftrightarrow> (\<forall>n w. c_malloc os n w = (w, True))"

lemma upd_client_inb_self [simp]: "upd_client i (inb_update (\<lambda>_. inb (g_clients s ! i))) s = s"
  by (simp add: upd_client_def)

interpretation v3: json_receiver "\<lambda>s :: ('c, 'r, 'k, 'w, 'a) server. inb (g_clients s ! i)" "\<lambda>f. upd_client i (inb_update (\<lambda>_. f))"
    "deliver_json i" "json_loop os i" "\<lambda>s. malloc_ok os \<and> i < length (g_clients s)" for os :: "'w os" and i
proof unfold_locales
  fix s :: "('c, 'r, 'k, 'w, 'a) server" and f m
  assume v: "malloc_ok os \<and> i < length (g_clients s)"
  then show "inb (g_clients (upd_client i (inb_update (\<lambda>_. f)) s) ! i) = f"
    "upd_client i (inb_update (\<lambda>_. inb (g_clients s ! i))) s = s"
    "malloc_ok os \<and> i < length (g_clients (upd_client i (inb_update (\<lambda>_. f)) s))" by simp_all
  show "inb (g_clients (deliver_json i s m) ! i) = inb (g_clients s ! i)"
    "malloc_ok os \<and> i < length (g_clients (deliver_json i s m))"
    using same_but_out_nth(1,4) [OF deliver_json_same, of i s i m] v by simp_all
  show "upd_client i (inb_update (\<lambda>_. f)) (deliver_json i s m) = deliver_json i (upd_client i (inb_update (\<lambda>_. f)) s) m"
    using deliver_json_inb v by metis
  show "json_loop os i s = (case json_next (inb (g_clients s ! i)) of
        Wait f \<Rightarrow> Some (upd_client i (inb_update (\<lambda>_. f)) s, 0)
      | Reject f \<Rightarrow> Some (upd_client i (inb_update (\<lambda>_. f)) s, -1)
      | Ready f \<Rightarrow> (let (f', json) = json_take f in
          json_loop os i (deliver_json i (upd_client i (inb_update (\<lambda>_. f')) s) json)))"
    using v by (subst json_loop.simps) (simp add: malloc_ok_def split: json_step.splits prod.splits)
qed simp

lemma receive_all_feed:
  "json_receive_all os i s cs = v3.feed_all i os s cs"
  by (induction cs arbitrary: s) (simp_all add: v3.feed_def json_receive_def split: option.splits)

text \<open>
  C3. What a stream of messages becomes: messages of up to 65536 bytes, each with its 4-byte length in front, reach
  the server as decrypted data, cut into chunks anywhere. If every chunk finds room in the receive buffer when its
  turn comes, the application gets exactly the messages before the first empty one, once each and in order,
  and the bytes from the empty message on stay in the buffer; if a chunk does not find room, the call
  returns -1, and what the application got is a prefix of these messages. So all messages of a stream without empty
  ones arrive, with nothing left over, whenever the longest message, one chunk and 3 bytes more do not exceed
  the buffer of 65540 bytes.
\<close>

theorem json_stream_delivered:
  assumes "malloc_ok os" "i < length (g_clients s)" "inbuf_ok (inb (g_clients s ! i))"
    and "pending (inb (g_clients s ! i)) = []"
    and "\<forall>m \<in> set ms. length m \<le> TLSV2_MAX_JSON_SIZE" "concat cs = concat (map json_frame ms)"
  shows "\<exists>f k. json_receive_all os i s cs
        = Some (upd_client i (inb_update (\<lambda>_. f)) (foldl (deliver_json i) s (take k (live ms))), if fits [] cs then 0 else -1)
      \<and> (fits [] cs \<longrightarrow> take k (live ms) = live ms \<and> pending f = wedged ms)
      \<and> (\<forall>K. (\<forall>m \<in> set ms. json_ok m \<and> length m + 3 + K \<le> TLSV2_MAX_JSON_SIZE + 4) \<and> K \<le> TLSV2_MAX_JSON_SIZE + 4
            \<and> (\<forall>c \<in> set cs. length c \<le> K) \<longrightarrow> fits [] cs \<and> live ms = ms \<and> wedged ms = [])"
proof -
  have "fits [] cs \<and> live ms = ms \<and> wedged ms = []"
    if "\<forall>m \<in> set ms. json_ok m \<and> length m + 3 + K \<le> TLSV2_MAX_JSON_SIZE + 4" "K \<le> TLSV2_MAX_JSON_SIZE + 4" "\<forall>c \<in> set cs. length c \<le> K" for K
    using fits_bound [OF that, of "[]" "[]"] assms(6) live_all [of ms] that(1) by (simp add: stuck_def json_ok_def)
  moreover have "malloc_ok os \<and> i < length (g_clients s)" using assms(1,2) by blast
  note v3.any_stream [OF this assms(3-6)]
  ultimately show ?thesis unfolding receive_all_feed by blast
qed

text \<open>A system for the examples: descriptors 3 and 4, nothing to read, writes succeed.\<close>

definition quiet_os :: "unit os" where
  "quiet_os = \<lparr>sys_socket = (\<lambda>w. (w, Done 3)), sys_setsockopt = (\<lambda>_ w. (w, Done ())), sys_bind = (\<lambda>_ _ w. (w, Done ())),
     sys_listen = (\<lambda>_ _ w. (w, Done ())), sys_accept = (\<lambda>_ w. (w, Fail EAGAIN)), sys_connect = (\<lambda>_ _ _ w. (w, Done ())),
     sys_getfl = (\<lambda>_ w. (w, Done 0)), sys_setfl = (\<lambda>_ _ w. (w, Done ())), sys_read = (\<lambda>_ _ w. (w, Done [])),
     sys_write = (\<lambda>_ bs w. (w, Done (length bs))), sys_close = (\<lambda>_ w. w), sys_select = (\<lambda>r x w. (w, Done (r, x))),
     inet_pton = (\<lambda>_. Some 0), c_malloc = (\<lambda>_ w. (w, True)), c_fopen = (\<lambda>_ w. (w, None)),
     c_fseek_end = (\<lambda>_ w. (w, True)), c_ftell = (\<lambda>_ w. (w, 0)), c_fseek_set = (\<lambda>_ w. (w, True)),
     c_fread = (\<lambda>_ _ w. (w, [])), c_fclose = (\<lambda>_ w. w)\<rparr>"

lemma quiet_malloc: "malloc_ok quiet_os"
  by (simp add: malloc_ok_def quiet_os_def)

text \<open>A server with one client, whose application collects the messages it gets.\<close>

definition demo_server :: "(unit, unit) engine \<Rightarrow> (unit, unit, unit, unit, byte list list) server" where
  "demo_server e =
     \<lparr>g_clients = [\<lparr>fd = 5, sc = \<lparr>eng = e, version_min = 0, version_max = 0, session_id_len = 0, server_name = [],
        hash_ids = [], chain = [], sk = None, allowed_usages = 0\<rparr>, certs = [], skey = (), state = TLSV2_STATE_OPEN,
        inb = \<lparr>in_buf = replicate 65540 0, in_used = 0, expected_len = 0\<rparr>,
        outb = \<lparr>out_buf = replicate 65540 0, out_used = 0, out_sent = 0\<rparr>\<rparr>],
      g_cfg = \<lparr>port = 443, cert_file = None, key_file = None, on_client_connected = None, on_client_disconnected = None,
        on_json_received = Some (\<lambda>_ json ms. Return (ms @ [json]))\<rparr>,
      g_listen_fd = 3, g_certs = [], g_skey = (), app = [], sys = \<lparr>world = (), errno = 0\<rparr>\<rparr>"

lemma demo_inb: "inbuf_ok (inb (g_clients (demo_server e) ! 0))" "pending (inb (g_clients (demo_server e) ! 0)) = []"
    "0 < length (g_clients (demo_server e))"
  by (simp_all add: demo_server_def inbuf_ok_def pending_def TLSV2_MAX_JSON_SIZE_def)

theorem json_stream_delivered_witness:
  "\<exists>f. json_receive_all quiet_os 0 (demo_server fresh_engine) [[0, 0], [0, 2, 123], [125, 0, 0, 0, 1, 48]]
     = Some (upd_client 0 (inb_update (\<lambda>_. f)) (foldl (deliver_json 0) (demo_server fresh_engine) [[123, 125], [48]]), 0) \<and> pending f = []"
proof -
  let ?ms = "[[123, 125], [48]] :: byte list list" and ?cs = "[[0, 0], [0, 2, 123], [125, 0, 0, 0, 1, 48]] :: byte list list"
  have p: "\<forall>m \<in> set ?ms. length m \<le> TLSV2_MAX_JSON_SIZE" "concat ?cs = concat (map json_frame ?ms)"
    by (simp_all add: TLSV2_MAX_JSON_SIZE_def json_frame_def htonl_bytes_def)
  have k: "(\<forall>m \<in> set ?ms. json_ok m \<and> length m + 3 + 6 \<le> TLSV2_MAX_JSON_SIZE + 4) \<and> 6 \<le> TLSV2_MAX_JSON_SIZE + 4 \<and> (\<forall>c \<in> set ?cs. length c \<le> 6)"
    by (simp add: json_ok_def TLSV2_MAX_JSON_SIZE_def)
  obtain f j where r: "json_receive_all quiet_os 0 (demo_server fresh_engine) ?cs
        = Some (upd_client 0 (inb_update (\<lambda>_. f)) (foldl (deliver_json 0) (demo_server fresh_engine) (take j (live ?ms))), if fits [] ?cs then 0 else -1)"
      "fits [] ?cs \<longrightarrow> take j (live ?ms) = live ?ms \<and> pending f = wedged ?ms"
    and b: "fits [] ?cs \<and> live ?ms = ?ms \<and> wedged ?ms = []"
    using json_stream_delivered [OF quiet_malloc demo_inb(3,1,2) p, of fresh_engine] k by blast
  show ?thesis using r b by (intro exI [of _ f]) (simp only: if_True simp_thms)
qed

text \<open>
  C28. A message of length zero wedges the connection: once four zero bytes stand at the front of the
  receive buffer, no later data is ever delivered to the application; the length field stays there
  because \<open>expected_len = 0\<close> also means that no length has been read.
\<close>

theorem zero_length_wedges:
  assumes "malloc_ok os" "i < length (g_clients s)" "inbuf_ok (inb (g_clients s ! i))"
    and "take 4 (pending (inb (g_clients s ! i))) = [0, 0, 0, 0]"
  shows "\<exists>f r. json_receive_all os i s cs = Some (upd_client i (inb_update (\<lambda>_. f)) s, r)"
  using assms
proof (induction cs arbitrary: s)
  case Nil
  have "json_receive_all os i s [] = Some (upd_client i (inb_update (\<lambda>_. inb (g_clients s ! i))) s, 0)" by simp
  then show ?case by blast
next
  case (Cons c cs)
  let ?f = "inb (g_clients s ! i)"
  show ?case
  proof (cases "in_used ?f + length c > TLSV2_MAX_JSON_SIZE + 4")
    case True
    then have "json_receive_all os i s (c # cs) = Some (upd_client i (inb_update (\<lambda>_. ?f)) s, -1)"
      by (simp add: json_receive_def)
    then show ?thesis by blast
  next
    case False
    have l: "4 \<le> length (pending ?f)"
      using arg_cong [OF Cons.prems(4), of length] by simp
    have z: "stuck (pending ?f @ x)" "\<not> bad_header (pending ?f @ x)" for x
    proof -
      have "ntohl_bytes (pending ?f) = ntohl_bytes (take 4 (pending ?f))" by (rule ntohl_prefix) (use l in auto)
      then have "ntohl_bytes (pending ?f) = 0" by (simp add: Cons.prems(4) ntohl_bytes_def [of "[0, 0, 0, 0]"])
      then have "frame_len (pending ?f @ x) = 0"
        unfolding frame_len_append [OF l] by (simp add: frame_len_def)
      then show "stuck (pending ?f @ x)" "\<not> bad_header (pending ?f @ x)" by (auto simp: stuck_def bad_header_def)
    qed
    from v3.feed_frames [of os i s c] Cons.prems False z [of c] obtain g where
      g: "json_receive os i s c = Some (upd_client i (inb_update (\<lambda>_. g)) s, 0)" "pending g = pending ?f @ c" "inbuf_ok g"
      by (auto simp: v3.feed_def json_receive_def)
    let ?t = "upd_client i (inb_update (\<lambda>_. g)) s"
    have "take 4 (pending g) = [0, 0, 0, 0]" using g(2) l Cons.prems(4) by simp
    with Cons.IH [of ?t] Cons.prems(1,2) g(3) obtain h r where
      "json_receive_all os i ?t cs = Some (upd_client i (inb_update (\<lambda>_. h)) ?t, r)" by auto
    with g(1) show ?thesis by (auto simp: comp_def)
  qed
qed

theorem zero_length_wedges_witness:
  "\<exists>f r. json_receive_all quiet_os 0 (upd_client 0 (inb_update (in_used_update (\<lambda>_. 4))) (demo_server fresh_engine))
      [json_frame [123, 125]]
     = Some (upd_client 0 (inb_update (\<lambda>_. f)) (upd_client 0 (inb_update (in_used_update (\<lambda>_. 4))) (demo_server fresh_engine)), r)"
proof -
  have "replicate 4 (0 :: byte) = [0, 0, 0, 0]" by (simp add: numeral_eq_Suc)
  then show ?thesis
    by (intro zero_length_wedges [OF quiet_malloc])
      (simp_all add: demo_server_def inbuf_ok_def pending_def TLSV2_MAX_JSON_SIZE_def upd_client_def)
qed

text \<open>
  A legal stream can be refused: when a message of the maximum length is complete but for its
  last byte, the chunk that brings this byte and the start of the next message is more than the
  buffer takes, and the receive function fails, which closes the connection.
\<close>

theorem max_message_refused:
  assumes "length m = TLSV2_MAX_JSON_SIZE" "pending (inb (g_clients s ! i)) = butlast (json_frame m)"
    and "inbuf_ok (inb (g_clients s ! i))" "next \<noteq> []"
  shows "json_receive os i s (last (json_frame m) # next) = Some (s, -1)"
proof -
  have "in_used (inb (g_clients s ! i)) = TLSV2_MAX_JSON_SIZE + 3"
    using length_pending [OF assms(3)] assms(1,2) by simp
  then show ?thesis using assms(4) by (simp add: json_receive_def Let_def)
qed

theorem max_message_refused_witness:
  "json_receive quiet_os 0 (upd_client 0 (inb_update (\<lambda>_. \<lparr>in_buf = butlast (json_frame (replicate 65536 48)) @ [0],
       in_used = 65539, expected_len = 65536\<rparr>)) (demo_server fresh_engine))
     (last (json_frame (replicate 65536 48)) # json_frame [123, 125])
   = Some (upd_client 0 (inb_update (\<lambda>_. \<lparr>in_buf = butlast (json_frame (replicate 65536 48)) @ [0],
       in_used = 65539, expected_len = 65536\<rparr>)) (demo_server fresh_engine), -1)"
proof (rule max_message_refused)
  let ?b = "butlast (json_frame (replicate 65536 (48 :: byte)))"
  have b: "length ?b = 65539" by simp
  have "ntohl_bytes (?b @ [0]) = ntohl_bytes (json_frame (replicate 65536 48))"
    by (rule ntohl_prefix) (auto simp: take_butlast)
  then have n: "ntohl_bytes (?b @ [0]) = 65536" by (simp add: json_frame_def)
  with b show "inbuf_ok (inb (g_clients (upd_client 0 (inb_update (\<lambda>_. \<lparr>in_buf = ?b @ [0],
       in_used = 65539, expected_len = 65536\<rparr>)) (demo_server fresh_engine)) ! 0))"
    by (simp add: demo_server_def inbuf_ok_def TLSV2_MAX_JSON_SIZE_def upd_client_def)
  from b show "pending (inb (g_clients (upd_client 0 (inb_update (\<lambda>_. \<lparr>in_buf = ?b @ [0],
       in_used = 65539, expected_len = 65536\<rparr>)) (demo_server fresh_engine)) ! 0)) = ?b"
    by (simp add: demo_server_def pending_def upd_client_def)
qed (simp_all add: TLSV2_MAX_JSON_SIZE_def json_frame_def)

section \<open>Sending messages\<close>

text \<open>
  C26. \<open>tlsv2_send_json\<close> by cases: a message that is too long or for an unknown client is refused with
  -1, one for a client whose last message is still being written with -2, both without any effect;
  otherwise the first slot with that descriptor holds exactly the frame of the message as its unsent
  bytes, and no other slot changes.
\<close>

theorem send_json_cases:
  assumes "\<forall>c \<in> set (g_clients s). outbuf_ok (outb c)"
  shows "case first_slot (client_matches client_id) (g_clients s) 0 of
      None \<Rightarrow> tlsv2_send_json s client_id json = (s, -1)
    | Some i \<Rightarrow>
        if length json > TLSV2_MAX_JSON_SIZE then tlsv2_send_json s client_id json = (s, -1)
        else if unsent (outb (g_clients s ! i)) \<noteq> [] then tlsv2_send_json s client_id json = (s, -2)
        else \<exists>f. tlsv2_send_json s client_id json = (upd_client i (outb_update (\<lambda>_. f)) s, 0)
               \<and> unsent f = json_frame json \<and> outbuf_ok f"
proof (cases "first_slot (client_matches client_id) (g_clients s) 0")
  case None
  then show ?thesis by (simp add: tlsv2_send_json_def)
next
  case (Some i)
  then have "g_clients s ! i \<in> set (g_clients s)" using first_slot_Some [OF Some] by simp
  then have ok: "outbuf_ok (outb (g_clients s ! i))" using assms by blast
  have u: "unsent (outb (g_clients s ! i)) = [] \<longleftrightarrow> out_used (outb (g_clients s ! i)) = out_sent (outb (g_clients s ! i))"
    using length_unsent [OF ok] ok by (auto simp: outbuf_ok_def)
  have self: "upd_client i (outb_update (\<lambda>_. outb (g_clients s ! i))) s = s" by (simp add: upd_client_def)
  from Some u self json_put_idle [OF ok] show ?thesis
    by (auto simp: tlsv2_send_json_def json_put_def)
qed

theorem send_json_cases_witness:
  "\<exists>f. tlsv2_send_json (demo_server fresh_engine) 5 [123, 125] = (upd_client 0 (outb_update (\<lambda>_. f)) (demo_server fresh_engine), 0)
     \<and> unsent f = [0, 0, 0, 2, 123, 125]"
proof -
  have "\<forall>c \<in> set (g_clients (demo_server fresh_engine)). outbuf_ok (outb c)"
    by (simp add: demo_server_def outbuf_ok_def TLSV2_MAX_JSON_SIZE_def)
  moreover have "first_slot (client_matches 5) (g_clients (demo_server fresh_engine)) 0 = Some 0"
      "unsent (outb (g_clients (demo_server fresh_engine) ! 0)) = []"
    by (simp_all add: demo_server_def client_matches_def unsent_def)
  ultimately show ?thesis
    using send_json_cases [of "demo_server fresh_engine" 5 "[123, 125]"]
    by (auto simp: TLSV2_MAX_JSON_SIZE_def json_frame_def htonl_bytes_def)
qed

lemma write_plain_small:
  assumes "steady e" "out_gather e" "outbuf_ok f" "unsent f \<noteq> []" "oxa e + length (unsent f) < oxb e"
  shows "write_plain_loop e f =
    Some (e\<lparr>mem := store (mem e) (ptr (obuf e) + oxa e) (unsent f), oxa := oxa e + length (unsent f)\<rparr>,
      f\<lparr>out_used := 0, out_sent := 0\<rparr>, 1)"
proof -
  have "0 < length (unsent f)" using assms(4) by simp
  then have n: "length (unsent f) = out_used f - out_sent f" "out_sent f < out_used f"
    using length_unsent [OF assms(3)] by simp_all
  have l: "ibuf e \<noteq> obuf e" "oxb e < 2 ^ 64" "\<not> br_ssl_engine_closed e"
    using assms(2) steady_regs [OF assms(1)] assms(1) by (auto simp: steady_def io_inv_def buf_ok_def out_gather_def)
  have st: "br_ssl_engine_current_state e AND BR_SSL_SENDAPP \<noteq> 0"
    using state_bits(4) [of e] steady_gather_state(2) [OF assms(1,2)] l(3) by simp
  have "\<not> oxb e - oxa e < out_used f - out_sent f" "oxb e - oxa e \<noteq> 0" using assms(5) n(1) by auto
  with st steady_gather_state(2) [OF assms(1,2)] n l assms(5) show ?thesis
    by (subst write_plain_loop.simps)
      (simp add: Let_def br_ssl_engine_sendapp_ack_def sendpld_ack_partial unsent_def [symmetric])
qed

lemma engine_send_idle:
  "fst (br_ssl_engine_sendrec_buf e) = None \<Longrightarrow> tlsv2_engine_send os hs cfd e y = Some (e, y, 0)"
  using state_bits(2) [of e] by (subst tlsv2_engine_send.simps) simp

lemma set_eng_self [simp]: "set_eng c (eng (sc c)) = c"
  by (simp add: set_eng_def)

lemma upd_client_id: "f (g_clients s ! i) = g_clients s ! i \<Longrightarrow> upd_client i f s = s"
  by (simp add: upd_client_def)

lemma upd_client_eng: "eng (sc (g_clients s ! i)) = e \<Longrightarrow> upd_client i (\<lambda>c. set_eng c e) s = s"
  by (auto intro: upd_client_id)

text \<open>
  C29. A reply that fits the engine's window is not sent: \<open>tlsv2_engine_write_plain\<close> moves the whole
  queued message into the engine and reports success, the message is no longer queued, but the
  engine has assembled no record from it, so the following \<open>tlsv2_engine_send\<close> writes nothing to the
  socket. Nothing in the server calls \<open>br_ssl_engine_flush\<close>; the bytes wait until later messages
  fill the window.
\<close>

theorem small_reply_not_sent:
  assumes "i < length (g_clients s)" "e = eng (sc (g_clients s ! i))" "steady e" "out_gather e"
    and "f = outb (g_clients s ! i)" "outbuf_ok f" "unsent f \<noteq> []" "oxa e + length (unsent f) < oxb e"
  shows "\<exists>t. tlsv2_engine_write_plain i s = Some (t, 1) \<and> unsent (outb (g_clients t ! i)) = [] \<and> sys t = sys s
    \<and> pump (tlsv2_engine_send os hs) i t = Some (t, 0)"
proof -
  let ?n = "length (unsent f)"
  define e' where "e' = e\<lparr>mem := store (mem e) (ptr (obuf e) + oxa e) (unsent f), oxa := oxa e + ?n\<rparr>"
  define t where "t = upd_client i (\<lambda>c. set_eng (c\<lparr>outb := f\<lparr>out_used := 0, out_sent := 0\<rparr>\<rparr>) e') s"
  have "out_sent f < out_used f" using length_unsent [OF assms(6)] assms(7) by (auto simp: unsent_def)
  then have w: "tlsv2_engine_write_plain i s = Some (t, 1)"
    using write_plain_small [OF assms(3,4,6-8)] assms(2,5)
    by (simp add: tlsv2_engine_write_plain_def t_def e'_def Let_def)
  have "steady e'" "out_gather e'" using steady_append [OF assms(3,4,8)] by (simp_all add: e'_def)
  then have "fst (br_ssl_engine_sendrec_buf e') = None" by (rule steady_gather_state(1))
  moreover have "eng (sc (g_clients t ! i)) = e'" using assms(1) by (simp add: t_def set_eng_def)
  ultimately have "pump (tlsv2_engine_send os hs) i t = Some (t, 0)"
    by (simp add: pump_def engine_send_idle upd_client_eng)
  with w assms(1) show ?thesis by (auto simp: t_def set_eng_def unsent_def)
qed

theorem small_reply_not_sent_witness:
  "\<exists>t. tlsv2_engine_write_plain 0 (fst (tlsv2_send_json (demo_server open_engine) 5 [123, 125])) = Some (t, 1)
     \<and> pump (tlsv2_engine_send quiet_os hs_discard) 0 t = Some (t, 0)"
proof -
  let ?s = "fst (tlsv2_send_json (demo_server open_engine) 5 [123, 125])"
  have c: "outbuf_ok (outb (g_clients (demo_server open_engine) ! 0))"
      "out_used (outb (g_clients (demo_server open_engine) ! 0)) = out_sent (outb (g_clients (demo_server open_engine) ! 0))"
      "first_slot (client_matches 5) (g_clients (demo_server open_engine)) 0 = Some 0"
    by (simp_all add: demo_server_def outbuf_ok_def client_matches_def TLSV2_MAX_JSON_SIZE_def)
  obtain g where g: "json_put (outb (g_clients (demo_server open_engine) ! 0)) [123, 125] = (g, 0)"
      "unsent g = json_frame [123, 125]" "outbuf_ok g"
    using json_put_idle [OF c(1,2), of "[123, 125]"] by (auto simp: TLSV2_MAX_JSON_SIZE_def)
  have s: "?s = upd_client 0 (outb_update (\<lambda>_. g)) (demo_server open_engine)"
    using c(3) g(1) by (simp add: tlsv2_send_json_def TLSV2_MAX_JSON_SIZE_def)
  have k: "0 < length (g_clients ?s)" "open_engine = eng (sc (g_clients ?s ! 0))" "g = outb (g_clients ?s ! 0)"
    unfolding s by (simp_all add: demo_server_def)
  have l: "unsent g \<noteq> []" "oxa open_engine + length (unsent g) < oxb open_engine"
    using g(2) by (auto simp: json_frame_def open_engine_def)
  from small_reply_not_sent [OF k(1,2) open_engine_steady(1,2) k(3) g(3) l, of quiet_os hs_discard] show ?thesis by blast
qed

section \<open>Connections that end\<close>

text \<open>
  End of stream is taken for \<open>would block\<close> after any earlier \<open>EAGAIN\<close>: when the peer has closed
  the socket and the engine wants record bytes, \<open>tlsv2_engine_recv\<close> reports an error only if the
  last failed system call left another error number in \<open>errno\<close>; after an \<open>EAGAIN\<close> it reports
  success and the client is kept.
\<close>

theorem eof_depends_on_errno:
  assumes "br_ssl_engine_current_state e AND BR_SSL_RECVREC \<noteq> 0" "br_ssl_engine_recvrec_buf e = (Some p, len)" "0 < len"
    and "sys_read os cfd len (world y) = (w, Done [])"
  shows "tlsv2_engine_recv os hs cfd e y
    = Some (e, y\<lparr>world := w\<rparr>, if errno y = EAGAIN then 0 else -1)"
  using assms low_read_eof [OF assms(4)]
  by (subst tlsv2_engine_recv.simps) (simp add: gfns_would_block_def EAGAIN_def EWOULDBLOCK_def)

theorem eof_depends_on_errno_witness:
  "tlsv2_engine_recv quiet_os hs_discard 5 fresh_engine \<lparr>world = (), errno = EAGAIN\<rparr>
     = Some (fresh_engine, \<lparr>world = (), errno = EAGAIN\<rparr>, 0)"
proof -
  have b: "br_ssl_engine_recvrec_buf fresh_engine = (Some 0, 5)"
    by (simp add: br_ssl_engine_recvrec_buf_def recvrec_buf_def fresh_engine_eq br_ssl_zero_def sz_simps)
  have "br_ssl_engine_current_state fresh_engine AND BR_SSL_RECVREC \<noteq> 0"
    using state_bits(3) [of fresh_engine] b fresh_engine_ok(3) by simp
  from eof_depends_on_errno [OF this b, of quiet_os 5 "\<lparr>world = (), errno = EAGAIN\<rparr>" "()" hs_discard] show ?thesis
    by (simp add: quiet_os_def)
qed

text \<open>
  An open client whose engine has closed is never closed: the handler looks at \<open>BR_SSL_CLOSED\<close>
  only during the handshake, so when an established connection fails or ends, serving the client
  changes nothing at all; its slot and its descriptor stay in use, turn after turn.
\<close>

theorem closed_open_client_kept:
  assumes "i < length (g_clients s)" "state (g_clients s ! i) = TLSV2_STATE_OPEN"
    and "br_ssl_engine_closed (eng (sc (g_clients s ! i)))"
  shows "tlsv2_handle_client os env s i = Some s"
proof -
  let ?e = "eng (sc (g_clients s ! i))"
  have st: "br_ssl_engine_current_state ?e AND BR_SSL_RECVREC = 0" "br_ssl_engine_current_state ?e AND BR_SSL_RECVAPP = 0"
      "br_ssl_engine_current_state ?e AND BR_SSL_SENDAPP = 0" "br_ssl_engine_current_state ?e AND BR_SSL_SENDREC = 0"
    using state_bits(2-5) [of ?e] assms(3) by auto
  have r: "pump (tlsv2_engine_recv os hs) i s = Some (s, 0)" "pump (tlsv2_engine_send os hs) i s = Some (s, 0)" for hs
    using st by (simp_all add: pump_def tlsv2_engine_recv.simps tlsv2_engine_send.simps upd_client_id)
  have "tlsv2_engine_read_plain os i s = Some (s, 0)"
    using st by (subst tlsv2_engine_read_plain.simps) simp
  moreover have "tlsv2_engine_write_plain i s = Some (s, 0)"
    using st by (simp add: tlsv2_engine_write_plain_def write_plain_loop.simps Let_def upd_client_id)
  ultimately show ?thesis using assms(2) r by (simp add: tlsv2_handle_client_def Let_def)
qed

definition demo_env :: "(unit, unit, unit) tls_env" where
  "demo_env = \<lparr>hsrun_of = hs_discard, hsinit_of = id, rngops_of = \<lparr>hash_id = (\<lambda>_. True), drbg_init = (\<lambda>_. ()),
     drbg_update = (\<lambda>_ _. ()), seeder_system = Some (\<lambda>_. ((), True))\<rparr>,
     impls_of = \<lparr>br_tls10_prf = (\<lambda>_ _ _ _. []), br_tls12_sha256_prf = (\<lambda>_ _ _ _. []), br_tls12_sha384_prf = (\<lambda>_ _ _ _. []),
       default_ghash = zero_ghash, default_chacha20 = (\<lambda>_ _ _ _. ([], 0)), default_poly1305 = zero_poly\<rparr>,
     decode_of = (\<lambda>_. Some ()), cpu0 = (), rng0 = ()\<rparr>"

theorem closed_open_client_kept_witness:
  "tlsv2_handle_client quiet_os demo_env (demo_server (br_ssl_engine_fail fresh_engine BR_ERR_BAD_MAC)) 0
     = Some (demo_server (br_ssl_engine_fail fresh_engine BR_ERR_BAD_MAC))"
  by (rule closed_open_client_kept) (simp_all add: demo_server_def)

end
