(* ===== verification/Tls_V3_Server_Inv.thy ===== *)
theory Tls_V3_Server_Inv
  imports Tls_V3_Server_Props
begin

text \<open>
  The invariant of the server of \<open>tls_wrapper_v3.c\<close> over any number of turns of its loop: every
  slot in use has a well-formed engine and well-formed framing buffers, and the process has open
  exactly the descriptors it had before serving and one for each slot in use. The behaviour of the
  system calls is the predicate \<open>os_ok\<close>, with \<open>fds\<close> the set of open descriptors of a world.
\<close>

unbundle bit_operations_syntax

section \<open>The invariant\<close>

definition os_ok :: "'w os \<Rightarrow> ('w \<Rightarrow> int set) \<Rightarrow> bool" where
  "os_ok os fds \<longleftrightarrow>
     (\<forall>d n w w' r. sys_read os d n w = (w', r) \<longrightarrow> fds w' = fds w \<and> (\<forall>bs. r = Done bs \<longrightarrow> length bs \<le> n))
     \<and> (\<forall>d bs w w' r. sys_write os d bs w = (w', r) \<longrightarrow> fds w' = fds w \<and> (\<forall>n. r = Done n \<longrightarrow> n \<le> length bs))
     \<and> (\<forall>d w. fds (fst (sys_getfl os d w)) = fds w) \<and> (\<forall>d x w. fds (fst (sys_setfl os d x w)) = fds w)
     \<and> (\<forall>r x w. fds (fst (sys_select os r x w)) = fds w) \<and> (\<forall>n w. fds (fst (c_malloc os n w)) = fds w)
     \<and> (\<forall>d w w' e. sys_accept os d w = (w', Fail e) \<longrightarrow> fds w' = fds w)
     \<and> (\<forall>d w w' c. sys_accept os d w = (w', Done c) \<longrightarrow> c \<notin> fds w \<and> c \<noteq> GFNS_INVALID_SOCK \<and> fds w' = insert c (fds w))
     \<and> (\<forall>d w. fds (sys_close os d w) = fds w - {d})"

lemma os_okD:
  assumes "os_ok os fds"
  shows "sys_read os d n w = (w', r) \<Longrightarrow> fds w' = fds w"
    "sys_read os d n w = (w', Done bs) \<Longrightarrow> length bs \<le> n"
    "sys_write os d bs w = (w', q) \<Longrightarrow> fds w' = fds w"
    "sys_write os d bs w = (w', Done k) \<Longrightarrow> k \<le> length bs"
    "sys_getfl os d w = (w', g) \<Longrightarrow> fds w' = fds w" "sys_setfl os d x w = (w', u) \<Longrightarrow> fds w' = fds w"
    "sys_select os rd wr w = (w', v) \<Longrightarrow> fds w' = fds w" "c_malloc os n w = (w', ok) \<Longrightarrow> fds w' = fds w"
    "sys_accept os d w = (w', Fail e) \<Longrightarrow> fds w' = fds w"
    "sys_accept os d w = (w', Done c) \<Longrightarrow> c \<notin> fds w \<and> c \<noteq> GFNS_INVALID_SOCK \<and> fds w' = insert c (fds w)"
    "fds (sys_close os d w) = fds w - {d}"
  using assms unfolding os_ok_def by (metis fst_conv)+

definition in_use :: "('c, 'r, 'k, 'w, 'a) server \<Rightarrow> nat set" where
  "in_use s = {i. i < length (g_clients s) \<and> state (g_clients s ! i) \<noteq> TLSV2_STATE_UNUSED}"

definition fd_of :: "('c, 'r, 'k, 'w, 'a) server \<Rightarrow> nat \<Rightarrow> int" where
  "fd_of s i = fd (g_clients s ! i)"

text \<open>
  \<open>X\<close> is the set of slots whose receive side may be out of order: the slot of a connection that is
  about to be closed.
\<close>

definition slots_ok :: "nat set \<Rightarrow> ('c, 'r, 'k, 'w, 'a) server \<Rightarrow> bool" where
  "slots_ok X s \<longleftrightarrow> length (g_clients s) = TLSV2_MAX_CLIENTS
     \<and> (\<forall>i < TLSV2_MAX_CLIENTS. let c = g_clients s ! i in
          length (in_buf (inb c)) = TLSV2_MAX_JSON_SIZE + 4 \<and> outbuf_ok (outb c)
          \<and> (i \<in> in_use s \<longrightarrow> io_inv (eng (sc c)) \<and> (i \<notin> X \<longrightarrow> inbuf_ok (inb c))))"

definition fds_ok :: "('w \<Rightarrow> int set) \<Rightarrow> int set \<Rightarrow> ('c, 'r, 'k, 'w, 'a) server \<Rightarrow> bool" where
  "fds_ok fds B s \<longleftrightarrow> inj_on (fd_of s) (in_use s) \<and> fds (world (sys s)) = B \<union> fd_of s ` in_use s
     \<and> B \<inter> fd_of s ` in_use s = {} \<and> GFNS_INVALID_SOCK \<notin> fd_of s ` in_use s"

definition server_inv :: "('w \<Rightarrow> int set) \<Rightarrow> int set \<Rightarrow> nat set \<Rightarrow> ('c, 'r, 'k, 'w, 'a) server \<Rightarrow> bool" where
  "server_inv fds B X s \<longleftrightarrow> slots_ok X s \<and> fds_ok fds B s"

lemma server_inv_mono: "server_inv fds B X s \<Longrightarrow> X \<subseteq> Y \<Longrightarrow> server_inv fds B Y s"
  by (auto simp: server_inv_def slots_ok_def Let_def)

lemma slots_ok_nth:
  assumes "slots_ok X s" "i < TLSV2_MAX_CLIENTS"
  shows "length (in_buf (inb (g_clients s ! i))) = TLSV2_MAX_JSON_SIZE + 4" "outbuf_ok (outb (g_clients s ! i))"
    "i \<in> in_use s \<Longrightarrow> io_inv (eng (sc (g_clients s ! i)))"
    "i \<in> in_use s \<Longrightarrow> i \<notin> X \<Longrightarrow> inbuf_ok (inb (g_clients s ! i))"
    "length (g_clients s) = TLSV2_MAX_CLIENTS"
  using assms by (auto simp: slots_ok_def Let_def)

text \<open>Updating one slot: what has to be checked of the new slot.\<close>

lemma server_inv_upd:
  assumes "server_inv fds B X s" "i < TLSV2_MAX_CLIENTS"
    and "let c = f (g_clients s ! i) in fd c = fd (g_clients s ! i) \<and>
      (state c = TLSV2_STATE_UNUSED \<longleftrightarrow> state (g_clients s ! i) = TLSV2_STATE_UNUSED) \<and>
      length (in_buf (inb c)) = TLSV2_MAX_JSON_SIZE + 4 \<and> outbuf_ok (outb c) \<and>
      (i \<in> in_use s \<longrightarrow> io_inv (eng (sc c)) \<and> (i \<notin> Y \<longrightarrow> inbuf_ok (inb c)))"
    and "X - {i} \<subseteq> Y"
  shows "server_inv fds B Y (upd_client i f s)"
proof -
  let ?t = "upd_client i f s"
  have l: "length (g_clients s) = TLSV2_MAX_CLIENTS" using assms(1) by (simp add: server_inv_def slots_ok_def)
  have u: "in_use ?t = in_use s" using assms(2,3) l by (auto simp: in_use_def upd_client_nth Let_def)
  have d: "fd_of ?t j = fd_of s j" for j using assms(2,3) l by (auto simp: fd_of_def upd_client_nth Let_def)
  have "slots_ok Y ?t"
    using assms l u by (auto simp: server_inv_def slots_ok_def upd_client_nth Let_def)
  moreover have "fds_ok fds B ?t"
    using assms(1) d by (simp add: server_inv_def fds_ok_def u image_cong [OF refl d] inj_on_cong [of _ "fd_of ?t" "fd_of s"])
  ultimately show ?thesis by (simp add: server_inv_def)
qed

lemma server_inv_sys:
  assumes "server_inv fds B X s" "fds (world y) = fds (world (sys s))"
  shows "server_inv fds B X (s\<lparr>sys := y\<rparr>)"
proof -
  have "in_use (s\<lparr>sys := y\<rparr>) = in_use s" "fd_of (s\<lparr>sys := y\<rparr>) = fd_of s"
    by (simp_all add: in_use_def fd_of_def fun_eq_iff)
  with assms show ?thesis by (simp add: server_inv_def slots_ok_def fds_ok_def)
qed

section \<open>Callbacks\<close>

lemma send_json_outs:
  assumes "\<forall>c \<in> set (g_clients s). outbuf_ok (outb c)" "tlsv2_send_json s client_id json = (t, r)"
  shows "\<forall>c \<in> set (g_clients t). outbuf_ok (outb c)"
proof (cases "length json > TLSV2_MAX_JSON_SIZE \<or> first_slot (client_matches client_id) (g_clients s) 0 = None")
  case True
  then have "t = s" using assms(2) by (auto simp: tlsv2_send_json_def split: if_splits)
  with assms show ?thesis by simp
next
  case False
  then obtain i where i: "first_slot (client_matches client_id) (g_clients s) 0 = Some i" by auto
  then have "outbuf_ok (outb (g_clients s ! i))" using assms(1) first_slot_Some [OF i] by simp
  with json_put_ok [OF this, of json] False i assms show ?thesis
    by (auto simp: tlsv2_send_json_def upd_client_def split: prod.splits dest!: set_update_subset_insert [THEN subsetD])
qed

lemma run_act_outs:
  "\<forall>c \<in> set (g_clients s). outbuf_ok (outb c) \<Longrightarrow> \<forall>c \<in> set (g_clients (run_act a s)). outbuf_ok (outb c)"
  by (rule v3app.run_inv [where P = "\<lambda>s. \<forall>c \<in> set (g_clients s). outbuf_ok (outb c)"]) (simp_all add: send_json_outs)

lemma same_but_out_use: "same_but_out s t \<Longrightarrow> in_use t = in_use s"
  using same_but_out_nth [of s t] unfolding in_use_def
  by (auto simp: same_but_out_def dest: map_eq_imp_length_eq)

lemma server_inv_same:
  assumes "server_inv fds B X s" "same_but_out s t" "\<forall>c \<in> set (g_clients t). outbuf_ok (outb c)"
  shows "server_inv fds B X t"
proof -
  have u: "in_use t = in_use s" by (rule same_but_out_use [OF assms(2)])
  have l: "length (g_clients s) = TLSV2_MAX_CLIENTS" "length (g_clients t) = length (g_clients s)"
    using assms(1,2) by (auto simp: server_inv_def slots_ok_def same_but_out_def dest: map_eq_imp_length_eq)
  note n = same_but_out_nth [OF assms(2)]
  have d: "fd_of t j = fd_of s j" if "j \<in> in_use s" for j using that n(2) [of j] by (simp add: fd_of_def in_use_def)
  have "slots_ok X t"
    using assms(1,3) l n u by (auto simp: server_inv_def slots_ok_def Let_def)
  moreover have "inj_on (fd_of t) (in_use t)" "fd_of t ` in_use t = fd_of s ` in_use s"
    using assms(1) d u by (auto simp: server_inv_def fds_ok_def inj_on_def)
  then have "fds_ok fds B t"
    using assms(1,2) by (simp add: server_inv_def fds_ok_def same_but_out_def)
  ultimately show ?thesis by (simp add: server_inv_def)
qed

lemma server_inv_outs: "server_inv fds B X s \<Longrightarrow> \<forall>c \<in> set (g_clients s). outbuf_ok (outb c)"
  by (auto simp: server_inv_def slots_ok_def Let_def in_set_conv_nth)

lemma run_act_inv: "server_inv fds B X s \<Longrightarrow> server_inv fds B X (run_act a s)"
  using server_inv_same [OF _ run_act_same] run_act_outs [OF server_inv_outs] by blast

lemma deliver_json_inv: "server_inv fds B X s \<Longrightarrow> server_inv fds B X (deliver_json i s json)"
  by (simp add: deliver_json_def run_act_inv split: option.splits)

lemma deliver_json_use [simp]: "in_use (deliver_json i s json) = in_use s"
  by (rule same_but_out_use [OF deliver_json_same])

section \<open>Closing and accepting\<close>

lemma close_inv:
  assumes "server_inv fds B X s" "os_ok os fds" "i < TLSV2_MAX_CLIENTS"
  shows "server_inv fds B (X - {i}) (tlsv2_client_close os s i)"
proof (cases "i \<in> in_use s")
  case False
  then have "tlsv2_client_close os s i = s"
    using assms(1,3) by (auto simp: tlsv2_client_close_def in_use_def server_inv_def slots_ok_def)
  moreover have "server_inv fds B (X - {i}) s"
    using assms(1) False by (auto simp: server_inv_def slots_ok_def Let_def)
  ultimately show ?thesis by simp
next
  case True
  define t where "t = upd_client i (\<lambda>c. c\<lparr>fd := GFNS_INVALID_SOCK, state := TLSV2_STATE_UNUSED\<rparr>)
      (s\<lparr>sys := gfns_close_socket os (fd_of s i) (sys s)\<rparr>)"
  have l: "length (g_clients s) = TLSV2_MAX_CLIENTS" and "GFNS_INVALID_SOCK \<notin> fd_of s ` in_use s"
    using assms(1) by (auto simp: server_inv_def slots_ok_def fds_ok_def)
  then have v: "fd_of s i \<noteq> GFNS_INVALID_SOCK" using True by (metis imageI)
  have eq: "tlsv2_client_close os s i = (case on_client_disconnected (g_cfg t) of
      None \<Rightarrow> t | Some cb \<Rightarrow> run_act (cb (fd_of s i) (app t)) t)"
    using True v by (auto simp: tlsv2_client_close_def t_def fd_of_def in_use_def Let_def split: option.splits)
  have u: "in_use t = in_use s - {i}" using l assms(3) by (auto simp: t_def in_use_def upd_client_nth)
  have d: "fd_of t j = fd_of s j" if "j \<noteq> i" for j using that by (auto simp: t_def fd_of_def upd_client_nth)
  have "slots_ok (X - {i}) t"
    using assms(1,3) l u by (auto simp: server_inv_def slots_ok_def t_def upd_client_nth Let_def)
  moreover have "fds_ok fds B t"
  proof -
    have i: "fd_of t ` in_use t = fd_of s ` in_use s - {fd_of s i}" "inj_on (fd_of t) (in_use t)"
      using assms(1) True d u by (auto simp: server_inv_def fds_ok_def inj_on_def)
    moreover have "fds (world (sys t)) = fds (world (sys s)) - {fd_of s i}"
      using assms(2) by (simp add: t_def gfns_close_socket_def os_ok_def)
    ultimately show ?thesis using assms(1) True by (auto simp: server_inv_def fds_ok_def)
  qed
  ultimately have "server_inv fds B (X - {i}) t" by (simp add: server_inv_def)
  then show ?thesis by (simp add: eq run_act_inv split: option.splits)
qed

lemma close_inv_clean:
  "server_inv fds B {i} s \<Longrightarrow> os_ok os fds \<Longrightarrow> i < TLSV2_MAX_CLIENTS \<Longrightarrow> server_inv fds B {} (tlsv2_client_close os s i)"
  using close_inv [of fds B "{i}" s os i] by simp

lemma client_setup_ok:
  assumes "hs_contract (hsrun_of env)" "length (in_buf (inb c)) = TLSV2_MAX_JSON_SIZE + 4" "outbuf_ok (outb c)"
  shows "\<exists>c'. client_setup env c cfd certs' key = Some c' \<and> fd c' = cfd \<and> state c' = TLSV2_STATE_HANDSHAKE
    \<and> io_inv (eng (sc c')) \<and> inbuf_ok (inb c') \<and> pending (inb c') = [] \<and> outbuf_ok (outb c') \<and> unsent (outb c') = []
    \<and> length (in_buf (inb c')) = TLSV2_MAX_JSON_SIZE + 4"
proof -
  define ctx where "ctx = br_ssl_server_init_full_rsa (impls_of env) (cpu0 env) (rng0 env) (mem (eng (sc c))) certs' key"
  define ctx' where "ctx' = ctx\<lparr>eng := br_ssl_engine_set_buffers_bidi (eng ctx) (Some iobuf_addr) TLSV2_IOBUF_SIZE
      (Some plainbuf_addr) TLSV2_PLAINTEXT_SIZE\<rparr>"
  have "has_buffers (eng ctx')"
    using wrapper_buffers [of iobuf_addr plainbuf_addr "eng ctx"]
    by (simp add: ctx'_def ctx_def iobuf_addr_def plainbuf_addr_def TLSV2_IOBUF_SIZE_def TLSV2_PLAINTEXT_SIZE_def)
  from server_reset_inv [OF assms(1) this, of "rngops_of env" "hsinit_of env"] obtain c2 ok where
    "br_ssl_server_reset (rngops_of env) (hsinit_of env) (hsrun_of env) ctx' = Some (c2, ok)" "io_inv (eng c2)" by auto
  with assms(2,3) show ?thesis
    by (simp add: client_setup_def Let_def ctx_def [symmetric] ctx'_def [symmetric] inbuf_ok_def outbuf_ok_def
        pending_def unsent_def)
qed

lemma alloc_inv:
  assumes "server_inv fds (insert cfd B) {} s" "cfd \<notin> B" "cfd \<noteq> GFNS_INVALID_SOCK" "hs_contract (hsrun_of env)"
  shows "\<exists>t r. tlsv2_client_alloc env s cfd certs' key = Some (t, r)
    \<and> (case r of None \<Rightarrow> t = s | Some i \<Rightarrow> server_inv fds B {} t) \<and> sys t = sys s \<and> g_listen_fd t = g_listen_fd s"
proof (cases "first_slot (\<lambda>c. state c = TLSV2_STATE_UNUSED) (g_clients s) 0")
  case None
  then show ?thesis by (simp add: tlsv2_client_alloc_def)
next
  case (Some i)
  note fs = first_slot_Some [OF Some]
  have l: "length (g_clients s) = TLSV2_MAX_CLIENTS" using assms(1) by (simp add: server_inv_def slots_ok_def)
  have i: "i < TLSV2_MAX_CLIENTS" "i \<notin> in_use s" using fs l by (auto simp: in_use_def)
  have s: "slots_ok {} s" "fds_ok fds (insert cfd B) s" using assms(1) by (auto simp: server_inv_def)
  from client_setup_ok [OF assms(4) slots_ok_nth(1,2) [OF s(1) i(1)]] obtain c' where
    c: "client_setup env (g_clients s ! i) cfd certs' key = Some c'" "fd c' = cfd" "state c' = TLSV2_STATE_HANDSHAKE"
      "io_inv (eng (sc c'))" "inbuf_ok (inb c')" "outbuf_ok (outb c')" "length (in_buf (inb c')) = TLSV2_MAX_JSON_SIZE + 4"
    by blast
  define t where "t = upd_client i (\<lambda>_. c') s"
  have u: "in_use t = insert i (in_use s)" using i l c(3) by (auto simp: t_def in_use_def upd_client_nth)
  have d: "fd_of t j = (if j = i then cfd else fd_of s j)" for j
    using i l c(2) by (auto simp: t_def fd_of_def upd_client_nth)
  have "slots_ok {} t"
    using s(1) l c i u by (auto simp: slots_ok_def t_def upd_client_nth Let_def)
  moreover have "fds_ok fds B t"
  proof -
    have im: "fd_of t ` in_use t = insert cfd (fd_of s ` in_use s)"
      unfolding u using i(2) by (auto simp: d image_iff)
    have "cfd \<notin> fd_of s ` in_use s" using s(2) by (auto simp: fds_ok_def)
    then have "inj_on (fd_of t) (in_use t)"
      using s(2) i(2) unfolding fds_ok_def inj_on_def u by (auto simp: d)
    moreover have "fds (world (sys t)) = fds (world (sys s))" by (simp add: t_def)
    ultimately show ?thesis using s(2) assms(2,3) by (auto simp: fds_ok_def im)
  qed
  ultimately show ?thesis using Some c(1) by (simp add: tlsv2_client_alloc_def t_def server_inv_def)
qed

lemma set_nonblocking_fds:
  assumes "os_ok os fds" "gfns_set_nonblocking os d y = (y', r)"
  shows "fds (world y') = fds (world y)"
proof -
  obtain w1 g where g: "sys_getfl os d (world y) = (w1, g)" by fastforce
  show ?thesis
  proof (cases g)
    case (Done x)
    obtain w2 u where u: "sys_setfl os d (x OR O_NONBLOCK) w1 = (w2, u)" by fastforce
    from assms(2) g u Done os_okD(5) [OF assms(1) g] os_okD(6) [OF assms(1) u] show ?thesis
      by (cases u) (auto simp: gfns_set_nonblocking_def syscall_def)
  next
    case (Fail x)
    with assms(2) g have "y' = y\<lparr>world := w1, errno := x\<rparr>" by (simp add: gfns_set_nonblocking_def syscall_def)
    with os_okD(5) [OF assms(1) g] show ?thesis by simp
  qed
qed

lemma accept_inv:
  assumes "tlsv2_accept_new_client os env s certs' key = Some t" "server_inv fds B {} s" "os_ok os fds"
    and "hs_contract (hsrun_of env)"
  shows "server_inv fds B {} t"
  using assms
proof (induction os env s certs' key t
    rule: tlsv2_accept_new_client.raw_induct [rotated, consumes 1, case_names step])
  case (step f os env s certs' key t)
  note IH = step(1) and eq = step(2) and inv = step(3) and os = step(4) and hs = step(5)
  obtain y r where a: "syscall (sys_accept os (g_listen_fd s)) (sys s) = (y, r)" by fastforce
  obtain w q where q: "sys_accept os (g_listen_fd s) (world (sys s)) = (w, q)" by fastforce
  show ?case
  proof (cases r)
    case None
    then have "fds (world y) = fds (world (sys s))"
    proof (cases q)
      case (Fail e)
      with a q have "y = (sys s)\<lparr>world := w, errno := e\<rparr>" by (simp add: syscall_def)
      with os_okD(9) [OF os q [unfolded Fail]] show ?thesis by simp
    qed (use a q None in \<open>simp add: syscall_def\<close>)
    with eq a None server_inv_sys [OF inv] show ?thesis by auto
  next
    case (Some cfd)
    then have c: "cfd \<notin> fds (world (sys s))" "cfd \<noteq> GFNS_INVALID_SOCK" "fds (world y) = insert cfd (fds (world (sys s)))"
    proof -
      have "q = Done cfd" "world y = w" using a q Some by (cases q; auto simp: syscall_def)+
      with os_okD(10) [OF os, of "g_listen_fd s" "world (sys s)" w cfd] q
      show "cfd \<notin> fds (world (sys s))" "cfd \<noteq> GFNS_INVALID_SOCK" "fds (world y) = insert cfd (fds (world (sys s)))"
        by simp_all
    qed
    obtain y1 n where n: "gfns_set_nonblocking os cfd y = (y1, n)" by fastforce
    let ?s1 = "s\<lparr>sys := y1\<rparr>" and ?s2 = "s\<lparr>sys := gfns_close_socket os cfd y1\<rparr>"
    have f1: "fds (world y1) = insert cfd (fds (world (sys s)))" using set_nonblocking_fds [OF os n] c(3) by simp
    have "fds (world (gfns_close_socket os cfd y1)) = fds (world (sys s))"
      using f1 c(1) by (simp add: gfns_close_socket_def os_okD(11) [OF os])
    then have i2: "server_inv fds B {} ?s2" by (rule server_inv_sys [OF inv])
    have ni: "cfd \<notin> B" using inv c(1) by (auto simp: server_inv_def fds_ok_def)
    have i1: "server_inv fds (insert cfd B) {} ?s1"
    proof -
      have "in_use ?s1 = in_use s" "fd_of ?s1 = fd_of s" by (simp_all add: in_use_def fd_of_def fun_eq_iff)
      with inv f1 c(1) show ?thesis by (auto simp: server_inv_def slots_ok_def fds_ok_def)
    qed
    show ?thesis
    proof (cases "n < 0")
      case True
      with eq a Some n have "f os env ?s2 certs' key = Some t" by simp
      from IH [OF this i2 os hs] show ?thesis .
    next
      case False
      from alloc_inv [OF i1 ni c(2) hs] obtain t1 q where
        q: "tlsv2_client_alloc env ?s1 cfd certs' key = Some (t1, q)" "case q of None \<Rightarrow> t1 = ?s1 | Some i \<Rightarrow> server_inv fds B {} t1"
        by blast
      show ?thesis
      proof (cases q)
        case None
        with eq a Some n False q have "f os env ?s2 certs' key = Some t" by simp
        from IH [OF this i2 os hs] show ?thesis .
      next
        case (Some i)
        with eq a \<open>r = Some cfd\<close> n False q have
          f: "f os env (case on_client_connected (g_cfg t1) of None \<Rightarrow> t1 | Some cb \<Rightarrow> run_act (cb cfd (app t1)) t1)
            certs' key = Some t" by simp
        have "server_inv fds B {} (case on_client_connected (g_cfg t1) of None \<Rightarrow> t1 | Some cb \<Rightarrow> run_act (cb cfd (app t1)) t1)"
          using q(2) Some by (auto simp: run_act_inv split: option.splits)
        from IH [OF f this os hs] show ?thesis .
      qed
    qed
  qed
qed

section \<open>Pumping\<close>

lemma low_read_len:
  assumes "os_ok os fds" "tls_low_read os d n y = (y', r)"
  shows "fds (world y') = fds (world y)" "r = Some bs \<Longrightarrow> length bs \<le> n"
  using assms(2) by (auto simp: tls_low_read_def syscall_def split: prod.splits sysres.splits if_splits
      dest: os_okD(1,2) [OF assms(1)])

lemma low_write_len:
  assumes "os_ok os fds" "tls_low_write os d bs y = (y', r)"
  shows "fds (world y') = fds (world y)" "r = Some n \<Longrightarrow> n \<le> length bs"
  using assms(2) by (auto simp: tls_low_write_def syscall_def split: prod.splits sysres.splits if_splits
      dest: os_okD(3,4) [OF assms(1)])

lemma engine_recv_inv:
  assumes "tlsv2_engine_recv os hs d e y = Some res" "os_ok os fds" "hs_contract hs" "io_inv e"
  shows "case res of (e', y', r) \<Rightarrow> io_inv e' \<and> fds (world y') = fds (world y)"
  using assms
proof (induction os hs d e y res rule: tlsv2_engine_recv.raw_induct [rotated, consumes 1, case_names step])
  case (step f os hs d e y res)
  note IH = step(1) and eq = step(2) and os = step(3) and hs = step(4) and ok = step(5)
  obtain p n where b: "br_ssl_engine_recvrec_buf e = (p, n)" by fastforce
  obtain y1 r where r: "tls_low_read os d n y = (y1, r)" by fastforce
  note w = low_read_len [OF os r]
  show ?case
  proof (cases "br_ssl_engine_current_state e AND BR_SSL_RECVREC = 0 \<or> n = 0 \<or> r = None")
    case True
    with eq b r w(1) ok show ?thesis by (auto simp: Let_def split: if_splits)
  next
    case False
    then obtain bs q where bs: "r = Some bs" "p = Some q"
      using state_bits(3) [of e] b by (cases p) auto
    have len: "0 < length bs" "length bs \<le> n" using low_read_nonempty [of os d n y y1 bs] r bs(1) w(2) by auto
    from eq b r bs False obtain e1 where
      e1: "br_ssl_engine_recvrec_ack hs (e\<lparr>mem := store (mem e) q bs\<rparr>) (length bs) = Some e1" "f os hs d e1 y1 = Some res"
      by (auto simp: Let_def bind_eq_Some_conv)
    have "io_inv e1" using io_inv_recvrec [OF hs ok _ len e1(1)] b bs(2) by blast
    with IH [OF e1(2) os hs] w(1) show ?thesis by auto
  qed
qed

lemma engine_send_inv:
  assumes "tlsv2_engine_send os hs d e y = Some res" "os_ok os fds" "hs_contract hs" "io_inv e"
  shows "case res of (e', y', r) \<Rightarrow> io_inv e' \<and> fds (world y') = fds (world y)"
  using assms
proof (induction os hs d e y res rule: tlsv2_engine_send.raw_induct [rotated, consumes 1, case_names step])
  case (step f os hs d e y res)
  note IH = step(1) and eq = step(2) and os = step(3) and hs = step(4) and ok = step(5)
  obtain p n where b: "br_ssl_engine_sendrec_buf e = (p, n)" by fastforce
  obtain y1 r where r: "tls_low_write os d (load (mem e) (ptr p) n) y = (y1, r)" by fastforce
  note w = low_write_len [OF os r]
  show ?case
  proof (cases "br_ssl_engine_current_state e AND BR_SSL_SENDREC = 0 \<or> n = 0 \<or> r = None")
    case True
    with eq b r w(1) ok show ?thesis by (auto simp: Let_def split: if_splits)
  next
    case False
    then obtain k q where k: "r = Some k" "p = Some q"
      using state_bits(2) [of e] b by (cases p) auto
    have len: "k \<le> n" using w(2) k(1) by simp
    from eq b r k False obtain e1 where
      e1: "br_ssl_engine_sendrec_ack hs e k = Some e1" "f os hs d e1 y1 = Some res"
      by (auto simp: Let_def bind_eq_Some_conv)
    have "io_inv e1" using io_inv_sendrec [OF hs ok _ len e1(1)] b k(2) by blast
    with IH [OF e1(2) os hs] w(1) show ?thesis by auto
  qed
qed

lemma in_use_upd:
  assumes "state (f (g_clients s ! i)) = TLSV2_STATE_UNUSED \<longleftrightarrow> state (g_clients s ! i) = TLSV2_STATE_UNUSED"
  shows "in_use (upd_client i f s) = in_use s"
  using assms by (auto simp: in_use_def upd_client_nth)

lemma in_use_sys [simp]: "in_use (s\<lparr>sys := y\<rparr>) = in_use s"
  by (simp add: in_use_def)

lemma set_eng_sel [simp]:
  "fd (set_eng c e) = fd c" "state (set_eng c e) = state c" "inb (set_eng c e) = inb c" "outb (set_eng c e) = outb c"
  "eng (sc (set_eng c e)) = e"
  by (simp_all add: set_eng_def)

lemma server_inv_nth:
  assumes "server_inv fds B X s" "i < TLSV2_MAX_CLIENTS"
  shows "length (in_buf (inb (g_clients s ! i))) = TLSV2_MAX_JSON_SIZE + 4" "outbuf_ok (outb (g_clients s ! i))"
    "i \<in> in_use s \<Longrightarrow> io_inv (eng (sc (g_clients s ! i)))"
    "i \<in> in_use s \<Longrightarrow> i \<notin> X \<Longrightarrow> inbuf_ok (inb (g_clients s ! i))"
    "length (g_clients s) = TLSV2_MAX_CLIENTS"
  using slots_ok_nth [of X s i] assms by (auto simp: server_inv_def)

lemma pump_inv:
  assumes p: "pump f i s = Some (t, r)" and inv: "server_inv fds B {} s" "i \<in> in_use s" "i < TLSV2_MAX_CLIENTS"
    and f: "\<And>d e y res. f d e y = Some res \<Longrightarrow> io_inv e \<Longrightarrow> case res of (e', y', r) \<Rightarrow> io_inv e' \<and> fds (world y') = fds (world y)"
  shows "server_inv fds B {} t" "in_use t = in_use s"
proof -
  let ?c = "g_clients s ! i"
  obtain e y where e: "f (fd ?c) (eng (sc ?c)) (sys s) = Some (e, y, r)" "t = upd_client i (\<lambda>c. set_eng c e) (s\<lparr>sys := y\<rparr>)"
    using p by (auto simp: pump_def Let_def bind_eq_Some_conv)
  note n = server_inv_nth [OF inv(1,3)]
  have g: "io_inv e" "fds (world y) = fds (world (sys s))" using f [OF e(1) n(3) [OF inv(2)]] by auto
  show "server_inv fds B {} t"
    unfolding e(2) using n inv(2) g(1)
    by (intro server_inv_upd [OF server_inv_sys [OF inv(1) g(2)] inv(3)]) (simp_all add: Let_def)
  show "in_use t = in_use s" unfolding e(2) by (subst in_use_upd) simp_all
qed

section \<open>JSON loops\<close>

lemma inbuf_upd_inv:
  assumes "server_inv fds B X s" "i < TLSV2_MAX_CLIENTS" "length (in_buf f) = TLSV2_MAX_JSON_SIZE + 4" "inbuf_ok f \<or> i \<in> Y"
    and "X - {i} \<subseteq> Y"
  shows "server_inv fds B Y (upd_client i (inb_update (\<lambda>_. f)) s)" "in_use (upd_client i (inb_update (\<lambda>_. f)) s) = in_use s"
proof -
  show "server_inv fds B Y (upd_client i (inb_update (\<lambda>_. f)) s)"
    using server_inv_nth [OF assms(1,2)] assms(3-5) by (intro server_inv_upd [OF assms(1,2)]) (auto simp: Let_def)
  show "in_use (upd_client i (inb_update (\<lambda>_. f)) s) = in_use s" by (rule in_use_upd) simp
qed

lemma json_next_inv:
  assumes "inbuf_ok f"
  shows "json_next f = Wait g \<Longrightarrow> inbuf_ok g" "json_next f = Reject g \<Longrightarrow> length (in_buf g) = TLSV2_MAX_JSON_SIZE + 4"
    "json_next f = Ready g \<Longrightarrow> inbuf_ok (fst (json_take g)) \<and> length (in_buf g) = TLSV2_MAX_JSON_SIZE + 4"
proof -
  have len: "length (in_buf g) = TLSV2_MAX_JSON_SIZE + 4" if "json_next f = Wait g \<or> json_next f = Reject g \<or> json_next f = Ready g"
    using that assms by (auto simp: json_next_def inbuf_ok_def Let_def split: if_splits)
  then show "json_next f = Reject g \<Longrightarrow> length (in_buf g) = TLSV2_MAX_JSON_SIZE + 4" by simp
  show "inbuf_ok g" if w: "json_next f = Wait g"
  proof (cases "stuck (pending f)")
    case True
    with json_next_stuck [OF assms] w show ?thesis by (auto split: if_splits)
  next
    case False
    with json_next_frame [OF assms] w show ?thesis by auto
  qed
  show "inbuf_ok (fst (json_take g)) \<and> length (in_buf g) = TLSV2_MAX_JSON_SIZE + 4" if w: "json_next f = Ready g"
  proof (cases "stuck (pending f)")
    case True
    with json_next_stuck [OF assms] w show ?thesis by (auto split: if_splits)
  next
    case False
    with json_next_frame [OF assms] w len show ?thesis by auto
  qed
qed

lemma json_loop_inv:
  assumes "json_loop os i s = Some res" "server_inv fds B {} s" "os_ok os fds" "i \<in> in_use s" "i < TLSV2_MAX_CLIENTS"
  shows "case res of (t, r) \<Rightarrow> server_inv fds B (if r < 0 then {i} else {}) t \<and> in_use t = in_use s"
  using assms
proof (induction os i s res rule: json_loop.raw_induct [rotated, consumes 1, case_names step])
  case (step f os i s res)
  note IH = step(1) and eq = step(2) and inv = step(3) and os = step(4) and u = step(5,6)
  have ok: "inbuf_ok (inb (g_clients s ! i))" using server_inv_nth(4) [OF inv u(2,1)] by simp
  note nx = json_next_inv [OF ok]
  show ?case
  proof (cases "json_next (inb (g_clients s ! i))")
    case (Wait g)
    with eq nx(1) inbuf_upd_inv [OF inv u(2), of g "{}"] show ?thesis by (auto simp: inbuf_ok_def)
  next
    case (Reject g)
    with eq nx(2) inbuf_upd_inv [OF inv u(2), of g "{i}"] show ?thesis by auto
  next
    case (Ready g)
    obtain w b where m: "c_malloc os (unat (expected_len g) + 1) (world (sys s)) = (w, b)" by fastforce
    obtain h json where h: "json_take g = (h, json)" by fastforce
    let ?s = "s\<lparr>sys := (sys s)\<lparr>world := w\<rparr>\<rparr>"
    have i1: "server_inv fds B {} ?s" using server_inv_sys [OF inv] os_okD(8) [OF os m] by simp
    show ?thesis
    proof (cases b)
      case False
      with eq Ready m nx(3) inbuf_upd_inv [OF i1 u(2), of g "{i}"] show ?thesis by auto
    next
      case True
      let ?t = "deliver_json i (upd_client i (inb_update (\<lambda>_. h)) ?s) json"
      have f: "f os i ?t = Some res" using eq Ready m True h by simp
      have "inbuf_ok h" using nx(3) [OF Ready] h by simp
      then have "server_inv fds B {} (upd_client i (inb_update (\<lambda>_. h)) ?s)" "in_use (upd_client i (inb_update (\<lambda>_. h)) ?s) = in_use s"
        using inbuf_upd_inv [OF i1 u(2), of h "{}"] by (simp_all add: inbuf_ok_def)
      then have "server_inv fds B {} ?t" "in_use ?t = in_use s" by (simp_all add: deliver_json_inv)
      with IH [OF f _ os _ u(2)] u(1) show ?thesis by auto
    qed
  qed
qed

lemma json_receive_inv:
  assumes "json_receive os i s chunk = Some (t, r)" "server_inv fds B {} s" "os_ok os fds" "i \<in> in_use s" "i < TLSV2_MAX_CLIENTS"
  shows "server_inv fds B (if r < 0 then {i} else {}) t \<and> in_use t = in_use s"
proof (cases "in_used (inb (g_clients s ! i)) + length chunk > TLSV2_MAX_JSON_SIZE + 4")
  case True
  with assms(1,2) server_inv_mono [OF assms(2), of "{i}"] show ?thesis by (auto simp: json_receive_def Let_def)
next
  case False
  let ?f = "json_append (inb (g_clients s ! i)) chunk"
  have "inbuf_ok ?f"
    using json_append_pending(2) [OF server_inv_nth(4) [OF assms(2,5,4)]] False by simp
  then have "server_inv fds B {} (upd_client i (inb_update (\<lambda>_. ?f)) s)" "in_use (upd_client i (inb_update (\<lambda>_. ?f)) s) = in_use s"
    using inbuf_upd_inv [OF assms(2,5), of ?f "{}"] by (simp_all add: inbuf_ok_def)
  moreover have "json_loop os i (upd_client i (inb_update (\<lambda>_. ?f)) s) = Some (t, r)"
    using assms(1) False by (simp add: json_receive_def Let_def)
  ultimately show ?thesis using json_loop_inv [of os i _ "(t, r)" fds B] assms(3-5) by auto
qed

lemma recvapp_ack_inv:
  assumes "io_inv e" "br_ssl_engine_recvapp_buf e = (Some p, n)"
  shows "io_inv (br_ssl_engine_recvapp_ack e n)"
proof -
  have w: "recvpld_buf e = (Some p, n)" using assms(2) by (simp add: br_ssl_engine_recvapp_buf_def split: if_splits)
  have "\<not> br_ssl_engine_closed e" using w by (auto simp: br_ssl_engine_closed_def recvpld_buf_def)
  from recvpld_ack_inv(1,2) [of e p n n] assms(1) w this show ?thesis
    by (auto simp: io_inv_def br_ssl_engine_recvapp_ack_def same_output_def)
qed

lemma read_plain_inv:
  assumes "tlsv2_engine_read_plain os i s = Some res" "server_inv fds B {} s" "os_ok os fds" "i \<in> in_use s" "i < TLSV2_MAX_CLIENTS"
  shows "case res of (t, r) \<Rightarrow> server_inv fds B (if r < 0 then {i} else {}) t \<and> in_use t = in_use s"
  using assms
proof (induction os i s res rule: tlsv2_engine_read_plain.raw_induct [rotated, consumes 1, case_names step])
  case (step f os i s res)
  note IH = step(1) and eq = step(2) and inv = step(3) and os = step(4) and u = step(5,6)
  let ?c = "g_clients s ! i" and ?e = "eng (sc (g_clients s ! i))"
  obtain p n where b: "br_ssl_engine_recvapp_buf ?e = (p, n)" by fastforce
  show ?case
  proof (cases "br_ssl_engine_current_state ?e AND BR_SSL_RECVAPP = 0 \<or> n = 0 \<or> in_used (inb ?c) + n > TLSV2_MAX_JSON_SIZE + 4")
    case True
    with eq b inv server_inv_mono [OF inv, of "{i}"] show ?thesis by (auto simp: Let_def split: if_splits)
  next
    case False
    then obtain q where q: "p = Some q" using state_bits(5) [of ?e] b by (cases p) auto
    let ?s = "upd_client i (\<lambda>c. set_eng c (br_ssl_engine_recvapp_ack (eng (sc c)) n)) s"
    note nth = server_inv_nth [OF inv u(2)]
    have "io_inv (br_ssl_engine_recvapp_ack ?e n)" using recvapp_ack_inv nth(3) u(1) b q by simp
    then have i1: "server_inv fds B {} ?s"
      using nth u(1) by (intro server_inv_upd [OF inv u(2)]) (simp_all add: Let_def)
    have i2: "in_use ?s = in_use s" by (rule in_use_upd) simp
    obtain t r where t: "json_receive os i ?s (load (mem ?e) (ptr p) n) = Some (t, r)"
        "(if r < 0 then Some (t, r) else f os i t) = Some res"
      using eq b False by (auto simp: Let_def bind_eq_Some_conv)
    from json_receive_inv [OF t(1) i1 os _ u(2)] i2 u(1)
    have t1: "server_inv fds B (if r < 0 then {i} else {}) t" "in_use t = in_use s" by auto
    show ?thesis
    proof (cases "r < 0")
      case True
      with t(2) t1 show ?thesis by auto
    next
      case 2: False
      with IH [of os i t res] t(2) t1 os u show ?thesis by auto
    qed
  qed
qed

lemma sendapp_ack_io_inv:
  assumes "io_inv e" "br_ssl_engine_sendapp_buf e = (Some p, z)" "k \<le> z"
  shows "io_inv (br_ssl_engine_sendapp_ack (e\<lparr>mem := m\<rparr>) k)"
proof -
  have w: "sendpld_buf (e\<lparr>mem := m\<rparr>) = (Some p, z)"
    using assms(2) by (auto simp: br_ssl_engine_sendapp_buf_def sendpld_buf_def Let_def split: if_splits)
  from sendpld_ack_inv(1,2) [OF _ w assms(3)] assms(1) show ?thesis
    by (auto simp: io_inv_def br_ssl_engine_sendapp_ack_def same_input_def)
qed

lemma write_plain_loop_inv:
  assumes "write_plain_loop e f = Some res" "io_inv e" "outbuf_ok f"
  shows "case res of (e', f', r) \<Rightarrow> io_inv e' \<and> outbuf_ok f'"
  using assms
proof (induction e f res rule: write_plain_loop.raw_induct [rotated, consumes 1, case_names step])
  case (step g e f res)
  note IH = step(1) and eq = step(2) and ok = step(3,4)
  obtain p n where b: "br_ssl_engine_sendapp_buf e = (p, n)" by fastforce
  show ?case
  proof (cases "br_ssl_engine_current_state e AND BR_SSL_SENDAPP = 0 \<or> n = 0")
    case True
    with eq b have "res = (e, f, 0)" by (auto simp: Let_def split: if_splits)
    with ok show ?thesis by simp
  next
    case False
    then obtain q where q: "p = Some q" using state_bits(4) [of e] b by (cases p) auto
    define k where "k = (if out_used f - out_sent f > n then n else out_used f - out_sent f)"
    define e1 where "e1 = br_ssl_engine_sendapp_ack
      (e\<lparr>mem := store (mem e) q (take k (drop (out_sent f) (out_buf f)))\<rparr>) k"
    define f1 where "f1 = f\<lparr>out_sent := out_sent f + k\<rparr>"
    have eq': "(if out_sent f1 \<ge> out_used f1 then Some (e1, f1\<lparr>out_used := 0, out_sent := 0\<rparr>, 1) else g e1 f1) = Some res"
      using eq b q False by (simp add: Let_def k_def [symmetric] e1_def f1_def cong: if_cong)
    have "io_inv e1" unfolding e1_def using sendapp_ack_io_inv [OF ok(1), of q n k] b q by (simp add: k_def)
    moreover have "outbuf_ok f1" "outbuf_ok (f1\<lparr>out_used := 0, out_sent := 0\<rparr>)"
      using ok(2) by (auto simp: f1_def outbuf_ok_def k_def)
    ultimately show ?thesis using IH [of e1 f1 res] eq' by (auto split: if_splits)
  qed
qed

lemma write_plain_inv:
  assumes "tlsv2_engine_write_plain i s = Some (t, r)" "server_inv fds B {} s" "i \<in> in_use s" "i < TLSV2_MAX_CLIENTS"
  shows "server_inv fds B {} t \<and> in_use t = in_use s"
proof (cases "out_sent (outb (g_clients s ! i)) \<ge> out_used (outb (g_clients s ! i))")
  case True
  with assms show ?thesis by (simp add: tlsv2_engine_write_plain_def Let_def)
next
  case False
  let ?c = "g_clients s ! i"
  obtain e f where e: "write_plain_loop (eng (sc ?c)) (outb ?c) = Some (e, f, r)" "t = upd_client i (\<lambda>c. set_eng (c\<lparr>outb := f\<rparr>) e) s"
    using assms(1) False by (auto simp: tlsv2_engine_write_plain_def Let_def bind_eq_Some_conv)
  note n = server_inv_nth [OF assms(2,4)]
  have "io_inv e" "outbuf_ok f" using write_plain_loop_inv [OF e(1) n(3) [OF assms(3)] n(2)] by auto
  then have "server_inv fds B {} t"
    unfolding e(2) using n assms(3) by (intro server_inv_upd [OF assms(2,4)]) (simp_all add: Let_def)
  moreover have "in_use t = in_use s" unfolding e(2) by (rule in_use_upd) simp
  ultimately show ?thesis by simp
qed

section \<open>Turns of the server\<close>

lemma handle_client_inv:
  assumes "tlsv2_handle_client os env s i = Some t" "server_inv fds B {} s" "os_ok os fds" "hs_contract (hsrun_of env)"
    and "i < TLSV2_MAX_CLIENTS"
  shows "server_inv fds B {} t"
proof (cases "i \<in> in_use s")
  case False
  then have "state (g_clients s ! i) = TLSV2_STATE_UNUSED"
    using assms(5) server_inv_nth(5) [OF assms(2,5)] by (simp add: in_use_def)
  with assms(1,2) show ?thesis by (simp add: tlsv2_handle_client_def)
next
  case True
  note close = close_inv_clean [OF server_inv_mono [of fds B "{}" _ "{i}"] assms(3,5), simplified]
  have recv: "server_inv fds B {} b \<and> in_use b = in_use a"
    if "pump (tlsv2_engine_recv os (hsrun_of env)) i a = Some (b, r)" "server_inv fds B {} a" "i \<in> in_use a" for a b r
    using pump_inv [OF that assms(5)] engine_recv_inv [OF _ assms(3,4)] by blast
  have send: "server_inv fds B {} b \<and> in_use b = in_use a"
    if "pump (tlsv2_engine_send os (hsrun_of env)) i a = Some (b, r)" "server_inv fds B {} a" "i \<in> in_use a" for a b r
    using pump_inv [OF that assms(5)] engine_send_inv [OF _ assms(3,4)] by blast
  have finish: "server_inv fds B {} c"
    if "pump (tlsv2_engine_send os (hsrun_of env)) i a = Some (b, r)" "server_inv fds B {} a" "i \<in> in_use a"
      "c = (if r < 0 then tlsv2_client_close os b i else b)" for a b c r
    using send [OF that(1-3)] close [of b] that(4) by auto
  have used: "state (g_clients s ! i) \<noteq> TLSV2_STATE_UNUSED" using True by (simp add: in_use_def)
  obtain s1 r1 where s1: "pump (tlsv2_engine_recv os (hsrun_of env)) i s = Some (s1, r1)"
    using assms(1) used by (auto simp: tlsv2_handle_client_def bind_eq_Some_conv)
  note i1 = recv [OF s1 assms(2) True]
  show ?thesis
  proof (cases "r1 < 0")
    case True
    with assms(1) used s1 close [of s1] i1 show ?thesis by (auto simp: tlsv2_handle_client_def)
  next
    case r1: False
    obtain s2 r2 where s2: "pump (tlsv2_engine_send os (hsrun_of env)) i s1 = Some (s2, r2)"
      using assms(1) used s1 r1 by (auto simp: tlsv2_handle_client_def bind_eq_Some_conv)
    have i2: "server_inv fds B {} s2" "i \<in> in_use s2" using send [OF s2] i1 True by auto
    define st where "st = br_ssl_engine_current_state (eng (sc (g_clients s2 ! i)))"
    define s3 where "s3 = (if state (g_clients s2 ! i) = TLSV2_STATE_HANDSHAKE \<and> st AND BR_SSL_SENDAPP \<noteq> 0
      then upd_client i (\<lambda>c. c\<lparr>state := TLSV2_STATE_OPEN\<rparr>) s2 else s2)"
    have i3: "server_inv fds B {} s3" "i \<in> in_use s3"
    proof -
      have "server_inv fds B {} (upd_client i (\<lambda>c. c\<lparr>state := TLSV2_STATE_OPEN\<rparr>) s2)"
        using server_inv_nth [OF i2(1) assms(5)] i2(2)
        by (intro server_inv_upd [OF i2(1) assms(5)]) (simp_all add: Let_def in_use_def)
      moreover have "in_use (upd_client i (\<lambda>c. c\<lparr>state := TLSV2_STATE_OPEN\<rparr>) s2) = in_use s2"
        using i2(2) by (intro in_use_upd) (simp add: in_use_def)
      ultimately show "server_inv fds B {} s3" "i \<in> in_use s3" using i2 by (simp_all add: s3_def)
    qed
    show ?thesis
    proof (cases "r2 < 0 \<or> state (g_clients s2 ! i) = TLSV2_STATE_HANDSHAKE \<and> st AND BR_SSL_CLOSED \<noteq> 0")
      case True
      then have "t = tlsv2_client_close os s2 i"
        using assms(1) used s1 r1 s2 by (auto simp: tlsv2_handle_client_def Let_def st_def split: if_splits)
      with close i2(1) show ?thesis by simp
    next
      case r2: False
      then have c: "(state (g_clients s2 ! i) = TLSV2_STATE_HANDSHAKE \<and> st AND BR_SSL_CLOSED \<noteq> 0) = False" "(r2 < 0) = False"
        by auto
      have eq: "(if state (g_clients s3 ! i) = TLSV2_STATE_OPEN
          then Option.bind (tlsv2_engine_read_plain os i s3) (\<lambda>(s, r).
            if r < 0 then Some (tlsv2_client_close os s i)
            else Option.bind (tlsv2_engine_write_plain i s) (\<lambda>(s, r).
              if r < 0 then Some (tlsv2_client_close os s i)
              else Option.bind (pump (tlsv2_engine_send os (hsrun_of env)) i s) (\<lambda>(s, r).
                Some (if r < 0 then tlsv2_client_close os s i else s))))
          else Option.bind (pump (tlsv2_engine_send os (hsrun_of env)) i s3) (\<lambda>(s, r).
            Some (if r < 0 then tlsv2_client_close os s i else s))) = Some t"
        using assms(1) used s1 r1 s2
        by (simp add: tlsv2_handle_client_def Let_def st_def [symmetric] s3_def [symmetric] c cong: if_cong)
      show ?thesis
      proof (cases "state (g_clients s3 ! i) = TLSV2_STATE_OPEN")
        case False
        with eq finish i3 show ?thesis by (auto simp: bind_eq_Some_conv)
      next
        case True
        with eq obtain s4 r4 where s4: "tlsv2_engine_read_plain os i s3 = Some (s4, r4)"
          by (auto simp: bind_eq_Some_conv)
        from read_plain_inv [OF s4 i3(1) assms(3) i3(2) assms(5)] i3(2)
        have i4: "server_inv fds B (if r4 < 0 then {i} else {}) s4" "i \<in> in_use s4" by auto
        show ?thesis
        proof (cases "r4 < 0")
          case r4: True
          with eq True s4 i4 close_inv_clean [OF _ assms(3,5), of B s4] show ?thesis by simp
        next
          case r4: False
          with eq True s4 obtain s5 r5 where s5: "tlsv2_engine_write_plain i s4 = Some (s5, r5)"
            by (auto simp: bind_eq_Some_conv)
          from write_plain_inv [OF s5 _ i4(2) assms(5)] i4 r4 have i5: "server_inv fds B {} s5" "i \<in> in_use s5" by auto
          show ?thesis
          proof (cases "r5 < 0")
            case r5: True
            with eq True s4 r4 s5 close [OF i5(1)] show ?thesis by simp
          next
            case False
            with eq True s4 r4 s5 finish i5 show ?thesis by (auto simp: bind_eq_Some_conv)
          qed
        qed
      qed
    qed
  qed
qed

lemma serve_slots_inv:
  assumes "serve_slots os env rd wr is s = Some t" "server_inv fds B {} s" "os_ok os fds" "hs_contract (hsrun_of env)"
    and "\<forall>i \<in> set is. i < TLSV2_MAX_CLIENTS"
  shows "server_inv fds B {} t"
  using assms
proof (induction "is" arbitrary: s)
  case (Cons i "is")
  show ?case
  proof (cases "state (g_clients s ! i) \<noteq> TLSV2_STATE_UNUSED \<and> (fd (g_clients s ! i) \<in> set rd \<or> fd (g_clients s ! i) \<in> set wr)")
    case True
    with Cons.prems(1) obtain s1 where "tlsv2_handle_client os env s i = Some s1" "serve_slots os env rd wr is s1 = Some t"
      by (auto simp: Let_def bind_eq_Some_conv)
    with Cons handle_client_inv [of os env s i s1 fds B] show ?thesis by auto
  next
    case False
    then have "serve_slots os env rd wr is s = Some t" using Cons.prems(1) by (auto simp: Let_def split: if_splits)
    with Cons show ?thesis by simp
  qed
qed simp

lemma server_turn_inv:
  assumes "server_turn os env s = Some t" "server_inv fds B {} s" "os_ok os fds" "hs_contract (hsrun_of env)"
  shows "server_inv fds B {} t"
proof -
  obtain y r where y: "syscall (sys_select os (g_listen_fd s # watched s) (watched s)) (sys s) = (y, r)" by fastforce
  obtain w q where q: "sys_select os (g_listen_fd s # watched s) (watched s) (world (sys s)) = (w, q)" by fastforce
  have "world y = w" using y q by (cases q) (auto simp: syscall_def)
  then have i: "server_inv fds B {} (s\<lparr>sys := y\<rparr>)" using server_inv_sys [OF assms(2)] os_okD(7) [OF assms(3) q] by simp
  show ?thesis
  proof (cases r)
    case None
    with assms(1) y i show ?thesis by (simp add: server_turn_def)
  next
    case (Some rw)
    then obtain rd wr where rw: "r = Some (rd, wr)" by (cases rw) auto
    with assms(1) y obtain s1 where
      s1: "(if g_listen_fd s \<in> set rd then tlsv2_accept_new_client os env (s\<lparr>sys := y\<rparr>) (g_certs s) (g_skey s)
            else Some (s\<lparr>sys := y\<rparr>)) = Some s1" "serve_slots os env rd wr [0..<TLSV2_MAX_CLIENTS] s1 = Some t"
      by (auto simp: server_turn_def Let_def bind_eq_Some_conv cong: if_cong)
    have "server_inv fds B {} s1"
      using s1(1) i accept_inv [OF _ i assms(3,4)] by (auto split: if_splits)
    with serve_slots_inv [OF s1(2) _ assms(3,4)] show ?thesis by simp
  qed
qed

text \<open>
  C1. Whatever clients and network do, every turn of the server loop keeps the server well formed: the
  table has its 64 slots, each slot in use has an engine whose registers and windows lie inside its
  two buffers and framing buffers that stay in their bounds, no descriptor belongs to two slots, and
  the open descriptors of the process are exactly the ones from before the loop and one for every
  slot in use, so that none leaks and none is closed twice.
\<close>

theorem server_loop_invariant:
  assumes "hs_contract (hsrun_of env)" "os_ok os fds" "server_inv fds B {} s" "server_turns n os env s = Some t"
  shows "server_inv fds B {} t"
  using assms(3,4)
proof (induction n arbitrary: s)
  case (Suc n)
  then obtain s1 where "server_turn os env s = Some s1" "server_turns n os env s1 = Some t"
    by (auto simp: bind_eq_Some_conv)
  with Suc server_turn_inv [OF _ Suc.prems(1) assms(2,1)] show ?case by blast
qed simp

text \<open>A system for the example: its world is the set of open descriptors; nobody connects.\<close>

definition fd_os :: "int set os" where
  "fd_os = \<lparr>sys_socket = (\<lambda>w. (insert 3 w, Done 3)), sys_setsockopt = (\<lambda>_ w. (w, Done ())), sys_bind = (\<lambda>_ _ w. (w, Done ())),
     sys_listen = (\<lambda>_ _ w. (w, Done ())), sys_accept = (\<lambda>_ w. (w, Fail EAGAIN)), sys_connect = (\<lambda>_ _ _ w. (w, Done ())),
     sys_getfl = (\<lambda>_ w. (w, Done 0)), sys_setfl = (\<lambda>_ _ w. (w, Done ())), sys_read = (\<lambda>_ _ w. (w, Done [])),
     sys_write = (\<lambda>_ bs w. (w, Done (length bs))), sys_close = (\<lambda>d w. w - {d}), sys_select = (\<lambda>r x w. (w, Done (r, []))),
     inet_pton = (\<lambda>_. Some 0), c_malloc = (\<lambda>_ w. (w, True)), c_fopen = (\<lambda>_ w. (w, Some 7)),
     c_fseek_end = (\<lambda>_ w. (w, True)), c_ftell = (\<lambda>_ w. (w, 1)), c_fseek_set = (\<lambda>_ w. (w, True)),
     c_fread = (\<lambda>_ _ w. (w, [48])), c_fclose = (\<lambda>_ w. w)\<rparr>"

lemma fd_os_ok: "os_ok fd_os id"
  by (auto simp: os_ok_def fd_os_def)

text \<open>A server with an empty table, listening on descriptor 3.\<close>

definition idle_server :: "(unit, unit, unit, int set, byte list list) server" where
  "idle_server =
     \<lparr>g_clients = map (\<lambda>c. c\<lparr>fd := -1, state := TLSV2_STATE_UNUSED\<rparr>) (replicate 64 (g_clients (demo_server fresh_engine) ! 0)),
      g_cfg = g_cfg (demo_server fresh_engine), g_listen_fd = 3, g_certs = [], g_skey = (), app = [],
      sys = \<lparr>world = {0, 1, 2, 3}, errno = 0\<rparr>\<rparr>"

lemma idle_server_nth:
  "length (g_clients idle_server) = 64" "i < 64 \<Longrightarrow> state (g_clients idle_server ! i) = TLSV2_STATE_UNUSED"
  by (simp_all add: idle_server_def)

lemma idle_server_inv: "server_inv id {0, 1, 2, 3} {} idle_server"
proof -
  have u: "in_use idle_server = {}" using idle_server_nth by (auto simp: in_use_def)
  then have "slots_ok {} idle_server"
    by (simp add: slots_ok_def Let_def idle_server_nth(1) TLSV2_MAX_CLIENTS_def)
      (simp add: idle_server_def demo_server_def TLSV2_MAX_JSON_SIZE_def outbuf_ok_def)
  moreover have "fds_ok id {0, 1, 2, 3} idle_server" by (simp add: fds_ok_def u) (simp add: idle_server_def)
  ultimately show ?thesis by (simp add: server_inv_def)
qed

lemma serve_slots_unused:
  "\<forall>i \<in> set is. state (g_clients s ! i) = TLSV2_STATE_UNUSED \<Longrightarrow> serve_slots os env rd wr is s = Some s"
  by (induction "is") (auto simp: Let_def)

theorem server_loop_invariant_witness:
  "\<exists>t. server_turns 1 fd_os demo_env idle_server = Some t \<and> server_inv id {0, 1, 2, 3} {} t"
proof -
  have w: "watched idle_server = []" using idle_server_nth by (auto simp: watched_def filter_empty_conv in_set_conv_nth)
  let ?t = "idle_server\<lparr>sys := \<lparr>world = {0, 1, 2, 3}, errno = EAGAIN\<rparr>\<rparr>"
  have a: "tlsv2_accept_new_client fd_os demo_env idle_server [] () = Some ?t"
    by (subst tlsv2_accept_new_client.simps) (simp add: syscall_def fd_os_def idle_server_def)
  have "serve_slots fd_os demo_env [3] [] [0..<TLSV2_MAX_CLIENTS] ?t = Some ?t"
    using idle_server_nth(2) by (intro serve_slots_unused) (simp add: TLSV2_MAX_CLIENTS_def)
  moreover have "syscall (sys_select fd_os [3] []) (sys idle_server) = (sys idle_server, Some ([3], []))"
    by (simp add: syscall_def fd_os_def idle_server_def)
  moreover have "g_listen_fd idle_server = 3" "g_certs idle_server = []" "g_skey idle_server = ()" "idle_server\<lparr>sys := sys idle_server\<rparr> = idle_server"
    by (simp_all add: idle_server_def)
  ultimately have "server_turns 1 fd_os demo_env idle_server = Some ?t"
    using a w by (simp add: server_turn_def)
  with server_loop_invariant [OF _ fd_os_ok idle_server_inv this] hs_discard_contract show ?thesis
    by (auto simp: demo_env_def)
qed

end
