(* ===== verification/Registry.thy ===== *)
theory Registry
  imports Main
begin

text \<open>
  The table of client connections that both TLS wrappers keep: an array of pointers, \<open>None\<close> for
  \<open>NULL\<close>, searched from the front for a descriptor. The code of the three functions is the same in
  \<open>tls_wrapper_v3.c\<close> and \<open>tls_wrapper_v2.c\<close>; \<open>key\<close> reads the descriptor of an entry. The locale
  \<open>conn_table\<close> is what the wrappers rely on.
\<close>

section \<open>Operations\<close>

fun reg_register :: "'c option list \<Rightarrow> 'c \<Rightarrow> 'c option list" where
  "reg_register [] c = []"
| "reg_register (x # xs) c = (if x = None then Some c # xs else x # reg_register xs c)"

fun reg_lookup :: "('c \<Rightarrow> int) \<Rightarrow> 'c option list \<Rightarrow> int \<Rightarrow> 'c option" where
  "reg_lookup key [] sock = None"
| "reg_lookup key (x # xs) sock =
     (case x of Some c \<Rightarrow> if key c = sock then Some c else reg_lookup key xs sock
      | None \<Rightarrow> reg_lookup key xs sock)"

fun reg_unregister :: "('c \<Rightarrow> int) \<Rightarrow> 'c option list \<Rightarrow> int \<Rightarrow> 'c option list" where
  "reg_unregister key [] sock = []"
| "reg_unregister key (x # xs) sock =
     (case x of Some c \<Rightarrow> if key c = sock then None # xs else x # reg_unregister key xs sock
      | None \<Rightarrow> x # reg_unregister key xs sock)"

text \<open>The entry found is a pointer: writing through it replaces the entry in place.\<close>

fun reg_update :: "('c \<Rightarrow> int) \<Rightarrow> 'c option list \<Rightarrow> int \<Rightarrow> 'c \<Rightarrow> 'c option list" where
  "reg_update key [] sock c' = []"
| "reg_update key (x # xs) sock c' =
     (case x of Some c \<Rightarrow> if key c = sock then Some c' # xs else x # reg_update key xs sock c'
      | None \<Rightarrow> x # reg_update key xs sock c')"

section \<open>The contract\<close>

definition reg_keys :: "('c \<Rightarrow> int) \<Rightarrow> 'c option list \<Rightarrow> int set" where
  "reg_keys key xs = {key c | c. Some c \<in> set xs}"

definition reg_full :: "'c option list \<Rightarrow> bool" where
  "reg_full xs \<longleftrightarrow> None \<notin> set xs"

text \<open>No descriptor occurs twice: descriptors of open sockets are distinct.\<close>

definition reg_ok :: "('c \<Rightarrow> int) \<Rightarrow> 'c option list \<Rightarrow> bool" where
  "reg_ok key xs \<longleftrightarrow> distinct (map key (List.map_filter id xs))"

locale conn_table =
  fixes key :: "'c \<Rightarrow> int"
    and register :: "'t \<Rightarrow> 'c \<Rightarrow> 't"
    and lookup :: "'t \<Rightarrow> int \<Rightarrow> 'c option"
    and unregister :: "'t \<Rightarrow> int \<Rightarrow> 't"
    and full :: "'t \<Rightarrow> bool"
    and ok :: "'t \<Rightarrow> bool"
  assumes lookup_key: "lookup t s = Some c \<Longrightarrow> key c = s"
    and lookup_register: "lookup t (key c) = None \<Longrightarrow>
      lookup (register t c) s = (if s = key c \<and> \<not> full t then Some c else lookup t s)"
    and lookup_unregister: "ok t \<Longrightarrow> lookup (unregister t s') s = (if s = s' then None else lookup t s)"
    and ok_register: "ok t \<Longrightarrow> lookup t (key c) = None \<Longrightarrow> ok (register t c)"
    and ok_unregister: "ok t \<Longrightarrow> ok (unregister t s)"
    and register_full: "full t \<Longrightarrow> register t c = t"
begin

text \<open>A connection that is registered and taken out again leaves every lookup as it was.\<close>

lemma register_unregister:
  assumes "ok t" "lookup t (key c) = None"
  shows "lookup (unregister (register t c) (key c)) s = lookup t s"
  using assms by (simp add: lookup_unregister ok_register lookup_register)

lemma register_twice:
  assumes "lookup t (key c) = None" "lookup t (key d) = None" "key c \<noteq> key d" "\<not> full (register t c)" "\<not> full t"
  shows "lookup (register (register t c) d) (key c) = Some c" "lookup (register (register t c) d) (key d) = Some d"
  using assms by (simp_all add: lookup_register)

end

section \<open>The array implements it\<close>

lemma reg_lookup_None: "reg_lookup key xs s = None \<longleftrightarrow> s \<notin> reg_keys key xs"
  by (induction xs) (auto simp: reg_keys_def split: option.splits)

lemma reg_lookup_Some: "reg_lookup key xs s = Some c \<Longrightarrow> key c = s \<and> Some c \<in> set xs"
  by (induction xs) (auto split: option.splits if_splits)

lemma reg_lookup_register:
  assumes "reg_lookup key xs (key c) = None"
  shows "reg_lookup key (reg_register xs c) s = (if s = key c \<and> \<not> reg_full xs then Some c else reg_lookup key xs s)"
  using assms by (induction xs) (auto simp: reg_full_def split: option.splits if_splits)

lemma map_filter_id_Cons: "List.map_filter id (x # xs) = (case x of None \<Rightarrow> [] | Some c \<Rightarrow> [c]) @ List.map_filter id xs"
  by (auto simp: List.map_filter_def split: option.splits)

lemma set_map_filter_id: "set (List.map_filter id xs) = {c. Some c \<in> set xs}"
  by (force simp: List.map_filter_def)

lemma reg_ok_Cons:
  "reg_ok key (x # xs) \<longleftrightarrow> (case x of None \<Rightarrow> True | Some c \<Rightarrow> key c \<notin> reg_keys key xs) \<and> reg_ok key xs"
  by (auto simp: reg_ok_def map_filter_id_Cons reg_keys_def set_map_filter_id split: option.splits)

lemma reg_keys_Cons: "reg_keys key (x # xs) = (case x of None \<Rightarrow> {} | Some c \<Rightarrow> {key c}) \<union> reg_keys key xs"
  by (auto simp: reg_keys_def split: option.splits)

lemma reg_keys_register: "reg_keys key (reg_register xs c) \<subseteq> insert (key c) (reg_keys key xs)"
  by (induction xs) (auto simp: reg_keys_Cons reg_keys_def split: option.splits)

lemma reg_keys_unregister: "reg_keys key (reg_unregister key xs s) \<subseteq> reg_keys key xs"
  by (induction xs) (auto simp: reg_keys_Cons split: option.splits if_splits)

lemma reg_ok_register: "reg_ok key xs \<Longrightarrow> reg_lookup key xs (key c) = None \<Longrightarrow> reg_ok key (reg_register xs c)"
proof (induction xs)
  case (Cons x xs)
  then show ?case
    using reg_keys_register [of key xs c]
    by (cases x) (auto simp: reg_ok_Cons reg_lookup_None reg_keys_Cons split: if_splits)
qed simp

lemma reg_ok_unregister: "reg_ok key xs \<Longrightarrow> reg_ok key (reg_unregister key xs s)"
proof (induction xs)
  case (Cons x xs)
  then show ?case
    using reg_keys_unregister [of key xs s] by (cases x) (auto simp: reg_ok_Cons)
qed simp

lemma reg_lookup_unregister:
  "reg_ok key xs \<Longrightarrow> reg_lookup key (reg_unregister key xs s') s = (if s = s' then None else reg_lookup key xs s)"
proof (induction xs)
  case (Cons x xs)
  then show ?case by (cases x) (auto simp: reg_ok_Cons reg_lookup_None reg_keys_Cons)
qed simp

lemma reg_register_full: "reg_full xs \<Longrightarrow> reg_register xs c = xs"
  by (induction xs) (auto simp: reg_full_def not_None_eq [symmetric] simp del: not_None_eq)

interpretation reg: conn_table key reg_register "reg_lookup key" "reg_unregister key" reg_full "reg_ok key" for key
  by unfold_locales
    (simp_all add: reg_lookup_Some reg_lookup_register reg_lookup_unregister reg_ok_register reg_ok_unregister
      reg_register_full)

lemma reg_lookup_update:
  "reg_lookup key xs s = Some c \<Longrightarrow> key c' = s \<Longrightarrow> reg_lookup key (reg_update key xs s c') s' = (if s' = s then Some c' else reg_lookup key xs s')"
  by (induction xs) (auto split: option.splits if_splits)

end
