(* ===== verification/Tls_V3_Client.thy ===== *)
theory Tls_V3_Client
  imports Ssl_Context Json_Frame Os Registry
begin

text \<open>
  The blocking client of \<open>tls_wrapper_v3.c\<close> on POSIX systems: the connection table, connecting,
  sending and receiving JSON messages over the BearSSL I/O wrapper, closing. The globals are the
  record \<open>tls_clients\<close>. The lemmas show what a message sent looks like on the wire, the laws of the table
  through the contract of \<open>Registry\<close>, and the length check of the receiver that wraps around.
\<close>

unbundle bit_operations_syntax

section \<open>Types and globals\<close>

definition TLSV2_MAX_CLIENT_CONNS :: nat where "TLSV2_MAX_CLIENT_CONNS = 64"

record ('c, 'r, 'k) conn =
  sock :: int
  csc :: "('c, 'r, 'k) ssl_context"

record ('c, 'r, 'k, 'w) tls_clients =
  g_client_conns :: "('c, 'r, 'k) conn option list"
  csys :: "'w sys"

record ('c, 'r) client_env =
  c_hsrun :: "('c, 'r) hsrun"
  c_hsinit :: "'c \<Rightarrow> 'c"
  c_rngops :: "'r rng_ops"
  c_impls :: impls
  c_cpu0 :: 'c
  c_rng0 :: 'r

definition tlsv2_register_client_conn ::
    "('c, 'r, 'k, 'w) tls_clients \<Rightarrow> ('c, 'r, 'k) conn \<Rightarrow> ('c, 'r, 'k, 'w) tls_clients" where
  "tlsv2_register_client_conn g c = g\<lparr>g_client_conns := reg_register (g_client_conns g) c\<rparr>"

definition tlsv2_lookup_client_conn ::
    "('c, 'r, 'k, 'w) tls_clients \<Rightarrow> int \<Rightarrow> ('c, 'r, 'k) conn option" where
  "tlsv2_lookup_client_conn g s = reg_lookup sock (g_client_conns g) s"

definition tlsv2_unregister_client_conn ::
    "('c, 'r, 'k, 'w) tls_clients \<Rightarrow> int \<Rightarrow> ('c, 'r, 'k, 'w) tls_clients" where
  "tlsv2_unregister_client_conn g s = g\<lparr>g_client_conns := reg_unregister sock (g_client_conns g) s\<rparr>"

text \<open>The I/O context of a connection: the two callbacks on its socket.\<close>

definition conn_io :: "'w os \<Rightarrow> int \<Rightarrow> 'w sys sslio_context" where
  "conn_io os s = br_sslio_init (tls_low_read os s) (tls_low_write os s)"

text \<open>The connection after its engine has changed, in the table and with the system.\<close>

definition put_conn ::
    "('c, 'r, 'k, 'w) tls_clients \<Rightarrow> ('c, 'r, 'k) conn \<Rightarrow> ('c, 'r) engine \<Rightarrow> 'w sys \<Rightarrow> ('c, 'r, 'k, 'w) tls_clients" where
  "put_conn g c e y =
     g\<lparr>g_client_conns := reg_update sock (g_client_conns g) (sock c) (c\<lparr>csc := (csc c)\<lparr>eng := e\<rparr>\<rparr>), csys := y\<rparr>"

section \<open>Operations\<close>

definition tlsv2_client_connect ::
    "'w os \<Rightarrow> ('c, 'r) client_env \<Rightarrow> mem \<Rightarrow> ('c, 'r, 'k, 'w) tls_clients \<Rightarrow> string \<Rightarrow> int
       \<Rightarrow> (('c, 'r, 'k, 'w) tls_clients \<times> int) option" where
  "tlsv2_client_connect os env m g host port =
     (let (w, ok) = c_malloc os 1 (world (csys g));
          g = g\<lparr>csys := (csys g)\<lparr>world := w\<rparr>\<rparr>
      in if \<not> ok then Some (g, -1)
         else let (y, s) = gfns_connect_blocking os host port (csys g);
                  g = g\<lparr>csys := y\<rparr>
              in if s = GFNS_INVALID_SOCK then Some (g, -1)
                 else let ctx = br_ssl_client_init_full (c_impls env) (c_cpu0 env) (c_rng0 env) m;
                          ctx = ctx\<lparr>eng := br_ssl_engine_set_buffers_bidi (eng ctx) (Some 4096) (16 * 1024)
                                  (Some (4096 + 16 * 1024)) (70 * 1024)\<rparr>
                      in Option.bind (br_ssl_client_reset (c_rngops env) (c_hsinit env) (c_hsrun env) ctx
                              (Some (map (\<lambda>ch. of_nat (of_char ch)) host)) False) (\<lambda>(ctx, _).
                           Option.bind (br_sslio_flush (conn_io os s) (c_hsrun env) (eng ctx) (csys g)) (\<lambda>(e, y, r).
                             let g = g\<lparr>csys := y\<rparr>
                             in if r < 0
                                then Some (g\<lparr>csys := gfns_close_socket os s (csys g)\<rparr>, -2)
                                else Some (tlsv2_register_client_conn g \<lparr>sock = s, csc = ctx\<lparr>eng := e\<rparr>\<rparr>, s))))"

definition tlsv2_client_send_json ::
    "'w os \<Rightarrow> ('c, 'r) hsrun \<Rightarrow> ('c, 'r, 'k, 'w) tls_clients \<Rightarrow> int \<Rightarrow> byte list
       \<Rightarrow> (('c, 'r, 'k, 'w) tls_clients \<times> int) option" where
  "tlsv2_client_send_json os hs g s json =
     (case tlsv2_lookup_client_conn g s of
        None \<Rightarrow> Some (g, -1)
      | Some c \<Rightarrow>
          if length json > TLSV2_MAX_JSON_SIZE then Some (g, -2)
          else Option.bind (br_sslio_write_all (conn_io os s) hs (eng (csc c)) (csys g)
                 (htonl_bytes (of_nat (length json)))) (\<lambda>(e, y, r).
            if r < 0 then Some (put_conn g c e y, -3)
            else Option.bind (br_sslio_write_all (conn_io os s) hs e y json) (\<lambda>(e, y, r).
              if r < 0 then Some (put_conn g c e y, -4)
              else Option.bind (br_sslio_flush (conn_io os s) hs e y) (\<lambda>(e, y, r).
                if r < 0 then Some (put_conn g c e y, -5) else Some (put_conn g c e y, 0)))))"

text \<open>
  The loop of \<open>tlsv2_client_recv_json\<close>: \<open>total\<close> bytes are in the caller's buffer, \<open>got\<close> holds
  them. The result is the bytes stored, or \<open>None\<close> for the return value -4.
\<close>

partial_function (option) recv_json_loop ::
    "'w sys sslio_context \<Rightarrow> ('c, 'r) hsrun \<Rightarrow> ('c, 'r) engine \<Rightarrow> 'w sys \<Rightarrow> nat \<Rightarrow> byte list
       \<Rightarrow> (('c, 'r) engine \<times> 'w sys \<times> byte list \<times> bool) option" where
  "recv_json_loop io hs e y nlen got =
     (if length got < nlen
      then Option.bind (br_sslio_read io hs e y (nlen - length got)) (\<lambda>(e, y, r).
        (case r of
           None \<Rightarrow> Some (e, y, got, False)
         | Some bs \<Rightarrow> if bs = [] then Some (e, y, got, False) else recv_json_loop io hs e y nlen (got @ bs)))
      else Some (e, y, got, True))"

text \<open>\<open>nlen + 1 > maxlen\<close> adds in \<open>uint32_t\<close> and compares as \<open>size_t\<close>.\<close>

definition recv_len_rejected :: "u32 \<Rightarrow> nat \<Rightarrow> bool" where
  "recv_len_rejected nlen maxlen \<longleftrightarrow> unat (nlen + 1) > maxlen"

text \<open>The result has the bytes stored in the caller's buffer, a terminating 0 included.\<close>

definition tlsv2_client_recv_json ::
    "'w os \<Rightarrow> ('c, 'r) hsrun \<Rightarrow> ('c, 'r, 'k, 'w) tls_clients \<Rightarrow> int \<Rightarrow> nat
       \<Rightarrow> (('c, 'r, 'k, 'w) tls_clients \<times> int \<times> byte list) option" where
  "tlsv2_client_recv_json os hs g s maxlen =
     (case tlsv2_lookup_client_conn g s of
        None \<Rightarrow> Some (g, -1, [])
      | Some c \<Rightarrow>
          Option.bind (br_sslio_read (conn_io os s) hs (eng (csc c)) (csys g) 4) (\<lambda>(e, y, r).
            case r of
              None \<Rightarrow> Some (put_conn g c e y, -2, [])
            | Some hdr \<Rightarrow>
                if length hdr \<noteq> 4 then Some (put_conn g c e y, -2, [])
                else let nlen = ntohl_bytes hdr
                     in if recv_len_rejected nlen maxlen then Some (put_conn g c e y, -3, [])
                        else Option.bind (recv_json_loop (conn_io os s) hs e y (unat nlen) []) (\<lambda>(e, y, buf, ok).
                          if \<not> ok then Some (put_conn g c e y, -4, buf)
                          else Some (put_conn g c e y, sint nlen, buf @ [0]))))"

definition tlsv2_client_close_fd ::
    "'w os \<Rightarrow> ('c, 'r, 'k, 'w) tls_clients \<Rightarrow> int \<Rightarrow> ('c, 'r, 'k, 'w) tls_clients" where
  "tlsv2_client_close_fd os g s =
     (case tlsv2_lookup_client_conn g s of
        None \<Rightarrow> g
      | Some c \<Rightarrow>
          tlsv2_unregister_client_conn (g\<lparr>csys := gfns_close_socket os (sock c) (csys g)\<rparr>) s)"

section \<open>Sending\<close>

text \<open>The bytes the transport has been given so far, as the world records them.\<close>

definition write_sends :: "'w os \<Rightarrow> int \<Rightarrow> ('w \<Rightarrow> byte list) \<Rightarrow> bool" where
  "write_sends os s sent \<longleftrightarrow> (\<forall>bs w. bs \<noteq> [] \<longrightarrow> (\<exists>k w'. sys_write os s bs w = (w', Done k)
     \<and> 0 < k \<and> k \<le> length bs \<and> sent w' = sent w @ take k bs))"

lemma conn_io_sends:
  assumes "write_sends os s sent"
  shows "lw_sends (conn_io os s) (\<lambda>y. sent (world y))"
  unfolding lw_sends_def
proof (intro allI impI)
  fix bs :: "byte list" and y :: "'a sys"
  assume "bs \<noteq> []"
  with assms obtain k w' where "sys_write os s bs (world y) = (w', Done k)" "0 < k" "k \<le> length bs"
      "sent w' = sent (world y) @ take k bs"
    unfolding write_sends_def by meson
  then show "\<exists>k y'. low_write (conn_io os s) bs y = (y', Some k) \<and> 0 < k \<and> k \<le> length bs
      \<and> sent (world y') = sent (world y) @ take k bs"
    by (simp add: conn_io_def br_sslio_init_def tls_low_write_def syscall_def)
qed

lemma send_frame_gathers:
  assumes "steady e" "out_gather e" "oxa e + 4 + length json < oxb e"
  shows "br_sslio_write_all io hs e y (htonl_bytes v) = Some (gathered e (htonl_bytes v), y, 0)"
    "br_sslio_write_all io hs (gathered e (htonl_bytes v)) y json = Some (gathered e (htonl_bytes v @ json), y, 0)"
proof -
  have r: "oxa e + length (htonl_bytes v) < oxb e" using assms(3) by simp
  show "br_sslio_write_all io hs e y (htonl_bytes v) = Some (gathered e (htonl_bytes v), y, 0)"
    using sslio_write_all_gathers [OF assms(1,2) r] by (simp add: gathered_def)
  note g = gathered_steady [OF assms(1,2) r]
  have "oxa (gathered e (htonl_bytes v)) + length json < oxb (gathered e (htonl_bytes v))"
    using assms(3) by (simp add: gathered_def)
  from sslio_write_all_gathers [OF g this] gathered_append [of e "htonl_bytes v" json]
  show "br_sslio_write_all io hs (gathered e (htonl_bytes v)) y json = Some (gathered e (htonl_bytes v @ json), y, 0)"
    by (simp add: gathered_def)
qed

lemma gathered_flush_window:
  assumes "steady e" "out_gather e" "oxa e + length bs < oxb e"
  shows "fresh_window (sendpld_flush (gathered e bs) False) = fresh_window e"
    "version_out (sendpld_flush (gathered e bs) False) = version_out e"
  by (auto simp: sendpld_flush_def gathered_def Let_def dest: encrypt_max_plaintext intro!: fresh_window_cong split: prod.splits)

lemma client_send_json_wire:
  assumes "write_sends os s sent" "tlsv2_lookup_client_conn g s = Some c" "e = eng (csc c)"
    and "steady e" "out_gather e" "oxc e = oxa e" "oxa e + 4 + length json < oxb e" "length json \<le> TLSV2_MAX_JSON_SIZE"
  defines "a \<equiv> sendpld_flush (gathered e (json_frame json)) False"
  shows "\<exists>e' y'. tlsv2_client_send_json os hs g s json = Some (put_conn g c e' y', 0)
    \<and> sent (world y') = sent (world (csys g)) @ load (mem a) (ptr (obuf a) + oxa a) (oxc a - oxa a)
    \<and> steady e' \<and> out_gather e' \<and> oxc e' = oxa e' \<and> rout e' = rout a \<and> version_out e' = version_out e
    \<and> (oxa e', oxb e') = fresh_window e \<and> fresh_window e' = fresh_window e"
proof -
  let ?e = "gathered e (json_frame json)"
  have r: "oxa e + length (json_frame json) < oxb e" using assms(7) by simp
  note st = gathered_steady [OF assms(4,5) r]
  have p: "oxc ?e < oxa ?e" using assms(6) by (simp add: gathered_def)
  note w = gathered_flush_window [OF assms(4,5) r, folded a_def]
  have "\<exists>e' y'. br_sslio_flush (conn_io os s) hs ?e (csys g) = Some (e', y', 0)
      \<and> sent (world y') = sent (world (csys g)) @ load (mem a) (ptr (obuf a) + oxa a) (oxc a - oxa a)
      \<and> steady e' \<and> out_gather e' \<and> oxc e' = oxa e' \<and> rout e' = rout a \<and> version_out e' = version_out e
      \<and> (oxa e', oxb e') = fresh_window e \<and> fresh_window e' = fresh_window e"
  proof -
    have t: "wants_send (BR_SSL_SENDAPP OR BR_SSL_RECVAPP)" by (simp add: wants_send_def br_state_defs)
    from run_until_drains [OF conn_io_sends [OF assms(1)] t flush_assembles_steady(2,3) [OF st p], of hs "csys g"] w
    show ?thesis unfolding br_sslio_flush_def flush_assembles_steady(1) [OF st p] a_def by auto
  qed
  then obtain e' y' where f: "br_sslio_flush (conn_io os s) hs ?e (csys g) = Some (e', y', 0)"
      "sent (world y') = sent (world (csys g)) @ load (mem a) (ptr (obuf a) + oxa a) (oxc a - oxa a)"
      "steady e' \<and> out_gather e' \<and> oxc e' = oxa e' \<and> rout e' = rout a \<and> version_out e' = version_out e
        \<and> (oxa e', oxb e') = fresh_window e \<and> fresh_window e' = fresh_window e" by blast
  from assms(2,8) f(1) have "tlsv2_client_send_json os hs g s json = Some (put_conn g c e' y', 0)"
    by (simp add: tlsv2_client_send_json_def json_frame_def assms(3) [symmetric] send_frame_gathers [OF assms(4,5,7)])
  with f(2,3) show ?thesis by blast
qed

lemma lookup_put_conn:
  assumes "tlsv2_lookup_client_conn g s = Some c"
  shows "tlsv2_lookup_client_conn (put_conn g c e y) s = Some (c\<lparr>csc := (csc c)\<lparr>eng := e\<rparr>\<rparr>)"
proof -
  have "sock c = s" using assms reg_lookup_Some by (fastforce simp: tlsv2_lookup_client_conn_def)
  with assms reg_lookup_update [of sock "g_client_conns g" s c "c\<lparr>csc := (csc c)\<lparr>eng := e\<rparr>\<rparr>"] show ?thesis
    by (simp add: tlsv2_lookup_client_conn_def put_conn_def)
qed

text \<open>The same for a message of any size: it goes out in as many records as it needs.\<close>

lemma client_send_json_records:
  fixes e :: "('c, 'r) engine"
  assumes "write_sends os s sent" "tlsv2_lookup_client_conn g s = Some c" "e = eng (csc c)"
    and "steady e" "out_gather e" "oxc e = oxa e" "window_le e W" "length json \<le> TLSV2_MAX_JSON_SIZE"
  shows "\<exists>e' y' (es :: ('c, 'r) engine list). tlsv2_client_send_json os hs g s json = Some (put_conn g c e' y', 0)
    \<and> sent (world y') = sent (world (csys g)) @ concat (map record_of es) \<and> concat (map payload_of es) = json_frame json
    \<and> record_chain (rout e) es (rout e')
    \<and> (\<forall>b \<in> set es. sealable b \<and> record_type_out b = BR_SSL_APPLICATION_DATA \<and> version_out b = version_out e \<and> oxa b - oxc b \<le> W)
    \<and> steady e' \<and> out_gather e' \<and> oxc e' = oxa e' \<and> version_out e' = version_out e
    \<and> (oxa e', oxb e') = fresh_window e \<and> fresh_window e' = fresh_window e"
proof -
  let ?h = "htonl_bytes (of_nat (length json))" and ?S = "\<lambda>y. sent (world y)"
  note io = conn_io_sends [OF assms(1)]
  from write_all_seals [OF io assms(4,7), of hs "csys g" ?h] obtain e1 y1 es1 where
    h1: "br_sslio_write_all (conn_io os s) hs e (csys g) ?h = Some (e1, y1, 0)" "steady e1" "seals W ?S e (csys g) ?h es1 e1 y1"
      "out_sending e1 \<or> held e1 \<noteq> []" by (auto simp: htonl_bytes_def)
  have "window_le e1 W" using h1(3) by (simp add: seals_def)
  from write_all_seals [OF io h1(2) this, of hs y1 json] obtain e2 y2 es2 where
    h2: "br_sslio_write_all (conn_io os s) hs e1 y1 json = Some (e2, y2, 0)" "steady e2" "seals W ?S e1 y1 json es2 e2 y2"
      "json \<noteq> [] \<longrightarrow> out_sending e2 \<or> held e2 \<noteq> []" by blast
  have p2: "out_sending e2 \<or> held e2 \<noteq> []"
  proof (cases "json = []")
    case True
    then have "e2 = e1" using h2(1) by (subst (asm) br_sslio_write_all.simps) simp
    then show ?thesis using h1(4) by simp
  qed (use h2(4) in blast)
  have "window_le e2 W" using h2(3) by (simp add: seals_def)
  from flush_seals [OF io h2(2) this, of hs y2] p2 obtain e3 y3 es3 where
    h3: "br_sslio_flush (conn_io os s) hs e2 y2 = Some (e3, y3, 0)" "steady e3" "out_gather e3" "oxc e3 = oxa e3"
      "(oxa e3, oxb e3) = fresh_window e2" "seals W ?S e2 y2 [] es3 e3 y3" by blast
  define es where "es = (es1 @ es2) @ es3"
  have t: "seals W ?S e (csys g) (json_frame json) es e3 y3"
    using seals_trans [OF seals_trans [OF h1(3) h2(3)] h3(6)] by (simp add: es_def json_frame_def)
  have z: "held e = []" "held e3 = []" "owed e = []" "owed e3 = []"
    using gather_or_sending [OF assms(4)] gather_or_sending [OF h3(2)] assms(5,6) h3(3,4) by (auto simp: held_def owed_def payload_of_def)
  have "tlsv2_client_send_json os hs g s json = Some (put_conn g c e3 y3, 0)"
    using assms(2,8) h1(1) h2(1) h3(1) by (simp add: tlsv2_client_send_json_def assms(3) [symmetric])
  moreover have "fresh_window e2 = fresh_window e" using h1(3) h2(3) by (simp add: seals_def)
  ultimately show ?thesis using t z h3(2-5) unfolding seals_def
    by (intro exI [of _ e3] exI [of _ y3] exI [of _ es]) simp
qed

text \<open>
  C17. Sending a message works: on an established connection with nothing gathered yet, over a socket that takes
  at least one byte per call, \<open>tlsv2_client_send_json\<close> returns 0 for every message up to the limit of 65536 bytes,
  and by then the socket has been given exactly the bytes of a sequence of application data records, made one
  after the other with the encryption context of the connection, whose payloads together are the
  4-byte length followed by the message; no payload exceeds the window of the engine. If the frame fits
  into the current window with a byte to spare, it is one record.
\<close>

theorem client_send_json_delivers:
  fixes e :: "('c, 'r) engine"
  assumes "write_sends os s sent" "tlsv2_lookup_client_conn g s = Some c" "e = eng (csc c)"
    and "steady e" "out_gather e" "oxc e = oxa e" "window_le e W" "length json \<le> TLSV2_MAX_JSON_SIZE"
  shows "\<exists>g' c' es. tlsv2_client_send_json os hs g s json = Some (g', 0) \<and> tlsv2_lookup_client_conn g' s = Some c'
    \<and> sent (world (csys g')) = sent (world (csys g)) @ concat (map record_of es) \<and> concat (map payload_of es) = json_frame json
    \<and> record_chain (rout e) es (rout (eng (csc c')))
    \<and> (\<forall>b \<in> set es. sealable b \<and> record_type_out b = BR_SSL_APPLICATION_DATA \<and> length (payload_of b) \<le> W)
    \<and> (oxa e + 4 + length json < oxb e \<longrightarrow> es = [gathered e (json_frame json)])"
proof (cases "oxa e + 4 + length json < oxb e")
  case True
  let ?b = "gathered e (json_frame json)"
  from client_send_json_wire [OF assms(1-6) True assms(8), of hs] obtain e' y' where
    w: "tlsv2_client_send_json os hs g s json = Some (put_conn g c e' y', 0)"
      "sent (world y') = sent (world (csys g)) @ record_of ?b" "rout e' = rout (sendpld_flush ?b False)"
    by (auto simp: record_of_def Let_def)
  have r: "oxa e + length (json_frame json) < oxb e" using True by simp
  note g = gathered_steady [OF assms(4,5) r]
  have "oxc ?b < oxa ?b" "record_type_out ?b = BR_SSL_APPLICATION_DATA" "rout ?b = rout e"
    using assms(4,6) by (simp_all add: gathered_def steady_def)
  then have "sealable ?b" "record_type_out ?b = BR_SSL_APPLICATION_DATA" "rout ?b = rout e"
    using gather_sealable [OF _ _ g(2)] steady_regs [OF g(1)] by (auto simp: out_regs_def)
  moreover have "payload_of ?b = json_frame json" using assms(6) by (simp add: payload_of_def gathered_def)
  moreover have "length (json_frame json) \<le> W" using assms(5-7) True by (auto simp: window_le_def)
  ultimately show ?thesis using w lookup_put_conn [OF assms(2), of e' y']
    by (intro exI [of _ "put_conn g c e' y'"] exI [of _ "c\<lparr>csc := (csc c)\<lparr>eng := e'\<rparr>\<rparr>"] exI [of _ "[?b]"]) (simp add: put_conn_def)
next
  case False
  from client_send_json_records [OF assms, of hs] obtain e' y' and es :: "('c, 'r) engine list" where
    "tlsv2_client_send_json os hs g s json = Some (put_conn g c e' y', 0)"
    "sent (world y') = sent (world (csys g)) @ concat (map record_of es)" "concat (map payload_of es) = json_frame json"
    "record_chain (rout e) es (rout e')"
    "\<forall>b \<in> set es. sealable b \<and> record_type_out b = BR_SSL_APPLICATION_DATA \<and> version_out b = version_out e \<and> oxa b - oxc b \<le> W" by blast
  with False lookup_put_conn [OF assms(2), of e' y'] show ?thesis
    by (intro exI [of _ "put_conn g c e' y'"] exI [of _ "c\<lparr>csc := (csc c)\<lparr>eng := e'\<rparr>\<rparr>"] exI [of _ es]) (simp add: put_conn_def payload_of_def)
qed

text \<open>A system for the example: its world is the list of bytes written.\<close>

definition tape_os :: "byte list os" where
  "tape_os = \<lparr>sys_socket = (\<lambda>w. (w, Done 3)), sys_setsockopt = (\<lambda>_ w. (w, Done ())), sys_bind = (\<lambda>_ _ w. (w, Done ())),
     sys_listen = (\<lambda>_ _ w. (w, Done ())), sys_accept = (\<lambda>_ w. (w, Fail EAGAIN)), sys_connect = (\<lambda>_ _ _ w. (w, Done ())),
     sys_getfl = (\<lambda>_ w. (w, Done 0)), sys_setfl = (\<lambda>_ _ w. (w, Done ())), sys_read = (\<lambda>_ _ w. (w, Done [])),
     sys_write = (\<lambda>_ bs w. (w @ bs, Done (length bs))), sys_close = (\<lambda>_ w. w), sys_select = (\<lambda>r x w. (w, Done (r, x))),
     inet_pton = (\<lambda>_. Some 0), c_malloc = (\<lambda>_ w. (w, True)), c_fopen = (\<lambda>_ w. (w, None)),
     c_fseek_end = (\<lambda>_ w. (w, True)), c_ftell = (\<lambda>_ w. (w, 0)), c_fseek_set = (\<lambda>_ w. (w, True)),
     c_fread = (\<lambda>_ _ w. (w, [])), c_fclose = (\<lambda>_ w. w)\<rparr>"

lemma tape_sends: "write_sends tape_os s (\<lambda>w. w)"
  by (simp add: write_sends_def tape_os_def)

definition demo_clients :: "(unit, unit) engine \<Rightarrow> (unit, unit, unit, byte list) tls_clients" where
  "demo_clients e =
     \<lparr>g_client_conns = [Some \<lparr>sock = 5, csc = (br_ssl_context_zero () () (\<lambda>_. 0))\<lparr>eng := e\<rparr>\<rparr>, None],
      csys = \<lparr>world = [], errno = 0\<rparr>\<rparr>"

definition ready_engine :: "(unit, unit) engine" where
  "ready_engine = open_engine\<lparr>oxa := 100, oxb := 3000\<rparr>"

lemma ready_engine_steady: "steady ready_engine" "out_gather ready_engine" "oxc ready_engine = oxa ready_engine"
  using zero_gcm_synced
  by (simp_all add: ready_engine_def open_engine_def fresh_engine_eq br_ssl_zero_def steady_def io_inv_def engine_ok_def
      buf_ok_def in_defs out_defs overhead_defs)

text \<open>A message of 5000 bytes, for which the window of 2900 bytes is too small.\<close>

theorem client_send_json_delivers_witness:
  "\<exists>g' (es :: (unit, unit) engine list). tlsv2_client_send_json tape_os hs_discard (demo_clients ready_engine) 5 (replicate 5000 48) = Some (g', 0)
    \<and> world (csys g') = concat (map record_of es) \<and> concat (map payload_of es) = json_frame (replicate 5000 48)
    \<and> (\<forall>b \<in> set es. length (payload_of b) \<le> 16384)"
proof -
  let ?c = "\<lparr>sock = 5, csc = (br_ssl_context_zero () () (\<lambda>_. 0))\<lparr>eng := ready_engine\<rparr>\<rparr> :: (unit, unit, unit) conn"
  let ?m = "replicate 5000 48 :: byte list"
  have l: "tlsv2_lookup_client_conn (demo_clients ready_engine) 5 = Some ?c" "ready_engine = eng (csc ?c)"
    by (simp_all add: tlsv2_lookup_client_conn_def demo_clients_def)
  have w: "window_le ready_engine 16384" "length ?m \<le> TLSV2_MAX_JSON_SIZE"
    by (simp_all add: ready_engine_def open_engine_def fresh_engine_eq br_ssl_zero_def window_le_def fresh_window_def make_ready_out_def Let_def
        gcm_max_plaintext_def sz_simps TLSV2_MAX_JSON_SIZE_def)
  from client_send_json_delivers [OF tape_sends l ready_engine_steady w, of hs_discard] obtain g' and es :: "(unit, unit) engine list" where
    "tlsv2_client_send_json tape_os hs_discard (demo_clients ready_engine) 5 ?m = Some (g', 0)"
    "world (csys g') = world (csys (demo_clients ready_engine)) @ concat (map record_of es)" "concat (map payload_of es) = json_frame ?m"
    "\<forall>b \<in> set es. length (payload_of b) \<le> 16384" by blast
  then show ?thesis by (auto simp: demo_clients_def)
qed

section \<open>The table\<close>

text \<open>
  The connection table: a connection that was registered is found under its socket unless the
  table is full; closing a socket makes it unknown and leaves every other connection as it was; and
  when the table is full, registering is without effect, so that \<open>tlsv2_client_connect\<close> returns a
  socket that every later call rejects.
\<close>

theorem connection_table:
  assumes "reg_ok sock (g_client_conns g)" "tlsv2_lookup_client_conn g (sock c) = None"
  shows "(reg_full (g_client_conns g) \<longrightarrow> tlsv2_register_client_conn g c = g)
    \<and> (\<not> reg_full (g_client_conns g) \<longrightarrow> tlsv2_lookup_client_conn (tlsv2_register_client_conn g c) (sock c) = Some c)
    \<and> (s \<noteq> sock c \<longrightarrow> tlsv2_lookup_client_conn (tlsv2_register_client_conn g c) s = tlsv2_lookup_client_conn g s)
    \<and> tlsv2_lookup_client_conn (tlsv2_client_close_fd os g s) s = None
    \<and> (s' \<noteq> s \<longrightarrow> tlsv2_lookup_client_conn (tlsv2_client_close_fd os g s) s' = tlsv2_lookup_client_conn g s')"
  using assms reg.lookup_register [of sock "g_client_conns g" c] reg.lookup_unregister [OF assms(1)]
  by (auto simp: reg.register_full tlsv2_lookup_client_conn_def tlsv2_register_client_conn_def tlsv2_client_close_fd_def
      tlsv2_unregister_client_conn_def split: option.splits)

theorem connection_table_witness:
  "tlsv2_lookup_client_conn (tlsv2_client_close_fd tape_os (demo_clients ready_engine) 5) 5 = None"
proof -
  have "reg_ok sock (g_client_conns (demo_clients ready_engine))"
      "tlsv2_lookup_client_conn (demo_clients ready_engine)
        (sock \<lparr>sock = 6, csc = br_ssl_context_zero () () (\<lambda>_. 0) :: (unit, unit, unit) ssl_context\<rparr>) = None"
    by (simp_all add: demo_clients_def reg_ok_def List.map_filter_def tlsv2_lookup_client_conn_def)
  from connection_table [OF this, of 5 tape_os] show ?thesis by blast
qed

section \<open>Receiving\<close>

text \<open>
  The length check of \<open>tlsv2_client_recv_json\<close>: it admits a length if and only if the message and
  its terminating 0 fit the caller's buffer, except for the length \<open>0xFFFFFFFF\<close>, for which
  \<open>nlen + 1\<close> wraps around to 0 and which passes for every buffer, however small.
\<close>

theorem recv_length_check:
  "recv_len_rejected nlen maxlen \<longleftrightarrow> unat nlen + 1 > maxlen \<and> nlen \<noteq> 0xFFFFFFFF"
proof (cases "nlen = 0xFFFFFFFF")
  case False
  have "nlen + 1 \<noteq> 0"
  proof
    assume "nlen + 1 = 0"
    then have "nlen = - 1" by (simp only: eq_neg_iff_add_eq_0)
    with False show False by simp
  qed
  then have "unat (nlen + 1) = unat nlen + 1" using unatSuc [of nlen] by (simp add: add.commute)
  with False show ?thesis by (simp add: recv_len_rejected_def)
qed (simp add: recv_len_rejected_def)

end
