(* ===== verification/Tls_V3_Link.thy ===== *)
theory Tls_V3_Link
  imports Tls_V3_Server_Props Tls_V3_Client
begin

text \<open>
  The two halves of \<open>tls_wrapper_v3.c\<close> against each other: what \<open>tlsv2_client_send_json\<close> writes to its
  socket is read by \<open>tlsv2_engine_recv\<close> on the server in whatever pieces the network delivers it,
  decrypted by the server's engine, deframed by \<open>tlsv2_engine_read_plain\<close> and handed to the
  application.
\<close>

unbundle bit_operations_syntax

section \<open>Bytes that arrive in pieces\<close>

text \<open>
  A non-blocking descriptor \<open>d\<close> on which the bytes \<open>inc\<close> are waiting: a read returns at least one and
  at most \<open>n\<close> of them, and fails with \<open>EAGAIN\<close> when there are none.
\<close>

definition reads :: "'w os \<Rightarrow> int \<Rightarrow> ('w \<Rightarrow> byte list) \<Rightarrow> bool" where
  "reads os d inc \<longleftrightarrow> (\<forall>n w. 0 < n \<longrightarrow>
     (if inc w = [] then \<exists>w'. sys_read os d n w = (w', Fail EAGAIN) \<and> inc w' = []
      else \<exists>w' k. sys_read os d n w = (w', Done (take k (inc w))) \<and> 0 < k \<and> k \<le> n \<and> k \<le> length (inc w)
             \<and> inc w' = drop k (inc w)))"

lemma reads_some:
  assumes "reads os d inc" "0 < n" "inc (world y) \<noteq> []"
  shows "\<exists>y' k. tls_low_read os d n y = (y', Some (take k (inc (world y)))) \<and> 0 < k \<and> k \<le> n
    \<and> k \<le> length (inc (world y)) \<and> inc (world y') = drop k (inc (world y))"
proof -
  obtain w' k where "sys_read os d n (world y) = (w', Done (take k (inc (world y))))" "0 < k" "k \<le> n"
      "k \<le> length (inc (world y))" "inc w' = drop k (inc (world y))"
    using assms(1) [unfolded reads_def, rule_format, OF assms(2), of "world y"] assms(3) by auto
  with assms(3) show ?thesis by (auto simp: tls_low_read_def syscall_def)
qed

lemma reads_none:
  assumes "reads os d inc" "0 < n" "inc (world y) = []"
  shows "\<exists>y'. tls_low_read os d n y = (y', None) \<and> gfns_would_block y' \<and> inc (world y') = []"
proof -
  obtain w' where "sys_read os d n (world y) = (w', Fail EAGAIN)" "inc w' = []"
    using assms(1) [unfolded reads_def, rule_format, OF assms(2), of "world y"] assms(3) by auto
  then show ?thesis by (simp add: tls_low_read_def syscall_def gfns_would_block_def)
qed

text \<open>A part of what an engine waits for changes nothing but the registers and the buffer.\<close>

definition awaits :: "('c, 'r) engine \<Rightarrow> bool" where
  "awaits r \<longleftrightarrow> buf_ok r \<and> ibuf r \<noteq> obuf r \<and> incrypt r \<and> \<not> shutdown_recv r \<and> (iomode r = BR_IO_IN \<or> iomode r = BR_IO_INOUT)
     \<and> ixb r = ixa r \<and> 0 < ixc r \<and> ixa r + ixc r \<le> ibuf_len r \<and> (ixa r < 5 \<longrightarrow> ixa r + ixc r = 5)"

lemma awaits_window:
  assumes "awaits r"
  shows "br_ssl_engine_recvrec_buf r = (Some (ptr (ibuf r) + ixa r), ixc r)" "\<not> br_ssl_engine_closed r"
    "br_ssl_engine_current_state r AND BR_SSL_RECVREC \<noteq> 0"
proof -
  show b: "br_ssl_engine_recvrec_buf r = (Some (ptr (ibuf r) + ixa r), ixc r)" "\<not> br_ssl_engine_closed r"
    using assms by (auto simp: awaits_def buf_ok_def br_ssl_engine_recvrec_buf_def recvrec_buf_def Let_def sz_simps
        br_ssl_engine_closed_def)
  then show "br_ssl_engine_current_state r AND BR_SSL_RECVREC \<noteq> 0" by (simp add: state_bits(3))
qed

lemma deliver_part:
  assumes "awaits r" "0 < length bs" "length bs < ixc r"
  shows "deliver r bs = r\<lparr>mem := store (mem r) (ptr (ibuf r) + ixa r) bs,
      ixa := ixa r + length bs, ixb := ixa r + length bs, ixc := ixc r - length bs\<rparr>"
proof -
  have "io_reading r = iomode r" "ixa r + length bs < 2 ^ 63" "length bs \<le> ixc r" "ixc r < 2 ^ 63"
    using assms by (auto simp: awaits_def buf_ok_def io_reading_def)
  moreover have "ixa r < 5 \<longrightarrow> ixa r + ixc r = 5" using assms(1) by (simp add: awaits_def)
  then have "ixa r + length bs \<noteq> 5" using assms(2,3) by linarith
  ultimately show ?thesis using assms deliver_eq [of r bs] by (auto simp: awaits_def cong: if_cong)
qed

lemma deliver_part_awaits:
  "awaits r \<Longrightarrow> 0 < length bs \<Longrightarrow> length bs < ixc r \<Longrightarrow> awaits (deliver r bs) \<and> ixc (deliver r bs) = ixc r - length bs"
  by (auto simp: deliver_part) (auto simp: awaits_def buf_ok_def)

lemma deliver_parts:
  assumes "awaits r" "0 < length xs" "length xs < ixc r" "length xs + length ys \<le> ixc r"
  shows "deliver (deliver r xs) ys = deliver r (xs @ ys)"
proof -
  let ?q = "r\<lparr>mem := store (mem r) (ptr (ibuf r) + ixa r) xs,
      ixa := ixa r + length xs, ixb := ixa r + length xs, ixc := ixc r - length xs\<rparr>"
  have l: "ixa r + ixc r < 2 ^ 63" "io_reading r = iomode r" using assms(1) by (auto simp: awaits_def buf_ok_def io_reading_def)
  have "deliver ?q ys = deliver r (xs @ ys)"
    using l assms(3,4) deliver_eq [of ?q ys] deliver_eq [of r "xs @ ys"]
    by (simp add: store_append add.assoc io_reading_def cong: if_cong)
  then show ?thesis by (simp add: deliver_part [OF assms(1-3)])
qed

text \<open>One segment, as much as the engine waits for, read from the network in any number of pieces.\<close>

lemma recv_segment:
  assumes "reads os d inc" "awaits r" "length seg = ixc r" "inc (world y) = seg @ rest"
    and "br_ssl_engine_recvrec_ack hs (r\<lparr>mem := store (mem r) (ptr (ibuf r) + ixa r) seg\<rparr>) (length seg) = Some r'"
  shows "\<exists>y'. tlsv2_engine_recv os hs d r y = tlsv2_engine_recv os hs d r' y' \<and> inc (world y') = rest"
  using assms(2-)
proof (induction "length seg" arbitrary: r seg y rule: less_induct)
  case less
  let ?p = "ptr (ibuf r) + ixa r"
  have c: "0 < ixc r" using less.prems(1) by (simp add: awaits_def)
  then have ne: "inc (world y) \<noteq> []" using less.prems(2,3) by auto
  obtain y1 k where k: "tls_low_read os d (ixc r) y = (y1, Some (take k (seg @ rest)))" "0 < k" "k \<le> ixc r"
      "inc (world y1) = drop k (seg @ rest)"
    using reads_some [OF assms(1) c ne] less.prems(3) by auto
  define xs where "xs = take k seg"
  have xs: "take k (seg @ rest) = xs" "length xs = k" using k(3) less.prems(2) by (simp_all add: xs_def)
  have step: "tlsv2_engine_recv os hs d r y = Option.bind (br_ssl_engine_recvrec_ack hs (r\<lparr>mem := store (mem r) ?p xs\<rparr>) k)
      (\<lambda>e. tlsv2_engine_recv os hs d e y1)"
    using awaits_window [OF less.prems(1)] k(1) c xs by (subst tlsv2_engine_recv.simps) simp
  show ?case
  proof (cases "k = ixc r")
    case True
    then have "xs = seg" using less.prems(2) by (simp add: xs_def)
    with step True less.prems(2,4) k(4) show ?thesis by (auto simp: True)
  next
    case False
    then have kl: "0 < length xs" "length xs < ixc r" using k(2,3) xs by simp_all
    define q where "q = deliver r xs"
    have q: "awaits q" "ixc q = ixc r - k" using deliver_part_awaits [OF less.prems(1) kl] xs by (auto simp: q_def)
    have "br_ssl_engine_recvrec_ack hs (r\<lparr>mem := store (mem r) ?p xs\<rparr>) k = Some q"
    proof -
      have "recvrec_ack (r\<lparr>mem := store (mem r) ?p xs\<rparr>) k = q" by (simp add: q_def deliver_def xs)
      moreover have "recvpld_buf q = (None, 0)"
        using q(1) by (auto simp: awaits_def recvpld_buf_def buf_ok_def sz_simps)
      ultimately show ?thesis
        using awaits_window(2) [OF q(1)] by (simp add: br_ssl_engine_recvrec_ack_def)
    qed
    then have st: "tlsv2_engine_recv os hs d r y = tlsv2_engine_recv os hs d q y1" by (simp add: step)
    define ys where "ys = drop k seg"
    have ys: "length ys < length seg" "length ys = ixc q" "inc (world y1) = ys @ rest"
      using k(2-4) less.prems(2) q(2) c by (auto simp: ys_def)
    have "deliver q ys = deliver r seg"
      unfolding q_def using deliver_parts [OF less.prems(1) kl, of ys] ys(2) q(2) xs k(3) by (simp add: xs_def ys_def)
    then have "br_ssl_engine_recvrec_ack hs (q\<lparr>mem := store (mem q) (ptr (ibuf q) + ixa q) ys\<rparr>) (length ys) = Some r'"
      using less.prems(4) unfolding br_ssl_engine_recvrec_ack_def deliver_def by simp
    from less.hyps [OF ys(1) q(1) ys(2,3) this] st show ?thesis by simp
  qed
qed

section \<open>A record arrives at the server\<close>

text \<open>An engine on an established connection that has nothing to send and waits for the next record.\<close>

definition listening :: "('c, 'r) engine \<Rightarrow> bool" where
  "listening r \<longleftrightarrow> steady r \<and> out_gather r \<and> iomode r = BR_IO_INOUT \<and> application_data r = 1 \<and> incrypt r
     \<and> \<not> shutdown_recv r \<and> ixa r = 0 \<and> ixb r = 0 \<and> ixc r = 5"

lemma listening_awaits: "listening r \<Longrightarrow> awaits r"
  by (auto simp: listening_def awaits_def steady_def io_inv_def engine_ok_def buf_ok_def overhead_defs)

text \<open>A sender with payload for one application record that a receiver in step has room for.\<close>

definition can_transfer :: "('c, 'r) engine \<Rightarrow> ('d, 'q) engine \<Rightarrow> bool" where
  "can_transfer s r \<longleftrightarrow> sealable s \<and> oxa s - oxc s \<le> 16384
     \<and> record_type_out s = BR_SSL_APPLICATION_DATA \<and> rec_synced (rout s) (rin r)
     \<and> (version_in r = 0 \<or> version_in r = version_out s) \<and> drop_bit 8 (ucast (version_out s) :: u32) = 3
     \<and> oxa s - oxc s + 29 \<le> ibuf_len r"

lemma recv_record:
  assumes "reads os d inc" "listening r" "can_transfer s r" "inc (world y) = record_of s @ rest"
  shows "\<exists>a m ctx y'. tlsv2_engine_recv os hs d r y = Some (r\<lparr>mem := m, rin := ctx, record_type_in := BR_SSL_APPLICATION_DATA,
             version_in := version_out s, ixa := a, ixb := a + (oxa s - oxc s), ixc := 0\<rparr>, y', 0)
    \<and> 5 \<le> a \<and> a + (oxa s - oxc s) \<le> ibuf_len r
    \<and> load m (ptr (ibuf r) + a) (oxa s - oxc s) = load (mem s) (ptr (obuf s) + oxc s) (oxa s - oxc s)
    \<and> rec_synced (rout (sendpld_flush s False)) ctx \<and> inc (world y') = rest"
proof -
  let ?w = "record_of s" and ?n = "oxa s - oxc s"
  have r: "buf_ok r" "ixa r = 0" "ixb r = 0" "ixc r = 5" "incrypt r" "iomode r = BR_IO_IN \<or> iomode r = BR_IO_INOUT"
      "io_reading r = iomode r" "application_data r = 1" "\<not> shutdown_recv r" "ibuf r \<noteq> obuf r" "iomode r = BR_IO_INOUT"
    using assms(2) by (auto simp: listening_def steady_def io_inv_def engine_ok_def io_reading_def)
  have s: "sealable s" "oxc s < oxa s" "?n \<le> 16384" "rec_synced (rout s) (rin r)"
      "version_in r = 0 \<or> version_in r = version_out s" "drop_bit 8 (ucast (version_out s) :: u32) = 3" "?n + 29 \<le> ibuf_len r"
      "record_type_out s = BR_SSL_APPLICATION_DATA"
    using assms(3) by (auto simp: can_transfer_def sealable_def)
  have wdef: "?w = load (mem (sendpld_flush s False)) (ptr (obuf (sendpld_flush s False)) + oxa (sendpld_flush s False))
      (oxc (sendpld_flush s False) - oxa (sendpld_flush s False))"
    by (simp add: record_of_def Let_def)
  define r1 where "r1 = deliver r (take 5 ?w)"
  define r2 where "r2 = deliver r1 (drop 5 ?w)"
  have A: "5 < length ?w" "length ?w \<le> ibuf_len r" "r1 = after_header r s ?w"
    and B: "\<exists>a m ctx. r2 = r\<lparr>mem := m, rin := ctx, iomode := io_reading r, record_type_in := record_type_out s,
             version_in := version_out s, ixa := a, ixb := a + ?n, ixc := 0\<rparr>
          \<and> 5 \<le> a \<and> a + ?n \<le> ibuf_len r \<and> load m (ptr (ibuf r) + a) ?n = load (mem s) (ptr (obuf s) + oxc s) ?n
          \<and> rec_synced (rout (sendpld_flush s False)) ctx"
    using record_arrives [OF s(1,3,4) r(1-6) s(5-7), folded wdef, folded r1_def, folded r2_def] by simp_all
  from B obtain a m ctx where r2: "r2 = r\<lparr>mem := m, rin := ctx, iomode := io_reading r, record_type_in := record_type_out s,
             version_in := version_out s, ixa := a, ixb := a + ?n, ixc := 0\<rparr>"
          "5 \<le> a" "a + ?n \<le> ibuf_len r" "load m (ptr (ibuf r) + a) ?n = load (mem s) (ptr (obuf s) + oxc s) ?n"
          "rec_synced (rout (sendpld_flush s False)) ctx" by blast
  have eq: "r2 = r\<lparr>mem := m, rin := ctx, record_type_in := BR_SSL_APPLICATION_DATA,
             version_in := version_out s, ixa := a, ixb := a + ?n, ixc := 0\<rparr>"
    using r2(1) r(7) s(8) by simp
  have a1: "awaits r1" "ixc r1 = length ?w - 5"
    using A r(1,5,7,9,10,11) by (auto simp: awaits_def after_header_def buf_ok_def)
  have "br_ssl_engine_recvrec_ack hs (r\<lparr>mem := store (mem r) (ptr (ibuf r) + ixa r) (take 5 ?w)\<rparr>) (length (take 5 ?w)) = Some r1"
  proof -
    have "recvpld_buf r1 = (None, 0)" using a1(1) by (auto simp: awaits_def recvpld_buf_def buf_ok_def sz_simps)
    with awaits_window(2) [OF a1(1)] show ?thesis
      by (simp add: br_ssl_engine_recvrec_ack_def r1_def deliver_def)
  qed
  from recv_segment [OF assms(1) listening_awaits [OF assms(2)] _ _ this, of y "drop 5 ?w @ rest"] A(1) r(4) assms(4)
  obtain y1 where y1: "tlsv2_engine_recv os hs d r y = tlsv2_engine_recv os hs d r1 y1" "inc (world y1) = drop 5 ?w @ rest"
    by (metis append.assoc append_take_drop_id length_take less_imp_le_nat min.absorb2)
  have pld: "recvpld_buf r2 = (Some (ptr (ibuf r) + a), ?n)" and nc: "\<not> br_ssl_engine_closed r2"
    using s(2) r(1,11) r2(2,3) by (auto simp: eq recvpld_buf_def buf_ok_def sz_simps br_ssl_engine_closed_def)
  have "br_ssl_engine_recvrec_ack hs (r1\<lparr>mem := store (mem r1) (ptr (ibuf r1) + ixa r1) (drop 5 ?w)\<rparr>) (length (drop 5 ?w)) = Some r2"
  proof -
    have "recvrec_ack (r1\<lparr>mem := store (mem r1) (ptr (ibuf r1) + ixa r1) (drop 5 ?w)\<rparr>) (length (drop 5 ?w)) = r2"
      by (simp add: r2_def deliver_def)
    with pld nc r(8) show ?thesis
      by (simp add: br_ssl_engine_recvrec_ack_def) (simp add: eq BR_SSL_APPLICATION_DATA_def BR_SSL_ALERT_def
          BR_SSL_CHANGE_CIPHER_SPEC_def BR_SSL_HANDSHAKE_def)
  qed
  from recv_segment [OF assms(1) a1(1) _ y1(2) this] a1(2)
  obtain y2 where y2: "tlsv2_engine_recv os hs d r1 y1 = tlsv2_engine_recv os hs d r2 y2" "inc (world y2) = rest" by auto
  have "ixa r2 \<noteq> ixb r2" using s(2) by (simp add: eq)
  then have "fst (br_ssl_engine_recvrec_buf r2) = None" by (simp add: br_ssl_engine_recvrec_buf_def recvrec_buf_def)
  then have "tlsv2_engine_recv os hs d r2 y2 = Some (r2, y2, 0)"
    using state_bits(3) [of r2] by (subst tlsv2_engine_recv.simps) simp
  then have "tlsv2_engine_recv os hs d r y = Some (r2, y2, 0)" using y1(1) y2(1) by simp
  then show ?thesis using r2(2-5) y2(2) unfolding eq by blast
qed

section \<open>The server handles a record\<close>

text \<open>The application's callback for a message, when it answers nothing.\<close>

definition collects :: "('c, 'r, 'k, 'w, 'a) server \<Rightarrow> (byte list \<Rightarrow> 'a \<Rightarrow> 'a) \<Rightarrow> bool" where
  "collects s f \<longleftrightarrow> on_json_received (g_cfg s) = Some (\<lambda>_ json a. Return (f json a))"

text \<open>A slot that waits for the next record, with the bytes \<open>p\<close> of an unfinished message in its buffer.\<close>

definition slot_ready :: "('c, 'r, 'k) client \<Rightarrow> byte list \<Rightarrow> bool" where
  "slot_ready c p \<longleftrightarrow> state c = TLSV2_STATE_OPEN \<and> listening (eng (sc c)) \<and> inbuf_ok (inb c) \<and> pending (inb c) = p
     \<and> out_used (outb c) \<le> out_sent (outb c)"

lemma deliver_collects: "collects s f \<Longrightarrow> deliver_json i s json = s\<lparr>app := f json (app s)\<rparr>"
  by (simp add: deliver_json_def collects_def)

lemma deliver_all_collects: "collects s f \<Longrightarrow> foldl (deliver_json i) s ms = s\<lparr>app := fold f ms (app s)\<rparr>"
proof (induction ms arbitrary: s)
  case (Cons m ms)
  then have "collects (s\<lparr>app := f m (app s)\<rparr>) f" by (simp add: collects_def)
  with Cons show ?case by (simp add: deliver_collects)
qed simp

text \<open>The payload of a record is one chunk for the deframer.\<close>

lemma read_plain_chunk:
  assumes "malloc_ok os" "i < length (g_clients s)" "collects s f" "inbuf_ok (inb (g_clients s ! i))"
    and "pending (inb (g_clients s ! i)) @ chunk = d" "length d \<le> TLSV2_MAX_JSON_SIZE + 4" "\<not> bad_header (snd (frames d))"
    and "e = eng (sc (g_clients s ! i))" "\<not> br_ssl_engine_closed e"
    and "br_ssl_engine_recvapp_buf e = (Some p, length chunk)" "load (mem e) p (length chunk) = chunk"
    and "e' = br_ssl_engine_recvapp_ack e (length chunk)" "fst (br_ssl_engine_recvapp_buf e') = None" "chunk \<noteq> []"
  shows "\<exists>b. tlsv2_engine_read_plain os i s
      = Some ((upd_client i (\<lambda>c. (set_eng c e')\<lparr>inb := b\<rparr>) s)\<lparr>app := fold f (fst (frames d)) (app s)\<rparr>, 0)
    \<and> pending b = snd (frames d) \<and> inbuf_ok b"
proof -
  let ?c = "g_clients s ! i" and ?n = "length chunk"
  define s1 where "s1 = upd_client i (\<lambda>c. set_eng c e') s"
  have s1: "i < length (g_clients s1)" "inb (g_clients s1 ! i) = inb ?c" "collects s1 f" "app s1 = app s"
    using assms(2,3) by (auto simp: s1_def set_eng_def collects_def)
  have ack: "upd_client i (\<lambda>c. set_eng c (br_ssl_engine_recvapp_ack (eng (sc c)) ?n)) s = s1"
    using assms(8,12) by (simp add: s1_def upd_client_def)
  have n: "\<not> TLSV2_MAX_JSON_SIZE + 4 < in_used (inb ?c) + ?n" using length_pending [OF assms(4)] assms(5,6) by auto
  with v3.feed_frames [of os i s1 chunk] assms(1,4,5,7) s1
  obtain b where b: "v3.feed i os s1 chunk = Some (upd_client i (inb_update (\<lambda>_. b)) (foldl (deliver_json i) s1 (fst (frames d))), 0)"
      "pending b = snd (frames d)" "inbuf_ok b" by auto
  define t where "t = (upd_client i (\<lambda>c. (set_eng c e')\<lparr>inb := b\<rparr>) s)\<lparr>app := fold f (fst (frames d)) (app s)\<rparr>"
  have tt: "upd_client i (inb_update (\<lambda>_. b)) (foldl (deliver_json i) s1 (fst (frames d))) = t"
    unfolding deliver_all_collects [OF s1(3)] by (simp add: t_def s1_def set_eng_def)
  have j: "json_receive os i s1 chunk = Some (t, 0)"
    using b(1) tt by (simp add: v3.feed_def json_receive_def Let_def)
  have "eng (sc (g_clients t ! i)) = e'" using assms(2) by (simp add: t_def set_eng_def)
  then have e: "tlsv2_engine_read_plain os i t = Some (t, 0)"
    using assms(13) state_bits(5) [of e'] by (subst tlsv2_engine_read_plain.simps) simp
  have "br_ssl_engine_current_state e AND BR_SSL_RECVAPP \<noteq> 0" using state_bits(5) [of e] assms(9,10) by simp
  then have "tlsv2_engine_read_plain os i s = Some (t, 0)"
    using assms(8,10,11,14) n j e by (subst tlsv2_engine_read_plain.simps) (simp add: Let_def ack)
  with b show ?thesis unfolding t_def by blast
qed

lemma handle_record:
  assumes "reads os d inc" "malloc_ok os" "i < length (g_clients S)" "fd (g_clients S ! i) = d" "slot_ready (g_clients S ! i) p"
    and "collects S f" "r = eng (sc (g_clients S ! i))" "can_transfer s r"
    and "q = p @ payload_of s" "length q \<le> TLSV2_MAX_JSON_SIZE + 4" "\<not> bad_header (snd (frames q))"
    and "inc (world (sys S)) = record_of s @ rest"
  shows "\<exists>T. tlsv2_handle_client os env S i = Some T \<and> app T = fold f (fst (frames q)) (app S) \<and> g_cfg T = g_cfg S
    \<and> length (g_clients T) = length (g_clients S) \<and> fd (g_clients T ! i) = d \<and> slot_ready (g_clients T ! i) (snd (frames q))
    \<and> rec_synced (rout (sendpld_flush s False)) (rin (eng (sc (g_clients T ! i))))
    \<and> version_in (eng (sc (g_clients T ! i))) = version_out s \<and> ibuf_len (eng (sc (g_clients T ! i))) = ibuf_len r
    \<and> inc (world (sys T)) = rest"
proof -
  let ?c = "g_clients S ! i"
  define n where "n = oxa s - oxc s"
  have ln: "length (payload_of s) = n" by (simp add: payload_of_def n_def)
  have pl: "load (mem s) (ptr (obuf s) + oxc s) n = payload_of s" by (simp add: payload_of_def n_def)
  have L: "listening r" "state ?c = TLSV2_STATE_OPEN" "inbuf_ok (inb ?c)" "pending (inb ?c) = p"
      "out_used (outb ?c) \<le> out_sent (outb ?c)"
    using assms(5,7) by (auto simp: slot_ready_def)
  obtain a m ctx y where rv: "tlsv2_engine_recv os (hsrun_of env) d r (sys S)
        = Some (r\<lparr>mem := m, rin := ctx, record_type_in := BR_SSL_APPLICATION_DATA, version_in := version_out s, ixa := a,
             ixb := a + n, ixc := 0\<rparr>, y, 0)" "5 \<le> a" "a + n \<le> ibuf_len r" "load m (ptr (ibuf r) + a) n = payload_of s"
      "rec_synced (rout (sendpld_flush s False)) ctx" "inc (world y) = rest"
    using recv_record [OF assms(1) L(1) assms(8,12), of "hsrun_of env", folded n_def, unfolded pl] by blast
  define e where "e = r\<lparr>mem := m, rin := ctx, record_type_in := BR_SSL_APPLICATION_DATA, version_in := version_out s, ixa := a,
             ixb := a + n, ixc := 0\<rparr>"
  define e' where "e' = br_ssl_engine_recvapp_ack e n"
  have R: "buf_ok r" "iomode r = BR_IO_INOUT" "application_data r = 1" "out_gather r" "steady r"
    using L(1) by (auto simp: listening_def steady_def io_inv_def engine_ok_def)
  have n0: "0 < n" using assms(8) by (simp add: can_transfer_def sealable_def n_def)
  have sz: "sz_add a n = a + n" "sz_sub (a + n) a = n" using rv(3) R(1) by (auto simp: buf_ok_def sz_simps)
  have e': "e' = r\<lparr>mem := m, rin := ctx, record_type_in := BR_SSL_APPLICATION_DATA, version_in := version_out s, ixa := 0, ixb := 0, ixc := 5\<rparr>"
    using R(2) by (simp add: e'_def e_def br_ssl_engine_recvapp_ack_def recvpld_ack_def make_ready_in_def sz Let_def)
  have in_ok: "in_ok ctx" using recs.synced_ok [OF rv(5)] by simp
  have le: "listening e'"
    using L(1) in_ok by (auto simp: listening_def e' steady_def io_inv_def engine_ok_def buf_ok_def br_ssl_engine_closed_def in_defs out_defs)
  have se: "fst (br_ssl_engine_sendrec_buf e) = None" "fst (br_ssl_engine_sendrec_buf e') = None"
    using R(4) by (auto simp: e_def e' out_gather_def br_ssl_engine_sendrec_buf_def sendrec_buf_def)
  have nc: "\<not> br_ssl_engine_closed e" using R(2) by (simp add: e_def br_ssl_engine_closed_def)
  have ra: "br_ssl_engine_recvapp_buf e = (Some (ptr (ibuf r) + a), n)" "fst (br_ssl_engine_recvapp_buf e') = None"
    using R(2,3) n0 by (simp_all add: e_def e' br_ssl_engine_recvapp_buf_def recvpld_buf_def Let_def sz)
  define S1 where "S1 = upd_client i (\<lambda>c. set_eng c e) (S\<lparr>sys := y\<rparr>)"
  have p1: "pump (tlsv2_engine_recv os (hsrun_of env)) i S = Some (S1, 0)"
    using rv(1) assms(4,7) by (simp add: pump_def S1_def e_def)
  have S1: "i < length (g_clients S1)" "eng (sc (g_clients S1 ! i)) = e" "state (g_clients S1 ! i) = TLSV2_STATE_OPEN"
      "inb (g_clients S1 ! i) = inb ?c" "outb (g_clients S1 ! i) = outb ?c" "fd (g_clients S1 ! i) = d" "collects S1 f"
      "app S1 = app S" "sys S1 = y" "g_cfg S1 = g_cfg S" "length (g_clients S1) = length (g_clients S)"
    using assms(3,4,6) L(2) by (auto simp: S1_def set_eng_def collects_def upd_client_def)
  have p2: "pump (tlsv2_engine_send os (hsrun_of env)) i S1 = Some (S1, 0)"
    using se(1) S1(2) by (simp add: pump_def engine_send_idle upd_client_eng)
  obtain b where b: "tlsv2_engine_read_plain os i S1
      = Some ((upd_client i (\<lambda>c. (set_eng c e')\<lparr>inb := b\<rparr>) S1)\<lparr>app := fold f (fst (frames q)) (app S1)\<rparr>, 0)" "pending b = snd (frames q)" "inbuf_ok b"
    using read_plain_chunk [OF assms(2) S1(1,7) _ _ assms(10,11) S1(2) [symmetric] nc, of "payload_of s" "ptr (ibuf r) + a" e'] L(3,4) S1(4) rv(4) ra
      assms(9) ln n0 by (auto simp: e_def e'_def)
  define T where "T = (upd_client i (\<lambda>c. (set_eng c e')\<lparr>inb := b\<rparr>) S1)\<lparr>app := fold f (fst (frames q)) (app S1)\<rparr>"
  have T: "eng (sc (g_clients T ! i)) = e'" "outb (g_clients T ! i) = outb ?c" "state (g_clients T ! i) = TLSV2_STATE_OPEN"
      "inb (g_clients T ! i) = b" "fd (g_clients T ! i) = d" "sys T = y" "g_cfg T = g_cfg S"
      "length (g_clients T) = length (g_clients S)" "app T = fold f (fst (frames q)) (app S)"
    using S1 by (auto simp: T_def set_eng_def)
  have w: "tlsv2_engine_write_plain i T = Some (T, 0)" using T(2) L(5) by (simp add: tlsv2_engine_write_plain_def)
  have p3: "pump (tlsv2_engine_send os (hsrun_of env)) i T = Some (T, 0)"
    using se(2) T(1) by (simp add: pump_def engine_send_idle upd_client_eng)
  have "tlsv2_handle_client os env S i = Some T"
    using L(2) S1(3) by (simp add: tlsv2_handle_client_def p1 p2 b(1) [folded T_def] w p3 Let_def)
  moreover have "slot_ready (g_clients T ! i) (snd (frames q))" using T L(5) le b by (simp add: slot_ready_def)
  ultimately show ?thesis using T rv(5,6) by (simp add: e')
qed

text \<open>The server's loop calls the handler as long as bytes wait on the socket.\<close>

partial_function (option) serve ::
    "'w os \<Rightarrow> ('c, 'r, 'k) tls_env \<Rightarrow> ('w \<Rightarrow> byte list) \<Rightarrow> nat \<Rightarrow> ('c, 'r, 'k, 'w, 'a) server \<Rightarrow> ('c, 'r, 'k, 'w, 'a) server option" where
  "serve os env inc i S =
     (if inc (world (sys S)) = [] then Some S
      else Option.bind (tlsv2_handle_client os env S i) (\<lambda>T. serve os env inc i T))"

text \<open>The records of one message, one call of the handler each.\<close>

lemma serve_records:
  assumes "reads os d inc" "malloc_ok os" "json_ok json" "drop_bit 8 (ucast v :: u32) = 3" "es \<noteq> []"
    and "\<forall>b \<in> set es. sealable b \<and> record_type_out b = BR_SSL_APPLICATION_DATA \<and> version_out b = v \<and> oxa b - oxc b \<le> 16384
           \<and> oxa b - oxc b + 29 \<le> L"
    and "record_chain c es c'" "p @ concat (map payload_of es) = json_frame json"
    and "i < length (g_clients S)" "fd (g_clients S ! i) = d" "slot_ready (g_clients S ! i) p" "collects S f"
    and "rec_synced c (rin (eng (sc (g_clients S ! i))))" "ibuf_len (eng (sc (g_clients S ! i))) = L"
    and "version_in (eng (sc (g_clients S ! i))) = 0 \<or> version_in (eng (sc (g_clients S ! i))) = v"
    and "inc (world (sys S)) = concat (map record_of es)"
  shows "\<exists>T. serve os env inc i S = Some T \<and> app T = f json (app S) \<and> g_cfg T = g_cfg S
    \<and> length (g_clients T) = length (g_clients S) \<and> fd (g_clients T ! i) = d \<and> slot_ready (g_clients T ! i) []
    \<and> rec_synced c' (rin (eng (sc (g_clients T ! i)))) \<and> version_in (eng (sc (g_clients T ! i))) = v
    \<and> ibuf_len (eng (sc (g_clients T ! i))) = L \<and> inc (world (sys T)) = []"
  using assms(5-)
proof (induction es arbitrary: c p S)
  case (Cons b es)
  let ?r = "eng (sc (g_clients S ! i))"
  define q where "q = p @ payload_of b"
  have b: "sealable b" "version_out b = v" "can_transfer b ?r" "rout b = c" "record_chain (rout (sendpld_flush b False)) es c'"
    using Cons.prems(2,3,9-11) assms(4) by (auto simp: can_transfer_def)
  have j: "length json \<le> TLSV2_MAX_JSON_SIZE" using assms(3) by (simp add: json_ok_def)
  have qe: "q @ concat (map payload_of es) = json_frame json" using Cons.prems(4) by (simp add: q_def)
  have lq: "length q \<le> TLSV2_MAX_JSON_SIZE + 4" using arg_cong [OF qe, of length] j by simp
  have fq: "frames q = (if es = [] then ([json], []) else ([], q))" "\<not> bad_header (snd (frames q))"
  proof -
    have "frames q = ([json], []) \<and> \<not> bad_header []" if "es = []"
      using frames_cons [OF assms(3), of "[]"] qe that by (simp add: stuck_def bad_header_def)
    moreover have "frames q = ([], q) \<and> \<not> bad_header q" if "es \<noteq> []"
    proof -
      have "concat (map payload_of es) \<noteq> []" using that Cons.prems(2) payload_of_nonempty by (cases es) auto
      with partial_frame_stuck [OF assms(3) qe [symmetric]] show ?thesis by simp
    qed
    ultimately show "frames q = (if es = [] then ([json], []) else ([], q))" "\<not> bad_header (snd (frames q))" by (cases "es = []"; simp)+
  qed
  from handle_record [OF assms(1,2) Cons.prems(5-8) refl b(3) q_def lq fq(2), of "concat (map record_of es)" env] Cons.prems(12)
  obtain T where T: "tlsv2_handle_client os env S i = Some T" "app T = fold f (fst (frames q)) (app S)" "g_cfg T = g_cfg S"
      "length (g_clients T) = length (g_clients S)" "fd (g_clients T ! i) = d" "slot_ready (g_clients T ! i) (snd (frames q))"
      "rec_synced (rout (sendpld_flush b False)) (rin (eng (sc (g_clients T ! i))))"
      "version_in (eng (sc (g_clients T ! i))) = v" "ibuf_len (eng (sc (g_clients T ! i))) = L"
      "inc (world (sys T)) = concat (map record_of es)" using b(2) Cons.prems(10) by auto
  have "inc (world (sys S)) \<noteq> []" using Cons.prems(12) record_of_nonempty [OF b(1)] by simp
  then have st: "serve os env inc i S = serve os env inc i T" using T(1) by (subst serve.simps) simp
  show ?case
  proof (cases "es = []")
    case True
    then have "serve os env inc i T = Some T" using T(10) by (subst serve.simps) simp
    with st T fq True b(5) show ?thesis by auto
  next
    case False
    have "collects T f" using Cons.prems(8) T(3) by (simp add: collects_def)
    with Cons.IH [OF False _ b(5) qe _ T(5) _ _ T(7,9) _ T(10)] Cons.prems(2,5) T fq False st show ?thesis by auto
  qed
qed simp

section \<open>A conversation\<close>

text \<open>
  The client connection \<open>s\<close> of \<open>g\<close> and the slot \<open>i\<close> of the server \<open>S\<close> are the two ends of an established
  TLS connection with nothing under way.
\<close>

definition linked :: "('c, 'r, 'k, 'w) tls_clients \<Rightarrow> int \<Rightarrow> ('d, 'q, 'l, 'v, 'a) server \<Rightarrow> nat \<Rightarrow> bool" where
  "linked g s S i \<longleftrightarrow> (case tlsv2_lookup_client_conn g s of
     None \<Rightarrow> False
   | Some c \<Rightarrow>
       (let e = eng (csc c); r = eng (sc (g_clients S ! i))
        in steady e \<and> out_gather e \<and> oxc e = oxa e \<and> (oxa e, oxb e) = fresh_window e
           \<and> i < length (g_clients S) \<and> slot_ready (g_clients S ! i) [] \<and> rec_synced (rout e) (rin r)
           \<and> (version_in r = 0 \<or> version_in r = version_out e) \<and> drop_bit 8 (ucast (version_out e) :: u32) = 3))"

text \<open>
  A message that is not empty and not over the limit, and whose records (of the size of the client's window, or
  smaller for a short message) are legal and fit the server's input buffer.
\<close>

definition link_room :: "('c, 'r, 'k, 'w) tls_clients \<Rightarrow> int \<Rightarrow> ('d, 'q, 'l, 'v, 'a) server \<Rightarrow> nat \<Rightarrow> byte list \<Rightarrow> bool" where
  "link_room g s S i json \<longleftrightarrow> json_ok json \<and>
     (let w = fresh_window (eng (csc (the (tlsv2_lookup_client_conn g s)))); n = min (4 + length json) (snd w - fst w)
      in n \<le> 16384 \<and> n + 29 \<le> ibuf_len (eng (sc (g_clients S ! i))))"

text \<open>
  One exchange: the client sends, the network carries what it wrote to the server (\<open>net\<close> appends bytes
  to those waiting), and the server's handler runs as long as there is something to read.
\<close>

definition exchange ::
    "'w os \<Rightarrow> ('c, 'r) hsrun \<Rightarrow> ('w \<Rightarrow> byte list) \<Rightarrow> (byte list \<Rightarrow> 'v \<Rightarrow> 'v) \<Rightarrow> 'v os \<Rightarrow> ('d, 'q, 'l) tls_env \<Rightarrow> ('v \<Rightarrow> byte list) \<Rightarrow> int \<Rightarrow> nat
     \<Rightarrow> ('c, 'r, 'k, 'w) tls_clients \<times> ('d, 'q, 'l, 'v, 'a) server \<Rightarrow> byte list
     \<Rightarrow> (('c, 'r, 'k, 'w) tls_clients \<times> ('d, 'q, 'l, 'v, 'a) server \<times> int) option" where
  "exchange os hs sent net os' env inc s i = (\<lambda>(g, S) json.
     Option.bind (tlsv2_client_send_json os hs g s json) (\<lambda>(g', r).
     Option.bind (serve os' env inc i
       (S\<lparr>sys := (sys S)\<lparr>world := net (drop (length (sent (world (csys g)))) (sent (world (csys g')))) (world (sys S))\<rparr>\<rparr>)) (\<lambda>S'.
     Some (g', S', r))))"

lemma exchange_step:
  fixes g :: "('c, 'r, 'k, 'w) tls_clients"
  assumes "write_sends os s sent" "reads os' d inc" "\<And>bs w. inc (net bs w) = inc w @ bs" "malloc_ok os'"
    and "linked g s S i" "link_room g s S i json" "fd (g_clients S ! i) = d" "collects S f" "inc (world (sys S)) = []"
  shows "\<exists>g' S'. exchange os hs sent net os' env inc s i (g, S) json = Some (g', S', 0) \<and> app S' = f json (app S)
    \<and> linked g' s S' i \<and> (\<forall>m. link_room g' s S' i m = link_room g s S i m) \<and> fd (g_clients S' ! i) = d \<and> collects S' f
    \<and> inc (world (sys S')) = []"
proof -
  obtain c where c: "tlsv2_lookup_client_conn g s = Some c" using assms(5) by (auto simp: linked_def split: option.splits)
  define e where "e = eng (csc c)"
  define r where "r = eng (sc (g_clients S ! i))"
  have k: "steady e" "out_gather e" "oxc e = oxa e" "fresh_window e = (oxa e, oxb e)" "i < length (g_clients S)"
      "slot_ready (g_clients S ! i) []" "rec_synced (rout e) (rin r)" "version_in r = 0 \<or> version_in r = version_out e"
      "drop_bit 8 (ucast (version_out e) :: u32) = 3"
    using assms(5) by (auto simp: linked_def c e_def r_def Let_def)
  define n where "n = min (4 + length json) (oxb e - oxa e)"
  have m: "json_ok json" "n \<le> 16384" "n + 29 \<le> ibuf_len r" "length json \<le> TLSV2_MAX_JSON_SIZE"
    using assms(6) k(4) by (auto simp: link_room_def c e_def [symmetric] r_def json_ok_def n_def Let_def)
  have "window_le e (oxb e - oxa e)" using k(3,4) by (simp add: window_le_def)
  from client_send_json_records [OF assms(1) c e_def k(1-3) this m(4), of hs] obtain e' y' and es :: "('c, 'r) engine list" where
    w: "tlsv2_client_send_json os hs g s json = Some (put_conn g c e' y', 0)"
      "sent (world y') = sent (world (csys g)) @ concat (map record_of es)" "concat (map payload_of es) = json_frame json"
      "record_chain (rout e) es (rout e')"
      "\<forall>b \<in> set es. sealable b \<and> record_type_out b = BR_SSL_APPLICATION_DATA \<and> version_out b = version_out e \<and> oxa b - oxc b \<le> oxb e - oxa e"
      "steady e'" "out_gather e'" "oxc e' = oxa e'" "version_out e' = version_out e" "(oxa e', oxb e') = fresh_window e"
      "fresh_window e' = fresh_window e" by blast
  have ne: "es \<noteq> []" using w(3) by (auto simp: json_frame_def htonl_bytes_def)
  have "oxa b - oxc b \<le> n" if "b \<in> set es" for b
  proof -
    have "length (payload_of b) \<le> length (concat (map payload_of es))"
      using that by (induction es) auto
    then show ?thesis using w(3,5) that by (simp add: n_def payload_of_def)
  qed
  then have bs: "\<forall>b \<in> set es. sealable b \<and> record_type_out b = BR_SSL_APPLICATION_DATA \<and> version_out b = version_out e \<and> oxa b - oxc b \<le> 16384
      \<and> oxa b - oxc b + 29 \<le> ibuf_len r" using w(5) m(2,3) by fastforce
  define S1 where "S1 = S\<lparr>sys := (sys S)\<lparr>world := net (concat (map record_of es)) (world (sys S))\<rparr>\<rparr>"
  have s1: "g_clients S1 = g_clients S" "app S1 = app S" "g_cfg S1 = g_cfg S" "collects S1 f" "inc (world (sys S1)) = concat (map record_of es)"
    using assms(3,8,9) by (simp_all add: S1_def collects_def)
  have "[] @ concat (map payload_of es) = json_frame json" using w(3) by simp
  from serve_records [OF assms(2,4) m(1) k(9) ne bs w(4) this, of i S1 f env] s1 assms(7) k(5-8)
  obtain T where T: "serve os' env inc i S1 = Some T" "app T = f json (app S)" "g_cfg T = g_cfg S"
      "length (g_clients T) = length (g_clients S)" "fd (g_clients T ! i) = d" "slot_ready (g_clients T ! i) []"
      "rec_synced (rout e') (rin (eng (sc (g_clients T ! i))))"
      "version_in (eng (sc (g_clients T ! i))) = version_out e" "ibuf_len (eng (sc (g_clients T ! i))) = ibuf_len r"
      "inc (world (sys T)) = []"
    by (auto simp: r_def)
  define g' where "g' = put_conn g c e' y'"
  have g': "tlsv2_lookup_client_conn g' s = Some (c\<lparr>csc := (csc c)\<lparr>eng := e'\<rparr>\<rparr>)" "csys g' = y'"
    using lookup_put_conn [OF c] by (simp_all add: g'_def) (simp add: put_conn_def)
  have x: "exchange os hs sent net os' env inc s i (g, S) json = Some (g', T, 0)"
    using w(1,2) T(1) g'(2) by (simp add: exchange_def g'_def [symmetric] S1_def)
  have lk: "linked g' s T i"
    using w(6-11) T k(4,5,9) by (simp add: linked_def g'(1) Let_def)
  have "link_room g' s T i m = link_room g s S i m" for m
    using w(11) T(9) by (simp add: link_room_def g'(1) c e_def [symmetric] r_def)
  with x lk T assms(8) show ?thesis by (auto simp: collects_def)
qed

fun conversation ::
    "'w os \<Rightarrow> ('c, 'r) hsrun \<Rightarrow> ('w \<Rightarrow> byte list) \<Rightarrow> (byte list \<Rightarrow> 'v \<Rightarrow> 'v) \<Rightarrow> 'v os \<Rightarrow> ('d, 'q, 'l) tls_env \<Rightarrow> ('v \<Rightarrow> byte list) \<Rightarrow> int \<Rightarrow> nat
     \<Rightarrow> ('c, 'r, 'k, 'w) tls_clients \<times> ('d, 'q, 'l, 'v, 'a) server \<Rightarrow> byte list list
     \<Rightarrow> (('c, 'r, 'k, 'w) tls_clients \<times> ('d, 'q, 'l, 'v, 'a) server \<times> int list) option" where
  "conversation os hs sent net os' env inc s i (g, S) [] = Some (g, S, [])"
| "conversation os hs sent net os' env inc s i (g, S) (m # ms) =
     Option.bind (exchange os hs sent net os' env inc s i (g, S) m) (\<lambda>(g, S, r).
     Option.bind (conversation os hs sent net os' env inc s i (g, S) ms) (\<lambda>(g, S, rs). Some (g, S, r # rs)))"

text \<open>
  C4. End to end over the v3 wrappers: once the handshake has left the two engines in step with nothing under
  way, and with an application that only takes the messages, every message of 1 to 65536 bytes that the client sends
  with \<open>tlsv2_client_send_json\<close>, in as many records as it needs, is accepted with 0; and when the network has carried the
  bytes to the server, in whatever pieces, and \<open>tlsv2_handle_client\<close> has run for as long as bytes were waiting, before the
  next message is sent, the server has read the records, decrypted them, checked their tags, taken the message out of its
  frame and given it to the application: the application sees exactly the messages sent, in order, and the connection is
  ready for more. The records have to fit the input buffer of the server's engine.
\<close>

theorem v3_conversation:
  assumes "write_sends os s sent" "reads os' d inc" "\<And>bs w. inc (net bs w) = inc w @ bs" "malloc_ok os'"
    and "linked g s S i" "\<forall>m \<in> set ms. link_room g s S i m" "fd (g_clients S ! i) = d" "collects S f" "inc (world (sys S)) = []"
  shows "\<exists>g' S'. conversation os hs sent net os' env inc s i (g, S) ms = Some (g', S', replicate (length ms) 0)
    \<and> app S' = fold f ms (app S) \<and> linked g' s S' i"
  using assms(5-9)
proof (induction ms arbitrary: g S)
  case (Cons m ms)
  then obtain g' S' where x: "exchange os hs sent net os' env inc s i (g, S) m = Some (g', S', 0)" "app S' = f m (app S)"
      "linked g' s S' i" "\<forall>m. link_room g' s S' i m = link_room g s S i m" "fd (g_clients S' ! i) = d" "collects S' f"
      "inc (world (sys S')) = []"
    using exchange_step [OF assms(1-4) Cons.prems(1) _ Cons.prems(3-5), of m hs env] by auto
  from Cons.IH [OF x(3) _ x(5-7)] x(4) Cons.prems(2) obtain g'' S'' where
    "conversation os hs sent net os' env inc s i (g', S') ms = Some (g'', S'', replicate (length ms) 0)"
    "app S'' = fold f ms (app S')" "linked g'' s S'' i" by auto
  with x(1,2) show ?case by simp
qed simp

section \<open>An example\<close>

text \<open>Both ends use the same engine state; the server reads at most three bytes at a time.\<close>

definition link_engine :: "(unit, unit) engine" where
  "link_engine = make_ready_out (fresh_engine\<lparr>rin := In_gcm zero_gcm, rout := Out_gcm zero_gcm, incrypt := True,
     application_data := 1, record_type_out := BR_SSL_APPLICATION_DATA, version_out := 0x303\<rparr>)"

definition pipe_os :: "byte list os" where
  "pipe_os = tape_os\<lparr>sys_read := (\<lambda>_ n w. if w = [] then (w, Fail EAGAIN) else (drop (min n 3) w, Done (take (min n 3) w)))\<rparr>"

definition pipe_server :: "(unit, unit, unit, byte list, byte list list) server" where
  "pipe_server = \<lparr>g_clients = g_clients (demo_server link_engine), g_cfg = g_cfg (demo_server link_engine), g_listen_fd = 3,
     g_certs = [], g_skey = (), app = [], sys = \<lparr>world = [], errno = 0\<rparr>\<rparr>"

lemma pipe_reads: "reads pipe_os d (\<lambda>w. w)"
  unfolding reads_def
proof (intro allI impI)
  fix n and w :: "byte list"
  assume "0 < (n :: nat)"
  then show "if w = [] then \<exists>w'. sys_read pipe_os d n w = (w', Fail EAGAIN) \<and> w' = []
      else \<exists>w' k. sys_read pipe_os d n w = (w', Done (take k w)) \<and> 0 < k \<and> k \<le> n \<and> k \<le> length w \<and> w' = drop k w"
    by (auto simp: pipe_os_def min_def intro!: exI [of _ "min (min n 3) (length w)"])
qed

lemma link_engine_window: "fresh_window link_engine = (oxa link_engine, oxb link_engine)"
    "oxa link_engine = 13" "oxc link_engine = 13" "oxb link_engine = 4109" "ibuf_len link_engine = 16384"
  by (simp_all add: link_engine_def fresh_window_def make_ready_out_def fresh_engine_eq br_ssl_zero_def Let_def
      gcm_max_plaintext_def sz_simps)

lemma link_engine_ok: "steady link_engine" "out_gather link_engine" "listening link_engine"
    "rec_synced (rout link_engine) (rin link_engine)" "version_out link_engine = 0x303" "version_in link_engine = 0"
  using zero_gcm_synced
  by (simp_all add: link_engine_def make_ready_out_def fresh_engine_eq br_ssl_zero_def Let_def listening_def
      gcm_max_plaintext_def sz_simps steady_def io_inv_def engine_ok_def buf_ok_def in_defs out_defs overhead_defs)

text \<open>The first message takes two records.\<close>

theorem v3_conversation_witness:
  "\<forall>env. \<exists>g' S'. conversation tape_os hs_discard (\<lambda>w. w) (\<lambda>bs w. w @ bs) pipe_os env (\<lambda>w. w) 5 0 (demo_clients link_engine, pipe_server)
      [replicate 5000 48, [48]] = Some (g', S', [0, 0]) \<and> app S' = [replicate 5000 48, [48]]"
proof
  fix env
  let ?m = "replicate 5000 48 :: byte list"
  have c: "tlsv2_lookup_client_conn (demo_clients link_engine) 5
      = Some \<lparr>sock = 5, csc = (br_ssl_context_zero () () (\<lambda>_. 0))\<lparr>eng := link_engine\<rparr>\<rparr>"
    by (simp add: tlsv2_lookup_client_conn_def demo_clients_def)
  have l: "linked (demo_clients link_engine) 5 pipe_server 0"
    using demo_inb [of link_engine] link_engine_ok link_engine_window
    by (simp add: linked_def c Let_def pipe_server_def slot_ready_def drop_bit_eq_div) (simp add: demo_server_def)
  have m: "\<forall>m \<in> set [?m, [48]]. link_room (demo_clients link_engine) 5 pipe_server 0 m"
    by (simp add: link_room_def c link_engine_window json_ok_def TLSV2_MAX_JSON_SIZE_def pipe_server_def demo_server_def)
  have "malloc_ok pipe_os" by (simp add: malloc_ok_def pipe_os_def tape_os_def)
  from v3_conversation [OF tape_sends pipe_reads _ this l m, of "\<lambda>bs w. w @ bs" 5 "\<lambda>json ms. ms @ [json]" hs_discard env]
  show "\<exists>g' S'. conversation tape_os hs_discard (\<lambda>w. w) (\<lambda>bs w. w @ bs) pipe_os env (\<lambda>w. w) 5 0 (demo_clients link_engine, pipe_server)
      [?m, [48]] = Some (g', S', [0, 0]) \<and> app S' = [?m, [48]]"
    by (auto simp: pipe_server_def demo_server_def collects_def numeral_2_eq_2)
qed

end
