(* ===== verification/Chacha20.thy ===== *)
theory Chacha20
  imports Record_Layer
begin

text \<open>
  ChaCha20 as \<^verbatim>\<open>symcipher/chacha20_ct.c\<close> computes it, and the block function of RFC 8439 as a
  reference. The state is the array of 16 words; the data is processed in place, which here is a
  function from the old bytes to the new ones. The lemmas show that the code adds the key stream of
  the RFC, block after block with a counter that wraps around at \<open>2 ^ 32\<close>, to the data.
\<close>

unbundle bit_operations_syntax

section \<open>The code\<close>

definition chacha_CW :: "u32 list" where
  "chacha_CW = [0x61707865, 0x3320646e, 0x79622d32, 0x6b206574]"

text \<open>The word at byte offset \<open>k\<close> of an array.\<close>

definition dec32le_at :: "byte list \<Rightarrow> nat \<Rightarrow> u32" where
  "dec32le_at bs k = br_dec32le (\<lambda>a. bs ! a) k"

definition QROUND :: "nat \<Rightarrow> nat \<Rightarrow> nat \<Rightarrow> nat \<Rightarrow> u32 list \<Rightarrow> u32 list" where
  "QROUND a b c d s =
     (let s = s[a := s ! a + s ! b];
          s = s[d := s ! d XOR s ! a];
          s = s[d := push_bit 16 (s ! d) OR drop_bit 16 (s ! d)];
          s = s[c := s ! c + s ! d];
          s = s[b := s ! b XOR s ! c];
          s = s[b := push_bit 12 (s ! b) OR drop_bit 20 (s ! b)];
          s = s[a := s ! a + s ! b];
          s = s[d := s ! d XOR s ! a];
          s = s[d := push_bit 8 (s ! d) OR drop_bit 24 (s ! d)];
          s = s[c := s ! c + s ! d];
          s = s[b := s ! b XOR s ! c]
      in s[b := push_bit 7 (s ! b) OR drop_bit 25 (s ! b)])"

definition chacha_round :: "u32 list \<Rightarrow> u32 list" where
  "chacha_round s =
     (let s = QROUND 0 4 8 12 s;
          s = QROUND 1 5 9 13 s;
          s = QROUND 2 6 10 14 s;
          s = QROUND 3 7 11 15 s;
          s = QROUND 0 5 10 15 s;
          s = QROUND 1 6 11 12 s;
          s = QROUND 2 7 8 13 s
      in QROUND 3 4 9 14 s)"

text \<open>The 64 bytes \<open>tmp\<close> of one turn of the loop.\<close>

definition chacha_tmp :: "u32 list \<Rightarrow> u32 list \<Rightarrow> u32 \<Rightarrow> byte list" where
  "chacha_tmp kw ivw cc =
     (let s = (chacha_round ^^ 10) (chacha_CW @ kw @ [cc] @ ivw)
      in concat (map (\<lambda>u. br_enc32le (s ! u + chacha_CW ! u)) [0..<4])
         @ concat (map (\<lambda>u. br_enc32le (s ! u + kw ! (u - 4))) [4..<12])
         @ br_enc32le (s ! 12 + cc)
         @ concat (map (\<lambda>u. br_enc32le (s ! u + ivw ! (u - 13))) [13..<16]))"

function chacha_loop :: "u32 list \<Rightarrow> u32 list \<Rightarrow> u32 \<Rightarrow> byte list \<Rightarrow> byte list \<times> u32" where
  "chacha_loop kw ivw cc buf =
     (if buf = [] then ([], cc)
      else let clen = (if length buf < 64 then length buf else 64);
               out = xor_bytes (take clen buf) (take clen (chacha_tmp kw ivw cc));
               (rest, cc') = chacha_loop kw ivw (cc + 1) (drop clen buf)
           in (out @ rest, cc'))"
  by pat_completeness auto
termination
  by (relation "measure (\<lambda>(_, _, _, buf). length buf)") auto

declare chacha_loop.simps [simp del]

definition br_chacha20_ct_run :: chacha20_run where
  "br_chacha20_ct_run key iv cc data =
     chacha_loop (map (\<lambda>u. dec32le_at key (4 * u)) [0..<8]) (map (\<lambda>u. dec32le_at iv (4 * u)) [0..<3]) cc data"

section \<open>RFC 8439\<close>

text \<open>Sections 2.1 to 2.3: the quarter round on four words, the block function, the key stream.\<close>

definition quarter_round :: "u32 \<times> u32 \<times> u32 \<times> u32 \<Rightarrow> u32 \<times> u32 \<times> u32 \<times> u32" where
  "quarter_round = (\<lambda>(a, b, c, d).
     let a = a + b; d = word_rotl 16 (d XOR a);
         c = c + d; b = word_rotl 12 (b XOR c);
         a = a + b; d = word_rotl 8 (d XOR a);
         c = c + d; b = word_rotl 7 (b XOR c)
     in (a, b, c, d))"

definition on_words :: "nat \<Rightarrow> nat \<Rightarrow> nat \<Rightarrow> nat \<Rightarrow> (nat \<Rightarrow> u32) \<Rightarrow> nat \<Rightarrow> u32" where
  "on_words a b c d s =
     (case quarter_round (s a, s b, s c, s d) of (a', b', c', d') \<Rightarrow> s(a := a', b := b', c := c', d := d'))"

definition column_round :: "(nat \<Rightarrow> u32) \<Rightarrow> nat \<Rightarrow> u32" where
  "column_round s = on_words 3 7 11 15 (on_words 2 6 10 14 (on_words 1 5 9 13 (on_words 0 4 8 12 s)))"

definition diagonal_round :: "(nat \<Rightarrow> u32) \<Rightarrow> nat \<Rightarrow> u32" where
  "diagonal_round s = on_words 3 4 9 14 (on_words 2 7 8 13 (on_words 1 6 11 12 (on_words 0 5 10 15 s)))"

definition rfc_state :: "byte list \<Rightarrow> byte list \<Rightarrow> u32 \<Rightarrow> nat \<Rightarrow> u32" where
  "rfc_state key iv n i =
     (if i < 4 then [0x61707865, 0x3320646e, 0x79622d32, 0x6b206574] ! i
      else if i < 12 then dec32le_at key (4 * (i - 4))
      else if i = 12 then n else dec32le_at iv (4 * (i - 13)))"

definition rfc_block :: "byte list \<Rightarrow> byte list \<Rightarrow> u32 \<Rightarrow> byte list" where
  "rfc_block key iv n =
     (let s = rfc_state key iv n; t = ((\<lambda>s. diagonal_round (column_round s)) ^^ 10) s
      in concat (map (\<lambda>i. br_enc32le (t i + s i)) [0..<16]))"

text \<open>Section 2.4: the key stream of the blocks \<open>n\<close>, \<open>n + 1\<close>, ...\<close>

fun rfc_stream :: "byte list \<Rightarrow> byte list \<Rightarrow> u32 \<Rightarrow> nat \<Rightarrow> byte list" where
  "rfc_stream key iv n 0 = []"
| "rfc_stream key iv n (Suc k) = rfc_block key iv n @ rfc_stream key iv (n + 1) k"

section \<open>The code computes the blocks of the RFC\<close>

lemma rotl_shifts:
  assumes "0 < n" "n < 32"
  shows "push_bit n (w :: u32) OR drop_bit (32 - n) w = word_rotl n w"
proof (rule bit_word_eqI)
  fix i
  assume "i < LENGTH(32)"
  then have i: "i < 32" by simp
  show "bit (push_bit n w OR drop_bit (32 - n) w) i = bit (word_rotl n w) i"
  proof (cases "n \<le> i")
    case True
    then have "(i + 32 - n) mod 32 = i - n" using i by (simp add: mod_if)
    moreover have "\<not> bit w (32 - n + i)" using True assms bit_imp_le_length [of w "32 - n + i"] by auto
    ultimately show ?thesis using i True assms by (auto simp: bit_simps bit_word_rotl_iff)
  next
    case False
    then have "(i + 32 - n) mod 32 = 32 - n + i" using assms by simp
    then show ?thesis using i False assms by (auto simp: bit_simps bit_word_rotl_iff)
  qed
qed

lemmas rotl_at = rotl_shifts [of 16, simplified] rotl_shifts [of 12, simplified] rotl_shifts [of 8, simplified]
  rotl_shifts [of 7, simplified]

text \<open>A state of the code and one of the reference.\<close>

definition same_state :: "u32 list \<Rightarrow> (nat \<Rightarrow> u32) \<Rightarrow> bool" where
  "same_state s f \<longleftrightarrow> length s = 16 \<and> (\<forall>i < 16. s ! i = f i)"

lemma same_nth: "same_state s f \<Longrightarrow> i < 16 \<Longrightarrow> s ! i = f i"
  by (simp add: same_state_def)

lemma same_upd: "same_state s f \<Longrightarrow> i < 16 \<Longrightarrow> v = w \<Longrightarrow> same_state (s[i := v]) (f(i := w))"
  by (auto simp: same_state_def nth_list_update)

lemma same_let:
  "same_state s f \<Longrightarrow> (\<And>s f. same_state s f \<Longrightarrow> same_state (g s) (h f)) \<Longrightarrow> same_state (let s = s in g s) (let f = f in h f)"
  by simp

lemma on_words_steps:
  assumes "distinct [a, b, c, d]"
  shows "on_words a b c d f =
     (let f = f(a := f a + f b);
          f = f(d := f d XOR f a);
          f = f(d := push_bit 16 (f d) OR drop_bit 16 (f d));
          f = f(c := f c + f d);
          f = f(b := f b XOR f c);
          f = f(b := push_bit 12 (f b) OR drop_bit 20 (f b));
          f = f(a := f a + f b);
          f = f(d := f d XOR f a);
          f = f(d := push_bit 8 (f d) OR drop_bit 24 (f d));
          f = f(c := f c + f d);
          f = f(b := f b XOR f c)
      in f(b := push_bit 7 (f b) OR drop_bit 25 (f b)))"
  using assms by (intro ext) (simp add: on_words_def quarter_round_def Let_def rotl_at)

lemma QROUND_same:
  assumes "same_state s f" "distinct [a, b, c, d]" "a < 16" "b < 16" "c < 16" "d < 16"
  shows "same_state (QROUND a b c d s) (on_words a b c d f)"
  unfolding QROUND_def on_words_steps [OF assms(2)]
  by (intro same_let same_upd assms) (simp_all add: same_nth assms same_nth [OF assms(1)])

lemma chacha_round_same:
  assumes "same_state s f"
  shows "same_state (chacha_round s) (diagonal_round (column_round f))"
  unfolding chacha_round_def diagonal_round_def column_round_def Let_def
  by (intro QROUND_same assms) simp_all

lemma chacha_rounds_same:
  "same_state s f \<Longrightarrow> same_state ((chacha_round ^^ k) s) (((\<lambda>s. diagonal_round (column_round s)) ^^ k) f)"
  by (induction k) (simp_all add: chacha_round_same)

lemma initial_same:
  "same_state (chacha_CW @ map (\<lambda>u. dec32le_at key (4 * u)) [0..<8] @ [n] @ map (\<lambda>u. dec32le_at iv (4 * u)) [0..<3])
     (rfc_state key iv n)"
proof -
  have cw: "length chacha_CW = 4" by (simp add: chacha_CW_def)
  have "(chacha_CW @ map (\<lambda>u. dec32le_at key (4 * u)) [0..<8] @ [n] @ map (\<lambda>u. dec32le_at iv (4 * u)) [0..<3]) ! i
      = rfc_state key iv n i" if "i < 16" for i
  proof (cases "i < 4")
    case True
    then show ?thesis by (simp add: nth_append cw rfc_state_def) (simp add: chacha_CW_def)
  next
    case False
    then show ?thesis using that by (auto simp: nth_append cw rfc_state_def nth_Cons')
  qed
  then show ?thesis by (simp add: same_state_def cw)
qed

lemma chacha_tmp_block:
  "chacha_tmp (map (\<lambda>u. dec32le_at key (4 * u)) [0..<8]) (map (\<lambda>u. dec32le_at iv (4 * u)) [0..<3]) n = rfc_block key iv n"
proof -
  let ?kw = "map (\<lambda>u. dec32le_at key (4 * u)) [0..<8]" and ?iw = "map (\<lambda>u. dec32le_at iv (4 * u)) [0..<3]"
  define s where "s = (chacha_round ^^ 10) (chacha_CW @ ?kw @ [n] @ ?iw)"
  define t where "t = ((\<lambda>s. diagonal_round (column_round s)) ^^ 10) (rfc_state key iv n)"
  have st: "s ! i = t i" if "i < 16" for i
    using chacha_rounds_same [OF initial_same, of 10 key n iv] that by (simp add: same_state_def s_def t_def)
  have u: "[0..<16] = [0..<4] @ [4..<12] @ [12] @ [13..<16]" by (simp add: upt_rec numeral_nat)
  have r: "chacha_CW ! i = rfc_state key iv n i" if "i < 4" for i using that by (simp add: rfc_state_def chacha_CW_def)
  have "chacha_tmp ?kw ?iw n = concat (map (\<lambda>i. br_enc32le (t i + rfc_state key iv n i)) ([0..<4] @ [4..<12] @ [12] @ [13..<16]))"
    unfolding chacha_tmp_def Let_def s_def [symmetric] map_append concat_append
    by (intro arg_cong2 [where f = "(@)"] arg_cong [where f = concat] map_cong refl)
      (auto simp: st r rfc_state_def)
  then show ?thesis by (simp only: rfc_block_def Let_def t_def u)
qed

lemma length_rfc_block [simp]: "length (rfc_block key iv n) = 64"
  by (simp add: rfc_block_def Let_def upt_rec numeral_nat)

lemma length_rfc_stream [simp]: "length (rfc_stream key iv n k) = 64 * k"
  by (induction k arbitrary: n) simp_all

lemma xor_bytes_append:
  "length xs = length us \<Longrightarrow> xor_bytes (xs @ ys) (us @ vs) = xor_bytes xs us @ xor_bytes ys vs"
  by (simp add: xor_bytes_def)

lemma chacha_loop_stream:
  "chacha_loop (map (\<lambda>u. dec32le_at key (4 * u)) [0..<8]) (map (\<lambda>u. dec32le_at iv (4 * u)) [0..<3]) cc buf
     = (let k = (length buf + 63) div 64 in (xor_bytes buf (take (length buf) (rfc_stream key iv cc k)), cc + of_nat k))"
proof (induction "length buf" arbitrary: buf cc rule: less_induct)
  case less
  let ?k = "(length buf + 63) div 64"
  show ?case
  proof (cases "buf = []")
    case True
    then show ?thesis by (subst chacha_loop.simps) (simp add: xor_bytes_def)
  next
    case False
    define c where "c = (if length buf < 64 then length buf else 64)"
    have c: "0 < c" "c \<le> length buf" "c \<le> 64" "length (drop c buf) < length buf" using False by (auto simp: c_def)
    have k: "?k = Suc ((length (drop c buf) + 63) div 64)"
    proof (cases "length buf < 64")
      case True
      moreover have "0 < length buf" using False by simp
      ultimately have "?k = 1" by (intro div_nat_eqI) (simp_all add: Suc_le_eq)
      with True show ?thesis by (simp add: c_def)
    next
      case False
      then have "length buf + 63 = (length (drop c buf) + 63) + 64" by (simp add: c_def)
      then show ?thesis by simp
    qed
    let ?k' = "(length (drop c buf) + 63) div 64"
    have "xor_bytes (take c buf) (take c (rfc_block key iv cc)) @
          xor_bytes (drop c buf) (take (length (drop c buf)) (rfc_stream key iv (cc + 1) ?k'))
        = xor_bytes buf (take (length buf) (rfc_stream key iv cc ?k))"
    proof -
      have "take (length buf) (rfc_stream key iv cc ?k)
          = take c (rfc_block key iv cc) @ take (length (drop c buf)) (rfc_stream key iv (cc + 1) ?k')"
        by (cases "length buf < 64") (simp_all add: k c_def)
      then show ?thesis
        using xor_bytes_append [of "take c buf" "take c (rfc_block key iv cc)" "drop c buf"] c by simp
    qed
    moreover have "cc + 1 + of_nat ?k' = cc + of_nat ?k" by (simp add: k)
    ultimately show ?thesis
      using less [OF c(4), of "cc + 1"] False
      by (subst chacha_loop.simps) (simp add: c_def [symmetric] chacha_tmp_block Let_def del: of_nat_Suc)
  qed
qed

text \<open>
  ChaCha20: \<open>br_chacha20_ct_run\<close> replaces the data by its exclusive or with the RFC 8439 key stream
  that starts at block \<open>cc\<close>, and returns the counter advanced by the number of blocks used, all
  modulo \<open>2 ^ 32\<close>; for every key, nonce, counter and length.
\<close>

theorem chacha20_is_rfc8439:
  "br_chacha20_ct_run key iv cc data
     = (let k = (length data + 63) div 64
        in (xor_bytes data (take (length data) (rfc_stream key iv cc k)), cc + of_nat k))"
  unfolding br_chacha20_ct_run_def by (rule chacha_loop_stream)

end
