(* ===== verification/Ct_Prims.thy ===== *)
theory Ct_Prims
  imports Codec
begin

text \<open>
  The constant-time comparisons of \<^verbatim>\<open>bearssl/src/inner.h\<close>, which work on the high bit of 32-bit
  values. A signed operand is the word with the same bits, read with \<open>sint\<close>. The theorem says that
  each of them is the comparison it is named after, for all operands.
\<close>

unbundle bit_operations_syntax

section \<open>Definitions\<close>

definition CT_NOT :: "u32 \<Rightarrow> u32" where "CT_NOT ctl = ctl XOR 1"

definition EQ :: "u32 \<Rightarrow> u32 \<Rightarrow> u32" where
  "EQ x y = (let q = x XOR y in CT_NOT (drop_bit 31 (q OR - q)))"

definition NEQ :: "u32 \<Rightarrow> u32 \<Rightarrow> u32" where
  "NEQ x y = (let q = x XOR y in drop_bit 31 (q OR - q))"

definition GT :: "u32 \<Rightarrow> u32 \<Rightarrow> u32" where
  "GT x y = (let z = y - x in drop_bit 31 (z XOR ((x XOR y) AND (x XOR z))))"

definition GE :: "u32 \<Rightarrow> u32 \<Rightarrow> u32" where "GE x y = CT_NOT (GT y x)"
definition LT :: "u32 \<Rightarrow> u32 \<Rightarrow> u32" where "LT x y = GT y x"
definition LE :: "u32 \<Rightarrow> u32 \<Rightarrow> u32" where "LE x y = CT_NOT (GT x y)"

definition CMP :: "u32 \<Rightarrow> u32 \<Rightarrow> u32" where "CMP x y = GT x y OR - GT y x"

definition EQ0 :: "u32 \<Rightarrow> u32" where "EQ0 q = drop_bit 31 (NOT (q OR - q))"
definition GT0 :: "u32 \<Rightarrow> u32" where "GT0 q = drop_bit 31 (NOT q AND - q)"
definition GE0 :: "u32 \<Rightarrow> u32" where "GE0 q = drop_bit 31 (NOT q)"
definition LT0 :: "u32 \<Rightarrow> u32" where "LT0 q = drop_bit 31 q"
definition LE0 :: "u32 \<Rightarrow> u32" where "LE0 q = drop_bit 31 (q OR NOT (- q))"

definition CT_MIN :: "u32 \<Rightarrow> u32 \<Rightarrow> u32" where "CT_MIN x y = MUX (GT x y) y x"
definition CT_MAX :: "u32 \<Rightarrow> u32 \<Rightarrow> u32" where "CT_MAX x y = MUX (GT x y) x y"

section \<open>Sums and masks of words\<close>

lemma unat_add32: "unat x + unat y < 2 ^ 32 \<Longrightarrow> unat (x + y :: u32) = unat x + unat y"
  by (simp add: unat_word_ariths)

lemma unat_add64: "unat x + unat y < 2 ^ 64 \<Longrightarrow> unat (x + y :: u64) = unat x + unat y"
  by (simp add: unat_word_ariths)

lemma and_low:
  fixes x :: "'a :: len word"
  assumes "k < LENGTH('a)"
  shows "unat (x AND (2 ^ k - 1)) = unat x mod 2 ^ k" "unat (x AND NOT (2 ^ k - 1)) = unat x div 2 ^ k * 2 ^ k"
proof -
  have m: "x AND (2 ^ k - 1) = take_bit k x" by (simp add: take_bit_eq_mask mask_eq_decr_exp)
  show "unat (x AND (2 ^ k - 1)) = unat x mod 2 ^ k" unfolding m by (subst unsigned_take_bit_eq) (rule take_bit_eq_mod)
  have "x AND NOT (2 ^ k - 1) = push_bit k (drop_bit k x)"
    unfolding mask_eq_decr_exp [symmetric] using assms by (intro bit_word_eqI) (auto simp: bit_simps)
  moreover have "unat (drop_bit k x) = unat x div 2 ^ k" by (subst unat_drop_bit_eq) (rule drop_bit_eq_div)
  moreover have "unat x div 2 ^ k * 2 ^ k < 2 ^ LENGTH('a)"
    using div_times_less_eq_dividend [of "unat x" "2 ^ k"] unsigned_less [of x, where ?'a = nat] by (rule le_less_trans)
  ultimately show "unat (x AND NOT (2 ^ k - 1)) = unat x div 2 ^ k * 2 ^ k"
    by (simp only: unsigned_push_bit_eq) (simp add: push_bit_eq_mult take_bit_nat_eq_self)
qed

section \<open>The high bit\<close>

lemma high_bit: "drop_bit 31 (w :: u32) = of_bool (bit w 31)"
proof (rule bit_word_eqI)
  fix n
  assume "n < LENGTH(32)"
  then show "bit (drop_bit 31 w) n = bit (of_bool (bit w 31) :: u32) n"
    using bit_imp_le_length [of w "31 + n"] by (cases n) (auto simp: bit_simps bit_1_iff)
qed

lemma unat_u32: "unat (w :: u32) < 2 ^ 32"
  using unsigned_less [of w, where ?'a = nat] by simp

lemma bit_31_iff: "bit (w :: u32) 31 \<longleftrightarrow> 2 ^ 31 \<le> unat w"
proof -
  have "bit w 31 \<longleftrightarrow> bit (unat w) 31" by (simp add: bit_unsigned_iff)
  also have "\<dots> \<longleftrightarrow> odd (unat w div 2 ^ 31)" by (simp add: bit_iff_odd)
  also have "\<dots> \<longleftrightarrow> 2 ^ 31 \<le> unat w"
  proof (cases "2 ^ 31 \<le> unat w")
    case True
    then have "unat w div 2 ^ 31 = 1" using unat_u32 [of w] by (intro div_nat_eqI) simp_all
    with True show ?thesis by simp
  qed simp
  finally show ?thesis .
qed

lemma unat_diff: "unat (y - x :: u32) = (if unat x \<le> unat y then unat y - unat x else unat y + 2 ^ 32 - unat x)"
  using unat_u32 [of x] unat_u32 [of y] by (auto simp: unat_sub_if' word_le_nat_alt)

lemma unat_neg: "unat (- w :: u32) = (if w = 0 then 0 else 2 ^ 32 - unat w)"
  using unat_diff [of 0 w] by (auto simp: unat_eq_zero)

lemma GT_iff [simp]: "GT x y = of_bool (y < x)"
proof -
  have "bit ((y - x) XOR ((x XOR y) AND (x XOR (y - x)))) 31 \<longleftrightarrow> y < x"
    unfolding bit_xor_iff bit_and_iff unfolding bit_31_iff word_less_nat_alt unat_diff
    using unat_u32 [of x] unat_u32 [of y] by auto
  then show ?thesis by (simp only: GT_def high_bit Let_def)
qed

lemma neg_or_high: "bit (q OR - q :: u32) 31 \<longleftrightarrow> q \<noteq> 0"
  unfolding bit_or_iff unfolding bit_31_iff unat_neg using unat_u32 [of q] by auto

lemma xor_eq_0: "x XOR y = 0 \<longleftrightarrow> x = (y :: u32)"
  by (metis xor.right_neutral xor_self_eq xor.assoc)

lemma CT_NOT_of_bool [simp]: "CT_NOT (of_bool b) = of_bool (\<not> b)"
  by (cases b) (simp_all add: CT_NOT_def)

lemma NEQ_iff [simp]: "NEQ x y = of_bool (x \<noteq> y)"
  unfolding NEQ_def Let_def high_bit neg_or_high xor_eq_0 ..

lemma EQ_iff [simp]: "EQ x y = of_bool (x = y)"
proof -
  have "EQ x y = CT_NOT (of_bool (x \<noteq> y))" unfolding EQ_def Let_def high_bit neg_or_high xor_eq_0 ..
  then show ?thesis by (simp only: CT_NOT_of_bool not_not)
qed

lemma MUX_of_bool [simp]: "MUX (of_bool b) x y = (if b then x else y)"
  by (cases b) simp_all

lemma sint_neg_iff: "sint (w :: u32) < 0 \<longleftrightarrow> bit w 31"
  by (simp add: sint_uint signed_take_bit_negative_iff bit_uint_iff)

lemma sint_zero_iff: "sint (w :: u32) = 0 \<longleftrightarrow> w = 0"
  by (auto intro: signed_word_eqI)

lemma sint_pos_iff: "0 < sint (w :: u32) \<longleftrightarrow> w \<noteq> 0 \<and> \<not> bit w 31"
  using sint_neg_iff [of w] sint_zero_iff [of w] by linarith

text \<open>
  C33. The constant-time primitives are the comparisons: for all 32-bit operands each of \<open>EQ\<close>, \<open>NEQ\<close>,
  \<open>GT\<close>, \<open>GE\<close>, \<open>LT\<close>, \<open>LE\<close> is 1 or 0 as the unsigned comparison holds or not, \<open>CMP\<close> is -1, 0 or 1, the
  primitives on one operand compare its signed value with 0, \<open>MIN\<close> and \<open>MAX\<close> are the minimum and
  the maximum, and \<open>MUX\<close> selects.
\<close>

theorem ct_primitives:
  "EQ x y = of_bool (x = y) \<and> NEQ x y = of_bool (x \<noteq> y) \<and> GT x y = of_bool (y < x) \<and> GE x y = of_bool (y \<le> x)
   \<and> LT x y = of_bool (x < y) \<and> LE x y = of_bool (x \<le> y) \<and> CMP x y = (if x < y then -1 else if x = y then 0 else 1)
   \<and> EQ0 x = of_bool (sint x = 0) \<and> GT0 x = of_bool (0 < sint x) \<and> GE0 x = of_bool (0 \<le> sint x)
   \<and> LT0 x = of_bool (sint x < 0) \<and> LE0 x = of_bool (sint x \<le> 0)
   \<and> CT_MIN x y = min x y \<and> CT_MAX x y = max x y \<and> MUX (of_bool b) x y = (if b then x else y)"
proof -
  have g: "GE x y = of_bool (y \<le> x)" "LT x y = of_bool (x < y)" "LE x y = of_bool (x \<le> y)"
    by (simp_all add: GE_def LT_def LE_def not_less)
  have c: "CMP x y = (if x < y then -1 else if x = y then 0 else 1)"
    by (auto simp: CMP_def)
  have h: "bit (- x) 31 \<longleftrightarrow> x \<noteq> 0 \<and> (\<not> bit x 31 \<or> unat x = 2 ^ 31)"
    using unat_u32 [of x] by (auto simp: bit_31_iff unat_neg)
  have n: "bit (NOT w) 31 \<longleftrightarrow> \<not> bit w 31" for w :: u32 by (simp add: bit_not_iff)
  have z: "EQ0 x = of_bool (sint x = 0)"
    unfolding EQ0_def high_bit n neg_or_high by (simp add: sint_zero_iff)
  have p: "GT0 x = of_bool (0 < sint x)"
    unfolding GT0_def high_bit bit_and_iff n h sint_pos_iff by (auto simp: bit_31_iff)
  have l: "LT0 x = of_bool (sint x < 0)" "GE0 x = of_bool (0 \<le> sint x)"
    unfolding LT0_def GE0_def high_bit n using sint_neg_iff [of x] by auto
  have "LE0 x = of_bool (\<not> 0 < sint x)"
    unfolding LE0_def high_bit bit_or_iff n h sint_pos_iff by (auto simp: bit_31_iff)
  with g c z p l show ?thesis by (simp add: CT_MIN_def CT_MAX_def min_def max_def not_less) auto
qed

end
