(* ===== verification/Poly1305.thy ===== *)
theory Poly1305
  imports Chacha20 Ct_Prims
begin

text \<open>
  Poly1305 with 26-bit limbs, as \<^verbatim>\<open>symcipher/poly1305_ctmul.c\<close> computes it, and the ChaCha20+Poly1305
  construction of that file; RFC 8439 sections 2.5 and 2.8 as the reference. An array of limbs is a
  list of five words. The lemmas bound every intermediate value, so that no 32- or 64-bit
  operation overflows, and relate the limbs to the number they stand for, modulo \<open>2 ^ 130 - 5\<close>. The
  final carry propagation is correct except for one carry that the code adds with the wrong weight.
\<close>

unbundle bit_operations_syntax

section \<open>The code\<close>

definition mul64 :: "u32 \<Rightarrow> u32 \<Rightarrow> u64" where "mul64 x y = ucast x * ucast y"

text \<open>The second half of a turn of the loop of \<open>poly1305_inner\<close>: multiplication and carries.\<close>

definition poly1305_mult :: "u32 list \<Rightarrow> u32 list \<Rightarrow> u32 list" where
  "poly1305_mult a r =
     (let a0 = a ! 0; a1 = a ! 1; a2 = a ! 2; a3 = a ! 3; a4 = a ! 4;
          r0 = r ! 0; r1 = r ! 1; r2 = r ! 2; r3 = r ! 3; r4 = r ! 4;
          u1 = r1 * 5; u2 = r2 * 5; u3 = r3 * 5; u4 = r4 * 5;
          w0 = mul64 a0 r0 + mul64 a1 u4 + mul64 a2 u3 + mul64 a3 u2 + mul64 a4 u1;
          w1 = mul64 a0 r1 + mul64 a1 r0 + mul64 a2 u4 + mul64 a3 u3 + mul64 a4 u2;
          w2 = mul64 a0 r2 + mul64 a1 r1 + mul64 a2 r0 + mul64 a3 u4 + mul64 a4 u3;
          w3 = mul64 a0 r3 + mul64 a1 r2 + mul64 a2 r1 + mul64 a3 r0 + mul64 a4 u4;
          w4 = mul64 a0 r4 + mul64 a1 r3 + mul64 a2 r2 + mul64 a3 r1 + mul64 a4 r0;
          c = drop_bit 26 w0;
          a0 = ucast w0 AND 0x3FFFFFF;
          w1 = w1 + c;
          c = drop_bit 26 w1;
          a1 = ucast w1 AND 0x3FFFFFF;
          w2 = w2 + c;
          c = drop_bit 26 w2;
          a2 = ucast w2 AND 0x3FFFFFF;
          w3 = w3 + c;
          c = drop_bit 26 w3;
          a3 = ucast w3 AND 0x3FFFFFF;
          w4 = w4 + c;
          c = drop_bit 26 w4;
          a4 = ucast w4 AND 0x3FFFFFF;
          a0 = a0 + ucast c * 5;
          a1 = a1 + drop_bit 26 a0;
          a0 = a0 AND 0x3FFFFFF
      in [a0, a1, a2, a3, a4])"

definition poly1305_add :: "u32 list \<Rightarrow> byte list \<Rightarrow> u32 list" where
  "poly1305_add a buf =
     [a ! 0 + (dec32le_at buf 0 AND 0x03FFFFFF),
      a ! 1 + (drop_bit 2 (dec32le_at buf 3) AND 0x03FFFFFF),
      a ! 2 + (drop_bit 4 (dec32le_at buf 6) AND 0x03FFFFFF),
      a ! 3 + (drop_bit 6 (dec32le_at buf 9) AND 0x03FFFFFF),
      a ! 4 + (drop_bit 8 (dec32le_at buf 12) OR 0x01000000)]"

function poly1305_inner :: "u32 list \<Rightarrow> u32 list \<Rightarrow> byte list \<Rightarrow> u32 list" where
  "poly1305_inner acc r data =
     (if data = [] then acc
      else let buf = (if length data < 16 then data @ replicate (16 - length data) 0 else data)
           in poly1305_inner (poly1305_mult (poly1305_add acc buf) r) r (drop 16 data))"
  by pat_completeness auto
termination
  by (relation "measure (\<lambda>(_, _, data). length data)") auto

declare poly1305_inner.simps [simp del]

definition poly1305_r :: "byte list \<Rightarrow> u32 list" where
  "poly1305_r pkey =
     [dec32le_at pkey 0 AND 0x03FFFFFF,
      drop_bit 2 (dec32le_at pkey 3) AND 0x03FFFF03,
      drop_bit 4 (dec32le_at pkey 6) AND 0x03FFC0FF,
      drop_bit 6 (dec32le_at pkey 9) AND 0x03F03FFF,
      drop_bit 8 (dec32le_at pkey 12) AND 0x000FFFFF]"

text \<open>The loop \<open>for (i = 1; i <= 6; i ++)\<close> over the limbs and the carry \<open>cc\<close>.\<close>

definition poly1305_carry :: "u32 list \<Rightarrow> u32 list" where
  "poly1305_carry acc =
     fst (foldl (\<lambda>(acc, cc) i.
       let j = (if i \<ge> 5 then i - 5 else i);
           acc = acc[j := acc ! j + cc];
           cc = drop_bit 26 (acc ! j)
       in (acc[j := acc ! j AND 0x03FFFFFF], cc)) (acc, 0) [1, 2, 3, 4, 5, 6])"

text \<open>The selection between the accumulator and the accumulator minus \<open>p\<close>.\<close>

definition poly1305_select :: "u32 list \<Rightarrow> u32 list" where
  "poly1305_select acc =
     (let ctl = foldl (\<lambda>ctl i. ctl AND EQ (acc ! i) 0x03FFFFFF) (GT (acc ! 0) 0x03FFFFFA) [1, 2, 3, 4]
      in fst (foldl (\<lambda>(acc, cc) i.
           let t = acc ! i + cc;
               cc = drop_bit 26 t;
               t = t AND 0x03FFFFFF
           in (acc[i := MUX ctl t (acc ! i)], cc)) (acc, 5) [0, 1, 2, 3, 4]))"

definition poly1305_tag :: "u32 list \<Rightarrow> byte list \<Rightarrow> byte list" where
  "poly1305_tag acc pkey =
     (let w = ucast (acc ! 0) + push_bit 26 (ucast (acc ! 1)) + ucast (dec32le_at pkey 16) :: u64;
          t0 = br_enc32le (ucast w);
          w = drop_bit 32 w + push_bit 20 (ucast (acc ! 2)) + ucast (dec32le_at pkey 20);
          t1 = br_enc32le (ucast w);
          w = drop_bit 32 w + push_bit 14 (ucast (acc ! 3)) + ucast (dec32le_at pkey 24);
          t2 = br_enc32le (ucast w);
          hi = ucast (drop_bit 32 w) + push_bit 8 (acc ! 4) + dec32le_at pkey 28
      in t0 @ t1 @ t2 @ br_enc32le hi)"

definition poly1305_acc :: "byte list \<Rightarrow> byte list \<Rightarrow> byte list \<Rightarrow> u32 list" where
  "poly1305_acc pkey aad data =
     (let r = poly1305_r pkey;
          foot = br_enc64le (of_nat (length aad)) @ br_enc64le (of_nat (length data));
          acc = poly1305_inner [0, 0, 0, 0, 0] r aad;
          acc = poly1305_inner acc r data
      in poly1305_inner acc r foot)"

definition br_poly1305_ctmul_run :: poly1305_run where
  "br_poly1305_ctmul_run key iv data aad ichacha encrypt =
     (let pkey = fst (ichacha key iv 0 (replicate 32 0));
          data = (if encrypt then fst (ichacha key iv 1 data) else data);
          tag = poly1305_tag (poly1305_select (poly1305_carry (poly1305_acc pkey aad data))) pkey;
          data = (if \<not> encrypt then fst (ichacha key iv 1 data) else data)
      in (data, tag))"

section \<open>RFC 8439\<close>

fun le_num :: "byte list \<Rightarrow> nat" where
  "le_num [] = 0"
| "le_num (b # bs) = unat b + 256 * le_num bs"

definition le_bytes :: "nat \<Rightarrow> nat \<Rightarrow> byte list" where
  "le_bytes n k = map (\<lambda>i. of_nat (n div 256 ^ i)) [0..<k]"

definition prime1305 :: nat where "prime1305 = 2 ^ 130 - 5"

text \<open>Section 2.5: the message in blocks of 16 bytes, each with one bit beyond its bytes.\<close>

function rfc_poly :: "nat \<Rightarrow> nat \<Rightarrow> byte list \<Rightarrow> nat" where
  "rfc_poly a r msg =
     (if msg = [] then a
      else let blk = take 16 msg
           in rfc_poly ((a + le_num blk + 2 ^ (8 * length blk)) * r mod prime1305) r (drop 16 msg))"
  by pat_completeness auto
termination
  by (relation "measure (\<lambda>(_, _, msg). length msg)") auto

declare rfc_poly.simps [simp del]

definition rfc_mac :: "byte list \<Rightarrow> byte list \<Rightarrow> byte list" where
  "rfc_mac otk msg =
     (let r = le_num (take 16 otk) AND 0x0ffffffc0ffffffc0ffffffc0fffffff; s = le_num (take 16 (drop 16 otk))
      in le_bytes ((rfc_poly 0 r msg + s) mod 2 ^ 128) 16)"

text \<open>Section 2.8: additional data and ciphertext padded to blocks, and their lengths.\<close>

definition pad16 :: "byte list \<Rightarrow> byte list" where
  "pad16 bs = bs @ replicate ((16 - length bs mod 16) mod 16) 0"

definition rfc_mac_data :: "byte list \<Rightarrow> byte list \<Rightarrow> byte list" where
  "rfc_mac_data aad ct = pad16 aad @ pad16 ct @ le_bytes (length aad) 8 @ le_bytes (length ct) 8"

definition rfc_aead_encrypt :: "byte list \<Rightarrow> byte list \<Rightarrow> byte list \<Rightarrow> byte list \<Rightarrow> byte list \<times> byte list" where
  "rfc_aead_encrypt key nonce plain aad =
     (let otk = take 32 (rfc_block key nonce 0);
          k = (length plain + 63) div 64;
          ct = xor_bytes plain (take (length plain) (rfc_stream key nonce 1 k))
      in (ct, rfc_mac otk (rfc_mac_data aad ct)))"

section \<open>The contract of the record layer\<close>

lemma chacha_run_twice:
  "fst (br_chacha20_ct_run key iv cc (fst (br_chacha20_ct_run key iv cc d))) = d"
  "length (fst (br_chacha20_ct_run key iv cc d)) = length d"
proof -
  let ?k = "(length d + 63) div 64"
  have l: "length (take (length d) (rfc_stream key iv cc ?k)) = length d" by simp
  show n: "length (fst (br_chacha20_ct_run key iv cc d)) = length d"
    using l by (simp only: br_chacha20_ct_run_def chacha_loop_stream Let_def fst_conv length_xor_bytes)
  show "fst (br_chacha20_ct_run key iv cc (fst (br_chacha20_ct_run key iv cc d))) = d"
    unfolding br_chacha20_ct_run_def chacha_loop_stream [of key iv cc "fst _"] Let_def
    using n l by (simp add: br_chacha20_ct_run_def chacha_loop_stream Let_def xor_bytes_cancel)
qed

lemma length_poly1305_tag [simp]: "length (poly1305_tag acc pkey) = 16"
  by (simp add: poly1305_tag_def Let_def)

lemma chapol_contract: "poly_ok br_poly1305_ctmul_run br_chacha20_ct_run"
  unfolding poly_ok_def br_poly1305_ctmul_run_def Let_def
  by (auto simp: chacha_run_twice)

section \<open>Numbers from bytes\<close>

lemma le_num_append: "le_num (xs @ ys) = le_num xs + 256 ^ length xs * le_num ys"
  by (induction xs) (simp_all add: algebra_simps)

lemma le_num_less: "le_num bs < 256 ^ length bs"
proof (induction bs)
  case (Cons b bs)
  have "unat b < 256" using unsigned_less [of b, where ?'a = nat] by simp
  with Cons show ?case by simp
qed simp

lemma le_num_take_drop:
  assumes "k \<le> length bs"
  shows "le_num (take k bs) = le_num bs mod 256 ^ k" "le_num (drop k bs) = le_num bs div 256 ^ k"
proof -
  have "le_num bs = le_num (take k bs) + 256 ^ k * le_num (drop k bs)"
    using le_num_append [of "take k bs" "drop k bs"] assms by simp
  moreover have "le_num (take k bs) < 256 ^ k" using le_num_less [of "take k bs"] assms by simp
  ultimately show "le_num (take k bs) = le_num bs mod 256 ^ k" "le_num (drop k bs) = le_num bs div 256 ^ k"
    by (simp_all add: div_mult2_eq)
qed

lemma le_num_replicate_0 [simp]: "le_num (replicate k 0) = 0"
  by (induction k) simp_all

lemma unat_dec32le_bytes:
  "unat (br_dec32le m p) = unat (m p) + 256 * unat (m (p + 1)) + 65536 * unat (m (p + 2)) + 16777216 * unat (m (p + 3))"
proof -
  have b: "unat (x :: byte) < 256" for x using unsigned_less [of x, where ?'a = nat] by simp
  have "br_dec32le m p = ucast (m p) + push_bit 8 (ucast (m (p + 1))) + push_bit 16 (ucast (m (p + 2)))
      + push_bit 24 (ucast (m (p + 3)))"
  proof -
    have h: "\<not> bit (x :: byte) n" if "8 \<le> n" for x n using that by simp
    have "push_bit 16 (ucast (m (p + 2))) OR push_bit 24 (ucast (m (p + 3)) :: u32)
        = push_bit 16 (ucast (m (p + 2))) + push_bit 24 (ucast (m (p + 3)))"
      by (rule disjunctive_add_eq_or [symmetric], rule bit_word_eqI) (auto simp: bit_simps h)
    moreover have "push_bit 8 (ucast (m (p + 1))) OR (push_bit 16 (ucast (m (p + 2))) OR push_bit 24 (ucast (m (p + 3)) :: u32))
        = push_bit 8 (ucast (m (p + 1))) + (push_bit 16 (ucast (m (p + 2))) OR push_bit 24 (ucast (m (p + 3))))"
      by (rule disjunctive_add_eq_or [symmetric], rule bit_word_eqI) (auto simp: bit_simps h)
    moreover have "ucast (m p) OR (push_bit 8 (ucast (m (p + 1))) OR (push_bit 16 (ucast (m (p + 2))) OR push_bit 24 (ucast (m (p + 3)) :: u32)))
        = ucast (m p) + (push_bit 8 (ucast (m (p + 1))) OR (push_bit 16 (ucast (m (p + 2))) OR push_bit 24 (ucast (m (p + 3)))))"
      by (rule disjunctive_add_eq_or [symmetric], rule bit_word_eqI) (auto simp: bit_simps h)
    ultimately show ?thesis by (simp add: br_dec32le_def or.assoc add.assoc)
  qed
  also have "\<dots> = word_of_nat (unat (m p) + 256 * unat (m (p + 1)) + 65536 * unat (m (p + 2)) + 16777216 * unat (m (p + 3)))"
    by (simp add: push_bit_eq_mult)
  finally have "unat (br_dec32le m p)
      = take_bit 32 (unat (m p) + 256 * unat (m (p + 1)) + 65536 * unat (m (p + 2)) + 16777216 * unat (m (p + 3)))"
    by (simp only: unat_of_nat) (simp add: take_bit_eq_mod)
  then show ?thesis
    using b [of "m p"] b [of "m (p + 1)"] b [of "m (p + 2)"] b [of "m (p + 3)"]
    by (simp only:) (rule take_bit_nat_eq_self, simp)
qed

lemma unat_dec32le_at:
  assumes "k + 4 \<le> length bs"
  shows "unat (dec32le_at bs k) = le_num bs div 256 ^ k mod 2 ^ 32"
proof -
  have "take 4 (drop k bs) = map (\<lambda>i. bs ! (k + i)) [0..<4]" by (rule nth_equalityI) (use assms in auto)
  then have "take 4 (drop k bs) = [bs ! k, bs ! (k + 1), bs ! (k + 2), bs ! (k + 3)]" by (simp add: upt_rec numeral_3_eq_3)
  then have "unat (dec32le_at bs k) = le_num (take 4 (drop k bs))"
    by (simp add: dec32le_at_def unat_dec32le_bytes)
  also have "\<dots> = le_num bs div 256 ^ k mod 256 ^ 4"
    using assms le_num_take_drop(1) [of 4 "drop k bs"] le_num_take_drop(2) [of k bs] by simp
  finally show ?thesis by simp
qed

lemma le_bytes_Suc: "le_bytes n (Suc k) = of_nat n # le_bytes (n div 256) k"
  by (simp add: le_bytes_def upt_conv_Cons map_Suc_upt [symmetric] div_mult2_eq del: upt_Suc)

lemma le_num_le_bytes: "le_num (le_bytes n k) = n mod 256 ^ k"
proof (induction k arbitrary: n)
  case (Suc k)
  have "n mod 256 ^ Suc k = n mod 256 + 256 * (n div 256 mod 256 ^ k)" by (simp add: mod_mult2_eq)
  with Suc show ?case by (simp add: le_bytes_Suc unat_of_nat take_bit_nat_def)
qed (simp add: le_bytes_def)

lemma le_bytes_le_num: "le_bytes (le_num bs) (length bs) = bs"
proof (induction bs)
  case (Cons b bs)
  have "unat b < 256" using unsigned_less [of b, where ?'a = nat] by simp
  then have "(unat b + 256 * le_num bs) div 256 = le_num bs" by simp
  moreover have "(of_nat (256 * le_num bs) :: byte) = 0" unfolding word_of_nat_eq_0_iff by simp
  then have "(of_nat (unat b + 256 * le_num bs) :: byte) = b" by (simp only: of_nat_add) simp
  ultimately show ?case using Cons by (simp add: le_bytes_Suc)
qed (simp add: le_bytes_def)

lemma length_le_bytes [simp]: "length (le_bytes n k) = k"
  by (simp add: le_bytes_def)

lemma enc32le_le_bytes: "br_enc32le w = le_bytes (unat w) 4"
proof -
  have "ucast (drop_bit n w) = (of_nat (unat w div 2 ^ n) :: byte)" for n
    by (metis drop_bit_eq_div of_nat_unat unsigned_drop_bit_eq unat_drop_bit_eq)
  from this [of 0] this [of 8] this [of 16] this [of 24] show ?thesis
    by (simp add: br_enc32le_def le_bytes_def upt_rec)
qed

lemma le_num_enc32le: "le_num (br_enc32le w) = unat w"
  using unsigned_less [of w, where ?'a = nat] by (simp add: enc32le_le_bytes le_num_le_bytes)

section \<open>Limbs\<close>

definition limbs_val :: "u32 list \<Rightarrow> nat" where
  "limbs_val a = unat (a ! 0) + unat (a ! 1) * 2 ^ 26 + unat (a ! 2) * 2 ^ 52 + unat (a ! 3) * 2 ^ 78 + unat (a ! 4) * 2 ^ 104"

definition acc_ok :: "u32 list \<Rightarrow> bool" where
  "acc_ok a \<longleftrightarrow> length a = 5 \<and> unat (a ! 0) < 2 ^ 26 \<and> unat (a ! 1) < 2 ^ 26 + 64 \<and> unat (a ! 2) < 2 ^ 26
     \<and> unat (a ! 3) < 2 ^ 26 \<and> unat (a ! 4) < 2 ^ 26"

definition below :: "nat \<Rightarrow> u32 list \<Rightarrow> bool" where
  "below n a \<longleftrightarrow> unat (a ! 0) < n \<and> unat (a ! 1) < n \<and> unat (a ! 2) < n \<and> unat (a ! 3) < n \<and> unat (a ! 4) < n"

lemma dec_bits: "k + 4 \<le> length bs \<Longrightarrow> unat (dec32le_at bs k) = take_bit 32 (drop_bit (8 * k) (le_num bs))"
  by (simp add: unat_dec32le_at take_bit_eq_mod drop_bit_eq_div power_mult)

lemma and_mask26: "unat (w AND 0x3FFFFFF :: u32) = take_bit 26 (unat w)"
proof -
  have "w AND 0x3FFFFFF = take_bit 26 w" by (simp add: take_bit_eq_mask mask_eq_decr_exp)
  then show ?thesis by (simp only: unsigned_take_bit_eq)
qed

lemma limb_bits:
  assumes "k + 4 \<le> length bs" "s + 26 \<le> 32"
  shows "unat (drop_bit s (dec32le_at bs k) AND 0x3FFFFFF) = take_bit 26 (drop_bit (8 * k + s) (le_num bs))"
  using assms by (simp add: and_mask26 unat_drop_bit_eq dec_bits drop_bit_take_bit add.commute)

lemma top_limb:
  assumes "length bs = 16"
  shows "unat (drop_bit 8 (dec32le_at bs 12) OR 0x1000000) = drop_bit 104 (le_num bs) + 2 ^ 24"
proof -
  have "le_num bs < 2 ^ 128" using le_num_less [of bs] assms by simp
  then have l: "drop_bit 96 (le_num bs) < 2 ^ 32" "drop_bit 104 (le_num bs) < 2 ^ 24"
    by (simp_all add: drop_bit_eq_div div_less_iff_less_mult)
  have u: "unat (drop_bit 8 (dec32le_at bs 12)) = drop_bit 104 (le_num bs)"
    using assms l(1) by (simp add: unat_drop_bit_eq dec_bits take_bit_nat_eq_self)
  have "drop_bit 8 (dec32le_at bs 12) AND 0x1000000 = (0 :: u32)"
  proof -
    have "\<not> bit (drop_bit 8 (dec32le_at bs 12)) 24" using bit_imp_le_length [of "dec32le_at bs 12" 32] by (auto simp: bit_drop_bit_eq)
    then have "drop_bit 8 (dec32le_at bs 12) AND 2 ^ 24 = 0" by (simp only: and_exp_eq_0_iff_not_bit not_False_eq_True)
    then show ?thesis by simp
  qed
  then have "drop_bit 8 (dec32le_at bs 12) OR 0x1000000 = drop_bit 8 (dec32le_at bs 12) + 0x1000000"
    by (rule disjunctive_add_eq_or [symmetric])
  with u l(2) show ?thesis by (simp add: unat_word_ariths)
qed

lemma split26: "(n :: nat) = take_bit 26 n + 2 ^ 26 * drop_bit 26 n"
  by (simp add: take_bit_eq_mod drop_bit_eq_div)

lemma join26:
  fixes n :: nat
  assumes "n = t0 + 2 ^ 26 * d1" "d1 = t1 + 2 ^ 26 * d2" "d2 = t2 + 2 ^ 26 * d3" "d3 = t3 + 2 ^ 26 * d4"
  shows "t0 + t1 * 2 ^ 26 + t2 * 2 ^ 52 + t3 * 2 ^ 78 + d4 * 2 ^ 104 = n"
  using assms by simp

lemma split_limbs:
  "take_bit 26 n + take_bit 26 (drop_bit 26 n) * 2 ^ 26 + take_bit 26 (drop_bit 52 n) * 2 ^ 52
     + take_bit 26 (drop_bit 78 n) * 2 ^ 78 + drop_bit 104 n * 2 ^ 104 = (n :: nat)"
proof -
  have s: "drop_bit k n = take_bit 26 (drop_bit k n) + 2 ^ 26 * drop_bit j n" if "26 + k = j" for k j
    using split26 [of "drop_bit k n"] that by (metis drop_bit_drop_bit)
  show ?thesis by (rule join26 [OF split26 s s s]) simp_all
qed

lemma poly1305_add_val:
  assumes "acc_ok a" "length buf = 16"
  shows "below (2 ^ 27 + 64) (poly1305_add a buf)" "limbs_val (poly1305_add a buf) = limbs_val a + le_num buf + 2 ^ 128"
proof -
  let ?n = "le_num buf"
  have n: "?n < 2 ^ 128" using le_num_less [of buf] assms(2) by simp
  have d: "unat (dec32le_at buf 0 AND 0x3FFFFFF) = take_bit 26 ?n"
      "unat (drop_bit 2 (dec32le_at buf 3) AND 0x3FFFFFF) = take_bit 26 (drop_bit 26 ?n)"
      "unat (drop_bit 4 (dec32le_at buf 6) AND 0x3FFFFFF) = take_bit 26 (drop_bit 52 ?n)"
      "unat (drop_bit 6 (dec32le_at buf 9) AND 0x3FFFFFF) = take_bit 26 (drop_bit 78 ?n)"
    using limb_bits [of 0 buf 0] limb_bits [of 3 buf 2] limb_bits [of 6 buf 4] limb_bits [of 9 buf 6] assms(2) by simp_all
  have t: "take_bit 26 m < 2 ^ 26" for m :: nat by (rule take_bit_nat_less_exp)
  have t4: "drop_bit 104 ?n < 2 ^ 24" using n by (simp add: drop_bit_eq_div div_less_iff_less_mult)
  note a = assms(1) [unfolded acc_ok_def]
  have u: "unat (poly1305_add a buf ! 0) = unat (a ! 0) + take_bit 26 ?n"
      "unat (poly1305_add a buf ! 1) = unat (a ! 1) + take_bit 26 (drop_bit 26 ?n)"
      "unat (poly1305_add a buf ! 2) = unat (a ! 2) + take_bit 26 (drop_bit 52 ?n)"
      "unat (poly1305_add a buf ! 3) = unat (a ! 3) + take_bit 26 (drop_bit 78 ?n)"
      "unat (poly1305_add a buf ! 4) = unat (a ! 4) + (drop_bit 104 ?n + 2 ^ 24)"
    using a t [of ?n] t [of "drop_bit 26 ?n"] t [of "drop_bit 52 ?n"] t [of "drop_bit 78 ?n"] t4
    by (simp_all add: poly1305_add_def unat_add32 d top_limb [OF assms(2)])
  show "below (2 ^ 27 + 64) (poly1305_add a buf)"
    unfolding below_def u using a t [of ?n] t [of "drop_bit 26 ?n"] t [of "drop_bit 52 ?n"] t [of "drop_bit 78 ?n"] t4 by simp
  show "limbs_val (poly1305_add a buf) = limbs_val a + le_num buf + 2 ^ 128"
    unfolding limbs_val_def u using split_limbs [of ?n] by simp
qed

section \<open>Multiplication and carries\<close>

lemma unat_mul64: "unat (mul64 x y) = unat x * unat y"
proof -
  have "unat x < 2 ^ 32" "unat y < 2 ^ 32"
    using unsigned_less [of x, where ?'a = nat] unsigned_less [of y, where ?'a = nat] by simp_all
  then have "unat x * unat y < 2 ^ 64" using mult_strict_mono' [of "unat x" "2 ^ 32" "unat y" "2 ^ 32"] by simp
  moreover have "take_bit 64 (unat x) = unat x" "take_bit 64 (unat y) = unat y"
    using \<open>unat x < 2 ^ 32\<close> \<open>unat y < 2 ^ 32\<close> by (auto intro!: take_bit_nat_eq_self)
  ultimately show ?thesis by (simp add: mul64_def unat_word_ariths unsigned_ucast_eq)
qed

lemma unat_low26: "unat (ucast (w :: u64) AND 0x3FFFFFF :: u32) = unat w mod 2 ^ 26"
proof -
  have "take_bit 26 (unat (ucast w :: u32)) = take_bit 26 (unat w)" by (simp add: unsigned_ucast_eq)
  then show ?thesis by (simp only: and_mask26) (simp add: take_bit_eq_mod)
qed

text \<open>The arithmetic of one turn, on numbers.\<close>

lemma mult_identity:
  fixes a0 a1 a2 a3 a4 r0 r1 r2 r3 r4 :: nat
  shows "(a0 + a1 * 2 ^ 26 + a2 * 2 ^ 52 + a3 * 2 ^ 78 + a4 * 2 ^ 104) * (r0 + r1 * 2 ^ 26 + r2 * 2 ^ 52 + r3 * 2 ^ 78 + r4 * 2 ^ 104)
    + 5 * (a1 * r4 + a2 * r3 + a3 * r2 + a4 * r1 + (a2 * r4 + a3 * r3 + a4 * r2) * 2 ^ 26 + (a3 * r4 + a4 * r3) * 2 ^ 52 + a4 * r4 * 2 ^ 78)
    = (a0 * r0 + a1 * (5 * r4) + a2 * (5 * r3) + a3 * (5 * r2) + a4 * (5 * r1))
    + (a0 * r1 + a1 * r0 + a2 * (5 * r4) + a3 * (5 * r3) + a4 * (5 * r2)) * 2 ^ 26
    + (a0 * r2 + a1 * r1 + a2 * r0 + a3 * (5 * r4) + a4 * (5 * r3)) * 2 ^ 52
    + (a0 * r3 + a1 * r2 + a2 * r1 + a3 * r0 + a4 * (5 * r4)) * 2 ^ 78
    + (a0 * r4 + a1 * r3 + a2 * r2 + a3 * r1 + a4 * r0) * 2 ^ 104
    + 2 ^ 130 * (a1 * r4 + a2 * r3 + a3 * r2 + a4 * r1 + (a2 * r4 + a3 * r3 + a4 * r2) * 2 ^ 26 + (a3 * r4 + a4 * r3) * 2 ^ 52 + a4 * r4 * 2 ^ 78)"
  by (simp add: algebra_simps)

lemma carry_identity:
  fixes w0 w1 w2 w3 w4 :: nat
  defines "c0 \<equiv> w0 div 2 ^ 26" defines "c1 \<equiv> (w1 + c0) div 2 ^ 26" defines "c2 \<equiv> (w2 + c1) div 2 ^ 26"
  defines "c3 \<equiv> (w3 + c2) div 2 ^ 26" defines "c4 \<equiv> (w4 + c3) div 2 ^ 26"
  defines "b0 \<equiv> w0 mod 2 ^ 26 + c4 * 5"
  shows "b0 mod 2 ^ 26 + ((w1 + c0) mod 2 ^ 26 + b0 div 2 ^ 26) * 2 ^ 26 + (w2 + c1) mod 2 ^ 26 * 2 ^ 52
      + (w3 + c2) mod 2 ^ 26 * 2 ^ 78 + (w4 + c3) mod 2 ^ 26 * 2 ^ 104 + c4 * 2 ^ 130
    = w0 + w1 * 2 ^ 26 + w2 * 2 ^ 52 + w3 * 2 ^ 78 + w4 * 2 ^ 104 + 5 * c4"
proof -
  have s: "x mod 2 ^ 26 + 2 ^ 26 * (x div 2 ^ 26) = x" for x :: nat by simp
  have "w0 mod 2 ^ 26 + 2 ^ 26 * c0 = w0" "(w1 + c0) mod 2 ^ 26 + 2 ^ 26 * c1 = w1 + c0"
    "(w2 + c1) mod 2 ^ 26 + 2 ^ 26 * c2 = w2 + c1" "(w3 + c2) mod 2 ^ 26 + 2 ^ 26 * c3 = w3 + c2"
    "(w4 + c3) mod 2 ^ 26 + 2 ^ 26 * c4 = w4 + c3" "b0 mod 2 ^ 26 + 2 ^ 26 * (b0 div 2 ^ 26) = w0 mod 2 ^ 26 + c4 * 5"
    unfolding c0_def c1_def c2_def c3_def c4_def b0_def using s by (auto simp only:)
  then show ?thesis by (simp only: power_numeral) simp
qed

lemma unat_sum5:
  "unat x1 + unat x2 + unat x3 + unat x4 + unat x5 < 2 ^ 64 \<Longrightarrow>
    unat (x1 + x2 + x3 + x4 + x5 :: u64) = unat x1 + unat x2 + unat x3 + unat x4 + unat x5"
  by (simp add: unat_add64)

lemma unat_times5: "unat r < 2 ^ 26 \<Longrightarrow> unat (r * 5 :: u32) = 5 * unat r"
  by (simp add: unat_word_ariths)

lemma prod_bound:
  fixes x y :: nat
  assumes "x < 2 ^ 27 + 64" "y < 2 ^ 26"
  shows "x * y \<le> 9007203549708288" "x * (5 * y) \<le> 45036017748541440"
  using mult_le_mono [of x "2 ^ 27 + 64" y "2 ^ 26"] assms by simp_all

text \<open>The five sums of products as words and as numbers, and the carries between them.\<close>

definition mult_words :: "u32 list \<Rightarrow> u32 list \<Rightarrow> u64 list" where
  "mult_words a r =
    [mul64 (a ! 0) (r ! 0) + mul64 (a ! 1) (r ! 4 * 5) + mul64 (a ! 2) (r ! 3 * 5) + mul64 (a ! 3) (r ! 2 * 5) + mul64 (a ! 4) (r ! 1 * 5),
     mul64 (a ! 0) (r ! 1) + mul64 (a ! 1) (r ! 0) + mul64 (a ! 2) (r ! 4 * 5) + mul64 (a ! 3) (r ! 3 * 5) + mul64 (a ! 4) (r ! 2 * 5),
     mul64 (a ! 0) (r ! 2) + mul64 (a ! 1) (r ! 1) + mul64 (a ! 2) (r ! 0) + mul64 (a ! 3) (r ! 4 * 5) + mul64 (a ! 4) (r ! 3 * 5),
     mul64 (a ! 0) (r ! 3) + mul64 (a ! 1) (r ! 2) + mul64 (a ! 2) (r ! 1) + mul64 (a ! 3) (r ! 0) + mul64 (a ! 4) (r ! 4 * 5),
     mul64 (a ! 0) (r ! 4) + mul64 (a ! 1) (r ! 3) + mul64 (a ! 2) (r ! 2) + mul64 (a ! 3) (r ! 1) + mul64 (a ! 4) (r ! 0)]"

definition mult_nums :: "(nat \<Rightarrow> nat) \<Rightarrow> (nat \<Rightarrow> nat) \<Rightarrow> nat list" where
  "mult_nums A R =
    [A 0 * R 0 + A 1 * (5 * R 4) + A 2 * (5 * R 3) + A 3 * (5 * R 2) + A 4 * (5 * R 1),
     A 0 * R 1 + A 1 * R 0 + A 2 * (5 * R 4) + A 3 * (5 * R 3) + A 4 * (5 * R 2),
     A 0 * R 2 + A 1 * R 1 + A 2 * R 0 + A 3 * (5 * R 4) + A 4 * (5 * R 3),
     A 0 * R 3 + A 1 * R 2 + A 2 * R 1 + A 3 * R 0 + A 4 * (5 * R 4),
     A 0 * R 4 + A 1 * R 3 + A 2 * R 2 + A 3 * R 1 + A 4 * R 0]"

definition carry_words :: "u64 list \<Rightarrow> u32 list" where
  "carry_words w =
    (let v1 = w ! 1 + drop_bit 26 (w ! 0); v2 = w ! 2 + drop_bit 26 v1; v3 = w ! 3 + drop_bit 26 v2; v4 = w ! 4 + drop_bit 26 v3;
         b0 = (ucast (w ! 0) AND 0x3FFFFFF) + ucast (drop_bit 26 v4) * 5
     in [b0 AND 0x3FFFFFF, (ucast v1 AND 0x3FFFFFF) + drop_bit 26 b0, ucast v2 AND 0x3FFFFFF,
         ucast v3 AND 0x3FFFFFF, ucast v4 AND 0x3FFFFFF])"

lemma poly1305_mult_words: "poly1305_mult a r = carry_words (mult_words a r)"
  unfolding poly1305_mult_def carry_words_def mult_words_def Let_def by (simp only: nth_Cons_0 nth_Cons_numeral nth_Cons_Suc One_nat_def) simp

definition words_fit :: "nat list \<Rightarrow> bool" where
  "words_fit W \<longleftrightarrow> W ! 0 \<le> 189151274543874048 \<and> W ! 1 \<le> 153122477524910080 \<and> W ! 2 \<le> 117093680505946112
     \<and> W ! 3 \<le> 81064883486982144 \<and> W ! 4 \<le> 45036017748541440"

lemma mult_nums_fit:
  assumes A: "A 0 < 2 ^ 27 + 64" "A 1 < 2 ^ 27 + 64" "A 2 < 2 ^ 27 + 64" "A 3 < 2 ^ 27 + 64" "A 4 < 2 ^ 27 + 64"
    and R: "R 0 < 2 ^ 26" "R 1 < 2 ^ 26" "R 2 < 2 ^ 26" "R 3 < 2 ^ 26" "R 4 < 2 ^ 26"
  shows "words_fit (mult_nums A R)"
proof -
  have P: "A i * R j \<le> 9007203549708288" "A i * (5 * R j) \<le> 45036017748541440" if "A i < 2 ^ 27 + 64" "R j < 2 ^ 26" for i j
    using prod_bound [OF that] by auto
  define W0 W1 W2 W3 W4 where W:
    "W0 = A 0 * R 0 + A 1 * (5 * R 4) + A 2 * (5 * R 3) + A 3 * (5 * R 2) + A 4 * (5 * R 1)"
    "W1 = A 0 * R 1 + A 1 * R 0 + A 2 * (5 * R 4) + A 3 * (5 * R 3) + A 4 * (5 * R 2)"
    "W2 = A 0 * R 2 + A 1 * R 1 + A 2 * R 0 + A 3 * (5 * R 4) + A 4 * (5 * R 3)"
    "W3 = A 0 * R 3 + A 1 * R 2 + A 2 * R 1 + A 3 * R 0 + A 4 * (5 * R 4)"
    "W4 = A 0 * R 4 + A 1 * R 3 + A 2 * R 2 + A 3 * R 1 + A 4 * R 0"
  have B: "W0 \<le> 189151274543874048" "W1 \<le> 153122477524910080" "W2 \<le> 117093680505946112" "W3 \<le> 81064883486982144"
      "W4 \<le> 45036017748541440"
    unfolding W using P [OF A(1) R(1)] P [OF A(1) R(2)] P [OF A(1) R(3)] P [OF A(1) R(4)] P [OF A(1) R(5)]
      P [OF A(2) R(1)] P [OF A(2) R(2)] P [OF A(2) R(3)] P [OF A(2) R(4)] P [OF A(2) R(5)]
      P [OF A(3) R(1)] P [OF A(3) R(2)] P [OF A(3) R(3)] P [OF A(3) R(4)] P [OF A(3) R(5)]
      P [OF A(4) R(1)] P [OF A(4) R(2)] P [OF A(4) R(3)] P [OF A(4) R(4)] P [OF A(4) R(5)]
      P [OF A(5) R(1)] P [OF A(5) R(2)] P [OF A(5) R(3)] P [OF A(5) R(4)] P [OF A(5) R(5)] by linarith+
  then show ?thesis unfolding words_fit_def mult_nums_def W [symmetric] by simp
qed

lemma unat_row:
  assumes "unat y1 = n1" "unat y2 = n2" "unat y3 = n3" "unat y4 = n4" "unat y5 = n5"
    and "unat x1 * n1 + unat x2 * n2 + unat x3 * n3 + unat x4 * n4 + unat x5 * n5 \<le> b" "b < 2 ^ 64"
  shows "unat (mul64 x1 y1 + mul64 x2 y2 + mul64 x3 y3 + mul64 x4 y4 + mul64 x5 y5)
    = unat x1 * n1 + unat x2 * n2 + unat x3 * n3 + unat x4 * n4 + unat x5 * n5"
  using unat_sum5 [of "mul64 x1 y1" "mul64 x2 y2" "mul64 x3 y3" "mul64 x4 y4" "mul64 x5 y5"] assms(6,7)
  unfolding unat_mul64 assms(1-5) by simp

lemma mult_words_num:
  assumes "below (2 ^ 26) r" "words_fit (mult_nums (\<lambda>i. unat (a ! i)) (\<lambda>i. unat (r ! i)))"
  shows "map unat (mult_words a r) = mult_nums (\<lambda>i. unat (a ! i)) (\<lambda>i. unat (r ! i))"
proof -
  have R: "unat (r ! 0 * 5) = 5 * unat (r ! 0)" "unat (r ! 1 * 5) = 5 * unat (r ! 1)" "unat (r ! 2 * 5) = 5 * unat (r ! 2)"
      "unat (r ! 3 * 5) = 5 * unat (r ! 3)" "unat (r ! 4 * 5) = 5 * unat (r ! 4)"
    using assms(1) by (simp_all only: below_def unat_times5)
  note fit = assms(2) [unfolded words_fit_def mult_nums_def nth_Cons_0 nth_Cons_numeral nth_Cons_Suc One_nat_def, simplified]
  show ?thesis
    unfolding mult_words_def mult_nums_def list.map
    by (intro arg_cong2 [where f = Cons] refl; rule unat_row [where b = 189151274543874048]; (rule R refl)?) (use fit in simp_all)
qed

lemma carry_words_val:
  assumes "words_fit W" "\<And>i. i < 5 \<Longrightarrow> unat (w ! i) = W ! i"
  shows "acc_ok (carry_words w)"
    "\<exists>c. limbs_val (carry_words w) + c * 2 ^ 130 = W ! 0 + W ! 1 * 2 ^ 26 + W ! 2 * 2 ^ 52 + W ! 3 * 2 ^ 78 + W ! 4 * 2 ^ 104 + 5 * c"
proof -
  define W0 W1 W2 W3 W4 where Wd: "W0 = W ! 0" "W1 = W ! 1" "W2 = W ! 2" "W3 = W ! 3" "W4 = W ! 4"
  define w0 w1 w2 w3 w4 where wd: "w0 = w ! 0" "w1 = w ! 1" "w2 = w ! 2" "w3 = w ! 3" "w4 = w ! 4"
  have B: "W0 \<le> 189151274543874048" "W1 \<le> 153122477524910080" "W2 \<le> 117093680505946112" "W3 \<le> 81064883486982144" "W4 \<le> 45036017748541440"
    using assms(1) by (simp_all only: words_fit_def Wd)
  have wW: "unat w0 = W0" "unat w1 = W1" "unat w2 = W2" "unat w3 = W3" "unat w4 = W4"
    using assms(2) by (simp_all add: wd Wd)
  define C0 C1 C2 C3 C4 where C: "C0 = W0 div 2 ^ 26" "C1 = (W1 + C0) div 2 ^ 26" "C2 = (W2 + C1) div 2 ^ 26"
    "C3 = (W3 + C2) div 2 ^ 26" "C4 = (W4 + C3) div 2 ^ 26"
  have cb: "C0 \<le> 2818573632" "C1 \<le> 2281702762" "C2 \<le> 1744831842" "C3 \<le> 1207960922" "C4 \<le> 671088978"
  proof -
    show c0: "C0 \<le> 2818573632" using div_le_mono [OF B(1), of "2 ^ 26"] unfolding C by simp
    show c1: "C1 \<le> 2281702762" using div_le_mono [OF add_le_mono [OF B(2) c0], of "2 ^ 26"] unfolding C(2) by simp
    show c2: "C2 \<le> 1744831842" using div_le_mono [OF add_le_mono [OF B(3) c1], of "2 ^ 26"] unfolding C(3) by simp
    show c3: "C3 \<le> 1207960922" using div_le_mono [OF add_le_mono [OF B(4) c2], of "2 ^ 26"] unfolding C(4) by simp
    show "C4 \<le> 671088978" using div_le_mono [OF add_le_mono [OF B(5) c3], of "2 ^ 26"] unfolding C(5) by simp
  qed
  define v1 v2 v3 v4 where v: "v1 = w1 + drop_bit 26 w0" "v2 = w2 + drop_bit 26 v1" "v3 = w3 + drop_bit 26 v2" "v4 = w4 + drop_bit 26 v3"
  have dr: "unat (drop_bit 26 x) = unat x div 2 ^ 26" for x :: u64 by (subst unat_drop_bit_eq) (rule drop_bit_eq_div)
  have vV: "unat v1 = W1 + C0" "unat v2 = W2 + C1" "unat v3 = W3 + C2" "unat v4 = W4 + C3"
  proof -
    show v1: "unat v1 = W1 + C0" unfolding v C(1) wW(1,2) [symmetric] dr [symmetric]
      by (rule unat_add64) (use B(1,2) cb(1) wW in \<open>simp add: dr C(1)\<close>)
    show v2: "unat v2 = W2 + C1" unfolding v(2) C(2) v1 [symmetric] wW(3) [symmetric] dr [symmetric]
      by (rule unat_add64) (use B(3) cb(2) wW v1 in \<open>simp add: dr C(2)\<close>)
    show v3: "unat v3 = W3 + C2" unfolding v(3) C(3) v2 [symmetric] wW(4) [symmetric] dr [symmetric]
      by (rule unat_add64) (use B(4) cb(3) wW v2 in \<open>simp add: dr C(3)\<close>)
    show "unat v4 = W4 + C3" unfolding v(4) C(4) v3 [symmetric] wW(5) [symmetric] dr [symmetric]
      by (rule unat_add64) (use B(5) cb(4) wW v3 in \<open>simp add: dr C(4)\<close>)
  qed
  define b0 :: u32 where "b0 = (ucast w0 AND 0x3FFFFFF) + ucast (drop_bit 26 v4) * 5"
  have b0: "unat b0 = W0 mod 2 ^ 26 + C4 * 5"
  proof -
    have c: "unat (ucast (drop_bit 26 v4) :: u32) = C4"
      using cb(5) vV(4) by (simp add: unsigned_ucast_eq dr C(5) take_bit_nat_eq_self)
    have m: "unat (ucast (drop_bit 26 v4) * 5 :: u32) = C4 * 5" using cb(5) c by (simp add: unat_word_ariths)
    have l: "unat (ucast w0 AND 0x3FFFFFF :: u32) = W0 mod 2 ^ 26" by (simp only: unat_low26 wW)
    have "W0 mod 2 ^ 26 < 2 ^ 26" by simp
    then have "W0 mod 2 ^ 26 + C4 * 5 < 2 ^ 32" using cb(5) by simp
    then show ?thesis unfolding b0_def by (rule unat_add32 [of "ucast w0 AND 0x3FFFFFF" "ucast (drop_bit 26 v4) * 5", unfolded l m])
  qed
  have db: "unat (drop_bit 26 b0) = unat b0 div 2 ^ 26" by (subst unat_drop_bit_eq) (rule drop_bit_eq_div)
  have mb: "unat (b0 AND 0x3FFFFFF) = unat b0 mod 2 ^ 26" by (simp only: and_mask26) (simp add: take_bit_eq_mod)
  have b0l: "unat b0 div 2 ^ 26 < 64" using unsigned_less [of b0, where ?'a = nat] by (simp add: div_less_iff_less_mult)
  have eq: "carry_words w = [b0 AND 0x3FFFFFF, (ucast v1 AND 0x3FFFFFF) + drop_bit 26 b0, ucast v2 AND 0x3FFFFFF,
      ucast v3 AND 0x3FFFFFF, ucast v4 AND 0x3FFFFFF]"
    unfolding carry_words_def Let_def b0_def v wd ..
  have n1: "unat ((ucast v1 AND 0x3FFFFFF) + drop_bit 26 b0) = (W1 + C0) mod 2 ^ 26 + unat b0 div 2 ^ 26"
  proof -
    have l: "unat (ucast v1 AND 0x3FFFFFF :: u32) = (W1 + C0) mod 2 ^ 26" by (simp only: unat_low26 vV)
    have "(W1 + C0) mod 2 ^ 26 < 2 ^ 26" by simp
    then have "(W1 + C0) mod 2 ^ 26 + unat b0 div 2 ^ 26 < 2 ^ 32" using b0l by simp
    then show ?thesis by (rule unat_add32 [of "ucast v1 AND 0x3FFFFFF" "drop_bit 26 b0", unfolded l db])
  qed
  have n: "unat (carry_words w ! 0) = unat b0 mod 2 ^ 26" "unat (carry_words w ! 1) = (W1 + C0) mod 2 ^ 26 + unat b0 div 2 ^ 26"
      "unat (carry_words w ! 2) = (W2 + C1) mod 2 ^ 26" "unat (carry_words w ! 3) = (W3 + C2) mod 2 ^ 26"
      "unat (carry_words w ! 4) = (W4 + C3) mod 2 ^ 26"
    unfolding eq using n1 mb vV by (simp_all add: unat_low26)
  have "(W1 + C0) mod 2 ^ 26 < 2 ^ 26" by simp
  then show "acc_ok (carry_words w)"
    unfolding acc_ok_def n using b0l by (simp add: eq)
  show "\<exists>c. limbs_val (carry_words w) + c * 2 ^ 130 = W ! 0 + W ! 1 * 2 ^ 26 + W ! 2 * 2 ^ 52 + W ! 3 * 2 ^ 78 + W ! 4 * 2 ^ 104 + 5 * c"
    using carry_identity [of W0 W4 W3 W2 W1, folded C] unfolding limbs_val_def n b0 Wd [symmetric]
    by (intro exI [of _ C4]) simp
qed

lemma poly1305_mult_val:
  assumes "below (2 ^ 27 + 64) a" "below (2 ^ 26) r"
  shows "acc_ok (poly1305_mult a r)" "\<exists>k. limbs_val (poly1305_mult a r) + k * prime1305 = limbs_val a * limbs_val r"
proof -
  define A where "A i = unat (a ! i)" for i
  define R where "R i = unat (r ! i)" for i
  have fit: "words_fit (mult_nums A R)"
    using assms by (intro mult_nums_fit) (simp_all add: below_def A_def R_def)
  have "map unat (mult_words a r) = mult_nums A R"
    using mult_words_num [OF assms(2), of a] fit by (simp add: A_def [abs_def] R_def [abs_def])
  moreover have "length (mult_words a r) = 5" by (simp add: mult_words_def)
  ultimately have "unat (mult_words a r ! i) = mult_nums A R ! i" if "i < 5" for i using that by (metis nth_map)
  note c = carry_words_val [OF fit this, folded poly1305_mult_words]
  show "acc_ok (poly1305_mult a r)" by (rule c(1))
  let ?K = "A 1 * R 4 + A 2 * R 3 + A 3 * R 2 + A 4 * R 1 + (A 2 * R 4 + A 3 * R 3 + A 4 * R 2) * 2 ^ 26 + (A 3 * R 4 + A 4 * R 3) * 2 ^ 52 + A 4 * R 4 * 2 ^ 78"
  let ?V = "mult_nums A R ! 0 + mult_nums A R ! 1 * 2 ^ 26 + mult_nums A R ! 2 * 2 ^ 52 + mult_nums A R ! 3 * 2 ^ 78 + mult_nums A R ! 4 * 2 ^ 104"
  obtain q where "limbs_val (poly1305_mult a r) + q * 2 ^ 130 = ?V + 5 * q" using c(2) by blast
  moreover have "limbs_val a * limbs_val r + 5 * ?K = ?V + 2 ^ 130 * ?K"
    using mult_identity [of "A 0" "A 1" "A 2" "A 3" "A 4" "R 0" "R 1" "R 2" "R 3" "R 4"]
    by (simp add: limbs_val_def A_def R_def mult_nums_def)
  ultimately have "limbs_val (poly1305_mult a r) + (q + ?K) * prime1305 = limbs_val a * limbs_val r"
    by (simp add: prime1305_def algebra_simps)
  then show "\<exists>k. limbs_val (poly1305_mult a r) + k * prime1305 = limbs_val a * limbs_val r" by blast
qed

section \<open>The whole message\<close>

lemma length_pad16: "16 dvd length (pad16 bs)"
proof -
  define q m where "q = length bs div 16" and "m = length bs mod 16"
  have l: "length bs = 16 * q + m" by (simp add: q_def m_def)
  have m: "m < 16" by (simp add: m_def)
  have "length (pad16 bs) = 16 * q + m + (16 - m) mod 16" unfolding pad16_def m_def [symmetric] by (simp add: l)
  moreover have "m + (16 - m) mod 16 = (if m = 0 then 0 else 16)" using m by simp
  ultimately have "length (pad16 bs) = 16 * (if m = 0 then q else q + 1)" by (simp split: if_splits)
  then show ?thesis by (metis dvd_triv_left)
qed

lemma pad16_step:
  assumes "data \<noteq> []"
  defines "buf \<equiv> if length data < 16 then data @ replicate (16 - length data) 0 else data"
  shows "16 \<le> length buf" "take 16 (pad16 data) = take 16 buf" "drop 16 (pad16 data) = pad16 (drop 16 data)" "pad16 data \<noteq> []"
proof -
  show "16 \<le> length buf" by (auto simp: buf_def)
  show "pad16 data \<noteq> []" using assms by (simp add: pad16_def)
  show "take 16 (pad16 data) = take 16 buf"
    using assms(1) by (auto simp: buf_def pad16_def)
  show "drop 16 (pad16 data) = pad16 (drop 16 data)"
  proof (cases "length data < 16")
    case True
    with assms(1) show ?thesis by (simp add: pad16_def)
  next
    case False
    then have "length data mod 16 = (length data - 16) mod 16" by (simp add: le_mod_geq)
    with False show ?thesis by (simp add: pad16_def)
  qed
qed

lemma poly1305_add_take: "16 \<le> length buf \<Longrightarrow> poly1305_add a buf = poly1305_add a (take 16 buf)"
  by (simp add: poly1305_add_def dec32le_at_def br_dec32le_def)

lemma poly1305_inner_val:
  assumes "below (2 ^ 26) r"
  shows "acc_ok a \<Longrightarrow> acc_ok (poly1305_inner a r data) \<and>
    limbs_val (poly1305_inner a r data) mod prime1305 = rfc_poly (limbs_val a mod prime1305) (limbs_val r) (pad16 data)"
proof (induction "length data" arbitrary: a data rule: less_induct)
  case less
  show ?case
  proof (cases "data = []")
    case True
    with less.prems show ?thesis
      by (subst poly1305_inner.simps, subst rfc_poly.simps) (simp add: poly1305_inner.simps pad16_def)
  next
    case False
    define buf where "buf = (if length data < 16 then data @ replicate (16 - length data) 0 else data)"
    note b = pad16_step [OF False, folded buf_def]
    define blk where "blk = take 16 buf"
    have bl: "length blk = 16" using b(1) by (simp add: blk_def)
    note add = poly1305_add_val [OF less.prems bl]
    define a' where "a' = poly1305_mult (poly1305_add a blk) r"
    note m = poly1305_mult_val [OF add(1) assms, folded a'_def]
    have st: "poly1305_inner a r data = poly1305_inner a' r (drop 16 data)"
      using False poly1305_add_take [OF b(1)]
      by (subst poly1305_inner.simps) (simp add: buf_def [symmetric] a'_def blk_def)
    have "limbs_val a' mod prime1305 = (limbs_val a mod prime1305 + le_num blk + 2 ^ (8 * length blk)) * limbs_val r mod prime1305"
    proof -
      obtain k where "limbs_val a' + k * prime1305 = (limbs_val a + le_num blk + 2 ^ 128) * limbs_val r"
        using m(2) add(2) by auto
      then have "limbs_val a' mod prime1305 = (limbs_val a + le_num blk + 2 ^ 128) * limbs_val r mod prime1305"
        by (metis mod_mult_self1)
      also have "\<dots> = (limbs_val a mod prime1305 + le_num blk + 2 ^ 128) * limbs_val r mod prime1305"
        by (metis (no_types) add.assoc mod_add_left_eq mod_mult_left_eq)
      finally show ?thesis by (simp add: bl)
    qed
    moreover have "rfc_poly (limbs_val a mod prime1305) (limbs_val r) (pad16 data)
        = rfc_poly ((limbs_val a mod prime1305 + le_num blk + 2 ^ (8 * length blk)) * limbs_val r mod prime1305) (limbs_val r) (pad16 (drop 16 data))"
      using b by (subst rfc_poly.simps) (simp add: blk_def Let_def)
    moreover have "length (drop 16 data) < length data" using False by simp
    ultimately show ?thesis using less.hyps [OF _ m(1)] st by simp
  qed
qed

lemma rfc_poly_append: "16 dvd length xs \<Longrightarrow> rfc_poly a r (xs @ ys) = rfc_poly (rfc_poly a r xs) r ys"
proof (induction "length xs" arbitrary: a xs rule: less_induct)
  case less
  show ?case
  proof (cases "xs = []")
    case True
    then show ?thesis by (simp add: rfc_poly.simps [of a r "[]"])
  next
    case False
    then have l: "16 \<le> length xs" using less.prems by (auto intro: dvd_imp_le)
    then have "16 dvd length (drop 16 xs)" "length (drop 16 xs) < length xs" using less.prems by auto
    note IH = less.hyps [OF this(2,1)]
    show ?thesis
      using l False IH by (subst rfc_poly.simps, subst (2) rfc_poly.simps) (simp add: Let_def)
  qed
qed

lemma enc64le_le_bytes: "br_enc64le (of_nat n) = le_bytes n 8"
proof -
  have "le_num (br_enc64le (of_nat n)) = n mod 2 ^ 64"
  proof -
    define w :: u64 where "w = of_nat n"
    have "le_num (br_enc64le w) = unat (ucast w :: u32) + 2 ^ 32 * unat (ucast (drop_bit 32 w) :: u32)"
      by (simp add: br_enc64le_def le_num_append le_num_enc32le)
    also have "\<dots> = unat w mod 2 ^ 32 + 2 ^ 32 * (unat w div 2 ^ 32 mod 2 ^ 32)"
    proof -
      have "unat (drop_bit 32 w) = unat w div 2 ^ 32" by (subst unat_drop_bit_eq) (rule drop_bit_eq_div)
      moreover have "unat (ucast x :: u32) = unat x mod 2 ^ 32" for x :: u64
        by (simp only: unsigned_ucast_eq take_bit_eq_mod) simp
      ultimately show ?thesis by (simp only:)
    qed
    also have "\<dots> = unat w"
    proof -
      have "unat w < 2 ^ 64" using unsigned_less [of w, where ?'a = nat] by simp
      then have "unat w div 2 ^ 32 mod 2 ^ 32 = unat w div 2 ^ 32" by (simp add: div_less_iff_less_mult)
      then show ?thesis by (simp only: mod_mult_div_eq)
    qed
    finally show ?thesis by (simp add: w_def unat_of_nat)
  qed
  then have "le_bytes (n mod 2 ^ 64) 8 = br_enc64le (of_nat n)" using le_bytes_le_num [of "br_enc64le (of_nat n)"] by simp
  moreover have "le_bytes (n mod 2 ^ 64) 8 = le_bytes n 8"
    using le_bytes_le_num [of "le_bytes n 8"] by (simp add: le_num_le_bytes)
  ultimately show ?thesis by simp
qed

lemma pad16_full: "16 dvd length xs \<Longrightarrow> pad16 xs = xs"
  by (simp add: pad16_def dvd_eq_mod_eq_0)

lemma poly1305_acc_val:
  assumes "below (2 ^ 26) (poly1305_r pkey)"
  shows "acc_ok (poly1305_acc pkey aad data)"
    "limbs_val (poly1305_acc pkey aad data) mod prime1305 = rfc_poly 0 (limbs_val (poly1305_r pkey)) (rfc_mac_data aad data)"
proof -
  let ?r = "poly1305_r pkey"
  define foot where "foot = br_enc64le (of_nat (length aad)) @ br_enc64le (of_nat (length data))"
  define a1 where "a1 = poly1305_inner [0, 0, 0, 0, 0] ?r aad"
  define a2 where "a2 = poly1305_inner a1 ?r data"
  have "acc_ok [0, 0, 0, 0, 0]" "limbs_val [0, 0, 0, 0, 0] mod prime1305 = 0" by (simp_all add: acc_ok_def limbs_val_def)
  then have s1: "acc_ok a1" "limbs_val a1 mod prime1305 = rfc_poly 0 (limbs_val ?r) (pad16 aad)"
    using poly1305_inner_val [OF assms, of "[0, 0, 0, 0, 0]" aad] by (simp_all add: a1_def)
  then have s2: "acc_ok a2" "limbs_val a2 mod prime1305 = rfc_poly (rfc_poly 0 (limbs_val ?r) (pad16 aad)) (limbs_val ?r) (pad16 data)"
    using poly1305_inner_val [OF assms s1(1), of data] by (simp_all add: a2_def)
  have f: "pad16 foot = le_bytes (length aad) 8 @ le_bytes (length data) 8"
    by (simp add: foot_def enc64le_le_bytes pad16_full)
  have eq: "poly1305_acc pkey aad data = poly1305_inner a2 ?r foot" by (simp add: poly1305_acc_def a2_def a1_def foot_def Let_def)
  show "acc_ok (poly1305_acc pkey aad data)" using poly1305_inner_val [OF assms s2(1), of foot] by (simp add: eq)
  show "limbs_val (poly1305_acc pkey aad data) mod prime1305 = rfc_poly 0 (limbs_val ?r) (rfc_mac_data aad data)"
    using poly1305_inner_val [OF assms s2(1), of foot] s2(2) f
    by (simp add: eq rfc_mac_data_def rfc_poly_append [OF length_pad16])
qed

end
