(* ===== verification/Chapol.thy ===== *)
theory Chapol
  imports Poly1305
begin

text \<open>
  The end of \<open>br_poly1305_ctmul_run\<close>: the clamped multiplier, the last carry propagation, the
  reduction and the tag, each related to the number the limbs stand for; and the whole function
  against the AEAD construction of RFC 8439, section 2.8.
\<close>

unbundle bit_operations_syntax

section \<open>The clamped multiplier\<close>

abbreviation clamp :: nat where "clamp \<equiv> 0x0ffffffc0ffffffc0ffffffc0fffffff"

lemma clamp_limbs:
  "take_bit 26 clamp = 0x3FFFFFF" "take_bit 26 (drop_bit 26 clamp) = 0x3FFFF03" "take_bit 26 (drop_bit 52 clamp) = 0x3FFC0FF"
  "take_bit 26 (drop_bit 78 clamp) = 0x3F03FFF" "drop_bit 104 clamp = 0xFFFFF"
  by simp_all

lemma clamped_limb:
  fixes bs :: "byte list"
  assumes "k + 4 \<le> length bs" "s + 26 \<le> 32" "8 * k + s = j"
    and "\<And>w :: u32. w AND M = (w AND 0x3FFFFFF) AND M" "unat M = take_bit 26 (drop_bit j clamp)"
  shows "unat (drop_bit s (dec32le_at bs k) AND M) = take_bit 26 (drop_bit j (le_num bs AND clamp))"
  using assms(3,5) limb_bits [OF assms(1,2)]
  by (simp only: assms(4) [of "drop_bit s _"] unsigned_and_eq drop_bit_and take_bit_and)

lemma poly1305_r_val:
  assumes "length pkey = 32"
  shows "below (2 ^ 26) (poly1305_r pkey)" "limbs_val (poly1305_r pkey) = le_num (take 16 pkey) AND clamp"
proof -
  define bs where "bs = take 16 pkey"
  let ?n = "le_num bs AND clamp"
  have l: "length bs = 16" using assms by (simp add: bs_def)
  have d: "dec32le_at pkey k = dec32le_at bs k" if "k \<le> 12" for k
    using that assms by (simp add: dec32le_at_def br_dec32le_def bs_def)
  have r: "unat (poly1305_r pkey ! 0) = take_bit 26 ?n" "unat (poly1305_r pkey ! 1) = take_bit 26 (drop_bit 26 ?n)"
      "unat (poly1305_r pkey ! 2) = take_bit 26 (drop_bit 52 ?n)" "unat (poly1305_r pkey ! 3) = take_bit 26 (drop_bit 78 ?n)"
    using clamped_limb [of 0 bs 0 0 "0x3FFFFFF"] clamped_limb [of 3 bs 2 26 "0x3FFFF03"]
      clamped_limb [of 6 bs 4 52 "0x3FFC0FF"] clamped_limb [of 9 bs 6 78 "0x3F03FFF"] l
    unfolding poly1305_r_def by (simp_all add: d clamp_limbs and.assoc)
  have r4: "unat (poly1305_r pkey ! 4) = drop_bit 104 ?n"
  proof -
    have "le_num bs < 2 ^ 128" using le_num_less [of bs] l by simp
    then have "drop_bit 96 (le_num bs) < 2 ^ 32" by (simp add: drop_bit_eq_div div_less_iff_less_mult)
    then have "unat (drop_bit 8 (dec32le_at bs 12)) = drop_bit 104 (le_num bs)"
      using l by (simp add: unat_drop_bit_eq dec_bits take_bit_nat_eq_self)
    then show ?thesis unfolding poly1305_r_def by (simp add: d unsigned_and_eq drop_bit_and)
  qed
  have t: "take_bit 26 m < 2 ^ 26" for m :: nat by (rule take_bit_nat_less_exp)
  have "drop_bit 104 ?n = drop_bit 104 (le_num bs) AND 0xFFFFF" by (simp add: drop_bit_and)
  also have "\<dots> = drop_bit 104 (le_num bs) AND mask 20" by (simp add: mask_eq_exp_minus_1)
  also have "\<dots> < 2 ^ 20" by (simp only: take_bit_eq_mask [symmetric] take_bit_nat_less_exp)
  finally have "drop_bit 104 ?n < 2 ^ 26" by simp
  then show "below (2 ^ 26) (poly1305_r pkey)"
    unfolding below_def r r4 by (intro conjI t)
  show "limbs_val (poly1305_r pkey) = le_num (take 16 pkey) AND clamp"
    unfolding limbs_val_def r r4 bs_def [symmetric] by (rule split_limbs)
qed

section \<open>The last carries\<close>

text \<open>A carry out of the top limb, which the loop adds to the lowest limb without the factor 5.\<close>

definition carry_lost :: "u32 list \<Rightarrow> bool" where
  "carry_lost a \<longleftrightarrow> 0x4000000 \<le> a ! 1 \<and> a ! 2 = 0x3FFFFFF \<and> a ! 3 = 0x3FFFFFF \<and> a ! 4 = 0x3FFFFFF"

lemma five_limbs:
  assumes "length a = 5"
  obtains a0 a1 a2 a3 a4 where "a = [a0, a1, a2, a3, a4]"
  using assms by (auto simp: eval_nat_numeral length_Suc_conv)

text \<open>One limb with its incoming carry.\<close>

lemma carry_step:
  fixes x c :: u32
  assumes "unat x + unat c < 2 ^ 32"
  shows "unat ((x + c) AND 0x3FFFFFF) = (unat x + unat c) mod 2 ^ 26" "unat (drop_bit 26 (x + c)) = (unat x + unat c) div 2 ^ 26"
proof -
  have s: "unat (x + c) = unat x + unat c" using assms by (rule unat_add32)
  show "unat ((x + c) AND 0x3FFFFFF) = (unat x + unat c) mod 2 ^ 26"
    by (simp only: and_mask26 s) (simp add: take_bit_eq_mod)
  show "unat (drop_bit 26 (x + c)) = (unat x + unat c) div 2 ^ 26"
    by (subst unat_drop_bit_eq, subst s) (rule drop_bit_eq_div)
qed

lemma carry_chain:
  fixes b1 b2 b3 b4 :: nat
  assumes "b1 < 2 ^ 26 + 64" "b2 < 2 ^ 26" "b3 < 2 ^ 26" "b4 < 2 ^ 26"
    and "\<not> (2 ^ 26 \<le> b1 \<and> b2 = 2 ^ 26 - 1 \<and> b3 = 2 ^ 26 - 1 \<and> b4 = 2 ^ 26 - 1)"
  defines "c1 \<equiv> b1 div 2 ^ 26"
  defines "c2 \<equiv> (b2 + c1) div 2 ^ 26"
  defines "c3 \<equiv> (b3 + c2) div 2 ^ 26"
  shows "c1 \<le> 1" "c2 \<le> 1" "c3 \<le> 1" "(b4 + c3) div 2 ^ 26 = 0"
    "b1 mod 2 ^ 26 * 2 ^ 26 + (b2 + c1) mod 2 ^ 26 * 2 ^ 52 + (b3 + c2) mod 2 ^ 26 * 2 ^ 78 + (b4 + c3) mod 2 ^ 26 * 2 ^ 104
      = b1 * 2 ^ 26 + b2 * 2 ^ 52 + b3 * 2 ^ 78 + b4 * 2 ^ 104"
proof -
  have d: "x div 2 ^ 26 = (if x < 2 ^ 26 then 0 else 1)" if "x < 2 ^ 27" for x :: nat
  proof (cases "x < 2 ^ 26")
    case False
    then show ?thesis using that by (simp add: div_nat_eqI)
  qed simp
  have c1: "c1 = (if b1 < 2 ^ 26 then 0 else 1)" unfolding c1_def by (rule d) (use assms(1) in simp)
  have c2: "c2 = (if b2 + c1 < 2 ^ 26 then 0 else 1)" unfolding c2_def by (rule d) (use assms(2) c1 in simp)
  have c3: "c3 = (if b3 + c2 < 2 ^ 26 then 0 else 1)" unfolding c3_def by (rule d) (use assms(3) c2 in simp)
  show "c1 \<le> 1" "c2 \<le> 1" "c3 \<le> 1" by (simp_all add: c1 c2 c3)
  have "b4 + c3 < 2 ^ 26" using assms(2-5) c1 c2 c3 by (auto split: if_splits)
  then show z: "(b4 + c3) div 2 ^ 26 = 0" by simp
  have s: "x mod 2 ^ 26 + 2 ^ 26 * (x div 2 ^ 26) = x" for x :: nat by simp
  have "b1 mod 2 ^ 26 + 2 ^ 26 * c1 = b1" "(b2 + c1) mod 2 ^ 26 + 2 ^ 26 * c2 = b2 + c1"
      "(b3 + c2) mod 2 ^ 26 + 2 ^ 26 * c3 = b3 + c2" "(b4 + c3) mod 2 ^ 26 = b4 + c3"
    using s [of b1] s [of "b2 + c1"] s [of "b3 + c2"] s [of "b4 + c3"] z by (simp_all only: c1_def c2_def c3_def)
  then show "b1 mod 2 ^ 26 * 2 ^ 26 + (b2 + c1) mod 2 ^ 26 * 2 ^ 52 + (b3 + c2) mod 2 ^ 26 * 2 ^ 78 + (b4 + c3) mod 2 ^ 26 * 2 ^ 104
      = b1 * 2 ^ 26 + b2 * 2 ^ 52 + b3 * 2 ^ 78 + b4 * 2 ^ 104" by (simp only: power_numeral) simp
qed

lemma poly1305_carry_limbs:
  "poly1305_carry [a0, a1, a2, a3, a4] =
    (let t1 = a1 + 0; t2 = a2 + drop_bit 26 t1; t3 = a3 + drop_bit 26 t2; t4 = a4 + drop_bit 26 t3; t5 = a0 + drop_bit 26 t4;
         t6 = (t1 AND 0x3FFFFFF) + drop_bit 26 t5
     in [t5 AND 0x3FFFFFF, t6 AND 0x3FFFFFF, t2 AND 0x3FFFFFF, t3 AND 0x3FFFFFF, t4 AND 0x3FFFFFF])"
  by (simp add: poly1305_carry_def Let_def)

lemma poly1305_carry_val:
  assumes "acc_ok a" "\<not> carry_lost a"
  shows "length (poly1305_carry a) = 5" "below (2 ^ 26) (poly1305_carry a)" "limbs_val (poly1305_carry a) = limbs_val a"
proof -
  obtain a0 a1 a2 a3 a4 where a: "a = [a0, a1, a2, a3, a4]" using assms(1) by (auto simp: acc_ok_def elim: five_limbs)
  define t2 t3 t4 where t: "t2 = a2 + drop_bit 26 a1" "t3 = a3 + drop_bit 26 t2" "t4 = a4 + drop_bit 26 t3"
  have b: "unat a0 < 2 ^ 26" "unat a1 < 2 ^ 26 + 64" "unat a2 < 2 ^ 26" "unat a3 < 2 ^ 26" "unat a4 < 2 ^ 26"
    using assms(1) by (simp_all add: acc_ok_def a)
  have nl: "\<not> (2 ^ 26 \<le> unat a1 \<and> unat a2 = 2 ^ 26 - 1 \<and> unat a3 = 2 ^ 26 - 1 \<and> unat a4 = 2 ^ 26 - 1)"
    using assms(2) by (auto simp: carry_lost_def a word_le_nat_alt word_unat_eq_iff)
  note c = carry_chain [OF b(2-5) nl]
  have m: "unat (w AND 0x3FFFFFF) = unat w mod 2 ^ 26" for w :: u32 by (simp only: and_mask26) (simp add: take_bit_eq_mod)
  have d1: "unat (drop_bit 26 a1) = unat a1 div 2 ^ 26" by (subst unat_drop_bit_eq) (rule drop_bit_eq_div)
  have u2: "unat (t2 AND 0x3FFFFFF) = (unat a2 + unat a1 div 2 ^ 26) mod 2 ^ 26"
      "unat (drop_bit 26 t2) = (unat a2 + unat a1 div 2 ^ 26) div 2 ^ 26"
    using carry_step [of a2 "drop_bit 26 a1", folded t, unfolded d1] b(3) c(1) by simp_all
  have u3: "unat (t3 AND 0x3FFFFFF) = (unat a3 + (unat a2 + unat a1 div 2 ^ 26) div 2 ^ 26) mod 2 ^ 26"
      "unat (drop_bit 26 t3) = (unat a3 + (unat a2 + unat a1 div 2 ^ 26) div 2 ^ 26) div 2 ^ 26"
    using carry_step [of a3 "drop_bit 26 t2", folded t, unfolded u2] b(4) c(2) by simp_all
  have u4: "unat (t4 AND 0x3FFFFFF) = (unat a4 + (unat a3 + (unat a2 + unat a1 div 2 ^ 26) div 2 ^ 26) div 2 ^ 26) mod 2 ^ 26"
      "drop_bit 26 t4 = 0"
    using carry_step [of a4 "drop_bit 26 t3", folded t, unfolded u3] b(5) c(3,4) by (simp_all add: unat_eq_zero del: drop_bit_eq_div)
  have "drop_bit 26 a0 = 0" using b(1) unat_drop_bit_eq [of 26 a0] by (simp add: unat_eq_zero drop_bit_eq_div)
  with u4(2) have eq: "poly1305_carry a = [a0 AND 0x3FFFFFF, a1 AND 0x3FFFFFF, t2 AND 0x3FFFFFF, t3 AND 0x3FFFFFF, t4 AND 0x3FFFFFF]"
    unfolding a poly1305_carry_limbs by (simp add: Let_def and.assoc flip: t)
  show "length (poly1305_carry a) = 5" by (simp add: eq)
  show "below (2 ^ 26) (poly1305_carry a)" by (simp add: below_def eq m)
  show "limbs_val (poly1305_carry a) = limbs_val a"
    using c(5) b(1) unfolding limbs_val_def eq by (simp add: a m [of a0] m [of a1] u2(1) u3(1) u4(1))
qed

text \<open>When the carry leaves the top limb the result is 4 too small.\<close>

lemma poly1305_carry_lost:
  assumes "acc_ok a" "carry_lost a"
  shows "length (poly1305_carry a) = 5" "below (2 ^ 26) (poly1305_carry a)" "limbs_val (poly1305_carry a) + 4 = limbs_val a mod prime1305"
    "limbs_val (poly1305_carry a) < prime1305"
proof -
  obtain a0 a1 a2 a3 a4 where a: "a = [a0, a1, a2, a3, a4]" using assms(1) by (auto simp: acc_ok_def elim: five_limbs)
  have e: "a2 = 0x3FFFFFF" "a3 = 0x3FFFFFF" "a4 = 0x3FFFFFF" and b: "unat a0 < 2 ^ 26" "unat a1 < 2 ^ 26 + 64" "2 ^ 26 \<le> unat a1"
    using assms by (simp_all add: acc_ok_def carry_lost_def a word_le_nat_alt)
  define h where "h = unat a1 - 2 ^ 26"
  have h: "unat a1 = 2 ^ 26 + h" "h < 64" using b by (simp_all add: h_def)
  have m: "unat (a1 AND 0x3FFFFFF) = h" using h by (simp only: and_mask26) (simp add: take_bit_eq_mod)
  have "unat (drop_bit 26 a1) = 1" using h by (subst unat_drop_bit_eq) (simp add: drop_bit_eq_div)
  then have d: "drop_bit 26 a1 = 1" by (metis unat_1 word_unat_eq_iff)
  have eq: "poly1305_carry a = [(a0 + 1) AND 0x3FFFFFF, ((a1 AND 0x3FFFFFF) + drop_bit 26 (a0 + 1)) AND 0x3FFFFFF, 0, 0, 0]"
    unfolding a e poly1305_carry_limbs Let_def add_0_right d by simp
  have s1: "unat (((a1 AND 0x3FFFFFF) + drop_bit 26 (a0 + 1)) AND 0x3FFFFFF) = h + (unat a0 + 1) div 2 ^ 26"
  proof -
    have "(unat a0 + 1) div 2 ^ 26 \<le> 1" using b(1) by (simp add: less_Suc_eq_le [symmetric] div_less_iff_less_mult)
    then show ?thesis
      using carry_step(1) [of "a1 AND 0x3FFFFFF" "drop_bit 26 (a0 + 1)"] carry_step(2) [of a0 1] b(1) h(2) by (simp add: m)
  qed
  have v: "limbs_val (poly1305_carry a) = unat a0 + 1 + h * 2 ^ 26"
    using s1 carry_step(1) [of a0 1] b(1) unfolding limbs_val_def eq by (simp add: algebra_simps)
  have t: "unat (w AND 0x3FFFFFF :: u32) < 2 ^ 26" for w unfolding and_mask26 by (rule take_bit_nat_less_exp)
  show "length (poly1305_carry a) = 5" by (simp add: eq)
  show "below (2 ^ 26) (poly1305_carry a)"
    unfolding below_def eq using t [of "a0 + 1"] t [of "(a1 AND 0x3FFFFFF) + drop_bit 26 (a0 + 1)"] by simp
  show "limbs_val (poly1305_carry a) < prime1305" using v h(2) b(1) by (simp add: prime1305_def)
  have "limbs_val a = unat a0 + 5 + h * 2 ^ 26 + prime1305" by (simp add: limbs_val_def a e h(1) prime1305_def)
  then have "limbs_val a mod prime1305 = (unat a0 + 5 + h * 2 ^ 26) mod prime1305" by simp
  also have "\<dots> = unat a0 + 5 + h * 2 ^ 26" using b(1) h(2) by (intro mod_less) (simp add: prime1305_def)
  finally show "limbs_val (poly1305_carry a) + 4 = limbs_val a mod prime1305" using v by simp
qed

section \<open>Reduction\<close>

lemma poly1305_select_val:
  assumes "length a = 5" "below (2 ^ 26) a"
  shows "below (2 ^ 26) (poly1305_select a)" "limbs_val (poly1305_select a) = limbs_val a mod prime1305"
proof -
  obtain a0 a1 a2 a3 a4 where a: "a = [a0, a1, a2, a3, a4]" using assms(1) by (rule five_limbs)
  have b: "unat a0 < 2 ^ 26" "unat a1 < 2 ^ 26" "unat a2 < 2 ^ 26" "unat a3 < 2 ^ 26" "unat a4 < 2 ^ 26"
    using assms(2) by (simp_all add: below_def a)
  define full where "full \<longleftrightarrow> 0x3FFFFFA < a0 \<and> a1 = 0x3FFFFFF \<and> a2 = 0x3FFFFFF \<and> a3 = 0x3FFFFFF \<and> a4 = 0x3FFFFFF"
  have "below (2 ^ 26) (poly1305_select a) \<and> limbs_val (poly1305_select a) = limbs_val a mod prime1305"
  proof (cases full)
    case True
    then have "unat a0 \<in> {0x3FFFFFB, 0x3FFFFFC, 0x3FFFFFD, 0x3FFFFFE, 0x3FFFFFF}"
      using b(1) by (auto simp: full_def word_less_nat_alt)
    then have "a0 \<in> {0x3FFFFFB, 0x3FFFFFC, 0x3FFFFFD, 0x3FFFFFE, 0x3FFFFFF}"
      by (auto simp: word_unat_eq_iff)
    with True show ?thesis
      by (auto simp: full_def a poly1305_select_def below_def limbs_val_def prime1305_def)
  next
    case False
    have "poly1305_select a = a"
      using False unfolding a poly1305_select_def full_def by (auto simp: Let_def)
    moreover have "limbs_val a < prime1305"
      using False b by (auto simp: full_def limbs_val_def a prime1305_def word_less_nat_alt word_unat_eq_iff)
    ultimately show ?thesis using assms(2) by simp
  qed
  then show "below (2 ^ 26) (poly1305_select a)" "limbs_val (poly1305_select a) = limbs_val a mod prime1305" by simp_all
qed

section \<open>The tag\<close>

lemma join_words:
  fixes v0 :: nat
  assumes "m0 + 2 ^ 32 * q0 = v0" "m1 + 2 ^ 32 * q1 = q0 + x1" "m2 + 2 ^ 32 * q2 = q1 + x2" "m3 + 2 ^ 32 * q3 = q2 + x3"
  shows "v0 + x1 * 2 ^ 32 + x2 * 2 ^ 64 + x3 * 2 ^ 96 = m0 + 2 ^ 32 * m1 + 2 ^ 64 * m2 + 2 ^ 96 * m3 + 2 ^ 128 * q3"
  using assms by simp

lemma tag_identity:
  fixes v0 x1 x2 x3 :: nat
  defines "v1 \<equiv> v0 div 2 ^ 32 + x1"
  defines "v2 \<equiv> v1 div 2 ^ 32 + x2"
  defines "v3 \<equiv> v2 div 2 ^ 32 + x3"
  shows "v0 mod 2 ^ 32 + 2 ^ 32 * (v1 mod 2 ^ 32) + 2 ^ 64 * (v2 mod 2 ^ 32) + 2 ^ 96 * (v3 mod 2 ^ 32)
    = (v0 + x1 * 2 ^ 32 + x2 * 2 ^ 64 + x3 * 2 ^ 96) mod 2 ^ 128"
proof -
  let ?t = "v0 mod 2 ^ 32 + 2 ^ 32 * (v1 mod 2 ^ 32) + 2 ^ 64 * (v2 mod 2 ^ 32) + 2 ^ 96 * (v3 mod 2 ^ 32)"
  have s: "x mod 2 ^ 32 + 2 ^ 32 * (x div 2 ^ 32) = x" "x mod 2 ^ 32 < 2 ^ 32" for x :: nat by simp_all
  have "v0 + x1 * 2 ^ 32 + x2 * 2 ^ 64 + x3 * 2 ^ 96 = ?t + 2 ^ 128 * (v3 div 2 ^ 32)"
    by (rule join_words) (use s(1) in \<open>simp_all only: v1_def v2_def v3_def\<close>)
  moreover have "?t < 2 ^ 128" using s(2) [of v0] s(2) [of v1] s(2) [of v2] s(2) [of v3] by simp
  ultimately show ?thesis by simp
qed

lemma drop32_of_nat: "drop_bit 32 w = of_nat (unat (w :: u64) div 2 ^ 32)"
  by (metis drop_bit_eq_div of_nat_unat ucast_id unat_drop_bit_eq)

lemma tag_word:
  fixes a s :: u32
  assumes "m + unat a * 2 ^ n + unat s < 2 ^ 64"
  shows "unat (of_nat m + push_bit n (ucast a) + ucast s :: u64) = m + unat a * 2 ^ n + unat s"
proof -
  have "of_nat m + push_bit n (ucast a) + ucast s = (of_nat (m + unat a * 2 ^ n + unat s) :: u64)"
    by (simp add: push_bit_eq_mult)
  then show ?thesis using assms by (simp only: unat_of_nat) (simp add: take_bit_nat_eq_self)
qed

lemma split_words:
  assumes "n < 2 ^ 128"
  shows "take_bit 32 n + take_bit 32 (drop_bit 32 n) * 2 ^ 32 + take_bit 32 (drop_bit 64 n) * 2 ^ 64
    + take_bit 32 (drop_bit 96 n) * 2 ^ 96 = (n :: nat)"
proof -
  have s: "drop_bit k n = take_bit 32 (drop_bit k n) + 2 ^ 32 * drop_bit (32 + k) n" for k
    by (metis drop_bit_drop_bit drop_bit_eq_div mod_mult_div_eq take_bit_eq_mod)
  have "drop_bit 128 n = 0" using assms by (simp add: drop_bit_eq_div)
  then show ?thesis using s [of 0] s [of 32] s [of 64] s [of 96] by simp
qed

lemma poly1305_tag_val:
  assumes "below (2 ^ 26) a" "length pkey = 32"
  shows "poly1305_tag a pkey = le_bytes ((limbs_val a + le_num (take 16 (drop 16 pkey))) mod 2 ^ 128) 16"
proof -
  define bs where "bs = take 16 (drop 16 pkey)"
  have l: "length bs = 16" using assms(2) by (simp add: bs_def)
  have d: "dec32le_at pkey (16 + k) = dec32le_at bs k" if "k \<le> 12" for k
    using that assms(2) by (simp add: dec32le_at_def br_dec32le_def bs_def add.assoc)
  define s0 s1 s2 s3 where s: "s0 = dec32le_at pkey 16" "s1 = dec32le_at pkey 20" "s2 = dec32le_at pkey 24" "s3 = dec32le_at pkey 28"
  have sb: "unat w < 2 ^ 32" for w :: u32 by (rule unat_u32)
  have n: "le_num bs < 2 ^ 128" using le_num_less [of bs] l by simp
  have S: "unat s0 + unat s1 * 2 ^ 32 + unat s2 * 2 ^ 64 + unat s3 * 2 ^ 96 = le_num bs"
    using split_words [OF n] d [of 0] d [of 4] d [of 8] d [of 12] l by (simp add: s dec_bits)
  have A: "unat (a ! 0) < 2 ^ 26" "unat (a ! 1) < 2 ^ 26" "unat (a ! 2) < 2 ^ 26" "unat (a ! 3) < 2 ^ 26"
    using assms(1) by (simp_all add: below_def)
  define w0 :: u64 where "w0 = ucast (a ! 0) + push_bit 26 (ucast (a ! 1)) + ucast s0"
  define w1 where "w1 = drop_bit 32 w0 + push_bit 20 (ucast (a ! 2)) + ucast s1"
  define w2 where "w2 = drop_bit 32 w1 + push_bit 14 (ucast (a ! 3)) + ucast s2"
  define hi where "hi = ucast (drop_bit 32 w2) + push_bit 8 (a ! 4) + s3"
  have q: "unat w div 2 ^ 32 < 2 ^ 32" for w :: u64
    using unsigned_less [of w, where ?'a = nat] by (simp add: div_less_iff_less_mult)
  have u0: "unat w0 = unat (a ! 0) + unat (a ! 1) * 2 ^ 26 + unat s0"
    using tag_word [of "unat (a ! 0)" "a ! 1" 26 s0] A sb [of s0] by (simp add: w0_def)
  have u1: "unat w1 = unat w0 div 2 ^ 32 + unat (a ! 2) * 2 ^ 20 + unat s1"
    unfolding w1_def drop32_of_nat by (rule tag_word) (use A sb [of s1] q [of w0] in simp)
  have u2: "unat w2 = unat w1 div 2 ^ 32 + unat (a ! 3) * 2 ^ 14 + unat s2"
    unfolding w2_def drop32_of_nat by (rule tag_word) (use A sb [of s2] q [of w1] in simp)
  have u3: "unat hi = (unat w2 div 2 ^ 32 + (unat (a ! 4) * 2 ^ 8 + unat s3)) mod 2 ^ 32"
  proof -
    have "hi = of_nat (unat w2 div 2 ^ 32 + (unat (a ! 4) * 2 ^ 8 + unat s3))"
    proof -
      have "ucast (drop_bit 32 w2) = (of_nat (unat w2 div 2 ^ 32) :: u32)"
        by (metis drop_bit_eq_div of_nat_unat unat_drop_bit_eq)
      then show ?thesis unfolding hi_def by (simp only:) (simp add: push_bit_eq_mult add.assoc)
    qed
    then show ?thesis by (simp only: unat_of_nat) (simp add: take_bit_eq_mod)
  qed
  have lo: "unat (ucast w :: u32) = unat w mod 2 ^ 32" for w :: u64
    by (simp only: unsigned_ucast_eq take_bit_eq_mod) simp
  have "poly1305_tag a pkey = br_enc32le (ucast w0) @ br_enc32le (ucast w1) @ br_enc32le (ucast w2) @ br_enc32le hi"
    by (simp only: poly1305_tag_def Let_def hi_def w2_def w1_def w0_def s)
  then have "le_num (poly1305_tag a pkey)
      = unat w0 mod 2 ^ 32 + 2 ^ 32 * (unat w1 mod 2 ^ 32) + 2 ^ 64 * (unat w2 mod 2 ^ 32) + 2 ^ 96 * unat hi"
    by (simp add: le_num_append lo le_num_enc32le)
  also have "\<dots> = (unat w0 + (unat (a ! 2) * 2 ^ 20 + unat s1) * 2 ^ 32 + (unat (a ! 3) * 2 ^ 14 + unat s2) * 2 ^ 64
      + (unat (a ! 4) * 2 ^ 8 + unat s3) * 2 ^ 96) mod 2 ^ 128"
    unfolding u3 tag_identity [symmetric] u2 u1 by (simp only: add.assoc)
  also have "\<dots> = (limbs_val a + le_num bs) mod 2 ^ 128"
    unfolding S [symmetric] u0 limbs_val_def by (simp add: algebra_simps)
  finally show ?thesis using le_bytes_le_num [of "poly1305_tag a pkey"] by (simp add: bs_def)
qed

section \<open>The AEAD construction\<close>

lemma one_time_key: "fst (br_chacha20_ct_run key iv 0 (replicate 32 0)) = take 32 (rfc_block key iv 0)"
proof -
  have "xor_bytes (replicate (length ks) 0) ks = ks" for ks
    by (induction ks) (simp_all add: xor_bytes_def)
  from this [of "take 32 (rfc_block key iv 0)"] show ?thesis
    by (simp add: br_chacha20_ct_run_def chacha_loop_stream Let_def)
qed

text \<open>The tag the code computes for a one-time key, additional data and ciphertext.\<close>

definition ctmul_mac :: "byte list \<Rightarrow> byte list \<Rightarrow> byte list \<Rightarrow> byte list" where
  "ctmul_mac pkey aad ct = poly1305_tag (poly1305_select (poly1305_carry (poly1305_acc pkey aad ct))) pkey"

lemma ctmul_mac_rfc:
  assumes "length pkey = 32"
  shows "ctmul_mac pkey aad ct = rfc_mac pkey (rfc_mac_data aad ct) \<longleftrightarrow> \<not> carry_lost (poly1305_acc pkey aad ct)"
proof -
  let ?a = "poly1305_acc pkey aad ct" and ?s = "le_num (take 16 (drop 16 pkey))"
  define c where "c = poly1305_carry ?a"
  note acc = poly1305_acc_val [OF poly1305_r_val(1) [OF assms], of aad ct]
  have r: "rfc_mac pkey (rfc_mac_data aad ct) = le_bytes ((limbs_val ?a mod prime1305 + ?s) mod 2 ^ 128) 16"
    by (simp only: rfc_mac_def Let_def acc(2) poly1305_r_val(2) [OF assms])
  have t: "ctmul_mac pkey aad ct = le_bytes ((limbs_val c mod prime1305 + ?s) mod 2 ^ 128) 16" if "length c = 5" "below (2 ^ 26) c"
    using poly1305_select_val [OF that] poly1305_tag_val [OF _ assms] by (simp add: ctmul_mac_def c_def)
  show ?thesis
  proof (cases "carry_lost ?a")
    case False
    with poly1305_carry_val [OF acc(1)] r t show ?thesis by (simp add: c_def)
  next
    case True
    note l = poly1305_carry_lost [OF acc(1) True, folded c_def]
    have "le_num (rfc_mac pkey (rfc_mac_data aad ct)) = (limbs_val c + 4 + ?s) mod 2 ^ 128"
      by (simp add: r le_num_le_bytes l(3) [symmetric])
    moreover have "le_num (ctmul_mac pkey aad ct) = (limbs_val c + ?s) mod 2 ^ 128"
      using t l(1,2,4) by (simp add: le_num_le_bytes)
    moreover have "(x + 4 + y) mod 2 ^ 128 \<noteq> (x + y) mod 2 ^ 128" for x y :: nat
    proof
      assume "(x + 4 + y) mod 2 ^ 128 = (x + y) mod 2 ^ 128"
      then have "2 ^ 128 dvd (x + 4 + y) - (x + y)" by (metis mod_eq_dvd_iff_nat add.assoc add.commute le_add1)
      then show False by (auto dest: dvd_imp_le)
    qed
    ultimately show ?thesis using True by metis
  qed
qed

text \<open>
  C5. ChaCha20+Poly1305 against RFC 8439: for every key, nonce, plaintext and additional data, the
  ciphertext and tag of \<open>br_poly1305_ctmul_run\<close> over \<open>br_chacha20_ct_run\<close> are those of the RFC's AEAD
  construction, and decryption of that ciphertext gives the plaintext and the same tag, in all cases
  but one, and only then: the accumulator has a carry that runs through all limbs at the end.
\<close>

theorem chapol_is_rfc8439:
  "let (ct, tag) = rfc_aead_encrypt key iv data aad;
       lost = carry_lost (poly1305_acc (take 32 (rfc_block key iv 0)) aad ct)
   in fst (br_poly1305_ctmul_run key iv data aad br_chacha20_ct_run True) = ct
      \<and> fst (br_poly1305_ctmul_run key iv ct aad br_chacha20_ct_run False) = data
      \<and> (snd (br_poly1305_ctmul_run key iv data aad br_chacha20_ct_run True) = tag \<longleftrightarrow> \<not> lost)
      \<and> (snd (br_poly1305_ctmul_run key iv ct aad br_chacha20_ct_run False) = tag \<longleftrightarrow> \<not> lost)"
proof -
  let ?pkey = "take 32 (rfc_block key iv 0)"
  define ct where "ct = fst (br_chacha20_ct_run key iv 1 data)"
  have e: "rfc_aead_encrypt key iv data aad = (ct, rfc_mac ?pkey (rfc_mac_data aad ct))"
    by (simp add: rfc_aead_encrypt_def ct_def br_chacha20_ct_run_def chacha_loop_stream Let_def)
  have "br_poly1305_ctmul_run key iv data aad br_chacha20_ct_run True = (ct, ctmul_mac ?pkey aad ct)"
    "br_poly1305_ctmul_run key iv ct aad br_chacha20_ct_run False = (data, ctmul_mac ?pkey aad ct)"
    by (simp_all add: br_poly1305_ctmul_run_def one_time_key ctmul_mac_def ct_def chacha_run_twice Let_def)
  then show ?thesis using ctmul_mac_rfc [of ?pkey aad ct] by (simp add: e)
qed

text \<open>The exception exists: a one-time key with \<open>r = 2\<close>, no additional data and one block of ciphertext.\<close>

lemma carry_lost_reachable:
  defines "otk \<equiv> 2 # replicate 31 0" and "ct \<equiv> replicate 8 0xFF @ [0xF7] @ replicate 6 0xFF @ [0x7F]"
  shows "carry_lost (poly1305_acc otk [] ct)" "ctmul_mac otk [] ct \<noteq> rfc_mac otk (rfc_mac_data [] ct)"
proof -
  show "carry_lost (poly1305_acc otk [] ct)" unfolding otk_def ct_def by code_simp
  then show "ctmul_mac otk [] ct \<noteq> rfc_mac otk (rfc_mac_data [] ct)" by (simp add: ctmul_mac_rfc otk_def)
qed

end
