(* ===== verification/Hash_Class.thy ===== *)
theory Hash_Class
  imports Codec
begin

text \<open>
  Hash functions as the rest of BearSSL sees them: the virtual table \<open>br_hash_class\<close> of
  \<^verbatim>\<open>inc/bearssl_hash.h\<close> and the contract \<open>hash_fun\<close> of its functions, which the clients (HMAC, PRF,
  HKDF, DRBG) use; and the Merkle-Damgard construction that \<^verbatim>\<open>md5.c\<close>, \<^verbatim>\<open>sha1.c\<close>, \<^verbatim>\<open>sha2small.c\<close> and
  \<^verbatim>\<open>sha2big.c\<close> have in common: a buffer for an incomplete block, the loop that fills it, and the final
  padding. The locale \<open>md_fun\<close> has the laws of these four files, and gives \<open>hash_fun\<close>.

  A context has the three fields that the files declare. The contents of the buffer of a new
  context are zeros here and unspecified in C; they are overwritten before they are read.
\<close>

unbundle bit_operations_syntax

section \<open>The virtual table\<close>

record 'w hash_ctx =
  hbuf :: "byte list"
  hcount :: u64
  hval :: "'w list"

record 'h hash_class =
  desc :: u32
  hc_init :: 'h
  hc_update :: "'h \<Rightarrow> byte list \<Rightarrow> 'h"
  hc_out :: "'h \<Rightarrow> byte list"
  hc_state :: "'h \<Rightarrow> byte list \<times> u64"
  hc_set_state :: "'h \<Rightarrow> byte list \<Rightarrow> u64 \<Rightarrow> 'h"

definition BR_HASHDESC_ID :: "u32 \<Rightarrow> u32" where "BR_HASHDESC_ID i = push_bit 0 i"
definition BR_HASHDESC_OUT :: "u32 \<Rightarrow> u32" where "BR_HASHDESC_OUT n = push_bit 8 n"
definition BR_HASHDESC_STATE :: "u32 \<Rightarrow> u32" where "BR_HASHDESC_STATE n = push_bit 15 n"
definition BR_HASHDESC_LBLEN :: "u32 \<Rightarrow> u32" where "BR_HASHDESC_LBLEN ls = push_bit 23 ls"
definition BR_HASHDESC_MD_PADDING :: u32 where "BR_HASHDESC_MD_PADDING = push_bit 28 1"
definition BR_HASHDESC_MD_PADDING_128 :: u32 where "BR_HASHDESC_MD_PADDING_128 = push_bit 29 1"
definition BR_HASHDESC_MD_PADDING_BE :: u32 where "BR_HASHDESC_MD_PADDING_BE = push_bit 30 1"

lemmas hashdesc_defs = BR_HASHDESC_ID_def BR_HASHDESC_OUT_def BR_HASHDESC_STATE_def BR_HASHDESC_LBLEN_def
  BR_HASHDESC_MD_PADDING_def BR_HASHDESC_MD_PADDING_128_def BR_HASHDESC_MD_PADDING_BE_def

definition br_digest_size :: "'h hash_class \<Rightarrow> nat" where
  "br_digest_size dig = unat (drop_bit 8 (desc dig) AND 0x7F)"

definition block_size :: "'h hash_class \<Rightarrow> nat" where
  "block_size dig = (let ls = unat (drop_bit 23 (desc dig) AND 0x0F) in push_bit ls 1)"

section \<open>The contract\<close>

text \<open>
  \<open>hashed h m\<close>: the context \<open>h\<close> has been given the bytes \<open>m\<close> since its initialisation. \<open>H\<close> is the hash
  function on messages. The state may be taken out and put back at the end of a block.
\<close>

locale hash_fun =
  fixes dig :: "'h hash_class"
    and H :: "byte list \<Rightarrow> byte list"
    and hashed :: "'h \<Rightarrow> byte list \<Rightarrow> bool"
  assumes init: "hashed (hc_init dig) []"
    and update: "hashed h m \<Longrightarrow> hashed (hc_update dig h d) (m @ d)"
    and out: "hashed h m \<Longrightarrow> hc_out dig h = H m"
    and set_state: "hashed h m \<Longrightarrow> length m = block_size dig \<Longrightarrow> hashed h' m' \<Longrightarrow>
      hashed (hc_set_state dig h' (fst (hc_state dig h)) (of_nat (block_size dig))) m"
    and length_H: "length (H m) = br_digest_size dig"
    and digest_block: "br_digest_size dig \<le> block_size dig"
begin

lemma update_all: "hashed h m \<Longrightarrow> hashed (foldl (hc_update dig) h ds) (m @ concat ds)"
proof (induction ds arbitrary: h m)
  case (Cons d ds)
  then show ?case using Cons.IH [OF update [OF Cons.prems]] by simp
qed simp

lemma hash_chunks: "hc_out dig (foldl (hc_update dig) (hc_init dig) ds) = H (concat ds)"
  using out [OF update_all [OF init]] by simp

end

section \<open>Blocks\<close>

text \<open>The specification: a message cut into blocks, and what is left after the last full one.\<close>

function md_blocks :: "nat \<Rightarrow> (byte list \<Rightarrow> 'v \<Rightarrow> 'v) \<Rightarrow> 'v \<Rightarrow> byte list \<Rightarrow> 'v \<times> byte list" where
  "md_blocks bs f v m = (if bs = 0 \<or> length m < bs then (v, m) else md_blocks bs f (f (take bs m) v) (drop bs m))"
  by pat_completeness auto
termination
  by (relation "measure (\<lambda>(_, _, _, m). length m)") auto

declare md_blocks.simps [simp del]

lemma md_blocks_short: "length m < bs \<Longrightarrow> md_blocks bs f v m = (v, m)"
  by (simp add: md_blocks.simps)

lemma md_blocks_block: "0 < bs \<Longrightarrow> length b = bs \<Longrightarrow> md_blocks bs f v (b @ m) = md_blocks bs f (f b v) m"
  by (subst md_blocks.simps) simp

lemma md_blocks_rest:
  assumes "0 < bs"
  shows "length (snd (md_blocks bs f v m)) = length m mod bs"
proof (induction bs f v m rule: md_blocks.induct)
  case (1 bs f v m)
  show ?case
  proof (cases "bs = 0 \<or> length m < bs")
    case False
    then have "md_blocks bs f v m = md_blocks bs f (f (take bs m) v) (drop bs m)" by (subst md_blocks.simps) simp
    with False "1.IH" show ?thesis by (simp add: le_mod_geq)
  qed (auto simp: md_blocks.simps)
qed

lemma md_blocks_append:
  "md_blocks bs f v (m @ d) = (case md_blocks bs f v m of (v', r) \<Rightarrow> md_blocks bs f v' (r @ d))"
proof (induction bs f v m rule: md_blocks.induct)
  case (1 bs f v m)
  show ?case
  proof (cases "bs = 0 \<or> length m < bs")
    case True
    then show ?thesis by (auto simp: md_blocks.simps [of bs f v m])
  next
    case False
    then have "md_blocks bs f v m = md_blocks bs f (f (take bs m) v) (drop bs m)" by (subst md_blocks.simps) simp
    moreover have "md_blocks bs f v (m @ d) = md_blocks bs f (f (take bs m) v) (drop bs m @ d)"
      using False by (subst md_blocks.simps) simp
    ultimately show ?thesis using False "1.IH" by simp
  qed
qed

text \<open>
  The padding of a message of \<open>n\<close> bytes: a bit 1, the least number of zeros, and the length field
  \<open>len\<close> of \<open>ll\<close> bytes, up to the end of a block.
\<close>

definition md_padding :: "nat \<Rightarrow> nat \<Rightarrow> byte list \<Rightarrow> nat \<Rightarrow> byte list" where
  "md_padding bs ll len n = 0x80 # replicate ((2 * bs - 1 - ll - n mod bs) mod bs) 0 @ len"

section \<open>The buffer\<close>

text \<open>
  The body of the loops of the update functions: \<open>ptr\<close> bytes of the buffer are in use. \<^verbatim>\<open>md5.c\<close> and
  \<^verbatim>\<open>sha1.c\<close> add to the count in every turn (\<open>cnt\<close>), the SHA-2 files before the loop.
\<close>

definition update_turn :: "nat \<Rightarrow> (byte list \<Rightarrow> 'w list \<Rightarrow> 'w list) \<Rightarrow> bool \<Rightarrow> nat \<Rightarrow> 'w hash_ctx \<Rightarrow> byte list \<Rightarrow>
    nat \<times> 'w hash_ctx \<times> byte list" where
  "update_turn bs rnd cnt ptr cc data =
     (let clen = bs - ptr;
          clen = (if clen > length data then length data else clen);
          cc = cc\<lparr>hbuf := take ptr (hbuf cc) @ take clen data @ drop (ptr + clen) (hbuf cc)\<rparr>;
          ptr = ptr + clen;
          data = drop clen data;
          cc = (if cnt then cc\<lparr>hcount := hcount cc + of_nat clen\<rparr> else cc)
      in if ptr = bs then (0, cc\<lparr>hval := rnd (hbuf cc) (hval cc)\<rparr>, data) else (ptr, cc, data))"

lemma update_turn_shorter: "data \<noteq> [] \<Longrightarrow> ptr < bs \<Longrightarrow> length (snd (snd (update_turn bs rnd cnt ptr cc data))) < length data"
  by (auto simp: update_turn_def Let_def split: if_splits)

text \<open>The position is below the block size on entry; the second test is there for termination only.\<close>

function update_loop :: "nat \<Rightarrow> (byte list \<Rightarrow> 'w list \<Rightarrow> 'w list) \<Rightarrow> bool \<Rightarrow> nat \<Rightarrow> 'w hash_ctx \<Rightarrow> byte list \<Rightarrow> 'w hash_ctx" where
  "update_loop bs rnd cnt ptr cc data =
     (if data = [] \<or> bs \<le> ptr then cc
      else case update_turn bs rnd cnt ptr cc data of (ptr, cc, data) \<Rightarrow> update_loop bs rnd cnt ptr cc data)"
  by pat_completeness auto
termination
  by (relation "measure (\<lambda>(_, _, _, _, _, data). length data)") (auto simp: update_turn_shorter case_prod_unfold not_le)

declare update_loop.simps [simp del]

lemma update_loop_Nil [simp]: "update_loop bs rnd cnt ptr cc [] = cc"
  by (simp add: update_loop.simps)

text \<open>
  The end of the output functions up to the last call of the compression function; \<open>lo\<close> is the
  position of the length field.
\<close>

definition md_final :: "nat \<Rightarrow> nat \<Rightarrow> (byte list \<Rightarrow> 'w list \<Rightarrow> 'w list) \<Rightarrow> byte list \<Rightarrow> nat \<Rightarrow> 'w hash_ctx \<Rightarrow> 'w list" where
  "md_final bs lo rnd len ptr cc =
     (let buf = take ptr (hbuf cc) @ [0x80];
          val = hval cc;
          ptr = ptr + 1;
          (buf, val) = (if ptr > lo then (replicate lo 0, rnd (buf @ replicate (bs - ptr) 0) val)
                        else (buf @ replicate (lo - ptr) 0, val))
      in rnd (buf @ len) val)"

text \<open>A context with chaining value \<open>v\<close>, the bytes \<open>p\<close> of an incomplete block and a count.\<close>

definition holds_ctx :: "nat \<Rightarrow> 'w hash_ctx \<Rightarrow> 'w list \<Rightarrow> byte list \<Rightarrow> bool" where
  "holds_ctx bs cc v p \<longleftrightarrow> hval cc = v \<and> length (hbuf cc) = bs \<and> length p < bs \<and> take (length p) (hbuf cc) = p"

lemma update_turn_holds:
  assumes "holds_ctx bs cc v p" "data \<noteq> []" "update_turn bs rnd cnt (length p) cc data = (ptr', cc', data')"
  obtains v' p' where "holds_ctx bs cc' v' p'" "ptr' = length p'" "md_blocks bs rnd v (p @ data) = md_blocks bs rnd v' (p' @ data')"
    "hcount cc' + (if cnt then of_nat (length data') else 0) = hcount cc + (if cnt then of_nat (length data) else 0)"
proof -
  define clen where "clen = (if bs - length p > length data then length data else bs - length p)"
  have p: "length p < bs" "take (length p) (hbuf cc) = p" "length (hbuf cc) = bs" "hval cc = v"
    using assms(1) by (auto simp: holds_ctx_def)
  have cl: "0 < clen" "clen \<le> length data" "length p + clen \<le> bs" using p(1) assms(2) by (auto simp: clen_def)
  define c1 where "c1 = cc\<lparr>hbuf := p @ take clen data @ drop (length p + clen) (hbuf cc)\<rparr>"
  define c2 where "c2 = (if cnt then c1\<lparr>hcount := hcount c1 + of_nat clen\<rparr> else c1)"
  have c: "hbuf c2 = p @ take clen data @ drop (length p + clen) (hbuf cc)" "hval c2 = v"
      "hcount c2 = hcount cc + (if cnt then of_nat clen else 0)"
    by (simp_all add: c2_def c1_def p)
  have t: "(if length p + clen = bs then (0, c2\<lparr>hval := rnd (hbuf c2) (hval c2)\<rparr>, drop clen data) else (length p + clen, c2, drop clen data))
      = (ptr', cc', data')"
    using assms(3) unfolding update_turn_def Let_def clen_def [symmetric] p(2) c1_def [symmetric] c2_def [symmetric] .
  have n: "(of_nat clen :: u64) + of_nat (length data - clen) = of_nat (length data)" using cl by (simp flip: of_nat_add)
  show ?thesis
  proof (cases "length p + clen = bs")
    case True
    then have e: "ptr' = 0" "cc' = c2\<lparr>hval := rnd (p @ take clen data) v\<rparr>" "data' = drop clen data"
      using t p(3) by (auto simp: c)
    have "md_blocks bs rnd v (p @ data) = md_blocks bs rnd (rnd (p @ take clen data) v) ([] @ drop clen data)"
      using md_blocks_block [of bs "p @ take clen data" rnd v "drop clen data"] True cl p(1) by simp
    moreover have "holds_ctx bs cc' (rnd (p @ take clen data) v) []" using True cl p by (simp add: holds_ctx_def e c)
    ultimately show ?thesis using n by (intro that [of "rnd (p @ take clen data) v" "[]"]) (simp_all add: e c add.assoc)
  next
    case False
    then have e: "ptr' = length p + clen" "cc' = c2" "data' = drop clen data" using t by auto
    show ?thesis
      using n cl False p by (intro that [of v "p @ take clen data"]) (simp_all add: e c holds_ctx_def add.assoc)
  qed
qed

lemma update_loop_holds:
  "holds_ctx bs cc v p \<Longrightarrow>
    holds_ctx bs (update_loop bs rnd cnt (length p) cc data) (fst (md_blocks bs rnd v (p @ data))) (snd (md_blocks bs rnd v (p @ data)))
    \<and> hcount (update_loop bs rnd cnt (length p) cc data) = hcount cc + (if cnt then of_nat (length data) else 0)"
proof (induction "length data" arbitrary: cc v p data rule: less_induct)
  case less
  show ?case
  proof (cases "data = []")
    case True
    with less.prems show ?thesis by (simp add: holds_ctx_def md_blocks_short)
  next
    case False
    obtain ptr' cc' data' where t: "update_turn bs rnd cnt (length p) cc data = (ptr', cc', data')" by (metis prod_cases3)
    have lp: "length p < bs" using less.prems by (simp add: holds_ctx_def)
    from update_turn_holds [OF less.prems False t] obtain v' p' where h: "holds_ctx bs cc' v' p'" "ptr' = length p'"
        "md_blocks bs rnd v (p @ data) = md_blocks bs rnd v' (p' @ data')"
        "hcount cc' + (if cnt then of_nat (length data') else 0) = hcount cc + (if cnt then of_nat (length data) else 0)" .
    have "update_loop bs rnd cnt (length p) cc data = update_loop bs rnd cnt (length p') cc' data'"
      using False lp t h(2) by (subst update_loop.simps) simp
    then show ?thesis using less.hyps [of data', OF _ h(1)] update_turn_shorter [OF False lp, of rnd cnt cc] t h(3,4) by simp
  qed
qed

text \<open>Ranges of words as lists of bytes.\<close>

context range_codec
begin

lemma load_renc: "load (renc m p vs) p (w * length vs) = concat (map enc vs)"
proof (induction vs arbitrary: m p)
  case (Cons v vs)
  have "load (renc m p (v # vs)) p (w + w * length vs) = enc v @ concat (map enc vs)"
    using renc_head [of m p v vs] Cons [of "store m p (enc v)" "p + w"] by (simp add: load_add renc_Cons)
  then show ?case by simp
qed simp

lemma rdec_bytes: "load m p (w * length vs) = concat (map enc vs) \<Longrightarrow> rdec (length vs) m p = vs"
proof (induction vs arbitrary: p)
  case (Cons v vs)
  then have "load m p w @ load m (p + w) (w * length vs) = enc v @ concat (map enc vs)"
    by (simp add: load_add)
  then have "load m p w = enc v" "load m (p + w) (w * length vs) = concat (map enc vs)"
    by (simp_all add: width append_eq_append_conv)
  then show ?case using Cons.IH dec_enc by (simp add: rdec_Suc)
qed (simp add: rdec_0)

lemma rdec_list: "rdec (length vs) (\<lambda>a. concat (map enc vs) ! a) 0 = vs"
proof (rule rdec_bytes)
  have "length (concat (map enc vs)) = w * length vs" by (induction vs) (simp_all add: width)
  then show "load (\<lambda>a. concat (map enc vs) ! a) 0 (w * length vs) = concat (map enc vs)" by (intro load_eqI) simp_all
qed

end

lemma md_final_padded:
  assumes "holds_ctx bs cc v p" "length len = ll" "ll < bs" "length p = n mod bs"
  shows "md_final bs (bs - ll) rnd len (length p) cc = fst (md_blocks bs rnd v (p @ md_padding bs ll len n))"
proof -
  have p: "length p < bs" "take (length p) (hbuf cc) = p" "hval cc = v" using assms(1) by (auto simp: holds_ctx_def)
  show ?thesis
  proof (cases "length p + 1 > bs - ll")
    case True
    have z: "(2 * bs - 1 - ll - n mod bs) mod bs = bs - 1 - length p + (bs - ll)"
      unfolding assms(4) [symmetric] using True p(1) assms(3) by (subst mod_less) auto
    let ?b1 = "p @ 0x80 # replicate (bs - 1 - length p) 0" and ?b2 = "replicate (bs - ll) 0 @ len"
    have "p @ md_padding bs ll len n = ?b1 @ ?b2 @ []" unfolding md_padding_def z by (simp add: replicate_add)
    then have "md_blocks bs rnd v (p @ md_padding bs ll len n) = md_blocks bs rnd (rnd ?b2 (rnd ?b1 v)) []"
      using md_blocks_block [of bs ?b1 rnd v "?b2 @ []"] md_blocks_block [of bs ?b2 rnd "rnd ?b1 v" "[]"] p(1) assms(2,3)
      by simp
    then show ?thesis using True p by (simp add: md_final_def md_blocks_short)
  next
    case False
    have z: "(2 * bs - 1 - ll - n mod bs) mod bs = bs - ll - (length p + 1)"
    proof -
      have "2 * bs - 1 - ll - length p = bs + (bs - ll - (length p + 1))" using False by simp
      then have "(2 * bs - 1 - ll - length p) mod bs = (bs - ll - (length p + 1)) mod bs" by (simp only: mod_add_self1)
      also have "\<dots> = bs - ll - (length p + 1)" using assms(3) by simp
      finally show ?thesis by (simp only: assms(4))
    qed
    let ?b = "p @ 0x80 # replicate (bs - ll - (length p + 1)) 0 @ len"
    have "p @ md_padding bs ll len n = ?b @ []" unfolding md_padding_def z by simp
    then have "md_blocks bs rnd v (p @ md_padding bs ll len n) = md_blocks bs rnd (rnd ?b v) []"
      using p(1) assms(2,3) False by (simp only:) (subst md_blocks_block; simp)
    then show ?thesis using False p by (simp add: md_final_def md_blocks_short)
  qed
qed

section \<open>The common part of the four files\<close>

text \<open>The hash function on messages, and the contexts that have been given a message.\<close>

definition md_hash :: "nat \<Rightarrow> (byte list \<Rightarrow> 'w list \<Rightarrow> 'w list) \<Rightarrow> 'w list \<Rightarrow> ('w list \<Rightarrow> byte list) \<Rightarrow> nat \<Rightarrow> nat \<Rightarrow>
    (u64 \<Rightarrow> byte list) \<Rightarrow> byte list \<Rightarrow> byte list" where
  "md_hash bs rnd iv enc hl ll lenf m =
     take hl (enc (fst (md_blocks bs rnd iv (m @ md_padding bs ll (lenf (of_nat (length m))) (length m)))))"

definition md_hashed :: "nat \<Rightarrow> (byte list \<Rightarrow> 'w list \<Rightarrow> 'w list) \<Rightarrow> 'w list \<Rightarrow> 'w hash_ctx \<Rightarrow> byte list \<Rightarrow> bool" where
  "md_hashed bs rnd iv cc m \<longleftrightarrow> holds_ctx bs cc (fst (md_blocks bs rnd iv m)) (snd (md_blocks bs rnd iv m))
     \<and> hcount cc = of_nat (length m)"

text \<open>
  The laws of a file: the functions of its virtual table are the loop and the padding above, around
  its compression function \<open>rnd\<close> on words, which \<open>enc\<close> and \<open>dec\<close> write and read. \<open>lenf\<close> is the length
  field of a count of bytes, \<open>ll\<close> bytes long.
\<close>

locale md_fun =
  fixes dig :: "'w hash_ctx hash_class"
    and rnd :: "byte list \<Rightarrow> 'w list \<Rightarrow> 'w list"
    and enc :: "'w list \<Rightarrow> byte list"
    and dec :: "byte list \<Rightarrow> 'w list"
    and iv :: "'w list"
    and bs ll :: nat
    and lenf :: "u64 \<Rightarrow> byte list"
    and cnt :: bool
  assumes desc_block: "block_size dig = bs"
    and init_ctx: "hc_init dig = \<lparr>hbuf = replicate bs 0, hcount = 0, hval = iv\<rparr>"
    and update_ctx: "hc_update dig cc data = update_loop bs rnd cnt (unat (hcount cc) mod bs)
      (if cnt then cc else cc\<lparr>hcount := hcount cc + of_nat (length data)\<rparr>) data"
    and out_ctx: "hc_out dig cc = take (br_digest_size dig) (enc (md_final bs (bs - ll) rnd (lenf (hcount cc)) (unat (hcount cc) mod bs) cc))"
    and state_ctx: "hc_state dig cc = (enc (hval cc), hcount cc)"
    and set_state_ctx: "hc_set_state dig cc stb n = cc\<lparr>hval := dec stb, hcount := n\<rparr>"
    and length_rnd: "length v = length iv \<Longrightarrow> length (rnd b v) = length iv"
    and dec_enc: "length v = length iv \<Longrightarrow> dec (enc v) = v"
    and length_enc: "length v = length iv \<Longrightarrow> br_digest_size dig \<le> length (enc v)"
    and length_lenf: "length (lenf n) = ll"
    and sizes: "bs dvd 2 ^ 64" "ll < bs" "br_digest_size dig \<le> bs"
begin

lemma bs_pos: "0 < bs" using sizes(2) by simp

lemma count_mod: "unat (of_nat n :: u64) mod bs = n mod bs"
  using sizes(1) by (simp add: unat_of_nat take_bit_eq_mod mod_mod_cancel)

lemma length_blocks: "length v = length iv \<Longrightarrow> length (fst (md_blocks bs rnd v m)) = length iv"
proof (induction "length m" arbitrary: v m rule: less_induct)
  case less
  show ?case
  proof (cases "length m < bs")
    case False
    then have "md_blocks bs rnd v m = md_blocks bs rnd (rnd (take bs m) v) (drop bs m)"
      using bs_pos by (subst md_blocks.simps) simp
    with False less.hyps [of "drop bs m"] less.prems bs_pos show ?thesis by (simp add: length_rnd)
  qed (simp add: md_blocks_short less.prems)
qed

lemma hashed_ptr: "md_hashed bs rnd iv cc m \<Longrightarrow> unat (hcount cc) mod bs = length (snd (md_blocks bs rnd iv m))"
  by (simp add: md_hashed_def count_mod md_blocks_rest [OF bs_pos])

lemma update_hashed:
  assumes "md_hashed bs rnd iv cc m"
  shows "md_hashed bs rnd iv (hc_update dig cc d) (m @ d)"
proof -
  define c where "c = (if cnt then cc else cc\<lparr>hcount := hcount cc + of_nat (length d)\<rparr>)"
  obtain v p where b: "md_blocks bs rnd iv m = (v, p)" by fastforce
  have "holds_ctx bs c v p" "hcount c + (if cnt then of_nat (length d) else 0) = of_nat (length (m @ d))"
    using assms b by (auto simp: md_hashed_def holds_ctx_def c_def)
  with update_loop_holds [of bs c v p rnd cnt d] show ?thesis
    using b by (simp add: md_hashed_def update_ctx hashed_ptr [OF assms] md_blocks_append [of bs rnd iv m d] flip: c_def)
qed

lemma out_hashed:
  assumes "md_hashed bs rnd iv cc m"
  shows "hc_out dig cc = md_hash bs rnd iv enc (br_digest_size dig) ll lenf m"
proof -
  obtain v p where b: "md_blocks bs rnd iv m = (v, p)" by fastforce
  have h: "holds_ctx bs cc v p" "hcount cc = of_nat (length m)" using assms b by (auto simp: md_hashed_def)
  have "length p = length m mod bs" using md_blocks_rest [OF bs_pos, of rnd iv m] b by simp
  from md_final_padded [OF h(1) length_lenf sizes(2) this] show ?thesis
    using b hashed_ptr [OF assms]
    by (simp add: out_ctx md_hash_def h(2) md_blocks_append [of bs rnd iv m "md_padding bs ll _ _"])
qed

end

sublocale md_fun \<subseteq> hash_fun dig "md_hash bs rnd iv enc (br_digest_size dig) ll lenf" "md_hashed bs rnd iv"
proof
  show "md_hashed bs rnd iv (hc_init dig) []"
    using bs_pos by (simp add: md_hashed_def holds_ctx_def init_ctx md_blocks_short)
  show "length (md_hash bs rnd iv enc (br_digest_size dig) ll lenf m) = br_digest_size dig" for m
    using length_enc [OF length_blocks [OF refl]] by (simp add: md_hash_def min_absorb2)
  fix h m h' m'
  assume h: "md_hashed bs rnd iv h m" "length m = block_size dig" "md_hashed bs rnd iv h' m'"
  have "snd (md_blocks bs rnd iv m) = []" using md_blocks_rest [OF bs_pos, of rnd iv m] h(2) by (simp add: desc_block)
  then show "md_hashed bs rnd iv (hc_set_state dig h' (fst (hc_state dig h)) (of_nat (block_size dig))) m"
    using h bs_pos by (simp add: md_hashed_def holds_ctx_def set_state_ctx state_ctx dec_enc [OF length_blocks [OF refl]])
qed (simp_all add: update_hashed out_hashed sizes desc_block)

end
