(* ===== verification/Sha2.thy ===== *)
theory Sha2
  imports Hash_Class
begin

text \<open>
  SHA-224 and SHA-256 (\<^verbatim>\<open>hash/sha2small.c\<close>), SHA-384 and SHA-512 (\<^verbatim>\<open>hash/sha2big.c\<close>). The two files
  are the same text for two word sizes; what they share is defined once, with the macros of
  each file as parameters. The reference is FIPS 180-4: its functions, its message schedule and its
  step on eight working variables, for both word sizes; its constants are the leading bits of the
  fractional parts of the roots of the first primes.
\<close>

unbundle bit_operations_syntax

section \<open>The macros\<close>

definition CH :: "'a :: len word \<Rightarrow> 'a word \<Rightarrow> 'a word \<Rightarrow> 'a word" where "CH X Y Z = ((Y XOR Z) AND X) XOR Z"
definition MAJ :: "'a :: len word \<Rightarrow> 'a word \<Rightarrow> 'a word \<Rightarrow> 'a word" where "MAJ X Y Z = (Y AND Z) OR ((Y OR Z) AND X)"

definition ROTR :: "'a :: len word \<Rightarrow> nat \<Rightarrow> 'a word" where "ROTR x n = push_bit (LENGTH('a) - n) x OR drop_bit n x"

definition BSG2_0 :: "u32 \<Rightarrow> u32" where "BSG2_0 x = ROTR x 2 XOR ROTR x 13 XOR ROTR x 22"
definition BSG2_1 :: "u32 \<Rightarrow> u32" where "BSG2_1 x = ROTR x 6 XOR ROTR x 11 XOR ROTR x 25"
definition SSG2_0 :: "u32 \<Rightarrow> u32" where "SSG2_0 x = ROTR x 7 XOR ROTR x 18 XOR drop_bit 3 x"
definition SSG2_1 :: "u32 \<Rightarrow> u32" where "SSG2_1 x = ROTR x 17 XOR ROTR x 19 XOR drop_bit 10 x"

definition BSG5_0 :: "u64 \<Rightarrow> u64" where "BSG5_0 x = ROTR x 28 XOR ROTR x 34 XOR ROTR x 39"
definition BSG5_1 :: "u64 \<Rightarrow> u64" where "BSG5_1 x = ROTR x 14 XOR ROTR x 18 XOR ROTR x 41"
definition SSG5_0 :: "u64 \<Rightarrow> u64" where "SSG5_0 x = ROTR x 1 XOR ROTR x 8 XOR drop_bit 7 x"
definition SSG5_1 :: "u64 \<Rightarrow> u64" where "SSG5_1 x = ROTR x 19 XOR ROTR x 61 XOR drop_bit 6 x"

section \<open>Constants\<close>

definition br_sha224_IV :: "u32 list" where
  "br_sha224_IV = [0xC1059ED8, 0x367CD507, 0x3070DD17, 0xF70E5939, 0xFFC00B31, 0x68581511, 0x64F98FA7, 0xBEFA4FA4]"

definition br_sha256_IV :: "u32 list" where
  "br_sha256_IV = [0x6A09E667, 0xBB67AE85, 0x3C6EF372, 0xA54FF53A, 0x510E527F, 0x9B05688C, 0x1F83D9AB, 0x5BE0CD19]"

definition IV384 :: "u64 list" where
  "IV384 = [0xCBBB9D5DC1059ED8, 0x629A292A367CD507, 0x9159015A3070DD17, 0x152FECD8F70E5939,
     0x67332667FFC00B31, 0x8EB44A8768581511, 0xDB0C2E0D64F98FA7, 0x47B5481DBEFA4FA4]"

definition IV512 :: "u64 list" where
  "IV512 = [0x6A09E667F3BCC908, 0xBB67AE8584CAA73B, 0x3C6EF372FE94F82B, 0xA54FF53A5F1D36F1,
     0x510E527FADE682D1, 0x9B05688C2B3E6C1F, 0x1F83D9ABFB41BD6B, 0x5BE0CD19137E2179]"

definition sha2small_K :: "u32 list" where
  "sha2small_K =
    [0x428A2F98, 0x71374491, 0xB5C0FBCF, 0xE9B5DBA5, 0x3956C25B, 0x59F111F1, 0x923F82A4, 0xAB1C5ED5,
     0xD807AA98, 0x12835B01, 0x243185BE, 0x550C7DC3, 0x72BE5D74, 0x80DEB1FE, 0x9BDC06A7, 0xC19BF174,
     0xE49B69C1, 0xEFBE4786, 0x0FC19DC6, 0x240CA1CC, 0x2DE92C6F, 0x4A7484AA, 0x5CB0A9DC, 0x76F988DA,
     0x983E5152, 0xA831C66D, 0xB00327C8, 0xBF597FC7, 0xC6E00BF3, 0xD5A79147, 0x06CA6351, 0x14292967,
     0x27B70A85, 0x2E1B2138, 0x4D2C6DFC, 0x53380D13, 0x650A7354, 0x766A0ABB, 0x81C2C92E, 0x92722C85,
     0xA2BFE8A1, 0xA81A664B, 0xC24B8B70, 0xC76C51A3, 0xD192E819, 0xD6990624, 0xF40E3585, 0x106AA070,
     0x19A4C116, 0x1E376C08, 0x2748774C, 0x34B0BCB5, 0x391C0CB3, 0x4ED8AA4A, 0x5B9CCA4F, 0x682E6FF3,
     0x748F82EE, 0x78A5636F, 0x84C87814, 0x8CC70208, 0x90BEFFFA, 0xA4506CEB, 0xBEF9A3F7, 0xC67178F2]"

definition sha2big_K :: "u64 list" where
  "sha2big_K =
    [0x428A2F98D728AE22, 0x7137449123EF65CD, 0xB5C0FBCFEC4D3B2F, 0xE9B5DBA58189DBBC,
     0x3956C25BF348B538, 0x59F111F1B605D019, 0x923F82A4AF194F9B, 0xAB1C5ED5DA6D8118,
     0xD807AA98A3030242, 0x12835B0145706FBE, 0x243185BE4EE4B28C, 0x550C7DC3D5FFB4E2,
     0x72BE5D74F27B896F, 0x80DEB1FE3B1696B1, 0x9BDC06A725C71235, 0xC19BF174CF692694,
     0xE49B69C19EF14AD2, 0xEFBE4786384F25E3, 0x0FC19DC68B8CD5B5, 0x240CA1CC77AC9C65,
     0x2DE92C6F592B0275, 0x4A7484AA6EA6E483, 0x5CB0A9DCBD41FBD4, 0x76F988DA831153B5,
     0x983E5152EE66DFAB, 0xA831C66D2DB43210, 0xB00327C898FB213F, 0xBF597FC7BEEF0EE4,
     0xC6E00BF33DA88FC2, 0xD5A79147930AA725, 0x06CA6351E003826F, 0x142929670A0E6E70,
     0x27B70A8546D22FFC, 0x2E1B21385C26C926, 0x4D2C6DFC5AC42AED, 0x53380D139D95B3DF,
     0x650A73548BAF63DE, 0x766A0ABB3C77B2A8, 0x81C2C92E47EDAEE6, 0x92722C851482353B,
     0xA2BFE8A14CF10364, 0xA81A664BBC423001, 0xC24B8B70D0F89791, 0xC76C51A30654BE30,
     0xD192E819D6EF5218, 0xD69906245565A910, 0xF40E35855771202A, 0x106AA07032BBD1B8,
     0x19A4C116B8D2D0C8, 0x1E376C085141AB53, 0x2748774CDF8EEB99, 0x34B0BCB5E19B48A8,
     0x391C0CB3C5C95A63, 0x4ED8AA4AE3418ACB, 0x5B9CCA4F7763E373, 0x682E6FF3D6B2B8A3,
     0x748F82EE5DEFB2FC, 0x78A5636F43172F60, 0x84C87814A1F0AB72, 0x8CC702081A6439EC,
     0x90BEFFFA23631E28, 0xA4506CEBDE82BDE9, 0xBEF9A3F7B2C67915, 0xC67178F2E372532B,
     0xCA273ECEEA26619C, 0xD186B8C721C0C207, 0xEADA7DD6CDE0EB1E, 0xF57D4F7FEE6ED178,
     0x06F067AA72176FBA, 0x0A637DC5A2C898A6, 0x113F9804BEF90DAE, 0x1B710B35131C471B,
     0x28DB77F523047D84, 0x32CAAB7B40C72493, 0x3C9EBE0A15C9BEBC, 0x431D67C49C100D4C,
     0x4CC5D4BECB3E42B6, 0x597F299CFC657E2A, 0x5FCB6FAB3AD6FAEC, 0x6C44198C4A475817]"

section \<open>Compression\<close>

definition SHA2_STEP :: "u32 list \<Rightarrow> u32 \<Rightarrow> u32 \<Rightarrow> u32 \<Rightarrow> u32 \<Rightarrow> u32 \<Rightarrow> u32 \<Rightarrow> u32 \<Rightarrow> u32 \<Rightarrow> nat \<Rightarrow> u32 \<times> u32" where
  "SHA2_STEP w A B C D E F G H j =
     (let T1 = H + BSG2_1 E + CH E F G + sha2small_K ! j + w ! j;
          T2 = BSG2_0 A + MAJ A B C
      in (D + T1, T1 + T2))"

definition SHA2BIG_STEP :: "u64 list \<Rightarrow> u64 \<Rightarrow> u64 \<Rightarrow> u64 \<Rightarrow> u64 \<Rightarrow> u64 \<Rightarrow> u64 \<Rightarrow> u64 \<Rightarrow> u64 \<Rightarrow> nat \<Rightarrow> u64 \<times> u64" where
  "SHA2BIG_STEP w A B C D E F G H j =
     (let T1 = H + BSG5_1 E + CH E F G + sha2big_K ! j + w ! j;
          T2 = BSG5_0 A + MAJ A B C
      in (D + T1, T1 + T2))"

text \<open>The body of the loop; a step gives the new values of its arguments \<open>D\<close> and \<open>H\<close>.\<close>

definition sha2_eight ::
    "('w \<Rightarrow> 'w \<Rightarrow> 'w \<Rightarrow> 'w \<Rightarrow> 'w \<Rightarrow> 'w \<Rightarrow> 'w \<Rightarrow> 'w \<Rightarrow> nat \<Rightarrow> 'w \<times> 'w) \<Rightarrow> nat \<Rightarrow>
      'w \<times> 'w \<times> 'w \<times> 'w \<times> 'w \<times> 'w \<times> 'w \<times> 'w \<Rightarrow> 'w \<times> 'w \<times> 'w \<times> 'w \<times> 'w \<times> 'w \<times> 'w \<times> 'w" where
  "sha2_eight STEP i = (\<lambda>(a, b, c, d, e, f, g, h).
     (let (d, h) = STEP a b c d e f g h (i + 0);
          (c, g) = STEP h a b c d e f g (i + 1);
          (b, f) = STEP g h a b c d e f (i + 2);
          (a, e) = STEP f g h a b c d e (i + 3);
          (h, d) = STEP e f g h a b c d (i + 4);
          (g, c) = STEP d e f g h a b c (i + 5);
          (f, b) = STEP c d e f g h a b (i + 6);
          (e, a) = STEP b c d e f g h a (i + 7)
      in (a, b, c, d, e, f, g, h)))"

definition sha2_schedule :: "('w \<Rightarrow> 'w) \<Rightarrow> ('w \<Rightarrow> 'w) \<Rightarrow> nat \<Rightarrow> 'w :: plus list \<Rightarrow> 'w list" where
  "sha2_schedule SSG_0 SSG_1 n w =
     foldl (\<lambda>w i. w @ [SSG_1 (w ! (i - 2)) + w ! (i - 7) + SSG_0 (w ! (i - 15)) + w ! (i - 16)]) w [16..<n]"

definition sha2_loop ::
    "('w \<Rightarrow> 'w \<Rightarrow> 'w \<Rightarrow> 'w \<Rightarrow> 'w \<Rightarrow> 'w \<Rightarrow> 'w \<Rightarrow> 'w \<Rightarrow> nat \<Rightarrow> 'w \<times> 'w) \<Rightarrow> nat \<Rightarrow> 'w :: plus list \<Rightarrow> 'w list" where
  "sha2_loop STEP n val =
     (let (a, b, c, d, e, f, g, h) =
        foldl (\<lambda>s i. sha2_eight STEP (8 * i) s)
          (val ! 0, val ! 1, val ! 2, val ! 3, val ! 4, val ! 5, val ! 6, val ! 7) [0..<n div 8]
      in [val ! 0 + a, val ! 1 + b, val ! 2 + c, val ! 3 + d, val ! 4 + e, val ! 5 + f, val ! 6 + g, val ! 7 + h])"

definition br_sha2small_round :: "byte list \<Rightarrow> u32 list \<Rightarrow> u32 list" where
  "br_sha2small_round buf val =
     (let w = sha2_schedule SSG2_0 SSG2_1 64 (br_range_dec32be 16 (\<lambda>p. buf ! p) 0)
      in sha2_loop (SHA2_STEP w) 64 val)"

definition sha2big_round :: "byte list \<Rightarrow> u64 list \<Rightarrow> u64 list" where
  "sha2big_round buf val =
     (let w = sha2_schedule SSG5_0 SSG5_1 80 (br_range_dec64be 16 (\<lambda>p. buf ! p) 0)
      in sha2_loop (SHA2BIG_STEP w) 80 val)"

section \<open>Update, output, state\<close>

definition sha2small_update :: "u32 hash_ctx \<Rightarrow> byte list \<Rightarrow> u32 hash_ctx" where
  "sha2small_update cc data =
     (let ptr = unat (hcount cc AND 63);
          cc = cc\<lparr>hcount := hcount cc + of_nat (length data)\<rparr>
      in update_loop 64 br_sha2small_round False ptr cc data)"

definition sha2small_out :: "u32 hash_ctx \<Rightarrow> nat \<Rightarrow> byte list" where
  "sha2small_out cc num =
     (let ptr = unat (hcount cc AND 63);
          val = md_final 64 56 br_sha2small_round (br_enc64be (push_bit 3 (hcount cc))) ptr cc
      in concat (map br_enc32be (take num val)))"

definition br_sha224_init :: "u32 hash_ctx" where
  "br_sha224_init = \<lparr>hbuf = replicate 64 0, hcount = 0, hval = br_sha224_IV\<rparr>"

definition br_sha224_update :: "u32 hash_ctx \<Rightarrow> byte list \<Rightarrow> u32 hash_ctx" where
  "br_sha224_update cc data = sha2small_update cc data"

definition br_sha224_out :: "u32 hash_ctx \<Rightarrow> byte list" where
  "br_sha224_out cc = sha2small_out cc 7"

definition br_sha224_state :: "u32 hash_ctx \<Rightarrow> byte list \<times> u64" where
  "br_sha224_state cc = (concat (map br_enc32be (hval cc)), hcount cc)"

definition br_sha224_set_state :: "u32 hash_ctx \<Rightarrow> byte list \<Rightarrow> u64 \<Rightarrow> u32 hash_ctx" where
  "br_sha224_set_state cc stb count = cc\<lparr>hval := br_range_dec32be 8 (\<lambda>p. stb ! p) 0, hcount := count\<rparr>"

definition br_sha256_init :: "u32 hash_ctx" where
  "br_sha256_init = \<lparr>hbuf = replicate 64 0, hcount = 0, hval = br_sha256_IV\<rparr>"

definition br_sha256_out :: "u32 hash_ctx \<Rightarrow> byte list" where
  "br_sha256_out cc = sha2small_out cc 8"

definition br_sha224_vtable :: "u32 hash_ctx hash_class" where
  "br_sha224_vtable = \<lparr>desc = BR_HASHDESC_ID 3 OR BR_HASHDESC_OUT 28 OR BR_HASHDESC_STATE 32 OR BR_HASHDESC_LBLEN 6
       OR BR_HASHDESC_MD_PADDING OR BR_HASHDESC_MD_PADDING_BE,
     hc_init = br_sha224_init, hc_update = br_sha224_update, hc_out = br_sha224_out, hc_state = br_sha224_state,
     hc_set_state = br_sha224_set_state\<rparr>"

definition br_sha256_vtable :: "u32 hash_ctx hash_class" where
  "br_sha256_vtable = \<lparr>desc = BR_HASHDESC_ID 4 OR BR_HASHDESC_OUT 32 OR BR_HASHDESC_STATE 32 OR BR_HASHDESC_LBLEN 6
       OR BR_HASHDESC_MD_PADDING OR BR_HASHDESC_MD_PADDING_BE,
     hc_init = br_sha256_init, hc_update = br_sha224_update, hc_out = br_sha256_out, hc_state = br_sha224_state,
     hc_set_state = br_sha224_set_state\<rparr>"

definition sha2big_update :: "u64 hash_ctx \<Rightarrow> byte list \<Rightarrow> u64 hash_ctx" where
  "sha2big_update cc data =
     (let ptr = unat (hcount cc AND 127);
          cc = cc\<lparr>hcount := hcount cc + of_nat (length data)\<rparr>
      in update_loop 128 sha2big_round False ptr cc data)"

definition sha2big_out :: "u64 hash_ctx \<Rightarrow> nat \<Rightarrow> byte list" where
  "sha2big_out cc num =
     (let ptr = unat (hcount cc AND 127);
          val = md_final 128 112 sha2big_round
            (br_enc64be (drop_bit 61 (hcount cc)) @ br_enc64be (push_bit 3 (hcount cc))) ptr cc
      in concat (map br_enc64be (take num val)))"

definition br_sha384_init :: "u64 hash_ctx" where
  "br_sha384_init = \<lparr>hbuf = replicate 128 0, hcount = 0, hval = IV384\<rparr>"

definition br_sha384_update :: "u64 hash_ctx \<Rightarrow> byte list \<Rightarrow> u64 hash_ctx" where
  "br_sha384_update cc data = sha2big_update cc data"

definition br_sha384_out :: "u64 hash_ctx \<Rightarrow> byte list" where
  "br_sha384_out cc = sha2big_out cc 6"

definition br_sha384_state :: "u64 hash_ctx \<Rightarrow> byte list \<times> u64" where
  "br_sha384_state cc = (concat (map br_enc64be (hval cc)), hcount cc)"

definition br_sha384_set_state :: "u64 hash_ctx \<Rightarrow> byte list \<Rightarrow> u64 \<Rightarrow> u64 hash_ctx" where
  "br_sha384_set_state cc stb count = cc\<lparr>hval := br_range_dec64be 8 (\<lambda>p. stb ! p) 0, hcount := count\<rparr>"

definition br_sha512_init :: "u64 hash_ctx" where
  "br_sha512_init = \<lparr>hbuf = replicate 128 0, hcount = 0, hval = IV512\<rparr>"

definition br_sha512_out :: "u64 hash_ctx \<Rightarrow> byte list" where
  "br_sha512_out cc = sha2big_out cc 8"

definition br_sha384_vtable :: "u64 hash_ctx hash_class" where
  "br_sha384_vtable = \<lparr>desc = BR_HASHDESC_ID 5 OR BR_HASHDESC_OUT 48 OR BR_HASHDESC_STATE 64 OR BR_HASHDESC_LBLEN 7
       OR BR_HASHDESC_MD_PADDING OR BR_HASHDESC_MD_PADDING_BE OR BR_HASHDESC_MD_PADDING_128,
     hc_init = br_sha384_init, hc_update = br_sha384_update, hc_out = br_sha384_out, hc_state = br_sha384_state,
     hc_set_state = br_sha384_set_state\<rparr>"

definition br_sha512_vtable :: "u64 hash_ctx hash_class" where
  "br_sha512_vtable = \<lparr>desc = BR_HASHDESC_ID 6 OR BR_HASHDESC_OUT 64 OR BR_HASHDESC_STATE 64 OR BR_HASHDESC_LBLEN 7
       OR BR_HASHDESC_MD_PADDING OR BR_HASHDESC_MD_PADDING_BE OR BR_HASHDESC_MD_PADDING_128,
     hc_init = br_sha512_init, hc_update = br_sha384_update, hc_out = br_sha512_out, hc_state = br_sha384_state,
     hc_set_state = br_sha384_set_state\<rparr>"

end
