(* ===== verification/Sha2_Fips.thy ===== *)
theory Sha2_Fips
  imports Sha2
begin

text \<open>
  FIPS 180-4 for SHA-224, SHA-256, SHA-384 and SHA-512, and the proof that the code of \<open>Sha2\<close>
  computes it, whatever the pieces in which the message arrives.
\<close>

unbundle bit_operations_syntax

section \<open>FIPS 180-4\<close>

text \<open>Sections 4.1.2 and 4.1.3.\<close>

definition fips_Ch :: "'a :: len word \<Rightarrow> 'a word \<Rightarrow> 'a word \<Rightarrow> 'a word" where
  "fips_Ch x y z = (x AND y) XOR (NOT x AND z)"

definition fips_Maj :: "'a :: len word \<Rightarrow> 'a word \<Rightarrow> 'a word \<Rightarrow> 'a word" where
  "fips_Maj x y z = (x AND y) XOR (x AND z) XOR (y AND z)"

definition three_rotations :: "nat \<Rightarrow> nat \<Rightarrow> nat \<Rightarrow> 'a :: len word \<Rightarrow> 'a word" where
  "three_rotations i j k x = word_rotr i x XOR word_rotr j x XOR word_rotr k x"

definition two_rotations :: "nat \<Rightarrow> nat \<Rightarrow> nat \<Rightarrow> 'a :: len word \<Rightarrow> 'a word" where
  "two_rotations i j k x = word_rotr i x XOR word_rotr j x XOR drop_bit k x"

text \<open>The parameters of one of the functions: word functions, round constants, number of rounds.\<close>

record 'w fips_fun =
  Sig0 :: "'w \<Rightarrow> 'w"
  Sig1 :: "'w \<Rightarrow> 'w"
  sig0 :: "'w \<Rightarrow> 'w"
  sig1 :: "'w \<Rightarrow> 'w"
  Kt :: "nat \<Rightarrow> 'w"
  rounds :: nat

text \<open>Sections 6.2.2 and 6.4.2: the message schedule, the working variables, a block.\<close>

function fips_W :: "'a :: len word fips_fun \<Rightarrow> 'a word list \<Rightarrow> nat \<Rightarrow> 'a word" where
  "fips_W F M t =
     (if t < 16 then M ! t
      else sig1 F (fips_W F M (t - 2)) + fips_W F M (t - 7) + sig0 F (fips_W F M (t - 15)) + fips_W F M (t - 16))"
  by pat_completeness auto
termination
  by (relation "measure (\<lambda>(_, _, t). t)") auto

declare fips_W.simps [simp del]

type_synonym 'w eight = "'w \<times> 'w \<times> 'w \<times> 'w \<times> 'w \<times> 'w \<times> 'w \<times> 'w"

definition fips_round :: "'a :: len word fips_fun \<Rightarrow> 'a word list \<Rightarrow> nat \<Rightarrow> 'a word eight \<Rightarrow> 'a word eight" where
  "fips_round F M t = (\<lambda>(a, b, c, d, e, f, g, h).
     let T1 = h + Sig1 F e + fips_Ch e f g + Kt F t + fips_W F M t;
         T2 = Sig0 F a + fips_Maj a b c
     in (T1 + T2, a, b, c, d + T1, e, f, g))"

definition fips_block :: "'a :: len word fips_fun \<Rightarrow> 'a word list \<Rightarrow> 'a word list \<Rightarrow> 'a word list" where
  "fips_block F M H =
     (let (a, b, c, d, e, f, g, h) =
        foldl (\<lambda>s t. fips_round F M t s) (H ! 0, H ! 1, H ! 2, H ! 3, H ! 4, H ! 5, H ! 6, H ! 7) [0..<rounds F]
      in [a + H ! 0, b + H ! 1, c + H ! 2, d + H ! 3, e + H ! 4, f + H ! 5, g + H ! 6, h + H ! 7])"

text \<open>
  Sections 5.1 and 5.2: the message is padded with a bit 1, the least number of zeros and its length
  in bits, and cut into blocks of 16 words. Words and bytes correspond with the most significant first.
\<close>

definition be_bytes :: "nat \<Rightarrow> nat \<Rightarrow> byte list" where
  "be_bytes k n = map (\<lambda>i. of_nat (n div 256 ^ (k - 1 - i))) [0..<k]"

definition word_bytes :: "'a :: len word itself \<Rightarrow> nat" where "word_bytes _ = LENGTH('a) div 8"

definition fips_words :: "byte list \<Rightarrow> 'a :: len word list" where
  "fips_words b = map (\<lambda>i. word_rcat (take (word_bytes TYPE('a word)) (drop (word_bytes TYPE('a word) * i) b))) [0..<16]"

definition fips_padded :: "nat \<Rightarrow> byte list \<Rightarrow> byte list" where
  "fips_padded w m =
     m @ 0x80 # replicate ((30 * w - 1 - length m mod (16 * w)) mod (16 * w)) 0 @ be_bytes (2 * w) (8 * length m)"

function fips_hash :: "'a :: len word fips_fun \<Rightarrow> 'a word list \<Rightarrow> byte list \<Rightarrow> 'a word list" where
  "fips_hash F H p =
     (let n = 16 * word_bytes TYPE('a word)
      in if n = 0 \<or> length p < n then H else fips_hash F (fips_block F (fips_words (take n p)) H) (drop n p))"
  by pat_completeness auto
termination
  by (relation "measure (\<lambda>(_, _, p). length p)") auto

declare fips_hash.simps [simp del]

text \<open>Section 6: the four functions. The digest is a prefix of the final words.\<close>

definition fips_sha :: "'a :: len word fips_fun \<Rightarrow> 'a word list \<Rightarrow> nat \<Rightarrow> byte list \<Rightarrow> byte list" where
  "fips_sha F iv n m =
     take n (concat (map (\<lambda>w. be_bytes (word_bytes TYPE('a word)) (unat w)) (fips_hash F iv (fips_padded (word_bytes TYPE('a word)) m))))"

text \<open>
  Section 4.2 and 5.3: the constants are the first 32 or 64 bits of the fractional parts of roots of
  the first primes. \<open>frac_root k w p c\<close>: the \<open>k\<close>-th root of \<open>p\<close> has the fractional part \<open>c / 2 ^ w\<close>, rounded down.
\<close>

definition floor_root :: "nat \<Rightarrow> int \<Rightarrow> int" where
  "floor_root k p = (\<Sum>q\<leftarrow>[1..20]. if q ^ k \<le> p then 1 else 0)"

definition frac_root :: "nat \<Rightarrow> nat \<Rightarrow> int \<Rightarrow> int \<Rightarrow> bool" where
  "frac_root k w p c \<longleftrightarrow> 0 \<le> c \<and> c < 2 ^ w \<and>
     (let x = floor_root k p * 2 ^ w + c in x ^ k \<le> p * 2 ^ (w * k) \<and> p * 2 ^ (w * k) < (x + 1) ^ k)"

definition first_primes :: "int list" where
  "first_primes = [2, 3, 5, 7, 11, 13, 17, 19, 23, 29, 31, 37, 41, 43, 47, 53, 59, 61, 67, 71, 73, 79, 83, 89, 97, 101, 103, 107, 109,
     113, 127, 131, 137, 139, 149, 151, 157, 163, 167, 173, 179, 181, 191, 193, 197, 199, 211, 223, 227, 229, 233, 239, 241, 251, 257,
     263, 269, 271, 277, 281, 283, 293, 307, 311, 313, 317, 331, 337, 347, 349, 353, 359, 367, 373, 379, 383, 389, 397, 401, 409]"

definition sha256_fun :: "u32 fips_fun" where
  "sha256_fun = \<lparr>Sig0 = three_rotations 2 13 22, Sig1 = three_rotations 6 11 25, sig0 = two_rotations 7 18 3, sig1 = two_rotations 17 19 10,
     Kt = (\<lambda>t. sha2small_K ! t), rounds = 64\<rparr>"

definition sha512_fun :: "u64 fips_fun" where
  "sha512_fun = \<lparr>Sig0 = three_rotations 28 34 39, Sig1 = three_rotations 14 18 41, sig0 = two_rotations 1 8 7, sig1 = two_rotations 19 61 6,
     Kt = (\<lambda>t. sha2big_K ! t), rounds = 80\<rparr>"

section \<open>Word functions\<close>

lemma CH_fips: "CH x y z = fips_Ch x y z"
  by (rule bit_word_eqI) (auto simp: CH_def fips_Ch_def bit_simps)

lemma MAJ_fips: "MAJ x y z = fips_Maj x y z"
  by (rule bit_word_eqI) (auto simp: MAJ_def fips_Maj_def bit_simps)

lemma ROTR_rotr:
  fixes x :: "'a :: len word"
  assumes "0 < n" "n < LENGTH('a)"
  shows "ROTR x n = word_rotr n x"
proof (rule bit_word_eqI)
  fix i
  assume i: "i < LENGTH('a)"
  show "bit (ROTR x n) i = bit (word_rotr n x) i"
  proof (cases "i + n < LENGTH('a)")
    case True
    then show ?thesis using i assms by (auto simp: ROTR_def bit_simps bit_word_rotr_iff add.commute)
  next
    case False
    then have "(i + n) mod LENGTH('a) = i + n - LENGTH('a)" using i assms by (simp add: mod_if)
    moreover have "\<not> bit x (n + i)" using False bit_imp_le_length [of x "n + i"] by auto
    moreover have "i - (LENGTH('a) - n) = i + n - LENGTH('a)" "LENGTH('a) - n \<le> i" using assms False by simp_all
    ultimately show ?thesis using i False assms by (simp add: ROTR_def bit_simps bit_word_rotr_iff)
  qed
qed

lemma sigmas_32: "BSG2_0 = Sig0 sha256_fun" "BSG2_1 = Sig1 sha256_fun" "SSG2_0 = sig0 sha256_fun" "SSG2_1 = sig1 sha256_fun"
  by (rule ext; simp add: sha256_fun_def three_rotations_def two_rotations_def BSG2_0_def BSG2_1_def SSG2_0_def SSG2_1_def ROTR_rotr)+

lemma sigmas_64: "BSG5_0 = Sig0 sha512_fun" "BSG5_1 = Sig1 sha512_fun" "SSG5_0 = sig0 sha512_fun" "SSG5_1 = sig1 sha512_fun"
  by (rule ext; simp add: sha512_fun_def three_rotations_def two_rotations_def BSG5_0_def BSG5_1_def SSG5_0_def SSG5_1_def ROTR_rotr)+

section \<open>Words and bytes\<close>

lemma bit_rcat:
  "bit (word_rcat (bs :: byte list) :: 'a :: len word) n \<longleftrightarrow> n < LENGTH('a) \<and> n div 8 < length bs \<and> bit (rev bs ! (n div 8)) (n mod 8)"
  using bit_horner_sum_uint_exp_iff [of "rev bs" n]
  by (simp add: word_rcat_def bit_word_of_int_iff)

lemma byte_position: "8 * k \<le> (n :: nat) \<Longrightarrow> n < 8 * k + 8 \<Longrightarrow> n div 8 = k \<and> n mod 8 = n - 8 * k"
  using div_nat_eqI [of 8 k n] minus_mult_div_eq_mod [of n 8] by simp

lemma dec32be_rcat: "br_dec32be m p = word_rcat (load m p 4)"
proof (rule bit_word_eqI)
  fix n
  assume "n < LENGTH(32)"
  then consider "n < 8" | "8 \<le> n \<and> n < 16" | "16 \<le> n \<and> n < 24" | "24 \<le> n \<and> n < 32" by fastforce
  then show "bit (br_dec32be m p) n = bit (word_rcat (load m p 4) :: u32) n"
  proof cases
    case 1
    then show ?thesis by (simp add: bit_rcat load_4 br_dec32be_def bit_simps)
  next
    case 2
    then have "n div 8 = 1" "n mod 8 = n - 8" using byte_position [of 1 n] by auto
    with 2 show ?thesis by (auto simp: bit_rcat load_4 br_dec32be_def bit_simps)
  next
    case 3
    then have "n div 8 = 2" "n mod 8 = n - 16" using byte_position [of 2 n] by auto
    with 3 show ?thesis by (auto simp: bit_rcat load_4 br_dec32be_def bit_simps)
  next
    case 4
    then have "n div 8 = 3" "n mod 8 = n - 24" using byte_position [of 3 n] by auto
    with 4 show ?thesis by (auto simp: bit_rcat load_4 br_dec32be_def bit_simps)
  qed
qed

lemma dec64be_rcat: "br_dec64be m p = word_rcat (load m p 8)"
proof (rule bit_word_eqI)
  fix n
  assume n: "n < LENGTH(64)"
  have l: "load m p 8 = load m p 4 @ load m (p + 4) 4" by (rule load_8)
  show "bit (br_dec64be m p) n = bit (word_rcat (load m p 8) :: u64) n"
  proof (cases "n < 32")
    case True
    then have "n div 8 < 4" by (simp add: div_less_iff_less_mult)
    with True n show ?thesis by (simp add: br_dec64be_def bit_simps dec32be_rcat bit_rcat l nth_append)
  next
    case False
    define k where "k = n - 32"
    have k: "n = 32 + k" "k < 32" using n False by (simp_all add: k_def)
    have "n div 8 = 4 + k div 8" "n mod 8 = k mod 8"
      using div_mult_self4 [of 8 4 k] mod_mult_self4 [of 8 4 k] by (simp_all add: k)
    moreover have "k div 8 < 4" using k by (simp add: div_less_iff_less_mult)
    moreover have "\<not> bit (br_dec32be m (p + 4)) n" using False bit_imp_le_length [of "br_dec32be m (p + 4)" n] by auto
    ultimately show ?thesis using k by (simp add: br_dec64be_def bit_simps dec32be_rcat bit_rcat l nth_append)
  qed
qed

context range_codec
begin

lemma rdec_map: "rdec n m p = map (\<lambda>i. dec m (p + w * i)) [0..<n]"
proof (induction n arbitrary: p)
  case (Suc n)
  have "map (\<lambda>i. dec m (p + w * i)) [0..<Suc n] = dec m p # map (\<lambda>i. dec m (p + w + w * i)) [0..<n]"
    by (simp add: upt_conv_Cons map_Suc_upt [symmetric] add.assoc del: upt_Suc)
  then show ?case by (simp only: rdec_Suc Suc.IH)
qed (simp add: rdec_0)

end

lemma load_list: "p + n \<le> length b \<Longrightarrow> load (\<lambda>i. b ! i) p n = take n (drop p b)"
  by (rule load_eqI) simp_all

lemma words_32: "length b = 64 \<Longrightarrow> br_range_dec32be 16 (\<lambda>p. b ! p) 0 = (fips_words b :: u32 list)"
  by (simp add: r32be.rdec_map fips_words_def word_bytes_def dec32be_rcat load_list)

lemma words_64: "length b = 128 \<Longrightarrow> br_range_dec64be 16 (\<lambda>p. b ! p) 0 = (fips_words b :: u64 list)"
  by (simp add: r64be.rdec_map fips_words_def word_bytes_def dec64be_rcat load_list)

lemma length_be_bytes [simp]: "length (be_bytes k n) = k"
  by (simp add: be_bytes_def)

lemma be_bytes_split: "be_bytes (j + k) n = be_bytes j (n div 256 ^ k) @ be_bytes k n"
proof (rule nth_equalityI)
  fix i
  assume "i < length (be_bytes (j + k) n)"
  then show "be_bytes (j + k) n ! i = (be_bytes j (n div 256 ^ k) @ be_bytes k n) ! i"
    by (auto simp: be_bytes_def nth_append div_mult2_eq [symmetric] power_add [symmetric] algebra_simps)
qed simp

lemma ucast_drop_byte: "ucast (drop_bit k (w :: 'a :: len word)) = (of_nat (unat w div 2 ^ k) :: byte)"
  by (metis drop_bit_eq_div of_nat_unat unat_drop_bit_eq)

lemma enc32be_bytes: "br_enc32be w = be_bytes 4 (unat w)"
  using ucast_drop_byte [of 0 w] ucast_drop_byte [of 8 w] ucast_drop_byte [of 16 w] ucast_drop_byte [of 24 w]
  by (simp add: br_enc32be_def be_bytes_def upt_rec)

lemma be_bytes_mod: "be_bytes k (n mod 256 ^ k) = be_bytes k n"
proof (rule nth_equalityI)
  fix i
  assume "i < length (be_bytes k (n mod 256 ^ k))"
  then have i: "i < k" by simp
  let ?j = "k - 1 - i"
  have k: "(256 :: nat) ^ k = 256 ^ ?j * (256 * 256 ^ i)" using i by (simp flip: power_add power_Suc)
  define q where "q = n div 256 ^ k"
  have "q * (256 * 256 ^ i) * 256 ^ ?j = 256 ^ k * q" by (simp add: k mult_ac)
  moreover have "n = n mod 256 ^ k + 256 ^ k * q" by (simp add: q_def)
  ultimately have "n = n mod 256 ^ k + q * (256 * 256 ^ i) * 256 ^ ?j" by (simp only:)
  then have "n div 256 ^ ?j = (n mod 256 ^ k + q * (256 * 256 ^ i) * 256 ^ ?j) div 256 ^ ?j" by simp
  also have "\<dots> = n mod 256 ^ k div 256 ^ ?j + q * 256 ^ i * 256" by simp
  finally have "(of_nat (n div 256 ^ ?j) :: byte) = of_nat (n mod 256 ^ k div 256 ^ ?j) + of_nat (q * 256 ^ i) * of_nat 256"
    by (simp only: of_nat_add of_nat_mult)
  moreover have "(of_nat 256 :: byte) = 0" by simp
  ultimately have "(of_nat (n div 256 ^ ?j) :: byte) = of_nat (n mod 256 ^ k div 256 ^ ?j)" by (simp only: mult_zero_right add_0_right)
  then show "be_bytes k (n mod 256 ^ k) ! i = be_bytes k n ! i" using i by (simp add: be_bytes_def)
qed simp

lemma enc64be_bytes: "br_enc64be w = be_bytes 8 (unat w)"
proof -
  have u: "unat (ucast x :: u32) = unat x mod 2 ^ 32" for x :: u64 by (simp only: unsigned_ucast_eq take_bit_eq_mod) simp
  have d: "unat (drop_bit 32 w) = unat w div 2 ^ 32" by (subst unat_drop_bit_eq) (rule drop_bit_eq_div)
  have "br_enc64be w = be_bytes 4 (unat w div 2 ^ 32 mod 256 ^ 4) @ be_bytes 4 (unat w mod 256 ^ 4)"
    unfolding br_enc64be_def enc32be_bytes u d by simp
  then show ?thesis using be_bytes_split [of 4 4 "unat w"] by (simp only: be_bytes_mod) simp
qed

section \<open>Schedule and steps\<close>

lemma schedule_W:
  assumes "length M = 16" "t < n"
  shows "sha2_schedule (sig0 F) (sig1 F) n M ! t = fips_W F M t"
proof -
  define w where "w k = foldl (\<lambda>w i. w @ [sig1 F (w ! (i - 2)) + w ! (i - 7) + sig0 F (w ! (i - 15)) + w ! (i - 16)]) M [16..<16 + k]" for k
  have w: "length (w k) = 16 + k \<and> (\<forall>t < 16 + k. w k ! t = fips_W F M t)" for k
  proof (induction k)
    case 0
    then show ?case using assms(1) by (simp add: w_def fips_W.simps)
  next
    case (Suc k)
    let ?i = "16 + k"
    have step: "w (Suc k) = w k @ [sig1 F (w k ! (?i - 2)) + w k ! (?i - 7) + sig0 F (w k ! (?i - 15)) + w k ! (?i - 16)]"
      unfolding w_def add_Suc_right upt_Suc_append [OF le_add1] foldl_append by simp
    moreover have "fips_W F M ?i = sig1 F (w k ! (?i - 2)) + w k ! (?i - 7) + sig0 F (w k ! (?i - 15)) + w k ! (?i - 16)"
      using Suc by (subst fips_W.simps) simp
    ultimately have "w (Suc k) ! t = fips_W F M t" if "t < 16 + Suc k" for t
      using Suc that by (cases "t = ?i") (simp_all add: nth_append)
    then show ?case using Suc step by simp
  qed
  show ?thesis
  proof (cases "16 \<le> n")
    case True
    then show ?thesis using w [of "n - 16"] assms(2) by (simp add: sha2_schedule_def w_def)
  next
    case False
    then show ?thesis using assms(2) by (simp add: sha2_schedule_def fips_W.simps)
  qed
qed

text \<open>Eight steps of the code with rotating names are eight rounds.\<close>

lemma eight_rounds:
  assumes "\<And>a b c d e f g h t. i \<le> t \<Longrightarrow> t < i + 8 \<Longrightarrow>
    R t (a, b, c, d, e, f, g, h) = (snd (STEP a b c d e f g h t), a, b, c, fst (STEP a b c d e f g h t), e, f, g)"
  shows "foldl (\<lambda>s t. R t s) s [i..<i + 8] = sha2_eight STEP i s"
proof -
  have u: "[i..<i + 8] = [i, i + 1, i + 2, i + 3, i + 4, i + 5, i + 6, i + 7]" by (simp add: upt_rec)
  obtain a b c d e f g h where s: "s = (a, b, c, d, e, f, g, h)" by (metis prod.exhaust)
  obtain d1 h1 where 1: "STEP a b c d e f g h (i + 0) = (d1, h1)" by fastforce
  obtain c1 g1 where 2: "STEP h1 a b c d1 e f g (i + 1) = (c1, g1)" by fastforce
  obtain b1 f1 where 3: "STEP g1 h1 a b c1 d1 e f (i + 2) = (b1, f1)" by fastforce
  obtain a1 e1 where 4: "STEP f1 g1 h1 a b1 c1 d1 e (i + 3) = (a1, e1)" by fastforce
  obtain h2 d2 where 5: "STEP e1 f1 g1 h1 a1 b1 c1 d1 (i + 4) = (h2, d2)" by fastforce
  obtain g2 c2 where 6: "STEP d2 e1 f1 g1 h2 a1 b1 c1 (i + 5) = (g2, c2)" by fastforce
  obtain f2 b2 where 7: "STEP c2 d2 e1 f1 g2 h2 a1 b1 (i + 6) = (f2, b2)" by fastforce
  obtain e2 a2 where 8: "STEP b2 c2 d2 e1 f2 g2 h2 a1 (i + 7) = (e2, a2)" by fastforce
  note st = 1 2 3 4 5 6 7 8
  show ?thesis
    unfolding u s foldl_Cons foldl_Nil sha2_eight_def Let_def
    using st by (simp add: assms)
qed

lemma loop_rounds:
  assumes "\<And>a b c d e f g h t. t < 8 * k \<Longrightarrow>
    R t (a, b, c, d, e, f, g, h) = (snd (STEP a b c d e f g h t), a, b, c, fst (STEP a b c d e f g h t), e, f, g)"
  shows "foldl (\<lambda>s i. sha2_eight STEP (8 * i) s) s [0..<k] = foldl (\<lambda>s t. R t s) s [0..<8 * k]"
  using assms
proof (induction k)
  case (Suc k)
  have "[0..<8 * Suc k] = [0..<8 * k] @ [8 * k..<8 * k + 8]" using upt_add_eq_append [of 0 "8 * k" 8] by (simp add: add.commute)
  moreover have "foldl (\<lambda>s t. R t s) u [8 * k..<8 * k + 8] = sha2_eight STEP (8 * k) u" for u
    by (rule eight_rounds) (use Suc.prems in simp)
  ultimately show ?case using Suc by simp
qed simp

lemma sha2small_block:
  assumes "length b = 64"
  shows "br_sha2small_round b v = fips_block sha256_fun (fips_words b) v"
proof -
  define w where "w = sha2_schedule SSG2_0 SSG2_1 64 (fips_words b)"
  have l: "length (fips_words b :: u32 list) = 16" by (simp add: fips_words_def)
  have W: "w ! t = fips_W sha256_fun (fips_words b) t" if "t < 64" for t
    using schedule_W [OF l that, of sha256_fun] by (simp add: w_def sigmas_32)
  have "foldl (\<lambda>s i. sha2_eight (SHA2_STEP w) (8 * i) s) s [0..<8] = foldl (\<lambda>s t. fips_round sha256_fun (fips_words b) t s) s [0..<8 * 8]" for s
  proof (rule loop_rounds)
    fix A B C D E F G H t
    assume "t < 8 * (8 :: nat)"
    then have "fips_W sha256_fun (fips_words b) t = w ! t" using W by simp
    moreover have "Kt sha256_fun t = sha2small_K ! t" by (simp add: sha256_fun_def)
    ultimately show "fips_round sha256_fun (fips_words b) t (A, B, C, D, E, F, G, H)
        = (snd (SHA2_STEP w A B C D E F G H t), A, B, C, fst (SHA2_STEP w A B C D E F G H t), E, F, G)"
      by (simp add: fips_round_def SHA2_STEP_def Let_def CH_fips MAJ_fips sigmas_32)
  qed
  then show ?thesis
    by (simp add: br_sha2small_round_def words_32 [OF assms] sha2_loop_def fips_block_def add.commute sha256_fun_def [THEN arg_cong, of rounds]
        flip: w_def split: prod.splits)
qed

lemma sha2big_block:
  assumes "length b = 128"
  shows "sha2big_round b v = fips_block sha512_fun (fips_words b) v"
proof -
  define w where "w = sha2_schedule SSG5_0 SSG5_1 80 (fips_words b)"
  have l: "length (fips_words b :: u64 list) = 16" by (simp add: fips_words_def)
  have W: "w ! t = fips_W sha512_fun (fips_words b) t" if "t < 80" for t
    using schedule_W [OF l that, of sha512_fun] by (simp add: w_def sigmas_64)
  have "foldl (\<lambda>s i. sha2_eight (SHA2BIG_STEP w) (8 * i) s) s [0..<10] = foldl (\<lambda>s t. fips_round sha512_fun (fips_words b) t s) s [0..<8 * 10]" for s
  proof (rule loop_rounds)
    fix A B C D E F G H t
    assume "t < 8 * (10 :: nat)"
    then have "fips_W sha512_fun (fips_words b) t = w ! t" using W by simp
    moreover have "Kt sha512_fun t = sha2big_K ! t" by (simp add: sha512_fun_def)
    ultimately show "fips_round sha512_fun (fips_words b) t (A, B, C, D, E, F, G, H)
        = (snd (SHA2BIG_STEP w A B C D E F G H t), A, B, C, fst (SHA2BIG_STEP w A B C D E F G H t), E, F, G)"
      by (simp add: fips_round_def SHA2BIG_STEP_def Let_def CH_fips MAJ_fips sigmas_64)
  qed
  then show ?thesis
    by (simp add: sha2big_round_def words_64 [OF assms] sha2_loop_def fips_block_def add.commute sha512_fun_def [THEN arg_cong, of rounds]
        flip: w_def split: prod.splits)
qed

section \<open>Hash functions\<close>

lemma fips_hash_blocks:
  assumes "bs = 16 * word_bytes TYPE('a :: len word)" "0 < bs"
    and "\<And>b v. length b = bs \<Longrightarrow> rnd b v = fips_block F (fips_words b :: 'a word list) v"
  shows "fst (md_blocks bs rnd v m) = fips_hash F v m"
proof (induction "length m" arbitrary: v m rule: less_induct)
  case less
  show ?case
  proof (cases "length m < bs")
    case True
    then show ?thesis using assms(1) by (simp add: md_blocks_short fips_hash.simps)
  next
    case False
    then have "fst (md_blocks bs rnd v m) = fips_hash F (rnd (take bs m) v) (drop bs m)"
      using less.hyps assms(2) by (subst md_blocks.simps) simp
    moreover have "fips_hash F v m = fips_hash F (fips_block F (fips_words (take bs m)) v) (drop bs m)"
      using False assms(1,2) by (subst fips_hash.simps) (simp add: Let_def)
    ultimately show ?thesis using assms(3) [of "take bs m"] False by simp
  qed
qed

lemma count_and: "unat (n AND 63 :: u64) = unat n mod 64" "unat (n AND 127 :: u64) = unat n mod 128"
  using take_bit_eq_mask [of 6 "unat n"] take_bit_eq_mask [of 7 "unat n"]
  by (simp_all add: unsigned_and_eq mask_eq_exp_minus_1 take_bit_eq_mod)

lemma length_sha2_loop [simp]: "length (sha2_loop S n v) = 8"
  by (simp add: sha2_loop_def split: prod.splits)

lemma length_concat_enc: "length (concat (map br_enc32be v)) = 4 * length v" "length (concat (map br_enc64be u)) = 8 * length u"
proof -
  show "length (concat (map br_enc32be v)) = 4 * length v" by (induction v) simp_all
  show "length (concat (map br_enc64be u)) = 8 * length u" by (induction u) simp_all
qed

lemma take_concat_enc: "concat (map br_enc32be (take n v)) = take (4 * n) (concat (map br_enc32be v))"
  "concat (map br_enc64be (take n u)) = take (8 * n) (concat (map br_enc64be u))"
proof -
  show "concat (map br_enc32be (take n v)) = take (4 * n) (concat (map br_enc32be v))"
    by (induction v arbitrary: n) (simp_all add: take_Cons' diff_mult_distrib2)
  show "concat (map br_enc64be (take n u)) = take (8 * n) (concat (map br_enc64be u))"
    by (induction u arbitrary: n) (simp_all add: take_Cons' diff_mult_distrib2)
qed

lemmas sha2_vtables = br_sha224_vtable_def br_sha256_vtable_def br_sha384_vtable_def br_sha512_vtable_def

lemma sha2_sizes:
  "br_digest_size br_sha224_vtable = 28" "br_digest_size br_sha256_vtable = 32" "br_digest_size br_sha384_vtable = 48"
  "br_digest_size br_sha512_vtable = 64" "block_size br_sha224_vtable = 64" "block_size br_sha256_vtable = 64"
  "block_size br_sha384_vtable = 128" "block_size br_sha512_vtable = 128"
  by (simp_all add: br_digest_size_def block_size_def sha2_vtables hashdesc_defs)

lemma dec_enc_8: "length v = 8 \<Longrightarrow> br_range_dec32be 8 (\<lambda>p. concat (map br_enc32be v) ! p) 0 = v"
  "length u = 8 \<Longrightarrow> br_range_dec64be 8 (\<lambda>p. concat (map br_enc64be u) ! p) 0 = u"
  using r32be.rdec_list [of v] r64be.rdec_list [of u] by simp_all

abbreviation "len64 \<equiv> \<lambda>n :: u64. br_enc64be (push_bit 3 n)"
abbreviation "len128 \<equiv> \<lambda>n :: u64. br_enc64be (drop_bit 61 n) @ br_enc64be (push_bit 3 n)"
abbreviation "enc32s \<equiv> \<lambda>v. concat (map br_enc32be v)"
abbreviation "enc64s \<equiv> \<lambda>v. concat (map br_enc64be v)"
abbreviation "dec32s n \<equiv> \<lambda>b. br_range_dec32be n (\<lambda>p. b ! p) 0"
abbreviation "dec64s n \<equiv> \<lambda>b. br_range_dec64be n (\<lambda>p. b ! p) 0"

lemmas sha2_ops = br_sha224_init_def br_sha256_init_def br_sha224_update_def br_sha224_out_def br_sha256_out_def
  br_sha224_state_def br_sha224_set_state_def br_sha384_init_def br_sha512_init_def br_sha384_update_def br_sha384_out_def
  br_sha512_out_def br_sha384_state_def br_sha384_set_state_def sha2small_update_def sha2small_out_def sha2big_update_def sha2big_out_def

lemmas sha2_ivs = br_sha224_IV_def br_sha256_IV_def IV384_def IV512_def

interpretation sha224: md_fun br_sha224_vtable br_sha2small_round enc32s "dec32s 8" br_sha224_IV 64 8 len64 False
  by unfold_locales (simp_all add: sha2_sizes, simp_all add: sha2_vtables sha2_ops sha2_ivs count_and Let_def take_concat_enc
      length_concat_enc dec_enc_8 br_sha2small_round_def)

interpretation sha256: md_fun br_sha256_vtable br_sha2small_round enc32s "dec32s 8" br_sha256_IV 64 8 len64 False
  by unfold_locales (simp_all add: sha2_sizes, simp_all add: sha2_vtables sha2_ops sha2_ivs count_and Let_def take_concat_enc
      length_concat_enc dec_enc_8 br_sha2small_round_def)

interpretation sha384: md_fun br_sha384_vtable sha2big_round enc64s "dec64s 8" IV384 128 16 len128 False
  by unfold_locales (simp_all add: sha2_sizes, simp_all add: sha2_vtables sha2_ops sha2_ivs count_and Let_def take_concat_enc
      length_concat_enc dec_enc_8 sha2big_round_def)

interpretation sha512: md_fun br_sha512_vtable sha2big_round enc64s "dec64s 8" IV512 128 16 len128 False
  by unfold_locales (simp_all add: sha2_sizes, simp_all add: sha2_vtables sha2_ops sha2_ivs count_and Let_def take_concat_enc
      length_concat_enc dec_enc_8 sha2big_round_def)

lemma length_field_64: "len64 (of_nat n) = be_bytes 8 (8 * n)"
proof -
  have "push_bit 3 (of_nat n :: u64) = of_nat (8 * n)" by (simp add: push_bit_eq_mult)
  then have "len64 (of_nat n) = be_bytes 8 (8 * n mod 256 ^ 8)"
    by (simp only: enc64be_bytes unat_of_nat take_bit_eq_mod) simp
  then show ?thesis by (simp only: be_bytes_mod)
qed

lemma length_field_128:
  assumes "n < 2 ^ 64"
  shows "len128 (of_nat n) = be_bytes 16 (8 * n)"
proof -
  have "unat (drop_bit 61 (of_nat n :: u64)) = unat (of_nat n :: u64) div 2 ^ 61" by (subst unat_drop_bit_eq) (rule drop_bit_eq_div)
  also have "\<dots> = 8 * n div 256 ^ 8" using assms by (simp add: unat_of_nat take_bit_nat_eq_self div_mult2_eq [of _ 8 "2 ^ 61", simplified])
  finally show ?thesis
    using be_bytes_split [of 8 8 "8 * n"] length_field_64 [of n] by (simp add: enc64be_bytes)
qed

lemma small_hash: "md_hash 64 br_sha2small_round iv enc32s k 8 len64 m = fips_sha sha256_fun iv k m"
proof -
  have "fst (md_blocks 64 br_sha2small_round iv p) = fips_hash sha256_fun iv p" for p
    by (rule fips_hash_blocks) (simp_all add: word_bytes_def sha2small_block)
  moreover have "m @ md_padding 64 8 (len64 (of_nat (length m))) (length m) = fips_padded 4 m"
    by (simp add: md_padding_def fips_padded_def length_field_64)
  ultimately show ?thesis
    by (simp add: md_hash_def fips_sha_def word_bytes_def enc32be_bytes [abs_def])
qed

lemma big_hash:
  assumes "length m < 2 ^ 64"
  shows "md_hash 128 sha2big_round iv enc64s k 16 len128 m = fips_sha sha512_fun iv k m"
proof -
  have "fst (md_blocks 128 sha2big_round iv p) = fips_hash sha512_fun iv p" for p
    by (rule fips_hash_blocks) (simp_all add: word_bytes_def sha2big_block)
  moreover have "m @ md_padding 128 16 (len128 (of_nat (length m))) (length m) = fips_padded 8 m"
    unfolding length_field_128 [OF assms] by (simp add: md_padding_def fips_padded_def)
  ultimately show ?thesis
    by (simp add: md_hash_def fips_sha_def word_bytes_def enc64be_bytes [abs_def])
qed

section \<open>Constants\<close>

lemma constants_small: "list_all2 (frac_root 3 32) (take 64 first_primes) (map uint sha2small_K)"
  by code_simp

lemma constants_big: "list_all2 (frac_root 3 64) first_primes (map uint sha2big_K)"
  by code_simp

lemma constants_iv:
  "list_all2 (frac_root 2 32) (take 8 first_primes) (map uint br_sha256_IV)"
  "list_all2 (frac_root 2 64) (take 8 first_primes) (map uint IV512)"
  "list_all2 (frac_root 2 64) (take 8 (drop 8 first_primes)) (map uint IV384)"
  "br_sha224_IV = map ucast IV384"
proof -
  show "list_all2 (frac_root 2 32) (take 8 first_primes) (map uint br_sha256_IV)" by code_simp
  show "list_all2 (frac_root 2 64) (take 8 first_primes) (map uint IV512)" by code_simp
  show "list_all2 (frac_root 2 64) (take 8 (drop 8 first_primes)) (map uint IV384)" by code_simp
  show "br_sha224_IV = map ucast IV384" by (simp add: br_sha224_IV_def IV384_def)
qed

text \<open>
  C9. SHA-2 is FIPS 180-4: whatever pieces a message is given in, the output of the four functions
  is the digest of the standard, for messages of fewer than \<open>2 ^ 64\<close> bytes; and the constants of the
  code are the leading fractional bits of the roots of the first primes (those of SHA-224 the second
  32 bits).
\<close>

theorem sha2_is_fips180:
  fixes ds :: "byte list list"
  defines "m \<equiv> concat ds"
  assumes "length m < 2 ^ 64"
  shows "br_sha224_out (foldl br_sha224_update br_sha224_init ds) = fips_sha sha256_fun br_sha224_IV 28 m
    \<and> br_sha256_out (foldl br_sha224_update br_sha256_init ds) = fips_sha sha256_fun br_sha256_IV 32 m
    \<and> br_sha384_out (foldl br_sha384_update br_sha384_init ds) = fips_sha sha512_fun IV384 48 m
    \<and> br_sha512_out (foldl br_sha384_update br_sha512_init ds) = fips_sha sha512_fun IV512 64 m
    \<and> list_all2 (frac_root 3 32) (take 64 first_primes) (map uint sha2small_K)
    \<and> list_all2 (frac_root 3 64) first_primes (map uint sha2big_K)
    \<and> list_all2 (frac_root 2 32) (take 8 first_primes) (map uint br_sha256_IV)
    \<and> list_all2 (frac_root 2 64) (take 16 first_primes) (map uint (IV512 @ IV384))
    \<and> br_sha224_IV = map ucast IV384"
proof -
  have "br_sha224_out (foldl br_sha224_update br_sha224_init ds) = fips_sha sha256_fun br_sha224_IV 28 m"
    "br_sha256_out (foldl br_sha224_update br_sha256_init ds) = fips_sha sha256_fun br_sha256_IV 32 m"
    using sha224.hash_chunks [of ds] sha256.hash_chunks [of ds]
    by (simp_all add: sha2_sizes small_hash m_def) (simp_all add: sha2_vtables)
  moreover have "br_sha384_out (foldl br_sha384_update br_sha384_init ds) = fips_sha sha512_fun IV384 48 m"
    "br_sha512_out (foldl br_sha384_update br_sha512_init ds) = fips_sha sha512_fun IV512 64 m"
    using sha384.hash_chunks [of ds] sha512.hash_chunks [of ds] assms(2)
    by (simp_all add: sha2_sizes big_hash m_def) (simp_all add: sha2_vtables)
  moreover have "take 16 first_primes = take 8 first_primes @ take 8 (drop 8 first_primes)" by (simp add: first_primes_def)
  then have "list_all2 (frac_root 2 64) (take 16 first_primes) (map uint (IV512 @ IV384))"
    using constants_iv(2,3) by (simp add: list_all2_appendI)
  ultimately show ?thesis using constants_small constants_big constants_iv(1,4) by blast
qed

theorem sha2_is_fips180_witness:
  "br_sha256_out (foldl br_sha224_update br_sha256_init [[97], [98, 99]]) = fips_sha sha256_fun br_sha256_IV 32 [97, 98, 99]"
  using sha2_is_fips180 [of "[[97], [98, 99]]"] by simp

end
