(* ===== verification/Sha1.thy ===== *)
theory Sha1
  imports Sha2_Fips
begin

text \<open>
  SHA-1 (\<^verbatim>\<open>hash/sha1.c\<close>) and its equivalence with FIPS 180-4, section 6.1. The loops of the compression
  function do five steps with rotating names in each turn.
\<close>

unbundle bit_operations_syntax

section \<open>The code\<close>

definition sha1_F :: "u32 \<Rightarrow> u32 \<Rightarrow> u32 \<Rightarrow> u32" where "sha1_F B C D = ((C XOR D) AND B) XOR D"
definition sha1_G :: "u32 \<Rightarrow> u32 \<Rightarrow> u32 \<Rightarrow> u32" where "sha1_G B C D = B XOR C XOR D"
definition sha1_H :: "u32 \<Rightarrow> u32 \<Rightarrow> u32 \<Rightarrow> u32" where "sha1_H B C D = (D AND C) OR ((D OR C) AND B)"
definition sha1_I :: "u32 \<Rightarrow> u32 \<Rightarrow> u32 \<Rightarrow> u32" where "sha1_I B C D = sha1_G B C D"

definition ROTL :: "u32 \<Rightarrow> nat \<Rightarrow> u32" where "ROTL x n = push_bit n x OR drop_bit (32 - n) x"

definition sha1_K1 :: u32 where "sha1_K1 = 0x5A827999"
definition sha1_K2 :: u32 where "sha1_K2 = 0x6ED9EBA1"
definition sha1_K3 :: u32 where "sha1_K3 = 0x8F1BBCDC"
definition sha1_K4 :: u32 where "sha1_K4 = 0xCA62C1D6"

definition br_sha1_IV :: "u32 list" where
  "br_sha1_IV = [0x67452301, 0xEFCDAB89, 0x98BADCFE, 0x10325476, 0xC3D2E1F0]"

text \<open>One line of the loops gives new values of its variables \<open>e\<close> and \<open>b\<close>.\<close>

definition sha1_line :: "(u32 \<Rightarrow> u32 \<Rightarrow> u32 \<Rightarrow> u32) \<Rightarrow> u32 \<Rightarrow> u32 \<Rightarrow> u32 \<Rightarrow> u32 \<Rightarrow> u32 \<Rightarrow> u32 \<Rightarrow> u32 \<Rightarrow> u32 \<times> u32" where
  "sha1_line f k x a b c d e = (e + (ROTL a 5 + f b c d + k + x), ROTL b 30)"

type_synonym five = "u32 \<times> u32 \<times> u32 \<times> u32 \<times> u32"

definition sha1_five :: "(u32 \<Rightarrow> u32 \<Rightarrow> u32 \<Rightarrow> u32) \<Rightarrow> u32 \<Rightarrow> u32 list \<Rightarrow> nat \<Rightarrow> five \<Rightarrow> five" where
  "sha1_five f k m i = (\<lambda>(a, b, c, d, e).
     (let (e, b) = sha1_line f k (m ! (i + 0)) a b c d e;
          (d, a) = sha1_line f k (m ! (i + 1)) e a b c d;
          (c, e) = sha1_line f k (m ! (i + 2)) d e a b c;
          (b, d) = sha1_line f k (m ! (i + 3)) c d e a b;
          (a, c) = sha1_line f k (m ! (i + 4)) b c d e a
      in (a, b, c, d, e)))"

definition sha1_schedule :: "u32 list \<Rightarrow> u32 list" where
  "sha1_schedule m =
     foldl (\<lambda>m i. let x = m ! (i - 3) XOR m ! (i - 8) XOR m ! (i - 14) XOR m ! (i - 16) in m @ [ROTL x 1]) m [16..<80]"

definition sha1_loops :: "u32 list \<Rightarrow> five \<Rightarrow> five" where
  "sha1_loops m s =
     (let s = foldl (\<lambda>s i. sha1_five sha1_F sha1_K1 m (5 * i) s) s [0..<4];
          s = foldl (\<lambda>s i. sha1_five sha1_G sha1_K2 m (5 * i) s) s [4..<8];
          s = foldl (\<lambda>s i. sha1_five sha1_H sha1_K3 m (5 * i) s) s [8..<12];
          s = foldl (\<lambda>s i. sha1_five sha1_I sha1_K4 m (5 * i) s) s [12..<16]
      in s)"

definition br_sha1_round :: "byte list \<Rightarrow> u32 list \<Rightarrow> u32 list" where
  "br_sha1_round buf val =
     (let m = sha1_schedule (br_range_dec32be 16 (\<lambda>p. buf ! p) 0);
          (a, b, c, d, e) = sha1_loops m (val ! 0, val ! 1, val ! 2, val ! 3, val ! 4)
      in [val ! 0 + a, val ! 1 + b, val ! 2 + c, val ! 3 + d, val ! 4 + e])"

definition br_sha1_init :: "u32 hash_ctx" where
  "br_sha1_init = \<lparr>hbuf = replicate 64 0, hcount = 0, hval = br_sha1_IV\<rparr>"

definition br_sha1_update :: "u32 hash_ctx \<Rightarrow> byte list \<Rightarrow> u32 hash_ctx" where
  "br_sha1_update cc data = update_loop 64 br_sha1_round True (unat (hcount cc AND 63)) cc data"

definition br_sha1_out :: "u32 hash_ctx \<Rightarrow> byte list" where
  "br_sha1_out cc =
     (let ptr = unat (hcount cc AND 63);
          val = md_final 64 56 br_sha1_round (br_enc64be (push_bit 3 (hcount cc))) ptr cc
      in concat (map br_enc32be (take 5 val)))"

definition br_sha1_state :: "u32 hash_ctx \<Rightarrow> byte list \<times> u64" where
  "br_sha1_state cc = (concat (map br_enc32be (hval cc)), hcount cc)"

definition br_sha1_set_state :: "u32 hash_ctx \<Rightarrow> byte list \<Rightarrow> u64 \<Rightarrow> u32 hash_ctx" where
  "br_sha1_set_state cc stb count = cc\<lparr>hval := br_range_dec32be 5 (\<lambda>p. stb ! p) 0, hcount := count\<rparr>"

definition br_sha1_vtable :: "u32 hash_ctx hash_class" where
  "br_sha1_vtable = \<lparr>desc = BR_HASHDESC_ID 2 OR BR_HASHDESC_OUT 20 OR BR_HASHDESC_STATE 20 OR BR_HASHDESC_LBLEN 6
       OR BR_HASHDESC_MD_PADDING OR BR_HASHDESC_MD_PADDING_BE,
     hc_init = br_sha1_init, hc_update = br_sha1_update, hc_out = br_sha1_out, hc_state = br_sha1_state,
     hc_set_state = br_sha1_set_state\<rparr>"

section \<open>FIPS 180-4, sections 4.1.1, 4.2.1 and 6.1.2\<close>

definition fips1_f :: "nat \<Rightarrow> u32 \<Rightarrow> u32 \<Rightarrow> u32 \<Rightarrow> u32" where
  "fips1_f t x y z = (if t < 20 then fips_Ch x y z else if 40 \<le> t \<and> t < 60 then fips_Maj x y z else x XOR y XOR z)"

definition fips1_K :: "nat \<Rightarrow> u32" where
  "fips1_K t = (if t < 20 then 0x5a827999 else if t < 40 then 0x6ed9eba1 else if t < 60 then 0x8f1bbcdc else 0xca62c1d6)"

function fips1_W :: "u32 list \<Rightarrow> nat \<Rightarrow> u32" where
  "fips1_W M t = (if t < 16 then M ! t
     else word_rotl 1 (fips1_W M (t - 3) XOR fips1_W M (t - 8) XOR fips1_W M (t - 14) XOR fips1_W M (t - 16)))"
  by pat_completeness auto
termination
  by (relation "measure (\<lambda>(_, t). t)") auto

declare fips1_W.simps [simp del]

definition fips1_round :: "u32 list \<Rightarrow> nat \<Rightarrow> five \<Rightarrow> five" where
  "fips1_round M t = (\<lambda>(a, b, c, d, e).
     let T = word_rotl 5 a + fips1_f t b c d + e + fips1_K t + fips1_W M t in (T, a, word_rotl 30 b, c, d))"

definition fips1_block :: "u32 list \<Rightarrow> u32 list \<Rightarrow> u32 list" where
  "fips1_block M H =
     (let (a, b, c, d, e) = foldl (\<lambda>s t. fips1_round M t s) (H ! 0, H ! 1, H ! 2, H ! 3, H ! 4) [0..<80]
      in [a + H ! 0, b + H ! 1, c + H ! 2, d + H ! 3, e + H ! 4])"

definition fips_sha1 :: "byte list \<Rightarrow> byte list" where
  "fips_sha1 m =
     concat (map (\<lambda>w. be_bytes 4 (unat w))
       (fst (md_blocks 64 (\<lambda>b. fips1_block (fips_words b))
         [0x67452301, 0xefcdab89, 0x98badcfe, 0x10325476, 0xc3d2e1f0] (fips_padded 4 m))))"

section \<open>Compression\<close>

lemma ROTL_rotl:
  assumes "0 < n" "n < 32"
  shows "ROTL x n = word_rotl n x"
proof -
  have "ROTL x n = ROTR x (32 - n)" using assms by (simp add: ROTL_def ROTR_def)
  also have "\<dots> = word_rotr (32 - n) x" using assms by (intro ROTR_rotr) simp_all
  also have "\<dots> = word_rotl n x" using assms by (simp add: word_rotl_eq_word_rotr)
  finally show ?thesis .
qed

lemma sha1_funs: "sha1_F = fips_Ch" "sha1_G x y z = x XOR y XOR z" "sha1_H = fips_Maj" "sha1_I x y z = x XOR y XOR z"
proof -
  show "sha1_F = fips_Ch" by (intro ext bit_word_eqI) (auto simp: sha1_F_def fips_Ch_def bit_simps)
  show "sha1_H = fips_Maj" by (intro ext bit_word_eqI) (auto simp: sha1_H_def fips_Maj_def bit_simps)
qed (simp_all add: sha1_G_def sha1_I_def)

text \<open>A schedule that grows from 16 words.\<close>

lemma schedule_grows:
  assumes "length M = 16" "\<And>t. t < 16 \<Longrightarrow> W t = M ! t"
    and "\<And>i w. 16 \<le> i \<Longrightarrow> (\<And>t. t < i \<Longrightarrow> w ! t = W t) \<Longrightarrow> g w i = W i"
    and "16 \<le> n" "t < n"
  shows "foldl (\<lambda>w i. w @ [g w i]) M [16..<n] ! t = W t"
proof -
  define w where "w k = foldl (\<lambda>w i. w @ [g w i]) M [16..<16 + k]" for k
  have "length (w k) = 16 + k \<and> (\<forall>t < 16 + k. w k ! t = W t)" for k
  proof (induction k)
    case (Suc k)
    have step: "w (Suc k) = w k @ [g (w k) (16 + k)]"
      unfolding w_def add_Suc_right upt_Suc_append [OF le_add1] foldl_append by simp
    moreover have "g (w k) (16 + k) = W (16 + k)" using Suc assms(3) [of "16 + k" "w k"] by simp
    ultimately have "w (Suc k) ! t = W t" if "t < 16 + Suc k" for t
      using Suc that by (cases "t = 16 + k") (simp_all add: nth_append)
    then show ?case using Suc step by simp
  qed (use assms in \<open>simp add: w_def\<close>)
  from this [of "n - 16"] show ?thesis using assms(4,5) by (simp add: w_def)
qed

lemma sha1_schedule_W:
  assumes "length M = 16" "t < 80"
  shows "sha1_schedule M ! t = fips1_W M t"
  unfolding sha1_schedule_def Let_def
proof (rule schedule_grows [OF assms(1)])
  fix i :: nat and w :: "u32 list"
  assume i: "16 \<le> i" "\<And>t. t < i \<Longrightarrow> w ! t = fips1_W M t"
  then show "ROTL (w ! (i - 3) XOR w ! (i - 8) XOR w ! (i - 14) XOR w ! (i - 16)) 1 = fips1_W M i"
    by (subst fips1_W.simps) (simp add: ROTL_rotl)
qed (simp_all add: fips1_W.simps assms)

text \<open>Turns of several steps: if a turn at \<open>n * i\<close> is \<open>n\<close> steps, the loop is the steps one after the other.\<close>

lemma turns_are_steps:
  assumes "\<And>i s. a \<le> i \<Longrightarrow> i < b \<Longrightarrow> turn (n * i) s = foldl (\<lambda>s t. R t s) s [n * i..<n * i + n]" "a \<le> b"
  shows "foldl (\<lambda>s i. turn (n * i) s) s [a..<b] = foldl (\<lambda>s t. R t s) s [n * a..<n * b]"
  using assms
proof (induction b)
  case (Suc b)
  show ?case
  proof (cases "a = Suc b")
    case False
    then have "a \<le> b" using Suc.prems(2) by simp
    moreover from this have "[n * a..<n * Suc b] = [n * a..<n * b] @ [n * b..<n * b + n]"
      using upt_add_eq_append [of "n * a" "n * b" n] by (simp add: add.commute)
    ultimately show ?thesis using Suc by simp
  qed simp
qed simp

lemma five_steps:
  assumes "\<And>t a b c d e. i \<le> t \<Longrightarrow> t < i + 5 \<Longrightarrow>
    R t (a, b, c, d, e) = (fst (sha1_line f k (m ! t) a b c d e), a, snd (sha1_line f k (m ! t) a b c d e), c, d)"
  shows "sha1_five f k m i s = foldl (\<lambda>s t. R t s) s [i..<i + 5]"
proof -
  have u: "[i..<i + 5] = [i, i + 1, i + 2, i + 3, i + 4]" by (simp add: upt_rec)
  obtain a b c d e where s: "s = (a, b, c, d, e)" by (metis prod.exhaust)
  show ?thesis unfolding u s foldl_Cons foldl_Nil
    by (simp add: assms sha1_five_def case_prod_unfold Let_def)
qed

lemma sha1_turns:
  assumes "length b = 64" "q \<le> 16" "p \<le> q" "\<And>t x y z. 5 * p \<le> t \<Longrightarrow> t < 5 * q \<Longrightarrow> fips1_f t x y z = f x y z \<and> fips1_K t = k"
  shows "foldl (\<lambda>s i. sha1_five f k (sha1_schedule (fips_words b)) (5 * i) s) s [p..<q]
    = foldl (\<lambda>s t. fips1_round (fips_words b) t s) s [5 * p..<5 * q]"
proof (rule turns_are_steps [OF _ assms(3)])
  fix i s
  assume i: "p \<le> i" "i < q"
  show "sha1_five f k (sha1_schedule (fips_words b)) (5 * i) s = foldl (\<lambda>s t. fips1_round (fips_words b) t s) s [5 * i..<5 * i + 5]"
  proof (rule five_steps)
    fix t a b' c d e
    assume t: "5 * i \<le> t" "t < 5 * i + 5"
    then have "sha1_schedule (fips_words b) ! t = fips1_W (fips_words b) t"
      using i assms(2) by (intro sha1_schedule_W) (simp_all add: fips_words_def)
    moreover have "fips1_f t x y z = f x y z \<and> fips1_K t = k" for x y z using t i by (intro assms(4)) simp_all
    ultimately show "fips1_round (fips_words b) t (a, b', c, d, e)
        = (fst (sha1_line f k (sha1_schedule (fips_words b) ! t) a b' c d e), a, snd (sha1_line f k (sha1_schedule (fips_words b) ! t) a b' c d e), c, d)"
      by (simp add: fips1_round_def sha1_line_def ROTL_rotl Let_def add_ac)
  qed
qed

lemma sha1_block:
  assumes "length b = 64"
  shows "br_sha1_round b v = fips1_block (fips_words b) v"
proof -
  let ?steps = "\<lambda>s p q. foldl (\<lambda>s t. fips1_round (fips_words b) t s) s [p..<q]"
  have r: "foldl (\<lambda>s i. sha1_five sha1_F sha1_K1 (sha1_schedule (fips_words b)) (5 * i) s) s [0..<4] = ?steps s (5 * 0) (5 * 4)"
      "foldl (\<lambda>s i. sha1_five sha1_G sha1_K2 (sha1_schedule (fips_words b)) (5 * i) s) s [4..<8] = ?steps s (5 * 4) (5 * 8)"
      "foldl (\<lambda>s i. sha1_five sha1_H sha1_K3 (sha1_schedule (fips_words b)) (5 * i) s) s [8..<12] = ?steps s (5 * 8) (5 * 12)"
      "foldl (\<lambda>s i. sha1_five sha1_I sha1_K4 (sha1_schedule (fips_words b)) (5 * i) s) s [12..<16] = ?steps s (5 * 12) (5 * 16)" for s
    by (rule sha1_turns [OF assms]; simp add: fips1_f_def fips1_K_def sha1_funs sha1_K1_def sha1_K2_def sha1_K3_def sha1_K4_def)+
  have "[0..<80] = [5 * 0..<5 * 4] @ [5 * 4..<5 * 8] @ [5 * 8..<5 * 12] @ [5 * 12..<5 * 16 :: nat]"
    by code_simp
  then have "sha1_loops (sha1_schedule (fips_words b)) s = ?steps s 0 80" for s
    unfolding sha1_loops_def Let_def r by (simp only: foldl_append)
  then show ?thesis
    by (simp add: br_sha1_round_def fips1_block_def words_32 [OF assms] add.commute split: prod.splits)
qed

section \<open>Hash function\<close>

lemma sha1_sizes: "br_digest_size br_sha1_vtable = 20" "block_size br_sha1_vtable = 64"
  by (simp_all add: br_digest_size_def block_size_def br_sha1_vtable_def hashdesc_defs)

lemmas sha1_ops = br_sha1_init_def br_sha1_update_def br_sha1_out_def br_sha1_state_def br_sha1_set_state_def

lemma dec_enc_5: "length v = Suc (Suc (Suc (Suc (Suc 0)))) \<Longrightarrow> dec32s 5 (enc32s v) = v"
  using r32be.rdec_list [of v] by (simp only: numeral_eq_Suc pred_numeral_simps BitM.simps numeral_One One_nat_def)

interpretation sha1: md_fun br_sha1_vtable br_sha1_round enc32s "dec32s 5" br_sha1_IV 64 8 len64 True
  by unfold_locales (simp_all add: sha1_sizes, simp_all add: dec_enc_5 br_sha1_vtable_def sha1_ops br_sha1_IV_def count_and Let_def take_concat_enc
      length_concat_enc br_sha1_round_def split: prod.splits)

lemma md_blocks_cong:
  assumes "\<And>b v. length b = bs \<Longrightarrow> f b v = g b v" "0 < bs"
  shows "md_blocks bs f v m = md_blocks bs g v m"
proof (induction "length m" arbitrary: v m rule: less_induct)
  case less
  show ?case
  proof (cases "length m < bs")
    case False
    with assms less show ?thesis by (subst (1 2) md_blocks.simps) simp
  qed (simp add: md_blocks_short)
qed

lemma sha1_hash: "md_hash 64 br_sha1_round br_sha1_IV enc32s 20 8 len64 m = fips_sha1 m"
proof -
  have "md_blocks 64 br_sha1_round v p = md_blocks 64 (\<lambda>b. fips1_block (fips_words b)) v p" for v p
    by (rule md_blocks_cong) (simp_all add: sha1_block)
  moreover have "m @ md_padding 64 8 (len64 (of_nat (length m))) (length m) = fips_padded 4 m"
    by (simp add: md_padding_def fips_padded_def length_field_64)
  moreover have "length (enc32s (fst (md_blocks 64 br_sha1_round br_sha1_IV p))) = 20" for p
    unfolding length_concat_enc sha1.length_blocks [OF refl] by (simp add: br_sha1_IV_def)
  ultimately show ?thesis
    by (simp add: md_hash_def fips_sha1_def br_sha1_IV_def enc32be_bytes [abs_def])
qed

end
