(* ===== verification/Md5_Sine.thy ===== *)
theory Md5_Sine
  imports Complex_Main
begin

text \<open>
  The table \<open>T\<close> of RFC 1321, section 3.4: \<open>T[i]\<close> is the integer part of 4294967296 times \<open>abs (sin i)\<close>, with \<open>i\<close> in
  radians. The values are computed in fixed point with 48 fractional bits, from the series of sine and
  cosine at 1 and the rotation by one radian; a bound on the error shows that the integer parts are right.
\<close>

definition rfc1321_T :: "nat \<Rightarrow> int" where
  "rfc1321_T i = \<lfloor>4294967296 * \<bar>sin (real i)\<bar>\<rfloor>"

section \<open>Sine and cosine of one radian\<close>

text \<open>The partial sums of the two series at 1, multiplied by \<open>fact (n - 1)\<close>.\<close>

definition sin_sign :: "nat \<Rightarrow> int" where "sin_sign n = (if even n then 0 else (-1) ^ ((n - 1) div 2))"
definition cos_sign :: "nat \<Rightarrow> int" where "cos_sign n = (if even n then (-1) ^ (n div 2) else 0)"

fun series :: "(nat \<Rightarrow> int) \<Rightarrow> nat \<Rightarrow> int" where
  "series f 0 = 0"
| "series f (Suc n) = int n * series f n + f n"

lemma series_sum:
  assumes "\<And>m. g m = of_int (f m) / fact m"
  shows "(\<Sum>m < Suc n. g m) = of_int (series f (Suc n)) / (fact n :: real)"
proof (induction n)
  case (Suc n)
  have "(\<Sum>m < Suc (Suc n). g m) = of_int (series f (Suc n)) / fact n + of_int (f (Suc n)) / fact (Suc n)"
    using Suc assms [of "Suc n"] by simp
  also have "\<dots> = (real (Suc n) * of_int (series f (Suc n)) + of_int (f (Suc n))) / fact (Suc n)"
    by (simp add: add_divide_distrib del: series.simps of_nat_Suc)
  finally show ?case by (simp only: series.simps(2) [of f "Suc n"]) simp
qed (simp add: assms)

lemma sin_1_bound: "\<bar>sin 1 - of_int (series sin_sign (Suc n)) / fact n\<bar> \<le> 1 / (fact (Suc n) :: real)"
proof -
  have "(\<Sum>m < Suc n. sin_coeff m) = of_int (series sin_sign (Suc n)) / (fact n :: real)"
    by (rule series_sum) (simp add: sin_coeff_def sin_sign_def)
  with Maclaurin_sin_bound [of 1 "Suc n"] show ?thesis by (simp add: inverse_eq_divide)
qed

lemma cos_1_bound: "\<bar>cos 1 - of_int (series cos_sign (Suc n)) / fact n\<bar> \<le> 1 / (fact (Suc n) :: real)"
proof -
  have "(\<Sum>m < Suc n. cos_coeff m) = of_int (series cos_sign (Suc n)) / (fact n :: real)"
    by (rule series_sum) (simp add: cos_coeff_def cos_sign_def)
  moreover obtain t :: real where "cos 1 = (\<Sum>m < Suc n. cos_coeff m) + cos (t + 1/2 * real (Suc n) * pi) / fact (Suc n)"
    using Maclaurin_cos_expansion [of 1 "Suc n"] by auto
  ultimately have "cos 1 - of_int (series cos_sign (Suc n)) / (fact n :: real) = cos (t + 1/2 * real (Suc n) * pi) / fact (Suc n)"
    by simp
  moreover have "\<bar>cos (t + 1/2 * real (Suc n) * pi)\<bar> / fact (Suc n) \<le> 1 / (fact (Suc n) :: real)"
    by (intro divide_right_mono) simp_all
  ultimately show ?thesis by (simp only: abs_divide abs_of_pos [OF fact_gt_zero])
qed

section \<open>Rotation in fixed point\<close>

definition scale :: int where "scale = 281474976710656"

lemma scale_pos: "0 < scale"
  by (simp add: scale_def)

definition unit_s :: int where "unit_s = scale * series sin_sign 22 div 51090942171709440000"
definition unit_c :: int where "unit_c = scale * series cos_sign 22 div 51090942171709440000"

definition rotate_1 :: "int \<times> int \<Rightarrow> int \<times> int" where
  "rotate_1 = (\<lambda>(c, s). ((c * unit_c - s * unit_s) div scale, (s * unit_c + c * unit_s) div scale))"

definition point :: "int \<times> int \<Rightarrow> complex" where
  "point p = Complex (of_int (fst p)) (of_int (snd p))"

definition close_to :: "int \<times> int \<Rightarrow> real \<Rightarrow> real \<Rightarrow> bool" where
  "close_to p x d \<longleftrightarrow> cmod (point p - of_int scale * cis x) \<le> d"

lemma div_close: "0 < b \<Longrightarrow> \<bar>of_int (a div b) - of_int a / of_int b\<bar> \<le> (1 :: real)"
  using floor_divide_of_int_eq [of a b, where ?'a = real] floor_correct [of "of_int a / of_int b :: real"]
  by linarith

lemma unit_values: "unit_s = 236853025851495" "unit_c = 152081578960948"
  by code_simp+

lemma fact_22: "fact 21 = (51090942171709440000 :: real)" "fact 22 = (1124000727777607680000 :: real)"
  by (simp_all add: fact_numeral)

lemma scaled_close:
  assumes "\<bar>x - of_int z / fact 21\<bar> \<le> 1 / (fact 22 :: real)"
  shows "\<bar>of_int (scale * z div 51090942171709440000) - of_int scale * x\<bar> \<le> 2"
proof -
  let ?q = "of_int z / 51090942171709440000 :: real"
  have p: "0 \<le> (of_int scale :: real)" by (simp add: scale_def)
  have "\<bar>of_int scale * x - of_int scale * ?q\<bar> = of_int scale * \<bar>x - ?q\<bar>"
    using p by (simp only: right_diff_distrib [symmetric] abs_mult abs_of_nonneg)
  also have "\<dots> \<le> of_int scale * (1 / 1124000727777607680000)"
    using mult_left_mono [OF assms p] by (simp only: fact_22)
  finally have "\<bar>of_int scale * x - of_int scale * ?q\<bar> \<le> of_int scale * (1 / 1124000727777607680000)" .
  moreover have "\<bar>of_int (scale * z div 51090942171709440000) - of_int scale * ?q\<bar> \<le> 1"
    using div_close [of 51090942171709440000 "scale * z"] by simp
  moreover have "of_int scale * (1 / 1124000727777607680000) \<le> (1 :: real)" by (simp add: scale_def)
  ultimately show ?thesis by linarith
qed

lemma cmod_le_parts: "\<bar>Re z\<bar> \<le> a \<Longrightarrow> \<bar>Im z\<bar> \<le> b \<Longrightarrow> cmod z \<le> a + b"
  using cmod_le [of z] by linarith

lemma unit_close: "close_to (unit_c, unit_s) 1 4"
proof -
  have "\<bar>of_int unit_s - of_int scale * sin 1\<bar> \<le> (2 :: real)" unfolding unit_s_def
    by (rule scaled_close) (use sin_1_bound [of 21] in \<open>simp del: series.simps fact_Suc\<close>)
  moreover have "\<bar>of_int unit_c - of_int scale * cos 1\<bar> \<le> (2 :: real)" unfolding unit_c_def
    by (rule scaled_close) (use cos_1_bound [of 21] in \<open>simp del: series.simps fact_Suc\<close>)
  ultimately show ?thesis unfolding close_to_def
    using cmod_le_parts [of "point (unit_c, unit_s) - of_int scale * cis 1" 2 2] by (simp add: point_def)
qed

lemma rotate_close:
  assumes "close_to p x d" "4 * d \<le> of_int scale"
  shows "close_to (rotate_1 p) (x + 1) (d + 7)"
proof -
  obtain c s where p: "p = (c, s)" by fastforce
  define N where "N = (of_int scale :: complex)"
  define u where "u = point (unit_c, unit_s)"
  have N: "N \<noteq> 0" "cmod N = of_int scale" by (simp_all add: N_def scale_def)
  have u: "cmod (u - N * cis 1) \<le> 4" using unit_close by (simp add: close_to_def u_def N_def)
  have w: "cmod (point p - N * cis x) \<le> d" using assms(1) by (simp add: close_to_def N_def)
  have "cmod u \<le> cmod N + 4"
    using norm_triangle_ineq [of "u - N * cis 1" "N * cis 1"] u by (simp add: norm_mult)
  then have "cmod ((point p - N * cis x) * (u / N)) \<le> d * ((of_int scale + 4) / of_int scale)"
    unfolding norm_mult norm_divide N(2)
    using w by (intro mult_mono divide_right_mono) (simp_all add: scale_def order_trans [OF norm_ge_zero])
  also have "\<dots> = d + 4 * d / of_int scale" by (simp add: field_simps scale_def)
  also have "\<dots> \<le> d + 1" using assms(2) by (simp add: scale_def)
  finally have e1: "cmod ((point p - N * cis x) * (u / N)) \<le> d + 1" .
  have e2: "cmod (cis x * (u - N * cis 1)) \<le> 4" using u by (simp add: norm_mult)
  define r where "r = point (rotate_1 p) - point p * u / N"
  have pu: "point p * u / N = Complex (of_int (c * unit_c - s * unit_s) / of_int scale) (of_int (s * unit_c + c * unit_s) / of_int scale)"
    by (simp add: p point_def u_def N_def complex_eq_iff complex_mult Re_divide_of_real Im_divide_of_real algebra_simps)
  have q: "point (rotate_1 p) = Complex (of_int ((c * unit_c - s * unit_s) div scale)) (of_int ((s * unit_c + c * unit_s) div scale))"
    by (simp add: p rotate_1_def point_def)
  have r: "cmod r \<le> 1 + 1" unfolding r_def pu q
    by (rule cmod_le_parts) (simp_all only: minus_complex.simps complex.sel div_close [of scale] scale_pos)
  have "point (rotate_1 p) - N * cis (x + 1) = r + ((point p - N * cis x) * (u / N) + cis x * (u - N * cis 1))"
    using N(1) by (simp add: r_def cis_mult [symmetric] field_simps)
  then have "cmod (point (rotate_1 p) - N * cis (x + 1)) \<le> cmod r + (cmod ((point p - N * cis x) * (u / N)) + cmod (cis x * (u - N * cis 1)))"
    by (metis norm_triangle_ineq norm_triangle_mono order_refl)
  then show ?thesis using e1 e2 r by (simp add: close_to_def N_def)
qed

section \<open>The table\<close>

text \<open>The points for \<open>x\<close>, \<open>x + 1\<close>, ... are away from the integers (in units of 2 to the -32) by more than the error.\<close>

fun integer_parts :: "int \<times> int \<Rightarrow> int list \<Rightarrow> bool" where
  "integer_parts p [] = True"
| "integer_parts p (k # ks) \<longleftrightarrow> k * 65536 + 460 \<le> \<bar>snd p\<bar> \<and> \<bar>snd p\<bar> + 460 < (k + 1) * 65536 \<and> integer_parts (rotate_1 p) ks"

lemma integer_part:
  assumes "close_to p (real i) d" "d \<le> 460" "k * 65536 + 460 \<le> \<bar>snd p\<bar>" "\<bar>snd p\<bar> + 460 < (k + 1) * 65536"
  shows "rfc1321_T i = k"
proof -
  have "\<bar>Im (point p - of_int scale * cis (real i))\<bar> \<le> 460"
    using abs_Im_le_cmod [of "point p - of_int scale * cis (real i)"] assms(1,2) by (simp add: close_to_def)
  then have "\<bar>of_int (snd p) - of_int scale * sin (real i)\<bar> \<le> 460" by (simp add: point_def)
  then have "\<bar>\<bar>of_int (snd p)\<bar> - of_int scale * \<bar>sin (real i)\<bar>\<bar> \<le> 460"
    by (simp add: scale_def)
  moreover have "of_int (k * 65536 + 460) \<le> \<bar>of_int (snd p) :: real\<bar>" "\<bar>of_int (snd p) :: real\<bar> + 460 < of_int ((k + 1) * 65536)"
    using assms(3,4) by linarith+
  ultimately show ?thesis unfolding rfc1321_T_def by (simp add: scale_def floor_eq_iff) linarith
qed

lemma integer_parts_T:
  assumes "integer_parts p ks" "close_to p (real i) d" "d + 7 * real (length ks) \<le> 460" "j < length ks"
  shows "rfc1321_T (i + j) = ks ! j"
  using assms
proof (induction ks arbitrary: p i j d)
  case (Cons k ks)
  show ?case
  proof (cases j)
    case 0
    with Cons.prems integer_part [of p i d k] show ?thesis by simp
  next
    case (Suc j')
    have "close_to (rotate_1 p) (real (Suc i)) (d + 7)"
      using rotate_close [OF Cons.prems(2)] Cons.prems(3) by (simp add: scale_def add.commute)
    with Cons.IH [of "rotate_1 p" "Suc i" "d + 7" j'] Cons.prems Suc show ?thesis by simp
  qed
qed simp

definition table_T :: "int list" where
  "table_T =
    [0xD76AA478, 0xE8C7B756, 0x242070DB, 0xC1BDCEEE, 0xF57C0FAF, 0x4787C62A, 0xA8304613, 0xFD469501,
     0x698098D8, 0x8B44F7AF, 0xFFFF5BB1, 0x895CD7BE, 0x6B901122, 0xFD987193, 0xA679438E, 0x49B40821,
     0xF61E2562, 0xC040B340, 0x265E5A51, 0xE9B6C7AA, 0xD62F105D, 0x02441453, 0xD8A1E681, 0xE7D3FBC8,
     0x21E1CDE6, 0xC33707D6, 0xF4D50D87, 0x455A14ED, 0xA9E3E905, 0xFCEFA3F8, 0x676F02D9, 0x8D2A4C8A,
     0xFFFA3942, 0x8771F681, 0x6D9D6122, 0xFDE5380C, 0xA4BEEA44, 0x4BDECFA9, 0xF6BB4B60, 0xBEBFBC70,
     0x289B7EC6, 0xEAA127FA, 0xD4EF3085, 0x04881D05, 0xD9D4D039, 0xE6DB99E5, 0x1FA27CF8, 0xC4AC5665,
     0xF4292244, 0x432AFF97, 0xAB9423A7, 0xFC93A039, 0x655B59C3, 0x8F0CCC92, 0xFFEFF47D, 0x85845DD1,
     0x6FA87E4F, 0xFE2CE6E0, 0xA3014314, 0x4E0811A1, 0xF7537E82, 0xBD3AF235, 0x2AD7D2BB, 0xEB86D391]"

lemma rotate_1_code [code]:
  "rotate_1 (c, s) = ((c * 152081578960948 - s * 236853025851495) div 281474976710656, (s * 152081578960948 + c * 236853025851495) div 281474976710656)"
  by (simp add: rotate_1_def unit_values scale_def)

lemma table_parts: "integer_parts (unit_c, unit_s) table_T"
  by code_simp

lemma length_table_T: "length table_T = 64"
  by (simp add: table_T_def)

lemma T_values: "i < 64 \<Longrightarrow> rfc1321_T (Suc i) = table_T ! i"
  using integer_parts_T [OF table_parts, of 1 4 i] unit_close by (simp add: length_table_T)

end
