(* ===== verification/Md5.thy ===== *)
theory Md5
  imports Sha1 Md5_Sine
begin

text \<open>
  MD5 (\<^verbatim>\<open>hash/md5.c\<close>) and its equivalence with RFC 1321, and the combined function of
  \<^verbatim>\<open>hash/md5sha1.c\<close>, which runs MD5 and SHA-1 over one buffer for the signatures of TLS before 1.2.
  The table of constants of the code is shown to be the one that the RFC defines by the sine function.
\<close>

unbundle bit_operations_syntax

section \<open>The code of MD5\<close>

definition md5_F :: "u32 \<Rightarrow> u32 \<Rightarrow> u32 \<Rightarrow> u32" where "md5_F B C D = ((C XOR D) AND B) XOR D"
definition md5_G :: "u32 \<Rightarrow> u32 \<Rightarrow> u32 \<Rightarrow> u32" where "md5_G B C D = ((C XOR B) AND D) XOR C"
definition md5_H :: "u32 \<Rightarrow> u32 \<Rightarrow> u32 \<Rightarrow> u32" where "md5_H B C D = B XOR C XOR D"
definition md5_I :: "u32 \<Rightarrow> u32 \<Rightarrow> u32 \<Rightarrow> u32" where "md5_I B C D = C XOR (B OR NOT D)"

definition br_md5_IV :: "u32 list" where
  "br_md5_IV = [0x67452301, 0xEFCDAB89, 0x98BADCFE, 0x10325476]"

definition md5_K :: "u32 list" where
  "md5_K =
    [0xD76AA478, 0xE8C7B756, 0x242070DB, 0xC1BDCEEE, 0xF57C0FAF, 0x4787C62A, 0xA8304613, 0xFD469501,
     0x698098D8, 0x8B44F7AF, 0xFFFF5BB1, 0x895CD7BE, 0x6B901122, 0xFD987193, 0xA679438E, 0x49B40821,
     0xF61E2562, 0xC040B340, 0x265E5A51, 0xE9B6C7AA, 0xD62F105D, 0x02441453, 0xD8A1E681, 0xE7D3FBC8,
     0x21E1CDE6, 0xC33707D6, 0xF4D50D87, 0x455A14ED, 0xA9E3E905, 0xFCEFA3F8, 0x676F02D9, 0x8D2A4C8A,
     0xFFFA3942, 0x8771F681, 0x6D9D6122, 0xFDE5380C, 0xA4BEEA44, 0x4BDECFA9, 0xF6BB4B60, 0xBEBFBC70,
     0x289B7EC6, 0xEAA127FA, 0xD4EF3085, 0x04881D05, 0xD9D4D039, 0xE6DB99E5, 0x1FA27CF8, 0xC4AC5665,
     0xF4292244, 0x432AFF97, 0xAB9423A7, 0xFC93A039, 0x655B59C3, 0x8F0CCC92, 0xFFEFF47D, 0x85845DD1,
     0x6FA87E4F, 0xFE2CE6E0, 0xA3014314, 0x4E0811A1, 0xF7537E82, 0xBD3AF235, 0x2AD7D2BB, 0xEB86D391]"

definition md5_MP :: "nat list" where
  "md5_MP =
    [1, 6, 11, 0, 5, 10, 15, 4, 9, 14, 3, 8, 13, 2, 7, 12,
     5, 8, 11, 14, 1, 4, 7, 10, 13, 0, 3, 6, 9, 12, 15, 2,
     0, 7, 14, 5, 12, 3, 10, 1, 8, 15, 6, 13, 4, 11, 2, 9]"

text \<open>The four lines of a loop body; \<open>x\<close> is the message word of a step.\<close>

definition md5_line :: "(u32 \<Rightarrow> u32 \<Rightarrow> u32 \<Rightarrow> u32) \<Rightarrow> u32 \<Rightarrow> u32 \<Rightarrow> nat \<Rightarrow> u32 \<Rightarrow> u32 \<Rightarrow> u32 \<Rightarrow> u32 \<Rightarrow> u32" where
  "md5_line f x k s a b c d = b + ROTL (a + f b c d + x + k) s"

type_synonym four = "u32 \<times> u32 \<times> u32 \<times> u32"

definition md5_four :: "(u32 \<Rightarrow> u32 \<Rightarrow> u32 \<Rightarrow> u32) \<Rightarrow> (nat \<Rightarrow> u32) \<Rightarrow> nat \<Rightarrow> nat \<Rightarrow> nat \<Rightarrow> nat \<Rightarrow> nat \<Rightarrow> four \<Rightarrow> four" where
  "md5_four f x s0 s1 s2 s3 i = (\<lambda>(a, b, c, d).
     (let a = md5_line f (x (i + 0)) (md5_K ! (i + 0)) s0 a b c d;
          d = md5_line f (x (i + 1)) (md5_K ! (i + 1)) s1 d a b c;
          c = md5_line f (x (i + 2)) (md5_K ! (i + 2)) s2 c d a b;
          b = md5_line f (x (i + 3)) (md5_K ! (i + 3)) s3 b c d a
      in (a, b, c, d)))"

definition md5_loops :: "u32 list \<Rightarrow> four \<Rightarrow> four" where
  "md5_loops m s =
     (let s = foldl (\<lambda>s i. md5_four md5_F (\<lambda>i. m ! i) 7 12 17 22 (4 * i) s) s [0..<4];
          s = foldl (\<lambda>s i. md5_four md5_G (\<lambda>i. m ! (md5_MP ! (i - 16))) 5 9 14 20 (4 * i) s) s [4..<8];
          s = foldl (\<lambda>s i. md5_four md5_H (\<lambda>i. m ! (md5_MP ! (i - 16))) 4 11 16 23 (4 * i) s) s [8..<12];
          s = foldl (\<lambda>s i. md5_four md5_I (\<lambda>i. m ! (md5_MP ! (i - 16))) 6 10 15 21 (4 * i) s) s [12..<16]
      in s)"

definition br_md5_round :: "byte list \<Rightarrow> u32 list \<Rightarrow> u32 list" where
  "br_md5_round buf val =
     (let m = br_range_dec32le 16 (\<lambda>p. buf ! p) 0;
          (a, b, c, d) = md5_loops m (val ! 0, val ! 1, val ! 2, val ! 3)
      in [val ! 0 + a, val ! 1 + b, val ! 2 + c, val ! 3 + d])"

definition br_md5_init :: "u32 hash_ctx" where
  "br_md5_init = \<lparr>hbuf = replicate 64 0, hcount = 0, hval = br_md5_IV\<rparr>"

definition br_md5_update :: "u32 hash_ctx \<Rightarrow> byte list \<Rightarrow> u32 hash_ctx" where
  "br_md5_update cc data = update_loop 64 br_md5_round True (unat (hcount cc AND 63)) cc data"

definition br_md5_out :: "u32 hash_ctx \<Rightarrow> byte list" where
  "br_md5_out cc =
     (let ptr = unat (hcount cc AND 63);
          val = md_final 64 56 br_md5_round (br_enc64le (push_bit 3 (hcount cc))) ptr cc
      in concat (map br_enc32le (take 4 val)))"

definition br_md5_state :: "u32 hash_ctx \<Rightarrow> byte list \<times> u64" where
  "br_md5_state cc = (concat (map br_enc32le (hval cc)), hcount cc)"

definition br_md5_set_state :: "u32 hash_ctx \<Rightarrow> byte list \<Rightarrow> u64 \<Rightarrow> u32 hash_ctx" where
  "br_md5_set_state cc stb count = cc\<lparr>hval := br_range_dec32le 4 (\<lambda>p. stb ! p) 0, hcount := count\<rparr>"

definition br_md5_vtable :: "u32 hash_ctx hash_class" where
  "br_md5_vtable = \<lparr>desc = BR_HASHDESC_ID 1 OR BR_HASHDESC_OUT 16 OR BR_HASHDESC_STATE 16 OR BR_HASHDESC_LBLEN 6
       OR BR_HASHDESC_MD_PADDING,
     hc_init = br_md5_init, hc_update = br_md5_update, hc_out = br_md5_out, hc_state = br_md5_state,
     hc_set_state = br_md5_set_state\<rparr>"

section \<open>RFC 1321\<close>

text \<open>
  Section 3.4: the functions, and the message word and the shift of an operation. Operation \<open>t\<close> of the 64, counted
  from 0, uses \<open>T[t + 1]\<close>.
\<close>

definition rfc1321_f :: "nat \<Rightarrow> u32 \<Rightarrow> u32 \<Rightarrow> u32 \<Rightarrow> u32" where
  "rfc1321_f t X Y Z =
     (if t < 16 then (X AND Y) OR (NOT X AND Z) else if t < 32 then (X AND Z) OR (Y AND NOT Z)
      else if t < 48 then X XOR Y XOR Z else Y XOR (X OR NOT Z))"

definition rfc1321_k :: "nat \<Rightarrow> nat" where
  "rfc1321_k t = (if t < 16 then t else if t < 32 then (1 + 5 * t) mod 16 else if t < 48 then (5 + 3 * t) mod 16 else 7 * t mod 16)"

definition rfc1321_s :: "nat \<Rightarrow> nat" where
  "rfc1321_s t = [7, 12, 17, 22, 5, 9, 14, 20, 4, 11, 16, 23, 6, 10, 15, 21] ! (4 * (t div 16) + t mod 4)"

definition rfc1321_op :: "u32 list \<Rightarrow> nat \<Rightarrow> four \<Rightarrow> four" where
  "rfc1321_op X t = (\<lambda>(a, b, c, d).
     (d, b + word_rotl (rfc1321_s t) (a + rfc1321_f t b c d + X ! rfc1321_k t + of_int (rfc1321_T (t + 1))), b, c))"

definition rfc1321_block :: "u32 list \<Rightarrow> u32 list \<Rightarrow> u32 list" where
  "rfc1321_block X H =
     (let (a, b, c, d) = foldl (\<lambda>s t. rfc1321_op X t s) (H ! 0, H ! 1, H ! 2, H ! 3) [0..<64]
      in [a + H ! 0, b + H ! 1, c + H ! 2, d + H ! 3])"

text \<open>Words and lengths have the least significant byte first.\<close>

definition le_bytes :: "nat \<Rightarrow> nat \<Rightarrow> byte list" where
  "le_bytes k n = rev (be_bytes k n)"

definition rfc1321_words :: "byte list \<Rightarrow> u32 list" where
  "rfc1321_words b = map (\<lambda>i. word_rcat (rev (take 4 (drop (4 * i) b)))) [0..<16]"

definition rfc1321_padded :: "byte list \<Rightarrow> byte list" where
  "rfc1321_padded m = m @ 0x80 # replicate ((119 - length m mod 64) mod 64) 0 @ le_bytes 8 (8 * length m)"

definition rfc1321 :: "byte list \<Rightarrow> byte list" where
  "rfc1321 m =
     concat (map (\<lambda>w. le_bytes 4 (unat w))
       (fst (md_blocks 64 (\<lambda>b. rfc1321_block (rfc1321_words b)) [0x67452301, 0xefcdab89, 0x98badcfe, 0x10325476] (rfc1321_padded m))))"

section \<open>MD5 is RFC 1321\<close>

lemma enc32le_rev: "br_enc32le w = rev (br_enc32be w)"
  by (simp add: br_enc32le_def br_enc32be_def)

lemma enc64le_rev: "br_enc64le w = rev (br_enc64be w)"
  by (simp add: br_enc64le_def br_enc64be_def enc32le_rev)

lemma dec32le_rcat: "br_dec32le m p = word_rcat (rev (load m p 4))"
proof -
  have "br_dec32le m p = br_dec32be (\<lambda>i. m (p + 3 - i)) 0" by (simp add: br_dec32le_def br_dec32be_def or.left_commute or.commute)
  then show ?thesis by (simp add: dec32be_rcat load_4)
qed

lemma words_32le: "length b = 64 \<Longrightarrow> br_range_dec32le 16 (\<lambda>p. b ! p) 0 = rfc1321_words b"
  by (simp add: r32le.rdec_map rfc1321_words_def dec32le_rcat load_list)

lemma md5_funs: "md5_F x y z = (x AND y) OR (NOT x AND z)" "md5_G x y z = (x AND z) OR (y AND NOT z)"
  by (rule bit_word_eqI; auto simp: md5_F_def md5_G_def bit_simps)+

lemma MP_positions: "16 \<le> t \<Longrightarrow> t < 64 \<Longrightarrow> md5_MP ! (t - 16) = rfc1321_k t"
proof -
  assume t: "16 \<le> t" "t < 64"
  have "md5_MP = map rfc1321_k [16..<64]" by code_simp
  moreover have "map rfc1321_k [16..<64] ! (t - 16) = rfc1321_k t" using t by (simp only: nth_map length_upt nth_upt) simp
  ultimately show ?thesis by simp
qed

text \<open>The constants of the code are the integer parts of the sines.\<close>

lemma md5_K_sine: "t < 64 \<Longrightarrow> md5_K ! t = of_int (rfc1321_T (t + 1))"
proof -
  assume t: "t < 64"
  have "md5_K = map of_int table_T" by (simp add: md5_K_def table_T_def)
  then have "md5_K ! t = map of_int table_T ! t" by (rule arg_cong)
  also have "\<dots> = of_int (table_T ! t)" using t by (intro nth_map) (simp only: length_table_T)
  finally have "md5_K ! t = of_int (table_T ! t)" .
  then show ?thesis using T_values [OF t] by simp
qed

lemma four_steps:
  assumes "\<And>j a b c d. j < 4 \<Longrightarrow>
    R (i + j) (a, b, c, d) = (d, md5_line f (x (i + j)) (md5_K ! (i + j)) ([s0, s1, s2, s3] ! j) a b c d, b, c)"
  shows "md5_four f x s0 s1 s2 s3 i s = foldl (\<lambda>s t. R t s) s [i..<i + 4]"
proof -
  have u: "[i..<i + 4] = [i + 0, i + 1, i + 2, i + 3]" by (simp add: upt_rec)
  obtain a b c d where s: "s = (a, b, c, d)" by (metis prod.exhaust)
  show ?thesis unfolding u s foldl_Cons foldl_Nil
    by (simp add: assms [of 0, simplified] assms [of 1, simplified] assms [of 2, simplified] assms [of 3, simplified] md5_four_def Let_def)
qed

lemma md5_turns:
  assumes "q < 4" "\<And>t X Y Z. 16 * q \<le> t \<Longrightarrow> t < 16 * q + 16 \<Longrightarrow> rfc1321_f t X Y Z = f X Y Z \<and> x t = M ! rfc1321_k t"
    and "map rfc1321_s [16 * q..<16 * q + 4] = [s0, s1, s2, s3]" "set [s0, s1, s2, s3] \<subseteq> {1..31}"
  shows "foldl (\<lambda>s i. md5_four f x s0 s1 s2 s3 (4 * i) s) s [4 * q..<4 * q + 4]
    = foldl (\<lambda>s t. rfc1321_op M t s) s [16 * q..<16 * q + 16]"
proof -
  have "foldl (\<lambda>s i. md5_four f x s0 s1 s2 s3 (4 * i) s) s [4 * q..<4 * q + 4]
    = foldl (\<lambda>s t. rfc1321_op M t s) s [4 * (4 * q)..<4 * (4 * q + 4)]"
  proof (rule turns_are_steps)
    fix i s
    assume i: "4 * q \<le> i" "i < 4 * q + 4"
    show "md5_four f x s0 s1 s2 s3 (4 * i) s = foldl (\<lambda>s t. rfc1321_op M t s) s [4 * i..<4 * i + 4]"
    proof (rule four_steps)
      fix j :: nat and a b c d :: u32
      assume j: "j < 4"
      define t where "t = 4 * i + j"
      have t: "16 * q \<le> t" "t < 16 * q + 16" using i j by (simp_all add: t_def)
      have "t div 16 = q" using t by (intro div_nat_eqI) simp_all
      moreover have "t mod 4 = j" using j by (simp add: t_def)
      moreover have "(16 * q + j) div 16 = q" "(16 * q + j) mod 4 = j" using j by simp_all presburger
      moreover have "map rfc1321_s [16 * q..<16 * q + 4] ! j = rfc1321_s (16 * q + j)" using j by simp
      ultimately have "rfc1321_s t = [s0, s1, s2, s3] ! j" using assms(3) by (simp add: rfc1321_s_def)
      moreover have "[s0, s1, s2, s3] ! j \<in> {1..31}" using assms(4) j nth_mem [of j "[s0, s1, s2, s3]"] by auto
      ultimately show "rfc1321_op M (4 * i + j) (a, b, c, d)
          = (d, md5_line f (x (4 * i + j)) (md5_K ! (4 * i + j)) ([s0, s1, s2, s3] ! j) a b c d, b, c)"
        using assms(2) [OF t, of b c d] md5_K_sine [of t] t(2) assms(1) unfolding t_def [symmetric]
        by (simp add: rfc1321_op_def md5_line_def ROTL_rotl)
    qed
  qed simp
  moreover have "4 * (4 * q) = 16 * q" "4 * (4 * q + 4) = 16 * q + 16" by simp_all
  ultimately show ?thesis by (simp only:)
qed

lemma md5_block:
  assumes "length b = 64"
  shows "br_md5_round b v = rfc1321_block (rfc1321_words b) v"
proof -
  let ?M = "rfc1321_words b"
  let ?steps = "\<lambda>s p q. foldl (\<lambda>s t. rfc1321_op ?M t s) s [p..<q]"
  have "foldl (\<lambda>s i. md5_four md5_F (\<lambda>i. ?M ! i) 7 12 17 22 (4 * i) s) s [4 * 0..<4 * 0 + 4] = ?steps s (16 * 0) (16 * 0 + 16)" for s
    by (rule md5_turns) (auto simp: rfc1321_f_def rfc1321_k_def md5_funs rfc1321_s_def upt_rec)
  moreover have "foldl (\<lambda>s i. md5_four md5_G (\<lambda>i. ?M ! (md5_MP ! (i - 16))) 5 9 14 20 (4 * i) s) s [4 * 1..<4 * 1 + 4] = ?steps s (16 * 1) (16 * 1 + 16)" for s
    by (rule md5_turns) (auto simp: rfc1321_f_def MP_positions md5_funs rfc1321_s_def upt_rec)
  moreover have "foldl (\<lambda>s i. md5_four md5_H (\<lambda>i. ?M ! (md5_MP ! (i - 16))) 4 11 16 23 (4 * i) s) s [4 * 2..<4 * 2 + 4] = ?steps s (16 * 2) (16 * 2 + 16)" for s
    by (rule md5_turns) (auto simp: rfc1321_f_def MP_positions md5_H_def rfc1321_s_def upt_rec)
  moreover have "foldl (\<lambda>s i. md5_four md5_I (\<lambda>i. ?M ! (md5_MP ! (i - 16))) 6 10 15 21 (4 * i) s) s [4 * 3..<4 * 3 + 4] = ?steps s (16 * 3) (16 * 3 + 16)" for s
    by (rule md5_turns) (auto simp: rfc1321_f_def MP_positions md5_I_def rfc1321_s_def upt_rec)
  moreover have "[0..<64] = [16 * 0..<16 * 0 + 16] @ [16 * 1..<16 * 1 + 16] @ [16 * 2..<16 * 2 + 16] @ [16 * 3..<16 * 3 + 16 :: nat]" by code_simp
  ultimately have "md5_loops ?M s = ?steps s 0 64" for s
    unfolding md5_loops_def Let_def by (simp only: foldl_append) simp
  then show ?thesis
    by (simp add: br_md5_round_def rfc1321_block_def words_32le [OF assms] add.commute split: prod.splits)
qed

abbreviation "enc32les \<equiv> \<lambda>v. concat (map br_enc32le v)"
abbreviation "dec32les n \<equiv> \<lambda>b. br_range_dec32le n (\<lambda>p. b ! p) 0"
abbreviation "len64le \<equiv> \<lambda>n :: u64. br_enc64le (push_bit 3 n)"

lemma md5_sizes: "br_digest_size br_md5_vtable = 16" "block_size br_md5_vtable = 64"
  by (simp_all add: br_digest_size_def block_size_def br_md5_vtable_def hashdesc_defs)

lemmas md5_ops = br_md5_init_def br_md5_update_def br_md5_out_def br_md5_state_def br_md5_set_state_def

lemma length_enc32les: "length (enc32les v) = 4 * length v"
  by (induction v) simp_all

lemma take_enc32les: "enc32les (take n v) = take (4 * n) (enc32les v)"
  by (induction v arbitrary: n) (simp_all add: take_Cons' diff_mult_distrib2)

lemma dec_enc_4: "length v = Suc (Suc (Suc (Suc 0))) \<Longrightarrow> dec32les 4 (enc32les v) = v"
  using r32le.rdec_list [of v] by (simp only: numeral_eq_Suc pred_numeral_simps BitM.simps numeral_One One_nat_def)

interpretation md5: md_fun br_md5_vtable br_md5_round enc32les "dec32les 4" br_md5_IV 64 8 len64le True
  by unfold_locales (simp_all add: md5_sizes, simp_all add: dec_enc_4 br_md5_vtable_def md5_ops br_md5_IV_def count_and Let_def take_enc32les
      length_enc32les br_md5_round_def split: prod.splits)

lemma md5_hash: "md_hash 64 br_md5_round br_md5_IV enc32les 16 8 len64le m = rfc1321 m"
proof -
  have "md_blocks 64 br_md5_round v p = md_blocks 64 (\<lambda>b. rfc1321_block (rfc1321_words b)) v p" for v p
    by (rule md_blocks_cong) (simp_all add: md5_block)
  moreover have "m @ md_padding 64 8 (len64le (of_nat (length m))) (length m) = rfc1321_padded m"
    using length_field_64 [of "length m"] by (simp add: md_padding_def rfc1321_padded_def enc64le_rev le_bytes_def)
  moreover have "length (enc32les (fst (md_blocks 64 br_md5_round br_md5_IV p))) = 16" for p
    unfolding length_enc32les md5.length_blocks [OF refl] by (simp add: br_md5_IV_def)
  ultimately show ?thesis
    by (simp add: md_hash_def rfc1321_def br_md5_IV_def enc32le_rev [abs_def] enc32be_bytes [abs_def] le_bytes_def)
qed

section \<open>Both at once\<close>

text \<open>The context of \<^verbatim>\<open>md5sha1.c\<close>: the arrays \<open>val_md5\<close> and \<open>val_sha1\<close> are the first four and the last five words.\<close>

definition br_md5sha1_init :: "u32 hash_ctx" where
  "br_md5sha1_init = \<lparr>hbuf = replicate 64 0, hcount = 0, hval = br_md5_IV @ br_sha1_IV\<rparr>"

definition md5sha1_round :: "byte list \<Rightarrow> u32 list \<Rightarrow> u32 list" where
  "md5sha1_round buf val = br_md5_round buf (take 4 val) @ br_sha1_round buf (drop 4 val)"

definition br_md5sha1_update :: "u32 hash_ctx \<Rightarrow> byte list \<Rightarrow> u32 hash_ctx" where
  "br_md5sha1_update cc data = update_loop 64 md5sha1_round True (unat (hcount cc AND 63)) cc data"

definition br_md5sha1_out :: "u32 hash_ctx \<Rightarrow> byte list" where
  "br_md5sha1_out cc =
     (let count = hcount cc;
          ptr = unat (count AND 63);
          count = push_bit 3 count;
          val_md5 = md_final 64 56 br_md5_round (br_enc64le count) ptr (cc\<lparr>hval := take 4 (hval cc)\<rparr>);
          val_sha1 = md_final 64 56 br_sha1_round (br_enc64be count) ptr (cc\<lparr>hval := drop 4 (hval cc)\<rparr>)
      in concat (map br_enc32le (take 4 val_md5)) @ concat (map br_enc32be (take 5 val_sha1)))"

definition br_md5sha1_state :: "u32 hash_ctx \<Rightarrow> byte list \<times> u64" where
  "br_md5sha1_state cc = (concat (map br_enc32le (take 4 (hval cc))) @ concat (map br_enc32be (drop 4 (hval cc))), hcount cc)"

definition br_md5sha1_set_state :: "u32 hash_ctx \<Rightarrow> byte list \<Rightarrow> u64 \<Rightarrow> u32 hash_ctx" where
  "br_md5sha1_set_state cc stb count =
     cc\<lparr>hval := br_range_dec32le 4 (\<lambda>p. stb ! p) 0 @ br_range_dec32be 5 (\<lambda>p. stb ! p) 16, hcount := count\<rparr>"

definition br_md5sha1_vtable :: "u32 hash_ctx hash_class" where
  "br_md5sha1_vtable = \<lparr>desc = BR_HASHDESC_ID 0 OR BR_HASHDESC_OUT 36 OR BR_HASHDESC_STATE 36 OR BR_HASHDESC_LBLEN 6,
     hc_init = br_md5sha1_init, hc_update = br_md5sha1_update, hc_out = br_md5sha1_out, hc_state = br_md5sha1_state,
     hc_set_state = br_md5sha1_set_state\<rparr>"

lemma length_rounds [simp]: "length (br_md5_round b v) = 4" "length (br_sha1_round b w) = 5"
  by (simp_all add: br_md5_round_def br_sha1_round_def split: prod.splits)

lemma md_blocks_pair:
  "length v = 4 \<Longrightarrow> md_blocks 64 md5sha1_round (v @ w) m
    = (fst (md_blocks 64 br_md5_round v m) @ fst (md_blocks 64 br_sha1_round w m), snd (md_blocks 64 br_md5_round v m))
    \<and> snd (md_blocks 64 br_sha1_round w m) = snd (md_blocks 64 br_md5_round v m) \<and> length (fst (md_blocks 64 br_md5_round v m)) = 4"
proof (induction "length m" arbitrary: v w m rule: less_induct)
  case less
  show ?case
  proof (cases "length m < 64")
    case True
    then show ?thesis using less.prems by (simp add: md_blocks_short)
  next
    case False
    have u: "md_blocks 64 f u m = md_blocks 64 f (f (take 64 m) u) (drop 64 m)" for f :: "byte list \<Rightarrow> u32 list \<Rightarrow> u32 list" and u
      using False by (subst md_blocks.simps) simp
    have "md5sha1_round (take 64 m) (v @ w) = br_md5_round (take 64 m) v @ br_sha1_round (take 64 m) w"
      using less.prems by (simp add: md5sha1_round_def)
    then show ?thesis unfolding u [of md5sha1_round] u [of br_md5_round] u [of br_sha1_round]
      using less.hyps [of "drop 64 m" "br_md5_round (take 64 m) v" "br_sha1_round (take 64 m) w"] False by simp
  qed
qed

definition md5sha1_hashed :: "u32 hash_ctx \<Rightarrow> byte list \<Rightarrow> bool" where
  "md5sha1_hashed cc m \<longleftrightarrow> md_hashed 64 md5sha1_round (br_md5_IV @ br_sha1_IV) cc m"

lemma length_ivs: "length br_md5_IV = 4" "length br_sha1_IV = 5"
  by (simp_all add: br_md5_IV_def br_sha1_IV_def)

lemma md5sha1_halves:
  assumes "md5sha1_hashed cc m"
  shows "md_hashed 64 br_md5_round br_md5_IV (cc\<lparr>hval := take 4 (hval cc)\<rparr>) m"
    and "md_hashed 64 br_sha1_round br_sha1_IV (cc\<lparr>hval := drop 4 (hval cc)\<rparr>) m"
  using assms md_blocks_pair [of br_md5_IV br_sha1_IV m]
  by (auto simp: md5sha1_hashed_def md_hashed_def holds_ctx_def length_ivs)

lemma md5sha1_out:
  assumes "md5sha1_hashed cc m"
  shows "br_md5sha1_out cc = rfc1321 m @ fips_sha1 m"
proof -
  have "br_md5sha1_out cc = br_md5_out (cc\<lparr>hval := take 4 (hval cc)\<rparr>) @ br_sha1_out (cc\<lparr>hval := drop 4 (hval cc)\<rparr>)"
    by (simp add: br_md5sha1_out_def br_md5_out_def br_sha1_out_def Let_def)
  also have "br_md5_out (cc\<lparr>hval := take 4 (hval cc)\<rparr>) = rfc1321 m"
    using md5.out [OF md5sha1_halves(1) [OF assms]] by (simp add: md5_sizes md5_hash) (simp add: br_md5_vtable_def)
  also have "br_sha1_out (cc\<lparr>hval := drop 4 (hval cc)\<rparr>) = fips_sha1 m"
    using sha1.out [OF md5sha1_halves(2) [OF assms]] by (simp add: sha1_sizes sha1_hash) (simp add: br_sha1_vtable_def)
  finally show ?thesis .
qed

lemma md5sha1_update:
  assumes "md5sha1_hashed cc m"
  shows "md5sha1_hashed (br_md5sha1_update cc d) (m @ d)"
proof -
  let ?iv = "br_md5_IV @ br_sha1_IV"
  obtain v p where b: "md_blocks 64 md5sha1_round ?iv m = (v, p)" by fastforce
  have h: "holds_ctx 64 cc v p" "hcount cc = of_nat (length m)" using assms b by (auto simp: md5sha1_hashed_def md_hashed_def)
  have "length p = length m mod 64" using md_blocks_rest [of 64 md5sha1_round ?iv m] b by simp
  then have "unat (hcount cc AND 63) = length p" using sha1.count_mod [of "length m"] by (simp add: count_and h(2))
  with update_loop_holds [OF h(1), of md5sha1_round True d] h(2) show ?thesis
    using b by (simp add: md5sha1_hashed_def br_md5sha1_update_def md_hashed_def md_blocks_append [of 64 md5sha1_round ?iv m d])
qed

lemma md5sha1_words:
  assumes "length v = 4" "length w = 5"
  shows "br_range_dec32le 4 (\<lambda>p. (enc32les v @ enc32s w) ! p) 0 = v" "br_range_dec32be 5 (\<lambda>p. (enc32les v @ enc32s w) ! p) 16 = w"
proof -
  have "load (\<lambda>p. (enc32les v @ enc32s w) ! p) 0 (4 * length v) = enc32les v"
    by (rule load_eqI) (simp_all add: length_enc32les nth_append)
  from r32le.rdec_bytes [OF this] show "br_range_dec32le 4 (\<lambda>p. (enc32les v @ enc32s w) ! p) 0 = v" using assms by (simp only:)
  have "load (\<lambda>p. (enc32les v @ enc32s w) ! p) 16 (4 * length w) = enc32s w"
    by (rule load_eqI) (simp_all add: length_enc32les length_concat_enc nth_append assms)
  from r32be.rdec_bytes [OF this] show "br_range_dec32be 5 (\<lambda>p. (enc32les v @ enc32s w) ! p) 16 = w" using assms by (simp only:)
qed

lemma md5sha1_desc: "br_digest_size br_md5sha1_vtable = 36" "block_size br_md5sha1_vtable = 64"
  by (simp_all add: br_digest_size_def block_size_def br_md5sha1_vtable_def hashdesc_defs)

lemma md5sha1_set_state:
  assumes "md5sha1_hashed h m" "length m = 64" "md5sha1_hashed h' m'"
  shows "md5sha1_hashed (br_md5sha1_set_state h' (fst (br_md5sha1_state h)) 64) m"
proof -
  have p: "snd (md_blocks 64 md5sha1_round (br_md5_IV @ br_sha1_IV) m) = []"
    using md_blocks_rest [of 64 md5sha1_round "br_md5_IV @ br_sha1_IV" m] assms(2) by simp
  have "length (hval h) = 9" using assms(1) md_blocks_pair [of br_md5_IV br_sha1_IV m] sha1.length_blocks [OF refl, of m]
    by (simp add: md5sha1_hashed_def md_hashed_def holds_ctx_def length_ivs)
  then have "hval (br_md5sha1_set_state h' (fst (br_md5sha1_state h)) 64) = hval h"
    by (simp add: br_md5sha1_set_state_def br_md5sha1_state_def md5sha1_words)
  then show ?thesis using assms p by (simp add: md5sha1_hashed_def md_hashed_def holds_ctx_def br_md5sha1_set_state_def)
qed

lemma length_md5: "length (rfc1321 m) = 16" "length (fips_sha1 m) = 20"
  using md5.length_H [of m] sha1.length_H [of m] by (simp_all add: md5_sizes md5_hash sha1_sizes sha1_hash)

interpretation md5sha1: hash_fun br_md5sha1_vtable "\<lambda>m. rfc1321 m @ fips_sha1 m" md5sha1_hashed
proof
  show "md5sha1_hashed (hc_init br_md5sha1_vtable) []"
    by (simp add: md5sha1_hashed_def md_hashed_def holds_ctx_def md_blocks_short br_md5sha1_vtable_def br_md5sha1_init_def)
  fix h m h' m'
  assume "md5sha1_hashed h m" "length m = block_size br_md5sha1_vtable" "md5sha1_hashed h' m'"
  with md5sha1_set_state [of h m h' m']
  show "md5sha1_hashed (hc_set_state br_md5sha1_vtable h' (fst (hc_state br_md5sha1_vtable h)) (of_nat (block_size br_md5sha1_vtable))) m"
    by (simp add: md5sha1_desc) (simp add: br_md5sha1_vtable_def)
qed (simp_all add: md5sha1_desc length_md5, simp_all add: br_md5sha1_vtable_def md5sha1_update md5sha1_out)

section \<open>Properties\<close>

text \<open>
  C24. The older hash functions are the standard ones: whatever pieces a message is given in, the
  output of \<^verbatim>\<open>md5.c\<close> is the digest of RFC 1321, with the constants defined by the sine function, that of \<^verbatim>\<open>sha1.c\<close> the
  digest of FIPS 180-4, and the combined function of \<^verbatim>\<open>md5sha1.c\<close>, which keeps one buffer for both, gives
  the two digests one after the other.
\<close>

theorem md5_sha1_digests:
  "br_md5_out (foldl br_md5_update br_md5_init ds) = rfc1321 (concat ds)
   \<and> br_sha1_out (foldl br_sha1_update br_sha1_init ds) = fips_sha1 (concat ds)
   \<and> br_md5sha1_out (foldl br_md5sha1_update br_md5sha1_init ds) = rfc1321 (concat ds) @ fips_sha1 (concat ds)"
  using md5.hash_chunks [of ds] sha1.hash_chunks [of ds] md5sha1.hash_chunks [of ds]
  by (simp add: md5_sizes sha1_sizes md5_hash sha1_hash) (simp add: br_md5_vtable_def br_sha1_vtable_def br_md5sha1_vtable_def)

end
