(* ===== verification/Hmac.thy ===== *)
theory Hmac
  imports Md5
begin

text \<open>
  HMAC (\<^verbatim>\<open>mac/hmac.c\<close>) over any hash function with the contract \<open>hash_fun\<close>, against RFC 2104. A key
  context holds the states of the hash function after the two padded keys, and a computation starts
  from there. Output parameters are the bytes written to them.
\<close>

unbundle bit_operations_syntax

section \<open>The code\<close>

record 'h hmac_key =
  dig_vtable :: "'h hash_class"
  ksi :: "byte list"
  kso :: "byte list"

record 'h hmac_ctx =
  hm_vtable :: "'h hash_class"
  hm_dig :: 'h
  hm_kso :: "byte list"
  hm_out_len :: nat

definition process_key :: "'h hash_class \<Rightarrow> byte list \<Rightarrow> byte \<Rightarrow> byte list" where
  "process_key dig key bb =
     (let blen = block_size dig;
          tmp = map (\<lambda>x. x XOR bb) key @ replicate (blen - length key) bb;
          hc = hc_init dig;
          hc = hc_update dig hc (take blen tmp)
      in fst (hc_state dig hc))"

definition br_hmac_key_init :: "'h hash_class \<Rightarrow> byte list \<Rightarrow> 'h hmac_key" where
  "br_hmac_key_init dig key =
     (let key = (if length key > block_size dig
                 then take (br_digest_size dig) (hc_out dig (hc_update dig (hc_init dig) key))
                 else key)
      in \<lparr>dig_vtable = dig, ksi = process_key dig key 0x36, kso = process_key dig key 0x5C\<rparr>)"

definition br_hmac_init :: "'h hmac_key \<Rightarrow> nat \<Rightarrow> 'h hmac_ctx" where
  "br_hmac_init kc out_len =
     (let dig = dig_vtable kc;
          blen = block_size dig;
          hc = hc_init dig;
          hc = hc_set_state dig hc (ksi kc) (of_nat blen);
          hlen = br_digest_size dig;
          hlen = (if out_len > 0 \<and> out_len < hlen then out_len else hlen)
      in \<lparr>hm_vtable = dig, hm_dig = hc, hm_kso = kso kc, hm_out_len = hlen\<rparr>)"

definition br_hmac_update :: "'h hmac_ctx \<Rightarrow> byte list \<Rightarrow> 'h hmac_ctx" where
  "br_hmac_update ctx data = ctx\<lparr>hm_dig := hc_update (hm_vtable ctx) (hm_dig ctx) data\<rparr>"

text \<open>The second half of \<open>br_hmac_out\<close>, from the inner hash on.\<close>

definition hmac_outer :: "'h hmac_ctx \<Rightarrow> byte list \<Rightarrow> byte list" where
  "hmac_outer ctx tmp =
     (let dig = hm_vtable ctx;
          blen = block_size dig;
          hc = hc_init dig;
          hc = hc_set_state dig hc (hm_kso ctx) (of_nat blen);
          hlen = br_digest_size dig;
          hc = hc_update dig hc (take hlen tmp);
          tmp = hc_out dig hc
      in take (hm_out_len ctx) tmp)"

definition br_hmac_out :: "'h hmac_ctx \<Rightarrow> byte list" where
  "br_hmac_out ctx = hmac_outer ctx (hc_out (hm_vtable ctx) (hm_dig ctx))"

definition br_hmac_size :: "'h hmac_ctx \<Rightarrow> nat" where "br_hmac_size ctx = hm_out_len ctx"

definition br_hmac_get_digest :: "'h hmac_ctx \<Rightarrow> 'h hash_class" where "br_hmac_get_digest ctx = hm_vtable ctx"

text \<open>A computation started with a key, that has been given some chunks.\<close>

abbreviation hmac_given :: "'h hash_class \<Rightarrow> byte list \<Rightarrow> nat \<Rightarrow> byte list list \<Rightarrow> 'h hmac_ctx" where
  "hmac_given dig key n ds \<equiv> foldl br_hmac_update (br_hmac_init (br_hmac_key_init dig key) n) ds"

section \<open>RFC 2104\<close>

definition rfc2104_key :: "(byte list \<Rightarrow> byte list) \<Rightarrow> nat \<Rightarrow> byte list \<Rightarrow> byte list" where
  "rfc2104_key H B K = (let K = (if length K > B then H K else K) in K @ replicate (B - length K) 0)"

definition rfc2104 :: "(byte list \<Rightarrow> byte list) \<Rightarrow> nat \<Rightarrow> byte list \<Rightarrow> byte list \<Rightarrow> byte list" where
  "rfc2104 H B K text =
     H (xor_bytes (rfc2104_key H B K) (replicate B 0x5C) @ H (xor_bytes (rfc2104_key H B K) (replicate B 0x36) @ text))"

section \<open>Correctness over the contract\<close>

lemma xor_pad: "xor_bytes xs (replicate (length xs) b) = map (\<lambda>x. x XOR b) xs"
  by (induction xs) (simp_all add: xor_bytes_def)

context hash_fun
begin

text \<open>A key context for a key, and a computation that has been given some data.\<close>

definition pad_key :: "byte list \<Rightarrow> byte \<Rightarrow> byte list" where
  "pad_key key b = xor_bytes (rfc2104_key H (block_size dig) key) (replicate (block_size dig) b)"

definition key_for :: "'h hmac_key \<Rightarrow> byte list \<Rightarrow> bool" where
  "key_for kc key \<longleftrightarrow> dig_vtable kc = dig \<and> (\<forall>h m. hashed h m \<longrightarrow>
     hashed (hc_set_state dig h (ksi kc) (of_nat (block_size dig))) (pad_key key 0x36) \<and>
     hashed (hc_set_state dig h (kso kc) (of_nat (block_size dig))) (pad_key key 0x5C))"

definition hmac_for :: "'h hmac_ctx \<Rightarrow> byte list \<Rightarrow> byte list \<Rightarrow> bool" where
  "hmac_for ctx key text \<longleftrightarrow> hm_vtable ctx = dig \<and> hashed (hm_dig ctx) (pad_key key 0x36 @ text) \<and>
     (\<forall>h m. hashed h m \<longrightarrow> hashed (hc_set_state dig h (hm_kso ctx) (of_nat (block_size dig))) (pad_key key 0x5C))"

lemma length_rfc2104_key: "length (rfc2104_key H (block_size dig) key) = block_size dig"
  using digest_block by (simp add: rfc2104_key_def length_H)

lemma length_pad_key: "length (pad_key key b) = block_size dig"
  by (simp add: pad_key_def length_rfc2104_key)

lemma process_key_state:
  assumes "hashed h m" "length key \<le> block_size dig"
  shows "hashed (hc_set_state dig h (process_key dig key b) (of_nat (block_size dig))) (map (\<lambda>x. x XOR b) key @ replicate (block_size dig - length key) b)"
  using set_state [OF update [OF init, of "map (\<lambda>x. x XOR b) key @ replicate (block_size dig - length key) b"] _ assms(1)] assms(2)
  by (simp add: process_key_def)

lemma key_init: "key_for (br_hmac_key_init dig key) key"
proof -
  define k where "k = (if length key > block_size dig then H key else key)"
  have l: "length k \<le> block_size dig" using digest_block by (simp add: k_def length_H)
  have "take (br_digest_size dig) (hc_out dig (hc_update dig (hc_init dig) key)) = H key"
    using out [OF update [OF init]] length_H by simp
  then have e: "br_hmac_key_init dig key = \<lparr>dig_vtable = dig, ksi = process_key dig k 0x36, kso = process_key dig k 0x5C\<rparr>"
    by (simp add: br_hmac_key_init_def k_def Let_def)
  have "pad_key key b = map (\<lambda>x. x XOR b) k @ replicate (block_size dig - length k) b" for b
    using xor_pad [of "k @ replicate (block_size dig - length k) 0" b] l
    by (simp add: pad_key_def rfc2104_key_def k_def [symmetric])
  then show ?thesis using process_key_state [OF _ l] by (simp add: key_for_def e)
qed

lemma hmac_init: "key_for kc key \<Longrightarrow> hmac_for (br_hmac_init kc n) key []"
  using init by (auto simp: key_for_def hmac_for_def br_hmac_init_def Let_def)

lemma hmac_update: "hmac_for ctx key text \<Longrightarrow> hmac_for (br_hmac_update ctx d) key (text @ d)"
  using update [of "hm_dig ctx" "pad_key key 0x36 @ text" d] by (simp add: hmac_for_def br_hmac_update_def)

lemma hmac_updates: "hmac_for ctx key text \<Longrightarrow> hmac_for (foldl br_hmac_update ctx ds) key (text @ concat ds)"
proof (induction ds arbitrary: ctx "text")
  case (Cons d ds)
  then show ?case using Cons.IH [OF hmac_update [OF Cons.prems]] by simp
qed simp

lemma hmac_outer_H:
  "hmac_for ctx key text \<Longrightarrow>
    hmac_outer ctx (H (pad_key key 0x36 @ text)) = take (hm_out_len ctx) (rfc2104 H (block_size dig) key text)"
  using out [OF update] init length_H
  by (fastforce simp: hmac_for_def hmac_outer_def Let_def rfc2104_def pad_key_def)

lemma hmac_out: "hmac_for ctx key text \<Longrightarrow> br_hmac_out ctx = take (hm_out_len ctx) (rfc2104 H (block_size dig) key text)"
  using hmac_outer_H [of ctx key "text"] out [of "hm_dig ctx" "pad_key key 0x36 @ text"] by (simp add: br_hmac_out_def hmac_for_def)

lemma updates_out_len [simp]: "hm_out_len (br_hmac_update ctx d) = hm_out_len ctx" "hm_out_len (foldl br_hmac_update ctx ds) = hm_out_len ctx"
proof -
  show u: "hm_out_len (br_hmac_update ctx d) = hm_out_len ctx" for ctx d by (simp add: br_hmac_update_def)
  show "hm_out_len (foldl br_hmac_update ctx ds) = hm_out_len ctx" by (induction ds arbitrary: ctx) (simp_all add: u)
qed

lemma length_rfc2104 [simp]: "length (rfc2104 H (block_size dig) key text) = br_digest_size dig"
  by (simp add: rfc2104_def length_H)

lemma hmac_full:
  assumes "key_for kc key"
  shows "br_hmac_out (foldl br_hmac_update (br_hmac_init kc 0) ds) = rfc2104 H (block_size dig) key (concat ds)"
proof -
  have "hm_out_len (br_hmac_init kc 0) = br_digest_size dig" using assms by (simp add: br_hmac_init_def key_for_def Let_def)
  then show ?thesis using hmac_out [OF hmac_updates [OF hmac_init [OF assms]], of 0 ds] by simp
qed

lemma hmac_of_key:
  "br_hmac_out (foldl br_hmac_update (br_hmac_init (br_hmac_key_init dig key) n) ds)
    = take (if 0 < n \<and> n < br_digest_size dig then n else br_digest_size dig) (rfc2104 H (block_size dig) key (concat ds))"
proof -
  have "hm_out_len (br_hmac_init (br_hmac_key_init dig key) n) = (if 0 < n \<and> n < br_digest_size dig then n else br_digest_size dig)"
    by (simp add: br_hmac_init_def br_hmac_key_init_def Let_def)
  moreover have "hmac_for (foldl br_hmac_update (br_hmac_init (br_hmac_key_init dig key) n) ds) key ([] @ concat ds)"
    by (intro hmac_updates hmac_init key_init)
  ultimately show ?thesis using hmac_out by simp
qed

lemma given_for: "hmac_for (hmac_given dig key n ds) key (concat ds)"
  using hmac_updates [OF hmac_init [OF key_init]] by simp

end

end
