(* ===== verification/Kdf.thy ===== *)
theory Kdf
  imports Hmac Ssl_Engine
begin

text \<open>
  The functions built on HMAC: the PRF of TLS (\<^verbatim>\<open>ssl/prf.c\<close>, \<^verbatim>\<open>ssl/prf_md5sha1.c\<close>,
  \<^verbatim>\<open>ssl/prf_sha256.c\<close>, \<^verbatim>\<open>ssl/prf_sha384.c\<close>),
  HKDF (\<^verbatim>\<open>kdf/hkdf.c\<close>) and the random generator HMAC_DRBG (\<^verbatim>\<open>rand/hmac_drbg.c\<close>), with the standards
  they implement (RFC 2246 and RFC 5246 section 5, RFC 5869, SP 800-90A) as references over a MAC \<open>mac key data\<close>.

  The loops that produce output consume one digest per turn. A digest is never empty; the tests on its
  length in the loops are there for termination only.
\<close>

section \<open>The TLS PRF\<close>

text \<open>One HMAC computation over some pieces of data.\<close>

definition hmac_run :: "'h hmac_key \<Rightarrow> byte list list \<Rightarrow> byte list" where
  "hmac_run kc ds = br_hmac_out (foldl br_hmac_update (br_hmac_init kc 0) ds)"

text \<open>A label is a C string: its bytes up to the first null.\<close>

definition cstring :: "string \<Rightarrow> byte list" where
  "cstring s = takeWhile (\<lambda>b. b \<noteq> 0) (map of_char s)"

function phash_loop :: "'h hmac_key \<Rightarrow> nat \<Rightarrow> byte list list \<Rightarrow> byte list \<Rightarrow> byte list \<Rightarrow> byte list" where
  "phash_loop kc hlen seed a buf =
     (let tmp = hmac_run kc (take hlen a # seed);
          u = min hlen (length buf);
          out = xor_bytes (take u buf) (take u tmp);
          buf = drop u buf
      in if buf = [] \<or> hlen = 0 then out
         else out @ phash_loop kc hlen seed (hmac_run kc [take hlen a]) buf)"
  by pat_completeness auto
termination
  by (relation "measure (\<lambda>(_, _, _, _, buf). length buf)") auto

declare phash_loop.simps [simp del]

definition br_tls_phash :: "byte list \<Rightarrow> 'h hash_class \<Rightarrow> byte list \<Rightarrow> string \<Rightarrow> byte list list \<Rightarrow> byte list" where
  "br_tls_phash dst dig secret label seed =
     (if length dst = 0 then dst
      else let hlen = br_digest_size dig;
               kc = br_hmac_key_init dig secret;
               a = hmac_run kc (cstring label # seed)
           in phash_loop kc hlen (cstring label # seed) a dst)"

definition br_tls12_sha256_prf :: tls_prf where
  "br_tls12_sha256_prf len secret label seed = br_tls_phash (replicate len 0) br_sha256_vtable secret label seed"

definition br_tls12_sha384_prf :: tls_prf where
  "br_tls12_sha384_prf len secret label seed = br_tls_phash (replicate len 0) br_sha384_vtable secret label seed"

definition br_tls10_prf :: tls_prf where
  "br_tls10_prf len secret label seed =
     (let slen = (length secret + 1) div 2;
          dst = replicate len 0;
          dst = br_tls_phash dst br_md5_vtable (take slen secret) label seed
      in br_tls_phash dst br_sha1_vtable (take slen (drop (length secret - slen) secret)) label seed)"

section \<open>HKDF\<close>

text \<open>
  The union \<open>u\<close> of a context holds an HMAC computation until \<open>br_hkdf_flip\<close> and an HMAC key after it;
  the two phases are two records. \<open>None\<close> is the salt \<open>BR_HKDF_NO_SALT\<close>.
\<close>

record 'h hkdf_ctx =
  hk_hmac :: "'h hmac_ctx"
  hk_dig_len :: nat

record 'h hkdf_prk =
  hp_prk :: "'h hmac_key"
  hp_buf :: "byte list"
  hp_ptr :: nat
  hp_dig_len :: nat
  hp_chunk_num :: u32

definition br_hkdf_init :: "'h hash_class \<Rightarrow> byte list option \<Rightarrow> 'h hkdf_ctx" where
  "br_hkdf_init dig salt =
     (let salt = (case salt of None \<Rightarrow> replicate (br_digest_size dig) 0 | Some s \<Rightarrow> s);
          kc = br_hmac_key_init dig salt;
          hmac = br_hmac_init kc 0
      in \<lparr>hk_hmac = hmac, hk_dig_len = br_hmac_size hmac\<rparr>)"

definition br_hkdf_inject :: "'h hkdf_ctx \<Rightarrow> byte list \<Rightarrow> 'h hkdf_ctx" where
  "br_hkdf_inject hc ikm = hc\<lparr>hk_hmac := br_hmac_update (hk_hmac hc) ikm\<rparr>"

definition br_hkdf_flip :: "'h hkdf_ctx \<Rightarrow> 'h hkdf_prk" where
  "br_hkdf_flip hc =
     (let tmp = br_hmac_out (hk_hmac hc);
          prk = br_hmac_key_init (br_hmac_get_digest (hk_hmac hc)) (take (hk_dig_len hc) tmp)
      in \<lparr>hp_prk = prk, hp_buf = replicate 64 0, hp_ptr = hk_dig_len hc, hp_dig_len = hk_dig_len hc, hp_chunk_num = 0\<rparr>)"

text \<open>The refill at the start of a turn; \<open>None\<close> is the return when the limit is reached.\<close>

definition hkdf_refill :: "'h hkdf_prk \<Rightarrow> byte list \<Rightarrow> 'h hkdf_prk \<times> bool" where
  "hkdf_refill hc info =
     (if hp_ptr hc = hp_dig_len hc then
        let hc = hc\<lparr>hp_chunk_num := hp_chunk_num hc + 1\<rparr>
        in if hp_chunk_num hc = 256 then (hc, False)
           else let x = ucast (hp_chunk_num hc) :: byte;
                    ds = (if x \<noteq> 1 then [take (hp_dig_len hc) (hp_buf hc)] else []) @ [info, [x]]
                in (hc\<lparr>hp_buf := hmac_run (hp_prk hc) ds, hp_ptr := 0\<rparr>, True)
      else (hc, True))"

lemma hkdf_refill_dig_len: "hp_dig_len (fst (hkdf_refill hc info)) = hp_dig_len hc"
  by (simp add: hkdf_refill_def Let_def)

function br_hkdf_produce :: "'h hkdf_prk \<Rightarrow> byte list \<Rightarrow> nat \<Rightarrow> 'h hkdf_prk \<times> byte list" where
  "br_hkdf_produce hc info out_len =
     (if out_len = 0 then (hc, [])
      else case hkdf_refill hc info of (hc, go) \<Rightarrow>
        if \<not> go then (hc, [])
        else let clen = hp_dig_len hc - hp_ptr hc;
                 clen = (if clen > out_len then out_len else clen);
                 out = take clen (drop (hp_ptr hc) (hp_buf hc));
                 hc = hc\<lparr>hp_ptr := hp_ptr hc + clen\<rparr>
             in if clen = 0 then (hc, [])
                else case br_hkdf_produce hc info (out_len - clen) of (hc, rest) \<Rightarrow> (hc, out @ rest))"
  by pat_completeness auto
termination
  by (relation "measure (\<lambda>(_, _, n). n)") auto

declare br_hkdf_produce.simps [simp del]

section \<open>HMAC_DRBG\<close>

record 'h hmac_drbg =
  dr_K :: "byte list"
  dr_V :: "byte list"
  dr_digest_class :: "'h hash_class"

definition br_hmac_drbg_update :: "'h hmac_drbg \<Rightarrow> byte list \<Rightarrow> 'h hmac_drbg" where
  "br_hmac_drbg_update ctx seed =
     (let dig = dr_digest_class ctx;
          hlen = br_digest_size dig;
          kc = br_hmac_key_init dig (take hlen (dr_K ctx));
          ctx = ctx\<lparr>dr_K := hmac_run kc [take hlen (dr_V ctx), [0x00], seed]\<rparr>;
          kc = br_hmac_key_init dig (take hlen (dr_K ctx));
          ctx = ctx\<lparr>dr_V := hmac_run kc [take hlen (dr_V ctx)]\<rparr>
      in if length seed = 0 then ctx
         else let ctx = ctx\<lparr>dr_K := hmac_run kc [take hlen (dr_V ctx), [0x01], seed]\<rparr>;
                  kc = br_hmac_key_init dig (take hlen (dr_K ctx))
              in ctx\<lparr>dr_V := hmac_run kc [take hlen (dr_V ctx)]\<rparr>)"

definition br_hmac_drbg_init :: "'h hash_class \<Rightarrow> byte list \<Rightarrow> 'h hmac_drbg" where
  "br_hmac_drbg_init dig seed =
     (let hlen = br_digest_size dig
      in br_hmac_drbg_update \<lparr>dr_K = replicate hlen 0x00, dr_V = replicate hlen 0x01, dr_digest_class = dig\<rparr> seed)"

function drbg_loop :: "'h hmac_key \<Rightarrow> nat \<Rightarrow> byte list \<Rightarrow> nat \<Rightarrow> byte list \<times> byte list" where
  "drbg_loop kc hlen V len =
     (if len = 0 \<or> hlen = 0 then (V, [])
      else let V = hmac_run kc [take hlen V];
               clen = (if hlen > len then len else hlen)
           in case drbg_loop kc hlen V (len - clen) of (V', out) \<Rightarrow> (V', take clen V @ out))"
  by pat_completeness auto
termination
  by (relation "measure (\<lambda>(_, _, _, len). len)") auto

declare drbg_loop.simps [simp del]

definition br_hmac_drbg_generate :: "'h hmac_drbg \<Rightarrow> nat \<Rightarrow> 'h hmac_drbg \<times> byte list" where
  "br_hmac_drbg_generate ctx len =
     (let dig = dr_digest_class ctx;
          hlen = br_digest_size dig;
          kc = br_hmac_key_init dig (take hlen (dr_K ctx));
          (V, out) = drbg_loop kc hlen (dr_V ctx) len;
          ctx = ctx\<lparr>dr_V := V\<rparr>;
          ctx = ctx\<lparr>dr_K := hmac_run kc [take hlen (dr_V ctx), [0x00]]\<rparr>;
          kc = br_hmac_key_init dig (take hlen (dr_K ctx))
      in (ctx\<lparr>dr_V := hmac_run kc [take hlen (dr_V ctx)]\<rparr>, out))"

section \<open>The standards\<close>

text \<open>RFC 5246, section 5: \<open>A(i)\<close>, \<open>P_hash\<close> and the PRF.\<close>

fun rfc5246_A :: "(byte list \<Rightarrow> byte list \<Rightarrow> byte list) \<Rightarrow> byte list \<Rightarrow> byte list \<Rightarrow> nat \<Rightarrow> byte list" where
  "rfc5246_A mac secret seed 0 = seed"
| "rfc5246_A mac secret seed (Suc i) = mac secret (rfc5246_A mac secret seed i)"

definition rfc5246_P :: "(byte list \<Rightarrow> byte list \<Rightarrow> byte list) \<Rightarrow> byte list \<Rightarrow> byte list \<Rightarrow> nat \<Rightarrow> byte list" where
  "rfc5246_P mac secret seed k = concat (map (\<lambda>i. mac secret (rfc5246_A mac secret seed (i + 1) @ seed)) [0..<k])"

text \<open>RFC 5869: \<open>T(i)\<close> and the output keying material of \<open>k\<close> blocks.\<close>

fun rfc5869_T :: "(byte list \<Rightarrow> byte list \<Rightarrow> byte list) \<Rightarrow> byte list \<Rightarrow> byte list \<Rightarrow> nat \<Rightarrow> byte list" where
  "rfc5869_T mac prk info 0 = []"
| "rfc5869_T mac prk info (Suc i) = mac prk (rfc5869_T mac prk info i @ info @ [of_nat (Suc i)])"

definition rfc5869_okm :: "(byte list \<Rightarrow> byte list \<Rightarrow> byte list) \<Rightarrow> byte list \<Rightarrow> byte list \<Rightarrow> nat \<Rightarrow> byte list" where
  "rfc5869_okm mac prk info k = concat (map (\<lambda>i. rfc5869_T mac prk info (i + 1)) [0..<k])"

text \<open>SP 800-90A, section 10.1.2: update and generation on a state \<open>(K, V)\<close>.\<close>

definition sp_update :: "(byte list \<Rightarrow> byte list \<Rightarrow> byte list) \<Rightarrow> byte list \<Rightarrow> byte list \<times> byte list \<Rightarrow> byte list \<times> byte list" where
  "sp_update mac provided = (\<lambda>(K, V).
     let K = mac K (V @ [0x00] @ provided); V = mac K V
     in if provided = [] then (K, V)
        else let K = mac K (V @ [0x01] @ provided); V = mac K V in (K, V))"

definition sp_generate :: "(byte list \<Rightarrow> byte list \<Rightarrow> byte list) \<Rightarrow> nat \<Rightarrow> nat \<Rightarrow> byte list \<times> byte list \<Rightarrow>
    (byte list \<times> byte list) \<times> byte list" where
  "sp_generate mac outlen n = (\<lambda>(K, V).
     let k = (n + outlen - 1) div outlen;
         Vs = map (\<lambda>i. (mac K ^^ (i + 1)) V) [0..<k]
     in (sp_update mac [] (K, (mac K ^^ k) V), take n (concat Vs)))"

section \<open>Correctness over the contract\<close>

text \<open>The hash function of a table on whole messages.\<close>

definition digest :: "'h hash_class \<Rightarrow> byte list \<Rightarrow> byte list" where
  "digest dig m = hc_out dig (hc_update dig (hc_init dig) m)"

abbreviation mac_of :: "'h hash_class \<Rightarrow> byte list \<Rightarrow> byte list \<Rightarrow> byte list" where
  "mac_of dig \<equiv> rfc2104 (digest dig) (block_size dig)"

lemma xor_bytes_split:
  "length xs = length us \<Longrightarrow> xor_bytes (xs @ ys) (us @ vs) = xor_bytes xs us @ xor_bytes ys vs"
  by (simp add: xor_bytes_def)

context hash_fun
begin

lemma H_digest: "H = digest dig"
  using out [OF update [OF init]] by (auto simp: digest_def)

lemma length_mac [simp]: "length (mac_of dig key m) = br_digest_size dig"
  using length_rfc2104 by (simp add: H_digest)

lemma hmac_run_mac: "key_for kc key \<Longrightarrow> hmac_run kc ds = mac_of dig key (concat ds)"
  using hmac_full [of kc key ds] by (simp add: hmac_run_def H_digest)

lemma phash_loop_P:
  fixes seed :: "byte list list"
  assumes "key_for kc secret" "0 < br_digest_size dig" "length buf \<le> k * br_digest_size dig"
  defines "A \<equiv> rfc5246_A (mac_of dig) secret (concat seed)"
  shows "phash_loop kc (br_digest_size dig) seed (A (i + 1)) buf
    = xor_bytes buf (take (length buf) (concat (map (\<lambda>j. mac_of dig secret (A (j + 1) @ concat seed)) [i..<i + k])))"
  using assms(3)
proof (induction k arbitrary: i buf)
  case 0
  then show ?case by (simp add: phash_loop.simps xor_bytes_def)
next
  case (Suc k)
  let ?hl = "br_digest_size dig"
  have lA: "take ?hl (A (i + 1)) = A (i + 1)" by (simp add: A_def)
  define B where "B = mac_of dig secret (A (i + 1) @ concat seed)"
  have lB: "length B = ?hl" by (simp add: B_def)
  have r: "hmac_run kc (A (i + 1) # seed) = B" "hmac_run kc [A (i + 1)] = A (i + 2)"
    using hmac_run_mac [OF assms(1)] by (simp_all add: B_def A_def)
  have c: "concat (map (\<lambda>j. mac_of dig secret (A (j + 1) @ concat seed)) [i..<i + Suc k])
      = B @ concat (map (\<lambda>j. mac_of dig secret (A (j + 1) @ concat seed)) [i + 1..<i + 1 + k])"
    by (simp add: upt_conv_Cons B_def del: upt_Suc)
  show ?case
  proof (cases "length buf \<le> ?hl")
    case True
    then show ?thesis unfolding c using lB lA r by (subst phash_loop.simps) (simp add: Let_def min_absorb2)
  next
    case False
    have IH: "phash_loop kc ?hl seed (A (i + 2)) (drop ?hl buf) = xor_bytes (drop ?hl buf)
        (take (length (drop ?hl buf)) (concat (map (\<lambda>j. mac_of dig secret (A (j + 1) @ concat seed)) [i + 1..<i + 1 + k])))"
      using Suc.IH [of "drop ?hl buf" "i + 1"] Suc.prems by simp
    have "phash_loop kc ?hl seed (A (i + 1)) buf = xor_bytes (take ?hl buf) B @ phash_loop kc ?hl seed (A (i + 2)) (drop ?hl buf)"
      using False assms(2) lA r lB by (subst phash_loop.simps) (simp add: Let_def)
    then show ?thesis
      unfolding c IH using False lB xor_bytes_split [of "take ?hl buf" B "drop ?hl buf"] by simp
  qed
qed

lemma phash_P:
  assumes "0 < br_digest_size dig" "length dst \<le> k * br_digest_size dig"
  shows "br_tls_phash dst dig secret label seed
    = xor_bytes dst (take (length dst) (rfc5246_P (mac_of dig) secret (cstring label @ concat seed) k))"
proof (cases "dst = []")
  case False
  define kc where "kc = br_hmac_key_init dig secret"
  have k: "key_for kc secret" by (simp add: kc_def key_init)
  have "br_tls_phash dst dig secret label seed
      = phash_loop kc (br_digest_size dig) (cstring label # seed) (rfc5246_A (mac_of dig) secret (concat (cstring label # seed)) (0 + 1)) dst"
    using False hmac_run_mac [OF k] by (simp add: br_tls_phash_def Let_def kc_def)
  also have "\<dots> = xor_bytes dst (take (length dst) (rfc5246_P (mac_of dig) secret (cstring label @ concat seed) k))"
    using phash_loop_P [OF k assms, of "cstring label # seed" 0] by (simp add: rfc5246_P_def)
  finally show ?thesis .
qed (simp add: br_tls_phash_def xor_bytes_def)

text \<open>The state of the generator.\<close>

definition drbg_at :: "'h hmac_drbg \<Rightarrow> byte list \<times> byte list \<Rightarrow> bool" where
  "drbg_at ctx s \<longleftrightarrow> dr_digest_class ctx = dig \<and> (dr_K ctx, dr_V ctx) = s
     \<and> length (dr_K ctx) = br_digest_size dig \<and> length (dr_V ctx) = br_digest_size dig"

lemma drbg_update: "drbg_at ctx s \<Longrightarrow> drbg_at (br_hmac_drbg_update ctx seed) (sp_update (mac_of dig) seed s)"
  using hmac_run_mac [OF key_init]
  by (auto simp: drbg_at_def br_hmac_drbg_update_def sp_update_def Let_def)

lemma drbg_init: "drbg_at (br_hmac_drbg_init dig seed)
    (sp_update (mac_of dig) seed (replicate (br_digest_size dig) 0, replicate (br_digest_size dig) 1))"
  unfolding br_hmac_drbg_init_def Let_def by (rule drbg_update) (simp add: drbg_at_def)

lemma drbg_loop_V:
  fixes n :: nat
  assumes "key_for kc K" "0 < br_digest_size dig" "length V = br_digest_size dig"
  defines "k \<equiv> (n + br_digest_size dig - 1) div br_digest_size dig"
  shows "drbg_loop kc (br_digest_size dig) V n
    = ((mac_of dig K ^^ k) V, take n (concat (map (\<lambda>i. (mac_of dig K ^^ (i + 1)) V) [0..<k])))"
  using assms(3) unfolding k_def
proof (induction n arbitrary: V rule: less_induct)
  case (less n)
  let ?hl = "br_digest_size dig" and ?M = "mac_of dig K"
  define V1 where "V1 = ?M V"
  have r: "hmac_run kc [V] = V1" using hmac_run_mac [OF assms(1)] by (simp add: V1_def)
  have l1: "length V1 = ?hl" by (simp add: V1_def)
  show ?case
  proof (cases "n = 0")
    case True
    then show ?thesis using assms(2) by (simp add: drbg_loop.simps)
  next
    case False
    define clen where "clen = (if ?hl > n then n else ?hl)"
    define k' where "k' = (n - clen + ?hl - 1) div ?hl"
    have k: "(n + ?hl - 1) div ?hl = Suc k'"
    proof (cases "?hl > n")
      case True
      then have "(n + ?hl - 1) div ?hl = 1" using False by (intro div_nat_eqI) auto
      moreover have "k' = 0" using True assms(2) by (simp add: k'_def clen_def)
      ultimately show ?thesis by simp
    next
      case False
      then have "n + ?hl - 1 = ?hl + (n - clen + ?hl - 1)" using assms(2) by (simp add: clen_def)
      then have "(n + ?hl - 1) div ?hl = (?hl + (n - clen + ?hl - 1)) div ?hl" by (simp only:)
      then show ?thesis using assms(2) by (simp only: k'_def div_add_self1)
    qed
    have "n - clen < n" using False assms(2) by (simp add: clen_def)
    from less.IH [OF this l1] have IH: "drbg_loop kc ?hl V1 (n - clen)
        = ((?M ^^ k') V1, take (n - clen) (concat (map (\<lambda>i. (?M ^^ (i + 1)) V1) [0..<k'])))" by (simp add: k'_def)
    have "drbg_loop kc ?hl V n = (case drbg_loop kc ?hl V1 (n - clen) of (V', out) \<Rightarrow> (V', take clen V1 @ out))"
      using False assms(2) less.prems r by (subst drbg_loop.simps) (simp add: Let_def clen_def)
    moreover have "concat (map (\<lambda>i. (?M ^^ (i + 1)) V) [0..<Suc k']) = V1 @ concat (map (\<lambda>i. (?M ^^ (i + 1)) V1) [0..<k'])"
      by (simp add: upt_conv_Cons map_Suc_upt [symmetric] o_def funpow_swap1 V1_def del: upt_Suc)
    moreover have "take n (V1 @ ys) = take clen V1 @ take (n - clen) ys" for ys
      using l1 by (simp add: clen_def)
    ultimately show ?thesis unfolding k IH by (simp add: V1_def funpow_swap1 del: upt_Suc)
  qed
qed

lemma drbg_generate:
  assumes "drbg_at ctx s" "0 < br_digest_size dig"
  shows "drbg_at (fst (br_hmac_drbg_generate ctx n)) (fst (sp_generate (mac_of dig) (br_digest_size dig) n s))"
    "snd (br_hmac_drbg_generate ctx n) = snd (sp_generate (mac_of dig) (br_digest_size dig) n s)"
proof -
  obtain K V where s: "s = (K, V)" by fastforce
  have c: "dr_digest_class ctx = dig" "dr_K ctx = K" "dr_V ctx = V" "length K = br_digest_size dig" "length V = br_digest_size dig"
    using assms(1) by (auto simp: drbg_at_def s)
  have l: "length ((mac_of dig K ^^ k) V) = br_digest_size dig" for k using c(5) by (cases k) simp_all
  note d = drbg_loop_V [OF key_init assms(2) c(5), of K n]
  show "drbg_at (fst (br_hmac_drbg_generate ctx n)) (fst (sp_generate (mac_of dig) (br_digest_size dig) n s))"
    "snd (br_hmac_drbg_generate ctx n) = snd (sp_generate (mac_of dig) (br_digest_size dig) n s)"
    using l hmac_run_mac [OF key_init] c
    by (simp_all add: br_hmac_drbg_generate_def sp_generate_def sp_update_def Let_def s d drbg_at_def)
qed

text \<open>HKDF after \<open>n\<close> bytes of output: the buffer holds the current block.\<close>

definition hkdf_at :: "byte list \<Rightarrow> byte list \<Rightarrow> 'h hkdf_prk \<Rightarrow> nat \<Rightarrow> bool" where
  "hkdf_at prk info hc n \<longleftrightarrow> key_for (hp_prk hc) prk \<and> hp_dig_len hc = br_digest_size dig \<and> hp_ptr hc \<le> br_digest_size dig
     \<and> (\<exists>c \<le> 255. hp_chunk_num hc = of_nat c \<and> n + br_digest_size dig = c * br_digest_size dig + hp_ptr hc
          \<and> (0 < c \<longrightarrow> hp_buf hc = rfc5869_T (mac_of dig) prk info c))"

abbreviation okm :: "byte list \<Rightarrow> byte list \<Rightarrow> byte list" where
  "okm prk info \<equiv> rfc5869_okm (mac_of dig) prk info 255"

lemma length_T [simp]: "0 < c \<Longrightarrow> length (rfc5869_T (mac_of dig) prk info c) = br_digest_size dig"
  by (cases c) simp_all

lemma okm_block:
  assumes "c < 255"
  shows "drop (c * br_digest_size dig) (okm prk info)
    = rfc5869_T (mac_of dig) prk info (c + 1) @ drop ((c + 1) * br_digest_size dig) (okm prk info)"
proof -
  let ?T = "\<lambda>i. rfc5869_T (mac_of dig) prk info (i + 1)"
  have "length (concat (map ?T [0..<c])) = c * br_digest_size dig" for c by (induction c) simp_all
  note l = this [of c] this [of "c + 1"]
  have u: "[0..<255] = [0..<c] @ c # [c + 1..<255]" using assms upt_add_eq_append [of 0 c "255 - c"] by (simp add: upt_conv_Cons)
  have "okm prk info = concat (map ?T [0..<c]) @ ?T c @ concat (map ?T [c + 1..<255])"
    unfolding rfc5869_okm_def u by simp
  then show ?thesis using l by simp
qed

lemma length_okm: "length (okm prk info) = 255 * br_digest_size dig"
proof -
  have "length (concat (map (\<lambda>i. rfc5869_T (mac_of dig) prk info (i + 1)) [0..<k])) = k * br_digest_size dig" for k
    by (induction k) simp_all
  then show ?thesis by (simp only: rfc5869_okm_def)
qed

lemma hkdf_refill_block:
  assumes "hkdf_at prk info hc n" "n < 255 * br_digest_size dig"
  obtains hc' c where "hkdf_refill hc info = (hc', True)" "hkdf_at prk info hc' n" "hp_ptr hc' < br_digest_size dig" "c < 255"
    "n = c * br_digest_size dig + hp_ptr hc'" "hp_buf hc' = rfc5869_T (mac_of dig) prk info (c + 1)"
proof -
  let ?hl = "br_digest_size dig"
  obtain c where c: "c \<le> 255" "hp_chunk_num hc = of_nat c" "n + ?hl = c * ?hl + hp_ptr hc" "0 < c \<Longrightarrow> hp_buf hc = rfc5869_T (mac_of dig) prk info c"
    and h: "key_for (hp_prk hc) prk" "hp_dig_len hc = ?hl" "hp_ptr hc \<le> ?hl"
    using assms(1) by (auto simp: hkdf_at_def)
  show ?thesis
  proof (cases "hp_ptr hc = ?hl")
    case False
    then have "0 < c" using c(3) h(3) by (cases c) auto
    then obtain d where d: "c = Suc d" by (cases c) auto
    show ?thesis using False h c d assms(1) by (intro that [of hc d]) (auto simp: hkdf_refill_def)
  next
    case True
    then have n: "n = c * ?hl" using c(3) by simp
    then have c255: "c < 255" using assms(2) by simp
    define hc' where "hc' = hc\<lparr>hp_chunk_num := of_nat (Suc c), hp_buf := rfc5869_T (mac_of dig) prk info (Suc c), hp_ptr := 0\<rparr>"
    have x: "ucast (of_nat (Suc c) :: u32) = (of_nat (Suc c) :: byte)" "(of_nat (Suc c) :: u32) \<noteq> 256"
      "(of_nat (Suc c) :: byte) = 1 \<longleftrightarrow> c = 0"
    proof -
      have u: "unat (of_nat (Suc c) :: u32) = Suc c" "unat (of_nat (Suc c) :: byte) = Suc c"
        using c255 by (simp_all only: unat_of_nat) (simp_all add: take_bit_nat_eq_self)
      show "ucast (of_nat (Suc c) :: u32) = (of_nat (Suc c) :: byte)" using u(1) by (metis of_nat_unat)
      show "(of_nat (Suc c) :: u32) \<noteq> 256" using u(1) c255 by (auto simp: word_unat_eq_iff simp del: of_nat_Suc)
      show "(of_nat (Suc c) :: byte) = 1 \<longleftrightarrow> c = 0" using u(2) by (auto simp: word_unat_eq_iff simp del: of_nat_Suc)
    qed
    have e: "hp_chunk_num hc + 1 = of_nat (Suc c)" by (simp add: c(2))
    have "hkdf_refill hc info = (hc', True)"
      using True h(2) c(4) x hmac_run_mac [OF h(1)]
      by (cases "c = 0") (simp_all add: hkdf_refill_def Let_def hc'_def e del: of_nat_Suc)
    moreover have "hkdf_at prk info hc' n"
      unfolding hkdf_at_def using h c255 n by (auto simp: hc'_def intro!: exI [of _ "Suc c"])
    moreover have "0 < ?hl" using assms(2) by (cases ?hl) auto
    ultimately show ?thesis using c255 n by (intro that [of hc' c]) (auto simp: hc'_def)
  qed
qed

lemma hkdf_turn:
  assumes "hkdf_at prk info hc n" "n < 255 * br_digest_size dig" "0 < m"
  obtains h2 clen where "0 < clen" "clen \<le> m" "n + clen \<le> 255 * br_digest_size dig" "hkdf_at prk info h2 (n + clen)"
    "br_hkdf_produce hc info m = (case br_hkdf_produce h2 info (m - clen) of (hc, rest) \<Rightarrow> (hc, take clen (drop n (okm prk info)) @ rest))"
proof -
  let ?hl = "br_digest_size dig"
  from hkdf_refill_block [OF assms(1,2)] obtain h1 c where h1: "hkdf_refill hc info = (h1, True)" "hkdf_at prk info h1 n"
    "hp_ptr h1 < ?hl" "c < 255" "n = c * ?hl + hp_ptr h1" "hp_buf h1 = rfc5869_T (mac_of dig) prk info (c + 1)" .
  have dl: "hp_dig_len h1 = ?hl" using h1(2) by (simp add: hkdf_at_def)
  define clen where "clen = (if ?hl - hp_ptr h1 > m then m else ?hl - hp_ptr h1)"
  have cl: "0 < clen" "clen \<le> m" "hp_ptr h1 + clen \<le> ?hl" using assms(3) h1(3) by (auto simp: clen_def)
  define h2 where "h2 = h1\<lparr>hp_ptr := hp_ptr h1 + clen\<rparr>"
  have at2: "hkdf_at prk info h2 (n + clen)" using h1(2) cl(3) by (auto simp: hkdf_at_def h2_def)
  have "c * ?hl + ?hl \<le> 255 * ?hl" using h1(4) mult_le_mono1 [of "Suc c" 255 ?hl] by simp
  then have le: "n + clen \<le> 255 * ?hl" using h1(5) cl(3) by linarith
  have "drop n (okm prk info) = drop (hp_ptr h1) (rfc5869_T (mac_of dig) prk info (c + 1)) @ drop ((c + 1) * ?hl) (okm prk info)"
    using arg_cong [OF okm_block [OF h1(4), of prk info], of "drop (hp_ptr h1)"] h1(3,5) by (simp add: add.commute)
  then have "take clen (drop n (okm prk info)) = take clen (drop (hp_ptr h1) (hp_buf h1))"
    using cl(3) h1(6) by simp
  then have "br_hkdf_produce hc info m = (case br_hkdf_produce h2 info (m - clen) of (hc, rest) \<Rightarrow> (hc, take clen (drop n (okm prk info)) @ rest))"
    using assms(3) h1(1) dl cl(1) by (subst br_hkdf_produce.simps) (simp add: Let_def clen_def [symmetric] h2_def [symmetric])
  from that [OF cl(1,2) le at2 this] show ?thesis .
qed

lemma hkdf_produce_okm:
  "hkdf_at prk info hc n \<Longrightarrow> n + m \<le> 255 * br_digest_size dig \<Longrightarrow>
    \<exists>hc'. br_hkdf_produce hc info m = (hc', take m (drop n (okm prk info))) \<and> hkdf_at prk info hc' (n + m)"
proof (induction m arbitrary: n hc rule: less_induct)
  case (less m)
  show ?case
  proof (cases "m = 0")
    case True
    with less.prems show ?thesis by (simp add: br_hkdf_produce.simps)
  next
    case False
    then have "n < 255 * br_digest_size dig" "0 < m" using less.prems(2) by simp_all
    from hkdf_turn [OF less.prems(1) this] obtain h2 clen where t: "0 < clen" "clen \<le> m" "hkdf_at prk info h2 (n + clen)"
      "br_hkdf_produce hc info m = (case br_hkdf_produce h2 info (m - clen) of (hc, rest) \<Rightarrow> (hc, take clen (drop n (okm prk info)) @ rest))"
      by blast
    have "take m (drop n xs) = take clen (drop n xs) @ take (m - clen) (drop (n + clen) xs)" for xs :: "byte list"
      using t(2) take_add [of clen "m - clen" "drop n xs"] by (simp add: add.commute)
    moreover have "m - clen < m" "n + clen + (m - clen) \<le> 255 * br_digest_size dig" using t(1,2) less.prems(2) by simp_all
    note less.IH [OF this(1) t(3) this(2)]
    ultimately show ?thesis using t(2,4) by auto
  qed
qed

text \<open>At the limit a call returns what is left; the call after it starts over with the first block.\<close>

lemma hkdf_limit:
  "hkdf_at prk info hc n \<Longrightarrow> n \<le> 255 * br_digest_size dig \<Longrightarrow> 255 * br_digest_size dig < n + m \<Longrightarrow> 0 < br_digest_size dig \<Longrightarrow>
    \<exists>hc'. br_hkdf_produce hc info m = (hc', drop n (okm prk info)) \<and> hp_chunk_num hc' = 256 \<and> hp_ptr hc' = br_digest_size dig
      \<and> hp_dig_len hc' = br_digest_size dig \<and> key_for (hp_prk hc') prk"
proof (induction m arbitrary: n hc rule: less_induct)
  case (less m)
  let ?hl = "br_digest_size dig"
  show ?case
  proof (cases "n = 255 * ?hl")
    case True
    obtain c where c: "c \<le> 255" "hp_chunk_num hc = of_nat c" "n + ?hl = c * ?hl + hp_ptr hc"
      and h: "key_for (hp_prk hc) prk" "hp_dig_len hc = ?hl" "hp_ptr hc \<le> ?hl"
      using less.prems(1) by (auto simp: hkdf_at_def)
    have "c = 255"
    proof (rule ccontr)
      assume "c \<noteq> 255"
      then have "c * ?hl + ?hl \<le> 255 * ?hl" using c(1) mult_le_mono1 [of "Suc c" 255 ?hl] by simp
      then show False using c(3) h(3) True less.prems(4) by linarith
    qed
    then have "hp_ptr hc = ?hl" "hp_chunk_num hc + 1 = 256" using c True by simp_all
    then have "hkdf_refill hc info = (hc\<lparr>hp_chunk_num := 256\<rparr>, False)" using h(2) by (simp add: hkdf_refill_def Let_def)
    then have "br_hkdf_produce hc info m = (hc\<lparr>hp_chunk_num := 256\<rparr>, [])"
      using less.prems(3) True by (subst br_hkdf_produce.simps) simp
    then show ?thesis using h \<open>hp_ptr hc = ?hl\<close> True length_okm [of prk info] by simp
  next
    case False
    then have "n < 255 * ?hl" "0 < m" using less.prems(2,3) by simp_all
    from hkdf_turn [OF less.prems(1) this] obtain h2 clen where t: "0 < clen" "clen \<le> m" "n + clen \<le> 255 * ?hl" "hkdf_at prk info h2 (n + clen)"
      "br_hkdf_produce hc info m = (case br_hkdf_produce h2 info (m - clen) of (hc, rest) \<Rightarrow> (hc, take clen (drop n (okm prk info)) @ rest))"
      by blast
    have d: "take clen (drop n xs) @ drop (n + clen) xs = drop n xs" for xs :: "byte list"
      using append_take_drop_id [of clen "drop n xs"] by (simp add: add.commute)
    have "m - clen < m" "255 * ?hl < n + clen + (m - clen)" using t(1,2) less.prems(3) by simp_all
    from less.IH [OF this(1) t(4,3) this(2) less.prems(4)] t(5) d show ?thesis by auto
  qed
qed

lemma hkdf_wraps:
  assumes "key_for (hp_prk hc) prk" "hp_chunk_num hc = 256" "hp_ptr hc = br_digest_size dig" "hp_dig_len hc = br_digest_size dig"
    and "m \<le> br_digest_size dig" "0 < m"
  shows "snd (br_hkdf_produce hc info m) = take m (rfc5869_T (mac_of dig) prk info 1)"
proof -
  have "hkdf_refill hc info = (hc\<lparr>hp_chunk_num := 257, hp_buf := rfc5869_T (mac_of dig) prk info 1, hp_ptr := 0\<rparr>, True)"
  proof -
    have e: "(257 :: byte) = 1" by simp
    show ?thesis using assms(2-4) hmac_run_mac [OF assms(1)] by (simp add: hkdf_refill_def Let_def) (simp only: e)
  qed
  then show ?thesis using assms(4-6) by (subst br_hkdf_produce.simps) (simp add: Let_def br_hkdf_produce.simps [of _ _ 0])
qed

end

section \<open>SHA-256 and SHA-384\<close>

lemma digest_sha256: "digest br_sha256_vtable = fips_sha sha256_fun br_sha256_IV 32"
  using sha256.H_digest by (simp add: sha2_sizes small_hash [abs_def])

lemma xor_zeros: "length xs = n \<Longrightarrow> xor_bytes (replicate n 0) xs = xs"
  by (induction xs arbitrary: n) (auto simp: xor_bytes_def)

lemma length_P: "(\<And>k m. length (mac k m) = h) \<Longrightarrow> length (rfc5246_P mac secret seed n) = n * h"
  by (induction n) (simp_all add: rfc5246_P_def)

lemma blocks_enough: "0 < (h :: nat) \<Longrightarrow> n \<le> (n + h - 1) div h * h"
proof -
  assume "0 < h"
  have "n + h - 1 < ((n + h - 1) div h + 1) * h" using dividend_less_times_div [OF \<open>0 < h\<close>, of "n + h - 1"] by (simp add: mult.commute)
  then show ?thesis using \<open>0 < h\<close> by simp
qed

lemma digest_old: "digest br_md5_vtable = rfc1321" "digest br_sha1_vtable = fips_sha1"
  using md5.H_digest sha1.H_digest by (simp_all add: md5_sizes sha1_sizes md5_hash [abs_def] sha1_hash [abs_def])

text \<open>RFC 2246, section 5: the two halves of the secret share the middle byte if its length is odd.\<close>

definition rfc2246_PRF :: "nat \<Rightarrow> byte list \<Rightarrow> byte list \<Rightarrow> byte list" where
  "rfc2246_PRF len secret lseed =
     (let h = (length secret + 1) div 2;
          S1 = take h secret;
          S2 = drop (length secret - h) secret
      in xor_bytes (take len (rfc5246_P (rfc2104 rfc1321 64) S1 lseed ((len + 15) div 16)))
           (take len (rfc5246_P (rfc2104 fips_sha1 64) S2 lseed ((len + 19) div 20))))"

lemma tls10_prf: "br_tls10_prf len secret label seed = rfc2246_PRF len secret (cstring label @ concat seed)"
proof -
  define h where "h = (length secret + 1) div 2"
  define P1 P2 where "P1 = rfc5246_P (rfc2104 rfc1321 64) (take h secret) (cstring label @ concat seed) ((len + 15) div 16)"
    and "P2 = rfc5246_P (rfc2104 fips_sha1 64) (drop (length secret - h) secret) (cstring label @ concat seed) ((len + 19) div 20)"
  have m: "br_digest_size br_md5_vtable = 16" "br_digest_size br_sha1_vtable = 20" "block_size br_md5_vtable = 64" "block_size br_sha1_vtable = 64"
    by (simp_all add: md5_sizes sha1_sizes)
  have n: "len \<le> (len + 15) div 16 * 16" "len \<le> (len + 19) div 20 * 20" using blocks_enough [of 16 len] blocks_enough [of 20 len] by simp_all
  have "length P1 = (len + 15) div 16 * 16"
    using length_P [OF md5.length_mac] by (simp add: P1_def m digest_old)
  then have l: "length (take len P1) = len" using n(1) by simp
  have "br_tls_phash (replicate len 0) br_md5_vtable (take h secret) label seed = take len P1"
    using md5.phash_P [of "replicate len 0" "(len + 15) div 16" "take h secret" label seed] n(1) l
    by (simp add: m digest_old P1_def [symmetric] xor_zeros)
  moreover have "br_tls_phash (take len P1) br_sha1_vtable (drop (length secret - h) secret) label seed = xor_bytes (take len P1) (take len P2)"
    using sha1.phash_P [of "take len P1" "(len + 19) div 20" "drop (length secret - h) secret" label seed] n(2) l
    by (simp add: m digest_old P2_def [symmetric])
  moreover have "h \<le> length secret" by (simp add: h_def)
  ultimately show ?thesis
    unfolding br_tls10_prf_def rfc2246_PRF_def Let_def h_def [symmetric] P1_def [symmetric] P2_def [symmetric] by simp
qed

text \<open>
  C10. The PRFs of TLS: for every length, secret, label and seed, the output of \<open>br_tls12_sha256_prf\<close> is
  the prefix of that length of \<open>P_SHA256(secret, label + seed)\<close> of RFC 5246 over HMAC of RFC 2104 and
  SHA-256 of FIPS 180-4; \<open>br_tls12_sha384_prf\<close> the same for SHA-384; and \<open>br_tls10_prf\<close> is the PRF of TLS 1.0 of
  RFC 2246, the exclusive or of \<open>P_MD5\<close> and \<open>P_SHA1\<close> over the two halves of the secret.
\<close>

theorem tls_prf_is_standard:
  "br_tls12_sha256_prf len secret label seed
     = take len (rfc5246_P (rfc2104 (fips_sha sha256_fun br_sha256_IV 32) 64) secret (cstring label @ concat seed) ((len + 31) div 32))
   \<and> br_tls12_sha384_prf len secret label seed
     = take len (rfc5246_P (rfc2104 (digest br_sha384_vtable) 128) secret (cstring label @ concat seed) ((len + 47) div 48))
   \<and> br_tls10_prf len secret label seed = rfc2246_PRF len secret (cstring label @ concat seed)"
proof -
  have "length (replicate len (0 :: byte)) \<le> (len + 31) div 32 * 32" "length (replicate len (0 :: byte)) \<le> (len + 47) div 48 * 48"
    using blocks_enough [of 32 len] blocks_enough [of 48 len] by simp_all
  moreover have "length (rfc5246_P (mac_of br_sha256_vtable) secret sd k) = k * 32" "length (rfc5246_P (mac_of br_sha384_vtable) secret sd k) = k * 48" for sd k
    using length_P [OF sha256.length_mac] length_P [OF sha384.length_mac] by (simp_all add: sha2_sizes)
  ultimately show ?thesis
    using sha256.phash_P [of "replicate len 0" "(len + 31) div 32" secret label seed]
      sha384.phash_P [of "replicate len 0" "(len + 47) div 48" secret label seed] tls10_prf
    by (simp add: br_tls12_sha256_prf_def br_tls12_sha384_prf_def sha2_sizes digest_sha256 xor_zeros min_absorb2)
qed

text \<open>Successive calls of \<open>br_hkdf_produce\<close> with the same info, and what they return.\<close>

fun hkdf_calls :: "'h hkdf_prk \<Rightarrow> byte list \<Rightarrow> nat list \<Rightarrow> 'h hkdf_prk \<times> byte list list" where
  "hkdf_calls hc info [] = (hc, [])"
| "hkdf_calls hc info (n # ns) = (case br_hkdf_produce hc info n of (hc, out) \<Rightarrow>
     case hkdf_calls hc info ns of (hc, outs) \<Rightarrow> (hc, out # outs))"

definition hkdf_start :: "'h hash_class \<Rightarrow> byte list option \<Rightarrow> byte list list \<Rightarrow> 'h hkdf_prk" where
  "hkdf_start dig salt ikm = br_hkdf_flip (foldl br_hkdf_inject (br_hkdf_init dig salt) ikm)"

definition rfc5869_extract :: "(byte list \<Rightarrow> byte list \<Rightarrow> byte list) \<Rightarrow> nat \<Rightarrow> byte list option \<Rightarrow> byte list \<Rightarrow> byte list" where
  "rfc5869_extract mac hl salt ikm = mac (case salt of None \<Rightarrow> replicate hl 0 | Some s \<Rightarrow> s) ikm"

context hash_fun
begin

lemma hkdf_start_at: "hkdf_at (rfc5869_extract (mac_of dig) (br_digest_size dig) salt (concat ikm)) info (hkdf_start dig salt ikm) 0"
proof -
  define s where "s = (case salt of None \<Rightarrow> replicate (br_digest_size dig) 0 | Some s \<Rightarrow> s)"
  define h where "h = br_hmac_init (br_hmac_key_init dig s) 0"
  have i: "foldl br_hkdf_inject hc ikm = hc\<lparr>hk_hmac := foldl br_hmac_update (hk_hmac hc) ikm\<rparr>" for hc :: "'h hkdf_ctx"
    by (induction ikm arbitrary: hc) (simp_all add: br_hkdf_inject_def)
  have l: "br_hmac_size h = br_digest_size dig" by (simp add: h_def br_hmac_size_def br_hmac_init_def br_hmac_key_init_def Let_def)
  have "hmac_for (foldl br_hmac_update h ikm) s ([] @ concat ikm)" unfolding h_def by (intro hmac_updates hmac_init key_init)
  then have v: "hm_vtable (foldl br_hmac_update h ikm) = dig" by (simp add: hmac_for_def)
  have o: "br_hmac_out (foldl br_hmac_update h ikm) = mac_of dig s (concat ikm)"
    using hmac_full [OF key_init, of s ikm] by (simp add: h_def H_digest)
  have "hkdf_start dig salt ikm = \<lparr>hp_prk = br_hmac_key_init dig (mac_of dig s (concat ikm)), hp_buf = replicate 64 0,
      hp_ptr = br_digest_size dig, hp_dig_len = br_digest_size dig, hp_chunk_num = 0\<rparr>"
    using l o v by (simp add: hkdf_start_def i br_hkdf_init_def br_hkdf_flip_def Let_def br_hmac_get_digest_def s_def [symmetric] h_def [symmetric])
  then show ?thesis by (auto simp: hkdf_at_def key_init rfc5869_extract_def s_def [symmetric] intro!: exI [of _ 0])
qed

lemma hkdf_calls_okm:
  "hkdf_at prk info hc n \<Longrightarrow> n + sum_list ns \<le> 255 * br_digest_size dig \<Longrightarrow>
    concat (snd (hkdf_calls hc info ns)) = take (sum_list ns) (drop n (okm prk info))"
proof (induction ns arbitrary: hc n)
  case (Cons m ns)
  then obtain hc' where h: "br_hkdf_produce hc info m = (hc', take m (drop n (okm prk info)))" "hkdf_at prk info hc' (n + m)"
    using hkdf_produce_okm [of prk info hc n m] by auto
  have "take (m + k) (drop n xs) = take m (drop n xs) @ take k (drop (n + m) xs)" for k and xs :: "byte list"
    using take_add [of m k "drop n xs"] by (simp add: add.commute)
  then show ?case using Cons.IH [OF h(2)] Cons.prems(2) h(1) by (simp add: case_prod_unfold)
qed simp

lemma hkdf_too_much:
  assumes "hkdf_at prk info hc 0" "255 * br_digest_size dig < m" "0 < k" "k \<le> br_digest_size dig"
  shows "snd (hkdf_calls hc info [m, k]) = [okm prk info, take k (rfc5869_T (mac_of dig) prk info 1)]"
proof -
  from hkdf_limit [OF assms(1), of m] assms(2-4) obtain hc' where h: "br_hkdf_produce hc info m = (hc', okm prk info)"
    "hp_chunk_num hc' = 256" "hp_ptr hc' = br_digest_size dig" "hp_dig_len hc' = br_digest_size dig" "key_for (hp_prk hc') prk"
    by auto
  show ?thesis using hkdf_wraps [OF h(5,2,3,4) assms(4,3), of info] h(1) by (simp add: case_prod_unfold)
qed

end

text \<open>
  C12. HKDF with SHA-256: after any pieces of keying material, successive calls of
  \<open>br_hkdf_produce\<close> with the same info string return together the output keying material of RFC 5869, up to its limit of 255
  blocks; a request beyond the limit returns the whole of it. The call after that does not return an
  empty result, it starts over with the first block.
\<close>

theorem hkdf_is_rfc5869:
  fixes salt :: "byte list option" and ikm :: "byte list list" and info :: "byte list"
  defines "mac \<equiv> rfc2104 (fips_sha sha256_fun br_sha256_IV 32) 64"
  defines "hc \<equiv> hkdf_start br_sha256_vtable salt ikm"
  defines "prk \<equiv> rfc5869_extract mac 32 salt (concat ikm)"
  assumes "sum_list ns \<le> 255 * 32" "255 * 32 < m" "0 < k" "k \<le> 32"
  shows "concat (snd (hkdf_calls hc info ns)) = take (sum_list ns) (rfc5869_okm mac prk info 255)
    \<and> snd (hkdf_calls hc info [m, k]) = [rfc5869_okm mac prk info 255, take k (rfc5869_okm mac prk info 255)]"
proof -
  have mac: "mac_of br_sha256_vtable = mac" by (simp add: mac_def digest_sha256 sha2_sizes)
  have at: "sha256.hkdf_at prk info hc 0"
    using sha256.hkdf_start_at [of salt ikm info] unfolding mac by (simp add: hc_def prk_def sha2_sizes)
  have "rfc5869_okm mac prk info 255 = rfc5869_T mac prk info 1 @ drop 32 (rfc5869_okm mac prk info 255)"
    using sha256.okm_block [of 0 prk info] unfolding mac unfolding sha2_sizes by simp
  moreover have "length (rfc5869_T mac prk info 1) = 32"
    using sha256.length_T [of 1 prk info] unfolding mac unfolding sha2_sizes by simp
  ultimately have "take k (rfc5869_okm mac prk info 255) = take k (rfc5869_T mac prk info 1)"
    using assms(7) by (metis append_Nil2 diff_is_0_eq take0 take_append)
  then show ?thesis
    using sha256.hkdf_calls_okm [OF at, of ns] sha256.hkdf_too_much [OF at, of m k] assms(4-7) unfolding mac unfolding sha2_sizes by simp
qed

theorem hkdf_is_rfc5869_witness:
  "concat (snd (hkdf_calls (hkdf_start br_sha256_vtable None [[1, 2], [3]]) [4] [20, 30]))
    = take 50 (rfc5869_okm (rfc2104 (fips_sha sha256_fun br_sha256_IV 32) 64)
        (rfc5869_extract (rfc2104 (fips_sha sha256_fun br_sha256_IV 32) 64) 32 None [1, 2, 3]) [4] 255)"
  using hkdf_is_rfc5869 [of "[20, 30]" 8161 32 None "[[1, 2], [3]]" "[4]"] by simp

text \<open>Requests to the random generator, as the code and as SP 800-90A answer them.\<close>

datatype drbg_request = Seed "byte list" | Generate nat

fun drbg_code :: "'h hmac_drbg \<Rightarrow> drbg_request list \<Rightarrow> byte list list" where
  "drbg_code ctx [] = []"
| "drbg_code ctx (Seed s # rs) = drbg_code (br_hmac_drbg_update ctx s) rs"
| "drbg_code ctx (Generate n # rs) = (case br_hmac_drbg_generate ctx n of (ctx, out) \<Rightarrow> out # drbg_code ctx rs)"

fun drbg_spec :: "(byte list \<Rightarrow> byte list \<Rightarrow> byte list) \<Rightarrow> nat \<Rightarrow> byte list \<times> byte list \<Rightarrow> drbg_request list \<Rightarrow> byte list list" where
  "drbg_spec mac hl s [] = []"
| "drbg_spec mac hl s (Seed d # rs) = drbg_spec mac hl (sp_update mac d s) rs"
| "drbg_spec mac hl s (Generate n # rs) = (case sp_generate mac hl n s of (s, out) \<Rightarrow> out # drbg_spec mac hl s rs)"

context hash_fun
begin

lemma drbg_refines:
  "drbg_at ctx s \<Longrightarrow> 0 < br_digest_size dig \<Longrightarrow> drbg_code ctx rs = drbg_spec (mac_of dig) (br_digest_size dig) s rs"
proof (induction rs arbitrary: ctx s)
  case (Cons r rs)
  show ?case
  proof (cases r)
    case (Seed d)
    then show ?thesis using Cons drbg_update by simp
  next
    case (Generate n)
    then show ?thesis using drbg_generate [OF Cons.prems, of n] Cons.IH [OF _ Cons.prems(2)] by (simp add: case_prod_unfold)
  qed
qed simp

end

text \<open>
  C11. The random generator over SHA-256 is HMAC_DRBG of SP 800-90A: from any seed, any sequence of additional
  seeds and requests is answered as the standard says, with SHA-256 as FIPS 180-4 has it. The statement is about the
  bytes returned; what a call leaves in the context shows in the answers to the later ones.
\<close>

theorem hmac_drbg_is_sp800_90a:
  "drbg_code (br_hmac_drbg_init br_sha256_vtable seed) rs
    = (let mac = rfc2104 (fips_sha sha256_fun br_sha256_IV 32) 64
       in drbg_spec mac 32 (sp_update mac seed (replicate 32 0x00, replicate 32 0x01)) rs)"
  using sha256.drbg_refines [OF sha256.drbg_init, of seed rs] by (simp add: sha2_sizes digest_sha256 Let_def)

text \<open>
  HMAC is RFC 2104: for every key, requested length and pieces of data, over each of the hash
  functions of the code that TLS uses it with: MD5, SHA-1 and the four of SHA-2.
\<close>

theorem hmac_is_rfc2104:
  fixes key :: "byte list" and n :: nat and ds :: "byte list list"
  defines "out \<equiv> \<lambda>h. if 0 < n \<and> n < h then n else h"
  shows "br_hmac_out (foldl br_hmac_update (br_hmac_init (br_hmac_key_init br_sha256_vtable key) n) ds)
      = take (out 32) (rfc2104 (fips_sha sha256_fun br_sha256_IV 32) 64 key (concat ds))
    \<and> br_hmac_out (foldl br_hmac_update (br_hmac_init (br_hmac_key_init br_sha224_vtable key) n) ds)
      = take (out 28) (rfc2104 (digest br_sha224_vtable) 64 key (concat ds))
    \<and> br_hmac_out (foldl br_hmac_update (br_hmac_init (br_hmac_key_init br_sha384_vtable key) n) ds)
      = take (out 48) (rfc2104 (digest br_sha384_vtable) 128 key (concat ds))
    \<and> br_hmac_out (foldl br_hmac_update (br_hmac_init (br_hmac_key_init br_sha512_vtable key) n) ds)
      = take (out 64) (rfc2104 (digest br_sha512_vtable) 128 key (concat ds))
    \<and> br_hmac_out (foldl br_hmac_update (br_hmac_init (br_hmac_key_init br_sha1_vtable key) n) ds)
      = take (out 20) (rfc2104 fips_sha1 64 key (concat ds))
    \<and> br_hmac_out (foldl br_hmac_update (br_hmac_init (br_hmac_key_init br_md5_vtable key) n) ds)
      = take (out 16) (rfc2104 rfc1321 64 key (concat ds))"
  using sha256.hmac_of_key [of key n ds] sha224.hmac_of_key [of key n ds] sha384.hmac_of_key [of key n ds] sha512.hmac_of_key [of key n ds]
    sha1.hmac_of_key [of key n ds] md5.hmac_of_key [of key n ds]
  unfolding sha1_sizes md5_sizes sha1_hash md5_hash unfolding sha224.H_digest sha256.H_digest sha384.H_digest sha512.H_digest
  unfolding digest_sha256 sha2_sizes out_def by (intro conjI)

end
