(* ===== verification/Hmac_Ct.thy ===== *)
theory Hmac_Ct
  imports Hmac Ct_Prims
begin

text \<open>
  HMAC of data whose length is secret (\<^verbatim>\<open>mac/hmac_ct.c\<close>), which the CBC records use to verify a MAC
  without a timing difference: bytes are fed one by one, the padding of the hash function is done
  by hand with constant-time selections, and the state after every block is a candidate for the
  result. The theorem says that the result is the plain HMAC of the data up to the secret length.
\<close>

unbundle bit_operations_syntax

section \<open>The code\<close>

text \<open>\<open>CCOPY\<close> on arrays.\<close>

definition ccopy_bytes :: "u32 \<Rightarrow> byte list \<Rightarrow> byte list \<Rightarrow> nat \<Rightarrow> byte list" where
  "ccopy_bytes ctl dst src len =
     map2 (\<lambda>s d. ucast (MUX ctl (ucast s) (ucast d))) (take len src) (take len dst) @ drop len dst"

text \<open>A byte of the encoded length at index \<open>u\<close>, and the byte that is fed there.\<close>

definition outct_len_byte :: "bool \<Rightarrow> u32 \<Rightarrow> u64 \<Rightarrow> u32 \<Rightarrow> u32 \<Rightarrow> u32" where
  "outct_len_byte be bs bit_len kr u =
     (let v = (kr + u) AND (bs - 1)
      in if v \<ge> bs - 8 then
           let j = unat (push_bit 3 (v - (bs - 8)));
               e = (if be then ucast (drop_bit (56 - j) bit_len) else ucast (drop_bit j bit_len))
           in e AND 0xFF
         else 0)"

definition outct_byte :: "bool \<Rightarrow> u32 \<Rightarrow> u64 \<Rightarrow> u32 \<Rightarrow> u32 \<Rightarrow> byte list \<Rightarrow> nat \<Rightarrow> nat \<Rightarrow> u32 \<Rightarrow> byte" where
  "outct_byte be bs bit_len kr kl data len max_len u =
     (let d = (if unat u < max_len then ucast (data ! unat u) else 0);
          e = outct_len_byte be bs bit_len kr u;
          x0 = MUX (EQ u (of_nat len)) 0x80 d;
          x1 = MUX (LT u kl) 0x00 e
      in ucast (MUX (LE u (of_nat len)) x0 x1))"

definition outct_turn :: "'h hash_class \<Rightarrow> u32 \<Rightarrow> nat \<Rightarrow> u32 \<Rightarrow> u32 \<Rightarrow> (u32 \<Rightarrow> byte) \<Rightarrow> 'h \<times> byte list \<Rightarrow> u32 \<Rightarrow> 'h \<times> byte list" where
  "outct_turn dig bs hlen kr kz x = (\<lambda>(hc, tmp2) u.
     let v = (kr + u) AND (bs - 1);
         hc = hc_update dig hc [x u]
     in if v = bs - 1 then (hc, ccopy_bytes (EQ u kz) tmp2 (fst (hc_state dig hc)) hlen) else (hc, tmp2))"

text \<open>The blocks from the first one that depends on the secret length, up to the inner hash.\<close>

definition outct_inner :: "'h hash_class \<Rightarrow> u64 \<Rightarrow> 'h \<Rightarrow> byte list \<Rightarrow> nat \<Rightarrow> nat \<Rightarrow> u64 \<Rightarrow> byte list" where
  "outct_inner dig bit_len hc data len max_len count =
     (let be = (desc dig AND BR_HASHDESC_MD_PADDING_BE \<noteq> 0);
          po = (if desc dig AND BR_HASHDESC_MD_PADDING_128 \<noteq> 0 then 9 + 8 else 9);
          bs = of_nat (block_size dig) :: u32;
          hlen = br_digest_size dig;
          kr = ucast count AND (bs - 1);
          kz = ((kr + of_nat len + po + bs - 1) AND NOT (bs - 1)) - 1 - kr;
          kl = kz - 7;
          km = ((kr + of_nat max_len + po + bs - 1) AND NOT (bs - 1)) - kr
      in snd (foldl (outct_turn dig bs hlen kr kz (outct_byte be bs bit_len kr kl data len max_len))
               (hc, replicate 64 0) (map of_nat [0..<unat km])))"

definition br_hmac_outCT :: "'h hmac_ctx \<Rightarrow> byte list \<Rightarrow> nat \<Rightarrow> nat \<Rightarrow> nat \<Rightarrow> byte list" where
  "br_hmac_outCT ctx data len min_len max_len =
     (let hc = hm_dig ctx;
          dig = hm_vtable ctx;
          bs = of_nat (block_size dig) :: u32;
          count = snd (hc_state dig hc);
          bit_len = push_bit 3 (count + of_nat len);
          ncount = (count + of_nat min_len) AND NOT (ucast (bs - 1));
          tmp2 = (if ncount > count
                  then let zlen = unat (ncount - count)
                       in outct_inner dig bit_len (hc_update dig hc (take zlen data)) (drop zlen data) (len - zlen) (max_len - zlen) ncount
                  else outct_inner dig bit_len hc data len max_len count)
      in hmac_outer ctx tmp2)"

section \<open>Arithmetic\<close>

lemma map2_side: "length xs = length ys \<Longrightarrow> map2 (\<lambda>x y. x) xs ys = xs" "length xs = length ys \<Longrightarrow> map2 (\<lambda>x y. y) xs ys = ys"
  by (induction xs ys rule: list_induct2; simp)+

lemma ccopy_bytes_select:
  assumes "len \<le> length src" "len \<le> length dst"
  shows "ccopy_bytes (of_bool b) dst src len = (if b then take len src @ drop len dst else dst)"
proof -
  have "ucast (ucast x :: u32) = (x :: byte)" for x by (simp add: ucast_byte_u32)
  then show ?thesis using assms map2_side [of "take len src" "take len dst"]
    by (cases b) (simp_all add: ccopy_bytes_def)
qed

lemma enc64_nth:
  assumes "j < 8"
  shows "br_enc64be w ! j = ucast (drop_bit (56 - 8 * j) w)" "br_enc64le w ! j = ucast (drop_bit (8 * j) w)"
proof -
  have u: "ucast (drop_bit i (ucast x :: u32)) = (ucast (drop_bit i x) :: byte)" if "i \<le> 24" for i and x :: u64
    using that by (intro bit_word_eqI) (simp add: bit_simps)
  from assms have "j = 0 \<or> j = 1 \<or> j = 2 \<or> j = 3 \<or> j = 4 \<or> j = 5 \<or> j = 6 \<or> j = 7" by auto
  then show "br_enc64be w ! j = ucast (drop_bit (56 - 8 * j) w)" "br_enc64le w ! j = ucast (drop_bit (8 * j) w)"
    using u [of 0 w] u [of 0 "drop_bit 32 w"]
    by (auto simp: br_enc64be_def br_enc64le_def br_enc32be_def br_enc32le_def u)
qed

lemma length_fits:
  assumes "n < 2 ^ 61"
  shows "drop_bit 61 (of_nat n :: u64) = 0"
proof -
  have "unat (of_nat n :: u64) = n" using assms by (simp add: unat_of_nat take_bit_nat_eq_self)
  then have "unat (drop_bit 61 (of_nat n :: u64)) = n div 2 ^ 61" by (subst unat_drop_bit_eq) (simp only: drop_bit_eq_div)
  then show ?thesis using assms by (simp only: div_less unat_eq_zero)
qed

text \<open>The last block of the padded data, as the code places it.\<close>

lemma padded_end:
  fixes kr L K ll :: nat
  assumes "ll < K" "kr < K" "N mod K = (kr + L) mod K"
  shows "(kr + L + (ll + 1) + K - 1) div K * K = kr + L + 1 + (2 * K - 1 - ll - N mod K) mod K + ll"
proof -
  define a b where "a = (kr + L) div K" and "b = (kr + L) mod K"
  have s: "kr + L = a * K + b" by (simp add: a_def b_def)
  have b: "b < K" using assms(1) by (simp add: b_def)
  have N: "N mod K = b" using assms(3) by (simp add: b_def)
  have e: "kr + L + (ll + 1) + K - 1 = a * K + (b + ll + K)" using s by simp
  show ?thesis
  proof (cases "b + ll < K")
    case True
    then have "(b + ll + K) div K = 1" using assms(1) by (intro div_nat_eqI) auto
    moreover have "(2 * K - 1 - ll - b) mod K = K - 1 - ll - b"
    proof -
      have "2 * K - 1 - ll - b = K + (K - 1 - ll - b)" using True by simp
      then show ?thesis using assms(1) by (simp only: mod_add_self1) simp
    qed
    ultimately show ?thesis unfolding e N using True s assms(1) by (simp add: div_mult_self3)
  next
    case False
    then have "(b + ll + K) div K = 2" using assms(1) b by (intro div_nat_eqI) auto
    moreover have "(2 * K - 1 - ll - b) mod K = 2 * K - 1 - ll - b" using False assms(1) by (intro mod_less) auto
    ultimately show ?thesis unfolding e N using False s assms(1) b by (simp add: div_mult_self3)
  qed
qed

section \<open>Correctness\<close>

lemma hmac_outer_take: "hmac_outer ctx (take (br_digest_size (hm_vtable ctx)) tmp) = hmac_outer ctx tmp"
  by (simp add: hmac_outer_def Let_def)

text \<open>What the code knows of a hash function from its table.\<close>

locale md_ct = md_fun +
  fixes k :: nat and big :: bool
  assumes power: "bs = 2 ^ k" "6 \<le> k" "k \<le> 7"
    and small: "br_digest_size dig \<le> 64"
    and big_flag: "desc dig AND BR_HASHDESC_MD_PADDING_BE \<noteq> 0 \<longleftrightarrow> big"
    and long_flag: "desc dig AND BR_HASHDESC_MD_PADDING_128 \<noteq> 0 \<longleftrightarrow> ll = 16"
    and ll: "ll = 8 \<or> ll = 16"
    and lenf_small: "drop_bit 61 n = 0 \<Longrightarrow>
      lenf n = replicate (ll - 8) 0 @ (if big then br_enc64be (push_bit 3 n) else br_enc64le (push_bit 3 n))"
begin

lemma bs_bounds: "64 \<le> bs" "bs \<le> 128" "8 \<le> bs" "ll + 1 \<le> 17" "8 \<le> ll"
  using power ll by (auto simp: numeral_eq_Suc dest!: le_antisym)

lemma bs_word: "of_nat bs = (2 ^ k :: u32)" "(of_nat bs :: u32) - 8 = of_nat (bs - 8)"
  using power(1) bs_bounds by (simp_all add: of_nat_diff)

lemma unat_small: "n < 2 ^ 32 \<Longrightarrow> unat (of_nat n :: u32) = n"
  by (simp add: unat_of_nat take_bit_nat_eq_self)

lemma and_block:
  fixes w :: "'b :: len word"
  assumes "7 < LENGTH('b)"
  shows "unat (w AND (of_nat bs - 1)) = unat w mod bs" "unat (w AND NOT (of_nat bs - 1)) = unat w div bs * bs"
  using and_low [of k w] power assms by (simp_all only: of_nat_power of_nat_numeral)

lemma position:
  assumes "kr + u < 2 ^ 32"
  shows "unat ((of_nat kr + of_nat u) AND (of_nat bs - 1 :: u32)) = (kr + u) mod bs"
  using and_low(1) [of k "of_nat (kr + u) :: u32"] unat_small [OF assms] power by (simp add: bs_word)

lemma len_byte_val:
  assumes "Z + kr + 1 = M * bs" "Z - 7 \<le> u" "u \<le> Z" "7 \<le> Z" "kr + Z < 2 ^ 32"
  shows "ucast (outct_len_byte big (of_nat bs) w (of_nat kr) (of_nat u)) = (if big then br_enc64be w else br_enc64le w) ! (u - (Z - 7))"
proof -
  define j where "j = u - (Z - 7)"
  have j: "j < 8" "u = Z - 7 + j" using assms(2-4) by (simp_all add: j_def)
  have "kr + u = M * bs - 8 + j" "8 \<le> M * bs" using assms(1,4) j by simp_all
  then have "kr + u = (M - 1) * bs + (bs - 8 + j)" using bs_bounds(3) by (cases M) simp_all
  then have "(kr + u) mod bs = (bs - 8 + j) mod bs" by (simp only: mod_mult_self3)
  then have m: "(kr + u) mod bs = bs - 8 + j" using j(1) bs_bounds(1) by simp
  define v :: u32 where "v = (of_nat kr + of_nat u) AND (of_nat bs - 1)"
  have uv: "unat v = bs - 8 + j" using position [of kr u] m assms(3,5) by (simp add: v_def)
  then have "of_nat (unat v) = (of_nat (bs - 8 + j) :: u32)" by (rule arg_cong)
  then have v: "v = of_nat (bs - 8) + of_nat j" by simp
  have "bs - 8 < 2 ^ 32" using bs_bounds(2) by simp
  then have "of_nat bs - 8 \<le> v" unfolding bs_word(2) word_le_nat_alt unat_small [OF \<open>bs - 8 < 2 ^ 32\<close>] uv by simp
  moreover have "unat (push_bit 3 (v - (of_nat bs - 8))) = 8 * j"
  proof -
    have "push_bit 3 (v - (of_nat bs - 8)) = of_nat (8 * j)" unfolding bs_word(2) v by (simp add: push_bit_eq_mult)
    then show ?thesis using j(1) unat_small [of "8 * j"] by simp
  qed
  moreover have "ucast (ucast x AND 0xFF :: u32) = (ucast x :: byte)" for x :: u64
  proof -
    have "(ucast (0xFF :: u32) :: byte) = - 1" by simp
    then have "ucast (ucast x AND 0xFF :: u32) = (ucast (ucast x :: u32) :: byte)" by (simp only: unsigned_and_eq and.right_neutral)
    also have "\<dots> = ucast x" by (intro bit_word_eqI) (simp add: bit_simps)
    finally show ?thesis .
  qed
  ultimately show ?thesis
    using enc64_nth [OF j(1), of w] by (simp add: outct_len_byte_def Let_def v_def [symmetric] j_def [symmetric])
qed

lemma outct_byte_val:
  assumes "kr < bs" "u \<le> Z" "Z + kr + 1 = M * bs" "Z < 2 ^ 31 + 1024" "L + 8 \<le> Z" "L \<le> X"
  shows "outct_byte big (of_nat bs) w (of_nat kr) (of_nat (Z - 7)) data L X (of_nat u)
    = (if u < L then data ! u else if u = L then 0x80 else if u < Z - 7 then 0
       else (if big then br_enc64be w else br_enc64le w) ! (u - (Z - 7)))"
proof -
  have b: "u < 2 ^ 32" "L < 2 ^ 32" "Z - 7 < 2 ^ 32" "kr + Z < 2 ^ 32" using assms bs_bounds by simp_all
  have c: "(of_nat u = (of_nat L :: u32)) = (u = L)" "(of_nat u \<le> (of_nat L :: u32)) = (u \<le> L)" "(of_nat u < (of_nat (Z - 7) :: u32)) = (u < Z - 7)"
    using unat_small b by (simp_all add: word_unat_eq_iff word_le_nat_alt word_less_nat_alt)
  show ?thesis
    using c unat_small b assms(5,6) len_byte_val [OF assms(3) _ assms(2) _ b(4), of w]
    by (auto simp: outct_byte_def Let_def LT_def LE_def not_less)
qed

text \<open>The bytes up to index \<open>Z\<close> are the data and the padding of the hash function.\<close>

lemma fed_bytes:
  assumes kr: "kr = n mod bs" and L: "L \<le> X" "X \<le> length data" "X < 2 ^ 31" and N: "drop_bit 61 (of_nat (n + L) :: u64) = 0"
  defines "Z \<equiv> (kr + L + (ll + 1) + bs - 1) div bs * bs - 1 - kr"
  defines "f \<equiv> \<lambda>u. outct_byte big (of_nat bs) (push_bit 3 (of_nat (n + L))) (of_nat kr) (of_nat (Z - 7)) data L X (of_nat u)"
  shows "map f [0..<Z + 1] = take L data @ md_padding bs ll (lenf (of_nat (n + L))) (n + L)"
    and "Z + kr + 1 = (kr + L + (ll + 1) + bs - 1) div bs * bs"
proof -
  let ?z = "(2 * bs - 1 - ll - (n + L) mod bs) mod bs" and ?len = "lenf (of_nat (n + L))"
  have krb: "kr < bs" using kr bs_bounds(1) by simp
  have "(n + L) mod bs = (kr + L) mod bs" by (simp add: kr mod_add_left_eq)
  from padded_end [OF sizes(2) krb this] have e: "(kr + L + (ll + 1) + bs - 1) div bs * bs = kr + L + 1 + ?z + ll" .
  have Z: "Z = L + ?z + ll" unfolding Z_def e by simp
  show M: "Z + kr + 1 = (kr + L + (ll + 1) + bs - 1) div bs * bs" unfolding e Z by simp
  have "?z < bs" using bs_bounds(1) by simp
  moreover have "L < 2147483648" using L by simp
  ultimately have "Z < 2147483648 + 1024" "L + 8 \<le> Z" unfolding Z using ll bs_bounds by linarith+
  then have Zb: "Z < 2 ^ 31 + 1024" "L + 8 \<le> Z" by simp_all
  have f: "f u = (if u < L then data ! u else if u = L then 0x80 else if u < Z - 7 then 0
      else (if big then br_enc64be (push_bit 3 (of_nat (n + L))) else br_enc64le (push_bit 3 (of_nat (n + L)))) ! (u - (Z - 7)))" if "u \<le> Z" for u
    unfolding f_def by (rule outct_byte_val [OF krb that M Zb L(1)])
  have len: "?len = replicate (ll - 8) 0 @ (if big then br_enc64be (push_bit 3 (of_nat (n + L))) else br_enc64le (push_bit 3 (of_nat (n + L))))"
    by (rule lenf_small [OF N])
  define E where "E = (if big then br_enc64be (push_bit 3 (of_nat (n + L) :: u64)) else br_enc64le (push_bit 3 (of_nat (n + L))))"
  have lE: "length E = 8" by (simp add: E_def)
  have fE: "f (Z - 7 + i) = E ! i" if "i < 8" for i
  proof -
    have g: "Z - 7 + i \<le> Z" "\<not> Z - 7 + i < L" "Z - 7 + i \<noteq> L" "\<not> Z - 7 + i < Z - 7" "Z - 7 + i - (Z - 7) = i"
      using that Zb by linarith+
    show ?thesis using f [OF g(1)] unfolding E_def [symmetric] by (simp only: g if_False)
  qed
  have "map f [0..<L] = take L data" using f Zb L by (intro nth_equalityI) simp_all
  moreover have "f L = 0x80" using f [of L] Zb by simp
  moreover have "map f [L + 1..<Z - 7] = replicate (Z - 7 - (L + 1)) 0"
  proof (intro nth_equalityI)
    fix i
    assume "i < length (map f [L + 1..<Z - 7])"
    then have "Suc (L + i) < Z - 7" by simp
    then show "map f [L + 1..<Z - 7] ! i = replicate (Z - 7 - (L + 1)) 0 ! i" using f [of "Suc (L + i)"] by simp
  qed simp
  moreover have "map f [Z - 7..<Z + 1] = E"
  proof (intro nth_equalityI)
    fix i
    assume "i < length (map f [Z - 7..<Z + 1])"
    then show "map f [Z - 7..<Z + 1] ! i = E ! i" using fE [of i] Zb by (simp only: length_map length_upt nth_map nth_upt)
  qed (use lE Zb in simp)
  moreover have "[0..<Z + 1] = [0..<L] @ L # [L + 1..<Z - 7] @ [Z - 7..<Z + 1]"
  proof -
    have "[0..<Z + 1] = [0..<L] @ [L..<Z + 1]" using upt_add_eq_append [of 0 L "Z + 1 - L"] Zb by simp
    also have "[L..<Z + 1] = L # [L + 1..<Z + 1]" using Zb by (simp add: upt_conv_Cons)
    also have "[L + 1..<Z + 1] = [L + 1..<Z - 7] @ [Z - 7..<Z + 1]" using upt_add_eq_append [of "L + 1" "Z - 7" 8] Zb by simp
    finally show ?thesis .
  qed
  ultimately have "map f [0..<Z + 1] = take L data @ 0x80 # replicate (Z - 7 - (L + 1)) 0 @ E" by simp
  moreover have "Z - 7 - (L + 1) = ?z + (ll - 8)" unfolding Z using bs_bounds(5) by simp
  ultimately show "map f [0..<Z + 1] = take L data @ md_padding bs ll ?len (n + L)"
    unfolding md_padding_def len E_def [symmetric] by (simp only: replicate_add append_assoc)
qed

text \<open>The loop: what has been fed after \<open>t\<close> turns, and the candidate kept at index \<open>Z\<close>.\<close>

lemma outct_loop:
  fixes g :: "u32 \<Rightarrow> byte"
  assumes m: "md_hashed bs rnd iv hc m" and kr: "kr = length m mod bs" and Z: "Z + kr + 1 = M * bs" "Z < 2 ^ 32"
    and t: "kr + t < 2 ^ 32"
  defines "hl \<equiv> br_digest_size dig"
  defines "r \<equiv> foldl (outct_turn dig (of_nat bs) hl (of_nat kr) (of_nat Z) g) (hc, replicate 64 0) (map of_nat [0..<t])"
  shows "md_hashed bs rnd iv (fst r) (m @ map (\<lambda>u. g (of_nat u)) [0..<t])
    \<and> snd r = (if Z < t then take hl (enc (fst (md_blocks bs rnd iv (m @ map (\<lambda>u. g (of_nat u)) [0..<Z + 1])))) @ replicate (64 - hl) 0
               else replicate 64 0)"
  using t unfolding r_def
proof (induction t)
  case (Suc t)
  let ?step = "outct_turn dig (of_nat bs) hl (of_nat kr) (of_nat Z) g" and ?fed = "\<lambda>t. m @ map (\<lambda>u. g (of_nat u)) [0..<t]"
  obtain h tmp where e: "foldl ?step (hc, replicate 64 0) (map of_nat [0..<t]) = (h, tmp)" by fastforce
  with Suc have IH: "md_hashed bs rnd iv h (?fed t)"
      "tmp = (if Z < t then take hl (enc (fst (md_blocks bs rnd iv (?fed (Z + 1))))) @ replicate (64 - hl) 0 else replicate 64 0)"
    by auto
  define h' where "h' = hc_update dig h [g (of_nat t)]"
  have h': "md_hashed bs rnd iv h' (?fed (t + 1))" using update_hashed [OF IH(1), of "[g (of_nat t)]"] by (simp add: h'_def)
  have st: "fst (hc_state dig h') = enc (fst (md_blocks bs rnd iv (?fed (t + 1))))"
    using h' by (simp add: state_ctx md_hashed_def holds_ctx_def)
  have le: "hl \<le> length (enc (fst (md_blocks bs rnd iv (?fed (t + 1)))))" unfolding hl_def by (intro length_enc length_blocks) simp
  have lt: "length tmp = 64" using IH(2) small length_enc [OF length_blocks [OF refl]] by (simp add: hl_def min_absorb2)
  have last: "(of_nat kr + of_nat t) AND (of_nat bs - 1) = (of_nat bs - 1 :: u32) \<longleftrightarrow> (kr + t) mod bs = bs - 1"
  proof -
    have "unat (of_nat bs - 1 :: u32) = bs - 1"
    proof -
      have "(of_nat bs - 1 :: u32) = of_nat (bs - 1)" using bs_bounds by (simp add: of_nat_diff)
      moreover have "bs - 1 < 2 ^ 32" using bs_bounds(2) by simp
      ultimately show ?thesis using unat_small by simp
    qed
    then show ?thesis using position [of kr t] Suc.prems by (simp add: word_unat_eq_iff)
  qed
  have eq: "(of_nat t = (of_nat Z :: u32)) = (t = Z)" using unat_small [of t] unat_small [of Z] Suc.prems Z(2) by (metis add_lessD1 add.commute lessI less_trans)
  have lastZ: "(kr + Z) mod bs = bs - 1"
  proof -
    have "0 < M" using Z(1) by (cases M) simp_all
    then have "kr + Z = (M - 1) * bs + (bs - 1)" using Z(1) bs_pos by (cases M) simp_all
    then have "(kr + Z) mod bs = (bs - 1) mod bs" by (simp only: mod_mult_self3)
    then show ?thesis using bs_pos by simp
  qed
  have "?step (h, tmp) (of_nat t) = (h', if (kr + t) mod bs = bs - 1 then ccopy_bytes (of_bool (t = Z)) tmp (fst (hc_state dig h')) hl else tmp)"
    using last eq by (simp add: outct_turn_def Let_def h'_def)
  then have "?step (h, tmp) (of_nat t) = (h', if t = Z then take hl (enc (fst (md_blocks bs rnd iv (?fed (Z + 1))))) @ replicate (64 - hl) 0 else tmp)"
  proof -
    have "hl \<le> length tmp" using lt small by (simp add: hl_def)
    note c = ccopy_bytes_select [OF le this, of "t = Z"]
    from IH(2) have "drop hl tmp = replicate (64 - hl) 0" if "t = Z" using that by simp
    then show ?thesis using \<open>?step (h, tmp) (of_nat t) = _\<close> lastZ unfolding st c by (cases "t = Z") simp_all
  qed
  then have "foldl ?step (hc, replicate 64 0) (map of_nat [0..<Suc t])
      = (h', if t = Z then take hl (enc (fst (md_blocks bs rnd iv (?fed (Z + 1))))) @ replicate (64 - hl) 0 else tmp)"
    using e by simp
  with h' IH(2) show ?case by (auto simp: less_Suc_eq)
qed (use m in simp)

lemma round_up:
  assumes "x < 2 ^ 31" "kr < bs"
  shows "(of_nat kr + of_nat x + of_nat (ll + 1) + of_nat bs - 1) AND NOT (of_nat bs - 1)
    = (of_nat ((kr + x + (ll + 1) + bs - 1) div bs * bs) :: u32)" (is "?l = of_nat ?n")
    and "(kr + x + (ll + 1) + bs - 1) div bs * bs < 2 ^ 32 - 1024"
proof -
  have s: "kr + x + (ll + 1) + bs - 1 < 2147483648 + 1024" using assms bs_bounds by simp
  have "?n \<le> kr + x + (ll + 1) + bs - 1" by (rule div_times_less_eq_dividend)
  with s have "?n < 2147483648 + 1024" by (rule le_less_trans [rotated])
  then show n: "?n < 2 ^ 32 - 1024" by simp
  have e: "(of_nat kr + of_nat x + of_nat (ll + 1) + of_nat bs - 1 :: u32) = of_nat (kr + x + (ll + 1) + bs - 1)"
    using bs_bounds by (simp add: of_nat_diff)
  have "unat ?l = unat (of_nat (kr + x + (ll + 1) + bs - 1) :: u32) div bs * bs" unfolding e by (rule and_block(2)) simp
  also have "\<dots> = ?n" using s by (subst unat_small) simp_all
  also have "\<dots> = unat (of_nat ?n :: u32)" using n by (subst unat_small) simp_all
  finally show "?l = of_nat ?n" by (simp add: word_unat_eq_iff)
qed

lemma outct_inner_hash:
  assumes m: "md_hashed bs rnd iv hc m" and L: "L \<le> X" "X \<le> length data" "X < 2 ^ 31" and N: "length m + L < 2 ^ 61"
  shows "take (br_digest_size dig) (outct_inner dig (push_bit 3 (of_nat (length m + L))) hc data L X (of_nat (length m)))
    = md_hash bs rnd iv enc (br_digest_size dig) ll lenf (m @ take L data)"
proof -
  define kr where "kr = length m mod bs"
  define up where "up = (\<lambda>x. (kr + x + (ll + 1) + bs - 1) div bs * bs)"
  define Z where "Z = up L - 1 - kr"
  have krb: "kr < bs" using bs_pos by (simp add: kr_def)
  have krw: "ucast (of_nat (length m) :: u64) AND (of_nat bs - 1) = (of_nat kr :: u32)"
  proof -
    have "bs dvd 2 ^ 32" unfolding power(1) using power(3) by (intro le_imp_power_dvd) simp
    have "unat (ucast (of_nat (length m) :: u64) AND (of_nat bs - 1) :: u32) = unat (ucast (of_nat (length m) :: u64) :: u32) mod bs"
      by (simp add: and_block(1))
    also have "\<dots> = unat (of_nat (length m) :: u64) mod bs"
      using mod_mod_cancel [OF \<open>bs dvd 2 ^ 32\<close>] by (simp add: unsigned_ucast_eq take_bit_eq_mod)
    also have "\<dots> = kr" unfolding kr_def by (rule count_mod)
    also have "\<dots> = unat (of_nat kr :: u32)" using krb bs_bounds(2) unat_small [of kr] by simp
    finally show ?thesis by (simp add: word_unat_eq_iff)
  qed
  have po: "(if desc dig AND BR_HASHDESC_MD_PADDING_128 \<noteq> 0 then 9 + 8 else 9) = (of_nat (ll + 1) :: u32)"
    using long_flag ll by auto
  have upw: "(of_nat kr + of_nat x + of_nat (ll + 1) + of_nat bs - 1) AND NOT (of_nat bs - 1) = (of_nat (up x) :: u32)"
      "up x < 2 ^ 32 - 1024" if "x \<le> X" for x
    using round_up [of x kr] krb that L(3) unfolding up_def by simp_all
  define g where "g = outct_byte big (of_nat bs) (push_bit 3 (of_nat (length m + L))) (of_nat kr) (of_nat (Z - 7)) data L X"
  note N' = length_fits [OF N]
  have fed: "map (\<lambda>u. g (of_nat u)) [0..<Z + 1] = take L data @ md_padding bs ll (lenf (of_nat (length m + L))) (length m + L)"
      "Z + kr + 1 = (kr + L + (ll + 1) + bs - 1) div bs * bs"
    using fed_bytes [OF kr_def L N'] unfolding g_def Z_def up_def by blast+
  have mono: "up L \<le> up X" unfolding up_def using L(1) by (intro mult_le_mono1 div_le_mono) simp
  have Zb: "Z < 2 ^ 32" "7 \<le> Z" "Z < up X - kr"
  proof -
    have "length (map (\<lambda>u. g (of_nat u)) [0..<Z + 1]) \<ge> 8" unfolding fed(1) using length_lenf bs_bounds(5) by (simp add: md_padding_def)
    then show "7 \<le> Z" by simp
    show "Z < 2 ^ 32" using fed(2) upw(2) [OF L(1)] by (simp add: up_def)
    have "Z + kr < up X" using fed(2) mono unfolding up_def by linarith
    then show "Z < up X - kr" by simp
  qed
  have kz: "(of_nat (up L) :: u32) - 1 - of_nat kr = of_nat Z" "(of_nat Z :: u32) - 7 = of_nat (Z - 7)"
  proof -
    have "up L = Z + kr + 1" unfolding up_def using fed(2) by (rule sym)
    then show "(of_nat (up L) :: u32) - 1 - of_nat kr = of_nat Z" by simp
  qed (use Zb(2) in \<open>simp add: of_nat_diff\<close>)
  have km: "unat ((of_nat (up X) :: u32) - of_nat kr) = up X - kr"
  proof -
    have "(of_nat (up X) :: u32) - of_nat kr = of_nat (up X - kr)" using Zb(3) by (simp add: of_nat_diff)
    then show ?thesis using unat_small [of "up X - kr"] upw(2) [of X] by simp
  qed
  have "outct_inner dig (push_bit 3 (of_nat (length m + L))) hc data L X (of_nat (length m))
      = snd (foldl (outct_turn dig (of_nat bs) (br_digest_size dig) (of_nat kr) (of_nat Z) g) (hc, replicate 64 0) (map of_nat [0..<up X - kr]))"
    unfolding outct_inner_def Let_def desc_block krw po upw(1) [OF L(1)] upw(1) [OF order_refl] kz km big_flag g_def ..
  moreover have "kr + (up X - kr) < 2 ^ 32" using Zb(3) upw(2) [of X] by simp
  from outct_loop [OF m kr_def fed(2) Zb(1) this, of g]
  have "snd (foldl (outct_turn dig (of_nat bs) (br_digest_size dig) (of_nat kr) (of_nat Z) g) (hc, replicate 64 0) (map of_nat [0..<up X - kr]))
      = take (br_digest_size dig) (enc (fst (md_blocks bs rnd iv (m @ map (\<lambda>u. g (of_nat u)) [0..<Z + 1])))) @ replicate (64 - br_digest_size dig) 0"
    using Zb(3) by argo
  moreover have "br_digest_size dig \<le> length (enc (fst (md_blocks bs rnd iv (m @ map (\<lambda>u. g (of_nat u)) [0..<Z + 1]))))"
    by (intro length_enc length_blocks) simp
  ultimately show ?thesis using L unfolding fed(1) by (simp add: md_hash_def min_absorb2)
qed

lemma outCT_hash:
  assumes m: "md_hashed bs rnd iv (hm_dig ctx) m" "hm_vtable ctx = dig"
    and len: "min_len \<le> len" "len \<le> max_len" "max_len \<le> length data" "max_len - min_len < 2 ^ 30" "length m + max_len < 2 ^ 61"
  shows "br_hmac_outCT ctx data len min_len max_len = hmac_outer ctx (md_hash bs rnd iv enc (br_digest_size dig) ll lenf (m @ take len data))"
proof -
  define n where "n = length m"
  define nc where "nc = (n + min_len) div bs * bs"
  define zlen where "zlen = nc - n"
  have cnt: "snd (hc_state dig (hm_dig ctx)) = of_nat n" using m(1) by (simp add: state_ctx md_hashed_def n_def)
  have nb: "n + min_len < 2 ^ 64" "nc \<le> n + min_len" "n + min_len < nc + bs"
  proof -
    show "n + min_len < 2 ^ 64" using len by (simp add: n_def)
    show "nc \<le> n + min_len" unfolding nc_def by (rule div_times_less_eq_dividend)
    show "n + min_len < nc + bs" using div_mult_mod_eq [of "n + min_len" bs] mod_less_divisor [OF bs_pos, of "n + min_len"]
      unfolding nc_def by linarith
  qed
  have u64: "unat (of_nat i :: u64) = i" if "i \<le> n + min_len" for i
    using that nb(1) by (simp add: unat_of_nat take_bit_nat_eq_self)
  have nw: "(of_nat n + of_nat min_len) AND NOT (ucast (of_nat bs - 1 :: u32)) = (of_nat nc :: u64)"
  proof -
    have "ucast (mask k :: u32) = (mask k :: u64)" using power(3) by (intro bit_word_eqI) (auto simp: bit_simps)
    then have "(ucast (of_nat bs - 1 :: u32) :: u64) = of_nat bs - 1"
      using power(1) by (simp add: mask_eq_decr_exp)
    then have "unat ((of_nat n + of_nat min_len) AND NOT (ucast (of_nat bs - 1 :: u32)) :: u64) = unat (of_nat (n + min_len) :: u64) div bs * bs"
      using and_block(2) [of "of_nat (n + min_len) :: u64"] by simp
    then show ?thesis using u64 [of nc] nb(2) u64 [of "n + min_len"] by (simp add: word_unat_eq_iff nc_def)
  qed
  have gt: "of_nat n < (of_nat nc :: u64) \<longleftrightarrow> n < nc" using u64 [of n] u64 [of nc] nb(2) by (simp add: word_less_nat_alt)
  have z: "zlen \<le> min_len" using nb(2) by (simp add: zlen_def)
  have zX: "max_len - zlen < 2 ^ 31"
  proof -
    have "min_len < zlen + bs" using nb(3) by (simp add: zlen_def)
    then show ?thesis using len(4) bs_bounds(2) by simp
  qed
  have h: "md_hashed bs rnd iv (hc_update dig (hm_dig ctx) (take zlen data)) (m @ take zlen data)" by (rule update_hashed [OF m(1)])
  have d: "m @ take len data = (m @ take zlen data) @ take (len - zlen) (drop zlen data)"
    using z len take_add [of zlen "len - zlen" data] by simp
  have l: "length (m @ take zlen data) = n + zlen" using z len by (simp add: n_def)
  show ?thesis
  proof (cases "n < nc")
    case True
    then have c: "unat ((of_nat nc :: u64) - of_nat n) = zlen" "(of_nat nc :: u64) = of_nat (n + zlen)"
      using u64 [of zlen] nb(2) by (simp_all add: zlen_def of_nat_diff)
    have "(of_nat n + of_nat len :: u64) = of_nat (n + zlen + (len - zlen))" using z len(1) by (simp add: of_nat_diff)
    then have "br_hmac_outCT ctx data len min_len max_len = hmac_outer ctx
        (outct_inner dig (push_bit 3 (of_nat (n + zlen + (len - zlen)))) (hc_update dig (hm_dig ctx) (take zlen data)) (drop zlen data)
          (len - zlen) (max_len - zlen) (of_nat (n + zlen)))"
      using True unfolding br_hmac_outCT_def Let_def m(2) desc_block cnt nw gt c(1) unfolding c(2) by (simp add: add.assoc)
    moreover have "take (br_digest_size dig) (outct_inner dig (push_bit 3 (of_nat (n + zlen + (len - zlen))))
        (hc_update dig (hm_dig ctx) (take zlen data)) (drop zlen data) (len - zlen) (max_len - zlen) (of_nat (n + zlen)))
      = md_hash bs rnd iv enc (br_digest_size dig) ll lenf (m @ take len data)"
      unfolding d l [symmetric] using z zX len by (intro outct_inner_hash [OF h]) (simp_all add: l n_def)
    ultimately show ?thesis by (metis hmac_outer_take m(2))
  next
    case False
    then have "zlen = 0" by (simp add: zlen_def)
    have "br_hmac_outCT ctx data len min_len max_len = hmac_outer ctx
        (outct_inner dig (push_bit 3 (of_nat (n + len))) (hm_dig ctx) data len max_len (of_nat n))"
      using False unfolding br_hmac_outCT_def Let_def m(2) desc_block cnt nw gt by simp
    moreover have "take (br_digest_size dig) (outct_inner dig (push_bit 3 (of_nat (n + len))) (hm_dig ctx) data len max_len (of_nat n))
      = md_hash bs rnd iv enc (br_digest_size dig) ll lenf (m @ take len data)"
      unfolding n_def using zX \<open>zlen = 0\<close> len by (intro outct_inner_hash [OF m(1)]) simp_all
    ultimately show ?thesis by (metis hmac_outer_take m(2))
  qed
qed

text \<open>The result is that of the plain functions on the bytes up to the length.\<close>

lemma outCT_hmac:
  assumes "hmac_for ctx key text" "min_len \<le> len" "len \<le> max_len" "max_len \<le> length data" "max_len - min_len < 2 ^ 30"
    "bs + length text + max_len < 2 ^ 61"
  shows "br_hmac_outCT ctx data len min_len max_len = br_hmac_out (br_hmac_update ctx (take len data))"
proof -
  have h: "md_hashed bs rnd iv (hm_dig ctx) (pad_key key 0x36 @ text)" "hm_vtable ctx = dig"
    using assms(1) by (simp_all add: hmac_for_def)
  from outCT_hash [OF h assms(2-5)] assms(6)
  have "br_hmac_outCT ctx data len min_len max_len
      = hmac_outer ctx (md_hash bs rnd iv enc (br_digest_size dig) ll lenf (pad_key key 0x36 @ text @ take len data))"
    by (simp add: length_pad_key desc_block)
  also have "\<dots> = br_hmac_out (br_hmac_update ctx (take len data))"
    using out_hashed [OF update_hashed [OF h(1)], of "take len data"] h(2)
    by (simp add: br_hmac_out_def br_hmac_update_def hmac_outer_def)
  finally show ?thesis .
qed

end

section \<open>The hash functions\<close>

lemma enc64be_zero: "br_enc64be 0 = replicate 8 0"
  by (simp add: br_enc64be_def br_enc32be_def numeral_eq_Suc)

lemma sha2_flags:
  "desc br_sha224_vtable AND BR_HASHDESC_MD_PADDING_BE \<noteq> 0" "desc br_sha256_vtable AND BR_HASHDESC_MD_PADDING_BE \<noteq> 0"
  "desc br_sha384_vtable AND BR_HASHDESC_MD_PADDING_BE \<noteq> 0" "desc br_sha512_vtable AND BR_HASHDESC_MD_PADDING_BE \<noteq> 0"
  "desc br_sha224_vtable AND BR_HASHDESC_MD_PADDING_128 = 0" "desc br_sha256_vtable AND BR_HASHDESC_MD_PADDING_128 = 0"
  "desc br_sha384_vtable AND BR_HASHDESC_MD_PADDING_128 \<noteq> 0" "desc br_sha512_vtable AND BR_HASHDESC_MD_PADDING_128 \<noteq> 0"
  by (simp_all add: sha2_vtables hashdesc_defs)

interpretation sha224_ct: md_ct br_sha224_vtable br_sha2small_round enc32s "dec32s 8" br_sha224_IV 64 8 len64 False 6 True
  by unfold_locales (simp_all add: sha2_flags sha2_sizes)

interpretation sha256_ct: md_ct br_sha256_vtable br_sha2small_round enc32s "dec32s 8" br_sha256_IV 64 8 len64 False 6 True
  by unfold_locales (simp_all add: sha2_flags sha2_sizes)

interpretation sha384_ct: md_ct br_sha384_vtable sha2big_round enc64s "dec64s 8" IV384 128 16 len128 False 7 True
  by unfold_locales (simp_all add: sha2_flags sha2_sizes enc64be_zero)

interpretation sha512_ct: md_ct br_sha512_vtable sha2big_round enc64s "dec64s 8" IV512 128 16 len128 False 7 True
  by unfold_locales (simp_all add: sha2_flags sha2_sizes enc64be_zero)

lemma old_flags:
  "desc br_sha1_vtable AND BR_HASHDESC_MD_PADDING_BE \<noteq> 0" "desc br_md5_vtable AND BR_HASHDESC_MD_PADDING_BE = 0"
  "desc br_sha1_vtable AND BR_HASHDESC_MD_PADDING_128 = 0" "desc br_md5_vtable AND BR_HASHDESC_MD_PADDING_128 = 0"
  by (simp_all add: br_sha1_vtable_def br_md5_vtable_def hashdesc_defs)

interpretation sha1_ct: md_ct br_sha1_vtable br_sha1_round enc32s "dec32s 5" br_sha1_IV 64 8 len64 True 6 True
  by unfold_locales (simp_all add: old_flags sha1_sizes)

interpretation md5_ct: md_ct br_md5_vtable br_md5_round enc32les "dec32les 4" br_md5_IV 64 8 len64le True 6 False
  by unfold_locales (simp_all add: old_flags md5_sizes)

section \<open>Properties\<close>

text \<open>
  C8. The constant-time HMAC computes HMAC. For MD5, SHA-1 and the four SHA-2 functions, any key, output length and
  data already given, and any \<open>len\<close> between \<open>min_len\<close> and \<open>max_len\<close> (which are less than $2^{30}$ apart, as the
  header file demands), \<open>br_hmac_outCT\<close> on a buffer of at least \<open>max_len\<close> bytes returns what
  \<open>br_hmac_update\<close> with the first \<open>len\<close> bytes of the buffer and \<open>br_hmac_out\<close> return: the padding that it does
  by hand is that of the hash function, the length field included, and the block it selects is the
  last one of that padding. The bytes beyond \<open>len\<close> have no influence.
\<close>

theorem hmac_ct_is_hmac:
  assumes "min_len \<le> len" "len \<le> max_len" "max_len \<le> length data" "max_len - min_len < 2 ^ 30"
    "128 + length (concat ds) + max_len < 2 ^ 61"
  shows "br_hmac_outCT (hmac_given br_md5_vtable key n ds) data len min_len max_len
      = br_hmac_out (br_hmac_update (hmac_given br_md5_vtable key n ds) (take len data))
    \<and> br_hmac_outCT (hmac_given br_sha1_vtable key n ds) data len min_len max_len
      = br_hmac_out (br_hmac_update (hmac_given br_sha1_vtable key n ds) (take len data))
    \<and> br_hmac_outCT (hmac_given br_sha224_vtable key n ds) data len min_len max_len
      = br_hmac_out (br_hmac_update (hmac_given br_sha224_vtable key n ds) (take len data))
    \<and> br_hmac_outCT (hmac_given br_sha256_vtable key n ds) data len min_len max_len
      = br_hmac_out (br_hmac_update (hmac_given br_sha256_vtable key n ds) (take len data))
    \<and> br_hmac_outCT (hmac_given br_sha384_vtable key n ds) data len min_len max_len
      = br_hmac_out (br_hmac_update (hmac_given br_sha384_vtable key n ds) (take len data))
    \<and> br_hmac_outCT (hmac_given br_sha512_vtable key n ds) data len min_len max_len
      = br_hmac_out (br_hmac_update (hmac_given br_sha512_vtable key n ds) (take len data))"
  using assms
  by (simp add: md5_ct.outCT_hmac [OF md5.given_for]
      sha1_ct.outCT_hmac [OF sha1.given_for]
      sha224_ct.outCT_hmac [OF sha224.given_for]
      sha256_ct.outCT_hmac [OF sha256.given_for]
      sha384_ct.outCT_hmac [OF sha384.given_for]
      sha512_ct.outCT_hmac [OF sha512.given_for])

text \<open>Eleven bytes of a record of twenty, after a header of thirteen bytes.\<close>

theorem hmac_ct_is_hmac_witness:
  "br_hmac_outCT (hmac_given br_sha256_vtable (replicate 32 7) 0 [replicate 13 1]) (replicate 20 2) 11 4 20
    = br_hmac_out (br_hmac_update (hmac_given br_sha256_vtable (replicate 32 7) 0 [replicate 13 1]) (replicate 11 2))"
  using hmac_ct_is_hmac [of 4 11 20 "replicate 20 2" "[replicate 13 1]" "replicate 32 7" 0] by simp

end
