(* ===== verification/Rec_Cbc.thy ===== *)
theory Rec_Cbc
  imports Hmac_Ct Record_Layer
begin

text \<open>
  CBC records with HMAC (\<^verbatim>\<open>ssl/ssl_rec_cbc.c\<close>): the padding and the MAC of an incoming record are checked
  without a data-dependent branch, because the length of the padding is secret until the MAC has
  been verified. The block cipher is the function pointer of the context; it is given an
  initialisation vector and the data and returns the new data and the new vector.

  The array \<open>tmp1\<close> has 64 bytes, of which the code clears the first \<open>mac_len\<close>; the others are zeros here.
\<close>

unbundle bit_operations_syntax

section \<open>Contexts\<close>

record cbc_class =
  cbc_block_size :: nat
  cbc_run :: "byte list \<Rightarrow> byte list \<Rightarrow> byte list \<Rightarrow> byte list \<times> byte list"

record 'h cbc_ctx =
  cbc_seq :: u64
  cbc_bc :: cbc_class
  cbc_key :: "byte list"
  cbc_mac :: "'h hmac_key"
  cbc_mac_len :: nat
  cbc_iv :: "byte list"
  cbc_explicit_IV :: bool

definition in_cbc_init :: "cbc_class \<Rightarrow> byte list \<Rightarrow> 'h hash_class \<Rightarrow> byte list \<Rightarrow> nat \<Rightarrow> byte list option \<Rightarrow> 'h cbc_ctx" where
  "in_cbc_init bc_impl bc_key dig_impl mac_key mac_out_len iv =
     \<lparr>cbc_seq = 0, cbc_bc = bc_impl, cbc_key = bc_key, cbc_mac = br_hmac_key_init dig_impl mac_key, cbc_mac_len = mac_out_len,
      cbc_iv = (case iv of None \<Rightarrow> replicate 16 0 | Some iv \<Rightarrow> take (cbc_block_size bc_impl) iv),
      cbc_explicit_IV = (iv = None)\<rparr>"

definition out_cbc_init :: "cbc_class \<Rightarrow> byte list \<Rightarrow> 'h hash_class \<Rightarrow> byte list \<Rightarrow> nat \<Rightarrow> byte list option \<Rightarrow> 'h cbc_ctx" where
  "out_cbc_init bc_impl bc_key dig_impl mac_key mac_out_len iv =
     \<lparr>cbc_seq = 0, cbc_bc = bc_impl, cbc_key = bc_key, cbc_mac = br_hmac_key_init dig_impl mac_key, cbc_mac_len = mac_out_len,
      cbc_iv = (case iv of None \<Rightarrow> replicate 16 0 | Some iv \<Rightarrow> take (cbc_block_size bc_impl) iv),
      cbc_explicit_IV = (iv = None)\<rparr>"

text \<open>\<open>x & ~(blen - 1)\<close> and \<open>x & (blen - 1)\<close> on \<open>size_t\<close>.\<close>

definition sz_blocks :: "nat \<Rightarrow> nat \<Rightarrow> nat" where
  "sz_blocks x blen = unat ((of_nat x :: u64) AND NOT (of_nat blen - 1))"

definition sz_low :: "nat \<Rightarrow> nat \<Rightarrow> nat" where
  "sz_low x blen = unat ((of_nat x :: u64) AND (of_nat blen - 1))"

section \<open>Incoming records\<close>

definition cbc_check_length :: "'h cbc_ctx \<Rightarrow> nat \<Rightarrow> bool" where
  "cbc_check_length cc rlen =
     (let blen = cbc_block_size (cbc_bc cc);
          min_len = sz_blocks (blen + cbc_mac_len cc) blen;
          max_len = sz_blocks (16384 + 256 + cbc_mac_len cc) blen;
          (min_len, max_len) = (if cbc_explicit_IV cc then (min_len + blen, max_len + blen) else (min_len, max_len))
      in min_len \<le> rlen \<and> rlen \<le> max_len)"

text \<open>\<open>if (++ v == len) v = 0\<close>.\<close>

definition next_index :: "nat \<Rightarrow> nat \<Rightarrow> nat" where
  "next_index len v = (if v + 1 = len then 0 else v + 1)"

definition cond_rotate :: "u32 \<Rightarrow> byte list \<Rightarrow> nat \<Rightarrow> nat \<Rightarrow> byte list" where
  "cond_rotate ctl buf len num =
     (let (tmp, v) = foldl (\<lambda>(tmp, v) u. (tmp @ [ucast (MUX ctl (ucast (buf ! v)) (ucast (buf ! u)))], next_index len v))
        ([], num) [0..<len]
      in tmp @ drop len buf)"

text \<open>The padding: whether it may be right, and the length without it.\<close>

definition cbc_pad :: "byte list \<Rightarrow> u32 \<Rightarrow> u32 \<Rightarrow> u32 \<times> u32" where
  "cbc_pad buf min_len max_len =
     (let pad_len = ucast (buf ! unat max_len);
          good = LE pad_len (max_len - min_len);
          len = MUX good (max_len - pad_len) min_len;
          good = foldl (\<lambda>good u. good AND (LT u len OR EQ (ucast (buf ! unat u)) pad_len)) good
            (map of_nat [unat min_len..<unat max_len])
      in (good, len))"

text \<open>The MAC, in an array that is filled cyclically, and the place of its first byte.\<close>

definition cbc_mac_turn :: "byte list \<Rightarrow> nat \<Rightarrow> u32 \<Rightarrow> u32 \<Rightarrow> byte list \<times> u32 \<times> nat \<Rightarrow> u32 \<Rightarrow> byte list \<times> u32 \<times> nat" where
  "cbc_mac_turn buf mac_len len_nomac len_withmac = (\<lambda>(tmp1, rot_count, v) u.
     (tmp1[v := tmp1 ! v OR ucast (MUX (GE u len_nomac AND LT u len_withmac) (ucast (buf ! unat u)) 0x00)],
      MUX (EQ u len_nomac) (of_nat v) rot_count,
      next_index mac_len v))"

definition cbc_mac_rotate :: "nat \<Rightarrow> byte list \<Rightarrow> u32 \<Rightarrow> nat list \<Rightarrow> u32 \<times> byte list" where
  "cbc_mac_rotate mac_len tmp1 rot_count is =
     foldl (\<lambda>(rot_count, tmp1) i.
        let rc = push_bit i (1 :: u32)
        in (rot_count AND NOT rc, cond_rotate (drop_bit i rot_count) tmp1 mac_len (unat rc))) (rot_count, tmp1) is"

definition cbc_mac_extract :: "byte list \<Rightarrow> nat \<Rightarrow> u32 \<Rightarrow> u32 \<Rightarrow> u32 \<Rightarrow> u32 \<Rightarrow> byte list" where
  "cbc_mac_extract buf mac_len min_len max_len len_nomac len_withmac =
     (let (tmp1, rot_count, v) = foldl (cbc_mac_turn buf mac_len len_nomac len_withmac) (replicate 64 0, 0, 0)
        (map of_nat [unat min_len..<unat max_len])
      in snd (cbc_mac_rotate mac_len tmp1 rot_count [5, 4, 3, 2, 1, 0]))"

text \<open>The header that the MAC covers.\<close>

definition cbc_header :: "u64 \<Rightarrow> byte \<Rightarrow> u32 \<Rightarrow> u32 \<Rightarrow> byte list" where
  "cbc_header seq record_type version len = br_enc64be seq @ [record_type] @ br_enc16be version @ br_enc16be len"

text \<open>The checks on a decrypted record: the flag \<open>good\<close> and the length of the plaintext.\<close>

definition cbc_verify :: "'h cbc_ctx \<Rightarrow> byte \<Rightarrow> u32 \<Rightarrow> byte list \<Rightarrow> u32 \<times> u32" where
  "cbc_verify cc record_type version buf =
     (let len = of_nat (length buf) :: u32;
          mac_len = cbc_mac_len cc;
          min_len = (if mac_len + 256 < length buf then len - 256 else of_nat mac_len);
          max_len = len - 1;
          (good, len_withmac) = cbc_pad buf min_len max_len;
          len_nomac = len_withmac - of_nat mac_len;
          min_len = min_len - of_nat mac_len;
          tmp1 = cbc_mac_extract buf mac_len min_len max_len len_nomac len_withmac;
          max_len = max_len - of_nat mac_len;
          hc = br_hmac_init (cbc_mac cc) mac_len;
          hc = br_hmac_update hc (cbc_header (cbc_seq cc) record_type version len_nomac);
          tmp2 = br_hmac_outCT hc buf (unat len_nomac) (unat min_len) (unat max_len);
          good = foldl (\<lambda>good u. good AND EQ0 (ucast (tmp1 ! u XOR tmp2 ! u))) good [0..<mac_len];
          good = good AND LE len_nomac 16384
      in (good, len_nomac))"

definition cbc_decrypt ::
    "'h cbc_ctx \<Rightarrow> byte \<Rightarrow> u32 \<Rightarrow> mem \<Rightarrow> addr \<Rightarrow> nat \<Rightarrow> 'h cbc_ctx \<times> mem \<times> (addr \<times> nat) option" where
  "cbc_decrypt cc record_type version m data data_len =
     (let blen = cbc_block_size (cbc_bc cc);
          (out, iv) = cbc_run (cbc_bc cc) (cbc_key cc) (cbc_iv cc) (load m data data_len);
          m = store m data out;
          (buf, len) = (if cbc_explicit_IV cc then (data + blen, sz_sub data_len blen) else (data, data_len));
          (good, len_nomac) = cbc_verify cc record_type version (load m buf len);
          cc = cc\<lparr>cbc_iv := iv, cbc_seq := cbc_seq cc + 1\<rparr>
      in if good = 0 then (cc, m, None) else (cc, m, Some (buf, unat len_nomac)))"

section \<open>Outgoing records\<close>

definition cbc_max_plaintext :: "'h cbc_ctx \<Rightarrow> nat \<Rightarrow> nat \<Rightarrow> nat \<times> nat" where
  "cbc_max_plaintext cc start end' =
     (let blen = cbc_block_size (cbc_bc cc);
          start = (if cbc_explicit_IV cc then sz_add start blen
                   else sz_add start (4 + sz_blocks (cbc_mac_len cc + blen + 1) blen));
          len = sz_blocks (sz_sub end' start) blen;
          len = sz_sub len (1 + cbc_mac_len cc);
          len = (if len > 16384 then 16384 else len)
      in (start, sz_add start len))"

text \<open>
  One record, from the computation of the MAC on. The result is the context, the memory, and the
  position and the length of the encrypted part; its header is in the five bytes before.
\<close>

definition cbc_record :: "'h cbc_ctx \<Rightarrow> byte \<Rightarrow> u32 \<Rightarrow> mem \<Rightarrow> addr \<Rightarrow> nat \<Rightarrow> 'h cbc_ctx \<times> mem \<times> addr \<times> nat" where
  "cbc_record cc record_type version m buf len =
     (let blen = cbc_block_size (cbc_bc cc);
          tmp = cbc_header (cbc_seq cc) record_type version (of_nat len);
          cc = cc\<lparr>cbc_seq := cbc_seq cc + 1\<rparr>;
          hc = br_hmac_init (cbc_mac cc) (cbc_mac_len cc);
          hc = br_hmac_update hc tmp;
          hc = br_hmac_update hc (load m buf len);
          m = store m (buf + len) (br_hmac_out hc);
          len = len + cbc_mac_len cc;
          plen = blen - sz_low len blen;
          m = store m (buf + len) (replicate plen (of_nat plen - 1));
          len = len + plen;
          (buf, len) = (if cbc_explicit_IV cc then (buf - blen, len + blen) else (buf, len));
          (out, iv) = cbc_run (cbc_bc cc) (cbc_key cc) (cbc_iv cc) (load m buf len);
          m = store m buf out;
          m = store m (buf - 5) [record_type];
          m = store m (buf - 4) (br_enc16be version);
          m = store m (buf - 2) (br_enc16be (of_nat len))
      in (cc\<lparr>cbc_iv := iv\<rparr>, m, buf, len))"

definition cbc_encrypt :: "'h cbc_ctx \<Rightarrow> byte \<Rightarrow> u32 \<Rightarrow> mem \<Rightarrow> addr \<Rightarrow> nat \<Rightarrow> 'h cbc_ctx \<times> mem \<times> addr \<times> nat" where
  "cbc_encrypt cc record_type version m data data_len =
     (let blen = cbc_block_size (cbc_bc cc)
      in if cbc_explicit_IV cc then
           let hc = br_hmac_init (cbc_mac cc) blen;
               hc = br_hmac_update hc (br_enc64be (cbc_seq cc));
               m = store m (data - blen) (br_hmac_out hc);
               rbuf = data - blen - 5;
               (cc, m, buf, len) = cbc_record cc record_type version m data data_len
           in (cc, m, rbuf, buf + len - rbuf)
         else if data_len > 1 \<and> record_type = 23 then
           let rbuf = data - 4 - sz_blocks (cbc_mac_len cc + blen + 1) blen;
               m = store m rbuf [m data];
               (cc, m, _, _) = cbc_record cc record_type version m rbuf 1;
               rbuf = rbuf - 5;
               (cc, m, buf, len) = cbc_record cc record_type version m (data + 1) (data_len - 1)
           in (cc, m, rbuf, buf + len - rbuf)
         else
           let rbuf = data - 5;
               (cc, m, buf, len) = cbc_record cc record_type version m data data_len
           in (cc, m, rbuf, buf + len - rbuf))"

section \<open>Loops over flags\<close>

lemma and_of_bool: "(of_bool a :: u32) AND of_bool b = of_bool (a \<and> b)" "(of_bool a :: u32) OR of_bool b = of_bool (a \<or> b)"
  by (cases a; cases b; simp)+

lemma foldl_and_flags:
  "(\<And>u. u \<in> set us \<Longrightarrow> f u = of_bool (p u)) \<Longrightarrow>
    foldl (\<lambda>good u. good AND f u) (of_bool b :: u32) us = of_bool (b \<and> (\<forall>u \<in> set us. p u))"
proof (induction us arbitrary: b)
  case (Cons u us)
  then have "foldl (\<lambda>good u. good AND f u) (of_bool b) (u # us) = foldl (\<lambda>good u. good AND f u) (of_bool (b \<and> p u) :: u32) us"
    by (simp add: and_of_bool)
  with Cons.IH [of "b \<and> p u"] Cons.prems show ?case by (auto simp: conj_assoc)
qed simp

section \<open>Rotation\<close>

lemma cond_rotate_map:
  "cond_rotate ctl buf len num
    = map (\<lambda>u. ucast (MUX ctl (ucast (buf ! ((next_index len ^^ u) num))) (ucast (buf ! u)))) [0..<len] @ drop len buf"
proof -
  have "foldl (\<lambda>(tmp, v) u. (tmp @ [ucast (MUX ctl (ucast (buf ! v)) (ucast (buf ! u)))], next_index len v)) ([] :: byte list, num) [0..<k]
    = (map (\<lambda>u. ucast (MUX ctl (ucast (buf ! ((next_index len ^^ u) num))) (ucast (buf ! u)))) [0..<k],
       (next_index len ^^ k) num)" for k
    by (induction k) simp_all
  then show ?thesis by (simp add: cond_rotate_def)
qed

lemma cyclic_count: "num < len \<Longrightarrow> (next_index len ^^ u) num = (num + u) mod (len :: nat)"
proof (induction u)
  case (Suc u)
  then show ?case using mod_Suc [of "num + u" len] by (auto simp: next_index_def)
qed simp

lemma cond_rotate_select:
  assumes "len \<le> length buf" "b \<Longrightarrow> num < len"
  shows "cond_rotate (of_bool b) buf len num = (if b then rotate num (take len buf) @ drop len buf else buf)"
proof (cases b)
  case True
  with assms have "num < len" by simp
  have "rotate num (take len buf) = map (\<lambda>u. buf ! ((num + u) mod len)) [0..<len]"
    using assms(1) \<open>num < len\<close> by (intro nth_equalityI) (simp_all add: nth_rotate min_absorb2)
  then show ?thesis using True \<open>num < len\<close> by (simp add: cond_rotate_map cyclic_count ucast_byte_u32)
next
  case False
  have "map (\<lambda>u. buf ! u) [0..<len] = take len buf" using assms(1) by (intro nth_equalityI) simp_all
  then show ?thesis using False by (simp add: cond_rotate_map ucast_byte_u32)
qed

lemma cbc_mac_rotate_rotate:
  assumes "r < mac_len" "mac_len \<le> length tmp" "r < 2 ^ k" "k \<le> 31"
  shows "snd (cbc_mac_rotate mac_len tmp (of_nat r) (rev [0..<k])) = rotate r (take mac_len tmp) @ drop mac_len tmp"
  using assms
proof (induction k arbitrary: r tmp)
  case 0
  then show ?case by (simp add: cbc_mac_rotate_def)
next
  case (Suc k)
  let ?b = "2 ^ k \<le> r"
  have u: "unat (of_nat r :: u32) = r"
  proof -
    have "r < 2 ^ 32" using Suc.prems(3,4) power_increasing [of "Suc k" 32 "2 :: nat"] by simp
    then show ?thesis by (simp add: unat_of_nat take_bit_nat_eq_self)
  qed
  have d: "drop_bit k (of_nat r :: u32) = of_bool ?b"
  proof -
    have "unat (drop_bit k (of_nat r :: u32)) = r div 2 ^ k" by (subst unat_drop_bit_eq) (simp only: u drop_bit_eq_div)
    also have "\<dots> = of_bool ?b" using Suc.prems(3) by (cases ?b) (auto intro!: div_nat_eqI)
    finally show ?thesis by (simp add: word_unat_eq_iff)
  qed
  have "k < LENGTH(32)" using Suc.prems(4) by simp
  have p: "unat (push_bit k 1 :: u32) = 2 ^ k"
    using \<open>k < LENGTH(32)\<close> by (subst unsigned_push_bit_eq) (simp add: push_bit_eq_mult take_bit_nat_eq_self)
  have m: "(of_nat r :: u32) AND NOT (push_bit k 1) = of_nat (r mod 2 ^ k)"
  proof (rule bit_word_eqI)
    fix n
    assume "n < LENGTH(32)"
    have "n \<le> k" if "bit r n"
    proof -
      have "take_bit (Suc k) r = r" using Suc.prems(3) by (rule take_bit_nat_eq_self)
      then have "bit (take_bit (Suc k) r) n" using that by simp
      then show ?thesis by (simp add: bit_take_bit_iff)
    qed
    then show "bit ((of_nat r :: u32) AND NOT (push_bit k 1)) n = bit (of_nat (r mod 2 ^ k) :: u32) n"
      using \<open>n < LENGTH(32)\<close> by (auto simp: bit_simps take_bit_eq_mod [symmetric])
  qed
  have "r mod 2 ^ k = (if ?b then r - 2 ^ k else r)" using Suc.prems(3) by (simp add: mod_if)
  define tmp' where "tmp' = (if ?b then rotate (2 ^ k) (take mac_len tmp) @ drop mac_len tmp else tmp)"
  have "cbc_mac_rotate mac_len tmp (of_nat r) (rev [0..<Suc k]) = cbc_mac_rotate mac_len tmp' (of_nat (r mod 2 ^ k)) (rev [0..<k])"
  proof -
    have c: "cond_rotate (of_bool ?b) tmp mac_len (2 ^ k) = tmp'"
      unfolding tmp'_def using Suc.prems(1,2) by (intro cond_rotate_select) auto
    have r: "rev [0..<Suc k] = k # rev [0..<k]" by simp
    show ?thesis unfolding cbc_mac_rotate_def r foldl_Cons prod.case Let_def d m p c ..
  qed
  moreover have "snd (cbc_mac_rotate mac_len tmp' (of_nat (r mod 2 ^ k)) (rev [0..<k])) = rotate (r mod 2 ^ k) (take mac_len tmp') @ drop mac_len tmp'"
    using Suc.prems by (intro Suc.IH) (auto simp: tmp'_def \<open>r mod 2 ^ k = _\<close>)
  ultimately show ?case using Suc.prems(2) unfolding \<open>r mod 2 ^ k = _\<close> by (simp add: tmp'_def rotate_rotate)
qed

lemma cbc_mac_rotate_six:
  assumes "r < mac_len" "mac_len \<le> 64" "length tmp = 64"
  shows "take mac_len (snd (cbc_mac_rotate mac_len tmp (of_nat r) [5, 4, 3, 2, 1, 0])) = rotate r (take mac_len tmp)"
proof -
  have "[5, 4, 3, 2, 1, 0] = rev [0..<6 :: nat]" by code_simp
  then show ?thesis using cbc_mac_rotate_rotate [of r mac_len tmp 6] assms by simp
qed

section \<open>The MAC\<close>

text \<open>The cyclic array after \<open>t\<close> turns from \<open>base\<close>; the MAC starts at \<open>base + b\<close>.\<close>

lemma of_nat_u32:
  assumes "x < 2 ^ 32" "y < 2 ^ 32"
  shows "unat (of_nat x :: u32) = x" "(of_nat x = (of_nat y :: u32)) = (x = y)" "((of_nat x :: u32) \<le> of_nat y) = (x \<le> y)"
    "((of_nat x :: u32) < of_nat y) = (x < y)"
proof -
  have u: "unat (of_nat x :: u32) = x" "unat (of_nat y :: u32) = y" using assms by (simp_all add: unat_of_nat take_bit_nat_eq_self)
  show "unat (of_nat x :: u32) = x" by (rule u(1))
  show "(of_nat x = (of_nat y :: u32)) = (x = y)" "((of_nat x :: u32) \<le> of_nat y) = (x \<le> y)" "((of_nat x :: u32) < of_nat y) = (x < y)"
    unfolding word_unat_eq_iff word_le_nat_alt word_less_nat_alt u by (rule refl)+
qed

lemma window_mod:
  assumes "i < M" "j < (M :: nat)" "(b + i) mod M = (b + j) mod M"
  shows "i = j"
proof -
  have "x = y" if "y \<le> x" "x < M" "(b + x) mod M = (b + y) mod M" for x y
  proof -
    have "M dvd x - y" using that mod_eq_dvd_iff_nat [of "b + y" "b + x" M] by simp
    moreover have "x - y < M" using that by simp
    ultimately have "x - y = 0" using nat_dvd_not_less [of "x - y" M] by blast
    then show ?thesis using that(1) by simp
  qed
  from this [of i j] this [of j i] assms show ?thesis by (metis nat_le_linear)
qed

lemma cbc_mac_turns:
  fixes buf :: "byte list"
  assumes M: "0 < M" "M \<le> 64" and n: "base + b + M < 2 ^ 32" "base + t < 2 ^ 32"
  defines "r \<equiv> foldl (cbc_mac_turn buf M (of_nat (base + b)) (of_nat (base + b + M))) (replicate 64 0, 0, 0) (map of_nat [base..<base + t])"
  shows "length (fst r) = 64 \<and> snd (snd r) = t mod M \<and> fst (snd r) = (if b < t then of_nat (b mod M) else 0)
    \<and> (\<forall>i < M. fst r ! ((b + i) mod M) = (if b + i < t then buf ! (base + b + i) else 0))"
  using n(2) unfolding r_def
proof (induction t)
  case 0
  have "(b + i) mod M < 64" for i using M mod_less_divisor [of M "b + i"] by linarith
  then show ?case by simp
next
  case (Suc t)
  let ?turn = "cbc_mac_turn buf M (of_nat (base + b)) (of_nat (base + b + M))"
  obtain tmp rot v where e: "foldl ?turn (replicate 64 0, 0, 0) (map of_nat [base..<base + t]) = (tmp, rot, v)" by (metis prod_cases3)
  with Suc have IH: "length tmp = 64" "v = t mod M" "rot = (if b < t then of_nat (b mod M) else 0)"
      "\<And>i. i < M \<Longrightarrow> tmp ! ((b + i) mod M) = (if b + i < t then buf ! (base + b + i) else 0)"
    by auto
  have w: "(of_nat (base + t) = (of_nat (base + b) :: u32)) = (t = b)" "((of_nat (base + b) :: u32) \<le> of_nat (base + t)) = (b \<le> t)"
      "((of_nat (base + t) :: u32) < of_nat (base + b + M)) = (t < b + M)" "unat (of_nat (base + t) :: u32) = base + t"
    using of_nat_u32 [of "base + t" "base + b"] of_nat_u32 [of "base + b" "base + t"] of_nat_u32 [of "base + t" "base + b + M"] n(1) Suc.prems
    by simp_all
  have s: "foldl ?turn (replicate 64 0, 0, 0) (map of_nat [base..<base + Suc t])
      = (tmp[t mod M := tmp ! (t mod M) OR (if b \<le> t \<and> t < b + M then buf ! (base + t) else 0)],
         if t = b then of_nat (t mod M) else rot, Suc t mod M)"
  proof -
    have "next_index M (t mod M) = Suc t mod M" by (simp add: next_index_def mod_Suc)
    moreover have "?turn (tmp, rot, v) (of_nat (base + t)) = (tmp[t mod M := tmp ! (t mod M) OR (if b \<le> t \<and> t < b + M then buf ! (base + t) else 0)],
         if t = b then of_nat (t mod M) else rot, next_index M (t mod M))"
      unfolding cbc_mac_turn_def prod.case IH(2) EQ_iff GE_def LT_def GT_iff CT_NOT_of_bool not_less w and_of_bool MUX_of_bool
      by (simp add: ucast_byte_u32)
    ultimately show ?thesis using e unfolding add_Suc_right upt_Suc_append [OF le_add1] map_append foldl_append by simp
  qed
  have "tmp[t mod M := tmp ! (t mod M) OR (if b \<le> t \<and> t < b + M then buf ! (base + t) else 0)] ! ((b + i) mod M)
      = (if b + i < Suc t then buf ! (base + b + i) else 0)" if i: "i < M" for i
  proof (cases "b \<le> t \<and> t < b + M")
    case True
    define j where "j = t - b"
    have j: "t = b + j" "j < M" using True by (auto simp: j_def)
    have "(b + j) mod M < 64" using M mod_less_divisor [of M "b + j"] by linarith
    then show ?thesis using IH(1) IH(4) [OF i] IH(4) [OF j(2)] i j window_mod [OF i j(2), of b]
      by (cases "i = j") (auto simp: add.assoc nth_list_update)
  next
    case False
    then have "b + i \<noteq> t" using i by auto
    then show ?thesis using False IH(4) [OF i] by (auto simp: less_Suc_eq)
  qed
  then show ?case unfolding s using IH(1,3) by auto
qed

lemma cbc_mac_extract_mac:
  assumes M: "0 < M" "M \<le> 64" and n: "base \<le> a" "a + M \<le> mx" "mx \<le> length buf" "mx < 2 ^ 32"
  shows "take M (cbc_mac_extract buf M (of_nat base) (of_nat mx) (of_nat a) (of_nat (a + M))) = take M (drop a buf)"
proof -
  define b where "b = a - base"
  have b: "a = base + b" "mx = base + (mx - base)" "b + M \<le> mx - base" using n by (simp_all add: b_def)
  have u: "unat (of_nat base :: u32) = base" "unat (of_nat mx :: u32) = mx" using n of_nat_u32(1) [of base mx] of_nat_u32(1) [of mx mx] by simp_all
  define r where "r = foldl (cbc_mac_turn buf M (of_nat a) (of_nat (a + M))) (replicate 64 0, 0, 0) (map of_nat [base..<mx])"
  have "length (fst r) = 64 \<and> snd (snd r) = (mx - base) mod M \<and> fst (snd r) = (if b < mx - base then of_nat (b mod M) else 0)
    \<and> (\<forall>i < M. fst r ! ((b + i) mod M) = (if b + i < mx - base then buf ! (base + b + i) else 0))"
    using cbc_mac_turns [OF M, of base b "mx - base" buf] n b unfolding r_def by simp
  then have r: "length (fst r) = 64" "fst (snd r) = of_nat (b mod M)" "\<And>i. i < M \<Longrightarrow> fst r ! ((b + i) mod M) = buf ! (a + i)"
    using b(3) M(1) by (auto simp: b(1))
  have "cbc_mac_extract buf M (of_nat base) (of_nat mx) (of_nat a) (of_nat (a + M)) = snd (cbc_mac_rotate M (fst r) (of_nat (b mod M)) [5, 4, 3, 2, 1, 0])"
    unfolding cbc_mac_extract_def u r_def [symmetric] Let_def using r(2) by (simp add: case_prod_unfold)
  moreover have "rotate (b mod M) (take M (fst r)) = take M (drop a buf)"
  proof (rule nth_equalityI)
    show "length (rotate (b mod M) (take M (fst r))) = length (take M (drop a buf))" using r(1) M n by simp
    fix i
    assume "i < length (rotate (b mod M) (take M (fst r)))"
    then have i: "i < M" using r(1) M by simp
    have "rotate (b mod M) (take M (fst r)) ! i = fst r ! ((b + i) mod M)" using i r(1) M by (simp add: nth_rotate min_absorb2 mod_add_left_eq)
    then show "rotate (b mod M) (take M (fst r)) ! i = take M (drop a buf) ! i" using r(3) [OF i] i n by simp
  qed
  ultimately show ?thesis using cbc_mac_rotate_six [of "b mod M" M "fst r"] r(1) M by simp
qed

section \<open>The padding\<close>

lemma cbc_pad_spec:
  assumes "mn \<le> mx" "mx < length buf" "mx < 2 ^ 32"
  defines "p \<equiv> unat (buf ! mx)"
  shows "cbc_pad buf (of_nat mn) (of_nat mx)
    = (of_bool (p + mn \<le> mx \<and> (\<forall>u. mx - p \<le> u \<and> u < mx \<longrightarrow> buf ! u = buf ! mx)), of_nat (if p + mn \<le> mx then mx - p else mn))"
proof -
  have u: "unat (of_nat mn :: u32) = mn" "unat (of_nat mx :: u32) = mx" using assms(1,3) of_nat_u32(1) [of mn mx] of_nat_u32(1) [of mx mx] by simp_all
  have pw: "ucast (buf ! mx) = (of_nat p :: u32)" by (simp add: p_def)
  have pb: "p < 256" using unsigned_less [of "buf ! mx", where ?'a = nat] by (simp add: p_def)
  have le: "(of_nat p \<le> (of_nat mx - of_nat mn :: u32)) = (p + mn \<le> mx)"
  proof -
    have "(of_nat mx - of_nat mn :: u32) = of_nat (mx - mn)" using assms(1) by (simp add: of_nat_diff)
    then show ?thesis using of_nat_u32(3) [of p "mx - mn"] pb assms(1,3) by (simp add: le_diff_conv2)
  qed
  define len where "len = (if p + mn \<le> mx then mx - p else mn)"
  have "len \<le> mx" using assms(1) by (simp add: len_def)
  then have lb: "len < 2 ^ 32" using assms(3) by (rule le_less_trans)
  have l: "MUX (LE (of_nat p) (of_nat mx - of_nat mn)) (of_nat mx - of_nat p) (of_nat mn) = (of_nat len :: u32)"
    using le by (auto simp: LE_def not_less len_def of_nat_diff)
  have "foldl (\<lambda>good u. good AND (LT u (of_nat len) OR EQ (ucast (buf ! unat u)) (of_nat p))) (of_bool (p + mn \<le> mx)) (map of_nat [mn..<mx])
      = foldl (\<lambda>good u. good AND (LT (of_nat u) (of_nat len) OR EQ (ucast (buf ! unat (of_nat u :: u32))) (of_nat p))) (of_bool (p + mn \<le> mx)) [mn..<mx]"
    by (simp add: foldl_map)
  also have "\<dots> = of_bool (p + mn \<le> mx \<and> (\<forall>u \<in> set [mn..<mx]. u < len \<or> buf ! u = buf ! mx))"
  proof (rule foldl_and_flags)
    fix u
    assume "u \<in> set [mn..<mx]"
    then have u: "u < mx" by simp
    have "(ucast (buf ! u) = (of_nat p :: u32)) = (buf ! u = buf ! mx)" unfolding pw [symmetric] by (metis ucast_byte_u32)
    then show "LT (of_nat u) (of_nat len) OR EQ (ucast (buf ! unat (of_nat u :: u32))) (of_nat p) = of_bool (u < len \<or> buf ! u = buf ! mx)"
      using of_nat_u32(1,4) [of u len] u assms(3) lb by (simp add: LT_def and_of_bool)
  qed
  also have "\<dots> = of_bool (p + mn \<le> mx \<and> (\<forall>u. mx - p \<le> u \<and> u < mx \<longrightarrow> buf ! u = buf ! mx))"
    by (auto simp: len_def not_less)
  finally show ?thesis
    unfolding cbc_pad_def Let_def u pw l using le by (simp add: LE_def not_less len_def)
qed

section \<open>The checks of a record\<close>

text \<open>
  RFC 5246, section 6.2.3.2, on a decrypted fragment: the last byte is the number of padding bytes
  before it, all of which have its value; before the padding stand the content and its MAC.
\<close>

definition rfc5246_cbc_open :: "(byte list \<Rightarrow> byte list) \<Rightarrow> nat \<Rightarrow> (nat \<Rightarrow> byte list) \<Rightarrow> byte list \<Rightarrow> byte list option" where
  "rfc5246_cbc_open mac M header frag =
     (let n = length frag; p = unat (last frag); k = n - (p + 1) - M; content = take k frag
      in if p + 1 + M \<le> n \<and> drop (n - (p + 1)) frag = replicate (p + 1) (last frag)
            \<and> take M (drop k frag) = mac (header k @ content) \<and> k \<le> 16384
         then Some content else None)"

lemma padding_tail:
  assumes "p < length buf" "n = length buf"
  shows "drop (n - (p + 1)) buf = replicate (p + 1) (last buf) \<longleftrightarrow> (\<forall>u. n - 1 - p \<le> u \<and> u < n - 1 \<longrightarrow> buf ! u = buf ! (n - 1))"
proof -
  have l: "last buf = buf ! (n - 1)" using assms by (cases buf rule: rev_cases) (auto simp: nth_append)
  have "drop (n - (p + 1)) buf = replicate (p + 1) (last buf) \<longleftrightarrow> (\<forall>i < p + 1. buf ! (n - (p + 1) + i) = buf ! (n - 1))"
    using assms by (simp add: list_eq_iff_nth_eq l del: replicate_Suc)
  also have "\<dots> \<longleftrightarrow> (\<forall>u. n - 1 - p \<le> u \<and> u < n - 1 \<longrightarrow> buf ! u = buf ! (n - 1))"
  proof safe
    fix u
    assume a: "\<forall>i < p + 1. buf ! (n - (p + 1) + i) = buf ! (n - 1)" "n - 1 - p \<le> u" "u < n - 1"
    then have "n - (p + 1) + (u - (n - (p + 1))) = u" "u - (n - (p + 1)) < p + 1" using assms by simp_all
    with a(1) show "buf ! u = buf ! (n - 1)" by metis
  next
    fix i
    assume a: "\<forall>u. n - 1 - p \<le> u \<and> u < n - 1 \<longrightarrow> buf ! u = buf ! (n - 1)" "i < p + 1"
    show "buf ! (n - (p + 1) + i) = buf ! (n - 1)"
    proof (cases "i = p")
      case False
      then have "n - 1 - p \<le> n - (p + 1) + i" "n - (p + 1) + i < n - 1" using a(2) assms by linarith+
      with a(1) show ?thesis by blast
    qed (use assms in simp)
  qed
  finally show ?thesis .
qed

lemma EQ0_iff: "EQ0 x = of_bool (x = 0)"
proof -
  have "bit (NOT (x OR - x)) 31 = (\<not> bit (x OR - x) 31)" by (simp only: bit_not_iff possible_bit_word) simp
  then show ?thesis unfolding EQ0_def high_bit neg_or_high by simp
qed

lemma foldl_mac_flags:
  assumes "length t2 = M" "M \<le> length t1"
  shows "foldl (\<lambda>good u. good AND EQ0 (ucast (t1 ! u XOR t2 ! u :: byte))) (of_bool b :: u32) [0..<M] = of_bool (b \<and> take M t1 = t2)"
proof -
  have "(ucast x = (0 :: u32)) = (x = 0)" for x :: byte by (metis ucast_byte_u32 ucast_0)
  then have "foldl (\<lambda>good u. good AND EQ0 (ucast (t1 ! u XOR t2 ! u))) (of_bool b :: u32) [0..<M] = of_bool (b \<and> (\<forall>u \<in> set [0..<M]. t1 ! u = t2 ! u))"
    by (intro foldl_and_flags) (simp only: EQ0_iff xor_byte_0)
  moreover have "take M t1 = t2 \<longleftrightarrow> (\<forall>u \<in> set [0..<M]. t1 ! u = t2 ! u)" using assms by (simp add: list_eq_iff_nth_eq Ball_def)
  ultimately show ?thesis by simp
qed

context md_ct
begin

text \<open>The MAC of a record with the key of a context.\<close>

definition cbc_mac_fun :: "byte list \<Rightarrow> nat \<Rightarrow> byte list \<Rightarrow> byte list" where
  "cbc_mac_fun key M d = take M (rfc2104 (md_hash bs rnd iv enc (br_digest_size dig) ll lenf) bs key d)"

lemma cbc_verify_open:
  assumes key: "key_for (cbc_mac cc) key" and M: "cbc_mac_len cc = M" "0 < M" "M \<le> br_digest_size dig"
    and n: "M + 1 \<le> length buf" "length buf < 2 ^ 20"
  shows "\<exists>l. cbc_verify cc rt ver buf
      = (of_bool (rfc5246_cbc_open (cbc_mac_fun key M) M (\<lambda>k. cbc_header (cbc_seq cc) rt ver (of_nat k)) buf \<noteq> None), of_nat l)
    \<and> l < 2 ^ 20 \<and> (\<forall>c. rfc5246_cbc_open (cbc_mac_fun key M) M (\<lambda>k. cbc_header (cbc_seq cc) rt ver (of_nat k)) buf = Some c \<longrightarrow> c = take l buf \<and> l = length c)"
proof -
  define n where "n = length buf"
  define p where "p = unat (last buf)"
  define mn where "mn = (if M + 256 < n then n - 256 else M)"
  have lb: "last buf = buf ! (n - 1)" using n(1) by (cases buf rule: rev_cases) (auto simp: n_def nth_append)
  have pb: "p < 256" using unsigned_less [of "last buf", where ?'a = nat] by (simp add: p_def)
  have mn: "M \<le> mn" "mn \<le> n - 1" "n - 1 - mn < 256" using n(1) by (auto simp: mn_def n_def)
  have fit: "(p + mn \<le> n - 1) = (p + 1 + M \<le> n)" using pb n(1) by (auto simp: mn_def n_def)
  define wl where "wl = (if p + mn \<le> n - 1 then n - 1 - p else mn)"
  have wl: "mn \<le> wl" "wl \<le> n - 1" using mn by (auto simp: wl_def)
  define pad_ok where "pad_ok \<longleftrightarrow> p + mn \<le> n - 1 \<and> (\<forall>u. n - 1 - p \<le> u \<and> u < n - 1 \<longrightarrow> buf ! u = buf ! (n - 1))"
  have n20: "n < 2 ^ 20" using n(2) by (simp add: n_def)
  have w: "(of_nat n :: u32) - 256 = of_nat (n - 256)" if "M + 256 < n" using that by (simp add: of_nat_diff)
  have w1: "(of_nat n :: u32) - 1 = of_nat (n - 1)" using n(1) by (simp add: of_nat_diff n_def)
  have mnw: "(if M + 256 < n then of_nat n - 256 else of_nat M) = (of_nat mn :: u32)" using w by (simp add: mn_def)
  have pad: "cbc_pad buf (of_nat mn) (of_nat (n - 1)) = (of_bool pad_ok, of_nat wl)"
    using cbc_pad_spec [of mn "n - 1" buf] mn(2) n(1) n20 unfolding pad_ok_def wl_def p_def lb [symmetric] by (simp add: n_def)
  have dw: "(of_nat wl :: u32) - of_nat M = of_nat (wl - M)" "(of_nat mn :: u32) - of_nat M = of_nat (mn - M)"
      "(of_nat (n - 1) :: u32) - of_nat M = of_nat (n - 1 - M)"
    using mn wl n(1) by (simp_all add: of_nat_diff n_def)
  have u: "unat (of_nat (wl - M) :: u32) = wl - M" "unat (of_nat (mn - M) :: u32) = mn - M" "unat (of_nat (n - 1 - M) :: u32) = n - 1 - M"
    using of_nat_u32(1) [of "wl - M" 0] of_nat_u32(1) [of "mn - M" 0] of_nat_u32(1) [of "n - 1 - M" 0] wl mn n20 by simp_all
  define hdr where "hdr = cbc_header (cbc_seq cc) rt ver (of_nat (wl - M))"
  define tmp1 where "tmp1 = cbc_mac_extract buf M (of_nat (mn - M)) (of_nat (n - 1)) (of_nat (wl - M)) (of_nat wl)"
  have t1: "take M tmp1 = take M (drop (wl - M) buf)"
    using cbc_mac_extract_mac [of M "mn - M" "wl - M" "n - 1" buf] M small mn wl n(1) n20 unfolding tmp1_def by (simp add: n_def)
  define hc where "hc = br_hmac_update (br_hmac_init (cbc_mac cc) M) hdr"
  define tmp2 where "tmp2 = br_hmac_outCT hc buf (wl - M) (mn - M) (n - 1 - M)"
  have hf: "hmac_for hc key ([] @ hdr)" unfolding hc_def by (intro hmac_update hmac_init key)
  have t2: "tmp2 = cbc_mac_fun key M (hdr @ take (wl - M) buf)"
  proof -
    have "length hdr = 13" by (simp add: hdr_def cbc_header_def)
    then have "tmp2 = br_hmac_out (br_hmac_update hc (take (wl - M) buf))"
      unfolding tmp2_def using hf mn wl n20 bs_bounds(2) n(1) by (intro outCT_hmac [of hc key hdr]) (simp_all add: n_def)
    moreover have "hm_out_len (br_hmac_init (cbc_mac cc) M) = M" using key M by (auto simp: br_hmac_init_def key_for_def Let_def)
    ultimately show ?thesis using hmac_out [OF hmac_update [OF hf]] by (simp add: hc_def cbc_mac_fun_def desc_block)
  qed
  define mac_ok where "mac_ok \<longleftrightarrow> take M (drop (wl - M) buf) = cbc_mac_fun key M (hdr @ take (wl - M) buf)"
  have "foldl (\<lambda>good u. good AND EQ0 (ucast (tmp1 ! u XOR tmp2 ! u))) (of_bool pad_ok) [0..<M] = (of_bool (pad_ok \<and> mac_ok) :: u32)"
  proof -
    have "length (take M tmp1) = M" using n(1) wl mn by (simp add: t1 n_def)
    then have "M \<le> length tmp1" by simp
    moreover have "length tmp2 = M" using M(3) by (simp add: t2 cbc_mac_fun_def length_rfc2104 [unfolded desc_block])
    ultimately show ?thesis using foldl_mac_flags [of tmp2 M tmp1 pad_ok] t1 t2 by (simp add: mac_ok_def)
  qed
  moreover have "LE (of_nat (wl - M)) 16384 = of_bool (wl - M \<le> 16384)"
    using of_nat_u32(3) [of "wl - M" 16384] wl n20 by (simp add: LE_def not_less)
  ultimately have v: "cbc_verify cc rt ver buf = (of_bool (pad_ok \<and> mac_ok \<and> wl - M \<le> 16384), of_nat (wl - M))"
    unfolding cbc_verify_def Let_def M(1) n_def [symmetric] mnw w1 pad prod.case dw u tmp1_def [symmetric] hdr_def [symmetric]
      hc_def [symmetric] tmp2_def [symmetric] by (simp add: and_of_bool)
  have "rfc5246_cbc_open (cbc_mac_fun key M) M (\<lambda>k. cbc_header (cbc_seq cc) rt ver (of_nat k)) buf
      = (if pad_ok \<and> mac_ok \<and> wl - M \<le> 16384 then Some (take (wl - M) buf) else None)"
  proof (cases "p + 1 + M \<le> n")
    case True
    then have "n - (p + 1) - M = wl - M" using fit by (simp add: wl_def)
    moreover have "drop (n - (p + 1)) buf = replicate (p + 1) (last buf) \<longleftrightarrow> pad_ok"
      using padding_tail [of p buf n] True fit by (simp add: pad_ok_def n_def)
    ultimately show ?thesis using True
      unfolding rfc5246_cbc_open_def Let_def n_def [symmetric] p_def [symmetric] mac_ok_def hdr_def by auto
  next
    case False
    then show ?thesis using fit by (simp add: rfc5246_cbc_open_def Let_def n_def [symmetric] p_def [symmetric] pad_ok_def)
  qed
  with v show ?thesis using wl n20 by (intro exI [of _ "wl - M"]) (auto simp: n_def)
qed

end

section \<open>Sender and receiver\<close>

lemma sz_power:
  assumes "x < 2 ^ 64" "j < 64"
  shows "sz_blocks x (2 ^ j) = x div 2 ^ j * 2 ^ j" "sz_low x (2 ^ j) = x mod 2 ^ j"
proof -
  have "unat (of_nat x :: u64) = x" using assms(1) by (simp add: unat_of_nat take_bit_nat_eq_self)
  then show "sz_blocks x (2 ^ j) = x div 2 ^ j * 2 ^ j" "sz_low x (2 ^ j) = x mod 2 ^ j"
    using and_low [of j "of_nat x :: u64"] assms(2) by (simp_all add: sz_blocks_def sz_low_def)
qed

lemma open_fragment:
  assumes "length tag = M" "1 \<le> k" "k \<le> 256" "tag = mac (header (length c) @ c)" "length c \<le> 16384"
  shows "rfc5246_cbc_open mac M header (c @ tag @ replicate k (of_nat k - 1)) = Some c"
proof -
  let ?b = "of_nat k - 1 :: byte"
  obtain j where j: "k = Suc j" using assms(2) by (cases k) auto
  then have b: "unat ?b = j" using assms(3) by (simp add: unat_of_nat take_bit_nat_eq_self)
  have l: "last (c @ tag @ replicate k ?b) = ?b" using j by simp
  have "length (c @ tag @ replicate k ?b) = length c + M + k" using assms(1) by simp
  moreover have "length c + M + k - (j + 1) - M = length c" "length c + M + k - (j + 1) = length c + M" "j + 1 = k" using j by simp_all
  ultimately show ?thesis unfolding rfc5246_cbc_open_def Let_def l b using assms by (simp del: replicate_Suc)
qed

text \<open>
  What the block ciphers promise: blocks of 8 or 16 bytes; on whole blocks, the lengths of data and
  vector are kept, and decryption from the same vector undoes encryption and leaves the same vector.
\<close>

definition cbc_pair :: "cbc_class \<Rightarrow> cbc_class \<Rightarrow> byte list \<Rightarrow> bool" where
  "cbc_pair be bd key \<longleftrightarrow> cbc_block_size be \<in> {8, 16} \<and> cbc_block_size bd = cbc_block_size be
     \<and> (\<forall>iv d. cbc_block_size be dvd length d \<longrightarrow> length (fst (cbc_run be key iv d)) = length d
        \<and> cbc_run bd key iv (fst (cbc_run be key iv d)) = (d, snd (cbc_run be key iv d)))"

text \<open>A sender and a receiver in the same state.\<close>

definition cbc_linked :: "'h cbc_ctx \<Rightarrow> 'h cbc_ctx \<Rightarrow> bool" where
  "cbc_linked co ci \<longleftrightarrow> cbc_pair (cbc_bc co) (cbc_bc ci) (cbc_key co) \<and> ci = co\<lparr>cbc_bc := cbc_bc ci\<rparr>"

text \<open>
  The receiver on a number of records that follow each other in memory from \<open>q\<close> on, and what it delivers:
  as in the engine, the length in the header is checked before the record is decrypted.
\<close>

fun cbc_records :: "nat \<Rightarrow> 'h cbc_ctx \<Rightarrow> byte \<Rightarrow> u32 \<Rightarrow> mem \<Rightarrow> addr \<Rightarrow> 'h cbc_ctx \<times> addr \<times> byte list list option" where
  "cbc_records 0 cc rt ver m q = (cc, q, Some [])"
| "cbc_records (Suc k) cc rt ver m q =
     (let len = unat (br_dec16be m (q + 3))
      in if \<not> cbc_check_length cc len then (cc, q, None)
         else case cbc_decrypt cc rt ver m (q + 5) len of
           (cc, m, None) \<Rightarrow> (cc, q, None)
         | (cc, m, Some (buf, l)) \<Rightarrow>
             (case cbc_records k cc rt ver m (q + 5 + len) of
                (cc, q, r) \<Rightarrow> (cc, q, map_option ((#) (load m buf l)) r)))"

text \<open>The blocks of a record before encryption.\<close>

definition cbc_plain :: "'h cbc_ctx \<Rightarrow> byte list \<Rightarrow> byte list \<Rightarrow> byte list \<Rightarrow> byte list" where
  "cbc_plain cc ivb c tag =
     (let blen = cbc_block_size (cbc_bc cc); k = blen - (length c + cbc_mac_len cc) mod blen
      in (if cbc_explicit_IV cc then ivb else []) @ c @ tag @ replicate k (of_nat k - 1))"

lemma padded_blocks: "0 < b \<Longrightarrow> b dvd n + (b - n mod b)" for b n :: nat
proof -
  assume "0 < b"
  define q r where "q = n div b" and "r = n mod b"
  have "n = b * q + r" "r < b" using \<open>0 < b\<close> by (simp_all add: q_def r_def)
  then have "n + (b - r) = b * (q + 1)" by simp
  then show ?thesis unfolding r_def by (metis dvd_triv_left)
qed

lemma cbc_plain_blocks:
  assumes "0 < cbc_block_size (cbc_bc cc)" "length tag = cbc_mac_len cc" "cbc_explicit_IV cc \<Longrightarrow> length ivb = cbc_block_size (cbc_bc cc)"
  shows "cbc_block_size (cbc_bc cc) dvd length (cbc_plain cc ivb c tag)"
proof -
  let ?b = "cbc_block_size (cbc_bc cc)" and ?n = "length c + cbc_mac_len cc"
  have "?b dvd ?n + (?b - ?n mod ?b)" using assms(1) by (rule padded_blocks)
  moreover have "length (cbc_plain cc ivb c tag) = (if cbc_explicit_IV cc then ?b else 0) + (?n + (?b - ?n mod ?b))"
  proof -
    define k where "k = ?b - ?n mod ?b"
    show ?thesis unfolding cbc_plain_def Let_def k_def [symmetric] using assms by simp
  qed
  ultimately show ?thesis by simp
qed

lemma cbc_check_padded:
  assumes b: "cbc_block_size (cbc_bc cc) = 8 \<or> cbc_block_size (cbc_bc cc) = 16" and M: "M = cbc_mac_len cc" "M \<le> 64" and len: "len \<le> 16384"
    and n: "n = (if cbc_explicit_IV cc then cbc_block_size (cbc_bc cc) else 0)
      + (len + M + (cbc_block_size (cbc_bc cc) - (len + M) mod cbc_block_size (cbc_bc cc)))"
  shows "cbc_check_length cc n"
proof -
  let ?b = "cbc_block_size (cbc_bc cc)"
  define k where "k = len + M + (?b - (len + M) mod ?b)"
  obtain j where j: "?b = 2 ^ j" "j \<le> 6" using b by (elim disjE) (rule that [of 3] that [of 4]; simp)+
  have "?b dvd k" unfolding k_def using j by (intro padded_blocks) simp
  then obtain i where i: "k = i * ?b" by (metis dvd_def mult.commute)
  have m: "(len + M) mod ?b < ?b" using j by simp
  have k: "M < k" "k \<le> 16384 + 256 + M" using m len b by (auto simp: k_def)
  have "sz_blocks (?b + M) ?b = (?b + M) div ?b * ?b" "sz_blocks (16384 + 256 + M) ?b = (16384 + 256 + M) div ?b * ?b"
    unfolding j(1) using sz_power(1) [of _ j] b M j by auto
  moreover have "(?b + M) div ?b * ?b \<le> k"
  proof -
    have "?b + M < (i + 1) * ?b" using k(1) i by simp
    then have "(?b + M) div ?b < i + 1" using j by (simp add: div_less_iff_less_mult)
    then have "(?b + M) div ?b \<le> i" by linarith
    then show ?thesis unfolding i by (rule mult_le_mono1)
  qed
  moreover have "k \<le> (16384 + 256 + M) div ?b * ?b"
  proof -
    have "i \<le> (16384 + 256 + M) div ?b" using k(2) i j by (simp add: less_eq_div_iff_mult_less_eq)
    then show ?thesis unfolding i by simp
  qed
  ultimately show ?thesis unfolding cbc_check_length_def Let_def M(1) [symmetric] n k_def [symmetric] by simp
qed

lemma store_covered: "q \<le> a \<Longrightarrow> a + length xs \<le> q + length ys \<Longrightarrow> store (store m a xs) q ys = store m q ys"
  by (rule ext) (auto simp: store_def)

lemma store_commute: "p + length xs \<le> q \<Longrightarrow> store (store m q ys) p xs = store (store m p xs) q ys"
  by (rule ext) (auto simp: store_def)

text \<open>A record in memory: its header and the encrypted blocks.\<close>

lemma cbc_record_eq:
  fixes m :: mem
  assumes blen: "blen = cbc_block_size (cbc_bc cc)" "blen = 2 ^ j" "j \<le> 6" and M: "M = cbc_mac_len cc" "M \<le> 64" and len: "len < 2 ^ 32"
    and c: "c = load m buf len" and ivb: "ivb = load m (buf - blen) blen" and room: "5 + (if cbc_explicit_IV cc then blen else 0) \<le> buf"
    and tag: "tag = br_hmac_out (br_hmac_update (br_hmac_update (br_hmac_init (cbc_mac cc) M) (cbc_header (cbc_seq cc) rt ver (of_nat len))) c)"
      "length tag = M"
    and run: "cbc_run (cbc_bc cc) (cbc_key cc) (cbc_iv cc) (cbc_plain cc ivb c tag) = (out, iv')" "length out = length (cbc_plain cc ivb c tag)"
    and q: "q = buf - (if cbc_explicit_IV cc then blen else 0)"
  shows "cbc_record cc rt ver m buf len = (cc\<lparr>cbc_seq := cbc_seq cc + 1, cbc_iv := iv'\<rparr>,
    store m (q - 5) (rt # br_enc16be ver @ br_enc16be (of_nat (length out)) @ out), q, length out)"
proof -
  define k where "k = blen - (len + M) mod blen"
  define m2 where "m2 = store (store m (buf + len) tag) (buf + len + M) (replicate k (of_nat k - 1))"
  have lc: "length c = len" using c by simp
  have bl: "blen - sz_low (len + M) blen = k"
  proof -
    have "len + M < 2 ^ 64" using len M by simp
    then show ?thesis using sz_power(2) [of "len + M" j] blen(2,3) by (simp add: k_def)
  qed
  have P: "cbc_plain cc ivb c tag = (if cbc_explicit_IV cc then ivb else []) @ c @ tag @ replicate k (of_nat k - 1)"
    by (simp add: cbc_plain_def Let_def k_def lc blen(1) M(1))
  have lP: "length out = (if cbc_explicit_IV cc then blen else 0) + len + M + k"
    unfolding run(2) P using lc tag(2) ivb by simp
  have ld: "load m2 q (length out) = cbc_plain cc ivb c tag"
  proof -
    have "load m2 buf (len + (M + k)) = c @ tag @ replicate k (of_nat k - 1)"
      unfolding load_add [of _ _ len] load_add [of _ _ M] using tag(2) c by (simp add: m2_def mem_simps)
    moreover have "load m2 (buf - blen) blen = ivb" if "cbc_explicit_IV cc" using that ivb room by (simp add: m2_def mem_simps)
    ultimately show ?thesis using room load_add [of m2 "buf - blen" blen "len + (M + k)"]
      by (cases "cbc_explicit_IV cc") (simp_all add: P lP q add.assoc)
  qed
  define hdr where "hdr = rt # br_enc16be ver @ br_enc16be (of_nat (length out))"
  have h: "store (store (store m' (q - 5) [rt]) (q - 4) (br_enc16be ver)) (q - 2) (br_enc16be (of_nat (length out))) = store m' (q - 5) hdr" for m'
  proof -
    have "q - 5 + 1 = q - 4" "q - 5 + 3 = q - 2" using room q by simp_all
    then show ?thesis using header_stores [of m' "q - 5" rt ver "of_nat (length out)"] by (simp add: hdr_def)
  qed
  have "store (store m2 q out) (q - 5) hdr = store m2 (q - 5) (hdr @ out)"
    using store_commute [of "q - 5" hdr q m2 out] store_append [of m2 "q - 5" hdr out] room q by (simp add: hdr_def)
  also have "\<dots> = store m (q - 5) (hdr @ out)"
  proof -
    have "q - 5 \<le> buf + len" "buf + len + M + k = q + length out" "q - 5 + length (hdr @ out) = q + length out"
      using room lP q by (auto simp: hdr_def)
    then show ?thesis unfolding m2_def using tag(2) by (subst store_covered, simp, simp) (subst store_covered, simp, simp, rule refl)
  qed
  finally have mem: "store (store m2 q out) (q - 5) hdr = store m (q - 5) (hdr @ out)" .
  have ql: "(if cbc_explicit_IV cc then (buf - blen, len + M + k + blen) else (buf, len + M + k)) = (q, length out)"
    using lP q by auto
  define cc1 where "cc1 = cc\<lparr>cbc_seq := cbc_seq cc + 1\<rparr>"
  have e: "cbc_bc cc1 = cbc_bc cc" "cbc_mac cc1 = cbc_mac cc" "cbc_mac_len cc1 = cbc_mac_len cc" "cbc_explicit_IV cc1 = cbc_explicit_IV cc"
      "cbc_key cc1 = cbc_key cc" "cbc_iv cc1 = cbc_iv cc"
    by (simp_all add: cc1_def)
  show ?thesis
    unfolding cbc_record_def Let_def cc1_def [symmetric] e unfolding blen(1) [symmetric] M(1) [symmetric] c [symmetric] tag(1) [symmetric] bl
      add.assoc [of buf len M, symmetric] m2_def [symmetric] ql prod.case ld run(1) h mem
    by (simp add: cc1_def hdr_def)
qed

lemma cbc_linked_fields:
  assumes "cbc_linked co ci"
  shows "cbc_block_size (cbc_bc ci) = cbc_block_size (cbc_bc co)" "cbc_seq ci = cbc_seq co" "cbc_key ci = cbc_key co" "cbc_mac ci = cbc_mac co"
    "cbc_mac_len ci = cbc_mac_len co" "cbc_iv ci = cbc_iv co" "cbc_explicit_IV ci = cbc_explicit_IV co"
    "cbc_linked (co\<lparr>cbc_seq := n, cbc_iv := iv\<rparr>) (ci\<lparr>cbc_iv := iv, cbc_seq := n\<rparr>)"
proof -
  have e: "ci = co\<lparr>cbc_bc := cbc_bc ci\<rparr>" and p: "cbc_pair (cbc_bc co) (cbc_bc ci) (cbc_key co)" using assms by (auto simp: cbc_linked_def)
  show "cbc_block_size (cbc_bc ci) = cbc_block_size (cbc_bc co)" using p by (auto simp: cbc_pair_def)
  show "cbc_seq ci = cbc_seq co" "cbc_key ci = cbc_key co" "cbc_mac ci = cbc_mac co" "cbc_mac_len ci = cbc_mac_len co" "cbc_iv ci = cbc_iv co"
    "cbc_explicit_IV ci = cbc_explicit_IV co" by (subst e; simp)+
  have "ci\<lparr>cbc_iv := iv, cbc_seq := n\<rparr> = co\<lparr>cbc_bc := cbc_bc ci, cbc_iv := iv, cbc_seq := n\<rparr>" by (subst e) simp
  then show "cbc_linked (co\<lparr>cbc_seq := n, cbc_iv := iv\<rparr>) (ci\<lparr>cbc_iv := iv, cbc_seq := n\<rparr>)" using p by (simp add: cbc_linked_def)
qed

context md_ct
begin

lemma cbc_decrypt_plain:
  assumes lk: "cbc_linked co ci" and key: "key_for (cbc_mac co) key" and M: "cbc_mac_len co = M" "0 < M" "M \<le> br_digest_size dig"
    and c: "length c \<le> 16384" and tag: "tag = cbc_mac_fun key M (cbc_header (cbc_seq co) rt ver (of_nat (length c)) @ c)"
    and ivb: "length ivb = cbc_block_size (cbc_bc co)"
    and run: "cbc_run (cbc_bc co) (cbc_key co) (cbc_iv co) (cbc_plain co ivb c tag) = (out, iv')"
    and m: "load m data (length out) = out"
  defines "off \<equiv> if cbc_explicit_IV co then cbc_block_size (cbc_bc co) else 0"
  shows "\<exists>m'. cbc_decrypt ci rt ver m data (length out) = (ci\<lparr>cbc_iv := iv', cbc_seq := cbc_seq ci + 1\<rparr>, m', Some (data + off, length c))
    \<and> load m' (data + off) (length c) = c \<and> (\<forall>a. a < data \<or> data + length out \<le> a \<longrightarrow> m' a = m a)"
proof -
  let ?P = "cbc_plain co ivb c tag" and ?b = "cbc_block_size (cbc_bc co)"
  define k where "k = ?b - (length c + M) mod ?b"
  define frag where "frag = c @ tag @ replicate k (of_nat k - 1)"
  note f = cbc_linked_fields(1-7) [OF lk]
  have p: "cbc_pair (cbc_bc co) (cbc_bc ci) (cbc_key co)" using lk by (simp add: cbc_linked_def)
  then have b: "?b \<in> {8, 16}" by (simp add: cbc_pair_def)
  have lt: "length tag = M" using M(3) by (simp add: tag cbc_mac_fun_def length_rfc2104 [unfolded desc_block])
  have P: "?P = (if cbc_explicit_IV co then ivb else []) @ frag" by (simp add: cbc_plain_def Let_def frag_def k_def M(1))
  have "?b dvd length ?P" using b lt M(1) ivb by (intro cbc_plain_blocks) auto
  with p run have r: "length out = length ?P" "cbc_run (cbc_bc ci) (cbc_key co) (cbc_iv co) out = (?P, iv')"
    unfolding cbc_pair_def by (metis fst_conv snd_conv)+
  have k: "1 \<le> k" "k \<le> 16" using b mod_less_divisor [of ?b "length c + M"] by (auto simp: k_def)
  have lf: "M + 1 \<le> length frag" "length frag < 2 ^ 20" using k c lt M(3) small by (simp_all add: frag_def)
  have off: "length ?P = off + length frag" using ivb by (simp add: P off_def)
  define m' where "m' = store m data ?P"
  have ld: "load m' (data + off) (length frag) = frag"
  proof -
    have "load m' data (off + length frag) = ?P" using off by (simp add: m'_def)
    then show ?thesis using load_add [of m' data off "length frag"] ivb by (simp add: P off_def split: if_splits)
  qed
  have o: "rfc5246_cbc_open (cbc_mac_fun key M) M (\<lambda>k. cbc_header (cbc_seq co) rt ver (of_nat k)) frag = Some c"
    unfolding frag_def using lt k c tag by (intro open_fragment) simp_all
  from cbc_verify_open [of ci key M frag rt ver] key M lf o obtain l where
    v: "cbc_verify ci rt ver frag = (1, of_nat l)" "l = length c" by (auto simp: f)
  have lw: "unat (of_nat (length c) :: u32) = length c" using of_nat_u32(1) [of "length c" 0] c by simp
  have bo: "(if cbc_explicit_IV co then (data + ?b, sz_sub (length out) ?b) else (data, length out)) = (data + off, length frag)"
    using off r(1) lf(2) b by (auto simp: off_def sz_simps)
  have "cbc_decrypt ci rt ver m data (length out) = (ci\<lparr>cbc_iv := iv', cbc_seq := cbc_seq ci + 1\<rparr>, m', Some (data + off, length c))"
    unfolding cbc_decrypt_def Let_def f m r(2) prod.case bo m'_def [symmetric] ld v lw by simp
  moreover have "load m' (data + off) (length c) = c"
  proof -
    have "load m' (data + off) (length c + (M + k)) = frag" using ld lt by (simp add: frag_def)
    then show ?thesis unfolding load_add frag_def by (simp add: append_eq_append_conv)
  qed
  moreover have "\<forall>a. a < data \<or> data + length out \<le> a \<longrightarrow> m' a = m a" using r(1) by (auto simp: m'_def store_def)
  ultimately show ?thesis by blast
qed

text \<open>One record from the sender to the receiver.\<close>

lemma cbc_record_received:
  assumes lk: "cbc_linked co ci" and key: "key_for (cbc_mac co) key" and M: "cbc_mac_len co = M" "0 < M" "M \<le> br_digest_size dig"
    and len: "len \<le> 16384" and room: "5 + (if cbc_explicit_IV co then cbc_block_size (cbc_bc co) else 0) \<le> buf"
    and rec: "cbc_record co rt ver m buf len = (co', m', q, n)"
  shows "q = buf - (if cbc_explicit_IV co then cbc_block_size (cbc_bc co) else 0)"
    "n = (if cbc_explicit_IV co then cbc_block_size (cbc_bc co) else 0) + (len + M + (cbc_block_size (cbc_bc co) - (len + M) mod cbc_block_size (cbc_bc co)))"
    "\<And>a. a < q - 5 \<or> q + n \<le> a \<Longrightarrow> m' a = m a"
    "\<exists>ci'. cbc_linked co' ci' \<and> (\<forall>m2 r. load m2 r (5 + n) = load m' (q - 5) (5 + n) \<longrightarrow>
      (\<exists>m3 p. cbc_decrypt ci rt ver m2 (r + 5) (unat (br_dec16be m2 (r + 3))) = (ci', m3, Some (p, len)) \<and> unat (br_dec16be m2 (r + 3)) = n
        \<and> load m3 p len = load m buf len \<and> (\<forall>a. a < r + 5 \<or> r + 5 + n \<le> a \<longrightarrow> m3 a = m2 a)))"
    "\<exists>iv. co' = co\<lparr>cbc_seq := cbc_seq co + 1, cbc_iv := iv\<rparr>"
    "cbc_check_length ci n"
proof -
  let ?b = "cbc_block_size (cbc_bc co)"
  define off where "off = (if cbc_explicit_IV co then ?b else 0)"
  define c where "c = load m buf len"
  define ivb where "ivb = load m (buf - ?b) ?b"
  define hdr where "hdr = cbc_header (cbc_seq co) rt ver (of_nat len)"
  define tag where "tag = cbc_mac_fun key M (hdr @ c)"
  have p: "cbc_pair (cbc_bc co) (cbc_bc ci) (cbc_key co)" using lk by (simp add: cbc_linked_def)
  then have "?b = 8 \<or> ?b = 16" by (auto simp: cbc_pair_def)
  then obtain j where b: "?b = 2 ^ j" "j \<le> 6" by (elim disjE) (rule that [of 3] that [of 4]; simp)+
  have lt: "length tag = M" using M(3) by (simp add: tag_def cbc_mac_fun_def length_rfc2104 [unfolded desc_block])
  have hm: "hm_out_len (br_hmac_init (cbc_mac co) M) = M" using key M by (auto simp: br_hmac_init_def key_for_def Let_def)
  have t: "tag = br_hmac_out (br_hmac_update (br_hmac_update (br_hmac_init (cbc_mac co) M) hdr) c)"
    using hmac_out [OF hmac_update [OF hmac_update [OF hmac_init [OF key]]]] hm by (simp add: tag_def cbc_mac_fun_def desc_block)
  obtain out iv' where run: "cbc_run (cbc_bc co) (cbc_key co) (cbc_iv co) (cbc_plain co ivb c tag) = (out, iv')" by fastforce
  have "?b dvd length (cbc_plain co ivb c tag)" using b lt M(1) by (intro cbc_plain_blocks) (simp_all add: ivb_def)
  with p run have lo: "length out = length (cbc_plain co ivb c tag)" unfolding cbc_pair_def by (metis fst_conv)
  from cbc_record_eq [OF refl b M(1) [symmetric] _ _ c_def ivb_def room t [unfolded hdr_def] lt run lo refl]
  have "cbc_record co rt ver m buf len = (co\<lparr>cbc_seq := cbc_seq co + 1, cbc_iv := iv'\<rparr>,
      store m (buf - off - 5) (rt # br_enc16be ver @ br_enc16be (of_nat (length out)) @ out), buf - off, length out)"
    using M(3) small len by (simp add: off_def)
  with rec have r: "co' = co\<lparr>cbc_seq := cbc_seq co + 1, cbc_iv := iv'\<rparr>" "q = buf - off" "n = length out"
      "m' = store m (q - 5) (rt # br_enc16be ver @ br_enc16be (of_nat n) @ out)"
    by auto
  have q5: "5 \<le> q" using room r(2) by (simp add: off_def)
  show "q = buf - (if cbc_explicit_IV co then ?b else 0)" using r(2) by (simp add: off_def)
  have lc: "length c = len" by (simp add: c_def)
  show n: "n = (if cbc_explicit_IV co then ?b else 0) + (len + M + (?b - (len + M) mod ?b))"
  proof -
    define k where "k = ?b - (len + M) mod ?b"
    show ?thesis unfolding r(3) lo cbc_plain_def Let_def lc M(1) k_def [symmetric] using lt by (simp add: lc ivb_def)
  qed
  show "m' a = m a" if "a < q - 5 \<or> q + n \<le> a" for a using that q5 r(3) by (auto simp: r(4) store_def)
  show "\<exists>iv. co' = co\<lparr>cbc_seq := cbc_seq co + 1, cbc_iv := iv\<rparr>" using r(1) by blast
  show "cbc_check_length ci n"
    using \<open>?b = 8 \<or> ?b = 16\<close> M small len n by (intro cbc_check_padded [OF _ refl _ len]) (simp_all add: cbc_linked_fields [OF lk])
  have nb: "n < 2 ^ 16"
  proof -
    have "?b \<le> 16" using \<open>?b = 8 \<or> ?b = 16\<close> by auto
    then have "?b - (len + M) mod ?b \<le> 16" "(if cbc_explicit_IV co then ?b else 0) \<le> 16" by simp_all
    then show ?thesis using n len M(3) small by simp
  qed
  define ci' where "ci' = ci\<lparr>cbc_iv := iv', cbc_seq := cbc_seq ci + 1\<rparr>"
  have "cbc_linked co' ci'"
    unfolding r(1) ci'_def cbc_linked_fields(2) [OF lk] by (rule cbc_linked_fields(8) [OF lk])
  moreover have "\<exists>m3 p. cbc_decrypt ci rt ver m2 (r + 5) (unat (br_dec16be m2 (r + 3))) = (ci', m3, Some (p, len)) \<and> unat (br_dec16be m2 (r + 3)) = n
        \<and> load m3 p len = load m buf len \<and> (\<forall>a. a < r + 5 \<or> r + 5 + n \<le> a \<longrightarrow> m3 a = m2 a)"
    if ld: "load m2 r (5 + n) = load m' (q - 5) (5 + n)" for m2 r
  proof -
    have "load m2 r (5 + n) = rt # br_enc16be ver @ br_enc16be (of_nat n) @ out" unfolding ld r(4) using r(3) by simp
    then have s: "load m2 r 3 @ load m2 (r + 3) 2 @ load m2 (r + 5) n = (rt # br_enc16be ver) @ br_enc16be (of_nat n) @ out"
      using load_add [of m2 r 3 "2 + n"] load_add [of m2 "r + 3" 2 n] by (simp add: add.commute)
    then have s2: "load m2 (r + 3) 2 = br_enc16be (of_nat n)" "load m2 (r + 5) (length out) = out"
      using append_eq_append_conv [of "load m2 r 3" "rt # br_enc16be ver"] append_eq_append_conv [of "load m2 (r + 3) 2" "br_enc16be (of_nat n)"] r(3)
      by simp_all
    have "unat (br_dec16be m2 (r + 3)) = n"
    proof -
      have "br_dec16be m2 (r + 3) = take_bit 16 (of_nat n)" by (rule dec16be_enc [OF s2(1)])
      moreover have "unat (take_bit 16 (of_nat n :: u32)) = n"
        using nb of_nat_u32(1) [of n 0] by (simp add: unsigned_take_bit_eq take_bit_nat_eq_self)
      ultimately show ?thesis by simp
    qed
    moreover from cbc_decrypt_plain [OF lk key M _ _ _ run s2(2), of rt ver]
    obtain m3 where "cbc_decrypt ci rt ver m2 (r + 5) n = (ci', m3, Some (r + 5 + off, len))" "load m3 (r + 5 + off) len = c"
        "\<forall>a. a < r + 5 \<or> r + 5 + n \<le> a \<longrightarrow> m3 a = m2 a"
      using len lc r(3) by (auto simp: tag_def hdr_def ivb_def ci'_def off_def)
    ultimately show ?thesis unfolding c_def by auto
  qed
  ultimately show "\<exists>ci'. cbc_linked co' ci' \<and> (\<forall>m2 r. load m2 r (5 + n) = load m' (q - 5) (5 + n) \<longrightarrow>
      (\<exists>m3 p. cbc_decrypt ci rt ver m2 (r + 5) (unat (br_dec16be m2 (r + 3))) = (ci', m3, Some (p, len)) \<and> unat (br_dec16be m2 (r + 3)) = n
        \<and> load m3 p len = load m buf len \<and> (\<forall>a. a < r + 5 \<or> r + 5 + n \<le> a \<longrightarrow> m3 a = m2 a)))"
    by blast
qed

text \<open>What the receiver gets from a call of \<open>cbc_encrypt\<close>.\<close>

lemma cbc_one_received:
  assumes lk: "cbc_linked co ci" and key: "key_for (cbc_mac co) key" and M: "cbc_mac_len co = M" "0 < M" "M \<le> br_digest_size dig"
    and len: "len \<le> 16384" and room: "5 + (if cbc_explicit_IV co then cbc_block_size (cbc_bc co) else 0) \<le> buf"
    and rec: "cbc_record co rt ver m buf len = (co', m', q, n)"
  shows "\<exists>ci'. cbc_records 1 ci rt ver m' (q - 5) = (ci', q + n, Some [load m buf len]) \<and> cbc_linked co' ci'"
proof -
  note r = cbc_record_received [OF lk key M len room rec]
  from r(4) obtain ci' m3 p where d: "cbc_linked co' ci'" "unat (br_dec16be m' (q - 5 + 3)) = n"
      "cbc_decrypt ci rt ver m' (q - 5 + 5) (unat (br_dec16be m' (q - 5 + 3))) = (ci', m3, Some (p, len))" "load m3 p len = load m buf len"
    by blast
  have "5 \<le> q" using r(1) room by simp
  then have "q - 5 + 5 + n = q + n" by simp
  with d r(6) show ?thesis by (intro exI [of _ ci']) (simp add: Let_def)
qed

lemma cbc_two_received:
  assumes lk: "cbc_linked co ci" and key: "key_for (cbc_mac co) key" and M: "cbc_mac_len co = M" "0 < M" "M \<le> br_digest_size dig"
    and len: "len \<le> 16384" "1 < len" and no: "\<not> cbc_explicit_IV co"
    and X: "X = sz_blocks (M + cbc_block_size (cbc_bc co) + 1) (cbc_block_size (cbc_bc co))" and room: "9 + X \<le> buf"
    and rec1: "cbc_record co rt ver (store m (buf - 4 - X) [m buf]) (buf - 4 - X) 1 = (co1, m1, q1, n1)"
    and rec2: "cbc_record co1 rt ver m1 (buf + 1) (len - 1) = (co2, m2, q2, n2)"
  shows "\<exists>ci'. cbc_records 2 ci rt ver m2 (buf - 9 - X) = (ci', q2 + n2, Some [[m buf], load m (buf + 1) (len - 1)]) \<and> cbc_linked co2 ci' \<and> q2 = buf + 1"
proof -
  let ?b = "cbc_block_size (cbc_bc co)"
  have "?b = 8 \<or> ?b = 16" using lk by (auto simp: cbc_linked_def cbc_pair_def)
  then obtain j where b: "?b = 2 ^ j" "j \<le> 6" by (elim disjE) (rule that [of 3] that [of 4]; simp)+
  have X': "X = 1 + M + (?b - (1 + M) mod ?b)"
  proof -
    have "M + ?b + 1 < 2 ^ 64" using M(3) small \<open>?b = 8 \<or> ?b = 16\<close> by auto
    then have "X = (1 + M + ?b) div ?b * ?b" using sz_power(1) [of "M + ?b + 1" j] b X by (simp add: add.commute)
    also have "(1 + M + ?b) div ?b = (1 + M) div ?b + 1" using b by (intro div_add_self2) simp
    also have "((1 + M) div ?b + 1) * ?b = (1 + M) div ?b * ?b + ?b" by simp
    finally have "X = (1 + M) div ?b * ?b + ?b" .
    moreover have "(1 + M) div ?b * ?b + (1 + M) mod ?b = 1 + M" by (rule div_mult_mod_eq)
    moreover have "(1 + M) mod ?b < ?b" using b by simp
    ultimately show ?thesis by linarith
  qed
  define p1 where "p1 = buf - 4 - X"
  have p1: "5 \<le> p1" "p1 + X = buf - 4" "buf - 9 - X = p1 - 5" "4 \<le> buf" using room by (simp_all add: p1_def)
  note rec1 = rec1 [folded p1_def]
  have "5 + (if cbc_explicit_IV co then ?b else 0) \<le> p1" using no p1 by simp
  note r1 = cbc_record_received [OF lk key M _ this rec1]
  from r1 no X' have q1: "q1 = p1" "n1 = X" by simp_all
  from r1(5) obtain iv where co1: "co1 = co\<lparr>cbc_seq := cbc_seq co + 1, cbc_iv := iv\<rparr>" by auto
  from r1(4) obtain ci1 where lk1: "cbc_linked co1 ci1" and d1: "\<And>m2 r. load m2 r (5 + n1) = load m1 (q1 - 5) (5 + n1) \<Longrightarrow>
      (\<exists>m3 p. cbc_decrypt ci rt ver m2 (r + 5) (unat (br_dec16be m2 (r + 3))) = (ci1, m3, Some (p, 1)) \<and> unat (br_dec16be m2 (r + 3)) = n1
        \<and> load m3 p 1 = load (store m p1 [m buf]) p1 1 \<and> (\<forall>a. a < r + 5 \<or> r + 5 + n1 \<le> a \<longrightarrow> m3 a = m2 a))"
    by auto
  have co1': "key_for (cbc_mac co1) key" "cbc_mac_len co1 = M" "5 + (if cbc_explicit_IV co1 then cbc_block_size (cbc_bc co1) else 0) \<le> buf + 1" "len - 1 \<le> 16384"
    using key M(1) no p1 len by (simp_all add: co1)
  note r2 = cbc_record_received [OF lk1 co1'(1,2) M(2,3) co1'(4,3) rec2]
  have q2: "q2 = buf + 1" using r2(1) no by (simp add: co1)
  from r2(4) obtain ci2 where lk2: "cbc_linked co2 ci2" and d2: "\<And>m3 r. load m3 r (5 + n2) = load m2 (q2 - 5) (5 + n2) \<Longrightarrow>
      (\<exists>m4 p. cbc_decrypt ci1 rt ver m3 (r + 5) (unat (br_dec16be m3 (r + 3))) = (ci2, m4, Some (p, len - 1)) \<and> unat (br_dec16be m3 (r + 3)) = n2
        \<and> load m4 p (len - 1) = load m1 (buf + 1) (len - 1) \<and> (\<forall>a. a < r + 5 \<or> r + 5 + n2 \<le> a \<longrightarrow> m4 a = m3 a))"
    by blast
  have "load m2 (p1 - 5) (5 + n1) = load m1 (q1 - 5) (5 + n1)" unfolding q1 using r2(3) p1 q2 by (intro load_cong) simp
  from d1 [OF this] obtain m3 pa where s1: "cbc_decrypt ci rt ver m2 p1 (unat (br_dec16be m2 (p1 - 5 + 3))) = (ci1, m3, Some (pa, 1))"
      "unat (br_dec16be m2 (p1 - 5 + 3)) = n1" "load m3 pa 1 = [m buf]" "\<And>a. a < p1 \<or> p1 + n1 \<le> a \<Longrightarrow> m3 a = m2 a"
    using p1 by auto
  have "q2 - 5 = buf - 4" using q2 by simp
  then have "load m3 (buf - 4) (5 + n2) = load m2 (q2 - 5) (5 + n2)" using s1(4) p1 q1 by (simp only:) (intro load_cong, simp)
  from d2 [OF this] obtain m4 pb where s2: "cbc_decrypt ci1 rt ver m3 (buf + 1) (unat (br_dec16be m3 (buf - 4 + 3))) = (ci2, m4, Some (pb, len - 1))"
      "unat (br_dec16be m3 (buf - 4 + 3)) = n2" "load m4 pb (len - 1) = load m1 (buf + 1) (len - 1)"
    using p1 by (auto simp: q2)
  have "load m1 (buf + 1) (len - 1) = load m (buf + 1) (len - 1)"
  proof (rule load_cong)
    fix a
    assume "buf + 1 \<le> a"
    then have "q1 + n1 \<le> a" "p1 + 1 \<le> a" using p1 q1 by simp_all
    then show "m1 a = m a" using r1(3) [of a] by (simp add: store_def)
  qed
  moreover have "p1 - 5 + 5 + n1 = buf - 4" "p1 - 5 + 5 = p1" "buf - 4 + 5 = buf + 1" using p1 q1 by simp_all
  ultimately show ?thesis using s1(1-3) s2 lk2 r1(6) r2(6) unfolding p1(3) numeral_2_eq_2 cbc_records.simps Let_def
    by (simp add: q2)
qed

lemma cbc_encrypt_received:
  assumes lk: "cbc_linked co ci" and key: "key_for (cbc_mac co) key" and M: "cbc_mac_len co = M" "0 < M" "M \<le> br_digest_size dig"
    and b: "cbc_block_size (cbc_bc co) \<le> br_digest_size dig" and len: "len \<le> 16384"
    and room: "5 + (if cbc_explicit_IV co then cbc_block_size (cbc_bc co) else 4 + sz_blocks (M + cbc_block_size (cbc_bc co) + 1) (cbc_block_size (cbc_bc co))) \<le> buf"
    and enc: "cbc_encrypt co rt ver m buf len = (co', m', q, n)"
  shows "\<exists>ci' cs. cbc_records (if \<not> cbc_explicit_IV co \<and> 1 < len \<and> rt = 23 then 2 else 1) ci rt ver m' q = (ci', q + n, Some cs)
    \<and> concat cs = load m buf len \<and> cbc_linked co' ci'"
proof (cases "cbc_explicit_IV co")
  case True
  let ?b = "cbc_block_size (cbc_bc co)"
  define ivb where "ivb = br_hmac_out (br_hmac_update (br_hmac_init (cbc_mac co) ?b) (br_enc64be (cbc_seq co)))"
  have b0: "0 < ?b" using lk by (auto simp: cbc_linked_def cbc_pair_def)
  have "length ivb = ?b"
  proof -
    have "hm_out_len (br_hmac_init (cbc_mac co) ?b) = ?b" using key b b0 by (auto simp: br_hmac_init_def key_for_def Let_def)
    then show ?thesis using hmac_out [OF hmac_update [OF hmac_init [OF key]]] b unfolding ivb_def by simp
  qed
  then have ld: "load (store m (buf - ?b) ivb) buf len = load m buf len" using True room by (simp add: mem_simps)
  obtain q1 n1 where e: "cbc_record co rt ver (store m (buf - ?b) ivb) buf len = (co', m', q1, n1)" "q = buf - ?b - 5" "n = q1 + n1 - q"
    using enc True unfolding cbc_encrypt_def Let_def ivb_def [symmetric] by (auto split: prod.splits)
  have room': "5 + (if cbc_explicit_IV co then ?b else 0) \<le> buf" using room True by simp
  have q1: "q1 = buf - ?b" using cbc_record_received(1) [OF lk key M len room' e(1)] True by simp
  from cbc_one_received [OF lk key M len room' e(1)] show ?thesis using True e(2,3) q1 room' ld by auto
next
  case False
  let ?b = "cbc_block_size (cbc_bc co)"
  define X where "X = sz_blocks (M + ?b + 1) ?b"
  show ?thesis
  proof (cases "1 < len \<and> rt = 23")
    case True
    obtain co1 m1 q1 n1 where e1: "cbc_record co rt ver (store m (buf - 4 - X) [m buf]) (buf - 4 - X) 1 = (co1, m1, q1, n1)" by (metis prod_cases4)
    obtain q2 n2 where e2: "cbc_record co1 rt ver m1 (buf + 1) (len - 1) = (co', m', q2, n2)" "q = buf - 4 - X - 5" "n = q2 + n2 - q"
      using enc False True e1 unfolding cbc_encrypt_def Let_def M(1) X_def [symmetric] by (auto split: prod.splits)
    have lenl: "load m buf len = m buf # load m (buf + 1) (len - 1)" using load_Suc [of m buf "len - 1"] True by simp
    have r: "9 + X \<le> buf" using room False by (simp add: X_def)
    from cbc_two_received [OF lk key M len _ False X_def r e1 e2(1)] True obtain ci' where
      c: "cbc_records 2 ci rt ver m' (buf - 9 - X) = (ci', q2 + n2, Some [[m buf], load m (buf + 1) (len - 1)])" "cbc_linked co' ci'" "q2 = buf + 1" by auto
    then have "buf - 9 - X = q" "q \<le> q2 + n2" using e2(2) by simp_all
    then show ?thesis using c False True e2(3) lenl by auto
  next
    case nosplit: False
    obtain q1 n1 where e: "cbc_record co rt ver m buf len = (co', m', q1, n1)" "q = buf - 5" "n = q1 + n1 - q"
      using enc False nosplit unfolding cbc_encrypt_def Let_def by (auto split: prod.splits)
    have room': "5 + (if cbc_explicit_IV co then ?b else 0) \<le> buf" using room False by simp
    have q1: "q1 = buf" using cbc_record_received(1) [OF lk key M len room' e(1)] False by simp
    from cbc_one_received [OF lk key M len room' e(1)] show ?thesis using False nosplit e(2,3) q1 room' by auto
  qed
qed

lemma cbc_decrypt_open:
  assumes key: "key_for (cbc_mac cc) key" and M: "cbc_mac_len cc = M" "0 < M" "M \<le> br_digest_size dig"
    and run: "cbc_run (cbc_bc cc) (cbc_key cc) (cbc_iv cc) (load m data n) = (P, iv')" "length P = n"
    and off: "off = (if cbc_explicit_IV cc then cbc_block_size (cbc_bc cc) else 0)" and n: "off + M + 1 \<le> n" "n < 2 ^ 20"
  shows "cbc_decrypt cc rt ver m data n = (cc\<lparr>cbc_iv := iv', cbc_seq := cbc_seq cc + 1\<rparr>, store m data P,
    map_option (\<lambda>c. (data + off, length c)) (rfc5246_cbc_open (cbc_mac_fun key M) M (\<lambda>k. cbc_header (cbc_seq cc) rt ver (of_nat k)) (drop off P)))"
proof -
  let ?o = "rfc5246_cbc_open (cbc_mac_fun key M) M (\<lambda>k. cbc_header (cbc_seq cc) rt ver (of_nat k)) (drop off P)"
  have bo: "(if cbc_explicit_IV cc then (data + cbc_block_size (cbc_bc cc), sz_sub n (cbc_block_size (cbc_bc cc))) else (data, n)) = (data + off, n - off)"
    using off n by (auto simp: sz_simps)
  have ld: "load (store m data P) (data + off) (n - off) = drop off P"
    using run(2) n by (intro load_eqI) (auto simp: store_def)
  have "M + 1 \<le> length (drop off P)" "length (drop off P) < 2 ^ 20" using run(2) n by auto
  from cbc_verify_open [OF key M this, of rt ver] obtain l where v: "cbc_verify cc rt ver (drop off P) = (of_bool (?o \<noteq> None), of_nat l)" "l < 2 ^ 20" "\<And>c. ?o = Some c \<Longrightarrow> l = length c" by auto
  have "unat (of_nat l :: u32) = l" using of_nat_u32(1) [of l 0] v(2) by simp
  then show ?thesis unfolding cbc_decrypt_def Let_def run(1) prod.case bo ld v(1) using v(3) by (cases ?o) auto
qed

end

section \<open>Properties\<close>

text \<open>
  The hash functions of 32-bit words that CBC cipher suites use, with their specifications and digest
  lengths. SHA-384, with contexts of another type, is treated beside them.
\<close>

abbreviation cbc_digests :: "(u32 hash_ctx hash_class \<times> (byte list \<Rightarrow> byte list) \<times> nat) set" where
  "cbc_digests \<equiv> {(br_md5_vtable, rfc1321, 16), (br_sha1_vtable, fips_sha1, 20), (br_sha256_vtable, fips_sha sha256_fun br_sha256_IV 32, 32)}"

lemma cbc_mac_specs:
  "md5_ct.cbc_mac_fun key M = (\<lambda>d. take M (rfc2104 rfc1321 64 key d))"
  "sha1_ct.cbc_mac_fun key M = (\<lambda>d. take M (rfc2104 fips_sha1 64 key d))"
  "sha256_ct.cbc_mac_fun key M = (\<lambda>d. take M (rfc2104 (fips_sha sha256_fun br_sha256_IV 32) 64 key d))"
  by (simp_all add: fun_eq_iff md5_ct.cbc_mac_fun_def sha1_ct.cbc_mac_fun_def sha256_ct.cbc_mac_fun_def md5_sizes sha1_sizes sha2_sizes
      md5_hash [abs_def] sha1_hash [abs_def] small_hash [abs_def])

text \<open>SHA-384 counts bytes in 64 bits, which is enough for every record.\<close>

lemma rfc2104_cong:
  assumes "\<And>m. length m < 2 ^ 64 \<Longrightarrow> H m = H' m" "length key < 2 ^ 64" "\<And>m. length (H m) \<le> B" "B \<le> 256" "length d < 2 ^ 32"
  shows "rfc2104 H B key d = rfc2104 H' B key d"
proof -
  have k: "rfc2104_key H B key = rfc2104_key H' B key" using assms(1,2) by (simp add: rfc2104_key_def)
  have "length (rfc2104_key H B key) \<le> B" using assms(3) by (simp add: rfc2104_key_def Let_def)
  then have l: "length (xor_bytes (rfc2104_key H B key) ys) \<le> 256" for ys using assms(4) by (simp add: xor_bytes_def)
  have "length (xor_bytes (rfc2104_key H B key) ys @ z) < 2 ^ 64" if "length z < 2 ^ 33" for ys z using l [of ys] that by simp
  moreover have "length (H x) < 2 ^ 33" for x using assms(3) [of x] assms(4) by simp
  moreover have "length d < 2 ^ 33" using assms(5) by simp
  ultimately show ?thesis unfolding rfc2104_def k [symmetric] using assms(1) by (metis (no_types))
qed

lemma sha384_mac_fun:
  assumes "length key < 2 ^ 64" "length d < 2 ^ 32"
  shows "sha384_ct.cbc_mac_fun key M d = take M (rfc2104 (fips_sha sha512_fun IV384 48) 128 key d)"
proof -
  have "rfc2104 (md_hash 128 sha2big_round IV384 enc64s 48 16 len128) 128 key d = rfc2104 (fips_sha sha512_fun IV384 48) 128 key d"
    by (rule rfc2104_cong) (use assms sha384.length_H in \<open>simp_all add: big_hash sha2_sizes\<close>)
  then show ?thesis by (simp add: sha384_ct.cbc_mac_fun_def sha2_sizes)
qed

lemma rfc5246_cbc_open_cong:
  assumes "\<And>d. length d < 2 ^ 32 \<Longrightarrow> mac d = mac' d" "\<And>k. length (header k) = 13" "length frag < 2 ^ 20"
  shows "rfc5246_cbc_open mac M header frag = rfc5246_cbc_open mac' M header frag"
proof -
  have "mac (header k @ take l frag) = mac' (header k @ take l frag)" for k l using assms by (intro assms(1)) simp
  then show ?thesis by (simp add: rfc5246_cbc_open_def Let_def)
qed

lemma sha384_decrypt_open:
  "\<forall>cc key M m data n P iv' off.
      cbc_mac cc = br_hmac_key_init br_sha384_vtable key \<and> length key < 2 ^ 64 \<and> cbc_mac_len cc = M \<and> 0 < M \<and> M \<le> 48
      \<and> cbc_run (cbc_bc cc) (cbc_key cc) (cbc_iv cc) (load m data n) = (P, iv') \<and> length P = n
      \<and> off = (if cbc_explicit_IV cc then cbc_block_size (cbc_bc cc) else 0) \<and> off + M + 1 \<le> n \<and> n < 2 ^ 20 \<longrightarrow>
      cbc_decrypt cc rt ver m data n = (cc\<lparr>cbc_iv := iv', cbc_seq := cbc_seq cc + 1\<rparr>, store m data P,
        map_option (\<lambda>c. (data + off, length c))
          (rfc5246_cbc_open (\<lambda>d. take M (rfc2104 (fips_sha sha512_fun IV384 48) 128 key d)) M
            (\<lambda>k. cbc_header (cbc_seq cc) rt ver (of_nat k)) (drop off P)))"
proof (intro allI impI, elim conjE)
  fix cc :: "u64 hash_ctx cbc_ctx" and key M m data n P iv' off
  assume a: "cbc_mac cc = br_hmac_key_init br_sha384_vtable key" "length key < 2 ^ 64" "cbc_mac_len cc = M" "0 < M" "M \<le> 48"
    "cbc_run (cbc_bc cc) (cbc_key cc) (cbc_iv cc) (load m data n) = (P, iv')" "length P = n"
    "off = (if cbc_explicit_IV cc then cbc_block_size (cbc_bc cc) else 0)" "off + M + 1 \<le> n" "n < 2 ^ 20"
  have "rfc5246_cbc_open (sha384_ct.cbc_mac_fun key M) M (\<lambda>k. cbc_header (cbc_seq cc) rt ver (of_nat k)) (drop off P)
    = rfc5246_cbc_open (\<lambda>d. take M (rfc2104 (fips_sha sha512_fun IV384 48) 128 key d)) M
            (\<lambda>k. cbc_header (cbc_seq cc) rt ver (of_nat k)) (drop off P)"
    by (rule rfc5246_cbc_open_cong) (use a sha384_mac_fun [OF a(2)] in \<open>simp_all add: cbc_header_def\<close>)
  with sha384_ct.cbc_decrypt_open [OF _ a(3,4) _ a(6-10), of key rt ver] sha384.key_init [of key] a(1,5)
  show "cbc_decrypt cc rt ver m data n = (cc\<lparr>cbc_iv := iv', cbc_seq := cbc_seq cc + 1\<rparr>, store m data P,
        map_option (\<lambda>c. (data + off, length c))
          (rfc5246_cbc_open (\<lambda>d. take M (rfc2104 (fips_sha sha512_fun IV384 48) 128 key d)) M
            (\<lambda>k. cbc_header (cbc_seq cc) rt ver (of_nat k)) (drop off P)))"
    by (simp add: sha2_sizes)
qed

text \<open>
  C7. A CBC record is accepted exactly if RFC 5246 accepts it, and no branch of the code is needed to
  find out: for every decrypted fragment with room for a MAC and a padding byte, \<open>cbc_decrypt\<close> (which
  computes with flags and cyclic arrays) delivers the content if the padding bytes all have the value
  of the last byte, the MAC before them is HMAC over sequence number, header and content, and the
  content has at most 16384 bytes; otherwise it reports an error. In both cases the sequence
  number and the chaining vector move on. This holds for HMAC with MD5, SHA-1 and SHA-256, and for HMAC with
  SHA-384 and keys that SHA-384 can hash.
\<close>

theorem cbc_decrypt_is_rfc5246:
  assumes "(dig, H, h) \<in> cbc_digests" "cbc_mac cc = br_hmac_key_init dig key" "cbc_mac_len cc = M" "0 < M" "M \<le> h"
    and "cbc_run (cbc_bc cc) (cbc_key cc) (cbc_iv cc) (load m data n) = (P, iv')" "length P = n"
    and "off = (if cbc_explicit_IV cc then cbc_block_size (cbc_bc cc) else 0)" "off + M + 1 \<le> n" "n < 2 ^ 20"
  shows "cbc_decrypt cc rt ver m data n = (cc\<lparr>cbc_iv := iv', cbc_seq := cbc_seq cc + 1\<rparr>, store m data P,
    map_option (\<lambda>c. (data + off, length c))
      (rfc5246_cbc_open (\<lambda>d. take M (rfc2104 H 64 key d)) M (\<lambda>k. cbc_header (cbc_seq cc) rt ver (of_nat k)) (drop off P)))
   \<and> (\<forall>cc key M m data n P iv' off.
      cbc_mac cc = br_hmac_key_init br_sha384_vtable key \<and> length key < 2 ^ 64 \<and> cbc_mac_len cc = M \<and> 0 < M \<and> M \<le> 48
      \<and> cbc_run (cbc_bc cc) (cbc_key cc) (cbc_iv cc) (load m data n) = (P, iv') \<and> length P = n
      \<and> off = (if cbc_explicit_IV cc then cbc_block_size (cbc_bc cc) else 0) \<and> off + M + 1 \<le> n \<and> n < 2 ^ 20 \<longrightarrow>
      cbc_decrypt cc rt ver m data n = (cc\<lparr>cbc_iv := iv', cbc_seq := cbc_seq cc + 1\<rparr>, store m data P,
        map_option (\<lambda>c. (data + off, length c))
          (rfc5246_cbc_open (\<lambda>d. take M (rfc2104 (fips_sha sha512_fun IV384 48) 128 key d)) M
            (\<lambda>k. cbc_header (cbc_seq cc) rt ver (of_nat k)) (drop off P))))"
proof
  show "cbc_decrypt cc rt ver m data n = (cc\<lparr>cbc_iv := iv', cbc_seq := cbc_seq cc + 1\<rparr>, store m data P,
    map_option (\<lambda>c. (data + off, length c))
      (rfc5246_cbc_open (\<lambda>d. take M (rfc2104 H 64 key d)) M (\<lambda>k. cbc_header (cbc_seq cc) rt ver (of_nat k)) (drop off P)))"
    using assms md5.key_init [of key] sha1.key_init [of key] sha256.key_init [of key]
      md5_ct.cbc_decrypt_open [of cc key M m data n P iv' off rt ver] sha1_ct.cbc_decrypt_open [of cc key M m data n P iv' off rt ver]
      sha256_ct.cbc_decrypt_open [of cc key M m data n P iv' off rt ver]
    by (auto simp: cbc_mac_specs md5_sizes sha1_sizes sha2_sizes)
next
  show "\<forall>cc key M m data n P iv' off.
      cbc_mac cc = br_hmac_key_init br_sha384_vtable key \<and> length key < 2 ^ 64 \<and> cbc_mac_len cc = M \<and> 0 < M \<and> M \<le> 48
      \<and> cbc_run (cbc_bc cc) (cbc_key cc) (cbc_iv cc) (load m data n) = (P, iv') \<and> length P = n
      \<and> off = (if cbc_explicit_IV cc then cbc_block_size (cbc_bc cc) else 0) \<and> off + M + 1 \<le> n \<and> n < 2 ^ 20 \<longrightarrow>
      cbc_decrypt cc rt ver m data n = (cc\<lparr>cbc_iv := iv', cbc_seq := cbc_seq cc + 1\<rparr>, store m data P,
        map_option (\<lambda>c. (data + off, length c))
          (rfc5246_cbc_open (\<lambda>d. take M (rfc2104 (fips_sha sha512_fun IV384 48) 128 key d)) M
            (\<lambda>k. cbc_header (cbc_seq cc) rt ver (of_nat k)) (drop off P)))"
    by (rule sha384_decrypt_open)
qed

text \<open>A concrete cipher for the examples: every byte is combined with the first byte of the key.\<close>

definition xor_cipher :: cbc_class where
  "xor_cipher = \<lparr>cbc_block_size = 16, cbc_run = (\<lambda>k iv d. (map (\<lambda>x. x XOR hd k) d, iv))\<rparr>"

theorem cbc_decrypt_is_rfc5246_witness:
  "cbc_decrypt (in_cbc_init xor_cipher [3] br_sha1_vtable (replicate 20 9) 20 None) 23 0x0303 (\<lambda>_. 5) 100 64
    = ((in_cbc_init xor_cipher [3] br_sha1_vtable (replicate 20 9) 20 None)\<lparr>cbc_iv := replicate 16 0, cbc_seq := 1\<rparr>,
       store (\<lambda>_. 5) 100 (replicate 64 6),
       map_option (\<lambda>c. (116, length c)) (rfc5246_cbc_open (\<lambda>d. take 20 (rfc2104 fips_sha1 64 (replicate 20 9) d)) 20
         (\<lambda>k. cbc_header 0 23 0x0303 (of_nat k)) (replicate 48 6)))"
proof -
  let ?cc = "in_cbc_init xor_cipher [3] br_sha1_vtable (replicate 20 9) 20 None"
  have l: "load (\<lambda>_. 5) 100 64 = (replicate 64 5 :: byte list)" by (rule load_eqI) simp_all
  have x: "map (\<lambda>x. x XOR 3) (replicate 64 5) = (replicate 64 6 :: byte list)" by (simp add: map_replicate)
  have f: "cbc_mac ?cc = br_hmac_key_init br_sha1_vtable (replicate 20 9)" "cbc_mac_len ?cc = 20" "cbc_seq ?cc = 0"
      "16 = (if cbc_explicit_IV ?cc then cbc_block_size (cbc_bc ?cc) else 0)"
    by (simp_all add: in_cbc_init_def xor_cipher_def)
  have r: "cbc_run (cbc_bc ?cc) (cbc_key ?cc) (cbc_iv ?cc) (load (\<lambda>_. 5) 100 64) = (replicate 64 6, replicate 16 0)"
    unfolding l by (simp add: in_cbc_init_def xor_cipher_def x)
  have "drop 16 (replicate 64 6) = (replicate 48 6 :: byte list)" "(100 :: nat) + 16 = 116" "(0 :: u64) + 1 = 1" by simp_all
  with cbc_decrypt_is_rfc5246 [where dig = br_sha1_vtable and H = fips_sha1 and h = 20, OF _ f(1,2) _ _ r _ f(4), of 23 "0x0303"]
  show ?thesis unfolding f(3) by simp
qed

text \<open>
  C6. CBC records round-trip. The contexts that \<open>out_cbc_init\<close> and \<open>in_cbc_init\<close> make from the same keys are
  linked; and for linked contexts, what \<open>cbc_encrypt\<close> assembles from up to 16384 bytes at \<open>buf\<close> is one record, or
  two for application data of more than one byte without explicit vectors (the split against chosen
  plaintexts of TLS 1.0), which stand one after the other in memory, pass the receiver's length check
  and are decrypted to the bytes given; and the contexts are linked again. The block cipher is
  assumed to be a pair of inverse CBC functions. This holds for HMAC with MD5, SHA-1 and SHA-256, and for HMAC
  with SHA-384.
\<close>

theorem cbc_round_trip:
  assumes "(dig, H, h) \<in> cbc_digests" "cbc_linked co ci" "cbc_mac co = br_hmac_key_init dig key" "cbc_mac_len co = M" "0 < M" "M \<le> h"
    and "len \<le> 16384" "blen = cbc_block_size (cbc_bc co)" "5 + (if cbc_explicit_IV co then blen else 4 + sz_blocks (M + blen + 1) blen) \<le> buf"
  shows "(case cbc_encrypt co rt ver m buf len of (co', m', q, n) \<Rightarrow>
    \<exists>ci' cs. cbc_records (if \<not> cbc_explicit_IV co \<and> 1 < len \<and> rt = 23 then 2 else 1) ci rt ver m' q = (ci', q + n, Some cs)
      \<and> concat cs = load m buf len \<and> cbc_linked co' ci')
   \<and> (\<forall>co ci key M blen buf.
      cbc_linked co ci \<and> cbc_mac co = br_hmac_key_init br_sha384_vtable key \<and> cbc_mac_len co = M \<and> 0 < M \<and> M \<le> 48
      \<and> blen = cbc_block_size (cbc_bc co) \<and> 5 + (if cbc_explicit_IV co then blen else 4 + sz_blocks (M + blen + 1) blen) \<le> buf \<longrightarrow>
      (case cbc_encrypt co rt ver m buf len of (co', m', q, n) \<Rightarrow>
        \<exists>ci' cs. cbc_records (if \<not> cbc_explicit_IV co \<and> 1 < len \<and> rt = 23 then 2 else 1) ci rt ver m' q = (ci', q + n, Some cs)
          \<and> concat cs = load m buf len \<and> cbc_linked co' ci'))"
proof (intro conjI allI impI, goal_cases)
  case 1
  obtain co' m' q n where e: "cbc_encrypt co rt ver m buf len = (co', m', q, n)" by (metis prod_cases4)
  have b: "cbc_block_size (cbc_bc co) \<le> 16" using assms(2) by (auto simp: cbc_linked_def cbc_pair_def)
  show ?case
    using assms b md5.key_init [of key] sha1.key_init [of key] sha256.key_init [of key]
      md5_ct.cbc_encrypt_received [OF assms(2) _ assms(4,5) _ _ assms(7) _ e, of key] sha1_ct.cbc_encrypt_received [OF assms(2) _ assms(4,5) _ _ assms(7) _ e, of key]
      sha256_ct.cbc_encrypt_received [OF assms(2) _ assms(4,5) _ _ assms(7) _ e, of key]
    by (auto simp: md5_sizes sha1_sizes sha2_sizes e)
next
  case (2 co ci key M blen buf)
  then have a: "cbc_linked co ci" "cbc_mac co = br_hmac_key_init br_sha384_vtable key" "cbc_mac_len co = M" "0 < M" "M \<le> 48"
    "blen = cbc_block_size (cbc_bc co)" "5 + (if cbc_explicit_IV co then blen else 4 + sz_blocks (M + blen + 1) blen) \<le> buf" by simp_all
  obtain co' m' q n where e: "cbc_encrypt co rt ver m buf len = (co', m', q, n)" by (metis prod_cases4)
  have b: "cbc_block_size (cbc_bc co) \<le> 16" using a(1) by (auto simp: cbc_linked_def cbc_pair_def)
  have "\<exists>ci' cs. cbc_records (if \<not> cbc_explicit_IV co \<and> 1 < len \<and> rt = 23 then 2 else 1) ci rt ver m' q = (ci', q + n, Some cs)
      \<and> concat cs = load m buf len \<and> cbc_linked co' ci'"
    by (rule sha384_ct.cbc_encrypt_received [OF a(1) _ a(3,4) _ _ assms(7) _ e, of key])
      (use a b sha384.key_init [of key] in \<open>simp_all only: sha2_sizes\<close>, linarith?)
  then show ?case unfolding e prod.case .
qed

lemma xor_cipher_pair: "cbc_pair xor_cipher xor_cipher k"
  by (simp add: cbc_pair_def xor_cipher_def comp_def xor.assoc)

lemma cbc_init_linked:
  "cbc_pair be bd k \<Longrightarrow> cbc_linked (out_cbc_init be k dig mk M iv) (in_cbc_init bd k dig mk M iv)"
  by (auto simp: cbc_linked_def out_cbc_init_def in_cbc_init_def cbc_pair_def split: option.splits)

theorem cbc_round_trip_witness:
  "(case cbc_encrypt (out_cbc_init xor_cipher [3] br_sha1_vtable [1] 20 (Some (replicate 16 0))) 23 0x0301 (\<lambda>a. of_nat a) 1000 7 of (co', m', q, n) \<Rightarrow>
    \<exists>ci' cs. cbc_records 2 (in_cbc_init xor_cipher [3] br_sha1_vtable [1] 20 (Some (replicate 16 0))) 23 0x0301 m' q = (ci', q + n, Some cs)
      \<and> concat cs = load (\<lambda>a. of_nat a) 1000 7 \<and> cbc_linked co' ci')
   \<and> (case cbc_encrypt (out_cbc_init xor_cipher [3] br_sha384_vtable [1] 48 None) 23 0x0301 (\<lambda>a. of_nat a) 1000 7 of (co', m', q, n) \<Rightarrow>
    \<exists>ci' cs. cbc_records 1 (in_cbc_init xor_cipher [3] br_sha384_vtable [1] 48 None) 23 0x0301 m' q = (ci', q + n, Some cs)
      \<and> concat cs = load (\<lambda>a. of_nat a) 1000 7 \<and> cbc_linked co' ci')"
proof -
  let ?s = "out_cbc_init xor_cipher [3] br_sha1_vtable [1] 20 (Some (replicate 16 0))"
  let ?o = "out_cbc_init xor_cipher [3] br_sha384_vtable [1] 48 None" and ?i = "in_cbc_init xor_cipher [3] br_sha384_vtable [1] 48 None"
  have z: "sz_blocks 37 16 = 32" using sz_power(1) [of 37 4] by simp
  have p: "(br_sha1_vtable, fips_sha1, 20) \<in> cbc_digests" "cbc_mac ?s = br_hmac_key_init br_sha1_vtable [1]" "cbc_mac_len ?s = 20"
      "0 < (20 :: nat)" "20 \<le> (20 :: nat)" "7 \<le> (16384 :: nat)" "16 = cbc_block_size (cbc_bc ?s)"
      "5 + (if cbc_explicit_IV ?s then 16 else 4 + sz_blocks (20 + 16 + 1) 16) \<le> 1000" "\<not> cbc_explicit_IV ?s"
    using z by (simp_all add: out_cbc_init_def xor_cipher_def)
  note t = cbc_round_trip [OF p(1) cbc_init_linked [OF xor_cipher_pair] p(2-8), of 23 "0x0301" "\<lambda>a. of_nat a"]
  have q: "cbc_linked ?o ?i \<and> cbc_mac ?o = br_hmac_key_init br_sha384_vtable [1] \<and> cbc_mac_len ?o = 48 \<and> 0 < (48 :: nat) \<and> 48 \<le> (48 :: nat)
      \<and> 16 = cbc_block_size (cbc_bc ?o) \<and> 5 + (if cbc_explicit_IV ?o then 16 else 4 + sz_blocks (48 + 16 + 1) 16) \<le> 1000" "cbc_explicit_IV ?o"
    using cbc_init_linked [OF xor_cipher_pair, of "[3]" br_sha384_vtable "[1]" 48 None] by (simp_all add: out_cbc_init_def xor_cipher_def)
  show ?thesis using t [THEN conjunct1] p(9) t [THEN conjunct2, rule_format, OF q(1)] q(2) by (simp only: simp_thms if_True if_False) simp
qed

section \<open>Room\<close>

lemma cbc_record_extent:
  assumes "cbc_block_size (cbc_bc cc) = 8 \<or> cbc_block_size (cbc_bc cc) = 16" "cbc_mac_len cc \<le> 64" "len < 2 ^ 32"
    and rec: "cbc_record cc rt ver m buf len = (cc', m', q, n)"
  shows "q = buf - (if cbc_explicit_IV cc then cbc_block_size (cbc_bc cc) else 0)"
    and "n = (if cbc_explicit_IV cc then cbc_block_size (cbc_bc cc) else 0)
      + (len + cbc_mac_len cc + (cbc_block_size (cbc_bc cc) - (len + cbc_mac_len cc) mod cbc_block_size (cbc_bc cc)))"
    and "cbc_bc cc' = cbc_bc cc" "cbc_mac_len cc' = cbc_mac_len cc" "cbc_explicit_IV cc' = cbc_explicit_IV cc"
proof -
  obtain j where j: "cbc_block_size (cbc_bc cc) = 2 ^ j" "j \<le> 6" using assms(1) by (elim disjE) (rule that [of 3] that [of 4]; simp)+
  have l: "sz_low (len + cbc_mac_len cc) (cbc_block_size (cbc_bc cc)) = (len + cbc_mac_len cc) mod cbc_block_size (cbc_bc cc)"
    using sz_power(2) [of "len + cbc_mac_len cc" j] j assms(2,3) by simp
  show "q = buf - (if cbc_explicit_IV cc then cbc_block_size (cbc_bc cc) else 0)"
    and "n = (if cbc_explicit_IV cc then cbc_block_size (cbc_bc cc) else 0)
      + (len + cbc_mac_len cc + (cbc_block_size (cbc_bc cc) - (len + cbc_mac_len cc) mod cbc_block_size (cbc_bc cc)))"
    and "cbc_bc cc' = cbc_bc cc" "cbc_mac_len cc' = cbc_mac_len cc" "cbc_explicit_IV cc' = cbc_explicit_IV cc"
    using rec unfolding cbc_record_def Let_def by (auto simp: l split: prod.splits if_splits)
qed

lemma padded_fits:
  assumes "0 < b" "n < k * b"
  shows "n + (b - n mod b) \<le> k * (b :: nat)"
proof -
  have "n div b < k" using assms by (simp add: div_less_iff_less_mult)
  then have "(n div b + 1) * b \<le> k * b" by (intro mult_le_mono1) simp
  moreover have "n div b * b + n mod b = n" by (rule div_mult_mod_eq)
  moreover have "n mod b < b" using assms(1) by simp
  moreover have "(n div b + 1) * b = n div b * b + b" by simp
  ultimately show ?thesis by linarith
qed

text \<open>
  C25. The room that \<open>cbc_max_plaintext\<close> reports is enough, up to one byte: for any payload within it,
  the records that \<open>cbc_encrypt\<close> assembles start at or after the five header bytes before the slice given
  and end within it; only with the split of TLS 1.0, which moves the second record by one byte, may
  they end one byte after it. (The engine passes a slice that ends five bytes before the end of its
  buffer, so that the byte is still inside.)
\<close>

theorem cbc_room:
  assumes b: "cbc_block_size (cbc_bc cc) = 8 \<or> cbc_block_size (cbc_bc cc) = 16" and M: "cbc_mac_len cc \<le> 64"
    and ae: "5 \<le> a" "a + 512 \<le> e" "e < 2 ^ 32" and mp: "cbc_max_plaintext cc a e = (s, t)" and len: "s + len \<le> t"
    and enc: "cbc_encrypt cc rt ver m s len = (cc', m', q, n)"
  shows "t \<le> s + 16384 \<and> a - 5 \<le> q \<and> q + n \<le> e + (if \<not> cbc_explicit_IV cc \<and> 1 < len \<and> rt = 23 then 1 else 0)"
proof -
  let ?b = "cbc_block_size (cbc_bc cc)" and ?M = "cbc_mac_len cc"
  obtain j where j: "?b = 2 ^ j" "j \<le> 6" using b by (elim disjE) (rule that [of 3] that [of 4]; simp)+
  have sz: "sz_blocks x ?b = x div ?b * ?b" if "x < 2 ^ 64" for x using sz_power(1) [of x j] j that by simp
  define X where "X = sz_blocks (?M + ?b + 1) ?b"
  have X: "X \<le> ?M + ?b + 1" using sz [of "?M + ?b + 1"] M b by (auto simp: X_def)
  define s0 where "s0 = a + (if cbc_explicit_IV cc then ?b else 4 + X)"
  have s0: "s0 \<le> a + 101" "a + 8 \<le> s0 \<or> a + 4 \<le> s0" using X M b by (auto simp: s0_def)
  define k where "k = (e - s0) div ?b"
  have kb: "k * ?b \<le> e - s0" "e - s0 < k * ?b + ?b"
  proof -
    have "k * ?b + (e - s0) mod ?b = e - s0" unfolding k_def by (rule div_mult_mod_eq)
    moreover have "(e - s0) mod ?b < ?b" using j by simp
    ultimately show "k * ?b \<le> e - s0" "e - s0 < k * ?b + ?b" by linarith+
  qed
  have km: "1 + ?M \<le> k * ?b" using kb(2) s0 ae(2) M b by auto
  have "cbc_max_plaintext cc a e = (s0, s0 + min 16384 (k * ?b - (1 + ?M)))"
  proof -
    have s: "(if cbc_explicit_IV cc then sz_add a ?b else sz_add a (4 + X)) = s0" using X M b ae s0 by (auto simp: s0_def sz_simps)
    have l: "sz_blocks (sz_sub e s0) ?b = k * ?b" using sz [of "e - s0"] ae s0 by (simp add: sz_simps k_def)
    have "sz_sub (k * ?b) (1 + ?M) = k * ?b - (1 + ?M)" using km kb(1) ae by (intro sz_sub_exact) simp_all
    moreover have "sz_add s0 (min 16384 (k * ?b - (1 + ?M))) = s0 + min 16384 (k * ?b - (1 + ?M))"
      using s0 ae by (intro sz_add_exact) simp
    ultimately show ?thesis unfolding cbc_max_plaintext_def Let_def X_def [symmetric] s l by (auto simp: min_def)
  qed
  with mp have st: "s = s0" "t = s + min 16384 (k * ?b - (1 + ?M))" by auto
  have fit: "len + ?M < k * ?b" "len \<le> 16384" using len st(2) km by auto
  have end': "s + k * ?b \<le> e" using kb(1) st(1) s0 ae by simp
  have b0: "0 < ?b" using b by auto
  note ext = cbc_record_extent [OF b M]
  have "a - 5 \<le> q \<and> q + n \<le> e + (if \<not> cbc_explicit_IV cc \<and> 1 < len \<and> rt = 23 then 1 else 0)"
  proof (cases "\<not> cbc_explicit_IV cc \<and> 1 < len \<and> rt = 23")
    case True
    obtain c1 m1 q1 n1 where e1: "cbc_record cc rt ver (store m (s - 4 - X) [m s]) (s - 4 - X) 1 = (c1, m1, q1, n1)" by (metis prod_cases4)
    obtain q2 n2 where e2: "cbc_record c1 rt ver m1 (s + 1) (len - 1) = (cc', m', q2, n2)" "q = s - 4 - X - 5" "n = q2 + n2 - q"
      using enc True e1 unfolding cbc_encrypt_def Let_def X_def [symmetric] by (auto split: prod.splits)
    have x1: "cbc_bc c1 = cbc_bc cc" "cbc_mac_len c1 = ?M" "cbc_explicit_IV c1 = cbc_explicit_IV cc" using ext(3-5) [OF _ e1] by simp_all
    from cbc_record_extent(1,2) [OF _ _ _ e2(1)] b M fit(2) True x1
    have x2: "q2 = s + 1" "n2 = len - 1 + ?M + (?b - (len - 1 + ?M) mod ?b)" by simp_all
    have "n2 \<le> k * ?b" unfolding x2(2) using fit(1) by (intro padded_fits b0) simp
    then show ?thesis using e2(2,3) x2(1) end' True st(1) by (simp add: s0_def)
  next
    case False
    then obtain m1 q1 n1 where e1: "cbc_record cc rt ver m1 s len = (cc', m', q1, n1)"
        "q = s - (if cbc_explicit_IV cc then ?b else 0) - 5" "n = q1 + n1 - q"
      using enc unfolding cbc_encrypt_def Let_def by (auto split: prod.splits if_splits)
    have x: "q1 = s - (if cbc_explicit_IV cc then ?b else 0)"
        "n1 = (if cbc_explicit_IV cc then ?b else 0) + (len + ?M + (?b - (len + ?M) mod ?b))"
      using ext(1,2) [OF _ e1(1)] fit(2) by simp_all
    have "len + ?M + (?b - (len + ?M) mod ?b) \<le> k * ?b" using fit(1) by (intro padded_fits b0)
    then have "q1 + n1 \<le> e" using x end' st(1) by (simp add: s0_def split: if_splits)
    moreover have "q + n = q1 + n1" using e1(2,3) x(1) by simp
    moreover have "a - 5 \<le> q" using e1(2) st(1) by (simp add: s0_def split: if_splits)
    ultimately show ?thesis by simp
  qed
  then show ?thesis using st(2) by simp
qed

text \<open>HMAC-SHA-1 and 16-byte blocks, a slice of 608 bytes: the second record ends one byte after it.\<close>

theorem cbc_room_witness:
  "cbc_max_plaintext (out_cbc_init xor_cipher [3] br_sha1_vtable [1] 20 (Some (replicate 16 0))) 5 617 = (41, 596)
   \<and> (case cbc_encrypt (out_cbc_init xor_cipher [3] br_sha1_vtable [1] 20 (Some (replicate 16 0))) 23 0x0301 (\<lambda>_. 0) 41 555 of
        (cc', m', q, n) \<Rightarrow> q + n \<le> 617 + 1 \<and> q + n = 618)"
proof -
  define cc where "cc = out_cbc_init xor_cipher [3] br_sha1_vtable [1] 20 (Some (replicate 16 0))"
  define m :: mem where "m = (\<lambda>_. 0)"
  obtain cc' m' q n where r: "cbc_encrypt cc 23 0x0301 m 41 555 = (cc', m', q, n)" by (metis prod_cases4)
  have f: "cbc_block_size (cbc_bc cc) = 16" "cbc_mac_len cc = 20" "\<not> cbc_explicit_IV cc" by (simp_all add: cc_def out_cbc_init_def xor_cipher_def)
  have z: "sz_blocks 37 16 = 32" "sz_blocks 576 16 = 576" using sz_power(1) [of 37 4] sz_power(1) [of 576 4] by simp_all
  have mp: "cbc_max_plaintext cc 5 617 = (41, 596)"
    using z by (simp add: cbc_max_plaintext_def Let_def f sz_simps)
  have le: "q + n \<le> 618" using cbc_room [OF _ _ _ _ _ mp _ r] f by simp
  obtain c1 m1 q1 n1 where e1: "cbc_record cc 23 0x0301 (store m 5 [m 41]) 5 1 = (c1, m1, q1, n1)" by (metis prod_cases4)
  obtain q2 n2 where e2: "cbc_record c1 23 0x0301 m1 42 554 = (cc', m', q2, n2)" "q = 0" "n = q2 + n2 - q"
    using r e1 z f unfolding cbc_encrypt_def Let_def by (auto split: prod.splits)
  have x: "cbc_bc c1 = cbc_bc cc" "cbc_mac_len c1 = 20" "\<not> cbc_explicit_IV c1" using cbc_record_extent(3-5) [OF _ _ _ e1] f by simp_all
  have "q2 = 42" "n2 = 576" using cbc_record_extent(1,2) [OF _ _ _ e2(1)] x f by simp_all
  then show ?thesis using mp le r e2 unfolding cc_def [symmetric] m_def [symmetric] by simp
qed

end
