(* ===== verification/Bigint.thy ===== *)
theory Bigint
  imports Ct_Prims
begin

text \<open>
  Big integers in words of 31 bits (\<^verbatim>\<open>int/i31_*.c\<close>): the representation, addition, subtraction,
  comparison with zero, bit length and shift. An array is a list of 32-bit words; word 0 is the
  encoded bit length, the words after it hold the value, 31 bits each, least significant first;
  words beyond the encoded length are kept as they are. \<open>arr h x\<close> says that \<open>x\<close> is a proper integer
  with header \<open>h\<close>, and \<open>val x\<close> is the number it stands for.
\<close>

unbundle bit_operations_syntax

section \<open>The code\<close>

definition MUL31 :: "u32 \<Rightarrow> u32 \<Rightarrow> u64" where "MUL31 x y = ucast x * ucast y"
definition MUL31_lo :: "u32 \<Rightarrow> u32 \<Rightarrow> u32" where "MUL31_lo x y = (x * y) AND 0x7FFFFFFF"

definition BIT_LENGTH :: "u32 \<Rightarrow> u32" where
  "BIT_LENGTH x =
     (let k = NEQ x 0;
          c = GT x 0xFFFF; x = MUX c (drop_bit 16 x) x; k = k + push_bit 4 c;
          c = GT x 0x00FF; x = MUX c (drop_bit 8 x) x; k = k + push_bit 3 c;
          c = GT x 0x000F; x = MUX c (drop_bit 4 x) x; k = k + push_bit 2 c;
          c = GT x 0x0003; x = MUX c (drop_bit 2 x) x; k = k + push_bit 1 c
      in k + GT x 0x0001)"

text \<open>The number of value words of an array with header \<open>h\<close>, and the value words themselves.\<close>

definition nwords :: "u32 \<Rightarrow> nat" where "nwords h = unat (drop_bit 5 (h + 31))"

definition words :: "nat \<Rightarrow> u32 list \<Rightarrow> u32 list" where "words n x = take n (drop 1 x)"

definition set_words :: "u32 list \<Rightarrow> u32 list \<Rightarrow> u32 list" where
  "set_words ws x = x ! 0 # ws @ drop (1 + length ws) x"

definition br_i31_zero :: "u32 list \<Rightarrow> u32 \<Rightarrow> u32 list" where
  "br_i31_zero x bit_len = bit_len # replicate (nwords bit_len) 0 @ drop (1 + nwords bit_len) x"

text \<open>The loops over the words \<open>1 \<le> u < m\<close> of two arrays.\<close>

fun i31_add_loop :: "u32 \<Rightarrow> u32 \<Rightarrow> u32 list \<Rightarrow> u32 list \<Rightarrow> u32 \<times> u32 list" where
  "i31_add_loop ctl cc (aw # as) (bw # bs) =
     (let naw = aw + bw + cc;
          (cc, r) = i31_add_loop ctl (drop_bit 31 naw) as bs
      in (cc, MUX ctl (naw AND 0x7FFFFFFF) aw # r))"
| "i31_add_loop ctl cc _ _ = (cc, [])"

definition br_i31_add :: "u32 list \<Rightarrow> u32 list \<Rightarrow> u32 \<Rightarrow> u32 \<times> u32 list" where
  "br_i31_add a b ctl =
     (let m = unat (drop_bit 5 (a ! 0 + 63));
          (cc, r) = i31_add_loop ctl 0 (words (m - 1) a) (words (m - 1) b)
      in (cc, set_words r a))"

fun i31_sub_loop :: "u32 \<Rightarrow> u32 \<Rightarrow> u32 list \<Rightarrow> u32 list \<Rightarrow> u32 \<times> u32 list" where
  "i31_sub_loop ctl cc (aw # as) (bw # bs) =
     (let naw = aw - bw - cc;
          (cc, r) = i31_sub_loop ctl (drop_bit 31 naw) as bs
      in (cc, MUX ctl (naw AND 0x7FFFFFFF) aw # r))"
| "i31_sub_loop ctl cc _ _ = (cc, [])"

definition br_i31_sub :: "u32 list \<Rightarrow> u32 list \<Rightarrow> u32 \<Rightarrow> u32 \<times> u32 list" where
  "br_i31_sub a b ctl =
     (let m = unat (drop_bit 5 (a ! 0 + 63));
          (cc, r) = i31_sub_loop ctl 0 (words (m - 1) a) (words (m - 1) b)
      in (cc, set_words r a))"

definition br_i31_ninv31 :: "u32 \<Rightarrow> u32" where
  "br_i31_ninv31 x =
     (let y = 2 - x;
          y = y * (2 - y * x);
          y = y * (2 - y * x);
          y = y * (2 - y * x);
          y = y * (2 - y * x)
      in MUX (x AND 1) (- y) 0 AND 0x7FFFFFFF)"

fun i31_iszero_loop :: "u32 list \<Rightarrow> nat \<Rightarrow> u32 \<Rightarrow> u32" where
  "i31_iszero_loop x 0 z = z"
| "i31_iszero_loop x (Suc u) z = i31_iszero_loop x u (z OR x ! Suc u)"

definition br_i31_iszero :: "u32 list \<Rightarrow> u32" where
  "br_i31_iszero x = (let z = i31_iszero_loop x (nwords (x ! 0)) 0 in drop_bit 31 (NOT (z OR - z)))"

text \<open>\<open>br_i31_bit_length\<close> gets a pointer to the first value word.\<close>

fun i31_bitlen_loop :: "u32 list \<Rightarrow> nat \<Rightarrow> u32 \<Rightarrow> u32 \<Rightarrow> u32 \<times> u32" where
  "i31_bitlen_loop x 0 tw twk = (tw, twk)"
| "i31_bitlen_loop x (Suc xlen) tw twk =
     (let c = EQ tw 0;
          w = x ! xlen
      in i31_bitlen_loop x xlen (MUX c w tw) (MUX c (of_nat xlen) twk))"

definition br_i31_bit_length :: "u32 list \<Rightarrow> nat \<Rightarrow> u32" where
  "br_i31_bit_length x xlen =
     (let (tw, twk) = i31_bitlen_loop x xlen 0 0 in push_bit 5 twk + BIT_LENGTH tw)"

fun i31_rshift_loop :: "nat \<Rightarrow> u32 \<Rightarrow> u32 list \<Rightarrow> u32 list" where
  "i31_rshift_loop count r [] = [r]"
| "i31_rshift_loop count r (w # ws) =
     ((push_bit (31 - count) w OR r) AND 0x7FFFFFFF) # i31_rshift_loop count (drop_bit count w) ws"

definition br_i31_rshift :: "u32 list \<Rightarrow> nat \<Rightarrow> u32 list" where
  "br_i31_rshift x count =
     (let len = nwords (x ! 0) in
      if len = 0 then x
      else set_words (i31_rshift_loop count (drop_bit count (x ! 1)) (drop 1 (words len x))) x)"

section \<open>The numbers the arrays stand for\<close>

primrec ival :: "u32 list \<Rightarrow> nat" where
  "ival [] = 0"
| "ival (w # ws) = unat w + 2 ^ 31 * ival ws"

definition words31 :: "u32 list \<Rightarrow> bool" where "words31 ws \<longleftrightarrow> (\<forall>w \<in> set ws. unat w < 2 ^ 31)"

definition val :: "u32 list \<Rightarrow> nat" where "val x = ival (words (nwords (x ! 0)) x)"

text \<open>The number of bits a header announces: \<open>32 * k + r\<close> stands for \<open>31 * k + r\<close>.\<close>

definition hbits :: "u32 \<Rightarrow> nat" where "hbits h = 31 * (unat h div 32) + unat h mod 32"

definition arr :: "u32 \<Rightarrow> u32 list \<Rightarrow> bool" where
  "arr h x \<longleftrightarrow> x \<noteq> [] \<and> x ! 0 = h \<and> nwords h < length x \<and> words31 (words (nwords h) x) \<and> unat h < 2 ^ 32 - 64"

text \<open>A modulus announces its true bit length.\<close>

definition exact :: "u32 list \<Rightarrow> bool" where
  "exact m \<longleftrightarrow> arr (m ! 0) m \<and> val m < 2 ^ hbits (m ! 0) \<and> 2 ^ hbits (m ! 0) \<le> 2 * val m"

lemma words31_simps [simp]: "words31 []" "words31 (w # ws) \<longleftrightarrow> unat w < 2 ^ 31 \<and> words31 ws"
    "words31 (xs @ ys) \<longleftrightarrow> words31 xs \<and> words31 ys"
  by (auto simp: words31_def)

lemma ival_append: "ival (xs @ ys) = ival xs + 2 ^ (31 * length xs) * ival ys"
  by (induction xs) (simp_all add: power_add algebra_simps)

lemma ival_zeros [simp]: "ival (replicate n 0) = 0" "words31 (replicate n 0)"
  by (induction n) simp_all

lemma ival_less: "words31 ws \<Longrightarrow> ival ws < 2 ^ (31 * length ws)"
proof (induction ws)
  case (Cons w ws)
  then have "unat w < 2 ^ 31" "ival ws + 1 \<le> 2 ^ (31 * length ws)" by simp_all
  then have "unat w + 2 ^ 31 * ival ws < 2 ^ 31 * (ival ws + 1)" "2 ^ 31 * (ival ws + 1) \<le> 2 ^ 31 * 2 ^ (31 * length ws)" by simp_all
  then show ?case by (simp add: power_add)
qed simp

lemma ival_inj: "words31 xs \<Longrightarrow> words31 ys \<Longrightarrow> length xs = length ys \<Longrightarrow> ival xs = ival ys \<Longrightarrow> xs = ys"
proof (induction xs arbitrary: ys)
  case (Cons x xs)
  then obtain y ys' where ys: "ys = y # ys'" by (cases ys) auto
  have "(unat x + 2 ^ 31 * ival xs) mod 2 ^ 31 = (unat y + 2 ^ 31 * ival ys') mod 2 ^ 31"
    "(unat x + 2 ^ 31 * ival xs) div 2 ^ 31 = (unat y + 2 ^ 31 * ival ys') div 2 ^ 31"
    using Cons.prems(4) unfolding ys by simp_all
  then have "unat x = unat y" "ival xs = ival ys'" using Cons.prems(1,2) unfolding ys by simp_all
  then have "x = y" "ival xs = ival ys'" by (simp_all add: word_unat_eq_iff)
  then show ?case using Cons.IH [of ys'] Cons.prems(1-3) unfolding ys by simp
qed simp

lemma length_words: "n < length x \<Longrightarrow> length (words n x) = n"
  by (simp add: words_def)

lemma length_set_words: "length ws < length x \<Longrightarrow> length (set_words ws x) = length x"
  by (simp add: set_words_def)

lemma words_set_words [simp]: "words (length ws) (set_words ws x) = ws" "set_words ws x ! 0 = x ! 0"
    "set_words ws x \<noteq> []"
  by (simp_all add: words_def set_words_def)

lemma drop_set_words: "drop (Suc (length ws)) (set_words ws x) = drop (Suc (length ws)) x"
  by (simp add: set_words_def)

lemma nwords_nat: "unat h < 2 ^ 32 - 64 \<Longrightarrow> nwords h = (unat h + 31) div 32"
  unfolding nwords_def by (subst unat_drop_bit_eq) (simp add: unat_add32 drop_bit_eq_div)

lemma nwords_end: "unat h < 2 ^ 32 - 64 \<Longrightarrow> unat (drop_bit 5 (h + 63)) = Suc (nwords h)"
  unfolding nwords_nat by (subst unat_drop_bit_eq) (simp add: unat_add32 drop_bit_eq_div)

lemma hbits_bounds:
  assumes "unat h < 2 ^ 32 - 64"
  shows "hbits h \<le> 31 * nwords h" "0 < hbits h \<Longrightarrow> 31 * (nwords h - 1) < hbits h" "hbits h = 0 \<longleftrightarrow> h = 0"
proof -
  have d: "unat h = 32 * (unat h div 32) + unat h mod 32" "unat h mod 32 < 32" by simp_all
  have n: "nwords h = (unat h + 31) div 32" by (rule nwords_nat [OF assms])
  show "hbits h \<le> 31 * nwords h" unfolding n hbits_def by (cases "unat h mod 32 = 0") (use d in arith)+
  show "31 * (nwords h - 1) < hbits h" if "0 < hbits h" using that unfolding n hbits_def using d by arith
  show "hbits h = 0 \<longleftrightarrow> h = 0" unfolding hbits_def unat_eq_zero [symmetric] using d by arith
qed

lemma set_words_arr:
  assumes "arr h x" "length ws = nwords h" "words31 ws"
  shows "arr h (set_words ws x)" "val (set_words ws x) = ival ws" "length (set_words ws x) = length x"
proof -
  show l: "length (set_words ws x) = length x" by (rule length_set_words) (use assms in \<open>auto simp: arr_def\<close>)
  have w: "words (nwords h) (set_words ws x) = ws" using assms(2) by (metis words_set_words(1))
  show "arr h (set_words ws x)" using assms l w by (simp add: arr_def)
  show "val (set_words ws x) = ival ws" using w assms(1) by (simp add: val_def arr_def)
qed

lemma arr_words: "arr h x \<Longrightarrow> length (words (nwords h) x) = nwords h" "arr h x \<Longrightarrow> words31 (words (nwords h) x)"
    "arr h x \<Longrightarrow> ival (words (nwords h) x) = val x"
  by (auto simp: arr_def length_words val_def)

lemma set_words_same: "arr h x \<Longrightarrow> set_words (words (nwords h) x) x = x"
  by (cases x) (auto simp: arr_def set_words_def words_def min_def)

lemma val_less: "arr h x \<Longrightarrow> val x < 2 ^ (31 * nwords h)"
  using ival_less [of "words (nwords h) x"] by (simp add: arr_words)

section \<open>Addition and subtraction\<close>

lemma low31: "unat (w AND 0x7FFFFFFF :: u32) = unat w mod 2 ^ 31"
  using and_low(1) [of 31 w] by simp

lemma high31: "unat (drop_bit 31 w :: u32) = unat w div 2 ^ 31"
  by (subst unat_drop_bit_eq) (rule drop_bit_eq_div)

lemma split31: "unat (w AND 0x7FFFFFFF :: u32) + 2 ^ 31 * unat (drop_bit 31 w) = unat w"
    "unat (w AND 0x7FFFFFFF) < 2 ^ 31" "unat (drop_bit 31 w) \<le> 1"
  unfolding low31 high31 using unat_u32 [of w] by (simp_all add: div_le_mono less_mult_imp_div_less, arith?)

lemma borrow31:
  fixes a b c :: u32
  assumes "unat a < 2 ^ 31" "unat b < 2 ^ 31" "unat c \<le> 1"
  shows "unat ((a - b - c) AND 0x7FFFFFFF) + unat b + unat c = unat a + 2 ^ 31 * unat (drop_bit 31 (a - b - c))"
proof (cases "unat b + unat c \<le> unat a")
  case True
  then have "unat (a - b - c) = unat a - (unat b + unat c)" using assms unat_diff [of a b] unat_diff [of "a - b" c] by simp
  then show ?thesis unfolding low31 high31 using assms True by simp
next
  case False
  then have w: "unat (a - b - c) = unat a + 2 ^ 32 - (unat b + unat c)"
    using assms unat_diff [of a b] unat_diff [of "a - b" c] by (auto split: if_splits)
  obtain k where k: "unat b + unat c + k = unat a + 2 ^ 31" using le_Suc_ex [of "unat b + unat c" "unat a + 2 ^ 31"] assms by auto
  then have "unat (a - b - c) = k + 2 ^ 31" "k < 2 ^ 31" using w False by simp_all
  moreover from this have "(k + 2 ^ 31) div 2 ^ 31 = 1" by (simp add: div_nat_eqI)
  ultimately show ?thesis unfolding low31 high31 using k by simp
qed

lemma i31_add_loop_value:
  "length as = length bs \<Longrightarrow> words31 as \<Longrightarrow> words31 bs \<Longrightarrow> unat cc \<le> 1 \<Longrightarrow> i31_add_loop (of_bool t) cc as bs = (c, r) \<Longrightarrow>
    length r = length as \<and> words31 r \<and> unat c \<le> 1 \<and>
    (\<exists>s. words31 s \<and> length s = length as \<and> ival s + 2 ^ (31 * length as) * unat c = ival as + ival bs + unat cc \<and>
      r = (if t then s else as))"
proof (induction "of_bool t :: u32" cc as bs arbitrary: c r rule: i31_add_loop.induct)
  case (1 cc aw as bw bs)
  let ?w = "aw + bw + cc"
  obtain c' r' where r: "i31_add_loop (of_bool t) (drop_bit 31 ?w) as bs = (c', r')" by force
  have eq: "c = c'" "r = MUX (of_bool t) (?w AND 0x7FFFFFFF) aw # r'"
    using "1.prems"(5) r by (simp_all add: Let_def)
  have u: "unat ?w = unat aw + unat bw + unat cc" using "1.prems"(2-4) by (simp add: unat_add32)
  obtain s where s: "length r' = length as" "words31 r'" "unat c' \<le> 1" "words31 s" "length s = length as"
      "ival s + 2 ^ (31 * length as) * unat c' = ival as + ival bs + unat (drop_bit 31 ?w)" "r' = (if t then s else as)"
    using "1.hyps" [OF refl _ _ _ _ r] "1.prems"(1-3) split31(3) [of ?w] by auto
  have "ival ((?w AND 0x7FFFFFFF) # s) + 2 ^ (31 * length (aw # as)) * unat c'
      = unat (?w AND 0x7FFFFFFF) + 2 ^ 31 * (ival s + 2 ^ (31 * length as) * unat c')"
    by (simp add: power_add algebra_simps)
  also have "\<dots> = unat ?w + 2 ^ 31 * (ival as + ival bs)" unfolding s(6) using split31(1) [of ?w] by (simp add: algebra_simps)
  finally have "ival ((?w AND 0x7FFFFFFF) # s) + 2 ^ (31 * length (aw # as)) * unat c' = ival (aw # as) + ival (bw # bs) + unat cc"
    unfolding u by (simp add: algebra_simps)
  moreover have "words31 ((?w AND 0x7FFFFFFF) # s)" using s split31(2) [of ?w] by simp
  moreover have "words31 r" unfolding eq using s "1.prems"(2) split31(2) [of ?w] by simp
  ultimately show ?case using s eq by (intro conjI exI [of _ "(?w AND 0x7FFFFFFF) # s"]) simp_all
qed simp_all

lemma i31_sub_loop_value:
  "length as = length bs \<Longrightarrow> words31 as \<Longrightarrow> words31 bs \<Longrightarrow> unat cc \<le> 1 \<Longrightarrow> i31_sub_loop (of_bool t) cc as bs = (c, r) \<Longrightarrow>
    length r = length as \<and> words31 r \<and> unat c \<le> 1 \<and>
    (\<exists>s. words31 s \<and> length s = length as \<and> ival s + ival bs + unat cc = ival as + 2 ^ (31 * length as) * unat c \<and>
      r = (if t then s else as))"
proof (induction "of_bool t :: u32" cc as bs arbitrary: c r rule: i31_sub_loop.induct)
  case (1 cc aw as bw bs)
  let ?w = "aw - bw - cc"
  obtain c' r' where r: "i31_sub_loop (of_bool t) (drop_bit 31 ?w) as bs = (c', r')" by force
  have eq: "c = c'" "r = MUX (of_bool t) (?w AND 0x7FFFFFFF) aw # r'"
    using "1.prems"(5) r by (simp_all add: Let_def)
  have u: "unat (?w AND 0x7FFFFFFF) + unat bw + unat cc = unat aw + 2 ^ 31 * unat (drop_bit 31 ?w)"
    using borrow31 "1.prems"(2-4) by simp
  obtain s where s: "length r' = length as" "words31 r'" "unat c' \<le> 1" "words31 s" "length s = length as"
      "ival s + ival bs + unat (drop_bit 31 ?w) = ival as + 2 ^ (31 * length as) * unat c'" "r' = (if t then s else as)"
    using "1.hyps" [OF refl _ _ _ _ r] "1.prems"(1-3) split31(3) [of ?w] by auto
  have "ival ((?w AND 0x7FFFFFFF) # s) + ival (bw # bs) + unat cc = unat aw + 2 ^ 31 * (ival s + ival bs + unat (drop_bit 31 ?w))"
    using u by (simp add: algebra_simps)
  also have "\<dots> = ival (aw # as) + 2 ^ (31 * length (aw # as)) * unat c'" unfolding s(6) by (simp add: power_add algebra_simps)
  finally have "ival ((?w AND 0x7FFFFFFF) # s) + ival (bw # bs) + unat cc = ival (aw # as) + 2 ^ (31 * length (aw # as)) * unat c'" .
  moreover have "words31 ((?w AND 0x7FFFFFFF) # s)" using s split31(2) [of ?w] by simp
  moreover have "words31 r" unfolding eq using s "1.prems"(2) split31(2) [of ?w] by simp
  ultimately show ?case using s eq by (intro conjI exI [of _ "(?w AND 0x7FFFFFFF) # s"]) simp_all
qed simp_all

text \<open>The functions: \<open>ctl\<close> decides whether the result is stored, the carry is returned in any case.\<close>

lemma br_i31_add_value:
  assumes "arr h a" "arr h b"
  shows "\<exists>r. br_i31_add a b (of_bool t) = (of_bool (2 ^ (31 * nwords h) \<le> val a + val b), r) \<and> arr h r \<and> length r = length a \<and>
    val r = (if t then (val a + val b) mod 2 ^ (31 * nwords h) else val a) \<and> (\<not> t \<longrightarrow> r = a)"
proof -
  let ?n = "nwords h" and ?W = "2 ^ (31 * nwords h) :: nat"
  have e: "unat (drop_bit 5 (a ! 0 + 63)) - 1 = ?n" using assms(1) nwords_end [of h] by (simp add: arr_def)
  obtain c r where l: "i31_add_loop (of_bool t) 0 (words ?n a) (words ?n b) = (c, r)" by force
  obtain s where s: "length r = ?n" "words31 r" "unat c \<le> 1" "words31 s" "length s = ?n"
      "ival s + ?W * unat c = val a + val b" "r = (if t then s else words ?n a)"
    using i31_add_loop_value [OF _ _ _ _ l] assms by (auto simp: arr_words)
  have "ival s < ?W" using ival_less [OF s(4)] s(5) by simp
  moreover have "unat c = 0 \<or> unat c = 1" using s(3) by auto
  ultimately have "c = of_bool (?W \<le> val a + val b)" "ival s = (val a + val b) mod ?W"
    unfolding s(6) [symmetric] by (auto simp: word_unat_eq_iff)
  then show ?thesis using set_words_arr [OF assms(1) s(1,2)] s(7) l e set_words_same [OF assms(1)] arr_words(3) [OF assms(1)]
    unfolding br_i31_add_def by auto
qed

lemma br_i31_sub_value:
  assumes "arr h a" "arr h b"
  shows "\<exists>r. br_i31_sub a b (of_bool t) = (of_bool (val a < val b), r) \<and> arr h r \<and> length r = length a \<and>
    val r = (if t then if val b \<le> val a then val a - val b else val a + 2 ^ (31 * nwords h) - val b else val a) \<and> (\<not> t \<longrightarrow> r = a)"
proof -
  let ?n = "nwords h" and ?W = "2 ^ (31 * nwords h) :: nat"
  have e: "unat (drop_bit 5 (a ! 0 + 63)) - 1 = ?n" using assms(1) nwords_end [of h] by (simp add: arr_def)
  obtain c r where l: "i31_sub_loop (of_bool t) 0 (words ?n a) (words ?n b) = (c, r)" by force
  obtain s where s: "length r = ?n" "words31 r" "unat c \<le> 1" "words31 s" "length s = ?n"
      "ival s + val b = val a + ?W * unat c" "r = (if t then s else words ?n a)"
    using i31_sub_loop_value [OF _ _ _ _ l] assms by (auto simp: arr_words)
  have "ival s < ?W" "val a < ?W" "val b < ?W" using ival_less [OF s(4)] s(5) val_less assms by auto
  moreover have "unat c = 0 \<or> unat c = 1" using s(3) by auto
  ultimately have "c = of_bool (val a < val b)" "ival s = (if val b \<le> val a then val a - val b else val a + ?W - val b)"
    using s(6) by (auto simp: word_unat_eq_iff)
  then show ?thesis using set_words_arr [OF assms(1) s(1,2)] s(7) l e set_words_same [OF assms(1)] arr_words(3) [OF assms(1)]
    unfolding br_i31_sub_def by auto
qed

section \<open>The inverse of a word\<close>

lemma odd_unat: "odd (unat x) \<longleftrightarrow> odd x" for x :: u32
  using bit_unsigned_iff [of x 0, where ?'a = nat] by (simp add: bit_0)

lemma newton_step: "1 - (y * (2 - y * x)) * x = (1 - y * x) ^ 2" for x y :: u32
  by (simp add: power2_eq_square algebra_simps)

lemma br_i31_ninv31_inverse:
  assumes "odd (unat x)"
  shows "(unat (br_i31_ninv31 x) * unat x + 1) mod 2 ^ 31 = 0" "unat (br_i31_ninv31 x) < 2 ^ 31"
proof -
  define y1 where "y1 = (2 - x) * (2 - (2 - x) * x)"
  define y2 where "y2 = y1 * (2 - y1 * x)"
  define y3 where "y3 = y2 * (2 - y2 * x)"
  define y4 where "y4 = y3 * (2 - y3 * x)"
  have "even (1 - x)" using assms by (simp add: odd_unat) 
  then obtain k where k: "1 - x = 2 * k" by (rule evenE)
  have "1 - (2 - x) * x = (1 - x) ^ 2" by (simp add: power2_eq_square algebra_simps)
  then have "1 - y4 * x = (1 - x) ^ 32"
    by (simp only: y1_def y2_def y3_def y4_def newton_step power_mult [symmetric]) simp
  also have "\<dots> = 2 ^ 32 * k ^ 32" unfolding k by (rule power_mult_distrib)
  also have "(2 :: u32) ^ 32 = 0" by (subst exp_eq_zero_iff) simp
  finally have y: "- y4 * x = - 1" by (simp add: algebra_simps)
  have "x AND 1 = 1" using assms odd_unat [of x] by (simp add: and_one_eq odd_iff_mod_2_eq_one [symmetric])
  then have n: "br_i31_ninv31 x = - y4 AND 0x7FFFFFFF"
    by (simp add: br_i31_ninv31_def Let_def y1_def y2_def y3_def y4_def)
  have "unat (- y4) * unat x mod 2 ^ 32 = unat (- 1 :: u32)" unfolding y [symmetric] by (simp only: unat_word_ariths) simp
  then have "unat (- y4) * unat x mod 2 ^ 32 mod 2 ^ 31 = (2 ^ 31 - 1 :: nat)" using unat_neg [of 1] by simp
  then have "unat (br_i31_ninv31 x) * unat x mod 2 ^ 31 = 2 ^ 31 - 1" unfolding n low31 by (simp add: mod_mod_cancel mod_mult_left_eq)
  then show "(unat (br_i31_ninv31 x) * unat x + 1) mod 2 ^ 31 = 0"
    using mod_add_left_eq [of "unat (br_i31_ninv31 x) * unat x" "2 ^ 31" 1] by simp
  show "unat (br_i31_ninv31 x) < 2 ^ 31" unfolding n low31 by simp
qed

lemma br_i31_ninv31_even: "even (unat x) \<Longrightarrow> br_i31_ninv31 x = 0"
  using odd_unat [of x] by (simp add: br_i31_ninv31_def Let_def and_one_eq even_iff_mod_2_eq_zero)

section \<open>Comparison with zero and bit length\<close>

lemma i31_iszero_loop_zero: "i31_iszero_loop x n z = 0 \<longleftrightarrow> z = 0 \<and> (\<forall>i<n. x ! Suc i = 0)"
  by (induction n arbitrary: z) (auto simp: or_eq_0_iff less_Suc_eq)

lemma ival_0_iff: "ival ws = 0 \<longleftrightarrow> (\<forall>w \<in> set ws. w = 0)"
  by (induction ws) (auto simp: unat_eq_zero)

lemma br_i31_iszero_value: "arr h x \<Longrightarrow> br_i31_iszero x = of_bool (val x = 0)"
proof -
  assume a: "arr h x"
  let ?z = "i31_iszero_loop x (nwords h) 0"
  have "?z = 0 \<longleftrightarrow> (\<forall>i<nwords h. words (nwords h) x ! i = 0)"
    using a by (simp add: i31_iszero_loop_zero words_def arr_def)
  also have "\<dots> \<longleftrightarrow> val x = 0"
    using arr_words [OF a] by (simp add: ival_0_iff all_set_conv_all_nth flip: arr_words(3) [OF a])
  finally have "bit (NOT (?z OR - ?z)) 31 \<longleftrightarrow> val x = 0" using neg_or_high [of ?z] unfolding bit_not_iff by simp
  then show ?thesis using a unfolding br_i31_iszero_def Let_def high_bit by (simp add: arr_def)
qed

fun nbits :: "nat \<Rightarrow> nat" where
  "nbits n = (if n = 0 then 0 else Suc (nbits (n div 2)))"

declare nbits.simps [simp del]

lemma bits_bounds: "n < 2 ^ nbits n" "n \<noteq> 0 \<Longrightarrow> 2 ^ nbits n \<le> 2 * n"
proof (induction n rule: nbits.induct)
  case (1 n)
  { case 1 then show ?case using "1.IH"(1) by (subst nbits.simps) auto }
  { case 2 then show ?case using "1.IH" by (subst nbits.simps) (cases "n div 2 = 0", auto simp: nbits.simps [of 0]) }
qed

lemma bits_shift: "2 ^ s \<le> n \<Longrightarrow> nbits n = nbits (n div 2 ^ s) + s"
proof (induction s arbitrary: n)
  case (Suc s)
  then have "2 ^ s \<le> n div 2" by simp
  moreover from this have "n \<noteq> 0" by (cases "n = 0") simp_all
  ultimately have "2 ^ s \<le> n div 2" "n \<noteq> 0" by simp_all
  then show ?case using Suc.IH [of "n div 2"] by (subst nbits.simps) (simp add: div_mult2_eq)
qed simp

lemma bits_eqI: "n < 2 ^ b \<Longrightarrow> 2 ^ b \<le> 2 * n \<Longrightarrow> nbits n = b"
proof (rule ccontr)
  assume "n < 2 ^ b" "2 ^ b \<le> 2 * n" "nbits n \<noteq> b"
  moreover from this have "n \<noteq> 0" by auto
  ultimately consider "Suc (nbits n) \<le> b" | "Suc b \<le> nbits n" by linarith
  then show False
  proof cases
    case 1
    then have "2 ^ Suc (nbits n) \<le> (2 :: nat) ^ b" by (rule power_increasing) simp
    then show ?thesis using bits_bounds(1) [of n] \<open>2 ^ b \<le> 2 * n\<close> by simp
  next
    case 2
    then have "2 ^ Suc b \<le> (2 :: nat) ^ nbits n" by (rule power_increasing) simp
    then show ?thesis using bits_bounds(2) [OF \<open>n \<noteq> 0\<close>] \<open>n < 2 ^ b\<close> by simp
  qed
qed

lemma BIT_LENGTH_step:
  assumes "s \<le> 16"
  shows "nbits (unat x) = nbits (unat (if of_nat (2 ^ s - 1) < x then drop_bit s x else x)) + (if of_nat (2 ^ s - 1) < x then s else 0)"
    "unat x < 2 ^ (s + s) \<Longrightarrow> unat (if of_nat (2 ^ s - 1) < x then drop_bit s x else x :: u32) < 2 ^ s"
    "(if of_nat (2 ^ s - 1) < x then drop_bit s x else x) = 0 \<longleftrightarrow> x = 0"
proof -
  have p: "(2 :: nat) ^ s \<le> 2 ^ 16" using assms by (intro power_increasing) simp_all
  then have "unat (of_nat (2 ^ s - 1) :: u32) = 2 ^ s - 1" by (subst unat_of_nat) (simp add: take_bit_nat_eq_self)
  moreover have "0 < (2 :: nat) ^ s" by simp
  ultimately have l: "of_nat (2 ^ s - 1) < x \<longleftrightarrow> 2 ^ s \<le> unat x" unfolding word_less_nat_alt by linarith
  have d: "unat (drop_bit s x) = unat x div 2 ^ s" by (subst unat_drop_bit_eq) (rule drop_bit_eq_div)
  show "nbits (unat x) = nbits (unat (if of_nat (2 ^ s - 1) < x then drop_bit s x else x)) + (if of_nat (2 ^ s - 1) < x then s else 0)"
    unfolding l by (simp add: d bits_shift)
  show "unat (if of_nat (2 ^ s - 1) < x then drop_bit s x else x :: u32) < 2 ^ s" if "unat x < 2 ^ (s + s)"
    unfolding l using that by (simp add: d power_add less_mult_imp_div_less)
  show "(if of_nat (2 ^ s - 1) < x then drop_bit s x else x) = 0 \<longleftrightarrow> x = 0"
    unfolding l unat_eq_zero [symmetric] using d less_le_trans [of 0 "2 ^ s" "unat x"] by (auto simp: div_eq_0_iff)
qed

lemma BIT_LENGTH_bits: "unat (BIT_LENGTH x) = nbits (unat x)"
proof -
  define x1 where "x1 = (if 0xFFFF < x then drop_bit 16 x else x)"
  define x2 where "x2 = (if 0xFF < x1 then drop_bit 8 x1 else x1)"
  define x3 where "x3 = (if 0xF < x2 then drop_bit 4 x2 else x2)"
  define x4 where "x4 = (if 3 < x3 then drop_bit 2 x3 else x3)"
  have a: "nbits (unat x) = nbits (unat x1) + (if 0xFFFF < x then 16 else 0)" "unat x1 < 2 ^ 16"
    using BIT_LENGTH_step [of 16 x] unat_u32 [of x] by (simp_all add: x1_def)
  have b: "nbits (unat x1) = nbits (unat x2) + (if 0xFF < x1 then 8 else 0)" "unat x2 < 2 ^ 8"
    using BIT_LENGTH_step [of 8 x1] a(2) by (simp_all add: x2_def)
  have c: "nbits (unat x2) = nbits (unat x3) + (if 0xF < x2 then 4 else 0)" "unat x3 < 2 ^ 4"
    using BIT_LENGTH_step [of 4 x2] b(2) by (simp_all add: x3_def)
  have d: "nbits (unat x3) = nbits (unat x4) + (if 3 < x3 then 2 else 0)" "unat x4 < 2 ^ 2"
    using BIT_LENGTH_step [of 2 x3] c(2) by (simp_all add: x4_def)
  have z: "x = 0 \<longleftrightarrow> x4 = 0"
    using BIT_LENGTH_step(3) [of 16 x] BIT_LENGTH_step(3) [of 8 x1] BIT_LENGTH_step(3) [of 4 x2] BIT_LENGTH_step(3) [of 2 x3]
    by (simp add: x1_def x2_def x3_def x4_def)
  have "nbits (unat x4) = of_bool (x4 \<noteq> 0) + of_bool (1 < x4)"
  proof -
    have "unat x4 = 0 \<or> unat x4 = 1 \<or> unat x4 = 2 \<or> unat x4 = 3" using d(2) by auto
    then show ?thesis unfolding word_less_nat_alt unat_eq_zero [symmetric] by (auto simp: nbits.simps [of 3] nbits.simps [of 2] nbits.simps [of "Suc 0"] nbits.simps [of 0])
  qed
  moreover have "BIT_LENGTH x = of_bool (x \<noteq> 0) + of_bool (0xFFFF < x) * 16 + of_bool (0xFF < x1) * 8 +
      of_bool (0xF < x2) * 4 + of_bool (3 < x3) * 2 + of_bool (1 < x4)"
    unfolding BIT_LENGTH_def Let_def by (simp add: x1_def x2_def x3_def x4_def push_bit_eq_mult mult.commute)
  ultimately show ?thesis using a(1) b(1) c(1) d(1) z by (auto simp: unat_word_ariths)
qed

text \<open>The header of a number of \<open>b\<close> bits, as the code computes it; the documentation of the format writes
  \<open>32 * (b div 31) + b mod 31\<close>, which is another header when 31 divides \<open>b\<close>.\<close>

definition header :: "nat \<Rightarrow> nat" where
  "header b = (if b = 0 then 0 else 32 * ((b - 1) div 31) + (b - 1) mod 31 + 1)"

lemma i31_bitlen_loop_top:
  "tw \<noteq> 0 \<Longrightarrow> i31_bitlen_loop x n tw twk = (tw, twk)"
  by (induction n) simp_all

lemma i31_bitlen_loop_value:
  assumes "n \<le> length x" "words31 (take n x)" "i31_bitlen_loop x n 0 twk = (tw, k')"
  shows "(tw = 0 \<and> ival (take n x) = 0 \<and> (0 < n \<longrightarrow> k' = 0) \<and> (n = 0 \<longrightarrow> k' = twk)) \<or>
    (\<exists>k<n. k' = of_nat k \<and> tw = x ! k \<and> x ! k \<noteq> 0 \<and> ival (take n x) = ival (take k x) + 2 ^ (31 * k) * unat tw)"
  using assms
proof (induction n arbitrary: twk)
  case (Suc n)
  have t: "take (Suc n) x = take n x @ [x ! n]" using Suc.prems(1) by (simp add: take_Suc_conv_app_nth)
  have l: "ival (take (Suc n) x) = ival (take n x) + 2 ^ (31 * n) * unat (x ! n)" using Suc.prems(1) unfolding t by (simp add: ival_append)
  show ?case
  proof (cases "x ! n = 0")
    case True
    then have "i31_bitlen_loop x n 0 (of_nat n) = (tw, k')" using Suc.prems(3) by simp
    then show ?thesis using Suc.IH [of "of_nat n"] Suc.prems(1,2) t l True by (cases n) (auto simp: less_Suc_eq)
  next
    case False
    then have "tw = x ! n" "k' = of_nat n" using Suc.prems(3) i31_bitlen_loop_top [of "x ! n"] by simp_all
    then show ?thesis using False l by auto
  qed
qed simp

lemma bits_split:
  assumes "l < 2 ^ (31 * k)" "t \<noteq> 0" "t < 2 ^ 31"
  shows "nbits (l + 2 ^ (31 * k) * t) = 31 * k + nbits t" "0 < nbits t" "nbits t \<le> 31"
proof -
  note b = bits_bounds [of t]
  have "l + 2 ^ (31 * k) * t < 2 ^ (31 * k) * (t + 1)" using assms(1) by simp
  also have "\<dots> \<le> 2 ^ (31 * k) * 2 ^ nbits t" using b(1) by (intro mult_left_mono) simp_all
  finally have u: "l + 2 ^ (31 * k) * t < 2 ^ (31 * k + nbits t)" by (simp add: power_add)
  have "2 ^ (31 * k + nbits t) \<le> 2 ^ (31 * k) * (2 * t)" unfolding power_add using b(2) assms(2) by (intro mult_left_mono) simp_all
  then have "2 ^ (31 * k + nbits t) \<le> 2 * (l + 2 ^ (31 * k) * t)" by simp
  then show "nbits (l + 2 ^ (31 * k) * t) = 31 * k + nbits t" using u by (rule bits_eqI [rotated])
  show "0 < nbits t" using b(1) assms(2) by (cases "nbits t = 0") simp_all
  show "nbits t \<le> 31"
  proof (rule ccontr)
    assume "\<not> nbits t \<le> 31"
    then have "2 ^ 32 \<le> (2 :: nat) ^ nbits t" by (intro power_increasing) simp_all
    then show False using b(2) assms(2,3) by simp
  qed
qed

lemma br_i31_bit_length_value:
  assumes "n \<le> length x" "words31 (take n x)" "n < 2 ^ 26"
  shows "unat (br_i31_bit_length x n) = header (nbits (ival (take n x)))"
proof -
  obtain tw k' where l: "i31_bitlen_loop x n 0 0 = (tw, k')" by force
  have h: "br_i31_bit_length x n = push_bit 5 k' + BIT_LENGTH tw" by (simp add: br_i31_bit_length_def l)
  from i31_bitlen_loop_value [OF assms(1,2) l] show ?thesis
  proof (elim disjE conjE exE)
    assume z: "tw = 0" "ival (take n x) = 0" "0 < n \<longrightarrow> k' = 0" "n = 0 \<longrightarrow> k' = 0"
    then have "k' = 0" by (cases n) simp_all
    then show ?thesis unfolding h z(2) by (simp add: z(1) BIT_LENGTH_bits header_def nbits.simps [of 0])
  next
    fix k assume k: "k < n" "k' = of_nat k" "tw = x ! k" "x ! k \<noteq> 0" "ival (take n x) = ival (take k x) + 2 ^ (31 * k) * unat tw"
    have w: "words31 (take k x)" "unat tw < 2 ^ 31"
      using assms(1,2) k(1,3) by (auto simp: words31_def all_set_conv_all_nth)
    then have "ival (take k x) < 2 ^ (31 * k)" using ival_less [OF w(1)] k(1) assms(1) by (simp add: min_def)
    note b = bits_split [OF this _ w(2)]
    have t: "unat tw \<noteq> 0" using k(3,4) by (simp add: unat_eq_zero)
    have "unat (push_bit 5 k') = 32 * k" unfolding k(2)
      using k(1) assms(3) by (simp add: push_bit_eq_mult unat_word_ariths unat_of_nat take_bit_nat_eq_self)
    then have "unat (br_i31_bit_length x n) = 32 * k + nbits (unat tw)" unfolding h
      using k(1) assms(3) b(3) [OF t] by (subst unat_add32) (simp_all add: BIT_LENGTH_bits)
    moreover have "(31 * k + nbits (unat tw) - 1) div 31 = k" "(31 * k + nbits (unat tw) - 1) mod 31 = nbits (unat tw) - 1"
      using b(2,3) [OF t] by (auto intro!: div_nat_eqI simp: mod_nat_eqI)
    ultimately show ?thesis unfolding k(5) b(1) [OF t] header_def using b(2) [OF t] by simp
  qed
qed

lemma hbits_header: "unat h = header b \<Longrightarrow> hbits h = b"
proof (cases b)
  case (Suc c)
  assume "unat h = header b"
  then have "unat h = 32 * (c div 31) + (c mod 31 + 1)" using Suc by (simp add: header_def)
  moreover have "c mod 31 + 1 < 32" by simp
  ultimately have "unat h div 32 = c div 31" "unat h mod 32 = c mod 31 + 1" by simp_all
  then show ?thesis using Suc by (simp add: hbits_def)
qed (simp add: hbits_def header_def)

section \<open>Shift\<close>

lemma or_shift:
  assumes "r < 2 ^ j"
  shows "(2 :: nat) ^ j * w + r = push_bit j w OR r"
proof -
  have "push_bit j w + r = push_bit j w OR r"
  proof (rule disjunctive_add_eq_or, rule bit_eqI)
    fix n show "bit (push_bit j w AND r) n = bit 0 n"
      using bit_take_bit_iff [of j r n] take_bit_nat_eq_self [OF assms] by (auto simp: bit_simps)
  qed
  then show ?thesis by (simp add: push_bit_eq_mult mult.commute)
qed

lemma unat_or_shift:
  fixes w r :: u32
  assumes "unat r < 2 ^ j" "j \<le> 31"
  shows "unat ((push_bit j w OR r) AND 0x7FFFFFFF) = 2 ^ j * (unat w mod 2 ^ (31 - j)) + unat r"
proof -
  have j: "2 ^ j * 2 ^ (31 - j) = (2 ^ 31 :: nat)" unfolding power_add [symmetric] using assms(2) by simp
  have "unat (push_bit j w OR r) = take_bit 32 (push_bit j (unat w)) OR unat r"
    by (simp only: unsigned_or_eq unsigned_push_bit_eq) simp
  then have "unat ((push_bit j w OR r) AND 0x7FFFFFFF) = take_bit 31 (take_bit 32 (push_bit j (unat w)) OR unat r)"
    unfolding low31 by (simp add: take_bit_eq_mod)
  also have "\<dots> = take_bit 31 (push_bit j (unat w) OR unat r)" by (simp add: take_bit_or)
  also have "\<dots> = (2 ^ j * unat w + unat r) mod 2 ^ 31" unfolding or_shift [OF assms(1)] by (simp add: take_bit_eq_mod)
  also have "\<dots> = 2 ^ j * (unat w mod 2 ^ (31 - j)) + unat r"
  proof -
    have "unat w mod 2 ^ (31 - j) + 1 \<le> 2 ^ (31 - j)" by (simp add: Suc_leI)
    then have "2 ^ j * (unat w mod 2 ^ (31 - j) + 1) \<le> 2 ^ 31" unfolding j [symmetric] by (rule mult_left_mono) simp
    then have "2 ^ j * (unat w mod 2 ^ (31 - j)) + unat r < 2 ^ 31" using assms(1) by simp
    moreover have "(2 ^ j * unat w + unat r) mod 2 ^ 31 = (2 ^ j * (unat w mod 2 ^ (31 - j)) + unat r) mod 2 ^ 31"
      unfolding j [symmetric] by (metis mod_add_left_eq mod_mult_mult1)
    ultimately show ?thesis by simp
  qed
  finally show ?thesis .
qed

lemma i31_rshift_loop_value:
  assumes "count < 31" "unat r < 2 ^ (31 - count)" "words31 ws"
  shows "words31 (i31_rshift_loop count r ws) \<and> length (i31_rshift_loop count r ws) = Suc (length ws) \<and>
    ival (i31_rshift_loop count r ws) = unat r + 2 ^ (31 - count) * ival ws"
  using assms(2,3)
proof (induction ws arbitrary: r)
  case Nil
  have "(2 :: nat) ^ (31 - count) \<le> 2 ^ 31" by (rule power_increasing) simp_all
  then show ?case using Nil by simp
next
  case (Cons w ws)
  have p: "(2 :: nat) ^ (31 - count) * 2 ^ count = 2 ^ 31" unfolding power_add [symmetric] using assms(1) by simp
  have d: "unat (drop_bit count w) = unat w div 2 ^ count" by (subst unat_drop_bit_eq) (rule drop_bit_eq_div)
  have "unat w < 2 ^ 31" using Cons.prems by simp
  then have "unat (drop_bit count w) < 2 ^ (31 - count)" unfolding d p [symmetric] by (rule less_mult_imp_div_less)
  note IH = Cons.IH [OF this]
  let ?f = "(push_bit (31 - count) w OR r) AND 0x7FFFFFFF"
  have f: "unat ?f = 2 ^ (31 - count) * (unat w mod 2 ^ count) + unat r"
    using unat_or_shift [OF Cons.prems(1), of w] assms(1) by simp
  have "p * a + q + (p * c) * b = q + p * (a + c * b)" for p a q c b :: nat by (simp add: algebra_simps)
  from this [of "2 ^ (31 - count)" "unat w mod 2 ^ count" "unat r" "2 ^ count" "unat w div 2 ^ count"]
  have "unat ?f + 2 ^ 31 * (unat w div 2 ^ count) = unat r + 2 ^ (31 - count) * unat w"
    unfolding f p [symmetric] by simp
  then show ?case using IH Cons.prems split31(2) [of "push_bit (31 - count) w OR r"] d by (simp add: algebra_simps)
qed

lemma br_i31_rshift_value:
  assumes "arr h x" "count < 31"
  shows "arr h (br_i31_rshift x count)" "val (br_i31_rshift x count) = val x div 2 ^ count" "length (br_i31_rshift x count) = length x"
proof -
  let ?n = "nwords h"
  have h: "x ! 0 = h" using assms(1) by (simp add: arr_def)
  have "arr h (br_i31_rshift x count) \<and> val (br_i31_rshift x count) = val x div 2 ^ count \<and> length (br_i31_rshift x count) = length x"
  proof (cases "?n = 0")
    case True
    then show ?thesis using assms(1) h arr_words(3) [OF assms(1)] by (simp add: br_i31_rshift_def words_def)
  next
    case False
    then obtain w ws where w: "words ?n x = w # ws" using arr_words(1) [OF assms(1)] by (cases "words ?n x") auto
    have x1: "x ! 1 = w" using w assms(1) False unfolding words_def arr_def by (cases x; cases "tl x"; cases ?n) auto
    have ws: "words31 (w # ws)" "length (w # ws) = ?n" using arr_words [OF assms(1)] unfolding w by simp_all
    have p: "(2 :: nat) ^ (31 - count) * 2 ^ count = 2 ^ 31" unfolding power_add [symmetric] using assms(2) by simp
    have d: "unat (drop_bit count w) = unat w div 2 ^ count" by (subst unat_drop_bit_eq) (rule drop_bit_eq_div)
    have "unat (drop_bit count w) < 2 ^ (31 - count)" unfolding d using ws(1) by (simp add: less_mult_imp_div_less p)
    note l = i31_rshift_loop_value [OF assms(2) this, of ws]
    have "val x div 2 ^ count = (unat w + 2 ^ (31 - count) * ival ws * 2 ^ count) div 2 ^ count"
      unfolding arr_words(3) [OF assms(1), symmetric] w ival.simps p [symmetric] by (simp add: algebra_simps)
    also have "\<dots> = unat w div 2 ^ count + 2 ^ (31 - count) * ival ws" by simp
    finally have v: "val x div 2 ^ count = unat w div 2 ^ count + 2 ^ (31 - count) * ival ws" .
    have "br_i31_rshift x count = set_words (i31_rshift_loop count (drop_bit count w) ws) x"
      using False h w x1 by (simp add: br_i31_rshift_def)
    then show ?thesis using set_words_arr [OF assms(1)] l ws v d by simp
  qed
  then show "arr h (br_i31_rshift x count)" "val (br_i31_rshift x count) = val x div 2 ^ count"
    "length (br_i31_rshift x count) = length x" by simp_all
qed

end
