(* ===== verification/Bigint_Div.thy ===== *)
theory Bigint_Div
  imports Bigint
begin

text \<open>
  The constant-time division of a 64-bit number by a 32-bit one (\<^verbatim>\<open>int/i32_div32.c\<close>): one quotient
  bit per turn, with the dividend kept in two words. The lemmas say that the result is the
  Euclidean quotient and remainder.
\<close>

unbundle bit_operations_syntax

section \<open>The code\<close>

fun divrem_loop :: "nat \<Rightarrow> u32 \<Rightarrow> u32 \<Rightarrow> u32 \<Rightarrow> u32 \<Rightarrow> u32 \<times> u32 \<times> u32" where
  "divrem_loop 0 hi lo q d = (hi, lo, q)"
| "divrem_loop (Suc i) hi lo q d =
     (let k = Suc i;
          j = 32 - k;
          w = push_bit j hi OR drop_bit k lo;
          ctl = GE w d OR drop_bit k hi;
          hi2 = drop_bit j (w - d);
          lo2 = lo - push_bit k d
      in divrem_loop i (MUX ctl hi2 hi) (MUX ctl lo2 lo) (q OR push_bit k ctl) d)"

text \<open>The quotient and the remainder.\<close>

definition br_divrem :: "u32 \<Rightarrow> u32 \<Rightarrow> u32 \<Rightarrow> u32 \<times> u32" where
  "br_divrem hi lo d =
     (let ch = EQ hi d;
          hi = MUX ch 0 hi;
          (hi, lo, q) = divrem_loop 31 hi lo 0 d;
          cf = GE lo d OR hi
      in (q OR cf, MUX cf (lo - d) lo))"

definition br_rem :: "u32 \<Rightarrow> u32 \<Rightarrow> u32 \<Rightarrow> u32" where "br_rem hi lo d = snd (br_divrem hi lo d)"
definition br_div :: "u32 \<Rightarrow> u32 \<Rightarrow> u32 \<Rightarrow> u32" where "br_div hi lo d = fst (br_divrem hi lo d)"

section \<open>One turn\<close>

definition pair :: "u32 \<Rightarrow> u32 \<Rightarrow> nat" where "pair hi lo = unat hi * 2 ^ 32 + unat lo"

lemma unat_shr: "unat (drop_bit k w) = unat w div 2 ^ k" for w :: u32
  by (subst unat_drop_bit_eq) (rule drop_bit_eq_div)

lemma unat_shl: "unat (push_bit k w) = unat w * 2 ^ k mod 2 ^ 32" for w :: u32
  by (simp only: unsigned_push_bit_eq) (simp add: take_bit_eq_mod push_bit_eq_mult)

lemma GE_iff: "GE x y = of_bool (y \<le> x)"
  by (auto simp: GE_def)

lemma pair_shift:
  assumes "0 < k" "k < 32"
  shows "pair hi lo div 2 ^ k = unat (push_bit (32 - k) hi OR drop_bit k lo) + 2 ^ 32 * (unat hi div 2 ^ k)"
proof -
  let ?j = "32 - k"
  have p: "2 ^ ?j * 2 ^ k = (2 ^ 32 :: nat)" unfolding power_add [symmetric] using assms(2) by simp
  have l: "unat lo div 2 ^ k < 2 ^ ?j" using unat_u32 [of lo] by (simp add: less_mult_imp_div_less p)
  have "unat (push_bit ?j hi OR drop_bit k lo) = take_bit 32 (push_bit ?j (unat hi)) OR unat (drop_bit k lo)"
    by (simp only: unsigned_or_eq unsigned_push_bit_eq) simp
  also have "\<dots> = take_bit 32 (push_bit ?j (unat hi) OR unat (drop_bit k lo))"
    using unat_u32 [of "drop_bit k lo"] by (simp add: take_bit_nat_eq_self)
  also have "\<dots> = (2 ^ ?j * unat hi + unat lo div 2 ^ k) mod 2 ^ 32"
    using or_shift [of "unat (drop_bit k lo)" ?j "unat hi"] l unfolding unat_shr by (simp add: take_bit_eq_mod)
  finally have w: "unat (push_bit ?j hi OR drop_bit k lo) = (2 ^ ?j * unat hi + unat lo div 2 ^ k) mod 2 ^ 32" .
  have n: "pair hi lo div 2 ^ k = 2 ^ ?j * unat hi + unat lo div 2 ^ k"
  proof -
    have "pair hi lo = (2 ^ ?j * unat hi) * 2 ^ k + unat lo" unfolding pair_def p [symmetric] by (simp add: mult_ac)
    then show ?thesis by simp
  qed
  have "pair hi lo div 2 ^ k div 2 ^ 32 = unat hi div 2 ^ k"
    unfolding div_mult2_eq [symmetric] mult.commute [of "2 ^ k"] unfolding div_mult2_eq
    using unat_u32 [of lo] by (simp add: pair_def)
  then show ?thesis using w n by (metis mod_mult_div_eq)
qed

lemma divrem_turn:
  fixes hi lo d :: u32 and k :: nat
  assumes "0 < k" "k < 32" "pair hi lo < unat d * 2 ^ Suc k"
  defines "w \<equiv> push_bit (32 - k) hi OR drop_bit k lo"
  defines "ctl \<equiv> GE w d OR drop_bit k hi"
  shows "ctl = of_bool (unat d * 2 ^ k \<le> pair hi lo)"
    "unat d * 2 ^ k \<le> pair hi lo \<Longrightarrow> pair (drop_bit (32 - k) (w - d)) (lo - push_bit k d) = pair hi lo - unat d * 2 ^ k"
proof -
  let ?N = "pair hi lo"
  have s: "?N div 2 ^ k = unat w + 2 ^ 32 * (unat hi div 2 ^ k)" unfolding w_def by (rule pair_shift [OF assms(1,2)])
  have lt: "?N div 2 ^ k < 2 * unat d" using assms(3) by (simp add: div_less_iff_less_mult mult_ac)
  have le: "unat d * 2 ^ k \<le> ?N \<longleftrightarrow> unat d \<le> ?N div 2 ^ k" by (simp add: less_eq_div_iff_mult_less_eq)
  have h: "unat hi div 2 ^ k = 0 \<or> unat hi div 2 ^ k = 1"
  proof -
    have "2 ^ 32 * (unat hi div 2 ^ k) < 2 * 2 ^ 32" using s lt unat_u32 [of d] by linarith
    then show ?thesis by auto
  qed
  then have hb: "drop_bit k hi = of_bool (unat hi div 2 ^ k = 1)" by (auto simp: word_unat_eq_iff unat_shr)
  have "(d \<le> w \<or> unat hi div 2 ^ k = 1) \<longleftrightarrow> unat d \<le> ?N div 2 ^ k"
    unfolding s word_le_nat_alt using h unat_u32 [of d] by auto
  then show "ctl = of_bool (unat d * 2 ^ k \<le> pair hi lo)" unfolding le ctl_def GE_iff hb by (auto simp: of_bool_def)
  assume ge: "unat d * 2 ^ k \<le> ?N"
  have "unat (w - d) = ?N div 2 ^ k - unat d"
    unfolding s using h ge [unfolded le] lt [unfolded s] unat_u32 [of w] unat_u32 [of d] unfolding le s by (auto simp: unat_diff)
  then have wd: "unat (w - d) = (?N - unat d * 2 ^ k) div 2 ^ k"
  proof -
    obtain M where "?N = M + unat d * 2 ^ k" using ge by (metis add.commute le_Suc_ex)
    then show ?thesis using \<open>unat (w - d) = ?N div 2 ^ k - unat d\<close> by simp
  qed
  have "unat (drop_bit (32 - k) (w - d)) = (?N - unat d * 2 ^ k) div 2 ^ k div 2 ^ (32 - k)" by (simp only: unat_shr wd)
  also have "\<dots> = (?N - unat d * 2 ^ k) div 2 ^ 32" unfolding div_mult2_eq [symmetric] power_add [symmetric] using assms(2) by simp
  finally have 1: "unat (drop_bit (32 - k) (w - d)) = (?N - unat d * 2 ^ k) div 2 ^ 32" .
  have "unat (lo - push_bit k d) = (?N - unat d * 2 ^ k) mod 2 ^ 32"
  proof -
    have "of_nat (2 ^ 32) = (0 :: u32)" by simp
    then have "of_nat ?N = lo" by (simp only: pair_def of_nat_add of_nat_mult) simp
    then have "of_nat (?N - unat d * 2 ^ k) = lo - push_bit k d"
      unfolding of_nat_diff [OF ge] by (simp add: push_bit_eq_mult)
    then have "unat (lo - push_bit k d) = unat (of_nat (?N - unat d * 2 ^ k) :: u32)" by simp
    then show ?thesis by (simp only: unat_of_nat) (simp add: take_bit_eq_mod)
  qed
  then show "pair (drop_bit (32 - k) (w - d)) (lo - push_bit k d) = ?N - unat d * 2 ^ k"
    unfolding pair_def 1 by (simp add: mult.commute)
qed

section \<open>The whole division\<close>

lemma or_bit_add:
  fixes q :: u32
  assumes "unat q mod 2 ^ Suc k = 0" "k < 32"
  shows "unat (q OR push_bit k (of_bool b)) = unat q + (if b then 2 ^ k else 0)"
proof (cases b)
  case True
  have q: "unat q = 2 ^ Suc k * (unat q div 2 ^ Suc k)" using assms(1) by (metis add.right_neutral mult_div_mod_eq)
  have "unat (q OR push_bit k 1) = unat q OR unat (push_bit k 1 :: u32)" by (rule unsigned_or_eq)
  also have "unat (push_bit k 1 :: u32) = 2 ^ k"
    using assms(2) power_strict_increasing [of k 32 "2 :: nat"] by (simp only: unat_shl) simp
  also have "unat q OR 2 ^ k = unat q + 2 ^ k"
    using or_shift [of "2 ^ k" "Suc k" "unat q div 2 ^ Suc k"] q by (simp add: push_bit_eq_mult mult.commute)
  finally show ?thesis using True by simp
qed simp

lemma divrem_loop_value:
  assumes "pair hi lo < unat d * 2 ^ Suc i" "i < 32" "unat q mod 2 ^ Suc i = 0" "divrem_loop i hi lo q d = (hi', lo', q')"
  shows "pair hi' lo' < unat d * 2 \<and> unat q' mod 2 = 0 \<and> unat q' * unat d + pair hi' lo' = unat q * unat d + pair hi lo"
  using assms
proof (induction i arbitrary: hi lo q)
  case 0
  then show ?case by simp
next
  case (Suc i)
  let ?k = "Suc i"
  define w where "w = push_bit (32 - ?k) hi OR drop_bit ?k lo"
  let ?b = "unat d * 2 ^ ?k \<le> pair hi lo"
  have t: "GE w d OR drop_bit ?k hi = of_bool ?b"
    "?b \<Longrightarrow> pair (drop_bit (32 - ?k) (w - d)) (lo - push_bit ?k d) = pair hi lo - unat d * 2 ^ ?k"
    unfolding w_def using divrem_turn [of ?k hi lo d] Suc.prems(1,2) by simp_all
  define hi1 where "hi1 = (if ?b then drop_bit (32 - ?k) (w - d) else hi)"
  define lo1 where "lo1 = (if ?b then lo - push_bit ?k d else lo)"
  define q1 where "q1 = q OR push_bit ?k (of_bool ?b)"
  have r: "divrem_loop i hi1 lo1 q1 d = (hi', lo', q')"
    using Suc.prems(4) unfolding divrem_loop.simps Let_def w_def [symmetric] t(1) MUX_of_bool hi1_def lo1_def q1_def .
  have p: "pair hi1 lo1 = pair hi lo - (if ?b then unat d * 2 ^ ?k else 0)" using t(2) by (simp add: hi1_def lo1_def)
  have q1: "unat q1 = unat q + (if ?b then 2 ^ ?k else 0)" unfolding q1_def using or_bit_add [OF Suc.prems(3)] Suc.prems(2) by simp
  have "pair hi1 lo1 < unat d * 2 ^ Suc i" unfolding p using Suc.prems(1) by auto
  moreover have "unat q1 mod 2 ^ Suc i = 0" unfolding q1 using Suc.prems(3) by (auto simp: mod_eq_0_iff_dvd dvd_add dest: dvd_mult_left)
  moreover have "unat q1 * unat d + pair hi1 lo1 = unat q * unat d + pair hi lo" unfolding p q1 by (auto simp: algebra_simps)
  ultimately show ?case using Suc.IH [OF _ _ _ r] Suc.prems(2) by simp
qed

lemma br_divrem_value:
  assumes "hi \<le> d" "d \<noteq> 0"
  shows "br_divrem hi lo d = (of_nat (pair hi lo div unat d), of_nat (pair hi lo mod unat d))"
proof -
  define h0 where "h0 = (if hi = d then 0 else hi)"
  obtain h l q where r: "divrem_loop 31 h0 lo 0 d = (h, l, q)" by (metis prod_cases3)
  have d: "0 < unat d" using assms(2) by (simp add: unat_gt_0)
  have h0: "unat h0 < unat d" using assms d unfolding h0_def word_le_nat_alt by (auto simp: word_unat_eq_iff)
  then have "unat h0 + 1 \<le> unat d" by simp
  then have "(unat h0 + 1) * 2 ^ 32 \<le> unat d * 2 ^ 32" by (rule mult_right_mono) simp
  then have "pair h0 lo < unat d * 2 ^ Suc 31" using unat_u32 [of lo] by (simp add: pair_def)
  note v = divrem_loop_value [OF this _ _ r]
  have v: "pair h l < unat d * 2" "even q" "unat q * unat d + pair h l = pair h0 lo"
    using v odd_unat [of q] by auto
  let ?M = "pair h l"
  have "unat h * 2 ^ 32 < 2 * 2 ^ 32" using v(1) unat_u32 [of d] unfolding pair_def by linarith
  then have u: "unat h = 0 \<or> unat h = 1" by auto
  then have hb: "h = of_bool (unat h = 1)" by (auto simp: word_unat_eq_iff)
  have "(d \<le> l \<or> unat h = 1) \<longleftrightarrow> unat d \<le> ?M" unfolding word_le_nat_alt pair_def using u unat_u32 [of d] by auto
  then have cf: "GE l d OR h = of_bool (unat d \<le> ?M)" unfolding GE_iff using hb by (cases "unat h = 1") (auto simp: of_bool_def)
  have r: "br_divrem hi lo d = (q OR of_bool (unat d \<le> ?M), if unat d \<le> ?M then l - d else l)"
    unfolding br_divrem_def Let_def EQ_iff MUX_of_bool h0_def [symmetric] r using cf by simp
  have q: "unat (q OR of_bool (unat d \<le> ?M)) = unat q + of_bool (unat d \<le> ?M)"
    using or_bit_add [of q 0 "unat d \<le> ?M"] v(2) odd_unat [of q] by (auto simp: even_iff_mod_2_eq_zero)
  have rr: "unat (if unat d \<le> ?M then l - d else l) = ?M - of_bool (unat d \<le> ?M) * unat d"
    using u v(1) unat_u32 [of l] unat_u32 [of d] by (auto simp: pair_def unat_diff)
  let ?r = "?M - of_bool (unat d \<le> ?M) * unat d"
  have "?r < unat d" using v(1) by auto
  moreover have "pair h0 lo = (unat q + of_bool (unat d \<le> ?M)) * unat d + ?r" using v(3) by (auto simp: algebra_simps)
  moreover have "n div x = y" "n mod x = z" if "z < x" "n = y * x + z" for n x y z :: nat using that by simp_all
  ultimately have e: "pair h0 lo div unat d = unat q + of_bool (unat d \<le> ?M)" "pair h0 lo mod unat d = ?r" by metis+
  have "pair hi lo = pair h0 lo + (if hi = d then 2 ^ 32 * unat d else 0)" by (simp add: h0_def pair_def)
  then have p: "pair hi lo div unat d = pair h0 lo div unat d + (if hi = d then 2 ^ 32 else 0)" "pair hi lo mod unat d = pair h0 lo mod unat d"
    using d by simp_all
  have z: "of_nat (2 ^ 32) = (0 :: u32)" by simp
  have "of_nat (pair hi lo div unat d) = (of_nat (pair h0 lo div unat d) :: u32)" unfolding p(1) by (simp only: of_nat_add z split: if_splits) simp
  then show ?thesis unfolding r p(2) unfolding e q [symmetric] rr [symmetric] by simp
qed

end
