(* ===== verification/Bigint_Monty.thy ===== *)
theory Bigint_Monty
  imports Bigint
begin

text \<open>
  Montgomery multiplication (\<^verbatim>\<open>int/i31_montmul.c\<close>) and the conversion back from Montgomery
  representation (\<^verbatim>\<open>int/i31_fmont.c\<close>). The product is computed one word of the multiplier at a time;
  each turn adds a multiple of the modulus that clears the lowest word and drops that word. With
  \<open>R = 2 ^ (31 * n)\<close> the result \<open>d\<close> satisfies \<open>d * R = x * y\<close> modulo \<open>m\<close> and is below \<open>m\<close>.
\<close>

unbundle bit_operations_syntax

section \<open>The code\<close>

definition mont_word :: "u32 \<Rightarrow> u32 \<Rightarrow> u32 \<Rightarrow> u32 \<Rightarrow> u32 \<Rightarrow> u64 \<Rightarrow> u32 \<times> u64" where
  "mont_word xu f dv yv mv r =
     (let z = ucast dv + MUL31 xu yv + MUL31 f mv + r
      in (ucast z AND 0x7FFFFFFF, drop_bit 31 z))"

text \<open>The loop one word at a time, and the loop over four words before it.\<close>

fun mont_row1 :: "u32 \<Rightarrow> u32 \<Rightarrow> u32 list \<Rightarrow> u32 list \<Rightarrow> u32 list \<Rightarrow> u64 \<Rightarrow> u32 list \<times> u64" where
  "mont_row1 xu f (dv # ds) (yv # ys) (mv # ms) r =
     (let (w, r) = mont_word xu f dv yv mv r;
          (ws, r) = mont_row1 xu f ds ys ms r
      in (w # ws, r))"
| "mont_row1 xu f _ _ _ r = ([], r)"

fun mont_row :: "nat \<Rightarrow> u32 \<Rightarrow> u32 \<Rightarrow> u32 list \<Rightarrow> u32 list \<Rightarrow> u32 list \<Rightarrow> u64 \<Rightarrow> u32 list \<times> u64" where
  "mont_row 0 xu f ds ys ms r = mont_row1 xu f ds ys ms r"
| "mont_row (Suc k) xu f ds ys ms r =
     (let (w0, r) = mont_word xu f (ds ! 0) (ys ! 0) (ms ! 0) r;
          (w1, r) = mont_word xu f (ds ! 1) (ys ! 1) (ms ! 1) r;
          (w2, r) = mont_word xu f (ds ! 2) (ys ! 2) (ms ! 2) r;
          (w3, r) = mont_word xu f (ds ! 3) (ys ! 3) (ms ! 3) r;
          (ws, r) = mont_row k xu f (drop 4 ds) (drop 4 ys) (drop 4 ms) r
      in (w0 # w1 # w2 # w3 # ws, r))"

text \<open>A turn of the outer loop: \<open>d\<close> and its extra top word \<open>dh\<close>, with the next word \<open>xu\<close> of \<open>x\<close>. The word
  that belongs to index \<open>v\<close> is stored at index \<open>v - 1\<close>, so that word 0, the header, is overwritten too.\<close>

definition mont_turn :: "u32 list \<Rightarrow> u32 list \<Rightarrow> u32 \<Rightarrow> nat \<Rightarrow> u32 list \<times> u64 \<Rightarrow> u32 \<Rightarrow> u32 list \<times> u64" where
  "mont_turn y m m0i len = (\<lambda>(d, dh) xu.
     let f = MUL31_lo (d ! 1 + MUL31_lo xu (y ! 1)) m0i;
         (ws, r) = mont_row (len div 4) xu f (words len d) (words len y) (words len m) 0;
         zh = dh + r
     in (ws @ [ucast zh AND 0x7FFFFFFF] @ drop (len + 1) d, drop_bit 31 zh))"

definition br_i31_montymul :: "u32 list \<Rightarrow> u32 list \<Rightarrow> u32 list \<Rightarrow> u32 list \<Rightarrow> u32 \<Rightarrow> u32 list" where
  "br_i31_montymul d x y m m0i =
     (let len = nwords (m ! 0);
          d = br_i31_zero d (m ! 0);
          (d, dh) = foldl (mont_turn y m m0i len) (d, 0) (words len x);
          d = d[0 := m ! 0];
          ctl = NEQ (ucast dh) 0 OR CT_NOT (fst (br_i31_sub d m 0))
      in snd (br_i31_sub d m ctl))"

fun fmont_row :: "u32 \<Rightarrow> u32 list \<Rightarrow> u32 list \<Rightarrow> u64 \<Rightarrow> u32 list \<times> u64" where
  "fmont_row f (xv # xs) (mv # ms) cc =
     (let z = ucast xv + MUL31 f mv + cc;
          (ws, cc) = fmont_row f xs ms (drop_bit 31 z)
      in ((ucast z AND 0x7FFFFFFF) # ws, cc))"
| "fmont_row f _ _ cc = ([], cc)"

definition fmont_turn :: "u32 list \<Rightarrow> u32 \<Rightarrow> nat \<Rightarrow> u32 list \<Rightarrow> u32 list" where
  "fmont_turn m m0i len x =
     (let f = MUL31_lo (x ! 1) m0i;
          (ws, cc) = fmont_row f (words len x) (words len m) 0
      in set_words (tl ws @ [ucast cc]) x)"

definition br_i31_from_monty :: "u32 list \<Rightarrow> u32 list \<Rightarrow> u32 \<Rightarrow> u32 list" where
  "br_i31_from_monty x m m0i =
     (let len = nwords (m ! 0);
          x = (fmont_turn m m0i len ^^ len) x
      in snd (br_i31_sub x m (CT_NOT (fst (br_i31_sub x m 0)))))"

section \<open>One row\<close>

lemma unat_MUL31: "unat (MUL31 x y) = unat x * unat y"
proof -
  have "unat x * unat y < 2 ^ 32 * 2 ^ 32" by (rule mult_strict_mono') (use unat_u32 [of x] unat_u32 [of y] in simp_all)
  moreover have "take_bit 64 (unat x) = unat x" "take_bit 64 (unat y) = unat y"
    using unat_u32 [of x] unat_u32 [of y] by (auto intro!: take_bit_nat_eq_self)
  ultimately show ?thesis by (simp add: MUL31_def unat_word_ariths unsigned_ucast_eq)
qed

lemma MUL31_bound: "unat x < 2 ^ 31 \<Longrightarrow> unat y < 2 ^ 31 \<Longrightarrow> unat (MUL31 x y) \<le> (2 ^ 31 - 1) * (2 ^ 31 - 1)"
  unfolding unat_MUL31 by (rule mult_le_mono) simp_all

lemma unat_MUL31_lo: "unat (MUL31_lo x y) = unat x * unat y mod 2 ^ 31"
proof -
  have "unat (MUL31_lo x y) = unat x * unat y mod 2 ^ 32 mod 2 ^ 31" unfolding MUL31_lo_def low31 by (simp add: unat_word_ariths)
  then show ?thesis by (simp add: mod_mod_cancel)
qed

lemma low31_64: "unat (ucast (z :: u64) AND 0x7FFFFFFF :: u32) = unat z mod 2 ^ 31"
proof -
  have "unat (ucast z :: u32) = unat z mod 2 ^ 32" by (simp add: unsigned_ucast_eq take_bit_eq_mod)
  then show ?thesis unfolding low31 by (simp add: mod_mod_cancel)
qed

lemma shr31_64: "unat (drop_bit 31 (z :: u64)) = unat z div 2 ^ 31"
  by (subst unat_drop_bit_eq) (rule drop_bit_eq_div)

lemma unat_ucast64: "unat (ucast (w :: u32) :: u64) = unat w"
  using unat_u32 [of w] by (simp add: unsigned_ucast_eq take_bit_nat_eq_self)

lemma mont_word_value:
  assumes "unat xu < 2 ^ 31" "unat f < 2 ^ 31" "unat dv < 2 ^ 31" "unat yv < 2 ^ 31" "unat mv < 2 ^ 31" "unat r < 2 ^ 32"
    "mont_word xu f dv yv mv r = (w, r')"
  shows "unat w < 2 ^ 31" "unat r' < 2 ^ 32"
    "unat w + 2 ^ 31 * unat r' = unat dv + unat xu * unat yv + unat f * unat mv + unat r"
proof -
  let ?z = "ucast dv + MUL31 xu yv + MUL31 f mv + r"
  have z: "unat ?z = unat dv + unat xu * unat yv + unat f * unat mv + unat r"
    "unat ?z < 2 ^ 63"
    using MUL31_bound [of xu yv] MUL31_bound [of f mv] assms(1-6)
    by (simp_all add: unat_add64 unat_ucast64 flip: unat_MUL31)
  have w: "w = ucast ?z AND 0x7FFFFFFF" "r' = drop_bit 31 ?z" using assms(7) by (simp_all add: mont_word_def Let_def)
  show "unat w < 2 ^ 31" "unat r' < 2 ^ 32" unfolding w low31_64 shr31_64 using z(2) by (simp_all add: less_mult_imp_div_less)
  show "unat w + 2 ^ 31 * unat r' = unat dv + unat xu * unat yv + unat f * unat mv + unat r"
    unfolding w low31_64 shr31_64 z(1) [symmetric] by simp
qed

lemma mont_row1_value:
  assumes "unat xu < 2 ^ 31" "unat f < 2 ^ 31" "length ys = length ds" "length ms = length ds"
    "words31 ds" "words31 ys" "words31 ms" "unat r < 2 ^ 32" "mont_row1 xu f ds ys ms r = (ws, r')"
  shows "length ws = length ds \<and> words31 ws \<and> unat r' < 2 ^ 32 \<and>
    ival ws + 2 ^ (31 * length ds) * unat r' = ival ds + unat xu * ival ys + unat f * ival ms + unat r"
  using assms
proof (induction xu f ds ys ms r arbitrary: ws r' rule: mont_row1.induct)
  case (1 xu f dv ds yv ys mv ms r)
  obtain w r1 where w: "mont_word xu f dv yv mv r = (w, r1)" by force
  obtain ws' r2 where ws: "mont_row1 xu f ds ys ms r1 = (ws', r2)" by force
  have eq: "ws = w # ws'" "r' = r2" using "1.prems"(9) w ws by simp_all
  have W: "unat w < 2 ^ 31" "unat r1 < 2 ^ 32"
      "unat w + 2 ^ 31 * unat r1 = unat dv + unat xu * unat yv + unat f * unat mv + unat r"
    using mont_word_value [OF "1.prems"(1,2) _ _ _ "1.prems"(8) w] "1.prems"(5-7) by simp_all
  have IH: "length ws' = length ds" "words31 ws'" "unat r2 < 2 ^ 32"
      "ival ws' + 2 ^ (31 * length ds) * unat r2 = ival ds + unat xu * ival ys + unat f * ival ms + unat r1"
    using "1.IH" [OF w [symmetric] refl "1.prems"(1,2) _ _ _ _ _ W(2) ws] "1.prems"(3-7) by simp_all
  have "ival ws + 2 ^ (31 * length (dv # ds)) * unat r' = unat w + 2 ^ 31 * (ival ws' + 2 ^ (31 * length ds) * unat r2)"
    unfolding eq by (simp add: power_add algebra_simps)
  also have "\<dots> = (unat w + 2 ^ 31 * unat r1) + 2 ^ 31 * (ival ds + unat xu * ival ys + unat f * ival ms)"
    unfolding IH(4) by (simp add: algebra_simps)
  also have "\<dots> = ival (dv # ds) + unat xu * ival (yv # ys) + unat f * ival (mv # ms) + unat r"
    unfolding W(3) by (simp add: algebra_simps)
  finally show ?case using IH W(1) eq by simp
qed simp_all

lemma mont_row_is_row1:
  "4 * k \<le> length ds \<Longrightarrow> length ys = length ds \<Longrightarrow> length ms = length ds \<Longrightarrow> mont_row k xu f ds ys ms r = mont_row1 xu f ds ys ms r"
proof (induction k arbitrary: ds ys ms r)
  case (Suc k)
  have four: "\<exists>a b c d xs'. xs = a # b # c # d # xs'" if "4 \<le> length xs" for xs :: "u32 list"
    using that by (auto simp: numeral_eq_Suc Suc_le_length_iff)
  obtain d0 d1 d2 d3 ds' where d: "ds = d0 # d1 # d2 # d3 # ds'" using four [of ds] Suc.prems(1) by auto
  obtain y0 y1 y2 y3 ys' where y: "ys = y0 # y1 # y2 # y3 # ys'" using four [of ys] Suc.prems by auto
  obtain m0 m1 m2 m3 ms' where m: "ms = m0 # m1 # m2 # m3 # ms'" using four [of ms] Suc.prems by auto
  show ?case using Suc.IH [of ds' ys' ms'] Suc.prems unfolding d y m by (simp split: prod.splits)
qed simp

section \<open>The reduction step\<close>

lemma mont_factor:
  fixes t i m b :: nat
  assumes "(i * m + 1) mod b = 0"
  shows "(t + (t * i mod b) * m) mod b = 0"
proof -
  have "(t + (t * i mod b) * m) mod b = (t + (t * i) * m) mod b" by (metis mod_add_right_eq mod_mult_left_eq)
  also have "\<dots> = (t * (i * m + 1)) mod b" by (simp add: algebra_simps)
  also have "\<dots> = 0" using assms by (metis mod_mult_right_eq mult_0_right mod_0)
  finally show ?thesis .
qed

lemma mod_word: "ws \<noteq> [] \<Longrightarrow> words31 ws \<Longrightarrow> unat (ws ! 0) = ival ws mod 2 ^ 31"
  by (cases ws) simp_all

text \<open>The words of a row whose lowest word is cleared, shifted by one word, with \<open>zh\<close> on top.\<close>

lemma row_shift:
  fixes zh :: nat
  assumes "ws \<noteq> []" "words31 ws" "T = ival ws + 2 ^ (31 * length ws) * zh" "T mod 2 ^ 31 = 0"
    "unat zl = zh mod 2 ^ 31"
  shows "2 ^ 31 * (ival (tl ws @ [zl]) + 2 ^ (31 * length ws) * (zh div 2 ^ 31)) = T"
proof -
  obtain w ws' where ws: "ws = w # ws'" using assms(1) by (cases ws) auto
  have "T = unat w + 2 ^ 31 * (ival ws' + 2 ^ (31 * length ws') * zh)" unfolding assms(3) ws by (simp add: power_add algebra_simps)
  moreover from this have "T mod 2 ^ 31 = unat w mod 2 ^ 31" by (simp only: mod_mult_self2)
  ultimately have T: "T = 2 ^ 31 * (ival ws' + 2 ^ (31 * length ws') * zh)"
    using assms(2,4) unfolding ws by simp
  have "ival (tl ws @ [zl]) + 2 ^ (31 * length ws) * (zh div 2 ^ 31) = ival ws' + 2 ^ (31 * length ws') * (unat zl + 2 ^ 31 * (zh div 2 ^ 31))"
    unfolding ws by (simp add: ival_append power_add algebra_simps)
  also have "unat zl + 2 ^ 31 * (zh div 2 ^ 31) = zh" unfolding assms(5) by simp
  finally show ?thesis unfolding T by simp
qed

text \<open>The setting: an odd modulus with its inverse word, and \<open>y\<close> below the modulus.\<close>

definition mont_ok :: "u32 \<Rightarrow> u32 list \<Rightarrow> u32 \<Rightarrow> bool" where
  "mont_ok h m m0i \<longleftrightarrow> arr h m \<and> 0 < nwords h \<and> 0 < val m \<and> unat m0i < 2 ^ 31 \<and> (unat m0i * val m + 1) mod 2 ^ 31 = 0"

text \<open>The number that \<open>d\<close> and the word above it stand for.\<close>

definition dval :: "nat \<Rightarrow> u32 list \<times> u64 \<Rightarrow> nat" where
  "dval n s = ival (words n (fst s)) + 2 ^ (31 * n) * unat (snd s)"

definition dstate :: "nat \<Rightarrow> nat \<Rightarrow> nat \<Rightarrow> u32 list \<times> u64 \<Rightarrow> bool" where
  "dstate n l M s \<longleftrightarrow> length (fst s) = l \<and> n < l \<and> words31 (words n (fst s)) \<and> unat (snd s) \<le> 1 \<and> dval n s < 2 * M"

lemma nth_words: "i < n \<Longrightarrow> n < length x \<Longrightarrow> words n x ! i = x ! Suc i"
  by (simp add: words_def)

lemma word1:
  assumes "0 < n" "n < length x" "words31 (words n x)"
  shows "unat (x ! 1) = ival (words n x) mod 2 ^ 31"
  using mod_word [of "words n x"] nth_words [of 0 n x] assms length_words [of n x] by (cases "words n x = []") auto

lemma mod_cong_prod:
  fixes d i x y b :: nat
  shows "(d mod b + x * (y mod b) mod b) * i mod b = (d + x * y) * i mod b"
proof -
  have "(d mod b + x * (y mod b) mod b) mod b = (d + x * y) mod b" by (simp add: mod_simps)
  then show ?thesis by (rule mod_mult_cong) simp
qed

lemma words_shifted:
  assumes "length ws = n" "0 < n" "n < length d"
  shows "words n (ws @ [w] @ drop (n + 1) d) = tl ws @ [w]" "length (ws @ [w] @ drop (n + 1) d) = length d"
proof -
  obtain a vs where "ws = a # vs" "n = Suc (length vs)" using assms(1,2) by (cases ws) auto
  then show "words n (ws @ [w] @ drop (n + 1) d) = tl ws @ [w]" "length (ws @ [w] @ drop (n + 1) d) = length d"
    using assms(3) by (simp_all add: words_def)
qed

lemma mont_bound:
  fixes b :: nat
  assumes "Suc b * D' = D + x * Y + f * M" "D < 2 * M" "Y < M" "x \<le> b" "f \<le> b"
  shows "D' < 2 * M"
proof -
  have "x * Y \<le> b * M" "f * M \<le> b * M" using assms by (auto intro: mult_le_mono)
  moreover have "Suc b * (2 * M) = 2 * M + b * M + b * M" by simp
  ultimately have "Suc b * D' < Suc b * (2 * M)" unfolding assms(1) using assms(2) by linarith
  then show ?thesis by (simp only: mult_less_cancel1)
qed

lemma mont_turn_value:
  assumes "mont_ok h m m0i" "n = nwords h" "arr h y" "val y < val m" "unat xu < 2 ^ 31" "dstate n l (val m) s"
  shows "dstate n l (val m) (mont_turn y m m0i n s xu)"
    "\<exists>f. 2 ^ 31 * dval n (mont_turn y m m0i n s xu) = dval n s + unat xu * val y + f * val m"
proof -
  obtain d dh where s: "s = (d, dh)" by force
  let ?B = "2 ^ 31 :: nat" and ?W = "2 ^ (31 * n) :: nat" and ?M = "val m" and ?Y = "val y"
  note D = assms(6) [unfolded s dstate_def fst_conv snd_conv]
  have n: "0 < n" and am: "arr h m" and i: "unat m0i < ?B" "(unat m0i * ?M + 1) mod ?B = 0"
    using assms(1,2) by (simp_all add: mont_ok_def)
  define f where "f = MUL31_lo (d ! 1 + MUL31_lo xu (y ! 1)) m0i"
  have y1: "unat (y ! 1) = ?Y mod ?B" using word1 [of n y] arr_words [OF assms(3)] assms(2,3) n by (simp add: arr_def)
  have d1: "unat (d ! 1) = ival (words n d) mod ?B" using word1 [of n d] D n by simp
  have "unat (d ! 1 + MUL31_lo xu (y ! 1)) = unat (d ! 1) + unat xu * unat (y ! 1) mod ?B"
  proof (subst unat_add32)
    have "unat (d ! 1) < ?B" "unat (MUL31_lo xu (y ! 1)) < ?B" unfolding d1 unat_MUL31_lo by simp_all
    then show "unat (d ! 1) + unat (MUL31_lo xu (y ! 1)) < 2 ^ 32" by simp
  qed (simp add: unat_MUL31_lo)
  then have f: "unat f = (ival (words n d) + unat xu * ?Y) * unat m0i mod ?B"
    unfolding f_def unat_MUL31_lo by (simp only: d1 y1 mod_cong_prod)
  then have fb: "unat f < ?B" by simp
  obtain ws r where r: "mont_row (n div 4) xu f (words n d) (words n y) (words n m) 0 = (ws, r)" by force
  have l: "length (words n d) = n" "length (words n y) = n" "length (words n m) = n"
    using D assms(2) arr_words(1) [OF assms(3)] arr_words(1) [OF am] by (simp_all add: length_words)
  have v: "length ws = n" "words31 ws" "unat r < 2 ^ 32" "ival ws + ?W * unat r = ival (words n d) + unat xu * ?Y + unat f * ?M"
    using mont_row1_value [OF assms(5) fb _ _ _ _ _ _ r [unfolded mont_row_is_row1 [of "n div 4" "words n d" "words n y" "words n m", unfolded l, simplified]]]
      l D arr_words [OF assms(3)] arr_words [OF am] assms(2) by simp_all
  define zh where "zh = dh + r"
  have zh: "unat zh = unat dh + unat r" unfolding zh_def using D v(3) by (intro unat_add64) simp
  have t: "mont_turn y m m0i n s xu = (ws @ [ucast zh AND 0x7FFFFFFF] @ drop (n + 1) d, drop_bit 31 zh)"
    unfolding s mont_turn_def prod.case Let_def f_def [symmetric] r zh_def [symmetric] ..
  define T where "T = ival ws + ?W * unat zh"
  have TD: "T = dval n s + unat xu * ?Y + unat f * ?M" unfolding T_def zh s dval_def using v(4) by (simp add: algebra_simps)
  have "T mod ?B = 0"
  proof -
    have "?W mod ?B = 0" using n by (cases n) (simp_all add: power_add)
    then have "T mod ?B = (ival (words n d) + unat xu * ?Y + unat f * ?M) mod ?B"
      unfolding T_def v(4) [symmetric] by (metis add.right_neutral mod_add_right_eq mod_mult_left_eq mult_0 mod_0)
    also have "\<dots> = 0" unfolding f by (rule mont_factor [OF i(2)])
    finally show ?thesis .
  qed
  then have sh: "?B * (ival (tl ws @ [ucast zh AND 0x7FFFFFFF]) + ?W * (unat zh div ?B)) = T"
    by (intro row_shift [OF _ v(2), of _ "unat zh", unfolded v(1)] T_def low31_64) (use v(1) n in auto)
  let ?s = "mont_turn y m m0i n s xu"
  have ws: "words n (fst ?s) = tl ws @ [ucast zh AND 0x7FFFFFFF]" "length (fst ?s) = length d"
    unfolding t fst_conv using words_shifted [OF v(1) n, of d] D by simp_all
  have e: "?B * dval n ?s = T" using sh unfolding dval_def ws unfolding t snd_conv shr31_64 .
  then show "\<exists>f. 2 ^ 31 * dval n ?s = dval n s + unat xu * ?Y + f * ?M" unfolding TD by blast
  have dv: "dval n ?s < 2 * ?M"
  proof (rule mont_bound)
    show "Suc (2 ^ 31 - 1) * dval n ?s = dval n s + unat xu * ?Y + unat f * ?M" using e TD by simp
  qed (use D assms(4,5) fb s in \<open>simp_all add: dval_def\<close>)
  have "?M < ?W" using val_less [OF am] assms(2) by simp
  then have "?W * unat (snd ?s) < ?W * 2" using dv unfolding dval_def by linarith
  then have "unat (snd ?s) \<le> 1" by simp
  moreover have "unat (ucast zh AND 0x7FFFFFFF :: u32) < ?B" unfolding low31_64 by simp
  moreover have "words31 (tl ws)" using v(2) by (cases ws) simp_all
  ultimately show "dstate n l ?M ?s" unfolding dstate_def ws using dv D by simp
qed

section \<open>The product\<close>

lemma mont_fold_value:
  assumes "mont_ok h m m0i" "n = nwords h" "arr h y" "val y < val m" "words31 xs" "dstate n l (val m) s" "dval n s = 0"
  shows "dstate n l (val m) (foldl (mont_turn y m m0i n) s xs) \<and>
    (2 ^ (31 * length xs) * dval n (foldl (mont_turn y m m0i n) s xs)) mod val m = (ival xs * val y) mod val m"
  using assms(5)
proof (induction xs rule: rev_induct)
  case Nil
  then show ?case using assms(6,7) by simp
next
  case (snoc xu xs)
  let ?s = "foldl (mont_turn y m m0i n) s xs" and ?M = "val m" and ?P = "2 ^ (31 * length xs) :: nat"
  have IH: "dstate n l ?M ?s" "(?P * dval n ?s) mod ?M = (ival xs * val y) mod ?M" and xu: "unat xu < 2 ^ 31"
    using snoc by simp_all
  obtain f where f: "2 ^ 31 * dval n (mont_turn y m m0i n ?s xu) = dval n ?s + unat xu * val y + f * ?M"
    using mont_turn_value(2) [OF assms(1-4) xu IH(1)] by blast
  have "2 ^ (31 * length (xs @ [xu])) * dval n (mont_turn y m m0i n ?s xu) = ?P * (2 ^ 31 * dval n (mont_turn y m m0i n ?s xu))"
    by (simp add: power_add mult.assoc)
  also have "\<dots> = ?P * dval n ?s + ?P * unat xu * val y + ?P * f * ?M" unfolding f by (simp add: algebra_simps)
  also have "\<dots> mod ?M = (?P * dval n ?s + ?P * unat xu * val y) mod ?M" by simp
  also have "\<dots> = (ival xs * val y + ?P * unat xu * val y) mod ?M" using IH(2) by (metis mod_add_left_eq)
  also have "ival xs * val y + ?P * unat xu * val y = ival (xs @ [xu]) * val y" by (simp add: ival_append algebra_simps)
  finally show ?case using mont_turn_value(1) [OF assms(1-4) xu IH(1)] by simp
qed

lemma set_header:
  assumes "n = nwords h" "n < length d" "words31 (words n d)" "unat h < 2 ^ 32 - 64"
  shows "arr h (d[0 := h])" "val (d[0 := h]) = ival (words n d)"
proof -
  have "d[0 := h] ! 0 = h" "words n (d[0 := h]) = words n d" using assms(2) by (cases d; simp add: words_def)+
  then show "arr h (d[0 := h])" "val (d[0 := h]) = ival (words n d)" using assms by (auto simp: arr_def val_def)
qed

lemma sub_once:
  assumes "arr h d" "arr h m" "D = val d + 2 ^ (31 * nwords h) * t" "t \<le> 1" "D < 2 * val m"
  shows "\<exists>r. snd (br_i31_sub d m (of_bool (t \<noteq> 0) OR CT_NOT (fst (br_i31_sub d m 0)))) = r \<and> arr h r \<and> length r = length d \<and> val r = D mod val m"
proof -
  let ?W = "2 ^ (31 * nwords h) :: nat"
  let ?t = "t \<noteq> 0 \<or> val m \<le> val d"
  have c: "of_bool (t \<noteq> 0) OR CT_NOT (fst (br_i31_sub d m 0)) = of_bool ?t"
    using br_i31_sub_value [OF assms(1,2), of False] by (cases "t \<noteq> 0"; cases "val m \<le> val d") (auto simp: CT_NOT_def)
  obtain r where r: "br_i31_sub d m (of_bool ?t) = (of_bool (val d < val m), r)" "arr h r" "length r = length d"
      "val r = (if ?t then if val m \<le> val d then val d - val m else val d + ?W - val m else val d)"
    using br_i31_sub_value [OF assms(1,2), of ?t] by blast
  have b: "val d < ?W" "val m < ?W" using val_less assms(1,2) by auto
  have "val r = D mod val m"
  proof (cases "D < val m")
    case True
    then have "t = 0" using assms(3,4) b by (cases t) auto
    then show ?thesis using r(4) True assms(3) by simp
  next
    case False
    then have "D mod val m = D - val m" using assms(5) by (simp add: le_mod_geq)
    moreover have "t = 0 \<or> t = 1" using assms(4) by auto
    ultimately show ?thesis using r(4) False assms(3,5) b by auto
  qed
  then show ?thesis unfolding c using r by simp
qed

theorem montymul_value:
  assumes "mont_ok h m m0i" "arr h x" "arr h y" "val y < val m" "nwords h < length d"
  shows "arr h (br_i31_montymul d x y m m0i)" "length (br_i31_montymul d x y m m0i) = length d"
    "val (br_i31_montymul d x y m m0i) < val m"
    "(2 ^ (31 * nwords h) * val (br_i31_montymul d x y m m0i)) mod val m = (val x * val y) mod val m"
proof -
  let ?n = "nwords h"
  have m: "arr h m" "0 < val m" "m ! 0 = h" "unat h < 2 ^ 32 - 64" using assms(1) by (auto simp: mont_ok_def arr_def)
  have z: "words ?n (br_i31_zero d h) = replicate ?n 0" "length (br_i31_zero d h) = length d"
    using assms(5) by (simp_all add: br_i31_zero_def words_def)
  have s0: "dstate ?n (length d) (val m) (br_i31_zero d h, 0)" "dval ?n (br_i31_zero d h, 0) = 0"
    using assms(5) m(2) by (simp_all add: dstate_def dval_def z)
  obtain d' dh where f: "foldl (mont_turn y m m0i ?n) (br_i31_zero d h, 0) (words ?n x) = (d', dh)" by force
  note v = mont_fold_value [OF assms(1) refl assms(3,4) arr_words(2) [OF assms(2)] s0, unfolded f arr_words(1,3) [OF assms(2)]]
  have S: "length d' = length d" "?n < length d'" "words31 (words ?n d')" "unat dh \<le> 1" "dval ?n (d', dh) < 2 * val m"
    using v by (auto simp: dstate_def)
  note H = set_header [OF refl S(2,3) m(4)]
  have "unat (ucast dh :: u32) = unat dh" using S(4) by (simp add: unsigned_ucast_eq take_bit_nat_eq_self)
  then have nz: "NEQ (ucast dh) 0 = of_bool (unat dh \<noteq> 0)" unfolding NEQ_iff unat_eq_zero [symmetric] by simp
  have r: "br_i31_montymul d x y m m0i =
      snd (br_i31_sub (d'[0 := h]) m (of_bool (unat dh \<noteq> 0) OR CT_NOT (fst (br_i31_sub (d'[0 := h]) m 0))))"
    unfolding br_i31_montymul_def m(3) Let_def f prod.case nz ..
  obtain q where q: "br_i31_montymul d x y m m0i = q" "arr h q" "length q = length (d'[0 := h])" "val q = dval ?n (d', dh) mod val m"
    using sub_once [OF H(1) m(1) _ S(4,5)] H(2) unfolding r by (auto simp: dval_def)
  then show "arr h (br_i31_montymul d x y m m0i)" "length (br_i31_montymul d x y m m0i) = length d"
    "val (br_i31_montymul d x y m m0i) < val m" using S(1) m(2) by simp_all
  show "(2 ^ (31 * ?n) * val (br_i31_montymul d x y m m0i)) mod val m = (val x * val y) mod val m"
    unfolding q(1,4) using v by (simp add: mod_mult_right_eq)
qed

section \<open>Back from Montgomery representation\<close>

lemma fmont_row_is_row1: "fmont_row f xs ms cc = mont_row1 0 f xs xs ms cc"
  by (induction f xs ms cc rule: fmont_row.induct) (simp_all add: mont_word_def MUL31_def Let_def split: prod.splits)

lemma fmont_turn_value:
  assumes "mont_ok h m m0i" "arr h x" "val x < val m"
  shows "arr h (fmont_turn m m0i (nwords h) x)" "length (fmont_turn m m0i (nwords h) x) = length x"
    "\<exists>f. 2 ^ 31 * val (fmont_turn m m0i (nwords h) x) = val x + f * val m" "val (fmont_turn m m0i (nwords h) x) < val m"
proof -
  let ?n = "nwords h" and ?B = "2 ^ 31 :: nat" and ?M = "val m" and ?W = "2 ^ (31 * nwords h) :: nat"
  have n: "0 < ?n" and am: "arr h m" and i: "(unat m0i * ?M + 1) mod ?B = 0" using assms(1) by (simp_all add: mont_ok_def)
  define f where "f = MUL31_lo (x ! 1) m0i"
  have "unat (x ! 1) = val x mod ?B" using word1 [of ?n x] arr_words [OF assms(2)] assms(2) n by (simp add: arr_def)
  then have f: "unat f = val x * unat m0i mod ?B" unfolding f_def unat_MUL31_lo by (simp add: mod_mult_left_eq)
  then have fb: "unat f < ?B" by simp
  obtain ws cc where r: "fmont_row f (words ?n x) (words ?n m) 0 = (ws, cc)" by force
  have v: "length ws = ?n" "words31 ws" "unat cc < 2 ^ 32" "ival ws + ?W * unat cc = val x + unat f * ?M"
    using mont_row1_value [OF _ fb _ _ _ _ _ _ r [unfolded fmont_row_is_row1]] arr_words [OF assms(2)] arr_words [OF am] by simp_all
  have "(ival ws + ?W * unat cc) mod ?B = 0" unfolding v(4) f by (rule mont_factor [OF i])
  then have "?B * (ival (tl ws @ [ucast cc AND 0x7FFFFFFF]) + ?W * (unat cc div ?B)) = ival ws + ?W * unat cc"
    by (intro row_shift [OF _ v(2), of _ "unat cc", unfolded v(1)] refl low31_64) (use v(1) n in auto)
  then have e: "?B * (ival (tl ws @ [ucast cc AND 0x7FFFFFFF]) + ?W * (unat cc div ?B)) = val x + unat f * ?M"
    unfolding v(4) .
  have "unat f * ?M \<le> (?B - 1) * ?M" using fb by (intro mult_le_mono1) simp
  moreover have "(?B - 1) * ?M + ?M = ?B * ?M" by simp
  ultimately have "val x + unat f * ?M < ?B * ?M" using assms(3) by linarith
  then have lt: "ival (tl ws @ [ucast cc AND 0x7FFFFFFF]) + ?W * (unat cc div ?B) < ?M" unfolding e [symmetric] by simp
  then have c0: "unat cc div ?B = 0" using val_less [OF am] by (cases "unat cc div ?B") auto
  then have "unat cc < ?B" by (simp add: div_eq_0_iff)
  then have "(ucast cc AND 0x7FFFFFFF :: u32) = ucast cc" "unat (ucast cc :: u32) < ?B"
    by (simp_all add: word_unat_eq_iff low31_64 unsigned_ucast_eq take_bit_nat_eq_self)
  note c = this c0
  have t: "fmont_turn m m0i ?n x = set_words (tl ws @ [ucast cc]) x"
    unfolding fmont_turn_def Let_def f_def [symmetric] r prod.case ..
  have "length (tl ws @ [ucast cc :: u32]) = ?n" "words31 (tl ws @ [ucast cc])"
    using v(1,2) n c(2) by (cases ws; simp)+
  note w = set_words_arr [OF assms(2) this]
  show "arr h (fmont_turn m m0i ?n x)" "length (fmont_turn m m0i ?n x) = length x" unfolding t using w by simp_all
  show "val (fmont_turn m m0i ?n x) < ?M" unfolding t w(2) using lt c by simp
  show "\<exists>f. 2 ^ 31 * val (fmont_turn m m0i ?n x) = val x + f * ?M" unfolding t w(2) using e c by (intro exI [of _ "unat f"]) simp
qed

lemma fmont_turns:
  assumes "mont_ok h m m0i" "arr h x" "val x < val m"
  shows "arr h ((fmont_turn m m0i (nwords h) ^^ k) x) \<and> length ((fmont_turn m m0i (nwords h) ^^ k) x) = length x \<and>
    val ((fmont_turn m m0i (nwords h) ^^ k) x) < val m \<and>
    (2 ^ (31 * k) * val ((fmont_turn m m0i (nwords h) ^^ k) x)) mod val m = val x mod val m"
proof (induction k)
  case 0
  then show ?case using assms by simp
next
  case (Suc k)
  let ?x = "(fmont_turn m m0i (nwords h) ^^ k) x"
  have IH: "arr h ?x" "length ?x = length x" "val ?x < val m" "(2 ^ (31 * k) * val ?x) mod val m = val x mod val m" using Suc by simp_all
  obtain f where f: "2 ^ 31 * val (fmont_turn m m0i (nwords h) ?x) = val ?x + f * val m"
    using fmont_turn_value(3) [OF assms(1) IH(1,3)] by blast
  have "2 ^ (31 * Suc k) * val (fmont_turn m m0i (nwords h) ?x) = 2 ^ (31 * k) * (2 ^ 31 * val (fmont_turn m m0i (nwords h) ?x))"
    by (simp add: power_add mult.assoc)
  also have "\<dots> = 2 ^ (31 * k) * val ?x + 2 ^ (31 * k) * f * val m" unfolding f by (simp add: algebra_simps)
  also have "\<dots> mod val m = val x mod val m" using IH(4) by simp
  finally show ?case using fmont_turn_value [OF assms(1) IH(1,3)] IH(2) by simp
qed

theorem from_monty_value:
  assumes "mont_ok h m m0i" "arr h x" "val x < val m"
  shows "arr h (br_i31_from_monty x m m0i)" "length (br_i31_from_monty x m m0i) = length x"
    "val (br_i31_from_monty x m m0i) < val m" "(2 ^ (31 * nwords h) * val (br_i31_from_monty x m m0i)) mod val m = val x"
proof -
  let ?x = "(fmont_turn m m0i (nwords h) ^^ nwords h) x"
  have m: "arr h m" "m ! 0 = h" "0 < val m" using assms(1) by (auto simp: mont_ok_def arr_def)
  have v: "arr h ?x" "length ?x = length x" "val ?x < val m" "(2 ^ (31 * nwords h) * val ?x) mod val m = val x"
    using fmont_turns [OF assms, of "nwords h"] assms(3) by simp_all
  obtain q where q: "br_i31_from_monty x m m0i = q" "arr h q" "length q = length ?x" "val q = val ?x mod val m"
    using sub_once [OF v(1) m(1), of "val ?x" 0] v(3) unfolding br_i31_from_monty_def Let_def m(2) by auto
  then show "arr h (br_i31_from_monty x m m0i)" "length (br_i31_from_monty x m m0i) = length x"
    "val (br_i31_from_monty x m m0i) < val m" "(2 ^ (31 * nwords h) * val (br_i31_from_monty x m m0i)) mod val m = val x"
    using v m(3) by simp_all
qed

lemma mont_okI:
  assumes "arr (m ! 0) m" "odd (val m)"
  shows "mont_ok (m ! 0) m (br_i31_ninv31 (m ! 1))"
proof -
  let ?n = "nwords (m ! 0)"
  have n: "0 < ?n" using assms by (cases ?n) (auto simp: val_def words_def)
  have w: "unat (m ! 1) = val m mod 2 ^ 31" using word1 [of ?n m] arr_words [OF assms(1)] assms(1) n by (simp add: arr_def)
  have "odd (unat (m ! 1))" unfolding w using assms(2) by (simp add: dvd_mod_iff)
  note i = br_i31_ninv31_inverse [OF this]
  have "(unat (br_i31_ninv31 (m ! 1)) * val m + 1) mod 2 ^ 31 = 0"
    using i(1) unfolding w by (metis mod_add_left_eq mod_mult_right_eq)
  then show ?thesis using assms n i(2) by (auto simp: mont_ok_def intro: odd_pos)
qed

text \<open>
  C14. With an odd modulus and the inverse word that \<open>br_i31_ninv31\<close> computes for it, \<open>br_i31_montymul\<close> returns, for operands
  below the modulus, the number below the modulus that times \<open>R = 2 ^ (31 * n)\<close> is the product of the operands modulo the modulus;
  \<open>br_i31_from_monty\<close> returns the number that times \<open>R\<close> is the operand. No operation overflows and only the value words
  of the destination change.
\<close>

theorem montymul_is_montgomery:
  assumes "arr (m ! 0) m" "odd (val m)" "m0i = br_i31_ninv31 (m ! 1)" "arr (m ! 0) x" "val x < val m" "arr (m ! 0) y" "val y < val m"
    "nwords (m ! 0) < length d"
  shows "arr (m ! 0) (br_i31_montymul d x y m m0i) \<and> length (br_i31_montymul d x y m m0i) = length d \<and>
    val (br_i31_montymul d x y m m0i) < val m \<and>
    (2 ^ (31 * nwords (m ! 0)) * val (br_i31_montymul d x y m m0i)) mod val m = (val x * val y) mod val m \<and>
    arr (m ! 0) (br_i31_from_monty x m m0i) \<and> length (br_i31_from_monty x m m0i) = length x \<and>
    val (br_i31_from_monty x m m0i) < val m \<and>
    (2 ^ (31 * nwords (m ! 0)) * val (br_i31_from_monty x m m0i)) mod val m = val x"
proof -
  have "mont_ok (m ! 0) m m0i" unfolding assms(3) by (rule mont_okI [OF assms(1,2)])
  then show ?thesis using montymul_value [OF _ assms(4,6,7,8)] from_monty_value [OF _ assms(4,5)] by simp
qed

theorem montymul_is_montgomery_witness:
  "val (br_i31_montymul [0, 0] [3, 4] [3, 5] [3, 7] (br_i31_ninv31 7)) < val [3, 7] \<and>
    (2 ^ 31 * val (br_i31_montymul [0, 0] [3, 4] [3, 5] [3, 7] (br_i31_ninv31 7))) mod 7 = 6"
proof -
  have v: "nwords 3 = 1" "val [3, 7] = 7" "val [3, 4] = 4" "val [3, 5] = 5"
      "arr 3 [3, 7]" "arr 3 [3, 4]" "arr 3 [3, 5]"
    by (simp_all add: nwords_def val_def words_def arr_def)
  have "odd (7 :: nat)" by simp
  then show ?thesis
    using montymul_is_montgomery [of "[3, 7]" "br_i31_ninv31 7" "[3, 4]" "[3, 5]" "[0, 0]"] v by simp
qed

end
