(* ===== verification/Bigint_Mod.thy ===== *)
theory Bigint_Mod
  imports Bigint_Div Bigint_Monty
begin

text \<open>
  Shifting by one word modulo \<open>m\<close> (\<^verbatim>\<open>int/i31_muladd.c\<close>), and what is built on it: conversion to
  Montgomery representation (\<^verbatim>\<open>int/i31_tmont.c\<close>) and reduction (\<^verbatim>\<open>int/i31_reduce.c\<close>). The quotient of
  \<open>x * 2 ^ 31 + z\<close> by \<open>m\<close> is estimated from the top words with \<open>br_div\<close>; it is off by at most one, and the
  remainder is corrected by one conditional addition and one conditional subtraction.
\<close>

unbundle bit_operations_syntax

section \<open>The code\<close>

fun muladd_loop :: "u32 \<Rightarrow> u32 list \<Rightarrow> u32 list \<Rightarrow> u32 \<Rightarrow> u32 \<Rightarrow> u32 list \<times> u32 \<times> u32" where
  "muladd_loop q (xw # xs) (mw # ms) cc tb =
     (let zl = MUL31 mw q + ucast cc;
          cc = ucast (drop_bit 31 zl);
          zw = ucast zl AND 0x7FFFFFFF;
          nxw = xw - zw;
          cc = cc + drop_bit 31 nxw;
          nxw = nxw AND 0x7FFFFFFF;
          tb = MUX (EQ nxw mw) tb (GT nxw mw);
          (r, cc, tb) = muladd_loop q xs ms cc tb
      in (nxw # r, cc, tb))"
| "muladd_loop q _ _ cc tb = ([], cc, tb)"

text \<open>The top 31 bits of an integer of \<open>mlen\<close> words whose top word has \<open>mblr\<close> bits.\<close>

definition top31 :: "nat \<Rightarrow> nat \<Rightarrow> u32 list \<Rightarrow> u32" where
  "top31 mlen mblr x =
     (if mblr = 0 then x ! mlen
      else (push_bit (31 - mblr) (x ! mlen) OR drop_bit mblr (x ! (mlen - 1))) AND 0x7FFFFFFF)"

definition br_i31_muladd_small :: "u32 list \<Rightarrow> u32 \<Rightarrow> u32 list \<Rightarrow> u32 list" where
  "br_i31_muladd_small x z m =
     (let m_bitlen = m ! 0 in
      if m_bitlen = 0 then x
      else if m_bitlen \<le> 31 then
        (let hi = drop_bit 1 (x ! 1);
             lo = push_bit 31 (x ! 1) OR z
         in x[1 := br_rem hi lo (m ! 1)])
      else
        (let mlen = nwords m_bitlen;
             mblr = unat (m_bitlen AND 31);
             hi = x ! mlen;
             a0 = top31 mlen mblr x;
             x = set_words (z # words (mlen - 1) x) x;
             a1 = top31 mlen mblr x;
             b0 = top31 mlen mblr m;
             g = br_div (drop_bit 1 a0) (a1 OR push_bit 31 a0) b0;
             q = MUX (EQ a0 b0) 0x7FFFFFFF (MUX (EQ g 0) 0 (g - 1));
             (ws, cc, tb) = muladd_loop q (words mlen x) (words mlen m) 0 1;
             x = set_words ws x;
             over = GT cc hi;
             under = NOT over AND (tb OR LT cc hi);
             x = snd (br_i31_add x m over)
         in snd (br_i31_sub x m under)))"

definition br_i31_to_monty :: "u32 list \<Rightarrow> u32 list \<Rightarrow> u32 list" where
  "br_i31_to_monty x m = ((\<lambda>x. br_i31_muladd_small x 0 m) ^^ nwords (m ! 0)) x"

fun i31_reduce_loop :: "nat \<Rightarrow> u32 list \<Rightarrow> u32 list \<Rightarrow> u32 list \<Rightarrow> u32 list" where
  "i31_reduce_loop 0 x a m = x"
| "i31_reduce_loop (Suc u) x a m = i31_reduce_loop u (br_i31_muladd_small x (a ! Suc u) m) a m"

definition br_i31_reduce :: "u32 list \<Rightarrow> u32 list \<Rightarrow> u32 list \<Rightarrow> u32 list" where
  "br_i31_reduce x a m =
     (let m_bitlen = m ! 0;
          mlen = nwords m_bitlen;
          x = x[0 := m_bitlen];
          a_bitlen = a ! 0;
          alen = nwords a_bitlen
      in if m_bitlen = 0 then x
         else if a_bitlen < m_bitlen then set_words (words alen a @ replicate (mlen - alen) 0) x
         else
           (let x = set_words (take (mlen - 1) (drop (2 + (alen - mlen)) a) @ [0]) x
            in i31_reduce_loop (1 + alen - mlen) x a m))"

section \<open>The estimate of the quotient\<close>

lemma quotient_estimate:
  fixes a b M P w :: nat
  assumes "0 < P" "A = a div P" "b = M div P" "w \<le> 2 * b" "0 < b" "A < (b + 1) * w"
  shows "a div M \<le> A div b" "A div b \<le> a div M + 2"
proof -
  have M: "b * P \<le> M" "M < (b + 1) * P" using assms(1,3) by (simp_all add: div_times_less_eq_dividend dividend_less_div_times)
  then have M0: "0 < M" using assms(1,5) by (meson mult_pos_pos order_less_le_trans)
  have "a div M \<le> a div (P * b)" using M(1) assms(1,5) by (intro div_le_mono2) (simp_all add: mult.commute)
  then show "a div M \<le> A div b" unfolding assms(2) by (simp add: div_mult2_eq)
  let ?u = "A div b"
  have u: "?u \<le> w + 1"
  proof -
    have "A < (w + 2) * b" using assms(4,6) by (simp add: algebra_simps)
    then have "?u < w + 2" by (rule less_mult_imp_div_less)
    then show ?thesis by simp
  qed
  show "?u \<le> a div M + 2"
  proof (rule ccontr)
    assume c: "\<not> ?u \<le> a div M + 2"
    have "?u * b \<le> A" by (rule div_times_less_eq_dividend)
    then have "?u * b * P \<le> A * P" by (rule mult_le_mono1)
    also have "\<dots> \<le> a" unfolding assms(2) by (rule div_times_less_eq_dividend)
    also have "a < (a div M + 1) * M" using dividend_less_div_times [OF M0, of a] by (simp add: algebra_simps)
    also have "\<dots> \<le> (?u - 2) * M" using c by (intro mult_le_mono1) simp
    also have "\<dots> \<le> (?u - 2) * ((b + 1) * P)" using M(2) by (intro mult_le_mono2) simp
    finally have "(?u * b) * P < ((?u - 2) * (b + 1)) * P" by (simp only: mult.assoc)
    then have "?u * b < (?u - 2) * (b + 1)" by (simp only: mult_less_cancel2)
    then have "?u * b < ?u * b + ?u - 2 * (b + 1)" by (simp add: diff_mult_distrib algebra_simps)
    moreover have "\<not> x < x + v - 2 * (b + 1)" if "v \<le> w + 1" for x v :: nat using that assms(4) by (simp add: not_less)
    ultimately show False using u by blast
  qed
qed

section \<open>Subtraction of a multiple of the modulus\<close>

lemma compare_words:
  fixes x y :: nat
  assumes "x < b" "y < b"
  shows "(if if x = y then t else y < x then Y \<le> X else Y < X) \<longleftrightarrow> (if t then y + b * Y \<le> x + b * X else y + b * Y < x + b * X)"
proof (cases X Y rule: linorder_cases)
  case less
  then have "b * (X + 1) \<le> b * Y" by (intro mult_le_mono2) simp
  then show ?thesis using assms less by auto
next
  case greater
  then have "b * (Y + 1) \<le> b * X" by (intro mult_le_mono2) simp
  then show ?thesis using assms greater by auto
qed auto

lemma muladd_word:
  fixes q xw mw cc :: u32
  assumes "unat q < 2 ^ 31" "unat xw < 2 ^ 31" "unat mw < 2 ^ 31" "unat cc \<le> 2 ^ 31"
  defines "zl \<equiv> MUL31 mw q + ucast cc"
  defines "nxw \<equiv> xw - (ucast zl AND 0x7FFFFFFF)"
  defines "c1 \<equiv> ucast (drop_bit 31 zl) + drop_bit 31 nxw"
  shows "unat (nxw AND 0x7FFFFFFF) + unat q * unat mw + unat cc = unat xw + 2 ^ 31 * unat c1" "unat c1 \<le> 2 ^ 31"
proof -
  let ?B = "2 ^ 31 :: nat"
  have m: "unat (MUL31 mw q) \<le> (?B - 1) * (?B - 1)" by (rule MUL31_bound) (use assms in simp_all)
  then have z: "unat zl = unat mw * unat q + unat cc" "unat zl \<le> (?B - 1) * ?B + 1"
    using assms(4) unfolding zl_def by (simp_all add: unat_add64 unat_ucast64 flip: unat_MUL31)
  have d: "unat zl div ?B \<le> ?B - 1"
  proof -
    have "unat zl < ?B * ?B" using z(2) by simp
    then show ?thesis by (simp add: less_mult_imp_div_less less_Suc_eq_le [symmetric])
  qed
  then have u: "unat (ucast (drop_bit 31 zl) :: u32) = unat zl div ?B"
    by (simp add: unsigned_ucast_eq take_bit_nat_eq_self shr31_64)
  have c: "unat c1 = unat zl div ?B + unat (drop_bit 31 nxw)" unfolding c1_def
    using d split31(3) [of nxw] by (subst unat_add32) (simp_all add: u)
  have "unat (nxw AND 0x7FFFFFFF) + unat zl mod ?B = unat xw + ?B * unat (drop_bit 31 nxw)"
    using borrow31 [of xw "ucast zl AND 0x7FFFFFFF" 0] assms(2) low31_64 [of zl] unfolding nxw_def by simp
  moreover have "unat q * unat mw + unat cc = unat zl mod ?B + ?B * (unat zl div ?B)" using z(1) by (simp add: mult.commute)
  ultimately show "unat (nxw AND 0x7FFFFFFF) + unat q * unat mw + unat cc = unat xw + 2 ^ 31 * unat c1"
    unfolding c distrib_left by linarith
  show "unat c1 \<le> ?B" unfolding c using d split31(3) [of nxw] by simp
qed

lemma muladd_loop_value:
  assumes "unat q < 2 ^ 31" "length ms = length xs" "words31 xs" "words31 ms" "unat cc \<le> 2 ^ 31"
    "muladd_loop q xs ms cc (of_bool b) = (r, c, t)"
  shows "length r = length xs \<and> words31 r \<and> unat c \<le> 2 ^ 31 \<and> ival r + unat q * ival ms + unat cc = ival xs + 2 ^ (31 * length xs) * unat c \<and>
    t = of_bool (if b then ival ms \<le> ival r else ival ms < ival r)"
  using assms
proof (induction xs arbitrary: ms cc b r c t)
  case (Cons xw xs)
  obtain mw ms' where ms: "ms = mw # ms'" using Cons.prems(2) by (cases ms) auto
  let ?B = "2 ^ 31 :: nat"
  define zl where "zl = MUL31 mw q + ucast cc"
  define nxw where "nxw = xw - (ucast zl AND 0x7FFFFFFF)"
  define c1 where "c1 = ucast (drop_bit 31 zl) + drop_bit 31 nxw"
  define w where "w = nxw AND 0x7FFFFFFF"
  define b1 where "b1 = (if w = mw then b else mw < w)"
  have tb: "MUX (EQ w mw) (of_bool b) (GT w mw) = of_bool b1" by (simp add: b1_def)
  obtain r' c' t' where l: "muladd_loop q xs ms' c1 (of_bool b1) = (r', c', t')" by (metis prod_cases3)
  have eq: "r = w # r'" "c = c'" "t = t'"
    using Cons.prems(6) unfolding ms muladd_loop.simps Let_def zl_def [symmetric] nxw_def [symmetric] c1_def [symmetric] w_def [symmetric] tb l
    by simp_all
  have W: "unat w + unat q * unat mw + unat cc = unat xw + ?B * unat c1" "unat c1 \<le> ?B"
    unfolding w_def nxw_def c1_def zl_def using muladd_word [of q xw mw cc] Cons.prems unfolding ms by simp_all
  have IH: "length r' = length xs" "words31 r'" "unat c' \<le> ?B"
      "ival r' + unat q * ival ms' + unat c1 = ival xs + 2 ^ (31 * length xs) * unat c'"
      "t' = of_bool (if b1 then ival ms' \<le> ival r' else ival ms' < ival r')"
    using Cons.IH [OF _ _ _ _ W(2) l] Cons.prems unfolding ms by simp_all
  have "ival r + unat q * ival ms + unat cc = (unat w + unat q * unat mw + unat cc) + ?B * (ival r' + unat q * ival ms')"
    unfolding ms eq by (simp add: algebra_simps)
  also have "\<dots> = unat xw + ?B * (ival r' + unat q * ival ms' + unat c1)" unfolding W(1) by (simp add: algebra_simps)
  also have "\<dots> = ival (xw # xs) + 2 ^ (31 * length (xw # xs)) * unat c" unfolding IH(4) eq by (simp add: power_add algebra_simps)
  finally have v: "ival r + unat q * ival ms + unat cc = ival (xw # xs) + 2 ^ (31 * length (xw # xs)) * unat c" .
  have wb: "unat w < ?B" "unat mw < ?B" unfolding w_def using split31(2) [of nxw] Cons.prems(4) ms by simp_all
  have "b1 = (if unat w = unat mw then b else unat mw < unat w)" by (simp add: b1_def word_less_nat_alt word_unat_eq_iff)
  then have "t = of_bool (if b then ival ms \<le> ival r else ival ms < ival r)"
    unfolding eq IH(5) ms using compare_words [OF wb, of b "ival ms'" "ival r'"] by (simp only: ival.simps)
  then show ?case using v IH wb eq by simp
qed simp_all

section \<open>The top words\<close>

lemma ival_div: "words31 ws \<Longrightarrow> i \<le> length ws \<Longrightarrow> ival ws div 2 ^ (31 * i) = ival (drop i ws)"
proof -
  assume w: "words31 ws" "i \<le> length ws"
  then have "words31 (take i ws)" by (metis append_take_drop_id words31_simps(3))
  then have "ival (take i ws) < 2 ^ (31 * i)" using ival_less [of "take i ws"] w(2) by (simp add: min_absorb2)
  then show ?thesis using ival_append [of "take i ws" "drop i ws"] w(2) by simp
qed

lemma header_parts:
  assumes "unat h < 2 ^ 32 - 64" "31 < unat h"
  shows "unat (h AND 31) = unat h mod 32" "unat h mod 32 = 0 \<Longrightarrow> hbits h = 31 * nwords h \<and> 0 < nwords h"
    "unat h mod 32 \<noteq> 0 \<Longrightarrow> hbits h = 31 * (nwords h - 1) + unat h mod 32 \<and> 1 < nwords h"
proof -
  show "unat (h AND 31) = unat h mod 32" using and_low(1) [of 5 h] by simp
  have n: "nwords h = (unat h + 31) div 32" by (rule nwords_nat [OF assms(1)])
  have k: "unat h = 32 * (unat h div 32) + unat h mod 32" "0 < unat h div 32" using assms(2) by (simp_all add: div_greater_zero_iff)
  show "hbits h = 31 * nwords h \<and> 0 < nwords h" if "unat h mod 32 = 0"
  proof -
    have "unat h + 31 = 32 * (unat h div 32) + 31" using that k(1) by simp
    then have "nwords h = unat h div 32" unfolding n by simp
    then show ?thesis using k(2) that by (simp add: hbits_def)
  qed
  show "hbits h = 31 * (nwords h - 1) + unat h mod 32 \<and> 1 < nwords h" if "unat h mod 32 \<noteq> 0"
  proof -
    have "32 * (unat h div 32) + 32 \<le> unat h + 31" "unat h + 31 < 32 * (unat h div 32) + 64" using that k(1) by linarith+
    then have "nwords h = unat h div 32 + 1" unfolding n by (intro div_nat_eqI) simp_all
    then show ?thesis using k(2) by (simp add: hbits_def)
  qed
qed

lemma mod_mult_shift:
  fixes r p w q :: nat
  assumes "r < p"
  shows "(p * w + r) mod (p * q) = p * (w mod q) + r"
proof (cases "q = 0")
  case False
  then have "w mod q + 1 \<le> q" by (simp add: Suc_leI)
  then have "p * (w mod q + 1) \<le> p * q" by (rule mult_le_mono2)
  then have "p * (w mod q) + r < p * q" using assms by simp
  moreover have "(p * w + r) mod (p * q) = (p * (w mod q) + r) mod (p * q)" by (metis mod_add_left_eq mod_mult_mult1)
  ultimately show ?thesis by simp
qed simp

lemma top31_value:
  assumes "unat h < 2 ^ 32 - 64" "31 < unat h" "n = nwords h" "n < length x" "words31 (words n x)"
  shows "unat (top31 n (unat (h AND 31)) x) = (ival (words n x) div 2 ^ (hbits h - 31)) mod 2 ^ 31"
proof (cases "unat h mod 32 = 0")
  case True
  note p = header_parts [OF assms(1,2)]
  let ?ws = "words n x"
  have n: "0 < n" "hbits h - 31 = 31 * (n - 1)" using p(2) [OF True] assms(3) by (auto simp: diff_mult_distrib2)
  have w: "drop (n - 1) ?ws = [x ! n]" using n(1) assms(4) by (intro nth_equalityI) (auto simp: words_def)
  have "unat (x ! n) < 2 ^ 31" using assms(5) w by (metis append_take_drop_id words31_simps(2,3))
  moreover have "ival ?ws div 2 ^ (hbits h - 31) = unat (x ! n)"
    unfolding n(2) using ival_div [OF assms(5), of "n - 1"] length_words [OF assms(4)] w by simp
  ultimately show ?thesis unfolding top31_def p(1) True by simp
next
  case False
  note p = header_parts [OF assms(1,2)]
  let ?ws = "words n x" and ?r = "unat h mod 32"
  have n: "1 < n" "hbits h - 31 = 31 * (n - 2) + ?r" using p(3) [OF False] assms(3) by (auto simp: diff_mult_distrib2)
  have w: "drop (n - 2) ?ws = [x ! (n - 1), x ! n]"
    using n(1) assms(4) by (intro nth_equalityI) (auto simp: words_def less_Suc_eq nth_Cons' intro!: arg_cong [where f = "(!) x"])
  have u: "unat (x ! n) < 2 ^ 31" "unat (x ! (n - 1)) < 2 ^ 31" using assms(5) w by (metis append_take_drop_id words31_simps(2,3))+
  have "?r < 32" by simp
  then have r: "?r \<le> 31" by linarith
  have q: "(2 :: nat) ^ (31 - ?r) * 2 ^ ?r = 2 ^ 31" unfolding power_add [symmetric] using r by simp
  have d: "unat (drop_bit ?r (x ! (n - 1))) = unat (x ! (n - 1)) div 2 ^ ?r" by (rule unat_shr)
  have lo: "unat (x ! (n - 1)) div 2 ^ ?r < 2 ^ (31 - ?r)" using u(2) by (simp add: less_mult_imp_div_less q)
  have "ival ?ws div 2 ^ (hbits h - 31) = ival (drop (n - 2) ?ws) div 2 ^ ?r"
    unfolding n(2) power_add div_mult2_eq using ival_div [OF assms(5), of "n - 2"] length_words [OF assms(4)] by simp
  also have "ival (drop (n - 2) ?ws) = unat (x ! (n - 1)) + 2 ^ (31 - ?r) * unat (x ! n) * 2 ^ ?r"
    unfolding w ival.simps q [symmetric] by (simp add: mult_ac)
  also have "\<dots> div 2 ^ ?r = unat (x ! (n - 1)) div 2 ^ ?r + 2 ^ (31 - ?r) * unat (x ! n)" by simp
  finally have e: "ival ?ws div 2 ^ (hbits h - 31) = 2 ^ (31 - ?r) * unat (x ! n) + unat (x ! (n - 1)) div 2 ^ ?r" by simp
  have "unat (top31 n (unat (h AND 31)) x) = 2 ^ (31 - ?r) * (unat (x ! n) mod 2 ^ ?r) + unat (x ! (n - 1)) div 2 ^ ?r"
    unfolding top31_def p(1) d [symmetric]
    using False unat_or_shift [of "drop_bit ?r (x ! (n - 1))" "31 - ?r" "x ! n"] lo [folded d] r by simp
  also have "\<dots> = (2 ^ (31 - ?r) * unat (x ! n) + unat (x ! (n - 1)) div 2 ^ ?r) mod 2 ^ 31"
    using mod_mult_shift [of "unat (x ! (n - 1)) div 2 ^ ?r" "2 ^ (31 - ?r)" "unat (x ! n)" "2 ^ ?r"] lo unfolding q by simp
  finally show ?thesis unfolding e .
qed

section \<open>The correction\<close>

lemma correct_remainder:
  fixes a M W X c t q :: nat
  assumes "M < W" "X < W" "0 < M" "a + W * c = X + q * M + W * t" "q \<le> a div M + 1" "a div M \<le> q + 1"
  shows "t < c \<Longrightarrow> (X + M) mod W = a mod M"
    "c < t \<Longrightarrow> X < M \<and> X + W - M = a mod M"
    "c = t \<Longrightarrow> M \<le> X \<Longrightarrow> X - M = a mod M"
    "c = t \<Longrightarrow> X < M \<Longrightarrow> X = a mod M"
proof -
  define Q R where "Q = a div M" and "R = a mod M"
  have a: "a = Q * M + R" "R < M" using assms(3) by (simp_all add: Q_def R_def)
  have "q = Q + 1 \<or> q = Q \<or> Q = q + 1" using assms(5,6) unfolding Q_def [symmetric] by linarith
  then have e: "R + W * c = X + M + W * t \<or> R + W * c = X + W * t \<or> M + R + W * c = X + W * t"
    using assms(4) unfolding a(1) by (auto simp: algebra_simps)
  { assume "t < c"
    then obtain k where "c = t + Suc k" using less_imp_Suc_add by auto
    then have e': "R + W + W * k = X + M \<or> R + W + W * k = X \<or> M + R + W + W * k = X" using e by (auto simp: algebra_simps)
    have "k = 0" using e' assms(1,2) by (cases k) auto
    then have "X + M = R + W" using e' assms(1,2) by auto
    then show "(X + M) mod W = a mod M" unfolding R_def [symmetric] using a(2) assms(1) by simp }
  { assume "c < t"
    then obtain k where "t = c + Suc k" using less_imp_Suc_add by auto
    then have e': "R = X + M + W + W * k \<or> R = X + W + W * k \<or> M + R = X + W + W * k" using e by (auto simp: algebra_simps)
    have "k = 0" using e' assms(1,2) a(2) by (cases k) auto
    then have "M + R = X + W" using e' assms(1,2) a(2) by auto
    then show "X < M \<and> X + W - M = a mod M" unfolding R_def [symmetric] using a(2) assms(1) by auto }
  show "X - M = a mod M" if "c = t" "M \<le> X" unfolding R_def [symmetric] using e that a(2) by auto
  show "X = a mod M" if "c = t" "X < M" unfolding R_def [symmetric] using e that a(2) by auto
qed

lemma slice_mod: "s + t \<le> w \<Longrightarrow> (a mod 2 ^ w) div 2 ^ s mod 2 ^ t = (a div 2 ^ s) mod (2 ^ t :: nat)"
proof -
  assume st: "s + t \<le> w"
  have "take_bit t (drop_bit s (take_bit w a)) = take_bit t (drop_bit s a)"
    by (rule bit_eqI) (use st in \<open>auto simp: bit_simps\<close>)
  then show ?thesis by (simp add: take_bit_eq_mod drop_bit_eq_div)
qed

text \<open>The quotient word from the top words.\<close>

lemma pair_top:
  fixes a0 a1 :: u32
  assumes "unat a1 < 2 ^ 31"
  shows "pair (drop_bit 1 a0) (a1 OR push_bit 31 a0) = 2 ^ 31 * unat a0 + unat a1"
proof -
  have "unat (a1 OR push_bit 31 a0) = unat a1 OR unat (push_bit 31 a0)" by (rule unsigned_or_eq)
  also have "unat (push_bit 31 a0) = push_bit 31 (unat a0 mod 2)"
    using mult_mod_left [of "unat a0" 2 "2 ^ 31"] unfolding unat_shl by (simp add: push_bit_eq_mult)
  also have "unat a1 OR push_bit 31 (unat a0 mod 2) = 2 ^ 31 * (unat a0 mod 2) + unat a1"
    unfolding or_shift [OF assms] by (rule or.commute)
  finally have "unat (a1 OR push_bit 31 a0) = 2 ^ 31 * (unat a0 mod 2) + unat a1" .
  moreover have "unat a0 = 2 * (unat a0 div 2) + unat a0 mod 2" by simp
  moreover have "d * 2 ^ 32 + (2 ^ 31 * r + c) = 2 ^ 31 * (2 * d + r) + c" for d r c :: nat by (simp add: algebra_simps)
  ultimately show ?thesis unfolding pair_def unat_shr power_one_right by metis
qed

lemma quotient_word:
  fixes a0 a1 b0 :: u32
  assumes "unat a0 \<le> unat b0" "unat a1 < 2 ^ 31" "unat b0 < 2 ^ 31" "2 ^ 31 \<le> 2 * unat b0"
    "A = unat a0 * 2 ^ 31 + unat a1" "Q \<le> A div unat b0" "A div unat b0 \<le> Q + 2" "Q < 2 ^ 31"
  defines "g \<equiv> br_div (drop_bit 1 a0) (a1 OR push_bit 31 a0) b0"
  defines "q \<equiv> MUX (EQ a0 b0) 0x7FFFFFFF (MUX (EQ g 0) 0 (g - 1))"
  shows "unat q < 2 ^ 31" "unat q \<le> Q + 1" "Q \<le> unat q + 1"
proof -
  let ?u = "A div unat b0"
  have u0: "unat b0 \<noteq> 0" by (rule notI) (use assms(4) in simp)
  then have b0: "b0 \<noteq> 0" "0 < unat b0" unfolding unat_eq_zero [symmetric] by simp_all
  have pr: "pair (drop_bit 1 a0) (a1 OR push_bit 31 a0) = A" unfolding assms(5) using pair_top [OF assms(2)] by simp
  have "drop_bit 1 a0 \<le> b0" unfolding word_le_nat_alt unat_shr using assms(1) by simp
  then have "g = of_nat ?u" unfolding g_def br_div_def using br_divrem_value [OF _ b0(1)] pr by simp
  moreover have "?u < 2 ^ 32" using assms(7,8) by simp
  ultimately have g: "unat g = ?u" by (simp add: unat_of_nat take_bit_nat_eq_self)
  have "unat q < 2 ^ 31 \<and> unat q \<le> Q + 1 \<and> Q \<le> unat q + 1"
  proof (cases "a0 = b0")
    case True
    then have "2 ^ 31 \<le> ?u" unfolding assms(5) using b0(2) by (simp add: div_mult_self1)
    moreover have "unat q = 2 ^ 31 - 1" using True by (simp add: q_def)
    ultimately show ?thesis using assms(7,8) by simp
  next
    case False
    then have "unat a0 + 1 \<le> unat b0" using assms(1) by (auto simp: word_unat_eq_iff le_less)
    then have "(unat a0 + 1) * 2 ^ 31 \<le> unat b0 * 2 ^ 31" by (rule mult_le_mono1)
    then have "A < 2 ^ 31 * unat b0" unfolding assms(5) using assms(2) by (simp add: algebra_simps)
    then have "?u < 2 ^ 31" by (rule less_mult_imp_div_less)
    moreover have "unat q = ?u - 1"
    proof (cases "g = 0")
      case True
      then show ?thesis using False g by (simp add: q_def)
    next
      case False
      then have "unat (g - 1) = unat g - 1" by (simp add: unat_diff Suc_le_eq unat_gt_0)
      then show ?thesis using False \<open>a0 \<noteq> b0\<close> g by (simp add: q_def)
    qed
    ultimately show ?thesis using assms(6,7) by auto
  qed
  then show "unat q < 2 ^ 31" "unat q \<le> Q + 1" "Q \<le> unat q + 1" by simp_all
qed

section \<open>Shift by one word modulo m\<close>

text \<open>The words after the shift, and the word pushed out at the top.\<close>

lemma shift_words:
  assumes "arr h x" "0 < nwords h" "unat z < 2 ^ 31"
  defines "x' \<equiv> set_words (z # words (nwords h - 1) x) x"
  shows "arr h x'" "length x' = length x" "val x' + 2 ^ (31 * nwords h) * unat (x ! nwords h) = 2 ^ 31 * val x + unat z"
    "unat (x ! nwords h) < 2 ^ 31"
proof -
  let ?n = "nwords h"
  have l: "?n < length x" "words31 (words ?n x)" using assms(1) by (auto simp: arr_def)
  have w: "words ?n x = words (?n - 1) x @ [x ! ?n]"
    using take_Suc_conv_app_nth [of "?n - 1" "drop 1 x"] assms(2) l(1) by (simp add: words_def)
  then have v: "words31 (words (?n - 1) x)" "unat (x ! ?n) < 2 ^ 31" "length (words (?n - 1) x) = ?n - 1"
    using l by (auto simp: length_words)
  note s = set_words_arr [OF assms(1), of "z # words (?n - 1) x"]
  show "arr h x'" "length x' = length x" unfolding x'_def using s v assms(2,3) by simp_all
  have "(2 :: nat) ^ (31 * ?n) = 2 ^ 31 * 2 ^ (31 * (?n - 1))" unfolding power_add [symmetric] using assms(2)
    by (cases ?n) simp_all
  then show "val x' + 2 ^ (31 * ?n) * unat (x ! ?n) = 2 ^ 31 * val x + unat z"
    unfolding x'_def using s(2) v assms(2,3) arr_words(3) [OF assms(1)] w by (simp add: ival_append algebra_simps)
  show "unat (x ! ?n) < 2 ^ 31" by (rule v(2))
qed

lemma muladd_short:
  assumes "exact m" "arr (m ! 0) x" "val x \<le> val m" "unat z < 2 ^ 31" "m ! 0 \<noteq> 0" "m ! 0 \<le> 31" "0 < val m"
  shows "arr (m ! 0) (br_i31_muladd_small x z m) \<and> length (br_i31_muladd_small x z m) = length x \<and>
    val (br_i31_muladd_small x z m) = (2 ^ 31 * val x + unat z) mod val m"
proof -
  define h where "h = m ! 0"
  have h: "unat h < 2 ^ 32 - 64" "unat h \<le> 31" "0 < unat h" "arr h m" "arr h x"
    using assms unfolding h_def [symmetric] word_le_nat_alt by (auto simp: exact_def arr_def h_def unat_gt_0)
  have n: "nwords h = 1" unfolding nwords_nat [OF h(1)] using h(2,3) by (simp add: div_nat_eqI)
  have one: "val v = unat (v ! 1)" "words (nwords h) v = [v ! 1]" "1 < length v" if "arr h v" for v
  proof -
    show "1 < length v" using that n by (auto simp: arr_def)
    then show w: "words (nwords h) v = [v ! 1]" unfolding n words_def by (cases v; cases "tl v") auto
    show "val v = unat (v ! 1)" using arr_words(3) [OF that] unfolding w by simp
  qed
  let ?a = "2 ^ 31 * val x + unat z" and ?r = "br_rem (drop_bit 1 (x ! 1)) (push_bit 31 (x ! 1) OR z) (m ! 1)"
  have m0: "m ! 1 \<noteq> 0" "x ! 1 \<le> m ! 1" using assms(3,7) one(1) [OF h(4)] one(1) [OF h(5)] by (auto simp: word_le_nat_alt)
  have "pair (drop_bit 1 (x ! 1)) (push_bit 31 (x ! 1) OR z) = ?a"
    using pair_top [OF assms(4), of "x ! 1"] one(1) [OF h(5)] by (simp add: or.commute)
  moreover have "drop_bit 1 (x ! 1) \<le> m ! 1" using m0(2) unfolding word_le_nat_alt unat_shr by simp
  ultimately have "?r = of_nat (?a mod val m)" using br_divrem_value [OF _ m0(1)] one(1) [OF h(4)] by (simp add: br_rem_def)
  moreover have "?a mod val m < 2 ^ 31"
    by (rule less_trans [OF mod_less_divisor]) (use assms(7) val_less [OF h(4)] n in simp_all)
  ultimately have r: "unat ?r = ?a mod val m" "unat ?r < 2 ^ 31" by (simp_all add: unat_of_nat take_bit_nat_eq_self)
  have e: "br_i31_muladd_small x z m = set_words [?r] x"
    unfolding br_i31_muladd_small_def Let_def using assms(5,6) one(3) [OF h(5)] by (cases x; cases "tl x") (auto simp: set_words_def)
  show ?thesis unfolding e h_def [symmetric] using set_words_arr [OF h(5), of "[?r]"] n r by simp
qed

lemma muladd_long:
  assumes "exact m" "arr (m ! 0) x" "val x < val m" "unat z < 2 ^ 31" "31 < unat (m ! 0)"
  shows "arr (m ! 0) (br_i31_muladd_small x z m) \<and> length (br_i31_muladd_small x z m) = length x \<and>
    val (br_i31_muladd_small x z m) = (2 ^ 31 * val x + unat z) mod val m"
proof -
  define h n where "h = m ! 0" and "n = nwords h"
  let ?B = "2 ^ 31 :: nat" and ?W = "2 ^ (31 * n) :: nat" and ?M = "val m" and ?P = "2 ^ (hbits h - 31) :: nat"
  define a where "a = ?B * val x + unat z"
  have m: "arr h m" "?M < 2 ^ hbits h" "2 ^ hbits h \<le> 2 * ?M" using assms(1) by (simp_all add: exact_def h_def)
  have x: "arr h x" "val x < ?M" using assms(2,3) h_def by simp_all
  have hb: "unat h < 2 ^ 32 - 64" "31 < unat h" using m(1) assms(5) by (auto simp: arr_def h_def)
  have n: "0 < n" "31 \<le> hbits h" "hbits h \<le> 31 * n"
    using header_parts(2,3) [OF hb] hbits_bounds(1) [OF hb(1)] by (cases "unat h mod 32 = 0"; auto simp: n_def)+
  have p: "?P * ?B = 2 ^ hbits h" unfolding power_add [symmetric] using n(2) by simp
  define x1 where "x1 = set_words (z # words (n - 1) x) x"
  note sw = shift_words [OF x(1) _ assms(4), folded n_def, folded x1_def a_def, OF n(1)]
  define mb where "mb = unat (h AND 31)"
  define a0 a1 b0 where "a0 = top31 n mb x" and "a1 = top31 n mb x1" and "b0 = top31 n mb m"
  have top: "unat (top31 n mb v) = (val v div ?P) mod ?B" if "arr h v" for v
    using top31_value [OF hb n_def, of v] that arr_words [OF that] unfolding mb_def n_def by (simp add: arr_def)
  have small: "v div ?P < ?B" if "v < 2 ^ hbits h" for v using that by (simp add: less_mult_imp_div_less p [symmetric] mult.commute)
  have A0: "unat a0 = val x div ?P" unfolding a0_def top [OF x(1)] using small [of "val x"] x(2) m(2) by simp
  have B0: "unat b0 = ?M div ?P" unfolding b0_def top [OF m(1)] using small [OF m(2)] by simp
  have A1: "unat a1 = (a div ?P) mod ?B"
  proof -
    have "val x1 < ?W" using val_less [OF sw(1)] by (simp add: n_def)
    then have "val x1 = a mod ?W" using sw(3) by (metis mod_less mod_mult_self2)
    then show ?thesis unfolding a1_def top [OF sw(1)] using slice_mod [of "hbits h - 31" 31 "31 * n" a] n by simp
  qed
  have "a div ?B = val x" unfolding a_def using assms(4) by simp
  then have "a div ?P div ?B = unat a0" unfolding A0 by (metis div_mult2_eq mult.commute)
  then have A: "a div ?P = unat a0 * ?B + unat a1" unfolding A1 by (metis div_mult_mod_eq)
  have ab: "unat a0 \<le> unat b0" unfolding A0 B0 using x(2) by (intro div_le_mono) simp
  have bw: "?B \<le> 2 * unat b0"
  proof -
    have "2 ^ hbits h = 2 * (2 ^ (30 :: nat) * ?P)" using p by (simp add: mult.commute)
    then have "2 ^ 30 * ?P \<le> ?M" using m(3) by simp
    then have "2 ^ 30 \<le> unat b0" unfolding B0 by (simp add: less_eq_div_iff_mult_less_eq)
    then show ?thesis by simp
  qed
  have M0: "0 < ?M" using x(2) by simp
  have b31: "unat b0 < ?B" "unat a1 < ?B" unfolding B0 A1 using small [OF m(2)] by simp_all
  have bpos: "0 < unat b0" using bw by (cases "unat b0") simp_all
  have "unat a0 * ?B \<le> unat b0 * ?B" using ab by (rule mult_le_mono1)
  then have "a div ?P < (unat b0 + 1) * ?B" unfolding A using b31(2) by simp
  note qe = quotient_estimate [OF _ refl B0 bw bpos this]
  have Q: "a div ?M < ?B"
  proof -
    have "?B * (val x + 1) \<le> ?B * ?M" using x(2) by (intro mult_le_mono2) simp
    then have "a < ?B * ?M" unfolding a_def using assms(4) by simp
    then show ?thesis by (rule less_mult_imp_div_less)
  qed
  define q where "q = MUX (EQ a0 b0) 0x7FFFFFFF
    (MUX (EQ (br_div (drop_bit 1 a0) (a1 OR push_bit 31 a0) b0) 0) 0 (br_div (drop_bit 1 a0) (a1 OR push_bit 31 a0) b0 - 1))"
  have q: "unat q < ?B" "unat q \<le> a div ?M + 1" "a div ?M \<le> unat q + 1"
    unfolding q_def using quotient_word [OF ab b31(2,1) bw A qe Q] by simp_all
  obtain ws cc tb where l: "muladd_loop q (words n x1) (words n m) 0 1 = (ws, cc, tb)" by (metis prod_cases3)
  note aw = arr_words [OF sw(1), folded n_def] arr_words [OF m(1), folded n_def]
  have L: "length ws = n" "words31 ws" "ival ws + unat q * ?M = val x1 + ?W * unat cc" "tb = of_bool (?M \<le> ival ws)"
    using muladd_loop_value [OF q(1) _ _ _ _ l [folded of_bool_eq(2)]] aw by simp_all
  define x2 where "x2 = set_words ws x1"
  have x2: "arr h x2" "val x2 = ival ws" "length x2 = length x"
    unfolding x2_def using set_words_arr [OF sw(1) _ L(2)] L(1) sw(2) by (simp_all add: n_def)
  define hi where "hi = x ! n"
  let ?over = "unat hi < unat cc" and ?under = "unat cc \<le> unat hi \<and> (?M \<le> val x2 \<or> unat cc < unat hi)"
  have o: "GT cc hi = of_bool ?over" "NOT (of_bool ?over) AND (tb OR LT cc hi) = of_bool ?under"
    unfolding L(4) LT_def GT_iff word_less_nat_alt x2(2) by (cases "unat hi < unat cc"; cases "?M \<le> ival ws"; cases "unat cc < unat hi") auto
  obtain x3 where x3: "br_i31_add x2 m (of_bool ?over) = (of_bool (2 ^ (31 * nwords h) \<le> val x2 + ?M), x3)" "arr h x3" "length x3 = length x2"
      "val x3 = (if ?over then (val x2 + ?M) mod 2 ^ (31 * nwords h) else val x2)"
    using br_i31_add_value [OF x2(1) m(1), of ?over] by blast
  obtain x4 where x4: "br_i31_sub x3 m (of_bool ?under) = (of_bool (val x3 < ?M), x4)" "arr h x4" "length x4 = length x3"
      "val x4 = (if ?under then if ?M \<le> val x3 then val x3 - ?M else val x3 + 2 ^ (31 * nwords h) - ?M else val x3)"
    using br_i31_sub_value [OF x3(2) m(1), of ?under] by blast
  have ne: "m ! 0 \<noteq> 0" "\<not> m ! 0 \<le> 31" using hb(2) unfolding h_def word_le_nat_alt by auto
  have r: "br_i31_muladd_small x z m = x4"
    unfolding br_i31_muladd_small_def Let_def if_not_P [OF ne(1)] if_not_P [OF ne(2)]
    unfolding h_def [symmetric] n_def [symmetric] mb_def [symmetric] x1_def [symmetric] a0_def [symmetric] a1_def [symmetric] b0_def [symmetric]
      q_def [symmetric] l prod.case x2_def [symmetric] hi_def [symmetric] o x3(1) snd_conv x4(1) ..
  have W: "?M < ?W" "val x2 < ?W" using val_less m(1) x2(1) by (simp_all add: n_def)
  have "a + ?W * unat cc = val x2 + unat q * ?M + ?W * unat hi" using L(3) sw(3) x2(2) unfolding hi_def by linarith
  note cr = correct_remainder [OF W M0 this q(2,3)]
  have "val x4 = a mod ?M"
  proof (cases "unat cc" "unat hi" rule: linorder_cases)
    case less
    then show ?thesis using cr(2) x3(4) x4(4) by (simp add: n_def)
  next
    case equal
    then show ?thesis using cr(3,4) x3(4) x4(4) by (cases "?M \<le> val x2") (simp_all add: n_def)
  next
    case greater
    then show ?thesis using cr(1) x3(4) x4(4) by (simp add: n_def)
  qed
  then show ?thesis unfolding r h_def [symmetric] a_def [symmetric] using x4(2,3) x3(3) x2(3) by simp
qed

text \<open>\<open>x\<close> equal to the modulus is accepted when the modulus is one word.\<close>

theorem muladd_small_value:
  assumes "exact m" "arr (m ! 0) x" "val x < val m \<or> unat (m ! 0) \<le> 31 \<and> val x = val m" "0 < val m" "unat z < 2 ^ 31"
  shows "arr (m ! 0) (br_i31_muladd_small x z m)" "length (br_i31_muladd_small x z m) = length x"
    "val (br_i31_muladd_small x z m) = (2 ^ 31 * val x + unat z) mod val m"
proof -
  have "m ! 0 \<noteq> 0" using assms(1,4) by (auto simp: exact_def val_def nwords_nat words_def)
  then have "arr (m ! 0) (br_i31_muladd_small x z m) \<and> length (br_i31_muladd_small x z m) = length x \<and>
    val (br_i31_muladd_small x z m) = (2 ^ 31 * val x + unat z) mod val m"
    using muladd_short [OF assms(1,2) _ assms(5)] muladd_long [OF assms(1,2) _ assms(5)] assms(3,4)
    by (cases "unat (m ! 0) \<le> 31") (auto simp: word_le_nat_alt)
  then show "arr (m ! 0) (br_i31_muladd_small x z m)" "length (br_i31_muladd_small x z m) = length x"
    "val (br_i31_muladd_small x z m) = (2 ^ 31 * val x + unat z) mod val m" by simp_all
qed

section \<open>Conversion to Montgomery representation\<close>

lemma shifts_value:
  assumes "exact m" "arr (m ! 0) x" "val x < val m"
  shows "arr (m ! 0) (((\<lambda>x. br_i31_muladd_small x 0 m) ^^ k) x) \<and> length (((\<lambda>x. br_i31_muladd_small x 0 m) ^^ k) x) = length x \<and>
    val (((\<lambda>x. br_i31_muladd_small x 0 m) ^^ k) x) = (2 ^ (31 * k) * val x) mod val m"
proof (induction k)
  case 0
  then show ?case using assms by simp
next
  case (Suc k)
  let ?x = "((\<lambda>x. br_i31_muladd_small x 0 m) ^^ k) x"
  have "val ?x < val m" using Suc assms(3) by simp
  moreover have "(2 ^ 31 * (2 ^ (31 * k) * val x mod val m)) mod val m = (2 ^ (31 * Suc k) * val x) mod val m"
    by (simp add: mod_mult_right_eq power_add mult.assoc)
  ultimately show ?case using muladd_small_value [of m ?x 0] Suc assms by simp
qed

theorem to_monty_value:
  assumes "exact m" "arr (m ! 0) x" "val x < val m"
  shows "arr (m ! 0) (br_i31_to_monty x m)" "length (br_i31_to_monty x m) = length x"
    "val (br_i31_to_monty x m) = (2 ^ (31 * nwords (m ! 0)) * val x) mod val m"
  unfolding br_i31_to_monty_def using shifts_value [OF assms] by simp_all

section \<open>Reduction\<close>

lemma i31_reduce_loop_value:
  assumes "exact m" "arr (m ! 0) x" "val x < val m" "words31 (take k (drop 1 a))" "k < length a"
  shows "arr (m ! 0) (i31_reduce_loop k x a m) \<and> length (i31_reduce_loop k x a m) = length x \<and>
    val (i31_reduce_loop k x a m) = (2 ^ (31 * k) * val x + ival (take k (drop 1 a))) mod val m"
  using assms(2-)
proof (induction k arbitrary: x)
  case (Suc k)
  let ?x = "br_i31_muladd_small x (a ! Suc k) m"
  have t: "take (Suc k) (drop 1 a) = take k (drop 1 a) @ [a ! Suc k]"
    using Suc.prems(4) take_Suc_conv_app_nth [of k "drop 1 a"] by simp
  have w: "words31 (take k (drop 1 a))" "unat (a ! Suc k) < 2 ^ 31" using Suc.prems(3) unfolding t by simp_all
  have m0: "0 < val m" using Suc.prems(2) by simp
  have v: "arr (m ! 0) ?x" "length ?x = length x" "val ?x = (2 ^ 31 * val x + unat (a ! Suc k)) mod val m"
    using muladd_small_value [OF assms(1) Suc.prems(1) _ m0 w(2)] Suc.prems(2) by simp_all
  have "val ?x < val m" unfolding v(3) using m0 by simp
  note IH = Suc.IH [OF v(1) this w(1)]
  have l: "length (take k (drop 1 a)) = k" using Suc.prems(4) by simp
  have "ival (take (Suc k) (drop 1 a)) = ival (take k (drop 1 a)) + 2 ^ (31 * k) * unat (a ! Suc k)" unfolding t ival_append l by simp
  then have "2 ^ (31 * Suc k) * val x + ival (take (Suc k) (drop 1 a)) = 2 ^ (31 * k) * (2 ^ 31 * val x + unat (a ! Suc k)) + ival (take k (drop 1 a))"
    by (simp add: power_add algebra_simps)
  also have "\<dots> mod val m = (2 ^ (31 * k) * val ?x + ival (take k (drop 1 a))) mod val m"
    unfolding v(3) by (metis mod_add_left_eq mod_mult_right_eq)
  finally show ?case using IH Suc.prems(4) v(2) by simp
qed (simp_all add: assms)

text \<open>The headers that \<open>br_i31_bit_length\<close> produces are ordered like the bit lengths; others are not: 31 and 32 both
  announce 31 bits.\<close>

lemma hbits_strict:
  assumes "unat g < unat h" "unat h mod 32 \<noteq> 0"
  shows "hbits g < hbits h"
proof -
  have d: "unat g = 32 * (unat g div 32) + unat g mod 32" "unat h = 32 * (unat h div 32) + unat h mod 32" "unat g mod 32 < 32" by simp_all
  have le: "unat g div 32 \<le> unat h div 32" using assms(1) by (intro div_le_mono) simp
  show ?thesis
  proof (cases "unat g div 32 = unat h div 32")
    case True
    then show ?thesis unfolding hbits_def using d assms(1) by linarith
  next
    case False
    then have "unat g div 32 + 1 \<le> unat h div 32" using le by simp
    then have "31 * (unat g div 32) + 31 \<le> 31 * (unat h div 32)" by linarith
    then show ?thesis unfolding hbits_def using d(3) assms(2) by linarith
  qed
qed

lemma exact_low:
  assumes "exact m" "0 < val m" shows "0 < nwords (m ! 0)" "2 ^ (31 * (nwords (m ! 0) - 1)) \<le> val m"
proof -
  let ?h = "m ! 0"
  have h: "unat ?h < 2 ^ 32 - 64" using assms(1) by (simp add: exact_def arr_def)
  show "0 < nwords ?h" using assms by (cases "nwords ?h") (auto simp: val_def words_def)
  have "0 < hbits ?h" using assms by (cases "hbits ?h") (auto simp: exact_def)
  then have "Suc (31 * (nwords ?h - 1)) \<le> hbits ?h" using hbits_bounds(2) [OF h] by simp
  then have "(2 :: nat) ^ Suc (31 * (nwords ?h - 1)) \<le> 2 ^ hbits ?h" by (rule power_increasing) simp
  then show "2 ^ (31 * (nwords ?h - 1)) \<le> val m" using assms(1) by (simp add: exact_def)
qed

theorem reduce_value:
  assumes "exact m" "0 < val m" "unat (m ! 0) mod 32 \<noteq> 0" "arr (a ! 0) a" "val a < 2 ^ hbits (a ! 0)" "nwords (m ! 0) < length x"
  shows "arr (m ! 0) (br_i31_reduce x a m)" "length (br_i31_reduce x a m) = length x" "val (br_i31_reduce x a m) = val a mod val m"
proof -
  define h where "h = m ! 0"
  let ?n = "nwords h" and ?k = "nwords (a ! 0)"
  have hb: "unat h < 2 ^ 32 - 64" "unat (a ! 0) < 2 ^ 32 - 64" using assms(1,4) by (auto simp: exact_def arr_def h_def)
  have h0: "h \<noteq> 0" using assms(3) by (auto simp: h_def)
  have n: "0 < ?n" "2 ^ (31 * (?n - 1)) \<le> val m" using exact_low [OF assms(1,2)] by (simp_all add: h_def)
  note aw = arr_words [OF assms(4)]
  have la: "?k < length a" using assms(4) by (simp add: arr_def)
  have set: "arr h (set_words ws (x[0 := h])) \<and> length (set_words ws (x[0 := h])) = length x \<and> val (set_words ws (x[0 := h])) = ival ws"
    if "length ws = ?n" "words31 ws" for ws
  proof -
    have l: "length (set_words ws (x[0 := h])) = length x" using assms(6) that(1) by (simp add: length_set_words h_def)
    have "set_words ws (x[0 := h]) ! 0 = h" using assms(6) by (cases x) (simp_all add: set_words_def)
    moreover have "words ?n (set_words ws (x[0 := h])) = ws" using that(1) by (metis words_set_words(1))
    ultimately show ?thesis using l that hb(1) assms(6) by (auto simp: arr_def val_def h_def)
  qed
  have "arr h (br_i31_reduce x a m) \<and> length (br_i31_reduce x a m) = length x \<and> val (br_i31_reduce x a m) = val a mod val m"
  proof (cases "a ! 0 < h")
    case True
    then have "hbits (a ! 0) < hbits h" using hbits_strict assms(3) by (simp add: word_less_nat_alt h_def)
    then have "(2 :: nat) ^ Suc (hbits (a ! 0)) \<le> 2 ^ hbits h" by (intro power_increasing) simp_all
    then have "val a < val m" using assms(1,5) by (simp add: exact_def h_def)
    moreover have "?k \<le> ?n" unfolding nwords_nat [OF hb(1)] nwords_nat [OF hb(2)] using True by (intro div_le_mono) (simp add: word_less_nat_alt)
    ultimately show ?thesis using set [of "words ?k a @ replicate (?n - ?k) 0"] aw True h0
      by (simp add: br_i31_reduce_def h_def [symmetric] ival_append Let_def)
  next
    case False
    then have kn: "?n \<le> ?k" unfolding nwords_nat [OF hb(1)] nwords_nat [OF hb(2)] by (intro div_le_mono) (simp add: word_less_nat_alt)
    let ?j = "1 + ?k - ?n" and ?hi = "take (?n - 1) (drop (2 + (?k - ?n)) a)"
    have split: "words ?k a = take ?j (drop 1 a) @ ?hi"
    proof -
      have "?k = ?j + (?n - 1)" "2 + (?k - ?n) = ?j + 1" using kn n(1) by simp_all
      then show ?thesis unfolding words_def by (metis take_add drop_drop)
    qed
    have w: "words31 ?hi" "words31 (take ?j (drop 1 a))" using aw(2) unfolding split by simp_all
    have l: "length ?hi = ?n - 1" "length (take ?j (drop 1 a)) = ?j" "?j < length a" using la kn n(1) by simp_all
    let ?x = "set_words (?hi @ [0]) (x[0 := h])"
    have x: "arr h ?x" "length ?x = length x" "val ?x = ival ?hi" using set [of "?hi @ [0]"] l(1) n(1) w(1) by (simp_all add: ival_append)
    have "val ?x < val m" unfolding x(3) using ival_less [OF w(1)] n(2) l(1) by simp
    note v = i31_reduce_loop_value [OF assms(1) x(1) [unfolded h_def] this [unfolded h_def] w(2) l(3), folded h_def]
    have "2 ^ (31 * ?j) * val ?x + ival (take ?j (drop 1 a)) = val a"
      unfolding aw(3) [symmetric] split ival_append l(2) x(3) by simp
    moreover have "br_i31_reduce x a m = i31_reduce_loop ?j ?x a m"
      using False h0 unfolding br_i31_reduce_def Let_def h_def [symmetric] by simp
    ultimately show ?thesis using v x(2) by simp
  qed
  then show "arr (m ! 0) (br_i31_reduce x a m)" "length (br_i31_reduce x a m) = length x" "val (br_i31_reduce x a m) = val a mod val m"
    by (simp_all add: h_def)
qed

text \<open>
  C15. For a modulus that announces its true bit length, \<open>br_i31_muladd_small\<close> computes \<open>x * 2 ^ 31 + z\<close> modulo \<open>m\<close>
  although the quotient is only estimated from the top words, \<open>br_i31_to_monty\<close> multiplies by \<open>R\<close> modulo \<open>m\<close>, and \<open>br_i31_reduce\<close> reduces
  an integer of any length.
\<close>

theorem i31_reduction:
  assumes "exact m" "unat (m ! 0) mod 32 \<noteq> 0" "arr (m ! 0) x" "val x < val m" "unat z < 2 ^ 31"
    "arr (a ! 0) a" "val a < 2 ^ hbits (a ! 0)" "nwords (m ! 0) < length y"
  shows "arr (m ! 0) (br_i31_muladd_small x z m) \<and> val (br_i31_muladd_small x z m) = (val x * 2 ^ 31 + unat z) mod val m \<and>
    arr (m ! 0) (br_i31_to_monty x m) \<and> val (br_i31_to_monty x m) = (val x * 2 ^ (31 * nwords (m ! 0))) mod val m \<and>
    arr (m ! 0) (br_i31_reduce y a m) \<and> val (br_i31_reduce y a m) = val a mod val m"
proof -
  have m: "0 < val m" using assms(4) by simp
  show ?thesis using muladd_small_value [OF assms(1,3) _ m assms(5)] to_monty_value [OF assms(1,3,4)]
      reduce_value [OF assms(1) m assms(2,6-8)] assms(4) by (simp add: mult.commute)
qed

theorem i31_reduction_witness:
  "val (br_i31_muladd_small [3, 4] 9 [3, 7]) = (4 * 2 ^ 31 + 9) mod 7 \<and> val (br_i31_reduce [0, 0] [33, 5, 1] [3, 7]) = (5 + 2 ^ 31) mod 7"
proof -
  have v: "nwords 3 = 1" "nwords 33 = 2" "val [3, 7] = 7" "val [3, 4] = 4" "val [33, 5, 1] = 5 + 2 ^ 31"
      "arr 3 [3, 7]" "arr 3 [3, 4]" "arr 33 [33, 5, 1]" "hbits 3 = 3" "hbits 33 = 32"
    by (simp_all add: nwords_def val_def words_def arr_def hbits_def)
  have "exact [3, 7]" unfolding exact_def using v by simp
  then show ?thesis
    using i31_reduction [of "[3, 7]" "[3, 4]" 9 "[33, 5, 1]" "[0, 0]"] v by simp
qed

end
