(* ===== verification/Bigint_Pow.thy ===== *)
theory Bigint_Pow
  imports Bigint_Mod
begin

text \<open>
  Modular exponentiation: the plain square-and-multiply of \<^verbatim>\<open>int/i31_modpow.c\<close> and the windowed one of
  \<^verbatim>\<open>int/i31_modpow2.c\<close>. The exponent is a string of bytes, most significant first. Both functions
  compute \<open>x ^ e mod m\<close> for an odd modulus.
\<close>

unbundle bit_operations_syntax

section \<open>The code\<close>

text \<open>\<open>memcpy\<close> of whole words, and \<open>CCOPY\<close> on word arrays.\<close>

definition copy_words :: "nat \<Rightarrow> u32 list \<Rightarrow> u32 list \<Rightarrow> u32 list" where
  "copy_words n src dst = take n src @ drop n dst"

definition ccopy_words :: "u32 \<Rightarrow> u32 list \<Rightarrow> u32 list \<Rightarrow> nat \<Rightarrow> u32 list" where
  "ccopy_words ctl dst src n = map2 (\<lambda>s d. MUX ctl s d) (take n src) (take n dst) @ drop n dst"

definition array_words :: "u32 \<Rightarrow> nat" where "array_words h = unat (drop_bit 5 (h + 63))"

definition modpow_turn :: "byte list \<Rightarrow> u32 list \<Rightarrow> u32 \<Rightarrow> u32 list \<times> u32 list \<times> u32 list \<Rightarrow> nat \<Rightarrow> u32 list \<times> u32 list \<times> u32 list" where
  "modpow_turn e m m0i = (\<lambda>(x, t1, t2) k.
     let mlen = array_words (m ! 0);
         ctl = drop_bit (k mod 8) (ucast (e ! (length e - 1 - k div 8))) AND 1;
         t2 = br_i31_montymul t2 x t1 m m0i;
         x = ccopy_words ctl x t2 mlen;
         t2 = br_i31_montymul t2 t1 t1 m m0i;
         t1 = copy_words mlen t2 t1
     in (x, t1, t2))"

definition br_i31_modpow :: "u32 list \<Rightarrow> byte list \<Rightarrow> u32 list \<Rightarrow> u32 \<Rightarrow> u32 list \<Rightarrow> u32 list \<Rightarrow> u32 list" where
  "br_i31_modpow x e m m0i t1 t2 =
     (let mlen = array_words (m ! 0);
          t1 = copy_words mlen x t1;
          t1 = br_i31_to_monty t1 m;
          x = br_i31_zero x (m ! 0);
          x = x[1 := 1];
          (x, t1, t2) = foldl (modpow_turn e m m0i) (x, t1, t2) [0..<unat (push_bit 3 (of_nat (length e) :: u32))]
      in x)"

text \<open>The temporary words of \<open>br_i31_modpow_opt\<close> are used in slots of \<open>mwlen\<close> words: slot 0 is \<open>t1\<close>, slot 1 is \<open>t2\<close> and
  slot \<open>u + 1\<close> is the entry \<open>u\<close> of the window.\<close>

definition tmp_slots :: "nat \<Rightarrow> u32 list \<Rightarrow> u32 list list" where
  "tmp_slots mwlen tmp = map (\<lambda>i. take mwlen (drop (i * mwlen) tmp)) [0..<length tmp div mwlen]"

fun modpow_window :: "nat \<Rightarrow> nat \<Rightarrow> nat \<Rightarrow> nat" where
  "modpow_window win_len mwlen twlen =
     (if 1 < win_len then
        if (2 ^ win_len + 1) * mwlen \<le> twlen then win_len else modpow_window (win_len - 1) mwlen twlen
      else win_len)"

definition modpow_table :: "nat \<Rightarrow> u32 list \<Rightarrow> u32 list \<Rightarrow> u32 \<Rightarrow> u32 list list \<Rightarrow> u32 list list" where
  "modpow_table win_len x m m0i ts =
     (let mlen = array_words (m ! 0) in
      if win_len = 1 then ts[1 := copy_words mlen x (ts ! 1)]
      else foldl (\<lambda>ts u. ts[u + 1 := br_i31_montymul (ts ! (u + 1)) (ts ! u) x m m0i])
             (ts[2 := copy_words mlen x (ts ! 2)]) [2..<2 ^ win_len])"

text \<open>The lookup of the entry \<open>bits\<close> of a window, over all entries.\<close>

definition modpow_select :: "u32 \<Rightarrow> u32 list list \<Rightarrow> u32 list \<Rightarrow> nat \<Rightarrow> u32 list" where
  "modpow_select bits ts t2 u =
     (let mask = - EQ (of_nat u) bits
      in t2 ! 0 # map2 (\<lambda>a b. a OR (mask AND b)) (tl t2) (tl (ts ! (u + 1))))"

definition modpow_lookup :: "nat \<Rightarrow> u32 \<Rightarrow> u32 \<Rightarrow> u32 list list \<Rightarrow> u32 list" where
  "modpow_lookup k bits h ts = foldl (modpow_select bits ts) (br_i31_zero (ts ! 1) h) [1..<2 ^ k]"

definition modpow_square :: "u32 list \<Rightarrow> u32 \<Rightarrow> u32 list \<times> u32 list \<Rightarrow> u32 list \<times> u32 list" where
  "modpow_square m m0i = (\<lambda>(x, t1).
     let t1 = br_i31_montymul t1 x x m m0i in (copy_words (array_words (m ! 0)) t1 x, t1))"

text \<open>One turn of the loop after the next \<open>k\<close> bits of the exponent have been taken.\<close>

definition modpow_step :: "nat \<Rightarrow> u32 list \<Rightarrow> u32 \<Rightarrow> nat \<Rightarrow> u32 \<Rightarrow> u32 list \<times> u32 list list \<Rightarrow> u32 list \<times> u32 list list" where
  "modpow_step win_len m m0i k bits = (\<lambda>(x, ts).
     let (x, t1) = (modpow_square m m0i ^^ k) (x, ts ! 0);
         ts = ts[0 := t1];
         ts = (if 1 < win_len then ts[1 := modpow_lookup k bits (m ! 0) ts] else ts);
         t1 = br_i31_montymul (ts ! 0) x (ts ! 1) m m0i;
         x = ccopy_words (NEQ bits 0) x t1 (array_words (m ! 0))
     in (x, ts[0 := t1]))"

text \<open>The window length is \<open>w + 1\<close>; the accumulator holds \<open>acc_len\<close> bits.\<close>

function modpow_loop :: "nat \<Rightarrow> u32 list \<Rightarrow> u32 \<Rightarrow> byte list \<Rightarrow> u32 \<Rightarrow> nat \<Rightarrow> u32 list \<times> u32 list list \<Rightarrow> u32 list \<times> u32 list list" where
  "modpow_loop w m m0i e acc acc_len s =
     (if acc_len = 0 \<and> e = [] then s
      else
        (let win_len = w + 1;
             (acc, acc_len, e, k) =
               (if acc_len < win_len then
                  if e \<noteq> [] then (push_bit 8 acc OR ucast (hd e), acc_len + 8, tl e, win_len)
                  else (acc, acc_len, e, acc_len)
                else (acc, acc_len, e, win_len));
             bits = drop_bit (acc_len - k) acc AND (push_bit k 1 - 1)
         in modpow_loop w m m0i e acc (acc_len - k) (modpow_step win_len m m0i k bits s)))"
  by pat_completeness auto

termination
  by (relation "measure (\<lambda>(w, m, m0i, e, acc, acc_len, s). 8 * length e + acc_len)")
    (auto split: if_splits simp: neq_Nil_conv)

declare modpow_loop.simps [simp del] modpow_window.simps [simp del]

definition br_i31_modpow_opt :: "u32 list \<Rightarrow> byte list \<Rightarrow> u32 list \<Rightarrow> u32 \<Rightarrow> u32 list \<Rightarrow> u32 list \<times> u32" where
  "br_i31_modpow_opt x e m m0i tmp =
     (let mwlen = array_words (m ! 0);
          mwlen = mwlen + (mwlen AND 1);
          ts = tmp_slots mwlen tmp
      in if length tmp < 2 * mwlen then (x, 0)
         else
           (let win_len = modpow_window 5 mwlen (length tmp);
                x = br_i31_to_monty x m;
                ts = modpow_table win_len x m m0i ts;
                x = br_i31_zero x (m ! 0);
                x = x[nwords (m ! 0) := 1];
                x = br_i31_muladd_small x 0 m;
                (x, ts) = modpow_loop (win_len - 1) m m0i e 0 0 (x, ts)
            in (br_i31_from_monty x m m0i, 1)))"

section \<open>Numbers from bytes, and cancellation\<close>

primrec os2ip :: "byte list \<Rightarrow> nat" where
  "os2ip [] = 0"
| "os2ip (b # bs) = unat b * 256 ^ length bs + os2ip bs"

lemma os2ip_append: "os2ip (xs @ ys) = os2ip xs * 256 ^ length ys + os2ip ys"
  by (induction xs) (simp_all add: power_add algebra_simps)

lemma os2ip_less: "os2ip bs < 256 ^ length bs"
proof (induction bs)
  case (Cons b bs)
  have "unat b + 1 \<le> 256" using unsigned_less [of b, where ?'a = nat] by simp
  then have "(unat b + 1) * 256 ^ length bs \<le> 256 * 256 ^ length bs" by (rule mult_le_mono1)
  moreover have "os2ip (b # bs) < (unat b + 1) * 256 ^ length bs" using Cons by simp
  ultimately show ?case unfolding length_Cons power_Suc by linarith
qed simp

lemma mod_cancel:
  fixes r a b m :: nat
  assumes "coprime r m" "(r * a) mod m = (r * b) mod m"
  shows "a mod m = b mod m"
proof -
  have *: "x mod m = y mod m" if "x \<le> y" "(r * y) mod m = (r * x) mod m" for x y
  proof -
    have "m dvd r * y - r * x" using that by (simp add: mod_eq_dvd_iff_nat)
    then have "m dvd r * (y - x)" by (simp add: diff_mult_distrib2)
    then have "m dvd y - x" using assms(1) by (simp add: coprime_dvd_mult_right_iff coprime_commute)
    then show ?thesis using mod_eq_dvd_iff_nat [OF that(1), of m] by simp
  qed
  show ?thesis
  proof (cases "a \<le> b")
    case True
    then show ?thesis by (rule *) (rule assms(2) [symmetric])
  next
    case False
    then show ?thesis using * [of b a] assms(2) by simp
  qed
qed

section \<open>Products of representatives\<close>

lemma array_words_Suc: "unat h < 2 ^ 32 - 64 \<Longrightarrow> array_words h = Suc (nwords h)"
  unfolding array_words_def by (rule nwords_end)

lemma copy_arr:
  assumes "arr h s" "nwords h < length d"
  shows "arr h (copy_words (array_words h) s d)" "val (copy_words (array_words h) s d) = val s" "length (copy_words (array_words h) s d) = length d"
proof -
  have a: "array_words h = Suc (nwords h)" by (rule array_words_Suc) (use assms(1) in \<open>simp add: arr_def\<close>)
  obtain w ws where s: "s = w # ws" using assms(1) by (cases s) (auto simp: arr_def)
  have "words (nwords h) (copy_words (array_words h) s d) = words (nwords h) s"
    using assms(1) unfolding a s by (simp add: copy_words_def words_def arr_def min_def)
  moreover have "copy_words (array_words h) s d ! 0 = s ! 0" unfolding a s by (simp add: copy_words_def)
  moreover show "length (copy_words (array_words h) s d) = length d" using assms unfolding a by (simp add: copy_words_def arr_def)
  ultimately show "arr h (copy_words (array_words h) s d)" "val (copy_words (array_words h) s d) = val s"
    using assms by (auto simp: arr_def val_def)
qed

lemma ccopy_words_select:
  assumes "n \<le> length src" "n \<le> length dst"
  shows "ccopy_words (of_bool b) dst src n = (if b then copy_words n src dst else dst)"
proof -
  have f: "map2 (\<lambda>s d. s) xs ys = xs" "map2 (\<lambda>s d. d) xs ys = ys" if "length xs = length ys" for xs ys :: "u32 list"
    using that by (induction xs ys rule: list_induct2) simp_all
  show ?thesis using f [of "take n src" "take n dst"] assms by (cases b) (simp_all add: ccopy_words_def copy_words_def)
qed

lemma ccopy_arr:
  assumes "arr h s" "arr h d"
  shows "arr h (ccopy_words (of_bool b) d s (array_words h))" "length (ccopy_words (of_bool b) d s (array_words h)) = length d"
    "val (ccopy_words (of_bool b) d s (array_words h)) = (if b then val s else val d)"
proof -
  have "array_words h = Suc (nwords h)" by (rule array_words_Suc) (use assms(1) in \<open>simp add: arr_def\<close>)
  then have "ccopy_words (of_bool b) d s (array_words h) = (if b then copy_words (array_words h) s d else d)"
    using assms by (intro ccopy_words_select) (auto simp: arr_def)
  moreover have "nwords h < length d" using assms(2) by (simp add: arr_def)
  ultimately show "arr h (ccopy_words (of_bool b) d s (array_words h))" "length (ccopy_words (of_bool b) d s (array_words h)) = length d"
    "val (ccopy_words (of_bool b) d s (array_words h)) = (if b then val s else val d)" using copy_arr assms by simp_all
qed

lemma coprime_radix:
  assumes "mont_ok h m m0i" shows "coprime (2 ^ k) (val m)"
proof -
  have "(unat m0i * val m + 1) mod 2 ^ 31 = 0" using assms by (simp add: mont_ok_def)
  then have "2 ^ 31 dvd unat m0i * val m + 1" by (simp only: mod_eq_0_iff_dvd)
  moreover have "2 dvd (2 :: nat) ^ 31" by simp
  ultimately have "even (unat m0i * val m + 1)" by (rule dvd_trans [rotated])
  then have "odd (val m)" by auto
  then show ?thesis by simp
qed

lemma montymul_rep:
  assumes "mont_ok h m m0i" "arr h x" "arr h y" "nwords h < length d" "val y = (2 ^ (31 * nwords h) * b) mod val m"
  shows "val (br_i31_montymul d x y m m0i) = (val x * b) mod val m"
    "val x = (2 ^ (31 * nwords h) * a) mod val m \<Longrightarrow> val (br_i31_montymul d x y m m0i) = (2 ^ (31 * nwords h) * (a * b)) mod val m"
proof -
  let ?R = "2 ^ (31 * nwords h) :: nat" and ?d = "val (br_i31_montymul d x y m m0i)"
  have m: "0 < val m" using assms(1) by (simp add: mont_ok_def)
  then have y: "val y < val m" unfolding assms(5) by simp
  note v = montymul_value [OF assms(1-3) y assms(4)]
  have "(?R * ?d) mod val m = (?R * (val x * b)) mod val m"
    unfolding v(4) assms(5) by (simp add: mod_mult_right_eq mult.left_commute)
  then have "?d mod val m = (val x * b) mod val m" by (rule mod_cancel [OF coprime_radix [OF assms(1)]])
  then show d: "?d = (val x * b) mod val m" using v(3) by simp
  show "?d = (?R * (a * b)) mod val m" if "val x = (?R * a) mod val m" unfolding d that by (simp add: mod_mult_left_eq mult.assoc)
qed

section \<open>Square and multiply\<close>

lemma os2ip_nth: "j < length e \<Longrightarrow> os2ip e div 256 ^ j mod 256 = unat (e ! (length e - 1 - j))"
proof (induction e)
  case (Cons b bs)
  have b: "unat b < 256" using unsigned_less [of b, where ?'a = nat] by simp
  show ?case
  proof (cases "j = length bs")
    case True
    then show ?thesis using os2ip_less [of bs] b by simp
  next
    case False
    then have j: "j < length bs" using Cons.prems by simp
    then have "length bs = Suc (length bs - 1 - j) + j" by simp
    then have p: "(256 :: nat) ^ length bs = 256 * 256 ^ (length bs - 1 - j) * 256 ^ j" by (metis power_Suc power_add)
    have "os2ip (b # bs) div 256 ^ j = unat b * 256 ^ (length bs - 1 - j) * 256 + os2ip bs div 256 ^ j"
    proof -
      have "os2ip (b # bs) = os2ip bs + (unat b * 256 ^ (length bs - 1 - j) * 256) * 256 ^ j" unfolding os2ip.simps p by simp
      then show ?thesis by (simp only: div_mult_self1 [OF power_not_zero, OF zero_neq_numeral [symmetric]] add.commute)
    qed
    then have "os2ip (b # bs) div 256 ^ j mod 256 = os2ip bs div 256 ^ j mod 256" by simp
    moreover have "length bs - j = Suc (length bs - Suc j)" using j by simp
    ultimately show ?thesis using Cons.IH [OF j] by simp
  qed
qed simp

lemma exponent_bit:
  assumes "k < 8 * length e"
  shows "drop_bit (k mod 8) (ucast (e ! (length e - 1 - k div 8))) AND 1 = (of_bool (odd (os2ip e div 2 ^ k)) :: u32)"
proof -
  let ?b = "e ! (length e - 1 - k div 8)" and ?X = "os2ip e div 256 ^ (k div 8)"
  have "k div 8 < length e" using assms by (simp add: less_mult_imp_div_less mult.commute)
  then have b: "?X mod 2 ^ 8 = unat ?b" using os2ip_nth by simp
  have "(2 :: nat) ^ k = 2 ^ (8 * (k div 8)) * 2 ^ (k mod 8)" unfolding power_add [symmetric] by simp
  then have "os2ip e div 2 ^ k = ?X div 2 ^ (k mod 8)" by (simp add: div_mult2_eq power_mult)
  then have "odd (os2ip e div 2 ^ k) \<longleftrightarrow> bit ?X (k mod 8)" by (simp add: bit_iff_odd)
  also have "\<dots> \<longleftrightarrow> bit (take_bit 8 ?X) (k mod 8)" by (simp add: bit_take_bit_iff)
  also have "take_bit 8 ?X = unat ?b" unfolding take_bit_eq_mod by (rule b)
  finally have o: "odd (os2ip e div 2 ^ k) \<longleftrightarrow> bit ?b (k mod 8)" by (simp add: bit_unsigned_iff)
  have "drop_bit (k mod 8) (ucast ?b :: u32) AND 1 = of_bool (bit (ucast ?b :: u32) (k mod 8))"
    by (simp add: and_one_eq drop_bit_eq_div bit_iff_odd mod2_eq_if)
  also have "bit (ucast ?b :: u32) (k mod 8) \<longleftrightarrow> bit ?b (k mod 8)" by (simp add: bit_ucast_iff less_trans [OF mod_less_divisor])
  finally show ?thesis unfolding o .
qed

definition pow_inv :: "u32 \<Rightarrow> nat \<Rightarrow> nat \<Rightarrow> nat \<Rightarrow> nat \<Rightarrow> u32 list \<times> u32 list \<times> u32 list \<Rightarrow> bool" where
  "pow_inv h M X a c = (\<lambda>(x, t1, t2). arr h x \<and> arr h t1 \<and> nwords h < length t2 \<and> val x = X ^ a mod M \<and>
     val t1 = (2 ^ (31 * nwords h) * X ^ c) mod M)"

lemma modpow_turn_value:
  assumes "mont_ok (m ! 0) m m0i" "k < 8 * length e"
    "pow_inv (m ! 0) (val m) X (os2ip e mod 2 ^ k) (2 ^ k) s"
  shows "pow_inv (m ! 0) (val m) X (os2ip e mod 2 ^ Suc k) (2 ^ Suc k) (modpow_turn e m m0i s k)"
proof -
  obtain x t1 t2 where s: "s = (x, t1, t2)" by (metis prod_cases3)
  let ?h = "m ! 0" and ?M = "val m" and ?E = "os2ip e" and ?R = "2 ^ (31 * nwords (m ! 0)) :: nat"
  have v: "arr ?h x" "arr ?h t1" "nwords ?h < length t2" "val x = X ^ (?E mod 2 ^ k) mod ?M" "val t1 = (?R * X ^ 2 ^ k) mod ?M"
    using assms(3) unfolding s pow_inv_def by simp_all
  define t3 where "t3 = br_i31_montymul t2 x t1 m m0i"
  define t4 where "t4 = br_i31_montymul t3 t1 t1 m m0i"
  have M0: "0 < ?M" using assms(1) by (simp add: mont_ok_def)
  have lt: "val t1 < ?M" unfolding v(5) using M0 by simp
  have t3: "arr ?h t3" "length t3 = length t2" "val t3 = (X ^ (?E mod 2 ^ k) * X ^ 2 ^ k) mod ?M"
    unfolding t3_def using montymul_value [OF assms(1) v(1,2) lt v(3)] montymul_rep(1) [OF assms(1) v(1,2,3,5)] v(4)
    by (simp_all add: mod_mult_left_eq)
  have n3: "nwords ?h < length t3" using t3(2) v(3) by simp
  have t4: "arr ?h t4" "length t4 = length t2" "val t4 = (?R * (X ^ 2 ^ k * X ^ 2 ^ k)) mod ?M"
    unfolding t4_def using montymul_value [OF assms(1) v(2,2) lt n3] montymul_rep(2) [OF assms(1) v(2,2) n3 v(5) v(5)] t3(2) by simp_all
  define x' where "x' = ccopy_words (of_bool (odd (?E div 2 ^ k))) x t3 (array_words ?h)"
  have r: "modpow_turn e m m0i s k = (x', copy_words (array_words ?h) t4 t1, t4)"
    unfolding s modpow_turn_def prod.case Let_def exponent_bit [OF assms(2)] t3_def [symmetric] t4_def [symmetric] x'_def [symmetric] ..
  have "?E mod 2 ^ Suc k = 2 ^ k * (?E div 2 ^ k mod 2) + ?E mod 2 ^ k" unfolding power_Suc2 by (rule mod_mult2_eq)
  then have e: "X ^ (?E mod 2 ^ Suc k) = (if odd (?E div 2 ^ k) then X ^ (?E mod 2 ^ k) * X ^ 2 ^ k else X ^ (?E mod 2 ^ k))"
    by (simp add: power_add mod2_eq_if mult.commute)
  have x': "arr ?h x'" "val x' = X ^ (?E mod 2 ^ Suc k) mod ?M"
    unfolding x'_def using ccopy_arr [OF t3(1) v(1)] t3(3) v(4) unfolding e by simp_all
  have "nwords ?h < length t1" using v(2) by (simp add: arr_def)
  note c = copy_arr [OF t4(1) this]
  have "X ^ 2 ^ k * X ^ 2 ^ k = X ^ 2 ^ Suc k" by (simp add: power_add [symmetric] mult_2)
  then show ?thesis unfolding r pow_inv_def using x' c t4 v(3) by simp
qed

lemma modpow_turns:
  assumes "mont_ok (m ! 0) m m0i" "pow_inv (m ! 0) (val m) X 0 1 s" "k \<le> 8 * length e"
  shows "pow_inv (m ! 0) (val m) X (os2ip e mod 2 ^ k) (2 ^ k) (foldl (modpow_turn e m m0i) s [0..<k])"
  using assms(3)
proof (induction k)
  case (Suc k)
  then show ?case using modpow_turn_value [OF assms(1), of k e X] by simp
qed (use assms(2) in simp)

lemma one_arr:
  assumes "unat h < 2 ^ 32 - 64" "nwords h < length x" "i < nwords h"
  shows "arr h ((br_i31_zero x h)[Suc i := 1])" "val ((br_i31_zero x h)[Suc i := 1]) = 2 ^ (31 * i)"
    "length ((br_i31_zero x h)[Suc i := 1]) = length x"
proof -
  let ?n = "nwords h" and ?x = "(br_i31_zero x h)[Suc i := 1]"
  have w: "words ?n ?x = replicate i 0 @ [1] @ replicate (?n - 1 - i) 0"
    using assms(2,3) by (intro nth_equalityI) (auto simp: br_i31_zero_def words_def nth_append nth_Cons' nth_list_update)
  show l: "length ?x = length x" using assms(2) by (simp add: br_i31_zero_def)
  have h: "?x ! 0 = h" by (simp add: br_i31_zero_def)
  show "arr h ?x" using w l h assms by (auto simp: arr_def)
  show "val ?x = 2 ^ (31 * i)" using w h by (simp add: val_def ival_append)
qed

theorem modpow_value:
  assumes "exact m" "mont_ok (m ! 0) m m0i" "1 < val m" "arr (m ! 0) x" "val x < val m"
    "nwords (m ! 0) < length t1" "nwords (m ! 0) < length t2" "length e < 2 ^ 29"
  shows "arr (m ! 0) (br_i31_modpow x e m m0i t1 t2)" "val (br_i31_modpow x e m m0i t1 t2) = val x ^ os2ip e mod val m"
proof -
  let ?h = "m ! 0" and ?X = "val x"
  have h: "unat ?h < 2 ^ 32 - 64" "nwords ?h < length x" using assms(4) by (auto simp: arr_def)
  note c = copy_arr [OF assms(4,6)]
  have t: "arr ?h (br_i31_to_monty (copy_words (array_words ?h) x t1) m)"
      "val (br_i31_to_monty (copy_words (array_words ?h) x t1) m) = (2 ^ (31 * nwords ?h) * ?X ^ 1) mod val m"
    using to_monty_value [OF assms(1) c(1)] c(2) assms(5) by simp_all
  have n: "0 < nwords ?h" using assms(2) by (simp add: mont_ok_def)
  let ?s = "((br_i31_zero x ?h)[1 := 1], br_i31_to_monty (copy_words (array_words ?h) x t1) m, t2)"
  have "pow_inv ?h (val m) ?X 0 1 ?s"
    unfolding pow_inv_def using one_arr [OF h n] t assms(3,7) by simp
  note v = modpow_turns [OF assms(2) this order_refl, of e]
  have k: "unat (push_bit 3 (of_nat (length e) :: u32)) = 8 * length e"
    using assms(8) by (simp add: unat_shl unat_of_nat take_bit_nat_eq_self)
  have "os2ip e < 2 ^ (8 * length e)" using os2ip_less [of e] by (simp add: power_mult)
  then have e: "os2ip e mod 2 ^ (8 * length e) = os2ip e" by simp
  obtain y a b where y: "foldl (modpow_turn e m m0i) ?s [0..<8 * length e] = (y, a, b)" by (metis prod_cases3)
  have "br_i31_modpow x e m m0i t1 t2 = y" unfolding br_i31_modpow_def Let_def k y by simp
  then show "arr ?h (br_i31_modpow x e m m0i t1 t2)" "val (br_i31_modpow x e m m0i t1 t2) = ?X ^ os2ip e mod val m"
    using v unfolding y e pow_inv_def by simp_all
qed

section \<open>The window\<close>

text \<open>\<open>rep h M x a\<close>: the array holds the Montgomery representative of \<open>a\<close>.\<close>

definition rep :: "u32 \<Rightarrow> nat \<Rightarrow> u32 list \<Rightarrow> nat \<Rightarrow> bool" where
  "rep h M x a \<longleftrightarrow> arr h x \<and> val x = (2 ^ (31 * nwords h) * a) mod M"

definition window_ok :: "u32 \<Rightarrow> nat \<Rightarrow> nat \<Rightarrow> nat \<Rightarrow> nat \<Rightarrow> u32 list list \<Rightarrow> bool" where
  "window_ok h M X mw w ts \<longleftrightarrow> (\<forall>s \<in> set ts. length s = mw) \<and> nwords h < mw \<and>
     (if w = 1 then 1 < length ts \<and> rep h M (ts ! 1) X
      else 2 ^ w < length ts \<and> (\<forall>u. 1 \<le> u \<and> u < 2 ^ w \<longrightarrow> rep h M (ts ! (u + 1)) (X ^ u)))"

lemma montymul_reps:
  assumes "mont_ok h m m0i" "rep h (val m) x a" "rep h (val m) y b" "nwords h < length d"
  shows "rep h (val m) (br_i31_montymul d x y m m0i) (a * b)" "length (br_i31_montymul d x y m m0i) = length d"
proof -
  have "val y < val m" using assms(1,3) by (simp add: rep_def mont_ok_def)
  then show "rep h (val m) (br_i31_montymul d x y m m0i) (a * b)" "length (br_i31_montymul d x y m m0i) = length d"
    using montymul_value [OF assms(1) _ _ _ assms(4)] montymul_rep(2) [OF assms(1) _ _ assms(4)] assms(2,3) by (simp_all add: rep_def)
qed

lemma tmp_slots_length: "length (tmp_slots mw tmp) = length tmp div mw" "s \<in> set (tmp_slots mw tmp) \<Longrightarrow> length s = mw"
proof -
  show "length (tmp_slots mw tmp) = length tmp div mw" by (simp add: tmp_slots_def)
  assume "s \<in> set (tmp_slots mw tmp)"
  then obtain i where i: "i < length tmp div mw" "s = take mw (drop (i * mw) tmp)" by (auto simp: tmp_slots_def)
  then have "i + 1 \<le> length tmp div mw" by simp
  then have "(i + 1) * mw \<le> length tmp" using div_times_less_eq_dividend [of "length tmp" mw] by (meson le_trans mult_le_mono1)
  then show "length s = mw" using i(2) by simp
qed

lemma modpow_window_fits:
  assumes "1 \<le> w" "2 * mw \<le> tw"
  shows "1 \<le> modpow_window w mw tw \<and> modpow_window w mw tw \<le> w \<and>
    (modpow_window w mw tw = 1 \<or> (2 ^ modpow_window w mw tw + 1) * mw \<le> tw)"
  using assms
proof (induction w mw tw rule: modpow_window.induct)
  case (1 w mw tw)
  show ?case
  proof (cases "1 < w \<and> \<not> (2 ^ w + 1) * mw \<le> tw")
    case True
    then have "modpow_window w mw tw = modpow_window (w - 1) mw tw" by (subst modpow_window.simps) simp
    moreover have "1 \<le> w - 1" using True by linarith
    ultimately show ?thesis using "1.IH" True "1.prems"(2) by fastforce
  next
    case False
    then have "modpow_window w mw tw = w" by (subst modpow_window.simps) auto
    then show ?thesis using False "1.prems" by auto
  qed
qed

lemma slots_update: "\<forall>s \<in> set ts. length s = mw \<Longrightarrow> length a = mw \<Longrightarrow> \<forall>s \<in> set (ts[i := a]). length s = mw"
  using set_update_subset_insert [of ts i a] by blast

lemma modpow_table_ok:
  assumes "mont_ok h m m0i" "m ! 0 = h" "rep h (val m) x X" "\<forall>s \<in> set ts. length s = mw" "nwords h < mw"
    "1 \<le> w" "if w = 1 then 1 < length ts else 2 ^ w < length ts"
  shows "window_ok h (val m) X mw w (modpow_table w x m m0i ts)"
proof -
  have x: "arr h x" using assms(3) by (simp add: rep_def)
  have sl: "length (ts ! i) = mw" if "i < length ts" for i using assms(4) that by simp
  have cp: "rep h (val m) (copy_words (array_words h) x s) X" "length (copy_words (array_words h) x s) = mw" if "length s = mw" for s
    using copy_arr [OF x, of s] assms(3,5) that by (simp_all add: rep_def)
  show ?thesis
  proof (cases "w = 1")
    case True
    then have l: "1 < length ts" using assms(7) by simp
    note c = cp [OF sl [OF l]]
    show ?thesis using c slots_update [OF assms(4) c(2), of 1] l True assms(5)
      unfolding modpow_table_def window_ok_def Let_def assms(2) by simp
  next
    case False
    then have w: "2 \<le> w" and l: "2 ^ w < length ts" using assms(6,7) by auto
    then have "(2 :: nat) ^ 2 \<le> 2 ^ w" by (intro power_increasing) simp_all
    then have l4: "4 < length ts" using l by simp
    define f where "f = (\<lambda>ts u. ts[u + 1 := br_i31_montymul (ts ! (u + 1)) (ts ! u) x m m0i])"
    define t0 where "t0 = ts[2 := copy_words (array_words h) x (ts ! 2)]"
    have "length (foldl f t0 [2..<j]) = length ts \<and> (\<forall>s \<in> set (foldl f t0 [2..<j]). length s = mw) \<and>
        (\<forall>u. 1 \<le> u \<and> u < j \<longrightarrow> rep h (val m) (foldl f t0 [2..<j] ! (u + 1)) (X ^ u))" if "2 \<le> j" "j \<le> 2 ^ w" for j
      using that
    proof (induction j rule: nat_induct_at_least)
      case base
      have l2: "2 < length ts" using l4 by simp
      note c = cp [OF sl [OF l2]]
      have "rep h (val m) (t0 ! (u + 1)) (X ^ u)" if "1 \<le> u \<and> u < 2" for u
      proof -
        have "u = 1" using that by simp
        then show ?thesis using c(1) l2 unfolding t0_def by (simp add: numeral_2_eq_2)
      qed
      then show ?case using slots_update [OF assms(4) c(2), of 2] unfolding t0_def by simp
    next
      case (Suc j)
      let ?t = "foldl f t0 [2..<j]"
      have IH: "length ?t = length ts" "\<forall>s \<in> set ?t. length s = mw" "\<And>u. 1 \<le> u \<Longrightarrow> u < j \<Longrightarrow> rep h (val m) (?t ! (u + 1)) (X ^ u)"
        using Suc by auto
      have j: "j + 1 < length ?t" using Suc.prems l IH(1) by simp
      have "rep h (val m) (?t ! j) (X ^ (j - 1))" using IH(3) [of "j - 1"] Suc.hyps by simp
      moreover have "nwords h < length (?t ! (j + 1))" using IH(2) j assms(5) by (metis nth_mem)
      ultimately have r: "rep h (val m) (br_i31_montymul (?t ! (j + 1)) (?t ! j) x m m0i) (X ^ (j - 1) * X)"
          "length (br_i31_montymul (?t ! (j + 1)) (?t ! j) x m m0i) = length (?t ! (j + 1))"
        using montymul_reps [OF assms(1) _ assms(3)] by simp_all
      have "X ^ (j - 1) * X = X ^ j" using Suc.hyps power_Suc2 [of X "j - 1"] by simp
      then have r1: "rep h (val m) (br_i31_montymul (?t ! (j + 1)) (?t ! j) x m m0i) (X ^ j)" using r(1) by simp
      have "foldl f t0 [2..<Suc j] = ?t[j + 1 := br_i31_montymul (?t ! (j + 1)) (?t ! j) x m m0i]"
        using Suc.hyps by (simp add: f_def)
      moreover have "length (?t ! (j + 1)) = mw" using IH(2) j by simp
      moreover have "rep h (val m) (?t[j + 1 := br_i31_montymul (?t ! (j + 1)) (?t ! j) x m m0i] ! (u + 1)) (X ^ u)" if "1 \<le> u \<and> u < Suc j" for u
        using that r1 IH(3) [of u] j by (cases "u = j") simp_all
      ultimately show ?case using slots_update [OF IH(2)] r(2) IH(1) by simp
    qed
    from this [of "2 ^ w"] have "window_ok h (val m) X mw w (foldl f t0 [2..<2 ^ w])"
      using False w l assms(5) \<open>2 ^ 2 \<le> 2 ^ w\<close> unfolding window_ok_def by simp
    then show ?thesis using False unfolding modpow_table_def Let_def assms(2) f_def t0_def by simp
  qed
qed

lemma map2_or_mask:
  assumes "length xs = length ys"
  shows "map2 (\<lambda>a b. a OR (- of_bool t AND b)) xs ys = (if t then map2 (OR) xs ys else (xs :: u32 list))"
  using assms by (induction xs ys rule: list_induct2) auto

lemma lookup_value:
  assumes "\<forall>s \<in> set ts. length s = mw" "nwords h < mw" "j \<le> length ts - 1" "j < 2 ^ 32" "1 < length ts" "1 \<le> j"
  shows "length (foldl (modpow_select b ts) (br_i31_zero (ts ! 1) h) [1..<j]) = mw \<and> foldl (modpow_select b ts) (br_i31_zero (ts ! 1) h) [1..<j] ! 0 = h \<and>
    words (nwords h) (foldl (modpow_select b ts) (br_i31_zero (ts ! 1) h) [1..<j]) =
      (if 1 \<le> unat b \<and> unat b < j then words (nwords h) (ts ! (unat b + 1)) else replicate (nwords h) 0)"
  using assms(6,3,4)
proof (induction j rule: nat_induct_at_least)
  case base
  have "length (ts ! 1) = mw" using assms(1,5) by simp
  then show ?case using assms(2) by (auto simp: br_i31_zero_def words_def)
next
  case (Suc j)
  let ?n = "nwords h"
  let ?r = "foldl (modpow_select b ts) (br_i31_zero (ts ! 1) h) [1..<j]" and ?e = "ts ! (j + 1)"
  have IH: "length ?r = mw" "?r ! 0 = h"
      "words ?n ?r = (if 1 \<le> unat b \<and> unat b < j then words ?n (ts ! (unat b + 1)) else replicate ?n 0)"
    using Suc by simp_all
  have e: "length ?e = mw" using assms(1) Suc.prems(1) by simp
  have eqb: "(of_nat j :: u32) = b \<longleftrightarrow> unat b = j" using Suc.prems(2) by (auto simp: unat_of_nat take_bit_nat_eq_self)
  have s: "foldl (modpow_select b ts) (br_i31_zero (ts ! 1) h) [1..<Suc j] = h # (if unat b = j then map2 (OR) (tl ?r) (tl ?e) else tl ?r)"
    using Suc.hyps IH(1,2) e map2_or_mask [of "tl ?r" "tl ?e" "unat b = j"] by (simp add: modpow_select_def eqb)
  have w: "words ?n (h # map2 (OR) (tl ?r) (tl ?e)) = words ?n ?e" if "unat b = j"
  proof -
    have "words ?n ?r = replicate ?n 0" using IH(3) that by simp
    then have "map2 (OR) (take ?n (tl ?r)) (take ?n (tl ?e)) = map2 (OR) (replicate ?n 0) (take ?n (tl ?e))"
      by (simp add: words_def drop_Suc)
    also have "\<dots> = take ?n (tl ?e)" using e assms(2) by (intro nth_equalityI) simp_all
    finally show ?thesis by (simp add: words_def drop_Suc take_map take_zip)
  qed
  have "words ?n (h # tl ?r) = words ?n ?r" by (simp add: words_def drop_Suc)
  then show ?case unfolding s using w IH e Suc.hyps assms(2) by (auto simp: less_Suc_eq)
qed

lemma modpow_lookup_rep:
  assumes "window_ok h M X mw w ts" "w \<noteq> 1" "w < 32" "k \<le> w" "unat b < 2 ^ k" "unat h < 2 ^ 32 - 64"
  shows "arr h (modpow_lookup k b h ts)" "length (modpow_lookup k b h ts) = mw"
    "b \<noteq> 0 \<Longrightarrow> rep h M (modpow_lookup k b h ts) (X ^ unat b)" "b = 0 \<Longrightarrow> val (modpow_lookup k b h ts) = 0"
proof -
  let ?r = "modpow_lookup k b h ts" and ?n = "nwords h"
  have W: "\<forall>s \<in> set ts. length s = mw" "?n < mw" "2 ^ w < length ts"
      "\<And>u. 1 \<le> u \<Longrightarrow> u < 2 ^ w \<Longrightarrow> rep h M (ts ! (u + 1)) (X ^ u)"
    using assms(1,2) by (auto simp: window_ok_def)
  have p: "(2 :: nat) ^ k \<le> 2 ^ w" "(2 :: nat) ^ w < 2 ^ 32" "(1 :: nat) \<le> 2 ^ k" "(1 :: nat) \<le> 2 ^ w"
    using assms(3,4) power_strict_increasing [of w 32 "2 :: nat"] by (simp_all add: power_increasing)
  have r: "length ?r = mw" "?r ! 0 = h"
      "words ?n ?r = (if 1 \<le> unat b then words ?n (ts ! (unat b + 1)) else replicate ?n 0)"
  proof -
    have j: "2 ^ k \<le> length ts - 1" "(2 :: nat) ^ k < 2 ^ 32" "1 < length ts" using p W(3) by linarith+
    show "length ?r = mw" "?r ! 0 = h"
      "words ?n ?r = (if 1 \<le> unat b then words ?n (ts ! (unat b + 1)) else replicate ?n 0)"
      using lookup_value [OF W(1,2) j p(3), of b] assms(5) unfolding modpow_lookup_def by simp_all
  qed
  show "length ?r = mw" by (rule r(1))
  have e: "rep h M (ts ! (unat b + 1)) (X ^ unat b)" if "b \<noteq> 0"
    using W(4) [of "unat b"] that assms(5) p(1) by (auto simp: unat_gt_0 Suc_le_eq)
  show a: "arr h ?r" using r W(2) assms(6) e by (cases "b = 0") (auto simp: arr_def rep_def unat_gt_0 Suc_le_eq)
  show "rep h M ?r (X ^ unat b)" if "b \<noteq> 0"
    using e [OF that] a r(2,3) that unfolding rep_def by (auto simp: val_def arr_def unat_gt_0 Suc_le_eq)
  show "val ?r = 0" if "b = 0" using r(2,3) that by (simp add: val_def)
qed

section \<open>The windowed exponentiation\<close>

lemma modpow_squares:
  assumes "mont_ok h m m0i" "m ! 0 = h" "rep h (val m) x a" "nwords h < length t1"
  shows "\<exists>y t. (modpow_square m m0i ^^ k) (x, t1) = (y, t) \<and> rep h (val m) y (a ^ 2 ^ k) \<and> length t = length t1 \<and> length y = length x"
proof (induction k)
  case 0
  then show ?case using assms by simp
next
  case (Suc k)
  then obtain y t where y: "(modpow_square m m0i ^^ k) (x, t1) = (y, t)" "rep h (val m) y (a ^ 2 ^ k)" "length t = length t1" "length y = length x"
    by blast
  let ?t = "br_i31_montymul t y y m m0i"
  have n: "nwords h < length t" "nwords h < length y" using y assms(4) by (auto simp: rep_def arr_def)
  note r = montymul_reps [OF assms(1) y(2,2) n(1)]
  have "a ^ 2 ^ k * a ^ 2 ^ k = a ^ 2 ^ Suc k" by (simp add: power_add [symmetric] mult_2)
  then have "rep h (val m) (copy_words (array_words h) ?t y) (a ^ 2 ^ Suc k)" "length (copy_words (array_words h) ?t y) = length y"
    using copy_arr [OF _ n(2), of ?t] r(1) by (simp_all add: rep_def)
  moreover have "(modpow_square m m0i ^^ Suc k) (x, t1) = (copy_words (array_words h) ?t y, ?t)"
    using y(1) by (simp add: modpow_square_def assms(2) Let_def)
  ultimately show ?case using r(2) y(3,4) by simp
qed

lemma modpow_step_value:
  assumes "mont_ok h m m0i" "m ! 0 = h" "window_ok h (val m) X mw w ts" "rep h (val m) x (X ^ c)" "1 \<le> w" "w < 32" "k \<le> w" "unat b < 2 ^ k"
  shows "\<exists>x' ts'. modpow_step w m m0i k b (x, ts) = (x', ts') \<and> window_ok h (val m) X mw w ts' \<and> rep h (val m) x' (X ^ (c * 2 ^ k + unat b)) \<and>
    length x' = length x"
proof -
  have W: "\<forall>s \<in> set ts. length s = mw" "nwords h < mw" "1 < length ts"
    using assms(3) le_less_trans [of 1 "2 ^ w" "length ts"] by (auto simp: window_ok_def split: if_splits)
  have hb: "unat h < 2 ^ 32 - 64" using assms(1) by (simp add: mont_ok_def arr_def)
  have "ts ! 0 \<in> set ts" by (rule nth_mem) (use W(3) in linarith)
  then have l0: "length (ts ! 0) = mw" using W(1) by blast
  then obtain y t where y: "(modpow_square m m0i ^^ k) (x, ts ! 0) = (y, t)" "rep h (val m) y (X ^ (c * 2 ^ k))" "length t = mw" "length y = length x"
    using modpow_squares [OF assms(1,2,4), of "ts ! 0" k] W(2) by (auto simp: power_mult)
  define ts1 where "ts1 = ts[0 := t]"
  have upd: "window_ok h (val m) X mw w (us[0 := a])" if "window_ok h (val m) X mw w us" "length a = mw" for us a
    using that slots_update [of us mw a 0] by (auto simp: window_ok_def)
  have ts1: "window_ok h (val m) X mw w ts1" unfolding ts1_def by (rule upd [OF assms(3) y(3)])
  have t0: "ts1 ! 0 = t" "1 < length ts1" unfolding ts1_def using W(3) by (cases ts; simp)+
  define ts2 where "ts2 = (if 1 < w then ts1[1 := modpow_lookup k b h ts1] else ts1)"
  have ts2: "window_ok h (val m) X mw w ts2 \<and> ts2 ! 0 = t \<and> (b \<noteq> 0 \<longrightarrow> rep h (val m) (ts2 ! 1) (X ^ unat b)) \<and> arr h (ts2 ! 1) \<and> val (ts2 ! 1) < val m"
  proof (cases "1 < w")
    case True
    then have w1: "w \<noteq> 1" by simp
    note lk = modpow_lookup_rep [OF ts1 w1 assms(6-8) hb]
    have M0: "0 < val m" using assms(1) by (simp add: mont_ok_def)
    have "val (modpow_lookup k b h ts1) < val m" using lk(3,4) M0 by (cases "b = 0") (auto simp: rep_def)
    moreover have "window_ok h (val m) X mw w (ts1[1 := modpow_lookup k b h ts1])"
      using ts1 w1 slots_update [of ts1 mw _ 1] lk(2) by (auto simp: window_ok_def)
    ultimately show ?thesis using True lk t0 unfolding ts2_def by simp
  next
    case False
    then have w1: "w = 1" using assms(5) by simp
    have r: "rep h (val m) (ts1 ! 1) X" using ts1 w1 by (simp add: window_ok_def)
    have "unat b \<le> 1" using assms(7,8) w1 power_increasing [of k 1 "2 :: nat"] by simp
    then have "b \<noteq> 0 \<Longrightarrow> unat b = 1" by (metis le_less less_one unat_eq_zero)
    then show ?thesis using r ts1 w1 assms(1) t0 unfolding ts2_def by (auto simp: rep_def mont_ok_def)
  qed
  define t1 where "t1 = br_i31_montymul (ts2 ! 0) y (ts2 ! 1) m m0i"
  have n: "nwords h < length (ts2 ! 0)" using ts2 y(3) W(2) by simp
  have t1: "arr h t1" "length t1 = mw" "b \<noteq> 0 \<Longrightarrow> rep h (val m) t1 (X ^ (c * 2 ^ k) * X ^ unat b)"
    unfolding t1_def using montymul_value [OF assms(1) _ _ _ n] montymul_reps(1) [OF assms(1) y(2) _ n] ts2 y(2,3) by (auto simp: rep_def)
  have ya: "arr h y" using y(2) by (simp add: rep_def)
  define x' where "x' = ccopy_words (of_bool (b \<noteq> 0)) y t1 (array_words h)"
  have x': "rep h (val m) x' (X ^ (c * 2 ^ k + unat b))" "length x' = length x"
    unfolding x'_def using ccopy_arr [OF t1(1) ya, of "b \<noteq> 0"] t1(3) y(2,4) by (cases "b = 0"; simp add: rep_def power_add)+
  have "modpow_step w m m0i k b (x, ts) = (x', ts2[0 := t1])"
    unfolding modpow_step_def prod.case y(1) Let_def assms(2) ts1_def [symmetric] ts2_def [symmetric] t1_def [symmetric] NEQ_iff x'_def [symmetric] ..
  moreover have "window_ok h (val m) X mw w (ts2[0 := t1])" using upd [of ts2 t1] ts2 t1(2) by simp
  ultimately show ?thesis using x' by blast
qed

text \<open>What is left of the exponent: the bits of the accumulator and the bytes not yet read.\<close>

definition rest :: "byte list \<Rightarrow> u32 \<Rightarrow> nat \<Rightarrow> nat" where
  "rest e acc l = (unat acc mod 2 ^ l) * 256 ^ length e + os2ip e"

lemma take_bits:
  assumes "k \<le> l" "k < 32"
  shows "unat acc mod 2 ^ l = unat (drop_bit (l - k) acc AND (push_bit k 1 - 1)) * 2 ^ (l - k) + unat acc mod 2 ^ (l - k)"
    "unat (drop_bit (l - k) acc AND (push_bit k 1 - 1) :: u32) < 2 ^ k"
proof -
  have "push_bit k 1 - 1 = (2 ^ k - 1 :: u32)" by (simp add: push_bit_eq_mult)
  then have b: "unat (drop_bit (l - k) acc AND (push_bit k 1 - 1)) = unat acc div 2 ^ (l - k) mod 2 ^ k"
    using and_low(1) [of k "drop_bit (l - k) acc"] assms(2) by (simp only: unat_shr) simp
  show "unat (drop_bit (l - k) acc AND (push_bit k 1 - 1)) < 2 ^ k" unfolding b by simp
  have "(2 :: nat) ^ l = 2 ^ (l - k) * 2 ^ k" unfolding power_add [symmetric] using assms(1) by simp
  then show "unat acc mod 2 ^ l = unat (drop_bit (l - k) acc AND (push_bit k 1 - 1)) * 2 ^ (l - k) + unat acc mod 2 ^ (l - k)"
    unfolding b using mod_mult2_eq [of "unat acc" "2 ^ (l - k)" "2 ^ k"] by (simp only: mult.commute)
qed

lemma load_byte:
  fixes acc :: u32
  assumes "l + 8 \<le> 32"
  shows "unat (push_bit 8 acc OR ucast b) mod 2 ^ (l + 8) = (unat acc mod 2 ^ l) * 256 + unat (b :: byte)"
proof -
  have b: "unat (ucast b :: u32) = unat b" "unat b < 2 ^ 8" using unsigned_less [of b, where ?'a = nat] by (simp_all add: unsigned_ucast_eq take_bit_nat_eq_self)
  have "unat (push_bit 8 acc OR ucast b) = take_bit 32 (push_bit 8 (unat acc)) OR unat b"
    by (simp only: unsigned_or_eq unsigned_push_bit_eq) (simp add: b)
  then have "take_bit (l + 8) (unat (push_bit 8 acc OR ucast b)) = take_bit (l + 8) (push_bit 8 (unat acc) OR unat b)"
    using assms by (simp add: take_bit_or min_def)
  also have "push_bit 8 (unat acc) OR unat b = 256 * unat acc + unat b" using or_shift [OF b(2), of "unat acc"] by simp
  finally have "unat (push_bit 8 acc OR ucast b) mod 2 ^ (l + 8) = (256 * unat acc + unat b) mod (256 * 2 ^ l)"
    by (simp add: take_bit_eq_mod power_add mult.commute)
  also have "\<dots> = 256 * (unat acc mod 2 ^ l) + unat b" by (rule mod_mult_shift) (use b(2) in simp)
  finally show ?thesis by simp
qed

lemma rest_load: "l + 8 \<le> 32 \<Longrightarrow> rest e (push_bit 8 acc OR ucast b) (l + 8) = rest (b # e) acc l"
  unfolding rest_def load_byte by (simp add: algebra_simps)

lemma rest_take:
  assumes "k \<le> l" "k < 32"
  shows "c * 2 ^ (l + 8 * length e) + rest e acc l =
    (c * 2 ^ k + unat (drop_bit (l - k) acc AND (push_bit k 1 - 1) :: u32)) * 2 ^ (l - k + 8 * length e) + rest e acc (l - k)"
proof -
  have p: "(2 :: nat) ^ (l + 8 * length e) = 2 ^ k * 2 ^ (l - k + 8 * length e)" "(2 :: nat) ^ (l - k + 8 * length e) = 2 ^ (l - k) * 256 ^ length e"
  proof -
    show "(2 :: nat) ^ (l + 8 * length e) = 2 ^ k * 2 ^ (l - k + 8 * length e)" unfolding power_add [symmetric] using assms(1) by simp
    show "(2 :: nat) ^ (l - k + 8 * length e) = 2 ^ (l - k) * 256 ^ length e" unfolding power_add power_mult by simp
  qed
  show ?thesis unfolding rest_def take_bits(1) [OF assms] p by (simp add: algebra_simps)
qed

lemma modpow_loop_value:
  assumes "mont_ok h m m0i" "m ! 0 = h" "w < 8"
  shows "l \<le> w + 8 \<Longrightarrow> window_ok h (val m) X mw (w + 1) ts \<Longrightarrow> rep h (val m) x (X ^ c) \<Longrightarrow>
    \<exists>x' ts'. modpow_loop w m m0i e acc l (x, ts) = (x', ts') \<and> rep h (val m) x' (X ^ (c * 2 ^ (l + 8 * length e) + rest e acc l)) \<and> length x' = length x"
proof (induction "8 * length e + l" arbitrary: e acc l x ts c rule: less_induct)
  case less
  show ?case
  proof (cases "l = 0 \<and> e = []")
    case True
    then show ?thesis using less.prems by (subst modpow_loop.simps) (simp add: rest_def)
  next
    case False
    obtain acc' l' e' k where n: "(if l < w + 1 then if e \<noteq> [] then (push_bit 8 acc OR ucast (hd e), l + 8, tl e, w + 1)
        else (acc, l, e, l) else (acc, l, e, w + 1)) = (acc', l', e', k)" by (metis prod_cases4)
    have k: "k \<le> l'" "0 < k" "k \<le> w + 1" "l' - k \<le> w + 8" "8 * length e' + l' = 8 * length e + l" "rest e' acc' l' = rest e acc l"
      using n False less.prems(1) assms(3) by (auto split: if_splits simp: rest_load neq_Nil_conv)
    define b where "b = drop_bit (l' - k) acc' AND (push_bit k 1 - 1)"
    have b: "unat b < 2 ^ k" unfolding b_def using take_bits(2) [OF k(1)] k(3) assms(3) by simp
    have kw: "1 \<le> w + 1" "w + 1 < 32" using assms(3) by simp_all
    obtain x' ts' where s: "modpow_step (w + 1) m m0i k b (x, ts) = (x', ts')" "window_ok h (val m) X mw (w + 1) ts'"
        "rep h (val m) x' (X ^ (c * 2 ^ k + unat b))" "length x' = length x"
      using modpow_step_value [OF assms(1,2) less.prems(2,3) kw k(3) b] by blast
    have "8 * length e' + (l' - k) < 8 * length e + l" using k(1,2,5) by linarith
    from less.hyps [OF this k(4) s(2,3)] obtain y us where y: "modpow_loop w m m0i e' acc' (l' - k) (x', ts') = (y, us)"
        "rep h (val m) y (X ^ ((c * 2 ^ k + unat b) * 2 ^ (l' - k + 8 * length e') + rest e' acc' (l' - k)))" "length y = length x'" by blast
    have "(c * 2 ^ k + unat b) * 2 ^ (l' - k + 8 * length e') + rest e' acc' (l' - k) = c * 2 ^ (l' + 8 * length e') + rest e' acc' l'"
      unfolding b_def using rest_take [OF k(1)] k(3) assms(3) by simp
    also have "\<dots> = c * 2 ^ (l + 8 * length e) + rest e acc l" using k(5,6) by (simp add: add.commute)
    finally have "rep h (val m) y (X ^ (c * 2 ^ (l + 8 * length e) + rest e acc l))" using y(2) by simp
    moreover have "modpow_loop w m m0i e acc l (x, ts) = (y, us)"
      using False by (subst modpow_loop.simps) (simp only: if_False n Let_def prod.case b_def [symmetric] s(1) y(1))
    ultimately show ?thesis using y(3) s(4) by simp
  qed
qed

lemma one_rep:
  assumes "exact m" "mont_ok (m ! 0) m m0i" "nwords (m ! 0) < length x"
  shows "rep (m ! 0) (val m) (br_i31_muladd_small ((br_i31_zero x (m ! 0))[nwords (m ! 0) := 1]) 0 m) 1"
    "length (br_i31_muladd_small ((br_i31_zero x (m ! 0))[nwords (m ! 0) := 1]) 0 m) = length x"
proof -
  let ?h = "m ! 0" and ?n = "nwords (m ! 0)"
  let ?x = "(br_i31_zero x ?h)[?n := 1]"
  have h: "unat ?h < 2 ^ 32 - 64" "0 < val m" "0 < ?n" using assms(2) by (auto simp: mont_ok_def arr_def)
  have i: "?n - 1 < ?n" "Suc (?n - 1) = ?n" using h(3) by simp_all
  have x: "arr ?h ?x" "val ?x = 2 ^ (31 * (?n - 1))" "length ?x = length x" using one_arr [OF h(1) assms(3) i(1)] unfolding i(2) by simp_all
  have le: "val ?x \<le> val m" unfolding x(2) using exact_low(2) [OF assms(1) h(2)] .
  have "val ?x < val m \<or> unat ?h \<le> 31 \<and> val ?x = val m"
  proof (rule ccontr)
    assume c: "\<not> ?thesis"
    then have e: "val m = 2 ^ (31 * (?n - 1))" "31 < unat ?h" using le x(2) by auto
    have "coprime 2 (val m)" using coprime_radix [OF assms(2), of 1] by simp
    then have "31 * (?n - 1) = 0" unfolding e(1) by (cases "31 * (?n - 1)") simp_all
    then have "val m = 1" "?n = 1" using e(1) h(3) by simp_all
    then have "hbits ?h = 31" using header_parts(2,3) [OF h(1) e(2)] by (cases "unat ?h mod 32 = 0") auto
    then show False using assms(1) \<open>val m = 1\<close> by (simp add: exact_def)
  qed
  note v = muladd_small_value [OF assms(1) x(1) this h(2), of 0]
  have "(2 :: nat) ^ 31 * 2 ^ (31 * (?n - 1)) = 2 ^ (31 * ?n)" unfolding power_add [symmetric] using h(3) by (cases ?n) simp_all
  then have "val (br_i31_muladd_small ?x 0 m) = (2 ^ (31 * ?n) * 1) mod val m" using v(3) x(2) by simp
  then show "rep ?h (val m) (br_i31_muladd_small ?x 0 m) 1" "length (br_i31_muladd_small ?x 0 m) = length x"
    using v(1,2) x(3) by (simp_all add: rep_def)
qed

theorem modpow_opt_value:
  assumes "exact m" "mont_ok (m ! 0) m m0i" "arr (m ! 0) x" "val x < val m"
    "2 * (array_words (m ! 0) + array_words (m ! 0) mod 2) \<le> length tmp"
  shows "\<exists>y. br_i31_modpow_opt x e m m0i tmp = (y, 1) \<and> arr (m ! 0) y \<and> length y = length x \<and> val y = val x ^ os2ip e mod val m"
proof -
  let ?h = "m ! 0" and ?X = "val x" and ?M = "val m"
  have h: "unat ?h < 2 ^ 32 - 64" "nwords ?h < length x" using assms(3) by (auto simp: arr_def)
  define mw where "mw = array_words ?h + (array_words ?h AND 1)"
  have mw: "nwords ?h < mw" "2 * mw \<le> length tmp" "0 < mw" using array_words_Suc [OF h(1)] assms(5) by (simp_all add: mw_def and_one_eq)
  define w where "w = modpow_window 5 mw (length tmp)"
  have w: "1 \<le> w" "w \<le> 5" "w = 1 \<or> (2 ^ w + 1) * mw \<le> length tmp" using modpow_window_fits [of 5 mw "length tmp"] mw(2) by (simp_all add: w_def)
  have sl: "if w = 1 then 1 < length (tmp_slots mw tmp) else 2 ^ w < length (tmp_slots mw tmp)"
  proof (cases "w = 1")
    case True
    then show ?thesis using mw(2,3) by (simp add: tmp_slots_length less_eq_div_iff_mult_less_eq Suc_le_eq [symmetric])
  next
    case False
    then have "(2 ^ w + 1) * mw \<le> length tmp" using w(3) by simp
    then have "2 ^ w + 1 \<le> length tmp div mw" using mw(3) by (simp only: less_eq_div_iff_mult_less_eq)
    then show ?thesis using False by (simp add: tmp_slots_length)
  qed
  define x1 where "x1 = br_i31_to_monty x m"
  have x1: "rep ?h ?M x1 ?X" "length x1 = length x" using to_monty_value [OF assms(1,3,4)] by (simp_all add: x1_def rep_def)
  define ts where "ts = modpow_table w x1 m m0i (tmp_slots mw tmp)"
  have ts: "window_ok ?h ?M ?X mw (w - 1 + 1) ts"
    unfolding ts_def using modpow_table_ok [OF assms(2) refl x1(1) _ mw(1) w(1) sl] tmp_slots_length(2) w(1) by simp
  define x2 where "x2 = br_i31_muladd_small ((br_i31_zero x1 ?h)[nwords ?h := 1]) 0 m"
  have x2: "rep ?h ?M x2 (?X ^ 0)" "length x2 = length x"
    using one_rep [OF assms(1,2), of x1] h(2) x1(2) by (simp_all add: x2_def)
  have "w - 1 < 8" using w(2) by simp
  from modpow_loop_value [OF assms(2) refl this, of 0 ?X mw ts x2 0 e 0] ts x2(1)
  obtain y us where y: "modpow_loop (w - 1) m m0i e 0 0 (x2, ts) = (y, us)" "rep ?h ?M y (?X ^ os2ip e)" "length y = length x2"
    by (auto simp: rest_def)
  have r: "br_i31_modpow_opt x e m m0i tmp = (br_i31_from_monty y m m0i, 1)"
    unfolding br_i31_modpow_opt_def Let_def mw_def [symmetric] w_def [symmetric] x1_def [symmetric] ts_def [symmetric] x2_def [symmetric] y(1)
    using mw(2) by simp
  have "arr ?h y" "val y < ?M" using y(2) assms(4) by (auto simp: rep_def)
  note v = from_monty_value [OF assms(2) this]
  have "(2 ^ (31 * nwords ?h) * val (br_i31_from_monty y m m0i)) mod ?M = (2 ^ (31 * nwords ?h) * ?X ^ os2ip e) mod ?M"
    using v(4) y(2) by (simp add: rep_def)
  then have "val (br_i31_from_monty y m m0i) mod ?M = ?X ^ os2ip e mod ?M" by (rule mod_cancel [OF coprime_radix [OF assms(2)]])
  then show ?thesis using r v(1-3) y(3) x2(2) by simp
qed

text \<open>
  C13. Both exponentiations, \<open>br_i31_modpow\<close> with one bit per turn and \<open>br_i31_modpow_opt\<close> with a window as large as the temporary
  words allow, compute \<open>x ^ e mod m\<close> for every odd modulus above 1 and every exponent; \<open>br_i31_modpow_opt\<close> refuses, without
  a change, exactly when there is no room for two integers.
\<close>

theorem modpow_is_power:
  assumes "exact m" "odd (val m)" "1 < val m" "m0i = br_i31_ninv31 (m ! 1)" "arr (m ! 0) x" "val x < val m"
    "nwords (m ! 0) < length t1" "nwords (m ! 0) < length t2" "length e < 2 ^ 29"
    "mw = array_words (m ! 0) + array_words (m ! 0) mod 2"
  shows "val (br_i31_modpow x e m m0i t1 t2) = val x ^ os2ip e mod val m \<and> arr (m ! 0) (br_i31_modpow x e m m0i t1 t2) \<and>
    (if length tmp < 2 * mw then br_i31_modpow_opt x e m m0i tmp = (x, 0)
     else \<exists>y. br_i31_modpow_opt x e m m0i tmp = (y, 1) \<and> arr (m ! 0) y \<and> length y = length x \<and> val y = val x ^ os2ip e mod val m)"
proof -
  have m: "mont_ok (m ! 0) m m0i" unfolding assms(4) by (rule mont_okI) (use assms(1,2) in \<open>simp_all add: exact_def\<close>)
  have "br_i31_modpow_opt x e m m0i tmp = (x, 0)" if "length tmp < 2 * mw"
    using that unfolding br_i31_modpow_opt_def Let_def assms(10) by (simp add: and_one_eq)
  then show ?thesis using modpow_value [OF assms(1) m assms(3,5-9)] modpow_opt_value [OF assms(1) m assms(5,6), of tmp e] assms(10) by simp
qed

theorem modpow_is_power_witness:
  "val (br_i31_modpow [3, 4] [1, 0] [3, 7] (br_i31_ninv31 7) [0, 0] [0, 0]) = 4 \<and>
    (\<exists>y. br_i31_modpow_opt [3, 4] [1, 0] [3, 7] (br_i31_ninv31 7) (replicate 10 0) = (y, 1) \<and> val y = 4)"
proof -
  have v: "nwords 3 = 1" "val [3, 7] = 7" "val [3, 4] = 4" "arr 3 [3, 7]" "arr 3 [3, 4]" "hbits 3 = 3" "array_words 3 = 2" "os2ip [1, 0] = 256"
    by (simp_all add: nwords_def val_def words_def arr_def hbits_def array_words_def)
  have "exact [3, 7]" unfolding exact_def using v by simp
  moreover have "(4 :: nat) ^ 256 mod 7 = 4" by simp
  moreover have "odd (7 :: nat)" by simp
  ultimately show ?thesis
    using modpow_is_power [of "[3, 7]" "br_i31_ninv31 7" "[3, 4]" "[0, 0]" "[0, 0]" "[1, 0]" 2 "replicate 10 0"] v by auto
qed

end
