(* ===== verification/Bigint_Code.thy ===== *)
theory Bigint_Code
  imports Bigint_Pow
begin

text \<open>
  Big integers from and to byte strings, most significant byte first: decoding (\<^verbatim>\<open>int/i31_decode.c\<close>),
  decoding below a modulus (\<^verbatim>\<open>int/i31_decmod.c\<close>) and encoding (\<^verbatim>\<open>int/i31_encode.c\<close>).
\<close>

unbundle bit_operations_syntax

section \<open>The code\<close>

text \<open>The words that the bytes give, from the last byte on; \<open>acc\<close> holds \<open>l\<close> bits.\<close>

fun i31_decode_loop :: "byte list \<Rightarrow> u32 \<Rightarrow> nat \<Rightarrow> u32 list" where
  "i31_decode_loop [] acc l = (if l \<noteq> 0 then [acc] else [])"
| "i31_decode_loop (b # bs) acc l =
     (let acc = acc OR push_bit l (ucast b);
          l = l + 8
      in if 31 \<le> l then (acc AND 0x7FFFFFFF) # i31_decode_loop bs (drop_bit (8 - (l - 31)) (ucast b)) (l - 31)
         else i31_decode_loop bs acc l)"

definition br_i31_decode :: "u32 list \<Rightarrow> byte list \<Rightarrow> u32 list" where
  "br_i31_decode x src =
     (let ws = i31_decode_loop (rev src) 0 0
      in (set_words ws x)[0 := br_i31_bit_length ws (length ws)])"

text \<open>The two passes of \<open>br_i31_decode_mod\<close>: the comparison with the modulus, whose words are \<open>ms\<close>, and the words that
  are stored, at most \<open>k\<close>.\<close>

fun decmod_pass1 :: "byte list \<Rightarrow> u32 \<Rightarrow> nat \<Rightarrow> u32 list \<Rightarrow> u32 \<Rightarrow> u32" where
  "decmod_pass1 [] acc l ms r = r"
| "decmod_pass1 (b # bs) acc l ms r =
     (let acc = acc OR push_bit l (ucast b);
          l = l + 8
      in if 31 \<le> l then
           (let xw = acc AND 0x7FFFFFFF;
                l = l - 31;
                acc = drop_bit (8 - l) (ucast b)
            in case ms of
                 mw # ms \<Rightarrow> (let cc = CMP xw mw in decmod_pass1 bs acc l ms (MUX (EQ cc 0) r cc))
               | [] \<Rightarrow> decmod_pass1 bs acc l [] (MUX (EQ xw 0) r 1))
         else decmod_pass1 bs acc l ms r)"

fun decmod_pass2 :: "byte list \<Rightarrow> u32 \<Rightarrow> nat \<Rightarrow> nat \<Rightarrow> u32 \<Rightarrow> u32 list" where
  "decmod_pass2 [] acc l k r = []"
| "decmod_pass2 (b # bs) acc l k r =
     (let acc = acc OR push_bit l (ucast b);
          l = l + 8
      in if 31 \<le> l then
           (let xw = acc AND 0x7FFFFFFF;
                l = l - 31;
                acc = drop_bit (8 - l) (ucast b)
            in if 0 < k then (r AND xw) # decmod_pass2 bs acc l (k - 1) r else decmod_pass2 bs acc l 0 r)
         else decmod_pass2 bs acc l k r)"

definition decmod_flag :: "u32 \<Rightarrow> u32" where
  "decmod_flag r = (let r = drop_bit 1 r in r OR push_bit 1 r)"

definition br_i31_decode_mod :: "u32 list \<Rightarrow> byte list \<Rightarrow> u32 list \<Rightarrow> u32 list \<times> u32" where
  "br_i31_decode_mod x src m =
     (let mlen = nwords (m ! 0);
          tlen = max (4 * mlen) (length src) + 4;
          bs = rev src @ replicate (tlen - length src) 0;
          r = decmod_flag (decmod_pass1 bs 0 0 (words mlen m) 0);
          x = set_words (decmod_pass2 bs 0 0 mlen r) x;
          r = decmod_flag r
      in (x[0 := m ! 0], r AND 1))"

text \<open>The bytes of the output from the last one on; \<open>ws\<close> are the words not yet read, beyond which there are zeros.\<close>

function i31_encode_loop :: "u32 list \<Rightarrow> nat \<Rightarrow> u32 \<Rightarrow> nat \<Rightarrow> byte list" where
  "i31_encode_loop ws len acc l =
     (if len = 0 then []
      else
        (let w = (case ws of [] \<Rightarrow> 0 | w # _ \<Rightarrow> w);
             ws = tl ws
         in if l = 0 then i31_encode_loop ws len w 31
            else
              (let z = acc OR push_bit l w;
                   l = l - 1;
                   acc = drop_bit (31 - l) w
               in if 4 \<le> len then rev (br_enc32be z) @ i31_encode_loop ws (len - 4) acc l
                  else take len [ucast z, ucast (drop_bit 8 z), ucast (drop_bit 16 z)])))"
  by pat_completeness auto

termination
  by (relation "measure (\<lambda>(ws, len, acc, l). 2 * len + (if l = 0 then 1 else 0))") auto

declare i31_encode_loop.simps [simp del]

definition br_i31_encode :: "nat \<Rightarrow> u32 list \<Rightarrow> byte list" where
  "br_i31_encode len x =
     (let xlen = nwords (x ! 0) in
      if xlen = 0 then replicate len 0 else rev (i31_encode_loop (words xlen x) len 0 0))"

section \<open>Words from bytes\<close>

lemma os2ip_rev_Cons: "os2ip (rev (b # bs)) = unat b + 256 * os2ip (rev bs)"
  by (simp add: os2ip_append)

lemma unat_or_shl:
  fixes w r :: u32
  assumes "unat r < 2 ^ j"
  shows "unat (r OR push_bit j w) = (unat r + 2 ^ j * unat w) mod 2 ^ 32"
proof -
  have "unat (r OR push_bit j w) = unat r OR take_bit 32 (push_bit j (unat w))"
    by (simp only: unsigned_or_eq unsigned_push_bit_eq) simp
  also have "\<dots> = take_bit 32 (push_bit j (unat w) OR unat r)"
    using unat_u32 [of r] by (simp add: take_bit_nat_eq_self or.commute)
  also have "\<dots> = (unat r + 2 ^ j * unat w) mod 2 ^ 32" unfolding or_shift [OF assms, symmetric] by (simp add: take_bit_eq_mod add.commute)
  finally show ?thesis .
qed

text \<open>One byte more in the accumulator, and the word that it completes.\<close>

lemma byte_step:
  fixes acc :: u32 and b :: byte
  assumes "unat acc < 2 ^ l" "l < 31"
  defines "t \<equiv> unat acc + 2 ^ l * unat b"
  shows "l + 8 < 31 \<Longrightarrow> unat (acc OR push_bit l (ucast b)) = t" "t < 2 ^ (l + 8)"
    "31 \<le> l + 8 \<Longrightarrow> unat ((acc OR push_bit l (ucast b)) AND 0x7FFFFFFF) = t mod 2 ^ 31"
    "31 \<le> l + 8 \<Longrightarrow> unat (drop_bit (8 - (l + 8 - 31)) (ucast b) :: u32) = t div 2 ^ 31"
    "31 \<le> l + 8 \<Longrightarrow> unat (drop_bit (8 - (l + 8 - 31)) (ucast b) :: u32) < 2 ^ (l + 8 - 31)"
proof -
  have b: "unat (ucast b :: u32) = unat b" "unat b < 256" using unsigned_less [of b, where ?'a = nat] by (simp_all add: unsigned_ucast_eq take_bit_nat_eq_self)
  have u: "unat (acc OR push_bit l (ucast b)) = t mod 2 ^ 32" unfolding t_def using unat_or_shl [OF assms(1), of "ucast b"] b(1) by simp
  have "unat acc + 2 ^ l * unat b < 2 ^ l * (unat b + 1)" using assms(1) by simp
  also have "\<dots> \<le> 2 ^ l * 256" using b(2) by (intro mult_le_mono2) simp
  finally show t: "t < 2 ^ (l + 8)" unfolding t_def by (simp add: power_add)
  show "unat (acc OR push_bit l (ucast b)) = t" if "l + 8 < 31"
  proof -
    have "(2 :: nat) ^ (l + 8) \<le> 2 ^ 32" using that by (intro power_increasing) simp_all
    then show ?thesis unfolding u using t by simp
  qed
  show "unat ((acc OR push_bit l (ucast b)) AND 0x7FFFFFFF) = t mod 2 ^ 31" unfolding low31 u by (simp add: mod_mod_cancel)
  have p: "(2 :: nat) ^ l * 2 ^ (31 - l) = 2 ^ 31" unfolding power_add [symmetric] using assms(2) by simp
  show d: "unat (drop_bit (8 - (l + 8 - 31)) (ucast b) :: u32) = t div 2 ^ 31" if "31 \<le> l + 8"
  proof -
    have "t div 2 ^ 31 = t div 2 ^ l div 2 ^ (31 - l)" unfolding p [symmetric] by (rule div_mult2_eq)
    also have "t div 2 ^ l = unat b" unfolding t_def using assms(1) by simp
    finally show ?thesis using that unfolding unat_shr b(1) by simp
  qed
  show "unat (drop_bit (8 - (l + 8 - 31)) (ucast b) :: u32) < 2 ^ (l + 8 - 31)" if "31 \<le> l + 8"
  proof -
    have "(2 :: nat) ^ (l + 8) = 2 ^ (l + 8 - 31) * 2 ^ 31" unfolding power_add [symmetric] using that by simp
    then show ?thesis unfolding d [OF that] using t by (intro less_mult_imp_div_less) simp
  qed
qed

lemma i31_decode_loop_value:
  assumes "unat acc < 2 ^ l" "l < 31"
  shows "words31 (i31_decode_loop bs acc l) \<and> length (i31_decode_loop bs acc l) = (8 * length bs + l + 30) div 31 \<and>
    ival (i31_decode_loop bs acc l) = unat acc + 2 ^ l * os2ip (rev bs)"
  using assms
proof (induction bs arbitrary: acc l)
  case Nil
  have "(2 :: nat) ^ l \<le> 2 ^ 31" using Nil(2) by (intro power_increasing) simp_all
  moreover have "(l + 30) div 31 = 1" if "l \<noteq> 0" using that Nil(2) by (intro div_nat_eqI) simp_all
  ultimately show ?case using Nil by (cases "l = 0") simp_all
next
  case (Cons b bs)
  define t where "t = unat acc + 2 ^ l * unat b"
  note st = byte_step [OF Cons.prems, of b, folded t_def]
  have e: "unat acc + 2 ^ l * os2ip (rev (b # bs)) = t + 2 ^ (l + 8) * os2ip (rev bs)"
    unfolding t_def os2ip_rev_Cons by (simp add: power_add algebra_simps)
  show ?case
  proof (cases "31 \<le> l + 8")
    case False
    then have s: "i31_decode_loop (b # bs) acc l = i31_decode_loop bs (acc OR push_bit l (ucast b)) (l + 8)" by simp
    have "unat (acc OR push_bit l (ucast b)) < 2 ^ (l + 8)" "l + 8 < 31" using False st(1,2) by simp_all
    from Cons.IH [OF this] show ?thesis unfolding s e using st(1) False by (simp add: algebra_simps)
  next
    case True
    define a where "a = (drop_bit (8 - (l + 8 - 31)) (ucast b) :: u32)"
    let ?w = "(acc OR push_bit l (ucast b)) AND 0x7FFFFFFF"
    have s: "i31_decode_loop (b # bs) acc l = ?w # i31_decode_loop bs a (l + 8 - 31)" using True unfolding a_def by (simp add: Let_def)
    have a: "unat a = t div 2 ^ 31" "unat a < 2 ^ (l + 8 - 31)" "l + 8 - 31 < 31" using st(4,5) True Cons.prems(2) unfolding a_def by simp_all
    note IH = Cons.IH [OF a(2,3)]
    have p: "(2 :: nat) ^ (l + 8) = 2 ^ 31 * 2 ^ (l + 8 - 31)" unfolding power_add [symmetric] using True by simp
    have w: "unat ?w = t mod 2 ^ 31" using st(3) True by simp
    have "ival (i31_decode_loop (b # bs) acc l) = t mod 2 ^ 31 + 2 ^ 31 * (t div 2 ^ 31 + 2 ^ (l + 8 - 31) * os2ip (rev bs))"
      unfolding s using IH w a(1) by simp
    also have "\<dots> = (t mod 2 ^ 31 + 2 ^ 31 * (t div 2 ^ 31)) + 2 ^ (l + 8) * os2ip (rev bs)" unfolding p by (simp only: distrib_left mult.assoc add.assoc)
    finally have v: "ival (i31_decode_loop (b # bs) acc l) = unat acc + 2 ^ l * os2ip (rev (b # bs))" unfolding e by simp
    have "8 * length (b # bs) + l + 30 = 31 + (8 * length bs + (l + 8 - 31) + 30)" using True by simp
    then have "(8 * length (b # bs) + l + 30) div 31 = 1 + (8 * length bs + (l + 8 - 31) + 30) div 31" by simp
    moreover have "unat ?w < 2 ^ 31" unfolding w by simp
    ultimately show ?thesis using v IH unfolding s by simp
  qed
qed

lemma i31_decode_words:
  defines "ws src \<equiv> i31_decode_loop (rev src) 0 0"
  shows "words31 (ws src)" "length (ws src) = (8 * length src + 30) div 31" "ival (ws src) = os2ip src"
  using i31_decode_loop_value [of 0 0 "rev src"] unfolding ws_def by simp_all

lemma header_words: "unat h = header b \<Longrightarrow> unat h < 2 ^ 32 - 64 \<Longrightarrow> b \<le> 31 * nwords h \<and> nwords h = (b + 30) div 31"
proof -
  assume h: "unat h = header b" "unat h < 2 ^ 32 - 64"
  show ?thesis
  proof (cases b)
    case 0
    then show ?thesis using h by (simp add: header_def nwords_nat)
  next
    case (Suc c)
    have "unat h = 32 * (c div 31) + c mod 31 + 1" using h(1) Suc by (simp add: header_def)
    moreover have "c mod 31 < 31" by simp
    ultimately have n: "nwords h = c div 31 + 1" unfolding nwords_nat [OF h(2)] by (intro div_nat_eqI) simp_all
    have "(b + 30) div 31 = c div 31 + 1" unfolding Suc by simp
    moreover have "c < 31 * (c div 31 + 1)" by (simp add: dividend_less_times_div)
    ultimately show ?thesis unfolding n Suc by simp
  qed
qed

lemma ival_take: "words31 ws \<Longrightarrow> n \<le> length ws \<Longrightarrow> ival ws < 2 ^ (31 * n) \<Longrightarrow> ival (take n ws) = ival ws"
proof -
  assume a: "words31 ws" "n \<le> length ws" "ival ws < 2 ^ (31 * n)"
  have "ival ws = ival (take n ws) + 2 ^ (31 * n) * ival (drop n ws)"
    using ival_append [of "take n ws" "drop n ws"] a(2) by (simp add: min_absorb2)
  then show ?thesis using a(3) by (cases "ival (drop n ws)") auto
qed

lemma words31_take: "words31 ws \<Longrightarrow> words31 (take n ws)"
  by (auto simp: words31_def dest: in_set_takeD)

lemma nbits_le: "v < 2 ^ k \<Longrightarrow> nbits v \<le> k"
proof (cases "v = 0")
  case False
  assume "v < 2 ^ k"
  then have "2 ^ nbits v < (2 :: nat) ^ Suc k" using bits_bounds(2) [OF False] by simp
  then have "nbits v < Suc k" by (rule power_less_imp_less_exp [rotated]) simp
  then show ?thesis by simp
qed (simp add: nbits.simps)

lemma header_less: "b < 31 * 2 ^ 25 \<Longrightarrow> header b < 2 ^ 31"
proof -
  assume "b < 31 * 2 ^ 25"
  then have "b - 1 < 2 ^ 25 * 31" by linarith
  then have "(b - 1) div 31 < 2 ^ 25" by (rule less_mult_imp_div_less)
  moreover have "(b - 1) mod 31 < 31" by simp
  moreover have "32 * x + y + 1 < 2 ^ 31" if "x < 2 ^ 25" "y < 31" for x y :: nat using that by simp
  ultimately have "32 * ((b - 1) div 31) + (b - 1) mod 31 + 1 < 2 ^ 31" by blast
  then show ?thesis unfolding header_def by simp
qed

theorem decode_value:
  assumes "8 * length src < 31 * 2 ^ 25" "(8 * length src + 30) div 31 < length x"
  shows "arr (br_i31_decode x src ! 0) (br_i31_decode x src)" "length (br_i31_decode x src) = length x"
    "val (br_i31_decode x src) = os2ip src" "unat (br_i31_decode x src ! 0) = header (nbits (os2ip src))"
proof -
  define ws where "ws = i31_decode_loop (rev src) 0 0"
  note w = i31_decode_words [of src, folded ws_def]
  define h where "h = br_i31_bit_length ws (length ws)"
  let ?x = "br_i31_decode x src" and ?v = "os2ip src"
  have lw: "length ws < 2 ^ 26" unfolding w(2) using assms(1) by (intro less_mult_imp_div_less) simp
  then have hh: "unat h = header (nbits ?v)" unfolding h_def using br_i31_bit_length_value [of "length ws" ws] w(1,3) by simp
  have "?v < 2 ^ (8 * length src)" using os2ip_less [of src] by (simp add: power_mult)
  then have nb: "nbits ?v \<le> 8 * length src" by (rule nbits_le)
  then have "header (nbits ?v) < 2 ^ 32 - 64" using header_less [of "nbits ?v"] assms(1) by simp
  then have hb: "unat h < 2 ^ 32 - 64" unfolding hh .
  have x: "?x = (set_words ws x)[0 := h]" unfolding br_i31_decode_def Let_def ws_def [symmetric] h_def ..
  have n: "nwords h \<le> length ws" unfolding w(2) using header_words [OF hh hb] nb by (simp add: div_le_mono)
  have l: "length (set_words ws x) = length x" using assms(2) w(2) by (intro length_set_words) simp
  then show "length ?x = length x" unfolding x by simp
  have wn: "words (nwords h) (set_words ws x) = take (nwords h) ws" using n by (simp add: words_def set_words_def)
  have nl: "nwords h < length (set_words ws x)" using n l assms(2) w(2) by simp
  note s = set_header [OF refl nl _ hb, unfolded wn, OF words31_take [OF w(1)]]
  have h0: "?x ! 0 = h" unfolding x by (simp add: set_words_def)
  show "arr (?x ! 0) ?x" "unat (?x ! 0) = header (nbits ?v)" unfolding h0 using s(1) hh x by simp_all
  have "(2 :: nat) ^ nbits ?v \<le> 2 ^ (31 * nwords h)" using header_words [OF hh hb] by (intro power_increasing) simp_all
  then have "?v < 2 ^ (31 * nwords h)" by (rule less_le_trans [OF bits_bounds(1)])
  then show "val ?x = ?v" unfolding x using s(2) ival_take [OF w(1) n] w(3) by simp
qed

lemma decode_exact:
  assumes "8 * length src < 31 * 2 ^ 25" "(8 * length src + 30) div 31 < length x"
  shows "os2ip src \<noteq> 0 \<Longrightarrow> exact (br_i31_decode x src)"
    "os2ip src \<noteq> 0 \<Longrightarrow> unat (br_i31_decode x src ! 0) mod 32 \<noteq> 0"
    "nwords (br_i31_decode x src ! 0) = (nbits (os2ip src) + 30) div 31"
proof -
  note d = decode_value [OF assms]
  have b: "hbits (br_i31_decode x src ! 0) = nbits (os2ip src)" by (rule hbits_header [OF d(4)])
  show "exact (br_i31_decode x src)" if "os2ip src \<noteq> 0" unfolding exact_def b d(3) using d(1) bits_bounds [of "os2ip src"] that by simp
  show "nwords (br_i31_decode x src ! 0) = (nbits (os2ip src) + 30) div 31" using header_words [OF d(4)] d(1) by (simp add: arr_def)
  show "unat (br_i31_decode x src ! 0) mod 32 \<noteq> 0" if "os2ip src \<noteq> 0"
  proof -
    have "nbits (os2ip src) \<noteq> 0" using bits_bounds(1) [of "os2ip src"] that by (cases "nbits (os2ip src)") simp_all
    then obtain c where c: "nbits (os2ip src) = Suc c" by (cases "nbits (os2ip src)") auto
    have "unat (br_i31_decode x src ! 0) = 32 * (c div 31) + (c mod 31 + 1)" unfolding d(4) c by (simp add: header_def)
    moreover have "c mod 31 + 1 < 32" by simp
    ultimately have "unat (br_i31_decode x src ! 0) mod 32 = c mod 31 + 1" by simp
    then show ?thesis by simp
  qed
qed

section \<open>Decoding below a modulus\<close>

text \<open>The complete words of a string of bytes, and both passes as loops over them.\<close>

fun full_words :: "byte list \<Rightarrow> u32 \<Rightarrow> nat \<Rightarrow> u32 list" where
  "full_words [] acc l = []"
| "full_words (b # bs) acc l =
     (if 31 \<le> l + 8 then ((acc OR push_bit l (ucast b)) AND 0x7FFFFFFF) # full_words bs (drop_bit (8 - (l + 8 - 31)) (ucast b)) (l + 8 - 31)
      else full_words bs (acc OR push_bit l (ucast b)) (l + 8))"

fun cmp_words :: "u32 list \<Rightarrow> u32 list \<Rightarrow> u32 \<Rightarrow> u32" where
  "cmp_words [] ms r = r"
| "cmp_words (w # ws) (m # ms) r = cmp_words ws ms (MUX (EQ (CMP w m) 0) r (CMP w m))"
| "cmp_words (w # ws) [] r = cmp_words ws [] (MUX (EQ w 0) r 1)"

lemma decmod_pass1_words: "decmod_pass1 bs acc l ms r = cmp_words (full_words bs acc l) ms r"
  by (induction bs acc l ms r rule: decmod_pass1.induct) (auto simp: Let_def split: list.splits)

lemma decmod_pass2_words: "decmod_pass2 bs acc l k r = map (\<lambda>w. r AND w) (take k (full_words bs acc l))"
  by (induction bs acc l k r rule: decmod_pass2.induct) (auto simp: Let_def take_Cons' split: nat.splits)

lemma full_words_value:
  assumes "unat acc < 2 ^ l" "l < 31"
  shows "words31 (full_words bs acc l) \<and> length (full_words bs acc l) = (8 * length bs + l) div 31 \<and>
    (\<exists>q. unat acc + 2 ^ l * os2ip (rev bs) = ival (full_words bs acc l) + 2 ^ (31 * length (full_words bs acc l)) * q)"
  using assms
proof (induction bs arbitrary: acc l)
  case (Cons b bs)
  define t where "t = unat acc + 2 ^ l * unat b"
  note st = byte_step [OF Cons.prems, of b, folded t_def]
  have e: "unat acc + 2 ^ l * os2ip (rev (b # bs)) = t + 2 ^ (l + 8) * os2ip (rev bs)"
    unfolding t_def os2ip_rev_Cons by (simp add: power_add algebra_simps)
  show ?case
  proof (cases "31 \<le> l + 8")
    case False
    then have s: "full_words (b # bs) acc l = full_words bs (acc OR push_bit l (ucast b)) (l + 8)" by simp
    have u: "unat (acc OR push_bit l (ucast b)) = t" "unat (acc OR push_bit l (ucast b)) < 2 ^ (l + 8)" "l + 8 < 31" using False st(1,2) by simp_all
    have len: "8 * length (b # bs) + l = 8 * length bs + (l + 8)" by simp
    show ?thesis unfolding s e len using Cons.IH [OF u(2,3)] unfolding u(1) .
  next
    case True
    define a where "a = (drop_bit (8 - (l + 8 - 31)) (ucast b) :: u32)"
    let ?w = "(acc OR push_bit l (ucast b)) AND 0x7FFFFFFF" and ?ws = "full_words bs a (l + 8 - 31)"
    have s: "full_words (b # bs) acc l = ?w # ?ws" using True unfolding a_def by simp
    have a: "unat a = t div 2 ^ 31" "unat a < 2 ^ (l + 8 - 31)" "l + 8 - 31 < 31" using st(4,5) True Cons.prems(2) unfolding a_def by simp_all
    from Cons.IH [OF a(2,3)] obtain q where IH: "words31 ?ws" "length ?ws = (8 * length bs + (l + 8 - 31)) div 31"
      "unat a + 2 ^ (l + 8 - 31) * os2ip (rev bs) = ival ?ws + 2 ^ (31 * length ?ws) * q" by blast
    have p: "(2 :: nat) ^ (l + 8) = 2 ^ 31 * 2 ^ (l + 8 - 31)" unfolding power_add [symmetric] using True by simp
    have w: "unat ?w = t mod 2 ^ 31" using st(3) True by simp
    have "unat acc + 2 ^ l * os2ip (rev (b # bs)) = t mod 2 ^ 31 + 2 ^ 31 * (unat a + 2 ^ (l + 8 - 31) * os2ip (rev bs))"
      unfolding e a(1) p distrib_left mult.assoc add.assoc [symmetric] mod_mult_div_eq ..
    also have "\<dots> = ival (?w # ?ws) + 2 ^ (31 * length (?w # ?ws)) * q" unfolding IH(3) by (simp add: w power_add algebra_simps)
    finally have v: "unat acc + 2 ^ l * os2ip (rev (b # bs)) = ival (?w # ?ws) + 2 ^ (31 * length (?w # ?ws)) * q" .
    have "8 * length (b # bs) + l = 31 + (8 * length bs + (l + 8 - 31))" using True by simp
    then have "(8 * length (b # bs) + l) div 31 = 1 + (8 * length bs + (l + 8 - 31)) div 31" by simp
    moreover have "unat ?w < 2 ^ 31" unfolding w by simp
    ultimately show ?thesis unfolding s using IH v by auto
  qed
qed (auto intro: exI [of _ "unat acc"])

text \<open>The result of a comparison as the code keeps it: 1, 0 or all ones.\<close>

definition sign_word :: "int \<Rightarrow> u32" where "sign_word c = (if c < 0 then - 1 else if c = 0 then 0 else 1)"

lemma CMP_sign: "CMP x y = sign_word (int (unat x) - int (unat y))"
  unfolding CMP_def GT_iff by (cases x y rule: linorder_cases) (auto simp: sign_word_def word_less_def)

lemma sign_word_0 [simp]: "sign_word c = 0 \<longleftrightarrow> c = 0" "EQ (sign_word c) 0 = of_bool (c = 0)"
  by (auto simp: sign_word_def)

lemma sign_word_eqI: "sgn c = sgn d \<Longrightarrow> sign_word c = sign_word d"
  by (auto simp: sign_word_def sgn_if split: if_splits)

lemma sgn_words:
  fixes w m x y :: nat
  assumes "w < b" "m < b"
  shows "sgn (if x = y then if w = m then c else int w - int m else int x - int y)
    = sgn (if w + b * x = m + b * y then c else int (w + b * x) - int (m + b * y))"
proof (cases x y rule: linorder_cases)
  case less
  then have "b * (x + 1) \<le> b * y" by (intro mult_le_mono2) simp
  then have "w + b * x < m + b * y" using assms by simp
  then have "int (w + b * x) - int (m + b * y) < 0" "w + b * x \<noteq> m + b * y" by linarith+
  then show ?thesis using less by (simp only: if_False less_imp_neq sgn_neg)
next
  case greater
  then have "b * (y + 1) \<le> b * x" by (intro mult_le_mono2) simp
  then have "m + b * y < w + b * x" using assms by simp
  then have "0 < int (w + b * x) - int (m + b * y)" "w + b * x \<noteq> m + b * y" by linarith+
  then show ?thesis using greater by (simp only: if_False less_imp_neq sgn_pos) (simp add: sgn_if)
qed auto

lemma cmp_words_value:
  assumes "words31 ws" "words31 ms" "length ms \<le> length ws"
  shows "cmp_words ws ms (sign_word c) = sign_word (if ival ws = ival ms then c else int (ival ws) - int (ival ms))"
  using assms
proof (induction ws arbitrary: ms c)
  case (Cons w ws)
  let ?c = "\<lambda>m :: u32. if unat w = unat m then c else int (unat w) - int (unat m)"
  have step: "cmp_words ws ms' (sign_word (?c m)) = sign_word (if ival (w # ws) = ival (m # ms') then c else int (ival (w # ws)) - int (ival (m # ms')))"
    if "words31 ms'" "length ms' \<le> length ws" "unat m < 2 ^ 31" for m ms'
  proof -
    have "cmp_words ws ms' (sign_word (?c m)) = sign_word (if ival ws = ival ms' then ?c m else int (ival ws) - int (ival ms'))"
      using Cons.IH Cons.prems(1) that(1,2) by simp
    also have "\<dots> = sign_word (if ival (w # ws) = ival (m # ms') then c else int (ival (w # ws)) - int (ival (m # ms')))"
      unfolding ival.simps by (rule sign_word_eqI, rule sgn_words) (use Cons.prems(1) that(3) in simp_all)
    finally show ?thesis .
  qed
  show ?case
  proof (cases ms)
    case (Cons m ms')
    have "MUX (EQ (CMP w m) 0) (sign_word c) (CMP w m) = sign_word (?c m)"
      unfolding CMP_sign by (cases "w = m") (auto simp: word_unat_eq_iff [symmetric] word_uint_eq_iff [symmetric])
    then show ?thesis using step [of ms' m] Cons.prems unfolding Cons by simp
  next
    case Nil
    have mux: "MUX (EQ w 0) (sign_word c) 1 = sign_word (?c 0)" by (cases "w = 0") (auto simp: sign_word_def unat_eq_zero word_uint_eq_iff)
    have z: "ival [0] = ival []" by simp
    have "cmp_words ws [] (sign_word (?c 0)) = sign_word (if ival (w # ws) = ival [] then c else int (ival (w # ws)) - int (ival []))"
      by (rule step [of "[]" 0, unfolded z]) simp_all
    then show ?thesis unfolding Nil cmp_words.simps by (subst mux)
  qed
qed simp

lemma decmod_flag_sign: "decmod_flag (sign_word c) = (if c < 0 then - 1 else 0)" "decmod_flag 0 = 0" "decmod_flag (- 1) = - 1"
proof -
  have o: "(- 1 :: u32) = 0xFFFFFFFF" by simp
  have "drop_bit 1 (0xFFFFFFFF :: u32) OR push_bit 1 (drop_bit 1 0xFFFFFFFF) = 0xFFFFFFFF" by simp
  then show m: "decmod_flag (- 1) = - 1" unfolding o decmod_flag_def Let_def .
  show z: "decmod_flag 0 = 0" by (simp add: decmod_flag_def)
  have "decmod_flag 1 = 0" by (simp add: decmod_flag_def)
  then show "decmod_flag (sign_word c) = (if c < 0 then - 1 else 0)" using m z by (simp add: sign_word_def)
qed

theorem decode_mod_value:
  assumes "arr (m ! 0) m" "nwords (m ! 0) < length x"
  shows "\<exists>y. br_i31_decode_mod x src m = (y, of_bool (os2ip src < val m)) \<and> arr (m ! 0) y \<and> length y = length x \<and>
    val y = (if os2ip src < val m then os2ip src else 0)"
proof -
  define n where "n = nwords (m ! 0)"
  define tlen where "tlen = max (4 * n) (length src) + 4"
  define bs where "bs = rev src @ replicate (tlen - length src) 0"
  define ws where "ws = full_words bs 0 0"
  let ?V = "os2ip src" and ?M = "val m"
  have "os2ip (replicate k 0 @ src) = ?V" for k by (induction k) simp_all
  then have rb: "os2ip (rev bs) = ?V" "length bs = tlen" unfolding bs_def by (simp_all add: tlen_def)
  obtain q where w: "words31 ws" "length ws = (8 * tlen) div 31" "?V = ival ws + 2 ^ (31 * length ws) * q"
    using full_words_value [of 0 0 bs] rb unfolding ws_def by auto
  have "8 * tlen < 31 * length ws + 31" unfolding w(2) by (simp add: dividend_less_times_div)
  moreover have "4 * n + 4 \<le> tlen" "length src + 4 \<le> tlen" unfolding tlen_def by simp_all
  ultimately have lw: "8 * length src < 31 * length ws" "n \<le> length ws" by linarith+
  have "?V < 2 ^ (8 * length src)" using os2ip_less [of src] by (simp add: power_mult)
  also have "\<dots> \<le> 2 ^ (31 * length ws)" using lw(1) by (intro power_increasing) simp_all
  finally have V: "?V = ival ws" "?V < 2 ^ (31 * length ws)" using w(3) by (cases q; simp)+
  note aw = arr_words [OF assms(1), folded n_def]
  let ?b = "?V < ?M" and ?c = "if ?V = ?M then 0 else int ?V - int ?M"
  have "cmp_words ws (words n m) (sign_word 0) = sign_word ?c"
    using cmp_words_value [OF w(1) aw(2), of 0] lw(2) aw(1,3) V(1) by simp
  moreover have "sign_word 0 = 0" by simp
  ultimately have "decmod_pass1 bs 0 0 (words n m) 0 = sign_word ?c" unfolding decmod_pass1_words ws_def by simp
  then have r: "decmod_flag (decmod_pass1 bs 0 0 (words n m) 0) = (if ?b then - 1 else 0)" by (auto simp: decmod_flag_sign)
  define vs where "vs = map (\<lambda>w. (if ?b then - 1 else 0) AND w) (take n ws)"
  have vs: "length vs = n" "words31 vs" "ival vs = (if ?b then ?V else 0)"
  proof -
    show "length vs = n" using lw(2) by (simp add: vs_def)
    have "vs = (if ?b then take n ws else replicate n 0)"
      using lw(2) by (auto simp: vs_def map_idI map_replicate_const)
    moreover have "ival (take n ws) = ?V" if ?b using ival_take [OF w(1) lw(2)] V(1) that val_less [OF assms(1)] by (simp add: n_def)
    ultimately show "words31 vs" "ival vs = (if ?b then ?V else 0)" using words31_take [OF w(1)] by simp_all
  qed
  define y where "y = (set_words vs x)[0 := m ! 0]"
  have l: "length (set_words vs x) = length x" using assms(2) vs(1) by (intro length_set_words) (simp add: n_def)
  have "words n (set_words vs x) = vs" using vs(1) by (metis words_set_words(1))
  then have y: "arr (m ! 0) y" "val y = (if ?b then ?V else 0)" "length y = length x"
    using set_header [OF n_def, of "set_words vs x"] l assms vs unfolding y_def n_def by (simp_all add: arr_def)
  have "br_i31_decode_mod x src m = (y, of_bool ?b)"
    unfolding br_i31_decode_mod_def Let_def n_def [symmetric] tlen_def [symmetric] bs_def [symmetric] r decmod_pass2_words ws_def [symmetric]
      vs_def [symmetric] y_def [symmetric] by (simp add: decmod_flag_sign)
  then show ?thesis using y by blast
qed

section \<open>Encoding\<close>

lemma low_byte: "unat (ucast (drop_bit k z :: u32) :: byte) = unat z div 2 ^ k mod 256"
  by (simp add: unsigned_ucast_eq take_bit_eq_mod unat_shr)

lemma os2ip_low_bytes:
  fixes z :: u32
  shows "os2ip (br_enc32be z) = unat z"
    "len < 4 \<Longrightarrow> os2ip (rev (take len [ucast z, ucast (drop_bit 8 z), ucast (drop_bit 16 z)])) = unat z mod 256 ^ len"
proof -
  let ?n = "unat z"
  have m: "?n mod (256 * q) = 256 * (?n div 256 mod q) + ?n mod 256" for q by (rule mod_mult2_eq)
  have d: "?n div 256 div 256 = ?n div 65536" "?n div 65536 div 256 = ?n div 16777216" by (simp_all add: div_mult2_eq [symmetric])
  have b0: "unat (ucast z :: byte) = ?n mod 256" using low_byte [of 0 z] by simp
  have two: "?n mod 65536 = 256 * (?n div 256 mod 256) + ?n mod 256" using m [of 256] by simp
  have three: "?n mod 16777216 = 65536 * (?n div 65536 mod 256) + ?n mod 65536" using mod_mult2_eq [of ?n 65536 256] by simp
  have four: "?n = 16777216 * (?n div 16777216 mod 256) + ?n mod 16777216"
    using mod_mult2_eq [of ?n 16777216 256] unat_u32 [of z] by simp
  show "os2ip (br_enc32be z) = ?n" unfolding br_enc32be_def os2ip.simps low_byte b0 using two three four by simp
  assume "len < 4"
  then have "len = 0 \<or> len = 1 \<or> len = 2 \<or> len = 3" by auto
  then show "os2ip (rev (take len [ucast z, ucast (drop_bit 8 z), ucast (drop_bit 16 z)])) = ?n mod 256 ^ len"
    by (elim disjE) (simp_all add: low_byte b0 two three)
qed

lemma i31_encode_loop_value:
  assumes "words31 ws" "unat acc < 2 ^ l" "l \<le> 31"
  shows "length (i31_encode_loop ws len acc l) = len \<and>
    os2ip (rev (i31_encode_loop ws len acc l)) = (unat acc + 2 ^ l * ival ws) mod 256 ^ len"
  using assms
proof (induction ws len acc l rule: i31_encode_loop.induct)
  case (1 ws len acc l)
  define w ws' where "w = (case ws of [] \<Rightarrow> 0 | w # _ \<Rightarrow> w)" and "ws' = tl ws"
  have w: "ival ws = unat w + 2 ^ 31 * ival ws'" "unat w < 2 ^ 31" "words31 ws'"
    using "1.prems"(1) by (cases ws; simp add: w_def ws'_def)+
  show ?case
  proof (cases "len = 0")
    case True
    then show ?thesis by (subst i31_encode_loop.simps, subst i31_encode_loop.simps) simp
  next
    case len: False
    show ?thesis
    proof (cases "l = 0")
      case True
      have r: "i31_encode_loop ws len acc l = i31_encode_loop ws' len w 31"
        using len True by (subst i31_encode_loop.simps) (simp add: w_def ws'_def Let_def)
      have "unat acc = 0" using "1.prems"(2) True by simp
      then show ?thesis unfolding r w(1) using "1.IH"(1) [OF len w_def ws'_def True w(3,2)] True by simp
    next
      case l: False
      define z acc' where "z = acc OR push_bit l w" and "acc' = drop_bit (31 - (l - 1)) w"
      define t T where "t = unat acc + 2 ^ l * unat w" and "T = unat acc + 2 ^ l * ival ws"
      have p: "(2 :: nat) ^ l * 2 ^ (32 - l) = 2 ^ 32" "2 ^ (l - 1) * 2 ^ (32 - l) = (2 ^ 31 :: nat)" "(2 :: nat) ^ l * 2 ^ 31 = 2 ^ 32 * 2 ^ (l - 1)"
        unfolding power_add [symmetric] using l "1.prems"(3) by simp_all
      have z: "unat z = t mod 2 ^ 32" unfolding z_def t_def by (rule unat_or_shl [OF "1.prems"(2)])
      have "t div 2 ^ l = unat w" unfolding t_def using "1.prems"(2) by simp
      then have "t div 2 ^ 32 = unat w div 2 ^ (32 - l)" unfolding p(1) [symmetric] div_mult2_eq by simp
      moreover have "31 - (l - 1) = 32 - l" using l by simp
      ultimately have a: "unat acc' = t div 2 ^ 32" unfolding acc'_def unat_shr by simp
      have al: "unat acc' < 2 ^ (l - 1)" unfolding acc'_def unat_shr \<open>31 - (l - 1) = 32 - l\<close>
        by (rule less_mult_imp_div_less) (unfold p(2), rule w(2))
      define U where "U = unat acc' + 2 ^ (l - 1) * ival ws'"
      have "T = t + 2 ^ l * 2 ^ 31 * ival ws'" unfolding T_def t_def w(1) by (simp add: algebra_simps)
      also have "\<dots> = (t mod 2 ^ 32 + 2 ^ 32 * (t div 2 ^ 32)) + 2 ^ 32 * 2 ^ (l - 1) * ival ws'" unfolding p(3) by simp
      also have "\<dots> = unat z + 2 ^ 32 * U" unfolding U_def z a by (simp only: distrib_left mult.assoc add.assoc)
      finally have T: "T = unat z + 2 ^ 32 * U" .
      have r: "i31_encode_loop ws len acc l = (if 4 \<le> len then rev (br_enc32be z) @ i31_encode_loop ws' (len - 4) acc' (l - 1)
          else take len [ucast z, ucast (drop_bit 8 z), ucast (drop_bit 16 z)])"
        using len l by (subst i31_encode_loop.simps) (simp only: if_False Let_def w_def [symmetric] ws'_def [symmetric] z_def [symmetric] acc'_def [symmetric])
      show ?thesis
      proof (cases "4 \<le> len")
        case True
        have "l - 1 \<le> 31" using "1.prems"(3) by simp
        note IH = "1.IH"(2) [OF len w_def ws'_def l z_def refl acc'_def True w(3) al this, folded U_def]
        have "(256 :: nat) ^ len = 2 ^ 32 * 256 ^ (len - 4)" using True power_add [of "256 :: nat" 4 "len - 4"] by simp
        then have "T mod 256 ^ len = 2 ^ 32 * (T div 2 ^ 32 mod 256 ^ (len - 4)) + T mod 2 ^ 32" by (simp only: mod_mult2_eq)
        moreover have "T div 2 ^ 32 = U" "T mod 2 ^ 32 = unat z" using unat_u32 [of z] unfolding T by simp_all
        ultimately show ?thesis using IH True unfolding r T_def [symmetric]
          by (simp add: os2ip_append os2ip_low_bytes(1))
      next
        case False
        then have "(256 :: nat) ^ len * 256 ^ (4 - len) = 2 ^ 32" unfolding power_add [symmetric] by simp
        then have "256 ^ len dvd (2 ^ 32 :: nat)" by (metis dvd_triv_left)
        then have "T mod 256 ^ len = unat z mod 256 ^ len" unfolding T by (metis dvd_def mod_mult_self2 mult.assoc)
        then show ?thesis using False os2ip_low_bytes(2) [of len z] unfolding r T_def [symmetric] by simp
      qed
    qed
  qed
qed

theorem encode_value:
  assumes "arr h x"
  shows "length (br_i31_encode len x) = len" "os2ip (br_i31_encode len x) = val x mod 256 ^ len"
proof -
  have z: "os2ip (replicate len 0) = 0" by (induction len) simp_all
  have h: "x ! 0 = h" using assms by (simp add: arr_def)
  have "length (br_i31_encode len x) = len \<and> os2ip (br_i31_encode len x) = val x mod 256 ^ len"
  proof (cases "nwords h = 0")
    case True
    then have "val x = 0" using val_less [OF assms] by simp
    then show ?thesis using True h z by (simp add: br_i31_encode_def)
  next
    case False
    then show ?thesis using i31_encode_loop_value [of "words (nwords h) x" 0 0 len] arr_words [OF assms] h by (simp add: br_i31_encode_def)
  qed
  then show "length (br_i31_encode len x) = len" "os2ip (br_i31_encode len x) = val x mod 256 ^ len" by simp_all
qed

lemma os2ip_inj: "length xs = length ys \<Longrightarrow> os2ip xs = os2ip ys \<Longrightarrow> xs = ys"
proof (induction xs ys rule: list_induct2)
  case (Cons x xs y ys)
  note l = os2ip_less [of xs] os2ip_less [of ys, folded Cons.hyps]
  have "unat x * 256 ^ length xs + os2ip xs = unat y * 256 ^ length xs + os2ip ys" using Cons.prems Cons.hyps by simp
  then have "(unat x * 256 ^ length xs + os2ip xs) div 256 ^ length xs = (unat y * 256 ^ length xs + os2ip ys) div 256 ^ length xs"
    "(unat x * 256 ^ length xs + os2ip xs) mod 256 ^ length xs = (unat y * 256 ^ length xs + os2ip ys) mod 256 ^ length xs" by simp_all
  then have "unat x = unat y" "os2ip xs = os2ip ys" using l by simp_all
  then show ?case using Cons.IH by (simp add: word_unat_eq_iff)
qed simp

text \<open>
  C16. Decoding a byte string gives the number it stands for, with the true bit length announced, and encoding gives the
  string back. Decoding below a modulus returns 1 exactly when the number is below it, and then stores the number; otherwise it stores
  zero.
\<close>

theorem i31_codec_round_trip:
  assumes "8 * length src < 31 * 2 ^ 25" "(8 * length src + 30) div 31 < length x" "arr (m ! 0) m" "nwords (m ! 0) < length y"
  shows "br_i31_encode (length src) (br_i31_decode x src) = src \<and> val (br_i31_decode x src) = os2ip src \<and>
    hbits (br_i31_decode x src ! 0) = nbits (os2ip src) \<and>
    (\<exists>z. br_i31_decode_mod y src m = (z, of_bool (os2ip src < val m)) \<and> arr (m ! 0) z \<and>
      val z = (if os2ip src < val m then os2ip src else 0) \<and>
      (if os2ip src < val m then br_i31_encode (length src) z = src else br_i31_encode (length src) z = replicate (length src) 0))"
proof -
  note d = decode_value [OF assms(1,2)]
  have enc: "br_i31_encode (length src) v = src" if "arr h v" "val v = os2ip src" for h v
    by (rule os2ip_inj) (use encode_value [OF that(1)] that(2) os2ip_less [of src] in simp_all)
  have "os2ip (replicate k 0) = 0" for k by (induction k) simp_all
  then have z: "br_i31_encode (length src) v = replicate (length src) 0" if "arr h v" "val v = 0" for h v
    by (intro os2ip_inj) (use encode_value [OF that(1)] that(2) in simp_all)
  obtain w where w: "br_i31_decode_mod y src m = (w, of_bool (os2ip src < val m))" "arr (m ! 0) w"
      "val w = (if os2ip src < val m then os2ip src else 0)"
    using decode_mod_value [OF assms(3,4), of src] by blast
  show ?thesis using enc [OF d(1,3)] d(3) hbits_header [OF d(4)] w enc [OF w(2)] z [OF w(2)] by auto
qed

theorem i31_codec_round_trip_witness:
  "br_i31_encode 2 (br_i31_decode [0, 0] [1, 2]) = [1, 2] \<and> val (br_i31_decode [0, 0] [1, 2]) = 258 \<and>
    (\<exists>z. br_i31_decode_mod [0, 0] [1, 2] [9, 300] = (z, 1) \<and> val z = 258)"
proof -
  have v: "nwords 9 = 1" "val [9, 300] = 300" "arr 9 [9, 300]" "os2ip [1, 2] = 258"
    by (simp_all add: nwords_def val_def words_def arr_def)
  have two: "length [1 :: byte, 2] = 2" by simp
  show ?thesis using i31_codec_round_trip [of "[1, 2]" "[0, 0]" "[9, 300]" "[0, 0]", unfolded two] v by auto
qed

end
