(* ===== verification/Gfns_Conn.thy ===== *)
theory Gfns_Conn
  imports Os
begin

text \<open>
  \<open>gfns_conn.c\<close>: one connection type over plain TCP or TLS. The resolver, the socket calls and the
  four \<open>tlsv3_client_*\<close> functions it calls are arguments (the latter are declared and defined
  nowhere in the repository); their results are the record \<open>net\<close> over a world \<open>'w\<close>, where \<open>None\<close>
  is a negative result. The TLS context is a pointer, so the read, write and free functions take an
  option.
\<close>

section \<open>Types\<close>

record ('t, 'w) net =
  net_getaddrinfo :: "string \<Rightarrow> string \<Rightarrow> 'w \<Rightarrow> 'w \<times> u32 option"
  net_socket :: "u32 \<Rightarrow> 'w \<Rightarrow> 'w \<times> int option"
  net_connect :: "int \<Rightarrow> u32 \<Rightarrow> 'w \<Rightarrow> 'w \<times> bool"
  net_close :: "int \<Rightarrow> 'w \<Rightarrow> 'w"
  net_recv :: "int \<Rightarrow> nat \<Rightarrow> 'w \<Rightarrow> 'w \<times> byte list option"
  net_send :: "int \<Rightarrow> byte list \<Rightarrow> 'w \<Rightarrow> 'w \<times> nat option"
  net_calloc :: "'w \<Rightarrow> 'w \<times> bool"
  tlsv3_client_connect :: "int \<Rightarrow> string \<Rightarrow> 'w \<Rightarrow> 'w \<times> 't option"
  tlsv3_client_read :: "'t option \<Rightarrow> nat \<Rightarrow> 'w \<Rightarrow> 'w \<times> byte list option"
  tlsv3_client_write :: "'t option \<Rightarrow> byte list \<Rightarrow> 'w \<Rightarrow> 'w \<times> nat option"
  tlsv3_client_free :: "'t option \<Rightarrow> 'w \<Rightarrow> 'w"

record 't gfns_conn =
  conn_sock :: int
  is_tls :: bool
  tls_ctx :: "'t option"

section \<open>Operations\<close>

text \<open>\<open>snprintf(portstr, 16, "%u", port)\<close>.\<close>

fun decimal :: "nat \<Rightarrow> string" where
  "decimal n = (if n < 10 then [char_of (48 + n)] else decimal (n div 10) @ [char_of (48 + n mod 10)])"

declare decimal.simps [simp del]

definition tcp_connect_raw :: "('t, 'w) net \<Rightarrow> string \<Rightarrow> u16 \<Rightarrow> 'w \<Rightarrow> 'w \<times> int" where
  "tcp_connect_raw net host port w =
     (let portstr = take 15 (decimal (unat port));
          (w, res) = net_getaddrinfo net host portstr w
      in case res of
           None \<Rightarrow> (w, -1)
         | Some addr \<Rightarrow>
             (let (w, s) = net_socket net addr w
              in case s of
                   None \<Rightarrow> (w, -1)
                 | Some s \<Rightarrow>
                     (let (w, ok) = net_connect net s addr w
                      in if \<not> ok then (net_close net s w, -1) else (w, s))))"

definition gfns_tcp_connect :: "('t, 'w) net \<Rightarrow> string \<Rightarrow> u16 \<Rightarrow> 'w \<Rightarrow> 'w \<times> 't gfns_conn option" where
  "gfns_tcp_connect net host port w =
     (let (w, s) = tcp_connect_raw net host port w
      in if s < 0 then (w, None)
         else let (w, ok) = net_calloc net w
              in if \<not> ok then (net_close net s w, None)
                 else (w, Some \<lparr>conn_sock = s, is_tls = False, tls_ctx = None\<rparr>))"

definition gfns_tls_connect :: "('t, 'w) net \<Rightarrow> string \<Rightarrow> u16 \<Rightarrow> 'w \<Rightarrow> 'w \<times> 't gfns_conn option" where
  "gfns_tls_connect net host port w =
     (let (w, s) = tcp_connect_raw net host port w
      in if s < 0 then (w, None)
         else let (w, ctx) = tlsv3_client_connect net s host w
              in case ctx of
                   None \<Rightarrow> (net_close net s w, None)
                 | Some ctx \<Rightarrow>
                     (let (w, ok) = net_calloc net w
                      in if \<not> ok then (net_close net s (tlsv3_client_free net (Some ctx) w), None)
                         else (w, Some \<lparr>conn_sock = s, is_tls = True, tls_ctx = Some ctx\<rparr>)))"

text \<open>The connection argument may be \<open>NULL\<close>.\<close>

definition gfns_conn_read :: "('t, 'w) net \<Rightarrow> 't gfns_conn option \<Rightarrow> nat \<Rightarrow> 'w \<Rightarrow> 'w \<times> byte list option" where
  "gfns_conn_read net c len w =
     (case c of
        None \<Rightarrow> (w, None)
      | Some c \<Rightarrow>
          if is_tls c then tlsv3_client_read net (tls_ctx c) len w else net_recv net (conn_sock c) len w)"

definition gfns_conn_write :: "('t, 'w) net \<Rightarrow> 't gfns_conn option \<Rightarrow> byte list \<Rightarrow> 'w \<Rightarrow> 'w \<times> nat option" where
  "gfns_conn_write net c bs w =
     (case c of
        None \<Rightarrow> (w, None)
      | Some c \<Rightarrow>
          if is_tls c then tlsv3_client_write net (tls_ctx c) bs w else net_send net (conn_sock c) bs w)"

definition gfns_conn_close :: "('t, 'w) net \<Rightarrow> 't gfns_conn option \<Rightarrow> 'w \<Rightarrow> 'w \<times> int" where
  "gfns_conn_close net c w =
     (case c of
        None \<Rightarrow> (w, -1)
      | Some c \<Rightarrow>
          (let w = (if is_tls c then tlsv3_client_free net (tls_ctx c) w else w)
           in (net_close net (conn_sock c) w, 0)))"

definition gfns_conn_get_fd :: "'t gfns_conn option \<Rightarrow> int" where
  "gfns_conn_get_fd c = (case c of Some c \<Rightarrow> conn_sock c | None \<Rightarrow> -1)"

section \<open>Sockets are not lost\<close>

text \<open>Open descriptors of a world, as the socket calls change them.\<close>

definition net_fds_ok :: "('t, 'w) net \<Rightarrow> ('w \<Rightarrow> int set) \<Rightarrow> bool" where
  "net_fds_ok net fds \<longleftrightarrow>
     (\<forall>h p w. fds (fst (net_getaddrinfo net h p w)) = fds w)
     \<and> (\<forall>a w w' r. net_socket net a w = (w', r) \<longrightarrow> (case r of None \<Rightarrow> fds w' = fds w
          | Some s \<Rightarrow> s \<ge> 0 \<and> s \<notin> fds w \<and> fds w' = insert s (fds w)))
     \<and> (\<forall>s a w. fds (fst (net_connect net s a w)) = fds w) \<and> (\<forall>s w. fds (net_close net s w) = fds w - {s})
     \<and> (\<forall>w. fds (fst (net_calloc net w)) = fds w) \<and> (\<forall>s h w. fds (fst (tlsv3_client_connect net s h w)) = fds w)
     \<and> (\<forall>t w. fds (tlsv3_client_free net t w) = fds w)"

text \<open>A connect operation has opened exactly the socket of the connection it returns.\<close>

definition opens_exactly :: "('w \<Rightarrow> int set) \<Rightarrow> 'w \<Rightarrow> 'w \<times> 't gfns_conn option \<Rightarrow> bool" where
  "opens_exactly fds w res \<longleftrightarrow> (case res of
      (w', None) \<Rightarrow> fds w' = fds w
    | (w', Some c) \<Rightarrow> conn_sock c \<notin> fds w \<and> fds w' = insert (conn_sock c) (fds w) \<and> (is_tls c \<longleftrightarrow> tls_ctx c \<noteq> None))"

lemma net_fds_okD:
  assumes "net_fds_ok net fds"
  shows "net_getaddrinfo net h p w = (w', a) \<Longrightarrow> fds w' = fds w"
    "net_socket net ad w = (w', None) \<Longrightarrow> fds w' = fds w"
    "net_socket net ad w = (w', Some s) \<Longrightarrow> s \<ge> 0 \<and> s \<notin> fds w \<and> fds w' = insert s (fds w)"
    "net_connect net s ad w = (w', ok) \<Longrightarrow> fds w' = fds w" "fds (net_close net s w) = fds w - {s}"
    "net_calloc net w = (w', ok) \<Longrightarrow> fds w' = fds w" "tlsv3_client_connect net s h w = (w', t) \<Longrightarrow> fds w' = fds w"
    "fds (tlsv3_client_free net ctx w) = fds w"
proof -
  note c = assms [unfolded net_fds_ok_def]
  note sk = c [THEN conjunct2, THEN conjunct1, rule_format, of ad w w']
  show "net_socket net ad w = (w', None) \<Longrightarrow> fds w' = fds w"
    "net_socket net ad w = (w', Some s) \<Longrightarrow> s \<ge> 0 \<and> s \<notin> fds w \<and> fds w' = insert s (fds w)"
    using sk [of None] sk [of "Some s"] by simp_all
  have "fds (fst (net_getaddrinfo net h p w)) = fds w" "fds (fst (net_connect net s ad w)) = fds w"
    "fds (fst (net_calloc net w)) = fds w" "fds (fst (tlsv3_client_connect net s h w)) = fds w"
    using c by simp_all
  then show "net_getaddrinfo net h p w = (w', a) \<Longrightarrow> fds w' = fds w" "net_connect net s ad w = (w', ok) \<Longrightarrow> fds w' = fds w"
    "net_calloc net w = (w', ok) \<Longrightarrow> fds w' = fds w" "tlsv3_client_connect net s h w = (w', t) \<Longrightarrow> fds w' = fds w"
    by simp_all
  show "fds (net_close net s w) = fds w - {s}" "fds (tlsv3_client_free net ctx w) = fds w"
    using c by simp_all
qed

lemma tcp_connect_raw_fds:
  assumes "net_fds_ok net fds" "tcp_connect_raw net host port w = (w', s)"
  shows "if s < 0 then fds w' = fds w else s \<notin> fds w \<and> fds w' = insert s (fds w)"
proof -
  note D = net_fds_okD [OF assms(1)]
  obtain w1 a where a: "net_getaddrinfo net host (take 15 (decimal (unat port))) w = (w1, a)" by fastforce
  note g = D(1) [OF a]
  show ?thesis
  proof (cases a)
    case None
    with assms(2) a g show ?thesis by (simp add: tcp_connect_raw_def)
  next
    case (Some ad)
    obtain w2 r where r: "net_socket net ad w1 = (w2, r)" by fastforce
    show ?thesis
    proof (cases r)
      case None
      with assms(2) a Some r g D(2) [of ad w1 w2] show ?thesis by (simp add: tcp_connect_raw_def)
    next
      case 2: (Some t)
      obtain w3 ok where c: "net_connect net t ad w2 = (w3, ok)" by fastforce
      have "t \<ge> 0" "t \<notin> fds w" "fds w2 = insert t (fds w)" "fds w3 = fds w2"
        using D(3) [of ad w1 w2 t] r 2 g D(4) [OF c] by auto
      with assms(2) a Some r 2 c D(5) [of t w3] show ?thesis by (cases ok) (auto simp: tcp_connect_raw_def)
    qed
  qed
qed

lemma tcp_connect_opens:
  assumes "net_fds_ok net fds"
  shows "opens_exactly fds w (gfns_tcp_connect net host port w)"
proof -
  obtain w1 s where s: "tcp_connect_raw net host port w = (w1, s)" by fastforce
  obtain w2 ok where m: "net_calloc net w1 = (w2, ok)" by fastforce
  show ?thesis
    using s tcp_connect_raw_fds [OF assms s] m net_fds_okD(6) [OF assms m] net_fds_okD(5) [OF assms, of s w2]
    by (auto simp: gfns_tcp_connect_def opens_exactly_def split: if_splits)
qed

text \<open>
  C27. Connecting loses no socket: \<open>gfns_tcp_connect\<close> and \<open>gfns_tls_connect\<close> either return a
  connection whose socket is the only descriptor they opened, or return \<open>NULL\<close> with every descriptor
  they opened closed again; closing the connection closes exactly that socket.
\<close>

theorem gfns_connect_no_leak:
  assumes "net_fds_ok net fds"
  shows "opens_exactly fds w (gfns_tcp_connect net host port w)
    \<and> opens_exactly fds w (gfns_tls_connect net host port w)
    \<and> fds (fst (gfns_conn_close net (Some c) w)) = fds w - {conn_sock c}"
proof -
  note D = net_fds_okD [OF assms]
  obtain w1 s where s: "tcp_connect_raw net host port w = (w1, s)" by fastforce
  note f = tcp_connect_raw_fds [OF assms s]
  obtain w3 t where t: "tlsv3_client_connect net s host w1 = (w3, t)" by fastforce
  obtain w4 ok' where m': "net_calloc net w3 = (w4, ok')" by fastforce
  have "opens_exactly fds w (gfns_tcp_connect net host port w)" by (rule tcp_connect_opens [OF assms])
  moreover have "opens_exactly fds w (gfns_tls_connect net host port w)"
    using s f t m' D(6) [OF m'] D(7) [OF t] D(5,8)
    by (auto simp: gfns_tls_connect_def opens_exactly_def split: if_splits option.splits)
  moreover have "fds (fst (gfns_conn_close net (Some c) w)) = fds w - {conn_sock c}"
    using D(5,8) by (simp add: gfns_conn_close_def split: option.splits)
  ultimately show ?thesis by blast
qed

text \<open>A network for the example: the world is the set of open sockets, TLS is refused.\<close>

definition toy_net :: "(unit, int set) net" where
  "toy_net = \<lparr>net_getaddrinfo = (\<lambda>_ _ w. (w, Some 1)), net_socket = (\<lambda>_ w. if 4 \<in> w then (w, None) else (insert 4 w, Some 4)),
     net_connect = (\<lambda>_ _ w. (w, True)), net_close = (\<lambda>s w. w - {s}), net_recv = (\<lambda>_ _ w. (w, Some [])),
     net_send = (\<lambda>_ bs w. (w, Some (length bs))), net_calloc = (\<lambda>w. (w, True)),
     tlsv3_client_connect = (\<lambda>_ _ w. (w, None)), tlsv3_client_read = (\<lambda>_ _ w. (w, None)),
     tlsv3_client_write = (\<lambda>_ _ w. (w, None)), tlsv3_client_free = (\<lambda>_ w. w)\<rparr>"

theorem gfns_connect_no_leak_witness:
  "opens_exactly id {0, 1, 2} (gfns_tls_connect toy_net ''localhost'' 443 {0, 1, 2})"
proof -
  have "net_fds_ok toy_net id" by (auto simp: net_fds_ok_def toy_net_def split: option.splits if_splits)
  from gfns_connect_no_leak [OF this] show ?thesis by blast
qed

end
