(* ===== verification/Gfns_Ws.thy ===== *)
theory Gfns_Ws
  imports Gfns_Conn
begin

text \<open>
  \<open>gfns_ws.c\<close>: the WebSocket client on top of \<open>gfns_conn\<close>: the opening request, the frame sender
  and receiver, closing, and the URL front end. A C string is a \<open>string\<close> without a NUL character.
  The reference for frames is \<open>ws_decode\<close>, the frame grammar of RFC 6455 section 5.2; the locale
  \<open>byte_channel\<close> states what the layer relies on of the connection below it.
\<close>

unbundle bit_operations_syntax

section \<open>Types\<close>

record 't gfns_ws =
  ws_conn :: "'t gfns_conn"
  is_client :: bool
  ws_closed :: bool

type_synonym gfns_ws_opcode_t = u32

definition GFNS_WS_OP_CONT :: gfns_ws_opcode_t where "GFNS_WS_OP_CONT = 0x0"
definition GFNS_WS_OP_TEXT :: gfns_ws_opcode_t where "GFNS_WS_OP_TEXT = 0x1"
definition GFNS_WS_OP_BINARY :: gfns_ws_opcode_t where "GFNS_WS_OP_BINARY = 0x2"
definition GFNS_WS_OP_CLOSE :: gfns_ws_opcode_t where "GFNS_WS_OP_CLOSE = 0x8"
definition GFNS_WS_OP_PING :: gfns_ws_opcode_t where "GFNS_WS_OP_PING = 0x9"
definition GFNS_WS_OP_PONG :: gfns_ws_opcode_t where "GFNS_WS_OP_PONG = 0xA"

text \<open>The \<open>int\<close> results of \<open>gfns_conn_read\<close> and \<open>gfns_conn_write\<close>: a count, converted, or -1.\<close>

definition rd_ret :: "byte list option \<Rightarrow> int" where
  "rd_ret r = (case r of None \<Rightarrow> -1 | Some bs \<Rightarrow> to_int (int (length bs)))"

definition wr_ret :: "nat option \<Rightarrow> int" where
  "wr_ret r = (case r of None \<Rightarrow> -1 | Some n \<Rightarrow> to_int (int n))"

definition stored :: "byte list option \<Rightarrow> byte list" where
  "stored r = (case r of None \<Rightarrow> [] | Some bs \<Rightarrow> bs)"

section \<open>The opening handshake\<close>

definition crlf :: string where
  "crlf = [CHR 0x0D, CHR 0x0A]"

text \<open>\<open>snprintf\<close> into 512 bytes keeps 511 characters. The argument of the last \<open>%s\<close> is a literal.\<close>

definition ws_request :: "string \<Rightarrow> string \<Rightarrow> string option \<Rightarrow> string" where
  "ws_request host path subprotocol =
     take 511 (''GET '' @ path @ '' HTTP/1.1'' @ crlf
       @ ''Host: '' @ host @ crlf
       @ ''Upgrade: websocket'' @ crlf
       @ ''Connection: Upgrade'' @ crlf
       @ ''Sec-WebSocket-Version: 13'' @ crlf
       @ ''Sec-WebSocket-Key: dGhlIHNhbXBsZSBub25jZQ=='' @ crlf
       @ (if subprotocol \<noteq> None then ''Sec-WebSocket-Protocol: %s'' @ crlf else '''')
       @ crlf)"

definition ws_send_handshake ::
    "('t, 'w) net \<Rightarrow> 't gfns_ws \<Rightarrow> string \<Rightarrow> string \<Rightarrow> string option \<Rightarrow> 'w \<Rightarrow> 'w \<times> int" where
  "ws_send_handshake net ws host path subprotocol w =
     (let (w, r) = gfns_conn_write net (Some (ws_conn ws)) (map of_char (ws_request host path subprotocol)) w
      in if wr_ret r < 0 then (w, -1)
         else let (w, r) = gfns_conn_read net (Some (ws_conn ws)) 512 w
              in if rd_ret r \<le> 0 then (w, -1) else (w, 0))"

definition gfns_ws_connect ::
    "('t, 'w) net \<Rightarrow> 't gfns_conn option \<Rightarrow> string option \<Rightarrow> string option \<Rightarrow> string option \<Rightarrow> 'w
       \<Rightarrow> 'w \<times> 't gfns_ws option" where
  "gfns_ws_connect net conn host path subprotocol w =
     (case (conn, host, path) of
        (Some conn, Some host, Some path) \<Rightarrow>
          (let (w, ok) = net_calloc net w
           in if \<not> ok then (w, None)
              else let ws = \<lparr>ws_conn = conn, is_client = True, ws_closed = False\<rparr>;
                       (w, r) = ws_send_handshake net ws host path subprotocol w
                   in if r < 0 then (w, None) else (w, Some ws))
      | _ \<Rightarrow> (w, None))"

section \<open>Frames\<close>

definition ws_header :: "gfns_ws_opcode_t \<Rightarrow> u64 \<Rightarrow> byte list" where
  "ws_header opcode len =
     [ucast (0x80 OR (opcode AND 0x0F))]
     @ (if len \<le> 125 then [0x80 OR ucast len]
        else if len \<le> 0xFFFF then [0x80 OR 126, ucast (drop_bit 8 len AND 0xFF), ucast (len AND 0xFF)]
        else (0x80 OR 127) # map (\<lambda>i. ucast (drop_bit (8 * i) len AND 0xFF)) [7, 6, 5, 4, 3, 2, 1, 0])
     @ [0x12, 0x34, 0x56, 0x78]"

fun ws_mask :: "nat \<Rightarrow> byte list \<Rightarrow> byte list" where
  "ws_mask i [] = []"
| "ws_mask i (b # bs) = (b XOR [0x12, 0x34, 0x56, 0x78] ! (i mod 4)) # ws_mask (Suc i) bs"

definition ws_send_frame ::
    "('t, 'w) net \<Rightarrow> 't gfns_ws option \<Rightarrow> gfns_ws_opcode_t \<Rightarrow> byte list \<Rightarrow> 'w \<Rightarrow> 'w \<times> int" where
  "ws_send_frame net ws opcode data w =
     (case ws of
        None \<Rightarrow> (w, -1)
      | Some ws \<Rightarrow>
          if ws_closed ws then (w, -1)
          else let (w, r) = gfns_conn_write net (Some (ws_conn ws)) (ws_header opcode (of_nat (length data))) w
               in if wr_ret r < 0 then (w, -1)
                  else if data = [] then (w, 0)
                  else let (w, ok) = net_calloc net w
                       in if \<not> ok then (w, -1)
                          else let (w, r) = gfns_conn_write net (Some (ws_conn ws)) (ws_mask 0 data) w
                               in if wr_ret r < 0 then (w, -1) else (w, 0))"

definition gfns_ws_send ::
    "('t, 'w) net \<Rightarrow> 't gfns_ws option \<Rightarrow> gfns_ws_opcode_t \<Rightarrow> byte list \<Rightarrow> 'w \<Rightarrow> 'w \<times> int" where
  "gfns_ws_send net ws opcode data w = ws_send_frame net ws opcode data w"

definition be_u64 :: "byte list \<Rightarrow> u64" where
  "be_u64 ext = foldl (\<lambda>len b. push_bit 8 len OR ucast b) 0 ext"

text \<open>
  The extended length, read when the 7-bit length is 126 or 127; \<open>None\<close> is the return value -1.
  For 126 the two bytes are combined as \<open>((uint16_t)ext[0] << 8) | ext[1]\<close>.
\<close>

definition ws_read_len :: "('t, 'w) net \<Rightarrow> 't gfns_conn \<Rightarrow> u64 \<Rightarrow> 'w \<Rightarrow> 'w \<times> u64 option" where
  "ws_read_len net c len w =
     (if len = 126 then
        (let (w, r) = gfns_conn_read net (Some c) 2 w
         in if rd_ret r \<noteq> 2 then (w, None)
            else (w, Some (push_bit 8 (ucast (stored r ! 0)) OR ucast (stored r ! 1))))
      else if len = 127 then
        (let (w, r) = gfns_conn_read net (Some c) 8 w
         in if rd_ret r \<noteq> 8 then (w, None) else (w, Some (be_u64 (stored r))))
      else (w, Some len))"

text \<open>
  \<open>out_ok\<close>: the three out pointers are not \<open>NULL\<close>. The result is the opcode, the length reported and
  the bytes stored in the buffer, or \<open>None\<close> for -1. A read that was short fails the comparison.
\<close>

definition gfns_ws_recv ::
    "('t, 'w) net \<Rightarrow> 't gfns_ws option \<Rightarrow> bool \<Rightarrow> nat \<Rightarrow> 'w
       \<Rightarrow> 'w \<times> (gfns_ws_opcode_t \<times> u64 \<times> byte list) option" where
  "gfns_ws_recv net ws out_ok buf_size w =
     (case ws of
        None \<Rightarrow> (w, None)
      | Some ws \<Rightarrow>
          if ws_closed ws \<or> \<not> out_ok then (w, None)
          else let (w, r) = gfns_conn_read net (Some (ws_conn ws)) 2 w
               in if rd_ret r \<noteq> 2 then (w, None)
                  else let h2 = stored r;
                           opcode = h2 ! 0 AND 0x0F;
                           mask = (h2 ! 1 AND 0x80 \<noteq> 0);
                           (w, len) = ws_read_len net (ws_conn ws) (ucast (h2 ! 1 AND 0x7F)) w
                       in case len of
                            None \<Rightarrow> (w, None)
                          | Some len \<Rightarrow>
                              (let (w, key_ok) = (if mask then let (w, r) = gfns_conn_read net (Some (ws_conn ws)) 4 w in (w, rd_ret r = 4)
                                                  else (w, True))
                               in if \<not> key_ok then (w, None)
                                  else if unat len > buf_size then (w, None)
                                  else let (w, r) = gfns_conn_read net (Some (ws_conn ws)) (unat len) w
                                       in if rd_ret r \<noteq> to_int (int (unat len)) then (w, None)
                                          else (w, Some (ucast opcode, len, stored r))))"

text \<open>The code and the reason are ignored, and so is the result of sending the close frame.\<close>

definition gfns_ws_close ::
    "('t, 'w) net \<Rightarrow> 't gfns_ws option \<Rightarrow> u16 \<Rightarrow> string option \<Rightarrow> 'w \<Rightarrow> 'w \<times> 't gfns_ws option \<times> int" where
  "gfns_ws_close net ws code reason w =
     (case ws of
        None \<Rightarrow> (w, ws, -1)
      | Some s \<Rightarrow>
          if ws_closed s then (w, ws, -1)
          else (fst (ws_send_frame net ws GFNS_WS_OP_CLOSE [] w), Some (s\<lparr>ws_closed := True\<rparr>), 0))"

section \<open>URLs\<close>

text \<open>\<open>strchr\<close> finds the first slash; \<open>strncpy\<close> and the store after it keep \<open>path_sz - 1\<close> characters.\<close>

definition parse_host_path :: "bool \<Rightarrow> string \<Rightarrow> nat \<Rightarrow> nat \<Rightarrow> (bool \<times> string \<times> string) option" where
  "parse_host_path is_secure p host_sz path_sz =
     (let slash = dropWhile (\<lambda>c. c \<noteq> CHR ''/'') p;
          hlen = length p - length slash
      in if slash = [] then None
         else if hlen \<ge> host_sz then None
         else Some (is_secure, take hlen p, take (path_sz - 1) slash))"

definition parse_url :: "string \<Rightarrow> nat \<Rightarrow> nat \<Rightarrow> (bool \<times> string \<times> string) option" where
  "parse_url url host_sz path_sz =
     (if take 6 url = ''wss://'' then parse_host_path True (drop 6 url) host_sz path_sz
      else if take 5 url = ''ws://'' then parse_host_path False (drop 5 url) host_sz path_sz
      else None)"

definition gfns_ws_open_url :: "('t, 'w) net \<Rightarrow> string \<Rightarrow> 'w \<Rightarrow> 'w \<times> 't gfns_ws option" where
  "gfns_ws_open_url net url w =
     (case parse_url url 256 256 of
        None \<Rightarrow> (w, None)
      | Some (is_secure, host, path) \<Rightarrow>
          (let (w, conn) = (if is_secure then gfns_tls_connect net host 443 w else gfns_tcp_connect net host 80 w)
           in case conn of
                None \<Rightarrow> (w, None)
              | Some conn \<Rightarrow> gfns_ws_connect net (Some conn) (Some host) (Some path) None w))"

section \<open>The channel below\<close>

text \<open>
  What the frame layer needs of a connection \<open>n\<close> in good order: a read of \<open>k\<close> bytes returns the next
  \<open>k\<close> bytes once that many have arrived, and a write sends all its bytes. \<open>inb\<close> are the bytes that
  arrived and were not read, \<open>outb\<close> the bytes sent.
\<close>

locale byte_channel =
  fixes ok :: "'n \<Rightarrow> bool"
    and rd :: "'n \<Rightarrow> nat \<Rightarrow> 'w \<Rightarrow> 'w \<times> byte list option"
    and wr :: "'n \<Rightarrow> byte list \<Rightarrow> 'w \<Rightarrow> 'w \<times> nat option"
    and inb outb :: "'n \<Rightarrow> 'w \<Rightarrow> byte list"
  assumes rd_exact: "ok n \<Longrightarrow> k \<le> length (inb n w) \<Longrightarrow>
      \<exists>w'. rd n k w = (w', Some (take k (inb n w))) \<and> inb n w' = drop k (inb n w) \<and> outb n w' = outb n w"
    and wr_exact: "ok n \<Longrightarrow>
      \<exists>w'. wr n bs w = (w', Some (length bs)) \<and> outb n w' = outb n w @ bs \<and> inb n w' = inb n w"
begin

lemma rd_prefix:
  assumes "ok n" "inb n w = xs @ ys"
  shows "\<exists>w'. rd n (length xs) w = (w', Some xs) \<and> inb n w' = ys \<and> outb n w' = outb n w"
  using rd_exact [OF assms(1), of "length xs" w] assms(2) by simp

lemma wr_then_rd:
  assumes "ok n" "inb n w = xs @ ys"
  shows "\<exists>w1 w2. wr n bs w = (w1, Some (length bs)) \<and> rd n (length xs) w1 = (w2, Some xs)
    \<and> inb n w2 = ys \<and> outb n w2 = outb n w @ bs"
proof -
  obtain w1 where w: "wr n bs w = (w1, Some (length bs))" "outb n w1 = outb n w @ bs" "inb n w1 = xs @ ys"
    using wr_exact [OF assms(1), of bs w] assms(2) by auto
  from rd_prefix [OF assms(1) w(3)] w(1,2) show ?thesis by auto
qed

end

text \<open>A connection in good order, plain or TLS, with an allocator that does not fail.\<close>

type_synonym ('t, 'w) link = "('t, 'w) net \<times> 't gfns_conn \<times> ('w \<Rightarrow> byte list) \<times> ('w \<Rightarrow> byte list)"

definition link_ok :: "('t, 'w) link \<Rightarrow> bool" where
  "link_ok n \<longleftrightarrow> (case n of (net, c, inb, outb) \<Rightarrow>
     (\<forall>k w. k \<le> length (inb w) \<longrightarrow> (\<exists>w'.
        (if is_tls c then tlsv3_client_read net (tls_ctx c) k w else net_recv net (conn_sock c) k w) = (w', Some (take k (inb w)))
        \<and> inb w' = drop k (inb w) \<and> outb w' = outb w))
     \<and> (\<forall>bs w. \<exists>w'.
        (if is_tls c then tlsv3_client_write net (tls_ctx c) bs w else net_send net (conn_sock c) bs w) = (w', Some (length bs))
        \<and> outb w' = outb w @ bs \<and> inb w' = inb w)
     \<and> (\<forall>w. \<exists>w'. net_calloc net w = (w', True) \<and> inb w' = inb w \<and> outb w' = outb w))"

interpretation conn: byte_channel link_ok
  "\<lambda>(net, c, _, _). gfns_conn_read net (Some c)" "\<lambda>(net, c, _, _). gfns_conn_write net (Some c)"
  "\<lambda>(_, _, inb, _). inb" "\<lambda>(_, _, _, outb). outb"
proof
  fix n :: "('t, 'w) link" and k w
  assume "link_ok n" "k \<le> length ((case n of (_, _, inb, _) \<Rightarrow> inb) w)"
  then show "\<exists>w'. (case n of (net, c, _, _) \<Rightarrow> gfns_conn_read net (Some c)) k w
      = (w', Some (take k ((case n of (_, _, inb, _) \<Rightarrow> inb) w)))
    \<and> (case n of (_, _, inb, _) \<Rightarrow> inb) w' = drop k ((case n of (_, _, inb, _) \<Rightarrow> inb) w)
    \<and> (case n of (_, _, _, outb) \<Rightarrow> outb) w' = (case n of (_, _, _, outb) \<Rightarrow> outb) w"
    by (cases n) (simp add: link_ok_def gfns_conn_read_def)
next
  fix n :: "('t, 'w) link" and bs w
  assume "link_ok n"
  then show "\<exists>w'. (case n of (net, c, _, _) \<Rightarrow> gfns_conn_write net (Some c)) bs w = (w', Some (length bs))
    \<and> (case n of (_, _, _, outb) \<Rightarrow> outb) w' = (case n of (_, _, _, outb) \<Rightarrow> outb) w @ bs
    \<and> (case n of (_, _, inb, _) \<Rightarrow> inb) w' = (case n of (_, _, inb, _) \<Rightarrow> inb) w"
    by (cases n) (simp add: link_ok_def gfns_conn_write_def)
qed

lemma link_rd:
  assumes "link_ok (net, c, inb, outb)" "inb w = xs @ ys" "k = length xs"
  shows "\<exists>w'. gfns_conn_read net (Some c) k w = (w', Some xs) \<and> inb w' = ys \<and> outb w' = outb w"
  using conn.rd_prefix [OF assms(1), of w xs ys] assms(2,3) by simp

lemma link_wr:
  assumes "link_ok (net, c, inb, outb)"
  shows "\<exists>w'. gfns_conn_write net (Some c) bs w = (w', Some (length bs)) \<and> outb w' = outb w @ bs \<and> inb w' = inb w"
  using conn.wr_exact [OF assms] by simp

lemma link_calloc:
  assumes "link_ok (net, c, inb, outb)"
  shows "\<exists>w'. net_calloc net w = (w', True) \<and> inb w' = inb w \<and> outb w' = outb w"
  using assms by (simp add: link_ok_def)

section \<open>The frame grammar\<close>

text \<open>RFC 6455: lengths are big-endian numbers, the payload is masked with the key repeated.\<close>

definition be_nat :: "byte list \<Rightarrow> nat" where
  "be_nat bs = foldl (\<lambda>n b. 256 * n + unat b) 0 bs"

definition rfc_unmask :: "byte list \<Rightarrow> byte list \<Rightarrow> byte list" where
  "rfc_unmask key bs = (if key = [] then bs else map (\<lambda>i. bs ! i XOR key ! (i mod 4)) [0..<length bs])"

record ws_frame =
  fr_fin :: bool
  fr_rsv :: nat
  fr_opcode :: nat
  fr_key :: "byte list"
  fr_payload :: "byte list"

definition ws_decode :: "byte list \<Rightarrow> (ws_frame \<times> byte list) option" where
  "ws_decode bs =
     (case bs of
        b0 # b1 # r \<Rightarrow>
          (let len7 = unat b1 mod 128;
               ext = (if len7 = 126 then 2 else if len7 = 127 then 8 else 0);
               ks = (if unat b1 \<ge> 128 then 4 else 0);
               n = (if ext = 0 then len7 else be_nat (take ext r));
               key = take ks (drop ext r);
               body = drop (ext + ks) r
           in if length r < ext + ks + n then None
              else Some (\<lparr>fr_fin = unat b0 \<ge> 128, fr_rsv = unat b0 div 16 mod 8, fr_opcode = unat b0 mod 16, fr_key = key,
                          fr_payload = rfc_unmask key (take n body)\<rparr>, drop n body))
      | _ \<Rightarrow> None)"

lemma be_nat_foldl: "foldl (\<lambda>n b. 256 * n + unat b) a bs = a * 256 ^ length bs + be_nat bs"
proof (induction bs arbitrary: a)
  case (Cons b bs)
  have "be_nat (b # bs) = unat b * 256 ^ length bs + be_nat bs"
    using Cons.IH [of "unat b"] by (simp only: be_nat_def [of "b # bs"] foldl.simps mult_0_right add_0)
  then show ?case using Cons.IH [of "256 * a + unat b"] by (simp only: foldl.simps) (simp add: algebra_simps)
qed (simp add: be_nat_def)

lemma be_nat_Cons: "be_nat (b # bs) = unat b * 256 ^ length bs + be_nat bs"
  using be_nat_foldl [of "unat b" bs] by (simp add: be_nat_def)

lemma be_nat_Nil [simp]: "be_nat [] = 0"
  by (simp add: be_nat_def)

lemma be_nat_bound: "be_nat bs < 256 ^ length bs"
proof (induction bs)
  case (Cons b bs)
  have "unat b < 256" using unsigned_less [of b, where ?'a = nat] by simp
  then have "unat b * 256 ^ length bs \<le> 255 * 256 ^ length bs" by (intro mult_le_mono1) simp
  with Cons.IH show ?case unfolding be_nat_Cons length_Cons power_Suc by linarith
qed simp

text \<open>The digits of a number, most significant first, read back.\<close>

lemma be_nat_digits:
  "be_nat (map (\<lambda>i. ucast (drop_bit (8 * i) (len :: u64) AND 0xFF)) (rev [0..<n])) = unat len mod 256 ^ n"
proof (induction n)
  case (Suc n)
  have b: "unat (ucast (drop_bit (8 * n) len AND 0xFF) :: byte) = unat len div 256 ^ n mod 256"
  proof -
    have "drop_bit (8 * n) len AND 0xFF = take_bit 8 (drop_bit (8 * n) len)"
      by (simp add: take_bit_eq_mask mask_eq_exp_minus_1)
    then have "ucast (drop_bit (8 * n) len AND 0xFF) = (ucast (drop_bit (8 * n) len) :: byte)"
      by (intro bit_word_eqI) (simp add: bit_simps)
    moreover have "unat (drop_bit (8 * n) len) = unat len div 256 ^ n"
      using unsigned_less [of len, where ?'a = nat]
      by (simp only: unsigned_drop_bit_eq) (simp add: drop_bit_eq_div power_mult take_bit_nat_eq_self)
    ultimately show ?thesis by (simp only: unsigned_ucast_eq) (simp add: take_bit_eq_mod)
  qed
  have "unat len mod 256 ^ Suc n = (unat len div 256 ^ n mod 256) * 256 ^ n + unat len mod 256 ^ n"
    using mod_mult2_eq [of "unat len" "256 ^ n" 256] by (simp add: mult.commute)
  with Suc b show ?case by (simp add: be_nat_Cons)
qed (simp add: be_nat_def)

lemma ws_mask_eq: "ws_mask k bs = map (\<lambda>i. bs ! i XOR [0x12, 0x34, 0x56, 0x78] ! ((k + i) mod 4)) [0..<length bs]"
proof (induction bs arbitrary: k)
  case (Cons b bs)
  have "[0..<length (b # bs)] = 0 # map Suc [0..<length bs]"
    by (simp add: upt_conv_Cons map_Suc_upt del: upt_Suc)
  then show ?case by (simp add: Cons comp_def)
qed simp

lemma length_ws_mask [simp]: "length (ws_mask k bs) = length bs"
  by (simp add: ws_mask_eq)

lemma unmask_mask: "rfc_unmask [0x12, 0x34, 0x56, 0x78] (ws_mask 0 bs) = bs"
  by (rule nth_equalityI) (simp_all add: rfc_unmask_def ws_mask_eq xor.assoc del: upt_Suc)

lemma be_u64_nat:
  assumes "length bs \<le> 8"
  shows "unat (be_u64 bs) = be_nat bs"
  using assms
proof (induction bs rule: rev_induct)
  case (snoc b bs)
  have s: "be_u64 (bs @ [b]) = push_bit 8 (be_u64 bs) OR ucast b" "be_nat (bs @ [b]) = 256 * be_nat bs + unat b"
    by (simp_all add: be_u64_def be_nat_def)
  have "(256 :: nat) ^ length bs \<le> 256 ^ 7" using snoc.prems by (intro power_increasing) simp_all
  then have lt: "be_nat bs < 2 ^ 56" using be_nat_bound [of bs] by simp
  have "push_bit 8 (be_u64 bs) AND ucast b = 0"
    by (intro bit_word_eqI) (auto simp: bit_simps dest: bit_imp_le_length)
  then have "push_bit 8 (be_u64 bs) OR ucast b = push_bit 8 (be_u64 bs) + ucast b"
    by (rule disjunctive_add_eq_or [symmetric])
  moreover have "unat (push_bit 8 (be_u64 bs)) = 256 * be_nat bs"
    unfolding unsigned_push_bit_eq using snoc lt by (simp add: push_bit_eq_mult take_bit_nat_eq_self)
  moreover have "unat (ucast b :: u64) = unat b" "unat b < 256"
    using unsigned_less [of b, where ?'a = nat] by (simp_all add: unsigned_ucast_eq take_bit_nat_eq_self)
  ultimately show ?case unfolding s using lt by (simp add: unat_word_ariths)
qed (simp add: be_u64_def)

lemma unat_or_128:
  assumes "unat (y :: byte) < 128"
  shows "unat (0x80 OR y) = 128 + unat y"
proof -
  have "y = take_bit 7 y" using assms by (simp add: word_unat_eq_iff unsigned_take_bit_eq take_bit_nat_eq_self)
  then have "\<not> bit y 7" by (metis bit_take_bit_iff less_irrefl)
  then have "y AND 2 ^ 7 = 0" by (simp only: and_exp_eq_0_iff_not_bit not_False_eq_True)
  then have "0x80 AND y = 0" by (simp add: and.commute)
  then have "0x80 OR y = 0x80 + y" by (rule disjunctive_add_eq_or [symmetric])
  with assms show ?thesis by (simp add: unat_word_ariths)
qed

lemma unat_and_15: "unat ((op :: u32) AND 0x0F) = unat op mod 16"
proof -
  have "op AND 0x0F = take_bit 4 op" by (simp add: take_bit_eq_mask mask_eq_exp_minus_1)
  then show ?thesis by (simp only: unsigned_take_bit_eq) (simp add: take_bit_eq_mod)
qed

lemma header_byte0: "unat (ucast (0x80 OR (op AND 0x0F) :: u32) :: byte) = 128 + unat op mod 16"
proof -
  have "ucast (0x80 OR (op AND 0x0F) :: u32) = (0x80 OR ucast (op AND 0x0F) :: byte)" by (simp add: unsigned_or_eq)
  moreover have "unat (ucast (op AND 0x0F) :: byte) = unat op mod 16"
    by (simp only: unsigned_ucast_eq unat_and_15) (simp add: take_bit_nat_eq_self)
  ultimately show ?thesis using unat_or_128 [of "ucast (op AND 0x0F)"] by simp
qed

text \<open>The two-byte form is the last two digits of the eight-byte one.\<close>

lemma header_ext:
  "be_nat [ucast (drop_bit 8 len AND 0xFF), ucast (len AND 0xFF)] = unat (len :: u64) mod 65536"
  "be_nat (map (\<lambda>i. ucast (drop_bit (8 * i) len AND 0xFF)) [7, 6, 5, 4, 3, 2, 1, 0]) = unat len"
proof -
  have "rev [0..<2] = [1, 0 :: nat]" "rev [0..<8] = [7, 6, 5, 4, 3, 2, 1, 0 :: nat]"
    by (simp_all add: upt_rec)
  then show "be_nat [ucast (drop_bit 8 len AND 0xFF), ucast (len AND 0xFF)] = unat len mod 65536"
      "be_nat (map (\<lambda>i. ucast (drop_bit (8 * i) len AND 0xFF)) [7, 6, 5, 4, 3, 2, 1, 0]) = unat len"
    using be_nat_digits [of len 2] be_nat_digits [of len 8] unsigned_less [of len, where ?'a = nat] by simp_all
qed

lemma ws_decode_Cons:
  "ws_decode (b0 # b1 # r) =
     (let len7 = unat b1 mod 128;
          ext = (if len7 = 126 then 2 else if len7 = 127 then 8 else 0);
          ks = (if unat b1 \<ge> 128 then 4 else 0);
          n = (if ext = 0 then len7 else be_nat (take ext r));
          key = take ks (drop ext r);
          body = drop (ext + ks) r
      in if length r < ext + ks + n then None
         else Some (\<lparr>fr_fin = unat b0 \<ge> 128, fr_rsv = unat b0 div 16 mod 8, fr_opcode = unat b0 mod 16, fr_key = key,
                     fr_payload = rfc_unmask key (take n body)\<rparr>, drop n body))"
  by (simp add: ws_decode_def)

text \<open>
  The frame a client has to send for a message: the last of its message, no extension bits, the low four bits
  of the opcode, and masked, here with the key of the code.
\<close>

definition client_frame :: "gfns_ws_opcode_t \<times> byte list \<Rightarrow> ws_frame" where
  "client_frame = (\<lambda>(opcode, data). \<lparr>fr_fin = True, fr_rsv = 0, fr_opcode = unat opcode mod 16, fr_key = [0x12, 0x34, 0x56, 0x78],
     fr_payload = data\<rparr>)"

text \<open>A header of this sender followed by the masked payload is one frame of the grammar.\<close>

lemma ws_header_decodes:
  assumes "length data < 2 ^ 64"
  shows "ws_decode (ws_header opcode (of_nat (length data)) @ ws_mask 0 data @ rest)
    = Some (client_frame (opcode, data), rest)"
proof -
  define len :: u64 where "len = of_nat (length data)"
  have n: "unat len = length data" using assms by (simp add: len_def unat_of_nat take_bit_nat_eq_self)
  let ?b0 = "ucast (0x80 OR (opcode AND 0x0F) :: u32) :: byte"
  let ?k = "[0x12, 0x34, 0x56, 0x78 :: byte]"
  have op: "(128 + unat opcode mod 16) mod 16 = unat opcode mod 16" "(128 + unat opcode mod 16) div 16 mod 8 = 0"
    using mod_mult_self3 [of 8 16 "unat opcode mod 16"] div_mult_self3 [of 16 8 "unat opcode mod 16"] by simp_all
  consider (a) "unat len \<le> 125" | (b) "125 < unat len" "unat len \<le> 65535" | (c) "65535 < unat len" by linarith
  then have "ws_decode (ws_header opcode len @ ws_mask 0 data @ rest)
    = Some (client_frame (opcode, data), rest)"
  proof cases
    case a
    then have "len \<le> 125" by (simp add: word_le_nat_alt)
    then have h: "ws_header opcode len = ?b0 # (0x80 OR ucast len) # ?k" by (simp add: ws_header_def)
    have u: "unat (ucast len :: byte) = unat len" using a by (simp add: unsigned_ucast_eq take_bit_nat_eq_self)
    have "unat (0x80 OR ucast len :: byte) = 128 + unat len" using unat_or_128 [of "ucast len"] a u by simp
    then show ?thesis using a unfolding h append_Cons ws_decode_Cons by (simp add: client_frame_def header_byte0 unmask_mask n op)
  next
    case b
    then have "\<not> len \<le> 125" "len \<le> 0xFFFF" by (simp_all add: word_le_nat_alt)
    then have h: "ws_header opcode len = ?b0 # 0xFE # [ucast (drop_bit 8 len AND 0xFF), ucast (len AND 0xFF)] @ ?k"
      by (simp add: ws_header_def)
    have "be_nat [ucast (drop_bit 8 len AND 0xFF), ucast (len AND 0xFF)] = length data" using header_ext(1) [of len] b n by simp
    then show ?thesis unfolding h append_Cons ws_decode_Cons by (simp add: client_frame_def header_byte0 unmask_mask op)
  next
    case c
    let ?e = "map (\<lambda>i. ucast (drop_bit (8 * i) len AND 0xFF)) [7, 6, 5, 4, 3, 2, 1, 0] :: byte list"
    from c have "\<not> len \<le> 125" "\<not> len \<le> 0xFFFF" by (simp_all add: word_le_nat_alt)
    then have h: "ws_header opcode len = ?b0 # 0xFF # ?e @ ?k"
      by (simp add: ws_header_def del: list.map)
    have "be_nat ?e = length data" "length ?e = 8" using header_ext(2) [of len] n by simp_all
    then show ?thesis unfolding h append_Cons ws_decode_Cons by (simp add: client_frame_def header_byte0 unmask_mask op del: list.map)
  qed
  then show ?thesis by (simp add: len_def)
qed

lemma length_ws_header: "length (ws_header opcode len) \<le> 14"
  by (simp add: ws_header_def)

section \<open>Sending\<close>

lemma wr_ret_nonneg: "n < 2 ^ 31 \<Longrightarrow> wr_ret (Some n) = int n"
  by (simp add: wr_ret_def to_int_exact)

lemma rd_ret_exact: "length bs < 2 ^ 31 \<Longrightarrow> rd_ret (Some bs) = int (length bs)"
  by (simp add: rd_ret_def to_int_exact)

lemma ws_send_frame_wire:
  assumes "link_ok (net, ws_conn ws, inb, outb)" "\<not> ws_closed ws" "length data < 2 ^ 31"
  shows "\<exists>w'. ws_send_frame net (Some ws) opcode data w = (w', 0) \<and> inb w' = inb w
    \<and> outb w' = outb w @ ws_header opcode (of_nat (length data)) @ ws_mask 0 data"
proof -
  let ?h = "ws_header opcode (of_nat (length data))"
  obtain w1 where w1: "gfns_conn_write net (Some (ws_conn ws)) ?h w = (w1, Some (length ?h))"
      "outb w1 = outb w @ ?h" "inb w1 = inb w" using link_wr [OF assms(1)] by blast
  obtain w2 where w2: "net_calloc net w1 = (w2, True)" "inb w2 = inb w1" "outb w2 = outb w1"
    using link_calloc [OF assms(1)] by blast
  obtain w3 where w3: "gfns_conn_write net (Some (ws_conn ws)) (ws_mask 0 data) w2 = (w3, Some (length data))"
      "outb w3 = outb w2 @ ws_mask 0 data" "inb w3 = inb w2" using link_wr [OF assms(1), of "ws_mask 0 data" w2] by auto
  have "wr_ret (Some (length ?h)) = int (length ?h)" using length_ws_header [of opcode "of_nat (length data)"] by (intro wr_ret_nonneg) simp
  with assms(2) w1 w2 w3 wr_ret_nonneg [OF assms(3)] show ?thesis
    by (cases "data = []") (simp_all add: ws_send_frame_def)
qed

text \<open>Sending one message after the other, and a peer reading frames until none is left.\<close>

fun ws_send_all :: "('t, 'w) net \<Rightarrow> 't gfns_ws \<Rightarrow> (gfns_ws_opcode_t \<times> byte list) list \<Rightarrow> 'w \<Rightarrow> 'w \<times> int list" where
  "ws_send_all net ws [] w = (w, [])"
| "ws_send_all net ws ((opcode, data) # ms) w =
     (let (w, r) = gfns_ws_send net (Some ws) opcode data w; (w, rs) = ws_send_all net ws ms w in (w, r # rs))"

function ws_decode_all :: "byte list \<Rightarrow> ws_frame list" where
  "ws_decode_all bs = (case ws_decode bs of
     None \<Rightarrow> []
   | Some (f, rest) \<Rightarrow> if length rest < length bs then f # ws_decode_all rest else [])"
  by pat_completeness auto
termination
  by (relation "measure length") auto

declare ws_decode_all.simps [simp del]

text \<open>
  C34. Messages sent arrive: on an open WebSocket over a connection that takes every write whole,
  \<open>gfns_ws_send\<close> returns 0 for every message of less than 2 GB, and the bytes on the wire, read by the frame
  grammar of RFC 6455, are exactly one frame for every message, in order: final, with no extension bits, with
  the low four bits of the opcode, masked with a key of four bytes, and with the message as its payload,
  whichever of the three length forms it needs.
\<close>

theorem ws_messages_arrive:
  assumes "link_ok (net, ws_conn ws, inb, outb)" "\<not> ws_closed ws" "\<forall>(opcode, data) \<in> set ms. length data < 2 ^ 31"
    and "outb w = []"
  shows "\<exists>w'. ws_send_all net ws ms w = (w', replicate (length ms) 0)
    \<and> ws_decode_all (outb w') = map client_frame ms"
proof -
  have "\<exists>w' bs. ws_send_all net ws ms w = (w', replicate (length ms) 0) \<and> outb w' = outb w @ bs
    \<and> ws_decode_all bs = map client_frame ms" for w
    using assms(3)
  proof (induction ms arbitrary: w)
    case Nil
    have "ws_decode_all [] = []" by (simp add: ws_decode_all.simps ws_decode_def)
    then show ?case by simp
  next
    case (Cons m ms)
    obtain opcode data where m: "m = (opcode, data)" by fastforce
    then have len: "length data < 2 ^ 31" using Cons.prems by simp
    let ?b = "ws_header opcode (of_nat (length data)) @ ws_mask 0 data"
    obtain w1 where w1: "ws_send_frame net (Some ws) opcode data w = (w1, 0)" "outb w1 = outb w @ ?b"
      using ws_send_frame_wire [OF assms(1,2) len] by blast
    obtain w2 bs where w2: "ws_send_all net ws ms w1 = (w2, replicate (length ms) 0)" "outb w2 = outb w1 @ bs"
        "ws_decode_all bs = map client_frame ms" using Cons.IH [of w1] Cons.prems by auto
    have "ws_decode (?b @ bs) = Some (client_frame (opcode, data), bs)" using ws_header_decodes [of data opcode bs] len by simp
    moreover have "length bs < length (?b @ bs)" by (simp add: ws_header_def)
    ultimately have "ws_decode_all (?b @ bs) = client_frame (opcode, data) # ws_decode_all bs"
      by (subst ws_decode_all.simps) (simp del: append_assoc)
    with w1 w2 m show ?case by (intro exI [of _ w2] exI [of _ "?b @ bs"]) (simp add: gfns_ws_send_def)
  qed
  from this [of w] assms(4) show ?thesis by auto
qed

section \<open>Receiving\<close>

lemma word_eq_of_nat: "unat (x :: 'a :: len word) = n \<Longrightarrow> x = of_nat n"
  by auto

lemma mask_bit: "(b :: byte) AND 0x80 \<noteq> 0 \<longleftrightarrow> unat b \<ge> 128"
proof -
  have "b AND 0x80 \<noteq> 0 \<longleftrightarrow> bit b 7" using and_exp_eq_0_iff_not_bit [of b 7] by simp
  also have "\<dots> \<longleftrightarrow> bit (unat b) 7" by (simp add: bit_unsigned_iff)
  also have "\<dots> \<longleftrightarrow> odd (unat b div 128)" by (simp add: bit_iff_odd)
  also have "\<dots> \<longleftrightarrow> unat b \<ge> 128"
  proof
    assume "unat b \<ge> 128"
    moreover have "unat b < 256" using unsigned_less [of b, where ?'a = nat] by simp
    ultimately have "unat b div 128 = 1" by (intro div_nat_eqI) simp_all
    then show "odd (unat b div 128)" by simp
  qed (cases "unat b < 128"; simp)
  finally show ?thesis .
qed

lemma len7: "unat (ucast ((b :: byte) AND 0x7F) :: u64) = unat b mod 128"
proof -
  have "b AND 0x7F = take_bit 7 b" by (simp add: take_bit_eq_mask mask_eq_exp_minus_1)
  moreover have "unat (take_bit 7 b) = unat b mod 128"
    by (simp only: unsigned_take_bit_eq) (simp add: take_bit_eq_mod)
  moreover have "unat b mod 128 < 2 ^ 64" by (rule less_le_trans [OF mod_less_divisor]) simp_all
  ultimately show ?thesis by (simp only: unsigned_ucast_eq) (simp add: take_bit_nat_eq_self)
qed

lemma opcode4: "(ucast ((b :: byte) AND 0x0F) :: u32) = of_nat (unat b mod 16)"
proof -
  have "b AND 0x0F = take_bit 4 b" by (simp add: take_bit_eq_mask mask_eq_exp_minus_1)
  then have "unat (b AND 0x0F) = unat b mod 16" by (simp only: unsigned_take_bit_eq) (simp add: take_bit_eq_mod)
  moreover have "unat b mod 16 < 2 ^ 32" by (rule less_le_trans [OF mod_less_divisor]) simp_all
  ultimately show ?thesis by (intro word_eq_of_nat) (simp add: unsigned_ucast_eq take_bit_nat_eq_self)
qed

text \<open>The number of bytes of the extended length, as the grammar has it.\<close>

definition ext_len :: "nat \<Rightarrow> nat" where
  "ext_len l = (if l = 126 then 2 else if l = 127 then 8 else 0)"

lemma ws_read_len_exact:
  assumes "link_ok (net, c, inb, outb)" "inb w = e @ ys" "length e = ext_len (unat b mod 128)"
  shows "\<exists>w'. ws_read_len net c (ucast ((b :: byte) AND 0x7F)) w
      = (w', Some (of_nat (if ext_len (unat b mod 128) = 0 then unat b mod 128 else be_nat e)))
    \<and> inb w' = ys \<and> outb w' = outb w"
proof -
  define l where "l = (ucast (b AND 0x7F) :: u64)"
  have l: "unat l = unat b mod 128" by (simp add: l_def len7)
  have i: "l = 126 \<longleftrightarrow> unat l = 126" "l = 127 \<longleftrightarrow> unat l = 127" "l = of_nat (unat l)"
    by (simp_all add: word_unat_eq_iff)
  obtain w' where r: "gfns_conn_read net (Some c) (length e) w = (w', Some e)" "inb w' = ys" "outb w' = outb w"
    using link_rd [OF assms(1,2) refl] by blast
  have e: "rd_ret (Some e) = int (length e)" using assms(3) by (intro rd_ret_exact) (simp add: ext_len_def)
  consider "unat l = 126" | "unat l = 127" | "unat l \<noteq> 126" "unat l \<noteq> 127" by blast
  then show ?thesis
  proof cases
    case 1
    then have e2: "length e = 2" using assms(3) l by (simp add: ext_len_def)
    then obtain x y where "e = [x, y]" by (auto simp: length_Suc_conv numeral_2_eq_2)
    moreover from this have "push_bit 8 (ucast x) OR ucast y = (of_nat (be_nat [x, y]) :: u64)"
      using word_eq_of_nat [OF be_u64_nat, of "[x, y]"] by (simp add: be_u64_def)
    ultimately show ?thesis
      using 1 r(1) [unfolded e2] r(2,3) e l i(1) by (simp add: ws_read_len_def l_def [symmetric] stored_def ext_len_def)
  next
    case 2
    then have "length e = 8" using assms(3) l by (simp add: ext_len_def)
    moreover from this have "be_u64 e = of_nat (be_nat e)" by (intro word_eq_of_nat be_u64_nat) simp
    ultimately show ?thesis
      using 2 r e l i(1,2) by (simp add: ws_read_len_def l_def [symmetric] stored_def ext_len_def)
  next
    case 3
    then have "e = []" using assms(3) l by (simp add: ext_len_def)
    with 3 l i assms(2) show ?thesis
      by (simp add: ws_read_len_def l_def [symmetric] ext_len_def)
  qed
qed

text \<open>The shape of a byte string that starts with a frame.\<close>

lemma ws_decode_Some:
  assumes "ws_decode bs = Some (f, rest)"
  obtains b0 b1 e k p where "bs = [b0, b1] @ e @ k @ p @ rest" "length e = ext_len (unat b1 mod 128)"
    "length k = (if unat b1 \<ge> 128 then 4 else 0)" "fr_opcode f = unat b0 mod 16" "fr_key f = k"
    "length p = (if ext_len (unat b1 mod 128) = 0 then unat b1 mod 128 else be_nat e)" "fr_payload f = rfc_unmask k p"
proof -
  obtain b0 b1 r where bs: "bs = b0 # b1 # r" using assms by (auto simp: ws_decode_def split: list.splits)
  define ext where "ext = ext_len (unat b1 mod 128)"
  define ks :: nat where "ks = (if unat b1 \<ge> 128 then 4 else 0)"
  define n where "n = (if ext = 0 then unat b1 mod 128 else be_nat (take ext r))"
  have d: "length r \<ge> ext + ks + n" "f = \<lparr>fr_fin = unat b0 \<ge> 128, fr_rsv = unat b0 div 16 mod 8, fr_opcode = unat b0 mod 16, fr_key = take ks (drop ext r),
      fr_payload = rfc_unmask (take ks (drop ext r)) (take n (drop (ext + ks) r))\<rparr>" "rest = drop n (drop (ext + ks) r)"
    using assms unfolding bs ws_decode_Cons Let_def ext_len_def [symmetric] ext_def [symmetric] ks_def [symmetric] n_def [symmetric]
    by (simp_all split: if_splits)
  have "r = take ext r @ take ks (drop ext r) @ take n (drop (ext + ks) r) @ rest"
    unfolding d(3) by (metis add.commute append_take_drop_id drop_drop)
  with d bs show ?thesis
    by (intro that [of b0 b1 "take ext r" "take ks (drop ext r)" "take n (drop (ext + ks) r)"])
      (simp_all add: ext_def ks_def n_def)
qed

lemma rfc_unmask_length [simp]: "length (rfc_unmask k p) = length p"
  by (simp add: rfc_unmask_def)

lemma rfc_unmask_twice [simp]: "rfc_unmask k (rfc_unmask k p) = p"
  by (cases "k = []") (auto simp: rfc_unmask_def xor.assoc intro!: nth_equalityI)

lemma frame_payload_bound:
  assumes "length p = (if ext_len (unat b1 mod 128) = 0 then unat (b1 :: byte) mod 128 else be_nat e)" "length e = ext_len (unat b1 mod 128)"
  shows "length p < 2 ^ 64"
proof (cases "ext_len (unat b1 mod 128) = 0")
  case True
  have "unat b1 mod 128 < 2 ^ 64" by (rule less_le_trans [OF mod_less_divisor]) simp_all
  with True assms(1) show ?thesis by simp
next
  case False
  have "(256 :: nat) ^ length e \<le> 256 ^ 8" using assms(2) by (intro power_increasing) (simp_all add: ext_len_def)
  with be_nat_bound [of e] False assms(1) show ?thesis by simp
qed

lemma ws_recv_frame:
  assumes "link_ok (net, ws_conn ws, inb, outb)" "\<not> ws_closed ws" "ws_decode (inb w) = Some (f, rest)"
  defines "wire \<equiv> rfc_unmask (fr_key f) (fr_payload f)"
  shows "\<exists>w'. gfns_ws_recv net (Some ws) True buf_size w
      = (w', if length (fr_payload f) \<le> buf_size then Some (of_nat (fr_opcode f), of_nat (length (fr_payload f)), wire) else None)
    \<and> inb w' = (if length (fr_payload f) \<le> buf_size then rest else wire @ rest)"
proof -
  from assms(3) obtain b0 b1 e k p where b: "inb w = [b0, b1] @ e @ k @ p @ rest" "length e = ext_len (unat b1 mod 128)"
    "length k = (if unat b1 \<ge> 128 then 4 else 0)" "fr_opcode f = unat b0 mod 16" "fr_key f = k"
    "length p = (if ext_len (unat b1 mod 128) = 0 then unat b1 mod 128 else be_nat e)" "fr_payload f = rfc_unmask k p"
    by (rule ws_decode_Some)
  note rd = link_rd [OF assms(1)]
  obtain w1 where w1: "gfns_conn_read net (Some (ws_conn ws)) 2 w = (w1, Some [b0, b1])" "inb w1 = e @ k @ p @ rest"
    using rd [OF b(1), of 2] by auto
  obtain w2 where w2: "ws_read_len net (ws_conn ws) (ucast (b1 AND 0x7F)) w1 = (w2, Some (of_nat (length p)))" "inb w2 = k @ p @ rest"
    using ws_read_len_exact [OF assms(1) w1(2) b(2)] b(6) by auto
  define w3 where "w3 = (if unat b1 \<ge> 128 then fst (gfns_conn_read net (Some (ws_conn ws)) 4 w2) else w2)"
  have k: "unat b1 \<ge> 128 \<Longrightarrow> gfns_conn_read net (Some (ws_conn ws)) 4 w2 = (w3, Some k) \<and> rd_ret (Some k) = 4"
      and w3: "inb w3 = p @ rest"
    using rd [OF w2(2), of 4] b(3) w2(2) rd_ret_exact [of k] by (auto simp: w3_def split: if_splits)
  obtain w4 where w4: "gfns_conn_read net (Some (ws_conn ws)) (length p) w3 = (w4, Some p)" "inb w4 = rest"
    using rd [OF w3, of "length p"] by auto
  have u: "unat (of_nat (length p) :: u64) = length p"
    using frame_payload_bound [OF b(6,2)] by (simp add: unat_of_nat take_bit_nat_eq_self)
  have r: "rd_ret (Some p) = to_int (int (length p))" "rd_ret (Some [b0, b1]) = 2"
    by (simp_all add: rd_ret_def to_int_exact)
  have key: "(if b1 AND 0x80 \<noteq> 0 then let (w, r) = gfns_conn_read net (Some (ws_conn ws)) 4 w2 in (w, rd_ret r = 4) else (w2, True)) = (w3, True)"
  proof (cases "unat b1 \<ge> 128")
    case True
    with k show ?thesis by (simp add: mask_bit)
  next
    case False
    then show ?thesis by (simp add: mask_bit w3_def)
  qed
  have "gfns_ws_recv net (Some ws) True buf_size w
      = (if length p \<le> buf_size then (w4, Some (ucast (b0 AND 0x0F), of_nat (length p), p)) else (w3, None))"
    using assms(2) u
    by (simp add: gfns_ws_recv_def w1 w2 r stored_def key [simplified] w4)
  then show ?thesis using b(4,5,7) w4(2) w3 by (simp add: opcode4 wire_def)
qed

text \<open>
  C35. Frames received: when the bytes that have arrived start with a frame of RFC 6455 that is not
  masked, as a server's frames must be, \<open>gfns_ws_recv\<close> returns its opcode, its length and its payload,
  whichever length form the frame uses, and leaves the connection at the first byte after the frame, if the
  payload fits the caller's buffer; if it does not, the call returns -1 and stores nothing, and the payload
  is what the next read on the connection will see.
\<close>

theorem ws_recv_unmasked:
  assumes "link_ok (net, ws_conn ws, inb, outb)" "\<not> ws_closed ws" "ws_decode (inb w) = Some (f, rest)" "fr_key f = []"
  shows "\<exists>w'. gfns_ws_recv net (Some ws) True buf_size w
      = (w', if length (fr_payload f) \<le> buf_size
             then Some (of_nat (fr_opcode f), of_nat (length (fr_payload f)), fr_payload f) else None)
    \<and> inb w' = (if length (fr_payload f) \<le> buf_size then rest else fr_payload f @ rest)"
proof -
  have "rfc_unmask (fr_key f) (fr_payload f) = fr_payload f" by (simp add: assms(4) rfc_unmask_def)
  from ws_recv_frame [OF assms(1-3), of buf_size, unfolded this] show ?thesis .
qed

text \<open>
  A masked frame is not unmasked: \<open>gfns_ws_recv\<close> reads the masking key and drops it, and
  returns success with the bytes as they were on the wire, which differ from the payload in every
  position whose key byte is not 0.
\<close>

theorem ws_recv_masked_garbled:
  assumes "link_ok (net, ws_conn ws, inb, outb)" "\<not> ws_closed ws" "ws_decode (inb w) = Some (f, rest)"
    and "length (fr_payload f) \<le> buf_size"
    and "i < length (fr_payload f)" "fr_key f \<noteq> []" "fr_key f ! (i mod 4) \<noteq> 0"
  shows "\<exists>w' out. gfns_ws_recv net (Some ws) True buf_size w
    = (w', Some (of_nat (fr_opcode f), of_nat (length (fr_payload f)), out)) \<and> out ! i \<noteq> fr_payload f ! i"
proof -
  have "rfc_unmask (fr_key f) (fr_payload f) ! i = fr_payload f ! i XOR fr_key f ! (i mod 4)"
    using assms(5,6) by (simp add: rfc_unmask_def)
  moreover have "x XOR y \<noteq> x" if "y \<noteq> 0" for x y :: byte
    using that by (metis xor.assoc xor.right_neutral xor_self_eq xor.left_commute)
  ultimately show ?thesis using ws_recv_frame [OF assms(1-3), of buf_size] assms(4,7) by auto
qed

section \<open>The opening request\<close>


section \<open>URLs\<close>

lemma split_slash:
  assumes "dropWhile (\<lambda>c. c \<noteq> CHR ''/'') p \<noteq> []"
  shows "p = takeWhile (\<lambda>c. c \<noteq> CHR ''/'') p @ CHR ''/'' # tl (dropWhile (\<lambda>c. c \<noteq> CHR ''/'') p)"
proof -
  have "hd (dropWhile (\<lambda>c. c \<noteq> CHR ''/'') p) = CHR ''/''" using hd_dropWhile [OF assms] by simp
  with assms have "CHR ''/'' # tl (dropWhile (\<lambda>c. c \<noteq> CHR ''/'') p) = dropWhile (\<lambda>c. c \<noteq> CHR ''/'') p"
    by (metis list.collapse)
  then show ?thesis by simp
qed

lemma take_host: "take (length p - length (dropWhile P p)) p = takeWhile P p"
  by (metis add_diff_cancel_right' append_eq_conv_conj length_append takeWhile_dropWhile_id)

lemma parse_host_path_iff:
  "parse_host_path is_secure p host_sz path_sz = Some (s, host, path)
   \<longleftrightarrow> s = is_secure \<and> (\<exists>rest. p = host @ CHR ''/'' # rest \<and> CHR ''/'' \<notin> set host \<and> length host < host_sz
     \<and> path = take (path_sz - 1) (CHR ''/'' # rest))" (is "?l \<longleftrightarrow> ?r")
proof
  assume l: ?l
  let ?s = "dropWhile (\<lambda>c. c \<noteq> CHR ''/'') p" and ?h = "takeWhile (\<lambda>c. c \<noteq> CHR ''/'') p"
  have ne: "?s \<noteq> []"
  proof
    assume "?s = []"
    with l show False unfolding parse_host_path_def Let_def by (simp only: if_True) simp
  qed
  have "length p - length ?s = length ?h" by (metis add_diff_cancel_right' length_append takeWhile_dropWhile_id)
  with l ne have "s = is_secure" "host = ?h" "path = take (path_sz - 1) ?s" "length ?h < host_sz"
    unfolding parse_host_path_def Let_def take_host by (simp_all only: if_False split: if_splits) auto
  moreover have "CHR ''/'' \<notin> set ?h" by (auto dest: set_takeWhileD)
  moreover have "?s = CHR ''/'' # tl ?s" using split_slash [OF ne] by (metis same_append_eq takeWhile_dropWhile_id)
  ultimately show ?r using split_slash [OF ne] by metis
next
  assume ?r
  then obtain rest where r: "p = host @ CHR ''/'' # rest" "CHR ''/'' \<notin> set host" "length host < host_sz"
      "path = take (path_sz - 1) (CHR ''/'' # rest)" "s = is_secure" by blast
  have "\<forall>c \<in> set host. c \<noteq> CHR ''/''" using r(2) by auto
  then have "dropWhile (\<lambda>c. c \<noteq> CHR ''/'') p = CHR ''/'' # rest" by (simp add: r(1) dropWhile_append3 dropWhile_append2)
  with r show ?l by (simp add: parse_host_path_def)
qed

text \<open>
  The URLs that \<open>parse_url\<close> accepts are exactly those of the form \<open>ws://host/path\<close> and
  \<open>wss://host/path\<close> with a host part that fits its buffer with the terminating NUL; it then
  returns the host, and the path from the slash on, cut to its buffer.
\<close>

theorem parse_url_spec:
  "parse_url url host_sz path_sz = Some (is_secure, host, path) \<longleftrightarrow>
     (\<exists>rest. url = (if is_secure then ''wss://'' else ''ws://'') @ host @ CHR ''/'' # rest
       \<and> CHR ''/'' \<notin> set host \<and> length host < host_sz \<and> path = take (path_sz - 1) (CHR ''/'' # rest))"
proof -
  consider (s) x where "url = ''wss://'' @ x" | (p) x where "url = ''ws://'' @ x"
    | (n) "take 6 url \<noteq> ''wss://''" "take 5 url \<noteq> ''ws://''" by (metis append_take_drop_id)
  then show ?thesis
  proof cases
    case s
    then show ?thesis by (auto simp: parse_url_def parse_host_path_iff)
  next
    case p
    then show ?thesis by (auto simp: parse_url_def parse_host_path_iff)
  next
    case n
    then show ?thesis by (auto simp: parse_url_def)
  qed
qed

text \<open>Reading and writing neither open nor close descriptors.\<close>

definition io_keeps_fds :: "('t, 'w) net \<Rightarrow> ('w \<Rightarrow> int set) \<Rightarrow> bool" where
  "io_keeps_fds net fds \<longleftrightarrow>
     (\<forall>s k w. fds (fst (net_recv net s k w)) = fds w) \<and> (\<forall>s bs w. fds (fst (net_send net s bs w)) = fds w)
     \<and> (\<forall>t k w. fds (fst (tlsv3_client_read net t k w)) = fds w) \<and> (\<forall>t bs w. fds (fst (tlsv3_client_write net t bs w)) = fds w)
     \<and> (\<forall>w. fds (fst (net_calloc net w)) = fds w)"

lemma io_keeps_fdsD:
  assumes "io_keeps_fds net fds"
  shows "fds (fst (gfns_conn_read net (Some c) k w)) = fds w" "fds (fst (gfns_conn_write net (Some c) bs w)) = fds w"
    "fds (fst (net_calloc net w)) = fds w"
  using assms by (simp_all add: io_keeps_fds_def gfns_conn_read_def gfns_conn_write_def)

lemma handshake_fds:
  assumes "io_keeps_fds net fds"
  shows "fds (fst (ws_send_handshake net ws host path sub w)) = fds w"
proof -
  note D = io_keeps_fdsD [OF assms]
  obtain w1 r where a: "gfns_conn_write net (Some (ws_conn ws)) (map of_char (ws_request host path sub)) w = (w1, r)" by fastforce
  obtain w2 r' where b: "gfns_conn_read net (Some (ws_conn ws)) 512 w1 = (w2, r')" by fastforce
  have "fds w1 = fds w" "fds w2 = fds w1" using D(2) [of "ws_conn ws"] a D(1) [of "ws_conn ws" 512 w1] b by (metis fst_conv)+
  then show ?thesis by (simp add: ws_send_handshake_def a b)
qed

lemma ws_connect_fds:
  assumes "io_keeps_fds net fds"
  shows "fds (fst (gfns_ws_connect net (Some c) (Some host) (Some path) sub w)) = fds w"
proof -
  obtain w1 ok where a: "net_calloc net w = (w1, ok)" by fastforce
  have "fds w1 = fds w" using io_keeps_fdsD(3) [OF assms, of w] a by simp
  moreover obtain w2 r where b: "ws_send_handshake net \<lparr>ws_conn = c, is_client = True, ws_closed = False\<rparr> host path sub w1 = (w2, r)"
    by fastforce
  moreover have "fds w2 = fds w1" using handshake_fds [OF assms] b by (metis fst_conv)
  ultimately show ?thesis using a by (simp add: gfns_ws_connect_def)
qed

text \<open>
  A failed opening handshake loses the socket: when the URL is good and the connection comes up
  but the handshake fails, \<open>gfns_ws_open_url\<close> returns \<open>NULL\<close> while the socket it opened is still
  open, and the caller, who never got the connection, has no means to close it.
\<close>

theorem open_url_leaks:
  assumes "net_fds_ok net fds" "io_keeps_fds net fds" "parse_url url 256 256 = Some (False, host, path)"
    and "gfns_tcp_connect net host 80 w = (w1, Some c)"
    and "snd (gfns_ws_connect net (Some c) (Some host) (Some path) None w1) = None"
  shows "\<exists>w'. gfns_ws_open_url net url w = (w', None) \<and> conn_sock c \<notin> fds w \<and> fds w' = insert (conn_sock c) (fds w)"
proof -
  have "opens_exactly fds w (w1, Some c)" using tcp_connect_opens [OF assms(1), of w host 80] assms(4) by simp
  then have "conn_sock c \<notin> fds w" "fds w1 = insert (conn_sock c) (fds w)" by (simp_all add: opens_exactly_def)
  moreover have "gfns_ws_open_url net url w = gfns_ws_connect net (Some c) (Some host) (Some path) None w1"
    using assms(3,4) by (simp add: gfns_ws_open_url_def)
  ultimately show ?thesis using ws_connect_fds [OF assms(2), of c host path None w1] assms(5)
    by (metis prod.collapse)
qed

section \<open>Examples\<close>

text \<open>A connection whose world is the bytes that arrived and the bytes sent.\<close>

definition pipe_net :: "(unit, byte list \<times> byte list) net" where
  "pipe_net = \<lparr>net_getaddrinfo = (\<lambda>_ _ w. (w, Some 1)), net_socket = (\<lambda>_ w. (w, Some 4)),
     net_connect = (\<lambda>_ _ w. (w, True)), net_close = (\<lambda>s w. w),
     net_recv = (\<lambda>_ k (i, u). ((drop k i, u), Some (take k i))), net_send = (\<lambda>_ bs (i, u). ((i, u @ bs), Some (length bs))),
     net_calloc = (\<lambda>w. (w, True)),
     tlsv3_client_connect = (\<lambda>_ _ w. (w, None)), tlsv3_client_read = (\<lambda>_ _ w. (w, None)),
     tlsv3_client_write = (\<lambda>_ _ w. (w, None)), tlsv3_client_free = (\<lambda>_ w. w)\<rparr>"

definition pipe_conn :: "unit gfns_conn" where
  "pipe_conn = \<lparr>conn_sock = 4, is_tls = False, tls_ctx = None\<rparr>"

definition pipe_ws :: "unit gfns_ws" where
  "pipe_ws = \<lparr>ws_conn = pipe_conn, is_client = True, ws_closed = False\<rparr>"

lemma pipe_link: "link_ok (pipe_net, ws_conn pipe_ws, fst, snd)" "\<not> ws_closed pipe_ws"
  by (auto simp: link_ok_def pipe_net_def pipe_ws_def pipe_conn_def)

theorem ws_messages_arrive_witness:
  "\<exists>w'. ws_send_all pipe_net pipe_ws [(1, [104, 105]), (8, [])] ([], []) = (w', [0, 0])
    \<and> ws_decode_all (snd w') = [\<lparr>fr_fin = True, fr_rsv = 0, fr_opcode = 1, fr_key = [0x12, 0x34, 0x56, 0x78], fr_payload = [104, 105]\<rparr>,
         \<lparr>fr_fin = True, fr_rsv = 0, fr_opcode = 8, fr_key = [0x12, 0x34, 0x56, 0x78], fr_payload = []\<rparr>]"
  using ws_messages_arrive [OF pipe_link, of "[(1, [104, 105]), (8, [])]" "([], [])"] by (simp add: client_frame_def)

theorem ws_recv_unmasked_witness:
  "(\<exists>w'. gfns_ws_recv pipe_net (Some pipe_ws) True 10 ([0x81, 2, 104, 105, 0x89], []) = (w', Some (1, 2, [104, 105])) \<and> fst w' = [0x89])
   \<and> (\<exists>w'. gfns_ws_recv pipe_net (Some pipe_ws) True 1 ([0x81, 2, 104, 105, 0x89], []) = (w', None) \<and> fst w' = [104, 105, 0x89])"
proof -
  let ?f = "\<lparr>fr_fin = True, fr_rsv = 0, fr_opcode = 1, fr_key = [], fr_payload = [104, 105]\<rparr>"
  have d: "ws_decode (fst ([0x81, 2, 104, 105, 0x89 :: byte], [] :: byte list)) = Some (?f, [0x89])"
    by (simp add: ws_decode_def rfc_unmask_def)
  from ws_recv_unmasked [OF pipe_link d, of 10] ws_recv_unmasked [OF pipe_link d, of 1] show ?thesis by simp
qed

theorem ws_recv_masked_garbled_witness:
  "\<exists>w' out. gfns_ws_recv pipe_net (Some pipe_ws) True 10 ([0x81, 0x81, 1, 2, 3, 4, 0x69], []) = (w', Some (1, 1, out)) \<and> out ! 0 \<noteq> 0x68"
proof -
  let ?f = "\<lparr>fr_fin = True, fr_rsv = 0, fr_opcode = 1, fr_key = [1, 2, 3, 4], fr_payload = [0x68]\<rparr>"
  have "ws_decode (fst ([0x81, 0x81, 1, 2, 3, 4, 0x69 :: byte], [] :: byte list)) = Some (?f, [])"
    by (simp add: ws_decode_def rfc_unmask_def)
  from ws_recv_masked_garbled [OF pipe_link this, of 10 0] show ?thesis by simp
qed


theorem open_url_leaks_witness:
  "\<exists>w'. gfns_ws_open_url toy_net ''ws://localhost/'' {0, 1, 2} = (w', None) \<and> w' = {0, 1, 2, 4}"
proof -
  have n: "net_fds_ok toy_net id" by (auto simp: net_fds_ok_def toy_net_def split: option.splits if_splits)
  have i: "io_keeps_fds toy_net id" by (auto simp: io_keeps_fds_def toy_net_def)
  have u: "parse_url ''ws://localhost/'' 256 256 = Some (False, ''localhost'', ''/'')"
    by (simp add: parse_url_def parse_host_path_def)
  have c: "gfns_tcp_connect toy_net ''localhost'' 80 {0, 1, 2} = ({0, 1, 2, 4}, Some pipe_conn)"
    by (auto simp: gfns_tcp_connect_def tcp_connect_raw_def toy_net_def pipe_conn_def)
  have "snd (gfns_ws_connect toy_net (Some pipe_conn) (Some ''localhost'') (Some ''/'') None {0, 1, 2, 4}) = None"
    by (simp add: gfns_ws_connect_def ws_send_handshake_def gfns_conn_read_def gfns_conn_write_def toy_net_def pipe_conn_def
        rd_ret_def to_int_exact Let_def)
  from open_url_leaks [OF n i u c this] show ?thesis by (auto simp: pipe_conn_def)
qed

end
