(* ===== verification/Openssl.thy ===== *)
theory Openssl
  imports Prelude
begin

text \<open>
  OpenSSL as the wrappers call it. Its functions are fields of the record \<open>openssl\<close>, over opaque
  contexts \<open>'x\<close>, connections \<open>'s\<close> and worlds \<open>'w\<close>. A result of 0 or less comes with what
  \<open>SSL_get_error\<close> says of it. \<open>ssl_stream\<close> states the documented behaviour of a connection in good
  order: reads return the next bytes of the stream, writes extend it.
\<close>

datatype ssl_error = SSL_ERROR_WANT_READ | SSL_ERROR_WANT_WRITE | SSL_ERROR_OTHER

datatype 'a ssl_ret = Ret 'a | Err ssl_error

record ('s, 'x, 'w) openssl =
  SSL_CTX_new :: "bool \<Rightarrow> 'w \<Rightarrow> 'w \<times> 'x option"
  SSL_CTX_use_certificate_file :: "'x \<Rightarrow> string \<Rightarrow> 'w \<Rightarrow> 'w \<times> 'x \<times> bool"
  SSL_CTX_use_PrivateKey_file :: "'x \<Rightarrow> string \<Rightarrow> 'w \<Rightarrow> 'w \<times> 'x \<times> bool"
  SSL_CTX_check_private_key :: "'x \<Rightarrow> bool"
  SSL_CTX_free :: "'x \<Rightarrow> 'w \<Rightarrow> 'w"
  SSL_new :: "'x option \<Rightarrow> 'w \<Rightarrow> 'w \<times> 's option"
  SSL_set_fd :: "'s \<Rightarrow> int \<Rightarrow> 's"
  SSL_accept :: "'s \<Rightarrow> 'w \<Rightarrow> 's \<times> 'w \<times> unit ssl_ret"
  SSL_connect :: "'s \<Rightarrow> 'w \<Rightarrow> 's \<times> 'w \<times> unit ssl_ret"
  SSL_read :: "'s \<Rightarrow> nat \<Rightarrow> 'w \<Rightarrow> 's \<times> 'w \<times> byte list ssl_ret"
  SSL_write :: "'s \<Rightarrow> byte list \<Rightarrow> 'w \<Rightarrow> 's \<times> 'w \<times> nat ssl_ret"
  SSL_shutdown :: "'s \<Rightarrow> 'w \<Rightarrow> 's \<times> 'w"
  SSL_free :: "'s \<Rightarrow> 'w \<Rightarrow> 'w"

definition wants_retry :: "ssl_error \<Rightarrow> bool" where
  "wants_retry err \<longleftrightarrow> err = SSL_ERROR_WANT_READ \<or> err = SSL_ERROR_WANT_WRITE"

text \<open>
  \<open>inc\<close> are the decrypted bytes a connection has still to deliver, \<open>out\<close> those it has taken. A read
  returns at least one and at most \<open>n\<close> bytes of \<open>inc\<close>, and asks to retry when there are none; a
  write takes at least one byte.
\<close>

definition ssl_reads :: "('s, 'x, 'w) openssl \<Rightarrow> ('s \<Rightarrow> byte list) \<Rightarrow> bool" where
  "ssl_reads ops inc \<longleftrightarrow> (\<forall>s n w. 0 < n \<longrightarrow>
     (if inc s = [] then \<exists>s' w'. SSL_read ops s n w = (s', w', Err SSL_ERROR_WANT_READ) \<and> inc s' = []
      else \<exists>s' w' k. SSL_read ops s n w = (s', w', Ret (take k (inc s))) \<and> 0 < k \<and> k \<le> n \<and> k \<le> length (inc s)
             \<and> inc s' = drop k (inc s)))"

definition ssl_writes :: "('s, 'x, 'w) openssl \<Rightarrow> ('s \<Rightarrow> byte list) \<Rightarrow> bool" where
  "ssl_writes ops out \<longleftrightarrow> (\<forall>s bs w. bs \<noteq> [] \<longrightarrow> (\<exists>s' w' k. SSL_write ops s bs w = (s', w', Ret k)
     \<and> 0 < k \<and> k \<le> length bs \<and> out s' = out s @ take k bs))"

lemma ssl_readsD:
  assumes "ssl_reads ops inc" "0 < n"
  shows "inc s = [] \<Longrightarrow> \<exists>s' w'. SSL_read ops s n w = (s', w', Err SSL_ERROR_WANT_READ) \<and> inc s' = []"
    "inc s \<noteq> [] \<Longrightarrow> \<exists>s' w' k. SSL_read ops s n w = (s', w', Ret (take k (inc s))) \<and> 0 < k \<and> k \<le> n
       \<and> k \<le> length (inc s) \<and> inc s' = drop k (inc s)"
  using assms(1) [unfolded ssl_reads_def, rule_format, OF assms(2), of s w] by simp_all

lemma ssl_writesD:
  assumes "ssl_writes ops out" "bs \<noteq> []"
  shows "\<exists>s' w' k. SSL_write ops s bs w = (s', w', Ret k) \<and> 0 < k \<and> k \<le> length bs \<and> out s' = out s @ take k bs"
  using assms(1) [unfolded ssl_writes_def, rule_format, OF assms(2)] .

text \<open>
  Without partial-write mode a blocking write takes everything; a read that finds enough bytes may
  still return fewer, \<open>ssl_reads_full\<close> is the case where it does not.
\<close>

definition ssl_writes_all :: "('s, 'x, 'w) openssl \<Rightarrow> ('s \<Rightarrow> byte list) \<Rightarrow> bool" where
  "ssl_writes_all ops out \<longleftrightarrow> (\<forall>s bs w. bs \<noteq> [] \<longrightarrow> (\<exists>s' w'. SSL_write ops s bs w = (s', w', Ret (length bs))
     \<and> out s' = out s @ bs))"

definition ssl_reads_full :: "('s, 'x, 'w) openssl \<Rightarrow> ('s \<Rightarrow> byte list) \<Rightarrow> bool" where
  "ssl_reads_full ops inc \<longleftrightarrow> (\<forall>s n w. 0 < n \<longrightarrow> inc s \<noteq> [] \<longrightarrow>
     (\<exists>s' w'. SSL_read ops s n w = (s', w', Ret (take n (inc s))) \<and> inc s' = drop n (inc s)))"

end
