(* ===== verification/Tls_V2_Server.thy ===== *)
theory Tls_V2_Server
  imports Server_App Json_Frame Os Openssl
begin

text \<open>
  The server of \<open>tls_wrapper_v2.c\<close>: the client table, the JSON framing over OpenSSL connections,
  accepting, the read and write handlers and the select loop. OpenSSL is the argument \<open>ops\<close>. The
  framing fields and the application callbacks are those of \<open>Json_Frame\<close> and \<open>Server_App\<close>; the
  names of the C functions, which \<open>tls_wrapper_v3.c\<close> uses too, carry the prefix \<open>v2_\<close> here.
\<close>

section \<open>Types and globals\<close>

definition V2_MAX_CLIENTS :: nat where "V2_MAX_CLIENTS = 256"

record 's v2_client =
  v2_fd :: int
  v2_ssl :: "'s option"
  v2_state :: client_state
  v2_inb :: inbuf
  v2_outb :: outbuf

record ('s, 'x, 'w, 'a) v2_server =
  v2_clients :: "'s v2_client list"
  v2_cfg :: "'a config"
  v2_ctx :: "'x option"
  v2_listen_fd :: int
  v2_app :: 'a
  v2_sys :: "'w sys"

definition v2_upd :: "nat \<Rightarrow> ('s v2_client \<Rightarrow> 's v2_client) \<Rightarrow> ('s, 'x, 'w, 'a) v2_server \<Rightarrow> ('s, 'x, 'w, 'a) v2_server" where
  "v2_upd i f s = s\<lparr>v2_clients := (v2_clients s)[i := f (v2_clients s ! i)]\<rparr>"

text \<open>The state after a call into OpenSSL on the connection of slot \<open>i\<close>.\<close>

definition v2_put_ssl :: "nat \<Rightarrow> 's \<Rightarrow> 'w \<Rightarrow> ('s, 'x, 'w, 'a) v2_server \<Rightarrow> ('s, 'x, 'w, 'a) v2_server" where
  "v2_put_ssl i ssl w s = v2_upd i (\<lambda>c. c\<lparr>v2_ssl := Some ssl\<rparr>) (s\<lparr>v2_sys := (v2_sys s)\<lparr>world := w\<rparr>\<rparr>)"

definition v2_close_fd :: "'w os \<Rightarrow> int \<Rightarrow> ('s, 'x, 'w, 'a) v2_server \<Rightarrow> ('s, 'x, 'w, 'a) v2_server" where
  "v2_close_fd os d s = s\<lparr>v2_sys := gfns_close_socket os d (v2_sys s)\<rparr>"

section \<open>Sending\<close>

definition v2_json_queue_send :: "'s v2_client \<Rightarrow> byte list \<Rightarrow> 's v2_client \<times> int" where
  "v2_json_queue_send c json =
     (if v2_state c \<noteq> TLSV2_STATE_OPEN then (c, -1)
      else if length json > TLSV2_MAX_JSON_SIZE then (c, -1)
      else let (f, r) = json_put (v2_outb c) json in (c\<lparr>v2_outb := f\<rparr>, r))"

definition v2_matches :: "int \<Rightarrow> 's v2_client \<Rightarrow> bool" where
  "v2_matches client_id c \<longleftrightarrow> v2_state c \<noteq> TLSV2_STATE_UNUSED \<and> v2_fd c = client_id"

definition v2_send_json ::
    "('s, 'x, 'w, 'a) v2_server \<Rightarrow> int \<Rightarrow> byte list \<Rightarrow> ('s, 'x, 'w, 'a) v2_server \<times> int" where
  "v2_send_json s client_id json =
     (if length json > TLSV2_MAX_JSON_SIZE then (s, -1)
      else case first_slot (v2_matches client_id) (v2_clients s) 0 of
             None \<Rightarrow> (s, -1)
           | Some i \<Rightarrow> (let (c, r) = v2_json_queue_send (v2_clients s ! i) json in (v2_upd i (\<lambda>_. c) s, r)))"

primrec v2_run_act :: "'a act \<Rightarrow> ('s, 'x, 'w, 'a) v2_server \<Rightarrow> ('s, 'x, 'w, 'a) v2_server" where
  "v2_run_act (Return a) = (\<lambda>s. s\<lparr>v2_app := a\<rparr>)"
| "v2_run_act (Send client_id json k) = (\<lambda>s. let (s, r) = v2_send_json s client_id json in v2_run_act (k r) s)"

section \<open>The client table\<close>

definition v2_clients_init :: "('s, 'x, 'w, 'a) v2_server \<Rightarrow> ('s, 'x, 'w, 'a) v2_server" where
  "v2_clients_init s = s\<lparr>v2_clients := map (\<lambda>c. c\<lparr>v2_fd := -1, v2_ssl := None, v2_state := TLSV2_STATE_UNUSED,
     v2_inb := (v2_inb c)\<lparr>in_used := 0, expected_len := 0\<rparr>, v2_outb := (v2_outb c)\<lparr>out_used := 0, out_sent := 0\<rparr>\<rparr>)
     (v2_clients s)\<rparr>"

definition v2_client_alloc ::
    "('s, 'x, 'w, 'a) v2_server \<Rightarrow> int \<Rightarrow> 's \<Rightarrow> ('s, 'x, 'w, 'a) v2_server \<times> nat option" where
  "v2_client_alloc s cfd ssl =
     (case first_slot (\<lambda>c. v2_state c = TLSV2_STATE_UNUSED) (v2_clients s) 0 of
        None \<Rightarrow> (s, None)
      | Some i \<Rightarrow> (v2_upd i (\<lambda>c. c\<lparr>v2_fd := cfd, v2_ssl := Some ssl, v2_state := TLSV2_STATE_HANDSHAKE,
          v2_inb := (v2_inb c)\<lparr>in_used := 0, expected_len := 0\<rparr>,
          v2_outb := (v2_outb c)\<lparr>out_used := 0, out_sent := 0\<rparr>\<rparr>) s, Some i))"

definition v2_client_close ::
    "'w os \<Rightarrow> ('s, 'x, 'w) openssl \<Rightarrow> ('s, 'x, 'w, 'a) v2_server \<Rightarrow> nat \<Rightarrow> ('s, 'x, 'w, 'a) v2_server" where
  "v2_client_close os ops s i =
     (let c = v2_clients s ! i
      in if v2_state c = TLSV2_STATE_UNUSED then s
         else let cfd = v2_fd c;
                  s = (case v2_ssl c of
                         None \<Rightarrow> s
                       | Some ssl \<Rightarrow>
                           (let (ssl, w) = SSL_shutdown ops ssl (world (v2_sys s))
                            in s\<lparr>v2_sys := (v2_sys s)\<lparr>world := SSL_free ops ssl w\<rparr>\<rparr>));
                  s = (if cfd \<ge> 0 then v2_close_fd os cfd s else s);
                  s = v2_upd i (\<lambda>c. c\<lparr>v2_fd := -1, v2_ssl := None, v2_state := TLSV2_STATE_UNUSED,
                        v2_inb := (v2_inb c)\<lparr>in_used := 0, expected_len := 0\<rparr>,
                        v2_outb := (v2_outb c)\<lparr>out_used := 0, out_sent := 0\<rparr>\<rparr>) s
              in case on_client_disconnected (v2_cfg s) of
                   None \<Rightarrow> s
                 | Some cb \<Rightarrow> if cfd \<ge> 0 then v2_run_act (cb cfd (v2_app s)) s else s)"

section \<open>JSON framing over a connection\<close>

text \<open>The buffer after \<open>SSL_write\<close> took \<open>n\<close> bytes; \<open>None\<close> stands for a return value of -1.\<close>

definition v2_out_advance :: "outbuf \<Rightarrow> nat \<Rightarrow> outbuf" where
  "v2_out_advance f n =
     (let f = f\<lparr>out_sent := out_sent f + n\<rparr>
      in if out_sent f \<ge> out_used f then f\<lparr>out_used := 0, out_sent := 0\<rparr> else f)"

definition v2_json_flush ::
    "('s, 'x, 'w) openssl \<Rightarrow> nat \<Rightarrow> ('s, 'x, 'w, 'a) v2_server \<Rightarrow> ('s, 'x, 'w, 'a) v2_server \<times> int" where
  "v2_json_flush ops i s =
     (let c = v2_clients s ! i; f = v2_outb c
      in if v2_state c \<noteq> TLSV2_STATE_OPEN then (s, -1)
         else if out_sent f \<ge> out_used f then (s, 0)
         else let (ssl, w, r) = SSL_write ops (the (v2_ssl c)) (take (out_used f - out_sent f) (drop (out_sent f) (out_buf f)))
                    (world (v2_sys s));
                  s = v2_put_ssl i ssl w s
              in case r of
                   Ret n \<Rightarrow> (v2_upd i (\<lambda>c. c\<lparr>v2_outb := v2_out_advance f n\<rparr>) s, 1)
                 | Err err \<Rightarrow> (s, if wants_retry err then 0 else -1))"

definition v2_deliver :: "nat \<Rightarrow> ('s, 'x, 'w, 'a) v2_server \<Rightarrow> byte list \<Rightarrow> ('s, 'x, 'w, 'a) v2_server" where
  "v2_deliver i s json =
     (case on_json_received (v2_cfg s) of
        None \<Rightarrow> s
      | Some cb \<Rightarrow> v2_run_act (cb (v2_fd (v2_clients s ! i)) json (v2_app s)) s)"

text \<open>The inner loop of \<open>tlsv2_json_try_receive\<close>.\<close>

partial_function (option) v2_json_loop ::
    "'w os \<Rightarrow> nat \<Rightarrow> ('s, 'x, 'w, 'a) v2_server \<Rightarrow> (('s, 'x, 'w, 'a) v2_server \<times> int) option" where
  "v2_json_loop os i s =
     (case json_next (v2_inb (v2_clients s ! i)) of
        Wait f \<Rightarrow> Some (v2_upd i (v2_inb_update (\<lambda>_. f)) s, 0)
      | Reject f \<Rightarrow> Some (v2_upd i (v2_inb_update (\<lambda>_. f)) s, -1)
      | Ready f \<Rightarrow>
          (case c_malloc os (unat (expected_len f) + 1) (world (v2_sys s)) of (w, ok) \<Rightarrow>
             let s = s\<lparr>v2_sys := (v2_sys s)\<lparr>world := w\<rparr>\<rparr>
             in if \<not> ok then Some (v2_upd i (v2_inb_update (\<lambda>_. f)) s, -1)
                else case json_take f of (f', json) \<Rightarrow>
                  v2_json_loop os i (v2_deliver i (v2_upd i (v2_inb_update (\<lambda>_. f')) s) json)))"

partial_function (option) v2_receive_loop ::
    "'w os \<Rightarrow> ('s, 'x, 'w) openssl \<Rightarrow> nat \<Rightarrow> ('s, 'x, 'w, 'a) v2_server \<Rightarrow> (('s, 'x, 'w, 'a) v2_server \<times> int) option" where
  "v2_receive_loop os ops i s =
     (case SSL_read ops (the (v2_ssl (v2_clients s ! i)))
             (TLSV2_MAX_JSON_SIZE + 4 - in_used (v2_inb (v2_clients s ! i))) (world (v2_sys s)) of (ssl, w, r) \<Rightarrow>
        let s = v2_put_ssl i ssl w s
        in case r of
             Err err \<Rightarrow> Some (s, if wants_retry err then 0 else -1)
           | Ret bs \<Rightarrow>
               Option.bind (v2_json_loop os i (v2_upd i (\<lambda>c. c\<lparr>v2_inb := json_append (v2_inb c) bs\<rparr>) s)) (\<lambda>(s, r).
                 if r < 0 then Some (s, r) else v2_receive_loop os ops i s))"

definition v2_json_try_receive ::
    "'w os \<Rightarrow> ('s, 'x, 'w) openssl \<Rightarrow> nat \<Rightarrow> ('s, 'x, 'w, 'a) v2_server \<Rightarrow> (('s, 'x, 'w, 'a) v2_server \<times> int) option" where
  "v2_json_try_receive os ops i s =
     (if v2_state (v2_clients s ! i) \<noteq> TLSV2_STATE_OPEN then Some (s, -1) else v2_receive_loop os ops i s)"

section \<open>Server context, listening, accepting\<close>

definition v2_init_server_ctx ::
    "('s, 'x, 'w) openssl \<Rightarrow> ('s, 'x, 'w, 'a) v2_server \<Rightarrow> string \<Rightarrow> string \<Rightarrow> ('s, 'x, 'w, 'a) v2_server \<times> int" where
  "v2_init_server_ctx ops s cert key =
     (let (w, x) = SSL_CTX_new ops True (world (v2_sys s));
          s = s\<lparr>v2_ctx := x, v2_sys := (v2_sys s)\<lparr>world := w\<rparr>\<rparr>
      in case x of
           None \<Rightarrow> (s, -1)
         | Some x \<Rightarrow>
             (let (w, x, ok) = SSL_CTX_use_certificate_file ops x cert w;
                  s = s\<lparr>v2_ctx := Some x, v2_sys := (v2_sys s)\<lparr>world := w\<rparr>\<rparr>
              in if \<not> ok then (s, -1)
                 else let (w, x, ok) = SSL_CTX_use_PrivateKey_file ops x key w;
                          s = s\<lparr>v2_ctx := Some x, v2_sys := (v2_sys s)\<lparr>world := w\<rparr>\<rparr>
                      in if \<not> ok then (s, -1)
                         else if \<not> SSL_CTX_check_private_key ops x then (s, -1) else (s, 0)))"

text \<open>
  \<open>tlsv2_create_listen_socket\<close> and \<open>make_nonblocking\<close> are, statement by statement, the functions
  \<open>gfns_create_listen_socket\<close> and \<open>gfns_set_nonblocking\<close> of \<open>tls_wrapper_v3.c\<close>.
\<close>

definition v2_make_nonblocking :: "'w os \<Rightarrow> int \<Rightarrow> 'w sys \<Rightarrow> 'w sys \<times> int" where
  "v2_make_nonblocking os d y = gfns_set_nonblocking os d y"

definition v2_create_listen_socket :: "'w os \<Rightarrow> int \<Rightarrow> 'w sys \<Rightarrow> 'w sys \<times> int" where
  "v2_create_listen_socket os p y = gfns_create_listen_socket os p y"

partial_function (option) v2_accept_new_client ::
    "'w os \<Rightarrow> ('s, 'x, 'w) openssl \<Rightarrow> ('s, 'x, 'w, 'a) v2_server \<Rightarrow> ('s, 'x, 'w, 'a) v2_server option" where
  "v2_accept_new_client os ops s =
     (case syscall (sys_accept os (v2_listen_fd s)) (v2_sys s) of (y, r) \<Rightarrow>
        let s = s\<lparr>v2_sys := y\<rparr>
        in case r of
             None \<Rightarrow> Some s
           | Some cfd \<Rightarrow>
               (case v2_make_nonblocking os cfd (v2_sys s) of (y, n) \<Rightarrow>
                  let s = s\<lparr>v2_sys := y\<rparr>
                  in if n < 0 then v2_accept_new_client os ops (v2_close_fd os cfd s)
                     else case SSL_new ops (v2_ctx s) (world (v2_sys s)) of (w, ssl) \<Rightarrow>
                       let s = s\<lparr>v2_sys := (v2_sys s)\<lparr>world := w\<rparr>\<rparr>
                       in case ssl of
                            None \<Rightarrow> v2_accept_new_client os ops (v2_close_fd os cfd s)
                          | Some ssl \<Rightarrow>
                              (case v2_client_alloc s cfd (SSL_set_fd ops ssl cfd) of (s, c) \<Rightarrow>
                                 if c = None
                                 then v2_accept_new_client os ops (v2_close_fd os cfd
                                        (s\<lparr>v2_sys := (v2_sys s)\<lparr>world := SSL_free ops (SSL_set_fd ops ssl cfd) (world (v2_sys s))\<rparr>\<rparr>))
                                 else v2_accept_new_client os ops
                                        (case on_client_connected (v2_cfg s) of
                                           None \<Rightarrow> s | Some cb \<Rightarrow> v2_run_act (cb cfd (v2_app s)) s))))"

section \<open>The handlers\<close>

text \<open>Both handlers start with the same code for a client that is still in its handshake.\<close>

definition v2_handshake ::
    "'w os \<Rightarrow> ('s, 'x, 'w) openssl \<Rightarrow> ('s, 'x, 'w, 'a) v2_server \<Rightarrow> nat \<Rightarrow> ('s, 'x, 'w, 'a) v2_server" where
  "v2_handshake os ops s i =
     (let (ssl, w, r) = SSL_accept ops (the (v2_ssl (v2_clients s ! i))) (world (v2_sys s));
          s = v2_put_ssl i ssl w s
      in case r of
           Ret _ \<Rightarrow> v2_upd i (\<lambda>c. c\<lparr>v2_state := TLSV2_STATE_OPEN\<rparr>) s
         | Err err \<Rightarrow> if wants_retry err then s else v2_client_close os ops s i)"

definition v2_handle_client_read ::
    "'w os \<Rightarrow> ('s, 'x, 'w) openssl \<Rightarrow> ('s, 'x, 'w, 'a) v2_server \<Rightarrow> nat \<Rightarrow> ('s, 'x, 'w, 'a) v2_server option" where
  "v2_handle_client_read os ops s i =
     (if v2_state (v2_clients s ! i) = TLSV2_STATE_HANDSHAKE then Some (v2_handshake os ops s i)
      else if v2_state (v2_clients s ! i) = TLSV2_STATE_OPEN
      then Option.bind (v2_json_try_receive os ops i s) (\<lambda>(s, r). Some (if r < 0 then v2_client_close os ops s i else s))
      else Some s)"

definition v2_handle_client_write ::
    "'w os \<Rightarrow> ('s, 'x, 'w) openssl \<Rightarrow> ('s, 'x, 'w, 'a) v2_server \<Rightarrow> nat \<Rightarrow> ('s, 'x, 'w, 'a) v2_server" where
  "v2_handle_client_write os ops s i =
     (if v2_state (v2_clients s ! i) = TLSV2_STATE_HANDSHAKE then v2_handshake os ops s i
      else if v2_state (v2_clients s ! i) = TLSV2_STATE_OPEN
      then (let (s, r) = v2_json_flush ops i s in if r < 0 then v2_client_close os ops s i else s)
      else s)"

section \<open>The server loop\<close>

definition v2_watch_read :: "('s, 'x, 'w, 'a) v2_server \<Rightarrow> int list" where
  "v2_watch_read s = map v2_fd (filter (\<lambda>c. v2_state c \<noteq> TLSV2_STATE_UNUSED) (v2_clients s))"

definition v2_watch_write :: "('s, 'x, 'w, 'a) v2_server \<Rightarrow> int list" where
  "v2_watch_write s = map v2_fd (filter (\<lambda>c. v2_state c = TLSV2_STATE_HANDSHAKE
     \<or> v2_state c = TLSV2_STATE_OPEN \<and> out_used (v2_outb c) > out_sent (v2_outb c)) (v2_clients s))"

fun v2_serve_slots ::
    "'w os \<Rightarrow> ('s, 'x, 'w) openssl \<Rightarrow> int list \<Rightarrow> int list \<Rightarrow> nat list \<Rightarrow> ('s, 'x, 'w, 'a) v2_server
       \<Rightarrow> ('s, 'x, 'w, 'a) v2_server option" where
  "v2_serve_slots os ops rd wr [] s = Some s"
| "v2_serve_slots os ops rd wr (i # is) s =
     (if v2_state (v2_clients s ! i) = TLSV2_STATE_UNUSED then v2_serve_slots os ops rd wr is s
      else Option.bind (if v2_fd (v2_clients s ! i) \<in> set rd then v2_handle_client_read os ops s i else Some s) (\<lambda>s.
        v2_serve_slots os ops rd wr is
          (if v2_state (v2_clients s ! i) \<noteq> TLSV2_STATE_UNUSED \<and> v2_fd (v2_clients s ! i) \<in> set wr
           then v2_handle_client_write os ops s i else s)))"

text \<open>One turn of the loop: \<open>True\<close> when it goes on, \<open>False\<close> when a failed \<open>select\<close> leaves it.\<close>

definition v2_server_turn ::
    "'w os \<Rightarrow> ('s, 'x, 'w) openssl \<Rightarrow> ('s, 'x, 'w, 'a) v2_server \<Rightarrow> (('s, 'x, 'w, 'a) v2_server \<times> bool) option" where
  "v2_server_turn os ops s =
     (case syscall (sys_select os (v2_listen_fd s # v2_watch_read s) (v2_watch_write s)) (v2_sys s) of (y, r) \<Rightarrow>
        let s = s\<lparr>v2_sys := y\<rparr>
        in case r of
             None \<Rightarrow> Some (s, errno y = EINTR)
           | Some (rd, wr) \<Rightarrow>
               Option.bind (if v2_listen_fd s \<in> set rd then v2_accept_new_client os ops s else Some s) (\<lambda>s.
               Option.bind (v2_serve_slots os ops rd wr [0..<V2_MAX_CLIENTS] s) (\<lambda>s. Some (s, True))))"

text \<open>What follows the loop: every client is closed and the context freed.\<close>

definition v2_server_stop ::
    "'w os \<Rightarrow> ('s, 'x, 'w) openssl \<Rightarrow> ('s, 'x, 'w, 'a) v2_server \<Rightarrow> ('s, 'x, 'w, 'a) v2_server" where
  "v2_server_stop os ops s =
     (let s = (v2_close_fd os (v2_listen_fd s) s)\<lparr>v2_listen_fd := -1\<rparr>;
          s = foldl (\<lambda>s i. v2_client_close os ops s i) s [0..<V2_MAX_CLIENTS];
          w = (case v2_ctx s of None \<Rightarrow> world (v2_sys s) | Some x \<Rightarrow> SSL_CTX_free ops x (world (v2_sys s)))
      in s\<lparr>v2_ctx := None, v2_sys := (v2_sys s)\<lparr>world := w\<rparr>\<rparr>)"

definition v2_server_start ::
    "'w os \<Rightarrow> ('s, 'x, 'w) openssl \<Rightarrow> 'a config \<Rightarrow> ('s, 'x, 'w, 'a) v2_server \<Rightarrow> ('s, 'x, 'w, 'a) v2_server \<times> int" where
  "v2_server_start os ops cfg s =
     (case (cert_file cfg, key_file cfg) of
        (Some cert, Some key) \<Rightarrow>
          (let (s, r) = v2_init_server_ctx ops (s\<lparr>v2_cfg := cfg\<rparr>) cert key
           in if r < 0 then (s, -1)
              else let s = v2_clients_init s;
                       (y, l) = v2_create_listen_socket os (port cfg) (v2_sys s);
                       s = s\<lparr>v2_sys := y, v2_listen_fd := l\<rparr>
                   in if l < 0 then (s, -1) else (s, 0))
      | _ \<Rightarrow> (s, -1))"

text \<open>\<open>tlsv2_server_run\<close>: \<open>None\<close> while the loop runs for ever.\<close>

partial_function (option) v2_server_loop ::
    "'w os \<Rightarrow> ('s, 'x, 'w) openssl \<Rightarrow> ('s, 'x, 'w, 'a) v2_server \<Rightarrow> ('s, 'x, 'w, 'a) v2_server option" where
  "v2_server_loop os ops s =
     Option.bind (v2_server_turn os ops s) (\<lambda>(s, go). if go then v2_server_loop os ops s else Some s)"

definition v2_server_run ::
    "'w os \<Rightarrow> ('s, 'x, 'w) openssl \<Rightarrow> 'a config \<Rightarrow> ('s, 'x, 'w, 'a) v2_server
       \<Rightarrow> (('s, 'x, 'w, 'a) v2_server \<times> int) option" where
  "v2_server_run os ops cfg s =
     (let (s, r) = v2_server_start os ops cfg s
      in if r < 0 then Some (s, -1)
         else Option.bind (v2_server_loop os ops s) (\<lambda>s. Some (v2_server_stop os ops s, 0)))"

end
