(* ===== verification/Tls_V2_Server_Props.thy ===== *)
theory Tls_V2_Server_Props
  imports Tls_V2_Server Json_Stream
begin

text \<open>
  The server of \<open>tls_wrapper_v2.c\<close>: the interpretations of the callback and receive-loop contracts
  on it, delivery of every legal stream whatever pieces \<open>SSL_read\<close> returns it in, and delivery of
  the queued replies.
\<close>

section \<open>Slots\<close>

lemma v2_upd_sel [simp]:
  "v2_cfg (v2_upd i f s) = v2_cfg s" "v2_app (v2_upd i f s) = v2_app s" "v2_sys (v2_upd i f s) = v2_sys s"
  "v2_listen_fd (v2_upd i f s) = v2_listen_fd s" "v2_ctx (v2_upd i f s) = v2_ctx s"
  "length (v2_clients (v2_upd i f s)) = length (v2_clients s)"
  by (simp_all add: v2_upd_def)

lemma v2_upd_nth:
  "v2_clients (v2_upd i f s) ! j = (if j = i \<and> i < length (v2_clients s) then f (v2_clients s ! i) else v2_clients s ! j)"
  by (cases "i < length (v2_clients s)") (auto simp: v2_upd_def nth_list_update list_update_beyond)

lemma v2_upd_same [simp]: "i < length (v2_clients s) \<Longrightarrow> v2_clients (v2_upd i f s) ! i = f (v2_clients s ! i)"
  by (simp add: v2_upd_nth)

lemma v2_upd_beyond: "\<not> i < length (v2_clients s) \<Longrightarrow> v2_upd i f s = s"
  by (simp add: v2_upd_def list_update_beyond)

lemma v2_upd_upd [simp]: "v2_upd i f (v2_upd i g s) = v2_upd i (\<lambda>c. f (g c)) s"
  by (cases "i < length (v2_clients s)") (simp_all add: v2_upd_beyond, simp add: v2_upd_def)

lemma v2_upd_fields [simp]:
  "v2_upd i f (s\<lparr>v2_app := a\<rparr>) = (v2_upd i f s)\<lparr>v2_app := a\<rparr>" "v2_upd i f (s\<lparr>v2_sys := y\<rparr>) = (v2_upd i f s)\<lparr>v2_sys := y\<rparr>"
  by (simp_all add: v2_upd_def)

lemma v2_upd_swap:
  assumes "i \<noteq> j \<or> (\<forall>c. f (g c) = g (f c))"
  shows "v2_upd i f (v2_upd j g s) = v2_upd j g (v2_upd i f s)"
proof (cases "i < length (v2_clients s) \<and> j < length (v2_clients s)")
  case True
  with assms show ?thesis by (cases "i = j") (auto simp: v2_upd_def list_update_swap)
qed (auto simp: v2_upd_beyond)

text \<open>Updates of a slot that leave its state, descriptor and out buffer alone, with any change of the system.\<close>

definition v2_rx :: "nat \<Rightarrow> ('s v2_client \<Rightarrow> 's v2_client) \<Rightarrow> 'w sys \<Rightarrow> ('s, 'x, 'w, 'a) v2_server \<Rightarrow> ('s, 'x, 'w, 'a) v2_server" where
  "v2_rx i f y s = (v2_upd i f s)\<lparr>v2_sys := y\<rparr>"

definition rx_only :: "('s v2_client \<Rightarrow> 's v2_client) \<Rightarrow> bool" where
  "rx_only f \<longleftrightarrow> (\<forall>c. v2_state (f c) = v2_state c \<and> v2_fd (f c) = v2_fd c \<and> v2_outb (f c) = v2_outb c
     \<and> (\<forall>g. f (c\<lparr>v2_outb := g\<rparr>) = (f c)\<lparr>v2_outb := g\<rparr>))"

lemma rx_only_upds: "rx_only (v2_inb_update (\<lambda>_. g))" "rx_only (\<lambda>c. c\<lparr>v2_ssl := x, v2_inb := h (v2_inb c)\<rparr>)"
    "rx_only (v2_ssl_update (\<lambda>_. x))"
  by (auto simp: rx_only_def)

lemma v2_queue_rx:
  assumes "rx_only f"
  shows "v2_json_queue_send (f c) json = (f (fst (v2_json_queue_send c json)), snd (v2_json_queue_send c json))"
  using assms by (auto simp: v2_json_queue_send_def rx_only_def Let_def split: prod.splits)

lemma v2_send_json_rx:
  assumes "rx_only f"
  shows "v2_send_json (v2_rx i f y s) client_id json = (v2_rx i f y (fst (v2_send_json s client_id json)), snd (v2_send_json s client_id json))"
proof -
  let ?t = "v2_rx i f y s"
  have "map (v2_matches client_id) (v2_clients ?t) = map (v2_matches client_id) (v2_clients s)"
    using assms by (intro nth_equalityI) (auto simp: v2_rx_def v2_upd_nth v2_matches_def rx_only_def)
  then have fs: "first_slot (v2_matches client_id) (v2_clients ?t) 0 = first_slot (v2_matches client_id) (v2_clients s) 0"
    by (rule first_slot_cong)
  have "v2_upd j (\<lambda>_. fst (v2_json_queue_send (v2_clients ?t ! j) json)) ?t
      = v2_rx i f y (v2_upd j (\<lambda>_. fst (v2_json_queue_send (v2_clients s ! j) json)) s)
    \<and> snd (v2_json_queue_send (v2_clients ?t ! j) json) = snd (v2_json_queue_send (v2_clients s ! j) json)" for j
  proof (cases "j = i \<and> i < length (v2_clients s)")
    case True
    then show ?thesis using v2_queue_rx [OF assms] by (simp add: v2_rx_def v2_upd_def)
  next
    case False
    then have "v2_clients ?t ! j = v2_clients s ! j" by (auto simp: v2_rx_def v2_upd_nth)
    moreover have "j \<noteq> i \<or> \<not> i < length (v2_clients s)" using False by blast
    ultimately show ?thesis by (auto simp: v2_rx_def v2_upd_beyond v2_upd_swap)
  qed
  then show ?thesis
    by (auto simp: v2_send_json_def fs split: option.splits prod.splits) (metis fst_conv snd_conv)+
qed

interpretation v2app: app_runner v2_run_act "\<lambda>a s. s\<lparr>v2_app := a\<rparr>" v2_send_json
  by unfold_locales simp_all

lemma v2_run_act_rx: "rx_only f \<Longrightarrow> v2_run_act a (v2_rx i f y s) = v2_rx i f y (v2_run_act a s)"
  by (rule v2app.run_commute) (simp add: v2_send_json_rx, simp add: v2_rx_def)

text \<open>What a callback leaves alone.\<close>

definition v2_same :: "('s, 'x, 'w, 'a) v2_server \<Rightarrow> ('s, 'x, 'w, 'a) v2_server \<Rightarrow> bool" where
  "v2_same s t \<longleftrightarrow> v2_sys t = v2_sys s \<and> v2_cfg t = v2_cfg s \<and> v2_ctx t = v2_ctx s \<and> v2_listen_fd t = v2_listen_fd s
     \<and> length (v2_clients t) = length (v2_clients s)
     \<and> (\<forall>j. v2_fd (v2_clients t ! j) = v2_fd (v2_clients s ! j) \<and> v2_ssl (v2_clients t ! j) = v2_ssl (v2_clients s ! j)
          \<and> v2_state (v2_clients t ! j) = v2_state (v2_clients s ! j) \<and> v2_inb (v2_clients t ! j) = v2_inb (v2_clients s ! j))"

lemma v2_queue_same:
  "v2_json_queue_send c json = (d, r) \<Longrightarrow> v2_fd d = v2_fd c \<and> v2_ssl d = v2_ssl c \<and> v2_state d = v2_state c \<and> v2_inb d = v2_inb c"
  by (auto simp: v2_json_queue_send_def split: if_splits prod.splits)

lemma v2_send_same: "v2_send_json s client_id json = (t, r) \<Longrightarrow> v2_same s t"
  using v2_queue_same
  by (fastforce simp: v2_send_json_def v2_same_def v2_upd_nth split: if_splits option.splits prod.splits)

lemma v2_run_act_same: "v2_same s (v2_run_act a s)"
  by (rule v2app.run_rel) (auto dest: v2_send_same simp: v2_same_def)

lemma v2_deliver_same: "v2_same s (v2_deliver i s json)"
  by (auto simp: v2_deliver_def v2_run_act_same split: option.splits) (simp add: v2_same_def)

lemma v2_deliver_length [simp]: "length (v2_clients (v2_deliver i s json)) = length (v2_clients s)"
  using v2_deliver_same [of s i json] by (simp add: v2_same_def)

lemma v2_deliver_all_length [simp]: "length (v2_clients (foldl (v2_deliver i) s ms)) = length (v2_clients s)"
  by (induction ms arbitrary: s) simp_all

lemma v2_deliver_rx:
  assumes "rx_only f"
  shows "v2_deliver i (v2_rx i f y s) json = v2_rx i f y (v2_deliver i s json)"
proof -
  have "v2_cfg (v2_rx i f y s) = v2_cfg s" "v2_app (v2_rx i f y s) = v2_app s"
    "v2_fd (v2_clients (v2_rx i f y s) ! i) = v2_fd (v2_clients s ! i)"
    using assms by (simp_all add: v2_rx_def v2_upd_nth rx_only_def)
  then show ?thesis by (simp add: v2_deliver_def v2_run_act_rx [OF assms] split: option.splits)
qed

lemma v2_rx_sys: "v2_upd i f s = v2_rx i f (v2_sys s) s"
  by (simp add: v2_rx_def)

lemma v2_deliver_inb:
  "v2_deliver i (v2_upd i (v2_inb_update (\<lambda>_. f)) s) json = v2_upd i (v2_inb_update (\<lambda>_. f)) (v2_deliver i s json)"
proof -
  have "v2_sys (v2_deliver i s json) = v2_sys s" using v2_deliver_same [of s i json] by (simp add: v2_same_def)
  then show ?thesis unfolding v2_rx_sys using v2_deliver_rx [OF rx_only_upds(1)] by simp
qed

section \<open>Receiving\<close>

definition v2_malloc_ok :: "'w os \<Rightarrow> bool" where
  "v2_malloc_ok os \<longleftrightarrow> (\<forall>n w. c_malloc os n w = (w, True))"

interpretation v2: json_receiver "\<lambda>s :: ('s, 'x, 'w, 'a) v2_server. v2_inb (v2_clients s ! i)"
    "\<lambda>f. v2_upd i (v2_inb_update (\<lambda>_. f))" "v2_deliver i" "v2_json_loop os i"
    "\<lambda>s. v2_malloc_ok os \<and> i < length (v2_clients s)" for os :: "'w os" and i
proof unfold_locales
  fix s :: "('s, 'x, 'w, 'a) v2_server" and f m
  assume v: "v2_malloc_ok os \<and> i < length (v2_clients s)"
  then show "v2_inb (v2_clients (v2_upd i (v2_inb_update (\<lambda>_. f)) s) ! i) = f"
    "v2_malloc_ok os \<and> i < length (v2_clients (v2_upd i (v2_inb_update (\<lambda>_. f)) s))" by simp_all
  show "v2_upd i (v2_inb_update (\<lambda>_. v2_inb (v2_clients s ! i))) s = s" by (simp add: v2_upd_def)
  show "v2_inb (v2_clients (v2_deliver i s m) ! i) = v2_inb (v2_clients s ! i)"
    "v2_malloc_ok os \<and> i < length (v2_clients (v2_deliver i s m))"
    using v2_deliver_same [of s i m] v by (simp_all add: v2_same_def)
  show "v2_upd i (v2_inb_update (\<lambda>_. f)) (v2_deliver i s m) = v2_deliver i (v2_upd i (v2_inb_update (\<lambda>_. f)) s) m"
    by (simp add: v2_deliver_inb)
  show "v2_json_loop os i s = (case json_next (v2_inb (v2_clients s ! i)) of
        Wait f \<Rightarrow> Some (v2_upd i (v2_inb_update (\<lambda>_. f)) s, 0)
      | Reject f \<Rightarrow> Some (v2_upd i (v2_inb_update (\<lambda>_. f)) s, -1)
      | Ready f \<Rightarrow> (let (f', json) = json_take f in
          v2_json_loop os i (v2_deliver i (v2_upd i (v2_inb_update (\<lambda>_. f')) s) json)))"
    using v by (subst v2_json_loop.simps) (simp add: v2_malloc_ok_def split: json_step.splits prod.splits)
qed simp

text \<open>The receive side of a slot replaced as a whole.\<close>

definition v2_set_rx :: "nat \<Rightarrow> 's \<Rightarrow> inbuf \<Rightarrow> 'w sys \<Rightarrow> ('s, 'x, 'w, 'a) v2_server \<Rightarrow> ('s, 'x, 'w, 'a) v2_server" where
  "v2_set_rx i ssl f y = v2_rx i (\<lambda>c. c\<lparr>v2_ssl := Some ssl, v2_inb := f\<rparr>) y"

lemma v2_set_rx_set [simp]: "v2_set_rx i ssl f y (v2_set_rx i ssl' f' y' s) = v2_set_rx i ssl f y s"
  by (simp add: v2_set_rx_def v2_rx_def)

lemma v2_upd_set_rx [simp]: "v2_upd i (v2_inb_update (\<lambda>_. f)) (v2_set_rx i ssl g y s) = v2_set_rx i ssl f y s"
  by (simp add: v2_set_rx_def v2_rx_def)

lemma v2_set_rx_nth [simp]:
  assumes "i < length (v2_clients s)"
  shows "v2_ssl (v2_clients (v2_set_rx i ssl f y s) ! i) = Some ssl" "v2_inb (v2_clients (v2_set_rx i ssl f y s) ! i) = f"
  using assms by (simp_all add: v2_set_rx_def v2_rx_def)

lemma v2_set_rx_sel [simp]: "length (v2_clients (v2_set_rx i ssl f y s)) = length (v2_clients s)" "v2_sys (v2_set_rx i ssl f y s) = y"
  by (simp_all add: v2_set_rx_def v2_rx_def)

lemma v2_deliver_set_rx: "v2_deliver i (v2_set_rx i ssl f y s) m = v2_set_rx i ssl f y (v2_deliver i s m)"
  using v2_deliver_rx [OF rx_only_upds(2) [where x = "Some ssl" and h = "\<lambda>_. f"]] by (simp add: v2_set_rx_def)

lemma v2_foldl_set_rx: "foldl (v2_deliver i) (v2_set_rx i ssl f y s) ms = v2_set_rx i ssl f y (foldl (v2_deliver i) s ms)"
  by (induction ms arbitrary: s) (simp_all add: v2_deliver_set_rx)

lemma v2_put_ssl_rx: "v2_put_ssl i ssl w s = v2_set_rx i ssl (v2_inb (v2_clients s ! i)) ((v2_sys s)\<lparr>world := w\<rparr>) s"
proof -
  have "c\<lparr>v2_ssl := Some ssl\<rparr> = c\<lparr>v2_ssl := Some ssl, v2_inb := v2_inb c\<rparr>" for c :: "'a v2_client" by (cases c) simp
  then show ?thesis by (simp add: v2_put_ssl_def v2_set_rx_def v2_rx_def v2_upd_def)
qed

lemma v2_put_append_rx:
  assumes "i < length (v2_clients s)"
  shows "v2_upd i (\<lambda>c. c\<lparr>v2_inb := json_append (v2_inb c) bs\<rparr>) (v2_put_ssl i ssl w s)
    = v2_set_rx i ssl (json_append (v2_inb (v2_clients s ! i)) bs) ((v2_sys s)\<lparr>world := w\<rparr>) s"
  using assms by (simp add: v2_put_ssl_def v2_set_rx_def v2_rx_def v2_upd_def)

lemma v2_receive_stream:
  assumes "v2_malloc_ok os" "ssl_reads ops inc"
    and "\<forall>m \<in> set ms. length m \<le> TLSV2_MAX_JSON_SIZE" "length (wedged ms) < TLSV2_MAX_JSON_SIZE + 4" "i < length (v2_clients s)"
    and "v2_ssl (v2_clients s ! i) = Some ssl" "inbuf_ok (v2_inb (v2_clients s ! i))"
    and "stuck (pending (v2_inb (v2_clients s ! i)))"
    and "pending (v2_inb (v2_clients s ! i)) @ inc ssl = concat (map json_frame ms)"
  shows "\<exists>ssl' f y. v2_receive_loop os ops i s = Some (v2_set_rx i ssl' f y (foldl (v2_deliver i) s (live ms)), 0)
    \<and> pending f = wedged ms \<and> inbuf_ok f \<and> inc ssl' = []"
  using assms(3-9)
proof (induction "length (inc ssl)" arbitrary: s ssl ms rule: less_induct)
  case less
  let ?f = "v2_inb (v2_clients s ! i)"
  let ?n = "TLSV2_MAX_JSON_SIZE + 4 - in_used ?f"
  have "length (pending ?f) \<le> TLSV2_MAX_JSON_SIZE + 3"
    using frames_prefix_any [OF less.prems(1), of "pending ?f" "inc ssl"] less.prems(2,6,7) by auto
  then have n: "0 < ?n" using less.prems(5) by simp
  show ?case
  proof (cases "inc ssl = []")
    case True
    then have "frames (pending ?f) = (live ms, wedged ms)" using frames_any [OF less.prems(1)] less.prems(7) by simp
    then have e: "live ms = []" "pending ?f = wedged ms" using less.prems(6) by simp_all
    obtain ssl' w' where "SSL_read ops ssl ?n (world (v2_sys s)) = (ssl', w', Err SSL_ERROR_WANT_READ)" "inc ssl' = []"
      using ssl_readsD(1) [OF assms(2) n True] by blast
    with less.prems e show ?thesis
      by (subst v2_receive_loop.simps) (auto simp: wants_retry_def v2_put_ssl_rx)
  next
    case False
    obtain ssl' w' l where rd: "SSL_read ops ssl ?n (world (v2_sys s)) = (ssl', w', Ret (take l (inc ssl)))"
        "0 < l" "l \<le> ?n" "l \<le> length (inc ssl)" "inc ssl' = drop l (inc ssl)"
      using ssl_readsD(2) [OF assms(2) n False] by blast
    define d where "d = pending ?f @ take l (inc ssl)"
    define y where "y = (v2_sys s)\<lparr>world := w'\<rparr>"
    define s2 where "s2 = v2_set_rx i ssl' (json_append ?f (take l (inc ssl))) y s"
    have fits: "in_used ?f + length (take l (inc ssl)) \<le> TLSV2_MAX_JSON_SIZE + 4" using rd(3,4) n by simp
    note a = json_append_pending [OF less.prems(5) fits]
    obtain j q where j0: "frames d = (take j (live ms), q)" "\<not> bad_header q" "j \<le> length (live ms)"
      using frames_prefix_any [OF less.prems(1), of d "drop l (inc ssl)"] less.prems(7) by (auto simp: d_def)
    have j: "frames d = (take j ms, q)" "\<not> bad_header q" using j0 take_live [of j ms] by (simp_all add: min_absorb1)
    obtain f2 where f2: "v2_json_loop os i s2 = Some (v2_upd i (v2_inb_update (\<lambda>_. f2)) (foldl (v2_deliver i) s2 (take j ms)), 0)"
        "pending f2 = q" "inbuf_ok f2"
      using v2.loop_frames [of os i s2] assms(1) less.prems(3) a j by (auto simp: s2_def d_def)
    define s3 where "s3 = v2_set_rx i ssl' f2 y (foldl (v2_deliver i) s (take j ms))"
    have "v2_json_loop os i s2 = Some (s3, 0)" using f2(1) by (simp add: s2_def s3_def v2_foldl_set_rx)
    then have step: "v2_receive_loop os ops i s = v2_receive_loop os ops i s3"
      using less.prems(3,4) rd(1) v2_put_append_rx [OF less.prems(3)]
      by (subst v2_receive_loop.simps) (simp add: s2_def y_def)
    have "pending f2 @ inc ssl' = concat (map json_frame (drop j ms))"
    proof -
      have "concat (map json_frame (take j ms)) @ q @ inc ssl' = concat (map json_frame ms)"
        using frames_decompose [of d] j(1) less.prems(7) rd(5) by (simp add: d_def) (metis append.assoc append_take_drop_id)
      also have "\<dots> = concat (map json_frame (take j ms)) @ concat (map json_frame (drop j ms))"
        by (metis append_take_drop_id concat_append map_append)
      finally show ?thesis by (simp add: f2(2))
    qed
    moreover have "stuck (pending f2)" using frames_residue_stuck [of d] j(1) f2(2) by simp
    moreover have l: "live (drop j ms) = drop j (live ms)" "wedged (drop j ms) = wedged ms" using live_drop [OF j0(3)] by simp_all
    moreover have "\<forall>m \<in> set (drop j ms). length m \<le> TLSV2_MAX_JSON_SIZE" using less.prems(1) by (auto dest: in_set_dropD)
    moreover have "length (inc ssl') < length (inc ssl)" using rd(2,4,5) by simp
    ultimately obtain ssl'' f y' where "v2_receive_loop os ops i s3 = Some (v2_set_rx i ssl'' f y' (foldl (v2_deliver i) s3 (drop j (live ms))), 0)"
        "pending f = wedged ms \<and> inbuf_ok f \<and> inc ssl'' = []"
      using less.hyps [of ssl' "drop j ms" s3] f2(3) less.prems(2,3) by (auto simp: s3_def)
    moreover have "foldl (v2_deliver i) s (live ms) = foldl (v2_deliver i) (foldl (v2_deliver i) s (take j ms)) (drop j (live ms))"
      using j0(1) j(1) by (metis Pair_inject append_take_drop_id foldl_append)
    ultimately show ?thesis using step by (auto simp: s3_def v2_foldl_set_rx)
  qed
qed

text \<open>
  C37. The v2 server delivers every legal stream: when messages, none empty and none over the limit,
  arrive on an open client's connection, then one call of \<open>tlsv2_json_try_receive\<close> ends, returns 0
  and hands the application exactly these messages in order, whatever pieces \<open>SSL_read\<close> returns.
  Reads are limited to the free part of the buffer, so that, unlike in the v3 server, messages of the
  maximum length need no care.
\<close>

theorem v2_stream_delivered:
  assumes "v2_malloc_ok os" "ssl_reads ops inc" "\<forall>m \<in> set ms. json_ok m" "i < length (v2_clients s)"
    and "v2_state (v2_clients s ! i) = TLSV2_STATE_OPEN" "v2_ssl (v2_clients s ! i) = Some ssl"
    and "inbuf_ok (v2_inb (v2_clients s ! i))" "pending (v2_inb (v2_clients s ! i)) = []" "inc ssl = concat (map json_frame ms)"
  shows "\<exists>ssl' f y. v2_json_try_receive os ops i s
      = Some ((v2_upd i (\<lambda>c. c\<lparr>v2_ssl := Some ssl', v2_inb := f\<rparr>) (foldl (v2_deliver i) s ms))\<lparr>v2_sys := y\<rparr>, 0)
    \<and> pending f = [] \<and> inc ssl' = []"
proof -
  have "live ms = ms \<and> wedged ms = []" "\<forall>m \<in> set ms. length m \<le> TLSV2_MAX_JSON_SIZE"
    using live_all [of ms] assms(3) by (auto simp: json_ok_def)
  with v2_receive_stream [OF assms(1,2) _ _ assms(4,6,7), of ms] assms(5,8,9) show ?thesis
    by (auto simp: v2_json_try_receive_def v2_set_rx_def v2_rx_def stuck_def)
qed

section \<open>Sending\<close>




section \<open>Examples\<close>

text \<open>An OpenSSL whose connection is the bytes to deliver, three at a time, and the bytes taken, two at a time.\<close>

definition mem_ssl :: "(byte list \<times> byte list, unit, unit) openssl" where
  "mem_ssl = \<lparr>SSL_CTX_new = (\<lambda>_ w. (w, Some ())), SSL_CTX_use_certificate_file = (\<lambda>x _ w. (w, x, True)),
     SSL_CTX_use_PrivateKey_file = (\<lambda>x _ w. (w, x, True)), SSL_CTX_check_private_key = (\<lambda>_. True),
     SSL_CTX_free = (\<lambda>_ w. w), SSL_new = (\<lambda>_ w. (w, Some ([], []))), SSL_set_fd = (\<lambda>s _. s),
     SSL_accept = (\<lambda>s w. (s, w, Ret ())), SSL_connect = (\<lambda>s w. (s, w, Ret ())),
     SSL_read = (\<lambda>(i, u) n w. if i = [] then ((i, u), w, Err SSL_ERROR_WANT_READ)
        else ((drop (min n 3) i, u), w, Ret (take (min n 3) i))),
     SSL_write = (\<lambda>(i, u) bs w. ((i, u @ take 2 bs), w, Ret (length (take 2 bs)))),
     SSL_shutdown = (\<lambda>s w. (s, w)), SSL_free = (\<lambda>_ w. w)\<rparr>"

lemma mem_ssl_ok: "ssl_reads mem_ssl fst" "ssl_writes mem_ssl snd"
proof -
  show "ssl_reads mem_ssl fst" unfolding ssl_reads_def
  proof (intro allI impI)
    fix s :: "byte list \<times> byte list" and n :: nat and w :: unit
    assume n: "0 < n"
    obtain i u where s: "s = (i, u)" by fastforce
    show "if fst s = [] then \<exists>s' w'. SSL_read mem_ssl s n w = (s', w', Err SSL_ERROR_WANT_READ) \<and> fst s' = []
      else \<exists>s' w' k. SSL_read mem_ssl s n w = (s', w', Ret (take k (fst s))) \<and> 0 < k \<and> k \<le> n \<and> k \<le> length (fst s)
             \<and> fst s' = drop k (fst s)"
    proof (cases "i = []")
      case False
      then show ?thesis using n
        by (simp add: s mem_ssl_def) (rule exI [of _ "min (min n 3) (length i)"], auto simp: min_def)
    qed (simp add: s mem_ssl_def)
  qed
  show "ssl_writes mem_ssl snd"
    by (auto simp: ssl_writes_def mem_ssl_def min_def split: prod.splits)
qed

definition v2_demo_os :: "unit os" where
  "v2_demo_os = \<lparr>sys_socket = (\<lambda>w. (w, Done 3)), sys_setsockopt = (\<lambda>_ w. (w, Done ())), sys_bind = (\<lambda>_ _ w. (w, Done ())),
     sys_listen = (\<lambda>_ _ w. (w, Done ())), sys_accept = (\<lambda>_ w. (w, Fail EAGAIN)), sys_connect = (\<lambda>_ _ _ w. (w, Done ())),
     sys_getfl = (\<lambda>_ w. (w, Done 0)), sys_setfl = (\<lambda>_ _ w. (w, Done ())), sys_read = (\<lambda>_ _ w. (w, Done [])),
     sys_write = (\<lambda>_ bs w. (w, Done (length bs))), sys_close = (\<lambda>_ w. w), sys_select = (\<lambda>r x w. (w, Done (r, x))),
     inet_pton = (\<lambda>_. Some 0), c_malloc = (\<lambda>_ w. (w, True)), c_fopen = (\<lambda>_ w. (w, None)),
     c_fseek_end = (\<lambda>_ w. (w, True)), c_ftell = (\<lambda>_ w. (w, 0)), c_fseek_set = (\<lambda>_ w. (w, True)),
     c_fread = (\<lambda>_ _ w. (w, [])), c_fclose = (\<lambda>_ w. w)\<rparr>"

definition v2_demo :: "byte list \<Rightarrow> outbuf \<Rightarrow> (byte list \<times> byte list, unit, unit, byte list list) v2_server" where
  "v2_demo arriving f =
     \<lparr>v2_clients = [\<lparr>v2_fd = 5, v2_ssl = Some (arriving, []), v2_state = TLSV2_STATE_OPEN,
        v2_inb = \<lparr>in_buf = replicate 65540 0, in_used = 0, expected_len = 0\<rparr>, v2_outb = f\<rparr>],
      v2_cfg = \<lparr>port = 443, cert_file = None, key_file = None, on_client_connected = None, on_client_disconnected = None,
        on_json_received = Some (\<lambda>_ json ms. Return (ms @ [json]))\<rparr>,
      v2_ctx = Some (), v2_listen_fd = 3, v2_app = [], v2_sys = \<lparr>world = (), errno = 0\<rparr>\<rparr>"

theorem v2_stream_delivered_witness:
  "\<exists>t. v2_json_try_receive v2_demo_os mem_ssl 0 (v2_demo (json_frame [123, 125] @ json_frame [48]) \<lparr>out_buf = [], out_used = 0, out_sent = 0\<rparr>)
      = Some (t, 0) \<and> v2_app t = [[123, 125], [48]]"
proof -
  let ?s = "v2_demo (json_frame [123, 125] @ json_frame [48]) \<lparr>out_buf = [], out_used = 0, out_sent = 0\<rparr>"
  have m: "v2_malloc_ok v2_demo_os" by (simp add: v2_malloc_ok_def v2_demo_os_def)
  have j: "\<forall>m \<in> set [[123, 125], [48 :: byte]]. json_ok m" by (simp add: json_ok_def TLSV2_MAX_JSON_SIZE_def)
  have s: "0 < length (v2_clients ?s)" "v2_state (v2_clients ?s ! 0) = TLSV2_STATE_OPEN"
    "v2_ssl (v2_clients ?s ! 0) = Some (json_frame [123, 125] @ json_frame [48], [])"
    "inbuf_ok (v2_inb (v2_clients ?s ! 0))" "pending (v2_inb (v2_clients ?s ! 0)) = []"
    "fst (json_frame [123, 125] @ json_frame [48], [] :: byte list) = concat (map json_frame [[123, 125], [48]])"
    by (simp_all add: v2_demo_def inbuf_ok_def pending_def TLSV2_MAX_JSON_SIZE_def)
  have a: "v2_app (foldl (v2_deliver 0) ?s [[123, 125], [48]]) = [[123, 125], [48]]"
    by (simp add: v2_deliver_def v2_demo_def)
  from v2_stream_delivered [OF m mem_ssl_ok(1) j s] obtain ssl' f y where
    "v2_json_try_receive v2_demo_os mem_ssl 0 ?s
      = Some ((v2_upd 0 (\<lambda>c. c\<lparr>v2_ssl := Some ssl', v2_inb := f\<rparr>) (foldl (v2_deliver 0) ?s [[123, 125], [48]]))\<lparr>v2_sys := y\<rparr>, 0)"
    by blast
  then show ?thesis using a by (simp del: foldl_Cons)
qed


end
