(* ===== verification/Tls_V2_Client.thy ===== *)
theory Tls_V2_Client
  imports Json_Frame Os Openssl Registry
begin

text \<open>
  The blocking OpenSSL client of \<open>tls_wrapper_v2.c\<close> (its first half; the BearSSL client that follows
  in the same file defines every name a second time and cannot be compiled with it). The connection
  table is the one of \<open>Registry\<close>. Passing a null \<open>SSL\<close> pointer to OpenSSL is undefined behaviour and
  is the value \<open>None\<close> here.
\<close>

section \<open>Types and operations\<close>

record 's v2_conn =
  v2c_sock :: int
  v2c_ssl :: 's

record ('s, 'x, 'w) v2_conns =
  v2c_conns :: "'s v2_conn option list"
  v2c_ctx :: "'x option"
  v2c_sys :: "'w sys"

definition v2_register_client_conn :: "('s, 'x, 'w) v2_conns \<Rightarrow> 's v2_conn \<Rightarrow> ('s, 'x, 'w) v2_conns" where
  "v2_register_client_conn g c = g\<lparr>v2c_conns := reg_register (v2c_conns g) c\<rparr>"

definition v2_lookup_client_conn :: "('s, 'x, 'w) v2_conns \<Rightarrow> int \<Rightarrow> 's v2_conn option" where
  "v2_lookup_client_conn g s = reg_lookup v2c_sock (v2c_conns g) s"

definition v2_unregister_client_conn :: "('s, 'x, 'w) v2_conns \<Rightarrow> int \<Rightarrow> ('s, 'x, 'w) v2_conns" where
  "v2_unregister_client_conn g s = g\<lparr>v2c_conns := reg_unregister v2c_sock (v2c_conns g) s\<rparr>"

text \<open>The state after a call into OpenSSL on a connection of the table.\<close>

definition v2_put_conn :: "('s, 'x, 'w) v2_conns \<Rightarrow> 's v2_conn \<Rightarrow> 's \<Rightarrow> 'w \<Rightarrow> ('s, 'x, 'w) v2_conns" where
  "v2_put_conn g c ssl w = g\<lparr>v2c_conns := reg_update v2c_sock (v2c_conns g) (v2c_sock c) (c\<lparr>v2c_ssl := ssl\<rparr>),
     v2c_sys := (v2c_sys g)\<lparr>world := w\<rparr>\<rparr>"

definition v2_client_init :: "('s, 'x, 'w) openssl \<Rightarrow> ('s, 'x, 'w) v2_conns \<Rightarrow> ('s, 'x, 'w) v2_conns \<times> int" where
  "v2_client_init ops g =
     (let (w, x) = SSL_CTX_new ops False (world (v2c_sys g))
      in (g\<lparr>v2c_ctx := x, v2c_sys := (v2c_sys g)\<lparr>world := w\<rparr>\<rparr>, if x \<noteq> None then 0 else -1))"

text \<open>The result of \<open>inet_pton\<close> is not looked at: a bad address leaves the zeroed one.\<close>

definition v2_client_connect ::
    "'w os \<Rightarrow> ('s, 'x, 'w) openssl \<Rightarrow> ('s, 'x, 'w) v2_conns \<Rightarrow> string \<Rightarrow> int \<Rightarrow> (('s, 'x, 'w) v2_conns \<times> int) option" where
  "v2_client_connect os ops g host p =
     (let (w, ok) = c_malloc os 16 (world (v2c_sys g));
          g = g\<lparr>v2c_sys := (v2c_sys g)\<lparr>world := w\<rparr>\<rparr>
      in if \<not> ok then Some (g, -1)
         else let (y, r) = syscall (sys_socket os) (v2c_sys g);
                  g = g\<lparr>v2c_sys := y\<rparr>
              in case r of
                   None \<Rightarrow> Some (g, -1)
                 | Some sock \<Rightarrow>
                     (let addr = (case inet_pton os host of Some a \<Rightarrow> a | None \<Rightarrow> 0);
                          (y, r) = syscall (sys_connect os sock addr (nat (p mod 2 ^ 16))) (v2c_sys g);
                          g = g\<lparr>v2c_sys := y\<rparr>
                      in if r = None then Some (g\<lparr>v2c_sys := gfns_close_socket os sock (v2c_sys g)\<rparr>, -2)
                         else let (w, ssl) = SSL_new ops (v2c_ctx g) (world (v2c_sys g))
                              in case ssl of
                                   None \<Rightarrow> None
                                 | Some ssl \<Rightarrow>
                                     (let (ssl, w, r) = SSL_connect ops (SSL_set_fd ops ssl sock) w;
                                          g = g\<lparr>v2c_sys := (v2c_sys g)\<lparr>world := w\<rparr>\<rparr>
                                      in case r of
                                           Err _ \<Rightarrow>
                                             Some (g\<lparr>v2c_sys := gfns_close_socket os sock ((v2c_sys g)\<lparr>world := SSL_free ops ssl w\<rparr>)\<rparr>, -3)
                                         | Ret _ \<Rightarrow>
                                             Some (v2_register_client_conn g \<lparr>v2c_sock = sock, v2c_ssl = ssl\<rparr>, sock))))"

text \<open>The loop of \<open>tlsv2_client_send_json\<close>: the bytes left to write; \<open>False\<close> is the return value -4.\<close>

partial_function (option) v2_write_loop ::
    "('s, 'x, 'w) openssl \<Rightarrow> 's \<Rightarrow> 'w \<Rightarrow> byte list \<Rightarrow> ('s \<times> 'w \<times> bool) option" where
  "v2_write_loop ops ssl w bs =
     (if bs = [] then Some (ssl, w, True)
      else case SSL_write ops ssl bs w of (ssl, w, r) \<Rightarrow>
        (case r of Err _ \<Rightarrow> Some (ssl, w, False) | Ret n \<Rightarrow> v2_write_loop ops ssl w (drop n bs)))"

definition v2_client_send_json ::
    "('s, 'x, 'w) openssl \<Rightarrow> ('s, 'x, 'w) v2_conns \<Rightarrow> int \<Rightarrow> byte list \<Rightarrow> (('s, 'x, 'w) v2_conns \<times> int) option" where
  "v2_client_send_json ops g sock json =
     (case v2_lookup_client_conn g sock of
        None \<Rightarrow> Some (g, -1)
      | Some c \<Rightarrow>
          if length json > TLSV2_MAX_JSON_SIZE then Some (g, -2)
          else case SSL_write ops (v2c_ssl c) (htonl_bytes (of_nat (length json))) (world (v2c_sys g)) of (ssl, w, r) \<Rightarrow>
            (case r of
               Err _ \<Rightarrow> Some (v2_put_conn g c ssl w, -3)
             | Ret _ \<Rightarrow> Option.bind (v2_write_loop ops ssl w json) (\<lambda>(ssl, w, ok).
                 Some (v2_put_conn g c ssl w, if ok then 0 else -4))))"

text \<open>
  The loop of \<open>tlsv2_client_recv_json\<close>. A length that the cast to \<open>int\<close> makes negative is refused by
  \<open>SSL_read\<close>.
\<close>

partial_function (option) v2_read_loop ::
    "('s, 'x, 'w) openssl \<Rightarrow> 's \<Rightarrow> 'w \<Rightarrow> nat \<Rightarrow> byte list \<Rightarrow> ('s \<times> 'w \<times> byte list \<times> bool) option" where
  "v2_read_loop ops ssl w nlen got =
     (if length got < nlen
      then if nlen - length got \<ge> 2 ^ 31 then Some (ssl, w, got, False)
      else case SSL_read ops ssl (nlen - length got) w of (ssl, w, r) \<Rightarrow>
        (case r of Err _ \<Rightarrow> Some (ssl, w, got, False) | Ret bs \<Rightarrow> v2_read_loop ops ssl w nlen (got @ bs))
      else Some (ssl, w, got, True))"

definition v2_len_rejected :: "u32 \<Rightarrow> nat \<Rightarrow> bool" where
  "v2_len_rejected nlen maxlen \<longleftrightarrow> unat (nlen + 1) > maxlen"

text \<open>
  \<open>junk\<close> is what the uninitialised variable \<open>nlen\<close> holds: a first read of fewer than four bytes
  replaces only its first bytes.
\<close>

definition v2_client_recv_json ::
    "('s, 'x, 'w) openssl \<Rightarrow> byte list \<Rightarrow> ('s, 'x, 'w) v2_conns \<Rightarrow> int \<Rightarrow> nat
       \<Rightarrow> (('s, 'x, 'w) v2_conns \<times> int \<times> byte list) option" where
  "v2_client_recv_json ops junk g sock maxlen =
     (case v2_lookup_client_conn g sock of
        None \<Rightarrow> Some (g, -1, [])
      | Some c \<Rightarrow>
          (case SSL_read ops (v2c_ssl c) 4 (world (v2c_sys g)) of (ssl, w, r) \<Rightarrow>
             (case r of
                Err _ \<Rightarrow> Some (v2_put_conn g c ssl w, -2, [])
              | Ret bs \<Rightarrow>
                  (let nlen = ntohl_bytes (bs @ drop (length bs) junk)
                   in if v2_len_rejected nlen maxlen then Some (v2_put_conn g c ssl w, -3, [])
                      else Option.bind (v2_read_loop ops ssl w (unat nlen) []) (\<lambda>(ssl, w, buf, ok).
                        if \<not> ok then Some (v2_put_conn g c ssl w, -4, buf)
                        else Some (v2_put_conn g c ssl w, sint nlen, buf @ [0]))))))"

definition v2_client_close_fd ::
    "'w os \<Rightarrow> ('s, 'x, 'w) openssl \<Rightarrow> ('s, 'x, 'w) v2_conns \<Rightarrow> int \<Rightarrow> ('s, 'x, 'w) v2_conns" where
  "v2_client_close_fd os ops g sock =
     (case v2_lookup_client_conn g sock of
        None \<Rightarrow> g
      | Some c \<Rightarrow>
          (let (ssl, w) = SSL_shutdown ops (v2c_ssl c) (world (v2c_sys g));
               y = gfns_close_socket os (v2c_sock c) ((v2c_sys g)\<lparr>world := SSL_free ops ssl w\<rparr>)
           in v2_unregister_client_conn (g\<lparr>v2c_sys := y\<rparr>) sock))"

section \<open>Sending and receiving\<close>

lemma v2_write_loop_all:
  assumes "ssl_writes_all ops out"
  shows "\<exists>ssl' w'. v2_write_loop ops ssl w bs = Some (ssl', w', True) \<and> out ssl' = out ssl @ bs"
proof (cases "bs = []")
  case True
  then show ?thesis by (subst v2_write_loop.simps) simp
next
  case False
  then obtain ssl' w' where "SSL_write ops ssl bs w = (ssl', w', Ret (length bs))" "out ssl' = out ssl @ bs"
    using assms unfolding ssl_writes_all_def by blast
  moreover have "v2_write_loop ops ssl' w' [] = Some (ssl', w', True)" by (subst v2_write_loop.simps) simp
  ultimately show ?thesis using False by (subst v2_write_loop.simps) simp
qed

lemma v2_client_send_out:
  assumes "ssl_writes_all ops out" "v2_lookup_client_conn g sock = Some c" "length json \<le> TLSV2_MAX_JSON_SIZE"
  shows "\<exists>ssl' w'. v2_client_send_json ops g sock json = Some (v2_put_conn g c ssl' w', 0)
    \<and> out ssl' = out (v2c_ssl c) @ json_frame json"
proof -
  have "htonl_bytes (of_nat (length json)) \<noteq> []" by (simp add: htonl_bytes_def)
  then obtain s1 w1 where s1: "SSL_write ops (v2c_ssl c) (htonl_bytes (of_nat (length json))) (world (v2c_sys g)) = (s1, w1, Ret 4)"
      "out s1 = out (v2c_ssl c) @ htonl_bytes (of_nat (length json))"
    using assms(1) unfolding ssl_writes_all_def by (metis length_htonl)
  obtain s2 w2 where "v2_write_loop ops s1 w1 json = Some (s2, w2, True)" "out s2 = out s1 @ json"
    using v2_write_loop_all [OF assms(1)] by blast
  with assms(2,3) s1 show ?thesis by (auto simp: v2_client_send_json_def json_frame_def)
qed

lemma v2_lookup_put:
  assumes "v2_lookup_client_conn g sock = Some c"
  shows "v2_lookup_client_conn (v2_put_conn g c ssl w) sock = Some (c\<lparr>v2c_ssl := ssl\<rparr>)"
proof -
  have "v2c_sock c = sock" using assms reg_lookup_Some by (fastforce simp: v2_lookup_client_conn_def)
  with assms reg_lookup_update [of v2c_sock "v2c_conns g" sock c "c\<lparr>v2c_ssl := ssl\<rparr>"] show ?thesis
    by (simp add: v2_lookup_client_conn_def v2_put_conn_def)
qed

text \<open>Sending one message after the other.\<close>

fun v2_client_send_all ::
    "('s, 'x, 'w) openssl \<Rightarrow> ('s, 'x, 'w) v2_conns \<Rightarrow> int \<Rightarrow> byte list list \<Rightarrow> (('s, 'x, 'w) v2_conns \<times> int list) option" where
  "v2_client_send_all ops g sock [] = Some (g, [])"
| "v2_client_send_all ops g sock (m # ms) =
     Option.bind (v2_client_send_json ops g sock m) (\<lambda>(g, r).
     Option.bind (v2_client_send_all ops g sock ms) (\<lambda>(g, rs). Some (g, r # rs)))"

lemma v2_client_send_all_out:
  assumes "ssl_writes_all ops out" "v2_lookup_client_conn g sock = Some c" "\<forall>m \<in> set ms. length m \<le> TLSV2_MAX_JSON_SIZE"
  shows "\<exists>g' c'. v2_client_send_all ops g sock ms = Some (g', replicate (length ms) 0)
    \<and> v2_lookup_client_conn g' sock = Some c' \<and> out (v2c_ssl c') = out (v2c_ssl c) @ concat (map json_frame ms)"
  using assms(2,3)
proof (induction ms arbitrary: g c)
  case (Cons m ms)
  obtain ssl' w' where s: "v2_client_send_json ops g sock m = Some (v2_put_conn g c ssl' w', 0)"
      "out ssl' = out (v2c_ssl c) @ json_frame m"
    using v2_client_send_out [OF assms(1) Cons.prems(1), of m] Cons.prems(2) by auto
  from Cons.IH [OF v2_lookup_put [OF Cons.prems(1), of ssl' w']] Cons.prems(2) s show ?case by auto
qed simp

text \<open>Receiving.\<close>

lemma v2_read_loop_full:
  assumes "ssl_reads_full ops inc" "inc ssl = bs @ rest" "length bs < 2 ^ 31"
  shows "\<exists>ssl' w'. v2_read_loop ops ssl w (length bs) [] = Some (ssl', w', bs, True) \<and> inc ssl' = rest"
proof (cases "bs = []")
  case True
  with assms(2) show ?thesis by (subst v2_read_loop.simps) simp
next
  case False
  then obtain ssl' w' where "SSL_read ops ssl (length bs) w = (ssl', w', Ret bs)" "inc ssl' = rest"
    using assms(1) [unfolded ssl_reads_full_def, rule_format, of "length bs" ssl w] assms(2) by auto
  moreover have "v2_read_loop ops ssl' w' (length bs) bs = Some (ssl', w', bs, True)" by (subst v2_read_loop.simps) simp
  ultimately show ?thesis using False assms(3) by (subst v2_read_loop.simps) simp
qed

lemma v2_client_recv_frame:
  assumes "ssl_reads_full ops inc" "v2_lookup_client_conn g sock = Some c" "inc (v2c_ssl c) = json_frame json @ rest"
    and "length json \<le> TLSV2_MAX_JSON_SIZE" "length json < maxlen"
  shows "\<exists>ssl' w'. v2_client_recv_json ops junk g sock maxlen = Some (v2_put_conn g c ssl' w', int (length json), json @ [0])
    \<and> inc ssl' = rest"
proof -
  define n :: u32 where "n = of_nat (length json)"
  have l: "length json < 2 ^ 31" using assms(4) by (simp add: TLSV2_MAX_JSON_SIZE_def)
  then have u: "unat n = length json" by (simp add: n_def unat_of_nat take_bit_nat_eq_self)
  have si: "sint n = int (length json)" using l by (simp add: n_def signed_of_nat signed_take_bit_int_eq_self)
  have i: "inc (v2c_ssl c) = htonl_bytes n @ json @ rest" using assms(3) by (simp add: json_frame_def n_def)
  then obtain s1 w1 where s1: "SSL_read ops (v2c_ssl c) 4 (world (v2c_sys g)) = (s1, w1, Ret (htonl_bytes n))" "inc s1 = json @ rest"
    using assms(1) [unfolded ssl_reads_full_def, rule_format, of 4 "v2c_ssl c" "world (v2c_sys g)"] by (auto simp: htonl_bytes_def)
  obtain s2 w2 where s2: "v2_read_loop ops s1 w1 (length json) [] = Some (s2, w2, json, True)" "inc s2 = rest"
    using v2_read_loop_full [OF assms(1) s1(2) l] by blast
  have "unat (n + 1) = length json + 1" using l u by (simp add: unat_word_ariths)
  then have "\<not> v2_len_rejected n maxlen" using assms(5) by (simp add: v2_len_rejected_def)
  with assms(2) s1(1) s2 u si show ?thesis by (auto simp: v2_client_recv_json_def)
qed

text \<open>
  A reply is received: when a frame has arrived on the connection and the message and its
  terminating 0 fit the caller's buffer, \<open>tlsv2_client_recv_json\<close> returns the length of the message,
  stores the message and the 0, and leaves the connection at the first byte after the frame. The
  length word has to come in one piece: its uninitialised bytes are then all replaced.
\<close>

theorem v2_client_receives:
  assumes "ssl_reads_full ops inc" "v2_lookup_client_conn g sock = Some c" "inc (v2c_ssl c) = json_frame json @ rest"
    and "length json \<le> TLSV2_MAX_JSON_SIZE" "length json < maxlen"
  shows "\<exists>g' c'. v2_client_recv_json ops junk g sock maxlen = Some (g', int (length json), json @ [0])
    \<and> v2_lookup_client_conn g' sock = Some c' \<and> inc (v2c_ssl c') = rest"
proof -
  obtain ssl' w' where "v2_client_recv_json ops junk g sock maxlen = Some (v2_put_conn g c ssl' w', int (length json), json @ [0])"
      "inc ssl' = rest" using v2_client_recv_frame [OF assms] by blast
  moreover note v2_lookup_put [OF assms(2), of ssl' w']
  ultimately show ?thesis by auto
qed

text \<open>An OpenSSL for the examples: the bytes to deliver and the bytes taken.\<close>

definition tape_ssl :: "(byte list \<times> byte list, unit, unit) openssl" where
  "tape_ssl = \<lparr>SSL_CTX_new = (\<lambda>_ w. (w, Some ())), SSL_CTX_use_certificate_file = (\<lambda>x _ w. (w, x, True)),
     SSL_CTX_use_PrivateKey_file = (\<lambda>x _ w. (w, x, True)), SSL_CTX_check_private_key = (\<lambda>_. True),
     SSL_CTX_free = (\<lambda>_ w. w), SSL_new = (\<lambda>_ w. (w, Some ([], []))), SSL_set_fd = (\<lambda>s _. s),
     SSL_accept = (\<lambda>s w. (s, w, Ret ())), SSL_connect = (\<lambda>s w. (s, w, Ret ())),
     SSL_read = (\<lambda>(i, u) n w. ((drop n i, u), w, Ret (take n i))),
     SSL_write = (\<lambda>(i, u) bs w. ((i, u @ bs), w, Ret (length bs))),
     SSL_shutdown = (\<lambda>s w. (s, w)), SSL_free = (\<lambda>_ w. w)\<rparr>"

lemma tape_ssl_ok: "ssl_reads_full tape_ssl fst" "ssl_writes_all tape_ssl snd"
  by (auto simp: ssl_reads_full_def ssl_writes_all_def tape_ssl_def)

definition v2_one_conn :: "byte list \<Rightarrow> (byte list \<times> byte list, unit, unit) v2_conns" where
  "v2_one_conn arrived = \<lparr>v2c_conns = [Some \<lparr>v2c_sock = 7, v2c_ssl = (arrived, [])\<rparr>], v2c_ctx = Some (),
     v2c_sys = \<lparr>world = (), errno = 0\<rparr>\<rparr>"

lemma v2_one_conn_lookup: "v2_lookup_client_conn (v2_one_conn bs) 7 = Some \<lparr>v2c_sock = 7, v2c_ssl = (bs, [])\<rparr>"
  by (simp add: v2_lookup_client_conn_def v2_one_conn_def)

theorem v2_client_receives_witness:
  "\<exists>g'. v2_client_recv_json tape_ssl [1, 2, 3, 4] (v2_one_conn (json_frame [123, 125] @ [9])) 7 100 = Some (g', 2, [123, 125, 0])"
proof -
  have "fst (v2c_ssl \<lparr>v2c_sock = 7, v2c_ssl = (json_frame [123, 125] @ [9], [] :: byte list)\<rparr>) = json_frame [123, 125] @ [9]"
    "length [123, 125 :: byte] \<le> TLSV2_MAX_JSON_SIZE" "length [123, 125 :: byte] < 100"
    by (simp_all add: TLSV2_MAX_JSON_SIZE_def)
  from v2_client_receives [OF tape_ssl_ok(1) v2_one_conn_lookup this, of "[1, 2, 3, 4]"] show ?thesis by auto
qed

end
