(* ===== verification/Tls_V1.thy ===== *)
theory Tls_V1
  imports Os Openssl
begin

text \<open>
  The first wrapper, \<open>tls_wrapper.c\<close>: a table from descriptors to OpenSSL connections, and blocking
  calls on it; with the plain socket wrappers \<open>tcp_wrapper.c\<close> and \<open>select_wrapper.c\<close>. \<open>None\<close> as the
  result of \<open>tls_connect\<close> is a null \<open>SSL\<close> pointer passed to OpenSSL, which is undefined behaviour.
\<close>

section \<open>The table\<close>

definition MAX_SSL_CONNECTIONS :: nat where "MAX_SSL_CONNECTIONS = 128"

record 's ssl_entry =
  e_fd :: int
  e_ssl :: "'s option"

definition ssl_table_init :: "'s ssl_entry list \<Rightarrow> 's ssl_entry list" where
  "ssl_table_init t = map (\<lambda>e. e\<lparr>e_fd := -1, e_ssl := None\<rparr>) t"

fun ssl_table_add :: "'s ssl_entry list \<Rightarrow> int \<Rightarrow> 's \<Rightarrow> 's ssl_entry list \<times> int" where
  "ssl_table_add [] fd ssl = ([], -1)"
| "ssl_table_add (e # es) fd ssl =
     (if e_fd e < 0 then (e\<lparr>e_fd := fd, e_ssl := Some ssl\<rparr> # es, 0)
      else let (es, r) = ssl_table_add es fd ssl in (e # es, r))"

fun ssl_table_get :: "'s ssl_entry list \<Rightarrow> int \<Rightarrow> 's option" where
  "ssl_table_get [] fd = None"
| "ssl_table_get (e # es) fd = (if e_fd e = fd then e_ssl e else ssl_table_get es fd)"

fun ssl_table_remove :: "'s ssl_entry list \<Rightarrow> int \<Rightarrow> 's ssl_entry list" where
  "ssl_table_remove [] fd = []"
| "ssl_table_remove (e # es) fd =
     (if e_fd e = fd then e\<lparr>e_fd := -1, e_ssl := None\<rparr> # es else e # ssl_table_remove es fd)"

text \<open>The connection found is a pointer; a call on it changes the entry in place.\<close>

fun ssl_table_put :: "'s ssl_entry list \<Rightarrow> int \<Rightarrow> 's \<Rightarrow> 's ssl_entry list" where
  "ssl_table_put [] fd ssl = []"
| "ssl_table_put (e # es) fd ssl = (if e_fd e = fd then e\<lparr>e_ssl := Some ssl\<rparr> # es else e # ssl_table_put es fd ssl)"

section \<open>Connections\<close>

record ('s, 'x, 'w) tls1 =
  ssl_table :: "'s ssl_entry list"
  ctx_server :: "'x option"
  ctx_client :: "'x option"
  t_sys :: "'w sys"

definition set_world :: "'w \<Rightarrow> ('s, 'x, 'w) tls1 \<Rightarrow> ('s, 'x, 'w) tls1" where
  "set_world w g = g\<lparr>t_sys := (t_sys g)\<lparr>world := w\<rparr>\<rparr>"

definition close_sock :: "'w os \<Rightarrow> int \<Rightarrow> ('s, 'x, 'w) tls1 \<Rightarrow> ('s, 'x, 'w) tls1" where
  "close_sock os fd g = g\<lparr>t_sys := gfns_close_socket os fd (t_sys g)\<rparr>"

definition tcp_connect :: "'w os \<Rightarrow> string \<Rightarrow> int \<Rightarrow> 'w sys \<Rightarrow> 'w sys \<times> int" where
  "tcp_connect os host port y =
     (let (y, r) = syscall (sys_socket os) y
      in case r of
           None \<Rightarrow> (y, -1)
         | Some sock \<Rightarrow>
             (case inet_pton os host of
                None \<Rightarrow> (gfns_close_socket os sock y, -2)
              | Some addr \<Rightarrow>
                  (let (y, r) = syscall (sys_connect os sock addr (nat (port mod 2 ^ 16))) y
                   in if r = None then (gfns_close_socket os sock y, -3) else (y, sock))))"

definition register_tls_socket ::
    "'w os \<Rightarrow> ('s, 'x, 'w) openssl \<Rightarrow> ('s, 'x, 'w) tls1 \<Rightarrow> 's \<Rightarrow> int \<Rightarrow> ('s, 'x, 'w) tls1 \<times> int" where
  "register_tls_socket os ops g ssl fd =
     (let (t, r) = ssl_table_add (ssl_table g) fd ssl; g = g\<lparr>ssl_table := t\<rparr>
      in if r \<noteq> 0
         then let (ssl, w) = SSL_shutdown ops ssl (world (t_sys g))
              in (close_sock os fd (set_world (SSL_free ops ssl w) g), -1)
         else (g, fd))"

definition tls_init_server :: "('s, 'x, 'w) openssl \<Rightarrow> ('s, 'x, 'w) tls1 \<Rightarrow> ('s, 'x, 'w) tls1" where
  "tls_init_server ops g =
     (let g = g\<lparr>ssl_table := ssl_table_init (ssl_table g)\<rparr>;
          (w, x) = SSL_CTX_new ops True (world (t_sys g));
          g = set_world w (g\<lparr>ctx_server := x\<rparr>)
      in case x of
           None \<Rightarrow> g
         | Some x \<Rightarrow>
             (let (w, x, ok) = SSL_CTX_use_certificate_file ops x ''server.pem'' w;
                  g = set_world w (g\<lparr>ctx_server := Some x\<rparr>)
              in if \<not> ok then g
                 else let (w, x, ok) = SSL_CTX_use_PrivateKey_file ops x ''server.key'' w
                      in set_world w (g\<lparr>ctx_server := Some x\<rparr>)))"

definition tls_init_client :: "('s, 'x, 'w) openssl \<Rightarrow> ('s, 'x, 'w) tls1 \<Rightarrow> ('s, 'x, 'w) tls1" where
  "tls_init_client ops g =
     (let g = g\<lparr>ssl_table := ssl_table_init (ssl_table g)\<rparr>;
          (w, x) = SSL_CTX_new ops False (world (t_sys g))
      in set_world w (g\<lparr>ctx_client := x\<rparr>))"

definition tls_listen :: "'w os \<Rightarrow> int \<Rightarrow> 'w sys \<Rightarrow> 'w sys \<times> int" where
  "tls_listen os port y =
     (let (y, r) = syscall (sys_socket os) y
      in case r of
           None \<Rightarrow> (y, -1)
         | Some sock \<Rightarrow>
             (let (y, b) = syscall (sys_bind os sock (nat (port mod 2 ^ 16))) y
              in if b = None then (gfns_close_socket os sock y, -2)
                 else let (y, l) = syscall (sys_listen os sock 5) y
                      in if l = None then (gfns_close_socket os sock y, -3) else (y, sock)))"

definition tls_accept ::
    "'w os \<Rightarrow> ('s, 'x, 'w) openssl \<Rightarrow> ('s, 'x, 'w) tls1 \<Rightarrow> int \<Rightarrow> ('s, 'x, 'w) tls1 \<times> int" where
  "tls_accept os ops g server =
     (let (y, r) = syscall (sys_accept os server) (t_sys g); g = g\<lparr>t_sys := y\<rparr>
      in case r of
           None \<Rightarrow> (g, -1)
         | Some client_fd \<Rightarrow>
             if ctx_server g = None then (close_sock os client_fd g, -2)
             else let (w, ssl) = SSL_new ops (ctx_server g) (world (t_sys g)); g = set_world w g
                  in case ssl of
                       None \<Rightarrow> (close_sock os client_fd g, -3)
                     | Some ssl \<Rightarrow>
                         (let (ssl, w, r) = SSL_accept ops (SSL_set_fd ops ssl client_fd) w; g = set_world w g
                          in case r of
                               Err _ \<Rightarrow> (close_sock os client_fd (set_world (SSL_free ops ssl w) g), -4)
                             | Ret _ \<Rightarrow>
                                 (let (t, r) = ssl_table_add (ssl_table g) client_fd ssl; g = g\<lparr>ssl_table := t\<rparr>
                                  in if r \<noteq> 0
                                     then let (ssl, w) = SSL_shutdown ops ssl w
                                          in (close_sock os client_fd (set_world (SSL_free ops ssl w) g), -5)
                                     else (g, client_fd))))"

definition tls_connect ::
    "'w os \<Rightarrow> ('s, 'x, 'w) openssl \<Rightarrow> ('s, 'x, 'w) tls1 \<Rightarrow> string \<Rightarrow> int \<Rightarrow> (('s, 'x, 'w) tls1 \<times> int) option" where
  "tls_connect os ops g host port =
     (if ctx_client g = None then Some (g, -1)
      else let (y, sock) = tcp_connect os host port (t_sys g); g = g\<lparr>t_sys := y\<rparr>
           in if sock < 0 then Some (g, -2)
              else let (w, ssl) = SSL_new ops (ctx_client g) (world (t_sys g))
                   in case ssl of
                        None \<Rightarrow> None
                      | Some ssl \<Rightarrow>
                          (let (ssl, w, r) = SSL_connect ops (SSL_set_fd ops ssl sock) w; g = set_world w g
                           in case r of
                                Err _ \<Rightarrow> Some (close_sock os sock (set_world (SSL_free ops ssl w) g), -3)
                              | Ret _ \<Rightarrow> Some (register_tls_socket os ops g ssl sock)))"

text \<open>
  \<open>None\<close> is a result of 0 or less from OpenSSL and a failed call on a plain socket. A descriptor that
  is not in the table is used as a plain socket.
\<close>

definition tls_send ::
    "'w os \<Rightarrow> ('s, 'x, 'w) openssl \<Rightarrow> ('s, 'x, 'w) tls1 \<Rightarrow> int \<Rightarrow> byte list \<Rightarrow> ('s, 'x, 'w) tls1 \<times> nat option" where
  "tls_send os ops g sock buf =
     (case ssl_table_get (ssl_table g) sock of
        Some ssl \<Rightarrow>
          (let (ssl, w, r) = SSL_write ops ssl buf (world (t_sys g));
               g = set_world w (g\<lparr>ssl_table := ssl_table_put (ssl_table g) sock ssl\<rparr>)
           in (g, case r of Ret n \<Rightarrow> Some n | Err _ \<Rightarrow> None))
      | None \<Rightarrow> (let (y, r) = syscall (sys_write os sock buf) (t_sys g) in (g\<lparr>t_sys := y\<rparr>, r)))"

definition tls_recv ::
    "'w os \<Rightarrow> ('s, 'x, 'w) openssl \<Rightarrow> ('s, 'x, 'w) tls1 \<Rightarrow> int \<Rightarrow> nat \<Rightarrow> ('s, 'x, 'w) tls1 \<times> byte list option" where
  "tls_recv os ops g sock maxlen =
     (case ssl_table_get (ssl_table g) sock of
        Some ssl \<Rightarrow>
          (let (ssl, w, r) = SSL_read ops ssl maxlen (world (t_sys g));
               g = set_world w (g\<lparr>ssl_table := ssl_table_put (ssl_table g) sock ssl\<rparr>)
           in (g, case r of Ret bs \<Rightarrow> Some bs | Err _ \<Rightarrow> None))
      | None \<Rightarrow> (let (y, r) = syscall (sys_read os sock maxlen) (t_sys g) in (g\<lparr>t_sys := y\<rparr>, r)))"

definition tls_close ::
    "'w os \<Rightarrow> ('s, 'x, 'w) openssl \<Rightarrow> ('s, 'x, 'w) tls1 \<Rightarrow> int \<Rightarrow> ('s, 'x, 'w) tls1" where
  "tls_close os ops g sock =
     (let g = (case ssl_table_get (ssl_table g) sock of
                 None \<Rightarrow> g
               | Some ssl \<Rightarrow>
                   (let (ssl, w) = SSL_shutdown ops ssl (world (t_sys g))
                    in set_world (SSL_free ops ssl w) (g\<lparr>ssl_table := ssl_table_remove (ssl_table g) sock\<rparr>)))
      in close_sock os sock g)"

section \<open>Plain sockets and select\<close>

text \<open>No result is checked: after a failed \<open>socket\<close> the calls go on with the descriptor -1.\<close>

definition tcp_listen :: "'w os \<Rightarrow> int \<Rightarrow> 'w sys \<Rightarrow> 'w sys \<times> int" where
  "tcp_listen os port y =
     (let (y, r) = syscall (sys_socket os) y;
          sock = (case r of None \<Rightarrow> -1 | Some s \<Rightarrow> s);
          (y, _) = syscall (sys_bind os sock (nat (port mod 2 ^ 16))) y;
          (y, _) = syscall (sys_listen os sock 5) y
      in (y, sock))"

definition tcp_accept :: "'w os \<Rightarrow> int \<Rightarrow> 'w sys \<Rightarrow> 'w sys \<times> int" where
  "tcp_accept os sock y = (let (y, r) = syscall (sys_accept os sock) y in (y, case r of None \<Rightarrow> -1 | Some s \<Rightarrow> s))"

text \<open>
  \<open>select\<close> returns the ready descriptors (the C function returns how many); \<open>None\<close> in the result is
  a return without new flags.
\<close>

definition gf_select :: "'w os \<Rightarrow> int list \<Rightarrow> 'w sys \<Rightarrow> 'w sys \<times> bool list option" where
  "gf_select os fds y =
     (let (y, r) = syscall (sys_select os (filter (\<lambda>d. d \<ge> 0) fds) []) y
      in case r of
           None \<Rightarrow> (y, None)
         | Some (rd, wr) \<Rightarrow> if rd = [] then (y, None) else (y, Some (map (\<lambda>d. d \<ge> 0 \<and> d \<in> set rd) fds)))"

section \<open>The table is a map\<close>

definition table_ok :: "'s ssl_entry list \<Rightarrow> bool" where
  "table_ok t \<longleftrightarrow> distinct (filter (\<lambda>d. d \<ge> 0) (map e_fd t)) \<and> (\<forall>e \<in> set t. e_fd e < 0 \<longrightarrow> e_ssl e = None)"

definition table_full :: "'s ssl_entry list \<Rightarrow> bool" where
  "table_full t \<longleftrightarrow> (\<forall>e \<in> set t. e_fd e \<ge> 0)"

lemma table_get_absent: "d \<notin> e_fd ` set t \<Longrightarrow> ssl_table_get t d = None"
  by (induction t) auto

lemma ssl_table_add_full: "table_full t \<Longrightarrow> ssl_table_add t d ssl = (t, -1)"
  by (induction t) (auto simp: table_full_def)

lemma ssl_table_add_get:
  assumes "\<not> table_full t" "d \<notin> e_fd ` set t" "d' \<ge> 0"
  shows "snd (ssl_table_add t d ssl) = 0 \<and>
    ssl_table_get (fst (ssl_table_add t d ssl)) d' = (if d' = d then Some ssl else ssl_table_get t d')"
  using assms
proof (induction t)
  case (Cons e t)
  then show ?case
    by (cases "e_fd e < 0") (auto simp: table_full_def case_prod_beta)
qed (simp add: table_full_def)

lemma ssl_table_remove_get:
  assumes "table_ok t" "d \<ge> 0" "d' \<ge> 0"
  shows "ssl_table_get (ssl_table_remove t d) d' = (if d' = d then None else ssl_table_get t d')"
  using assms
proof (induction t)
  case (Cons e t)
  then have t: "table_ok t" by (auto simp: table_ok_def split: if_splits)
  have "ssl_table_get t d = None" if "e_fd e = d"
    using table_get_absent [of d t] that Cons.prems by (auto simp: table_ok_def)
  with Cons t show ?case by auto
qed simp

lemma ssl_table_init_get: "d \<ge> 0 \<Longrightarrow> ssl_table_get (ssl_table_init t) d = None"
  by (induction t) (auto simp: ssl_table_init_def)

text \<open>
  The table of \<open>tls_wrapper.c\<close>: a connection added under a new descriptor is found there and
  changes no other entry, unless the table is full, which is reported; after \<open>tls_close\<close> the
  descriptor is unknown and every other connection is as before.
\<close>

theorem ssl_table_laws:
  assumes "table_ok (ssl_table g)" "d \<ge> 0" "d \<notin> e_fd ` set (ssl_table g)" "d' \<ge> 0" "c \<ge> 0"
  shows "(table_full (ssl_table g) \<longrightarrow> ssl_table_add (ssl_table g) d ssl = (ssl_table g, -1))
    \<and> (\<not> table_full (ssl_table g) \<longrightarrow> snd (ssl_table_add (ssl_table g) d ssl) = 0
        \<and> ssl_table_get (fst (ssl_table_add (ssl_table g) d ssl)) d' = (if d' = d then Some ssl else ssl_table_get (ssl_table g) d'))
    \<and> ssl_table_get (ssl_table (tls_close os ops g c)) d' = (if d' = c then None else ssl_table_get (ssl_table g) d')"
proof -
  have "ssl_table_get (ssl_table (tls_close os ops g c)) d' = (if d' = c then None else ssl_table_get (ssl_table g) d')"
    using ssl_table_remove_get [OF assms(1,5,4)]
    by (auto simp: tls_close_def close_sock_def set_world_def split: option.splits prod.splits)
  then show ?thesis
    using ssl_table_add_full [of "ssl_table g" d ssl] ssl_table_add_get [OF _ assms(3,4)] by auto
qed

text \<open>
  C40. Encrypted connections turn into plain ones: \<open>tls_init_client\<close> clears the table that
  \<open>tls_init_server\<close> filled, and a later \<open>tls_send\<close> on a connection that is still open writes the
  caller's bytes to the socket as they are, without encryption.
\<close>

theorem init_client_drops_encryption:
  assumes "ssl_table_get (ssl_table g) d = Some ssl" "d \<ge> 0"
    and "sys_write os d buf (fst (SSL_CTX_new ops False (world (t_sys g)))) = (w', Done n)"
  shows "tls_send os ops (tls_init_client ops g) d buf
    = ((tls_init_client ops g)\<lparr>t_sys := (t_sys g)\<lparr>world := w'\<rparr>\<rparr>, Some n)"
proof -
  obtain w x where c: "SSL_CTX_new ops False (world (t_sys g)) = (w, x)" by fastforce
  define h where "h = tls_init_client ops g"
  have h: "ssl_table h = ssl_table_init (ssl_table g)" "t_sys h = (t_sys g)\<lparr>world := w\<rparr>"
    by (simp_all add: h_def tls_init_client_def set_world_def c)
  have "sys_write os d buf w = (w', Done n)" using assms(3) c by simp
  then show ?thesis unfolding h_def [symmetric]
    by (simp add: tls_send_def h syscall_def ssl_table_init_get [OF assms(2)])
qed

section \<open>Examples\<close>

definition wire_os :: "byte list os" where
  "wire_os = \<lparr>sys_socket = (\<lambda>w. (w, Done 3)), sys_setsockopt = (\<lambda>_ w. (w, Done ())), sys_bind = (\<lambda>_ _ w. (w, Done ())),
     sys_listen = (\<lambda>_ _ w. (w, Done ())), sys_accept = (\<lambda>_ w. (w, Fail EAGAIN)), sys_connect = (\<lambda>_ _ _ w. (w, Done ())),
     sys_getfl = (\<lambda>_ w. (w, Done 0)), sys_setfl = (\<lambda>_ _ w. (w, Done ())), sys_read = (\<lambda>_ _ w. (w, Done [])),
     sys_write = (\<lambda>_ bs w. (w @ bs, Done (length bs))), sys_close = (\<lambda>_ w. w), sys_select = (\<lambda>r x w. (w, Done (r, x))),
     inet_pton = (\<lambda>_. Some 0), c_malloc = (\<lambda>_ w. (w, True)), c_fopen = (\<lambda>_ w. (w, None)),
     c_fseek_end = (\<lambda>_ w. (w, True)), c_ftell = (\<lambda>_ w. (w, 0)), c_fseek_set = (\<lambda>_ w. (w, True)),
     c_fread = (\<lambda>_ _ w. (w, [])), c_fclose = (\<lambda>_ w. w)\<rparr>"

definition wire_ssl :: "(unit, unit, byte list) openssl" where
  "wire_ssl = \<lparr>SSL_CTX_new = (\<lambda>_ w. (w, Some ())), SSL_CTX_use_certificate_file = (\<lambda>x _ w. (w, x, True)),
     SSL_CTX_use_PrivateKey_file = (\<lambda>x _ w. (w, x, True)), SSL_CTX_check_private_key = (\<lambda>_. True),
     SSL_CTX_free = (\<lambda>_ w. w), SSL_new = (\<lambda>_ w. (w, Some ())), SSL_set_fd = (\<lambda>s _. s),
     SSL_accept = (\<lambda>s w. (s, w, Ret ())), SSL_connect = (\<lambda>s w. (s, w, Ret ())),
     SSL_read = (\<lambda>s n w. (s, w, Err SSL_ERROR_WANT_READ)),
     SSL_write = (\<lambda>s bs w. (s, w @ map (\<lambda>b. b + 1) bs, Ret (length bs))),
     SSL_shutdown = (\<lambda>s w. (s, w)), SSL_free = (\<lambda>_ w. w)\<rparr>"

definition v1_demo :: "(unit, unit, byte list) tls1" where
  "v1_demo = \<lparr>ssl_table = [\<lparr>e_fd = 6, e_ssl = Some ()\<rparr>, \<lparr>e_fd = -1, e_ssl = None\<rparr>], ctx_server = Some (), ctx_client = None,
     t_sys = \<lparr>world = [], errno = 0\<rparr>\<rparr>"

theorem ssl_table_laws_witness:
  "ssl_table_get (ssl_table (tls_close wire_os wire_ssl v1_demo 6)) 6 = None"
proof -
  have "table_ok (ssl_table v1_demo)" "7 \<notin> e_fd ` set (ssl_table v1_demo)"
    by (simp_all add: v1_demo_def table_ok_def)
  with ssl_table_laws [of v1_demo 7 6 6 "()" wire_os wire_ssl] show ?thesis by simp
qed

theorem init_client_drops_encryption_witness:
  "world (t_sys (fst (tls_send wire_os wire_ssl (tls_init_client wire_ssl v1_demo) 6 [104, 105]))) = [104, 105]"
  using init_client_drops_encryption [of v1_demo 6 "()" wire_os "[104, 105]" wire_ssl "[104, 105]" 2]
  by (simp add: v1_demo_def wire_os_def wire_ssl_def)

end
