(* ===== verification/Spec2Isabelle.thy ===== *)
theory Spec2Isabelle
  imports Tls_V3_Server_Inv Tls_V3_Link Chapol Kdf Rec_Cbc Bigint_Code Gfns_Ws Tls_V2_Server_Props Tls_V2_Client Tls_V1
begin

text \<open>
  A verification development of GF-NetStack, a layer of TLS, JSON-message and WebSocket networking in
  C (\<^verbatim>\<open>src/src/wrappers/c\<close>) with the BearSSL library it is built on (\<^verbatim>\<open>bearssl/\<close> there).

  \<^bold>\<open>The program.\<close> Applications exchange JSON messages, each a 4-byte big-endian length and the
  bytes of the message, over TLS connections. \<^verbatim>\<open>tls_wrapper_v3.c\<close> is a server (a table of clients, one
  BearSSL engine each, served from a \<open>select\<close> loop) and a blocking client on BearSSL;
  \<^verbatim>\<open>tls_wrapper_v2.c\<close> is the same on OpenSSL; \<^verbatim>\<open>tls_wrapper.c\<close> is an older set of blocking calls on
  OpenSSL, with \<^verbatim>\<open>tcp_wrapper.c\<close> and \<^verbatim>\<open>select_wrapper.c\<close>. \<^verbatim>\<open>gfns_conn.c\<close> hides TCP and TLS behind one
  connection type and \<^verbatim>\<open>gfns_ws.c\<close> is a WebSocket client on it. Below \<^verbatim>\<open>tls_wrapper_v3.c\<close> lies the
  BearSSL engine \<^verbatim>\<open>ssl_engine.c\<close> (registers over two byte buffers, with the handshake processor
  as a coroutine), the record layers \<^verbatim>\<open>ssl_rec_gcm.c\<close> and \<^verbatim>\<open>ssl_rec_chapol.c\<close>, and \<^verbatim>\<open>ssl_io.c\<close>.

  \<^bold>\<open>Theories, in the order of the calls.\<close>
  \<^item> \<open>Prelude\<close>: types of bytes and memory, shared lemmas on words, lists and byte memory.
  \<^item> \<open>Codec\<close>: \<^verbatim>\<open>codec/enc*.c, dec*.c, ccopy.c\<close> and the inline functions of \<^verbatim>\<open>inner.h\<close>. Round trips of
    every width and byte order; the constant-time copy is a copy or nothing.
  \<^item> \<open>Record_Layer\<close>: the records \<open>gcm_ctx\<close> and \<open>chapol_ctx\<close> of \<^verbatim>\<open>ssl_rec_gcm.c\<close> and \<^verbatim>\<open>ssl_rec_chapol.c\<close>
    with their five operations, and the clear layer of \<^verbatim>\<open>ssl_engine.c\<close>. The virtual tables of C are the
    locales \<open>sslrec_out\<close>, \<open>sslrec_in\<close> and \<open>sslrec_pair\<close>, interpreted on each layer and on the unions
    \<open>rec_in\<close>, \<open>rec_out\<close>.
  \<^item> \<open>Ssl_Engine\<close>, \<open>Ssl_Engine_Inv\<close>, \<open>Ssl_Engine_Props\<close>: \<^verbatim>\<open>ssl_engine.c\<close>. The record \<open>engine\<close> has the
    fields of \<open>br_ssl_engine_context\<close> that the modelled functions use; the functions keep their C names.
    The invariant of the registers, safety of every call of the buffer API for any handshake processor
    that satisfies \<open>hs_contract\<close>, transfer of records between two engines, agreement of keys.
  \<^item> \<open>Ssl_Io\<close>: \<^verbatim>\<open>ssl_io.c\<close>. \<open>run_until\<close> and the calls on it; safety, progress of flushing, and the
    close loop that may not end.
  \<^item> \<open>Ssl_Context\<close>: initialisation and reset of the two profiles that \<^verbatim>\<open>tls_wrapper_v3.c\<close> uses.
  \<^item> \<open>Json_Frame\<close>: the framing fields of \<open>tlsv2_client_t\<close> and the framing statements that v2 and v3
    share. \<open>frames\<close> is the abstract parser of a byte stream; the locale \<open>json_receiver\<close> is the contract
    of a receive loop, interpreted for both servers. \<open>Json_Stream\<close> adds what becomes of any stream: with empty
    messages, which no receiver gets past, and with chunks of any size, for which there may be no room.
  \<^item> \<open>Os\<close>: POSIX calls as fields of the record \<open>os\<close>, and the socket and file helpers of
    \<^verbatim>\<open>tls_wrapper_v3.c\<close> over them. \<open>Openssl\<close>: OpenSSL as the record \<open>openssl\<close>.
  \<^item> \<open>Server_App\<close>: the callbacks of the application, as interactive computations that may call
    \<open>tlsv2_send_json\<close>; the locale \<open>app_runner\<close>, interpreted for both servers.
  \<^item> \<open>Tls_V3_Server\<close>, \<open>Tls_V3_Server_Props\<close>, \<open>Tls_V3_Server_Inv\<close>: the server half of
    \<^verbatim>\<open>tls_wrapper_v3.c\<close>: every function, on the POSIX branches. Delivery of messages however they are cut;
    the branches of \<open>tlsv2_send_json\<close>; the invariant of any number of turns of the loop, with no
    descriptor leaked.
  \<^item> \<open>Registry\<close>, \<open>Tls_V3_Client\<close>: the client half. The table of connections is the locale \<open>conn_table\<close>. A message
    larger than the window of the engine leaves as several records (\<open>record_chain\<close> of \<open>Ssl_Io\<close>).
  \<^item> \<open>Tls_V2_Server\<close>, \<open>Tls_V2_Server_Props\<close>, \<open>Tls_V2_Client\<close>: \<^verbatim>\<open>tls_wrapper_v2.c\<close> over OpenSSL.
  \<^item> \<open>Tls_V1\<close>: \<^verbatim>\<open>tls_wrapper.c\<close>, \<^verbatim>\<open>tcp_wrapper.c\<close>, \<^verbatim>\<open>select_wrapper.c\<close>.
  \<^item> \<open>Gfns_Conn\<close>, \<open>Gfns_Ws\<close>: \<^verbatim>\<open>gfns_conn.c\<close> and \<^verbatim>\<open>gfns_ws.c\<close>. The locale \<open>byte_channel\<close> is what the frame
    layer needs of a connection; \<open>ws_decode\<close> is the frame grammar of RFC 6455, and what is sent decodes to
    what the caller gave.
  \<^item> \<open>Tls_V3_Link\<close>: the v3 client and the v3 server connected by a network that keeps the bytes: every
    conversation of the client, with messages of 1 to 65536 bytes in as many records as they need, each carried over
    before the next is sent, arrives, through both engines, at the application of the server.
  \<^item> \<open>Ct_Prims\<close>, \<open>Chacha20\<close>, \<open>Poly1305\<close>, \<open>Chapol\<close>: the comparisons of \<^verbatim>\<open>inner.h\<close>, \<^verbatim>\<open>symcipher/chacha20_ct.c\<close> and
    \<^verbatim>\<open>symcipher/poly1305_ctmul.c\<close>, against RFC 8439 written as arithmetic on numbers. They also satisfy
    the contract \<open>poly_ok\<close> that the record layer assumes (\<open>chapol_contract\<close>).
  \<^item> \<open>Hash_Class\<close>: the virtual table of hash functions with its contract \<open>hash_fun\<close>, and the buffering and padding
    that \<^verbatim>\<open>md5.c\<close>, \<^verbatim>\<open>sha1.c\<close>, \<^verbatim>\<open>sha2small.c\<close> and \<^verbatim>\<open>sha2big.c\<close> share (locale \<open>md_fun\<close>, which gives \<open>hash_fun\<close>).
  \<^item> \<open>Sha2\<close>, \<open>Sha2_Fips\<close>, \<open>Sha1\<close>, \<open>Md5\<close>: these files and \<^verbatim>\<open>md5sha1.c\<close>, against FIPS 180-4 and RFC 1321; each function
    interprets \<open>md_fun\<close> (the combined one \<open>hash_fun\<close>). \<open>Md5_Sine\<close> evaluates the sine function in fixed point, with a bound on
    the error, and shows that the table of \<^verbatim>\<open>md5.c\<close> is the one that RFC 1321 defines by it.
  \<^item> \<open>Hmac\<close>, \<open>Hmac_Ct\<close>: \<^verbatim>\<open>mac/hmac.c\<close> over the contract \<open>hash_fun\<close> against RFC 2104, and \<^verbatim>\<open>mac/hmac_ct.c\<close>, HMAC of data of
    secret length, over \<open>md_fun\<close> (locale \<open>md_ct\<close>): it returns what the plain functions return.
  \<^item> \<open>Kdf\<close>: the TLS PRFs, HKDF and HMAC_DRBG against RFC 2246, RFC 5246, RFC 5869 and SP 800-90A.
  \<^item> \<open>Rec_Cbc\<close>: \<^verbatim>\<open>ssl/ssl_rec_cbc.c\<close>, the CBC records with their constant-time check of padding and MAC, against
    RFC 5246, and the round trip between sender and receiver.
  \<^item> \<open>Bigint\<close>, \<open>Bigint_Div\<close>, \<open>Bigint_Monty\<close>, \<open>Bigint_Mod\<close>, \<open>Bigint_Pow\<close>, \<open>Bigint_Code\<close>: the big integers in 31-bit words of
    \<^verbatim>\<open>int/i31_*.c\<close> with the division of \<^verbatim>\<open>int/i32_div32.c\<close>, against arithmetic on natural numbers: sums, Montgomery products,
    reduction with an estimated quotient, exponentiation with a window, and the conversions from and to bytes. The loop of the windowed
    exponentiation ends because each turn takes at least one bit of the exponent.

  \<^bold>\<open>Modelling.\<close> Stateful code passes its state; globals are records. Bytes and fixed-width integers are
  words, so that arithmetic wraps as in C; \<open>size_t\<close> values that index buffers are \<open>nat\<close> where the
  invariant bounds them and are reduced modulo \<open>2 ^ 64\<close> where the code relies on it. Memory is a function
  from addresses to bytes. Code that is not in the repository (the operating system, OpenSSL) and the
  function pointers of BearSSL are arguments; what is assumed of them is a named predicate (\<open>os_ok\<close>,
  \<open>write_sends\<close>, \<open>ssl_reads\<close>, \<open>ssl_writes\<close>, \<open>hs_contract\<close>, \<open>ctr_ok\<close>, \<open>ghash_ok\<close>, \<open>poly_ok\<close>, \<open>link_ok\<close>), each with
  a concrete instance in the examples. No fuel is used: loops that may not end are partial functions
  into \<open>option\<close>, \<open>None\<close> is the call that does not return, and the theorems that a call returns
  state \<open>Some\<close>.

  \<^bold>\<open>Not modelled.\<close> The handshake processors \<^verbatim>\<open>ssl_hs_*.c\<close> and the X.509 and PEM decoders are bytecode
  generated from T0 sources (the engine takes the handshake processor as a parameter). The CCM record layer,
  AES, DES and GHASH, the RSA and elliptic-curve code of BearSSL, its multi-hash and its session cache
  are outside the model so far. The CBC records are modelled beside the engine, whose contexts hold AES/GCM and
  ChaCha20+Poly1305 records.
  The Windows branches, the older \<^verbatim>\<open>tls_wrapper_v3_old.c\<close>, the second copy of the client in
  \<^verbatim>\<open>tls_wrapper_v2.c\<close> (it does not compile beside the first), \<^verbatim>\<open>crypto_wrapper.c\<close> (one OpenSSL call) and
  the bindings for other languages are left out. \<open>free\<close> and log output have no effect in the model.
\<close>

section \<open>From the v2 client to the v2 server's application\<close>

text \<open>
  C39. End to end over the v2 wrappers: a client that sends messages of up to 65536 bytes one after the other with
  \<open>tlsv2_client_send_json\<close> gets 0 for each; and when the connection carries what OpenSSL took from
  the client to the server's connection, one call of \<open>tlsv2_json_try_receive\<close> hands the server's
  application exactly the messages before the first empty one, in order and once each: all of them, with nothing left
  over, if none is empty. An empty message is accepted by the client, but the server never gets past its header:
  it and everything after it stay in the buffer (the bytes from there on are assumed to be fewer
  than the buffer holds, so that there is always room to read).
\<close>

theorem v2_end_to_end:
  assumes "ssl_writes_all ops out" "v2_lookup_client_conn g d = Some c" "out (v2c_ssl c) = []"
    and "\<forall>m \<in> set ms. length m \<le> TLSV2_MAX_JSON_SIZE" "length (wedged ms) < TLSV2_MAX_JSON_SIZE + 4"
    and "v2_malloc_ok os" "ssl_reads ops' inc" "i < length (v2_clients s)" "v2_state (v2_clients s ! i) = TLSV2_STATE_OPEN"
    and "inbuf_ok (v2_inb (v2_clients s ! i))" "pending (v2_inb (v2_clients s ! i)) = []"
  shows "\<exists>g' c'. v2_client_send_all ops g d ms = Some (g', replicate (length ms) 0)
    \<and> v2_lookup_client_conn g' d = Some c' \<and> out (v2c_ssl c') = concat (map json_frame ms)
    \<and> (\<forall>ssl. v2_ssl (v2_clients s ! i) = Some ssl \<longrightarrow> inc ssl = out (v2c_ssl c') \<longrightarrow>
        (\<exists>ssl' f y. v2_json_try_receive os ops' i s
          = Some ((v2_upd i (\<lambda>c. c\<lparr>v2_ssl := Some ssl', v2_inb := f\<rparr>) (foldl (v2_deliver i) s (live ms)))\<lparr>v2_sys := y\<rparr>, 0)
          \<and> pending f = wedged ms))
    \<and> ([] \<notin> set ms \<longrightarrow> live ms = ms \<and> wedged ms = [])"
proof -
  from v2_client_send_all_out [OF assms(1,2,4)] obtain g' c' where
    g': "v2_client_send_all ops g d ms = Some (g', replicate (length ms) 0)" "v2_lookup_client_conn g' d = Some c'"
      "out (v2c_ssl c') = concat (map json_frame ms)"
    using assms(3) by auto
  have "\<exists>ssl' f y. v2_json_try_receive os ops' i s
      = Some ((v2_upd i (\<lambda>c. c\<lparr>v2_ssl := Some ssl', v2_inb := f\<rparr>) (foldl (v2_deliver i) s (live ms)))\<lparr>v2_sys := y\<rparr>, 0)
      \<and> pending f = wedged ms"
    if "v2_ssl (v2_clients s ! i) = Some ssl" "inc ssl = out (v2c_ssl c')" for ssl
    using v2_receive_stream [OF assms(6,7,4,5,8) that(1) assms(10)] assms(9,11) that(2) g'(3)
    by (auto simp: v2_json_try_receive_def v2_set_rx_def v2_rx_def stuck_def)
  with g' live_all [of ms] show ?thesis by blast
qed

text \<open>Two messages arrive; of three messages with an empty one in the middle the first arrives.\<close>

theorem v2_end_to_end_witness:
  "(\<exists>g'. v2_client_send_all tape_ssl (v2_one_conn []) 7 [[123, 125], [], [48]] = Some (g', [0, 0, 0]))
    \<and> (\<exists>t. v2_json_try_receive v2_demo_os mem_ssl 0
          (v2_demo (json_frame [123, 125] @ json_frame [] @ json_frame [48]) \<lparr>out_buf = [], out_used = 0, out_sent = 0\<rparr>)
          = Some (t, 0) \<and> v2_app t = [[123, 125]])"
proof -
  let ?ms = "[[123, 125], [], [48]] :: byte list list"
  let ?s = "v2_demo (json_frame [123, 125] @ json_frame [] @ json_frame [48]) \<lparr>out_buf = [], out_used = 0, out_sent = 0\<rparr>"
  have m: "v2_malloc_ok v2_demo_os" by (simp add: v2_malloc_ok_def v2_demo_os_def)
  have j: "\<forall>m \<in> set ?ms. length m \<le> TLSV2_MAX_JSON_SIZE" "length (wedged ?ms) < TLSV2_MAX_JSON_SIZE + 4"
    by (simp_all add: TLSV2_MAX_JSON_SIZE_def)
  have c: "snd (v2c_ssl \<lparr>v2c_sock = 7, v2c_ssl = ([] :: byte list, [] :: byte list)\<rparr>) = []" by simp
  have s: "0 < length (v2_clients ?s)" "v2_state (v2_clients ?s ! 0) = TLSV2_STATE_OPEN"
    "inbuf_ok (v2_inb (v2_clients ?s ! 0))" "pending (v2_inb (v2_clients ?s ! 0)) = []"
    by (simp_all add: v2_demo_def inbuf_ok_def pending_def TLSV2_MAX_JSON_SIZE_def)
  have l: "v2_ssl (v2_clients ?s ! 0) = Some (json_frame [123, 125] @ json_frame [] @ json_frame [48], [])" by (simp add: v2_demo_def)
  have a: "v2_app (foldl (v2_deliver 0) ?s (live ?ms)) = [[123, 125]]"
    by (simp add: v2_deliver_def v2_demo_def)
  have n: "replicate (length ?ms) (0 :: int) = [0, 0, 0]" "concat (map json_frame ?ms) = json_frame [123, 125] @ json_frame [] @ json_frame [48]"
    by simp_all
  note t = v2_end_to_end [OF tape_ssl_ok(2) v2_one_conn_lookup c j m mem_ssl_ok(1) s, unfolded n]
  then obtain g' and c' :: "(byte list \<times> byte list) v2_conn" where g: "v2_client_send_all tape_ssl (v2_one_conn []) 7 ?ms = Some (g', [0, 0, 0])"
      "snd (v2c_ssl c') = json_frame [123, 125] @ json_frame [] @ json_frame [48]"
    and r: "\<forall>ssl. v2_ssl (v2_clients ?s ! 0) = Some ssl \<longrightarrow> fst ssl = snd (v2c_ssl c') \<longrightarrow>
        (\<exists>ssl' f y. v2_json_try_receive v2_demo_os mem_ssl 0 ?s
          = Some ((v2_upd 0 (\<lambda>c. c\<lparr>v2_ssl := Some ssl', v2_inb := f\<rparr>) (foldl (v2_deliver 0) ?s (live ?ms)))\<lparr>v2_sys := y\<rparr>, 0)
          \<and> pending f = wedged ?ms)" by blast
  obtain ssl' f y where "v2_json_try_receive v2_demo_os mem_ssl 0 ?s
      = Some ((v2_upd 0 (\<lambda>c. c\<lparr>v2_ssl := Some ssl', v2_inb := f\<rparr>) (foldl (v2_deliver 0) ?s (live ?ms)))\<lparr>v2_sys := y\<rparr>, 0)"
    using r l g(2) by auto
  moreover have "v2_app ((v2_upd 0 (\<lambda>c. c\<lparr>v2_ssl := Some ssl', v2_inb := f\<rparr>) (foldl (v2_deliver 0) ?s (live ?ms)))\<lparr>v2_sys := y\<rparr>) = [[123, 125]]"
    using a by simp
  ultimately show ?thesis using g(1) by blast
qed

end
